(* ===== verification/Prelude.thy ===== *)
theory Prelude
  imports Main "HOL-Library.Word" "HOL-Library.AList" "HOL-Library.Multiset"
begin

unbundle bit_operations_syntax

text \<open>
  Shared vocabulary of the development: the exceptions of the modelled Python, results as sums,
  Python slices, insertion-ordered dictionaries (association lists in insertion order, with the
  operations of \<^verbatim>\<open>dict\<close> and \<^verbatim>\<open>collections.OrderedDict\<close> the code uses), and the generic lemmas
  the components share.
\<close>

named_theorems odict_simps "operations of insertion-ordered dictionaries"
named_theorems pslice_simps "Python slices of lists"

section \<open>Results\<close>

datatype exn =
    OSError | AssertionError | ValueError | RuntimeError | KeyError | IndexError | StructError
  | EOFError | MemoryError | UnsupportedStream | FileExistsError | FileNotFoundError
  | TypeError | ImportError | AttributeError | NotImplementedError | TimeoutError | ZeroDivisionError | OverflowError | StopIteration | Crash

type_synonym 'a res = "exn + 'a"

abbreviation ok :: "'a \<Rightarrow> 'a res" where "ok \<equiv> Inr"
abbreviation err :: "exn \<Rightarrow> 'a res" where "err \<equiv> Inl"

definition is_ok :: "'a res \<Rightarrow> bool" where
  "is_ok r = (case r of Inl _ \<Rightarrow> False | Inr _ \<Rightarrow> True)"

lemma is_ok_simps [simp]: "is_ok (Inr x)" "\<not> is_ok (Inl e)"
  by (simp_all add: is_ok_def)

lemma is_okE [elim]: "is_ok r \<Longrightarrow> (\<And>x. r = Inr x \<Longrightarrow> P) \<Longrightarrow> P"
  by (cases r) auto

text \<open>A sequence of fallible steps stops at the first error, as an exception would.\<close>

definition rbind :: "'a res \<Rightarrow> ('a \<Rightarrow> 'b res) \<Rightarrow> 'b res" where
  "rbind r f = (case r of Inl e \<Rightarrow> Inl e | Inr x \<Rightarrow> f x)"

lemma rbind_simps [simp]: "rbind (Inr x) f = f x" "rbind (Inl e) f = Inl e"
  by (simp_all add: rbind_def)

lemma rbind_ok_iff: "rbind r f = Inr y \<longleftrightarrow> (\<exists>x. r = Inr x \<and> f x = Inr y)"
  by (cases r) auto

fun fold_res :: "('a \<Rightarrow> 's \<Rightarrow> 's res) \<Rightarrow> 'a list \<Rightarrow> 's \<Rightarrow> 's res" where
  "fold_res f [] s = Inr s"
| "fold_res f (x # xs) s = rbind (f x s) (fold_res f xs)"

lemma fold_res_append: "fold_res f (xs @ ys) s = rbind (fold_res f xs s) (fold_res f ys)"
proof (induction xs arbitrary: s)
  case (Cons x xs)
  then show ?case by (cases "f x s") auto
qed simp

lemma fold_res_invariant:
  assumes "fold_res f xs s = Inr t" and "P s"
    and "\<And>x s s'. x \<in> set xs \<Longrightarrow> P s \<Longrightarrow> f x s = Inr s' \<Longrightarrow> P s'"
  shows "P t"
  using assms
proof (induction xs arbitrary: s)
  case (Cons x xs)
  from Cons.prems(1) obtain s' where s': "f x s = Inr s'" "fold_res f xs s' = Inr t"
    by (auto simp: rbind_ok_iff)
  have "P s'" using Cons.prems(2,3) s'(1) by auto
  then show ?case using Cons.IH s'(2) Cons.prems(3) by auto
qed simp

section \<open>Python slices\<close>

definition pslice :: "'a list \<Rightarrow> nat \<Rightarrow> nat \<Rightarrow> 'a list" where
  "pslice xs i j = take (j - i) (drop i xs)"

lemma length_pslice [pslice_simps]: "length (pslice xs i j) = min (j - i) (length xs - i)"
  by (simp add: pslice_def)

lemma pslice_update_inside [pslice_simps]:
  "i \<le> n \<Longrightarrow> n < j \<Longrightarrow> pslice (xs[n := b]) i j = (pslice xs i j)[n - i := b]"
  by (simp add: pslice_def take_update_swap drop_update_swap)

lemma pslice_update_outside [pslice_simps]:
  "n < i \<or> j \<le> n \<Longrightarrow> pslice (xs[n := b]) i j = pslice xs i j"
  by (cases "n < i") (auto simp: pslice_def drop_update_cancel drop_update_swap intro!: take_update_cancel)

lemma pslice_append_right [pslice_simps]:
  "length xs \<le> i \<Longrightarrow> pslice (xs @ ys) i j = pslice ys (i - length xs) (j - length xs)"
  by (simp add: pslice_def)

lemma pslice_append_left [pslice_simps]:
  "j \<le> length xs \<Longrightarrow> pslice (xs @ ys) i j = pslice xs i j"
  by (cases "i \<le> length xs") (simp_all add: pslice_def)

lemma pslice_full [pslice_simps]: "length xs \<le> j \<Longrightarrow> pslice xs 0 j = xs"
  by (simp add: pslice_def)

lemma pslice_split: "i \<le> j \<Longrightarrow> j \<le> k \<Longrightarrow> pslice xs i j @ pslice xs j k = pslice xs i k"
proof -
  assume "i \<le> j" "j \<le> k"
  have "take (k - i) (drop i xs) = take (j - i + (k - j)) (drop i xs)"
    using \<open>i \<le> j\<close> \<open>j \<le> k\<close> by simp
  also have "\<dots> = take (j - i) (drop i xs) @ take (k - j) (drop (j - i) (drop i xs))"
    by (simp only: take_add)
  also have "drop (j - i) (drop i xs) = drop j xs"
    using \<open>i \<le> j\<close> by simp
  finally show ?thesis by (simp add: pslice_def)
qed

section \<open>Insertion-ordered dictionaries\<close>

type_synonym ('k, 'v) odict = "('k \<times> 'v) list"

text \<open>
  \<^verbatim>\<open>d.get(k)\<close> is \<^const>\<open>map_of\<close>, \<^verbatim>\<open>d[k] = v\<close> is \<^const>\<open>AList.update\<close> (an existing key keeps its
  place), \<^verbatim>\<open>d.pop(k, None)\<close> is \<^const>\<open>AList.delete\<close>; \<^verbatim>\<open>move_to_end\<close> is below.
\<close>

definition od_keys :: "('k, 'v) odict \<Rightarrow> 'k list" where
  "od_keys d = map fst d"

definition od_values :: "('k, 'v) odict \<Rightarrow> 'v list" where
  "od_values d = map snd d"

definition od_wf :: "('k, 'v) odict \<Rightarrow> bool" where
  "od_wf d = distinct (od_keys d)"

definition od_move_to_end :: "'k \<Rightarrow> ('k, 'v) odict \<Rightarrow> ('k, 'v) odict" where
  "od_move_to_end k d =
     (case map_of d k of None \<Rightarrow> d | Some v \<Rightarrow> AList.delete k d @ [(k, v)])"

lemma od_wf_Nil [simp]: "od_wf []"
  by (simp add: od_wf_def od_keys_def)

lemma set_od_keys: "set (od_keys d) = dom (map_of d)"
  by (simp add: od_keys_def dom_map_of_conv_image_fst)

lemma map_of_None_iff: "map_of d k = None \<longleftrightarrow> k \<notin> set (od_keys d)"
  by (auto simp: od_keys_def map_of_eq_None_iff)

lemma map_of_Some_key [intro]: "map_of d k = Some v \<Longrightarrow> k \<in> set (od_keys d)"
  by (auto simp: set_od_keys)

lemma od_wf_update [simp, intro]: "od_wf d \<Longrightarrow> od_wf (AList.update k v d)"
  by (simp add: od_wf_def od_keys_def distinct_update)

lemma od_wf_delete [simp, intro]: "od_wf d \<Longrightarrow> od_wf (AList.delete k d)"
  by (simp add: od_wf_def od_keys_def distinct_delete)

lemma od_keys_delete: "set (od_keys (AList.delete k d)) = set (od_keys d) - {k}"
  by (simp add: od_keys_def delete_keys)

lemma od_keys_update: "set (od_keys (AList.update k v d)) = insert k (set (od_keys d))"
  by (auto simp: set_od_keys update_conv')

lemma map_of_delete: "map_of (AList.delete k d) k' = (if k' = k then None else map_of d k')"
  by (simp add: delete_conv')

lemma map_of_update: "map_of (AList.update k v d) k' = (if k' = k then Some v else map_of d k')"
  by (simp add: update_conv')

lemma map_of_move_to_end [odict_simps]: "map_of (od_move_to_end k d) = map_of d"
  by (auto simp: od_move_to_end_def map_add_def delete_conv' fun_eq_iff split: option.splits)

lemma od_keys_move_to_end [odict_simps]: "set (od_keys (od_move_to_end k d)) = set (od_keys d)"
  by (simp add: set_od_keys map_of_move_to_end)

lemma od_wf_move_to_end [simp, intro]: "od_wf d \<Longrightarrow> od_wf (od_move_to_end k d)"
  by (auto simp: od_move_to_end_def od_wf_def od_keys_def delete_keys distinct_removeAll
      split: option.splits)

lemma set_update_subset: "set (AList.update k v d) \<subseteq> insert (k, v) (set d)"
  by (induction d) auto

text \<open>The values of a dictionary as a multiset: what the slot-ownership invariants count.\<close>

lemma mset_delete:
  assumes "od_wf d" and "map_of d k = Some v"
  shows "mset d = add_mset (k, v) (mset (AList.delete k d))"
  using assms
proof (induction d)
  case (Cons p d)
  obtain k' v' where p: "p = (k', v')" by (cases p)
  show ?case
  proof (cases "k' = k")
    case True
    have "k \<notin> fst ` set d" using Cons.prems(1) True by (simp add: p od_wf_def od_keys_def)
    then have "AList.delete k d = d" by (simp add: delete_notin_dom dom_map_of_conv_image_fst)
    then show ?thesis using Cons.prems(2) True by (simp add: p)
  next
    case False
    then show ?thesis using Cons by (simp add: p od_wf_def od_keys_def)
  qed
qed simp

lemma delete_absent [simp]: "map_of d k = None \<Longrightarrow> AList.delete k d = d"
  by (induction d) (auto split: if_splits)

lemma delete_update_same [simp]: "AList.delete k (AList.update k v d) = AList.delete k d"
  by (induction d) (auto split: if_splits)

lemma update_absent: "map_of d k = None \<Longrightarrow> AList.update k v d = d @ [(k, v)]"
  by (induction d) (auto split: if_splits)

lemma mset_values_delete [odict_simps]:
  assumes "od_wf d" and "map_of d k = Some v"
  shows "mset (od_values d) = add_mset v (mset (od_values (AList.delete k d)))"
  using arg_cong [OF mset_delete [OF assms], of "image_mset snd"]
  by (simp add: od_values_def flip: mset_map)

lemma mset_values_update_absent [odict_simps]:
  "map_of d k = None \<Longrightarrow> mset (od_values (AList.update k v d)) = add_mset v (mset (od_values d))"
  by (simp add: update_absent od_values_def)

lemma mset_values_move_to_end [odict_simps]:
  "od_wf d \<Longrightarrow> mset (od_values (od_move_to_end k d)) = mset (od_values d)"
proof -
  assume wf: "od_wf d"
  show ?thesis
  proof (cases "map_of d k")
    case None
    then show ?thesis by (simp add: od_move_to_end_def)
  next
    case (Some v)
    have "mset (od_values (od_move_to_end k d)) = add_mset v (mset (od_values (AList.delete k d)))"
      using Some by (simp add: od_move_to_end_def od_values_def)
    then show ?thesis by (simp add: mset_values_delete [OF wf Some])
  qed
qed

section \<open>Lists\<close>

lemma distinct_mset_iff: "mset xs = mset ys \<Longrightarrow> distinct xs = distinct ys"
  by (metis mset_eq_imp_distinct_iff)

text \<open>\<^verbatim>\<open>list(dict.fromkeys(xs))\<close>: drop later duplicates, keep the order.\<close>

fun dedupe :: "'a list \<Rightarrow> 'a list" where
  "dedupe [] = []"
| "dedupe (x # xs) = x # filter (\<lambda>y. y \<noteq> x) (dedupe xs)"

lemma set_dedupe [simp]: "set (dedupe xs) = set xs"
  by (induction xs) auto

lemma distinct_dedupe [simp]: "distinct (dedupe xs)"
  by (induction xs) auto

lemma dedupe_distinct [simp]: "distinct xs \<Longrightarrow> dedupe xs = xs"
proof (induction xs)
  case (Cons x xs)
  then show ?case by (auto intro!: filter_True)
qed simp

lemma sum_list_replicate_nat [simp]: "sum_list (replicate n (c::nat)) = n * c"
  by (induction n) auto

text \<open>Two different slots of a layout with equal slot sizes do not overlap.\<close>

lemma extents_apart:
  fixes s s' sb :: nat
  assumes "s \<noteq> s'"
  shows "s * sb + sb \<le> s' * sb \<or> s' * sb + sb \<le> s * sb"
  using assms mult_le_mono1 [of "Suc s" s' sb] mult_le_mono1 [of "Suc s'" s sb]
  by (cases "s < s'") (simp_all add: add.commute)

end
