(* ===== verification/Slab_Format.thy ===== *)
theory Slab_Format
  imports Prelude
begin

text \<open>
  The slot header of the slab store (\<^verbatim>\<open>multinode.py\<close>, \<^verbatim>\<open>_SLAB_HDR\<close>, \<^verbatim>\<open>_crc\<close>, \<^verbatim>\<open>SlabIO.header\<close>,
  \<^verbatim>\<open>SlabIO.parse_header\<close>) down to its bytes: Python's \<^verbatim>\<open>struct\<close> packing of
  \<^verbatim>\<open>"<8sIIIIQ36sII52x"\<close> and zlib's CRC-32. The checksum enters the later theories through the
  locale \<^verbatim>\<open>byte_checksum\<close>, whose one law (a single changed byte changes the sum) is proved here
  for CRC-32 from the bijectivity of its shift step.
\<close>

type_synonym byte = "8 word"

section \<open>Little-endian integers\<close>

fun le_bytes :: "nat \<Rightarrow> nat \<Rightarrow> byte list" where
  "le_bytes 0 v = []"
| "le_bytes (Suc n) v = word_of_nat v # le_bytes n (v div 256)"

fun le_nat :: "byte list \<Rightarrow> nat" where
  "le_nat [] = 0"
| "le_nat (b # bs) = unat b + 256 * le_nat bs"

lemma byte_bound: "unat (b::byte) < 256"
  using unsigned_less [of b] by simp

lemma length_le_bytes [simp]: "length (le_bytes n v) = n"
  by (induction n arbitrary: v) auto

lemma le_nat_le_bytes: "le_nat (le_bytes n v) = v mod 256 ^ n"
proof (induction n arbitrary: v)
  case (Suc n)
  have "unat (word_of_nat v :: byte) = v mod 256"
    by (simp add: unat_of_nat)
  then show ?case
    using Suc [of "v div 256"] mod_mult2_eq [of v 256 "256 ^ n"] by simp
qed simp

lemma le_bytes_le_nat: "le_bytes (length bs) (le_nat bs) = bs"
proof (induction bs)
  case (Cons b bs)
  have d: "(unat b + 256 * le_nat bs) div 256 = le_nat bs"
    using byte_bound [of b] by simp
  have "word_of_nat (unat b + 256 * le_nat bs) = (word_of_nat (unat b) :: byte) + 256 * word_of_nat (le_nat bs)"
    by simp
  also have "(256 :: byte) = 0" by (simp add: word_unat_eq_iff)
  finally show ?case using Cons d by simp
qed simp

lemma le_nat_inject: "length xs = length ys \<Longrightarrow> le_nat xs = le_nat ys \<Longrightarrow> xs = ys"
  by (metis le_bytes_le_nat)

lemma le_nat_bound: "le_nat bs < 256 ^ length bs"
proof (induction bs)
  case (Cons b bs)
  show ?case using Cons byte_bound [of b] by simp
qed simp

section \<open>CRC-32\<close>

definition crc_shift :: "32 word \<Rightarrow> 32 word" where
  "crc_shift c = (if bit c 0 then drop_bit 1 c XOR 0xEDB88320 else drop_bit 1 c)"

definition crc_byte :: "32 word \<Rightarrow> byte \<Rightarrow> 32 word" where
  "crc_byte c b =
     crc_shift (crc_shift (crc_shift (crc_shift (crc_shift (crc_shift (crc_shift (crc_shift
       (c XOR ucast b))))))))"

definition zlib_crc32 :: "byte list \<Rightarrow> 32 word \<Rightarrow> 32 word" where
  "zlib_crc32 data c = NOT (foldl crc_byte (NOT c) data)"

definition crc :: "byte list list \<Rightarrow> 32 word" where
  "crc bufs = foldl (\<lambda>c b. zlib_crc32 b c) 0 bufs"

lemma zlib_crc32_append: "zlib_crc32 (xs @ ys) c = zlib_crc32 ys (zlib_crc32 xs c)"
  by (simp add: zlib_crc32_def)

lemma zlib_crc32_Nil [simp]: "zlib_crc32 [] c = c"
  by (simp add: zlib_crc32_def)

text \<open>Summing a list of buffers is summing their concatenation.\<close>

lemma crc_concat: "crc bufs = zlib_crc32 (concat bufs) 0"
proof -
  have "foldl (\<lambda>c b. zlib_crc32 b c) c bufs = zlib_crc32 (concat bufs) c" for c
    by (induction bufs arbitrary: c) (simp_all add: zlib_crc32_append)
  then show ?thesis by (simp add: crc_def)
qed

lemma crc_shift_top: "bit (crc_shift c) 31 = bit c 0"
proof -
  have "\<not> bit (drop_bit 1 c) 31" using bit_imp_le_length [of c 32] by (auto simp: bit_drop_bit_eq)
  moreover have "bit (0xEDB88320 :: 32 word) 31" by simp
  ultimately show ?thesis by (simp add: crc_shift_def bit_xor_iff)
qed

lemma drop_bit_1_inject:
  fixes c d :: "'a::len word"
  assumes "drop_bit 1 c = drop_bit 1 d" and "bit c 0 = bit d 0"
  shows "c = d"
proof (rule bit_word_eqI)
  fix n
  show "bit c n = bit d n"
  proof (cases n)
    case (Suc m)
    have "bit (drop_bit 1 c) m = bit (drop_bit 1 d) m" using assms(1) by simp
    then show ?thesis by (simp add: bit_drop_bit_eq Suc)
  qed (use assms(2) in simp)
qed

lemma xor_inject_right: "(a::'a::len word) XOR c = b XOR c \<longleftrightarrow> a = b"
proof
  assume "a XOR c = b XOR c"
  then have "(a XOR c) XOR c = (b XOR c) XOR c" by (rule arg_cong)
  then show "a = b" by (simp add: xor.assoc)
qed simp

lemma xor_inject_left: "(c::'a::len word) XOR a = c XOR b \<longleftrightarrow> a = b"
  using xor_inject_right [of a c b] by (simp add: xor.commute)

lemma crc_shift_inject: "crc_shift c = crc_shift d \<longleftrightarrow> c = d"
proof
  assume eq: "crc_shift c = crc_shift d"
  have low: "bit c 0 = bit d 0" using crc_shift_top [of c] crc_shift_top [of d] eq by simp
  have "drop_bit 1 c = drop_bit 1 d"
  proof (cases "bit d 0")
    case True
    then have "drop_bit 1 c XOR 0xEDB88320 = drop_bit 1 d XOR 0xEDB88320"
      using eq low by (simp add: crc_shift_def)
    then show ?thesis by (simp add: xor_inject_right)
  next
    case False
    then show ?thesis using eq low by (simp add: crc_shift_def)
  qed
  then show "c = d" using low by (rule drop_bit_1_inject)
qed simp

lemma ucast_byte_inject: "(ucast (b::byte) :: 32 word) = ucast b' \<longleftrightarrow> b = b'"
proof
  assume "(ucast b :: 32 word) = ucast b'"
  then have "unat (ucast b :: 32 word) = unat (ucast b' :: 32 word)" by simp
  then have "unat b = unat b'"
    using byte_bound [of b] byte_bound [of b'] by (simp add: unsigned_ucast_eq take_bit_nat_eq_self)
  then show "b = b'" by (simp add: word_unat_eq_iff)
qed simp

lemma crc_byte_state_inject: "crc_byte c b = crc_byte d b \<longleftrightarrow> c = d"
  by (simp add: crc_byte_def crc_shift_inject xor_inject_right)

lemma crc_byte_byte_inject: "crc_byte c b = crc_byte c b' \<longleftrightarrow> b = b'"
  by (simp add: crc_byte_def crc_shift_inject xor_inject_left ucast_byte_inject)

lemma foldl_crc_state_inject: "foldl crc_byte c bs = foldl crc_byte d bs \<longleftrightarrow> c = d"
  by (induction bs arbitrary: c d) (simp_all add: crc_byte_state_inject)

lemma not_word_inject: "NOT (c::'a::len word) = NOT d \<longleftrightarrow> c = d"
  by (metis bit.double_compl)

text \<open>A checksum that notices a change of one byte: the contract the header and the slots rely on.\<close>

locale byte_checksum =
  fixes sum :: "byte list \<Rightarrow> 32 word"
  assumes detects_byte: "i < length bs \<Longrightarrow> b \<noteq> bs ! i \<Longrightarrow> sum (bs[i := b]) \<noteq> sum bs"
begin

lemma update_changes_sum: "i < length bs \<Longrightarrow> sum (bs[i := b]) = sum bs \<longleftrightarrow> b = bs ! i"
  using detects_byte [of i bs b] by auto

lemma uint_sum_changes: "i < length bs \<Longrightarrow> b \<noteq> bs ! i \<Longrightarrow> uint (sum (bs[i := b])) \<noteq> uint (sum bs)"
  using detects_byte [of i bs b] by (simp add: word_uint_eq_iff)

end

lemma zlib_crc32_detects_byte:
  assumes "i < length bs" and "b \<noteq> bs ! i"
  shows "zlib_crc32 (bs[i := b]) c \<noteq> zlib_crc32 bs c"
proof -
  let ?s = "foldl crc_byte (NOT c) (take i bs)"
  have "foldl crc_byte (NOT c) bs = foldl crc_byte (crc_byte ?s (bs ! i)) (drop (Suc i) bs)"
    using assms(1) by (subst id_take_nth_drop [OF assms(1)]) simp
  moreover have "foldl crc_byte (NOT c) (bs[i := b]) = foldl crc_byte (crc_byte ?s b) (drop (Suc i) bs)"
    using assms(1) by (simp add: upd_conv_take_nth_drop)
  ultimately show ?thesis
    using assms(2) by (simp add: zlib_crc32_def not_word_inject foldl_crc_state_inject crc_byte_byte_inject)
qed

interpretation crc32: byte_checksum "\<lambda>bs. zlib_crc32 bs 0"
  by unfold_locales (rule zlib_crc32_detects_byte)

section \<open>The slot header\<close>

definition SLAB_MAGIC :: "byte list" where
  "SLAB_MAGIC = [71, 76, 77, 83, 76, 65, 66, 49]"

definition SLAB_HEADER_BYTES :: nat where "SLAB_HEADER_BYTES = 128"

definition SLAB_VERSION :: int where "SLAB_VERSION = 2"

text \<open>The fields of \<^verbatim>\<open>struct.Struct("<8sIIIIQ36sII52x")\<close>, in their order.\<close>

record slab_hdr =
  h_magic :: "byte list"
  h_version :: int
  h_group :: int
  h_epoch :: int
  h_length :: int
  h_seq :: int
  h_key :: "byte list"
  h_pcrc :: int
  h_hcrc :: int

text \<open>\<^verbatim>\<open>"ns"\<close> pads with zeros or cuts to \<open>n\<close> bytes; \<^verbatim>\<open>"I"\<close> and \<^verbatim>\<open>"Q"\<close> raise outside their range.\<close>

definition pad_to :: "nat \<Rightarrow> byte list \<Rightarrow> byte list" where
  "pad_to n bs = take n (bs @ replicate n 0)"

definition fits :: "nat \<Rightarrow> int \<Rightarrow> bool" where
  "fits n v = (0 \<le> v \<and> v < 256 ^ n)"

definition hdr_in_range :: "slab_hdr \<Rightarrow> bool" where
  "hdr_in_range h =
     (fits 4 (h_version h) \<and> fits 4 (h_group h) \<and> fits 4 (h_epoch h) \<and> fits 4 (h_length h)
      \<and> fits 8 (h_seq h) \<and> fits 4 (h_pcrc h) \<and> fits 4 (h_hcrc h))"

definition slab_hdr_bytes :: "slab_hdr \<Rightarrow> byte list" where
  "slab_hdr_bytes h =
     pad_to 8 (h_magic h) @ le_bytes 4 (nat (h_version h)) @ le_bytes 4 (nat (h_group h))
     @ le_bytes 4 (nat (h_epoch h)) @ le_bytes 4 (nat (h_length h)) @ le_bytes 8 (nat (h_seq h))
     @ pad_to 36 (h_key h) @ le_bytes 4 (nat (h_pcrc h)) @ le_bytes 4 (nat (h_hcrc h))
     @ replicate 52 0"

definition slab_pack :: "slab_hdr \<Rightarrow> byte list res" where
  "slab_pack h = (if hdr_in_range h then ok (slab_hdr_bytes h) else err StructError)"

definition slab_unpack :: "byte list \<Rightarrow> slab_hdr" where
  "slab_unpack raw =
     \<lparr>h_magic = pslice raw 0 8, h_version = int (le_nat (pslice raw 8 12)),
      h_group = int (le_nat (pslice raw 12 16)), h_epoch = int (le_nat (pslice raw 16 20)),
      h_length = int (le_nat (pslice raw 20 24)), h_seq = int (le_nat (pslice raw 24 32)),
      h_key = pslice raw 32 68, h_pcrc = int (le_nat (pslice raw 68 72)),
      h_hcrc = int (le_nat (pslice raw 72 76))\<rparr>"

text \<open>
  \<^verbatim>\<open>SlabIO.header\<close>: the checksum is taken over the header with its own field zero. The group is
  \<^verbatim>\<open>get_offload_group_idx(key)\<close>, code of the engine, and is passed in; \<^verbatim>\<open>self_epoch\<close> is the
  object's own epoch, used when the call gives none.
\<close>

definition header :: "int \<Rightarrow> nat \<Rightarrow> byte list \<Rightarrow> nat \<Rightarrow> int \<Rightarrow> 32 word \<Rightarrow> int option \<Rightarrow> byte list res" where
  "header self_epoch g key len seq payload_crc epoch =
     (if length key \<noteq> 36 then err AssertionError
      else
        let ep = (case epoch of None \<Rightarrow> self_epoch | Some e \<Rightarrow> e);
            h = \<lparr>h_magic = SLAB_MAGIC, h_version = SLAB_VERSION, h_group = int g, h_epoch = ep,
                 h_length = int len, h_seq = seq, h_key = key, h_pcrc = uint payload_crc, h_hcrc = 0\<rparr>
        in rbind (slab_pack h) (\<lambda>base. slab_pack (h\<lparr>h_hcrc := uint (crc [base])\<rparr>)))"

text \<open>
  \<^verbatim>\<open>SlabIO.parse_header\<close>: the tuple it returns (group, epoch, length, seq, key, payload crc) is the
  header itself. Repacking an unpacked header cannot raise (\<open>hdr_in_range_unpack\<close> below), so the
  bytes of the base are taken directly.
\<close>

definition parse_header :: "byte list \<Rightarrow> slab_hdr option" where
  "parse_header raw =
     (if length raw < SLAB_HEADER_BYTES then None
      else
        let h = slab_unpack (take SLAB_HEADER_BYTES raw) in
        if h_magic h \<noteq> SLAB_MAGIC \<or> h_version h \<noteq> SLAB_VERSION then None
        else if uint (crc [slab_hdr_bytes (h\<lparr>h_hcrc := 0\<rparr>)]) \<noteq> h_hcrc h then None
        else Some h)"

subsection \<open>Packing and unpacking\<close>

lemma length_pad_to [simp]: "length (pad_to n bs) = n"
  by (simp add: pad_to_def)

lemma pad_to_exact [simp]: "length bs = n \<Longrightarrow> pad_to n bs = bs"
  by (simp add: pad_to_def)

lemma length_slab_hdr_bytes [simp]: "length (slab_hdr_bytes h) = 128"
  by (simp add: slab_hdr_bytes_def)

lemma fits_le_nat: "length bs = n \<Longrightarrow> fits n (int (le_nat bs))"
  using le_nat_bound [of bs] by (auto simp: fits_def simp flip: of_nat_power)

lemma le_nat_fits: "fits n v \<Longrightarrow> int (le_nat (le_bytes n (nat v))) = v"
proof -
  assume f: "fits n v"
  then have "nat v < 256 ^ n"
    by (simp add: fits_def nat_less_iff)
  then show ?thesis using f by (simp add: le_nat_le_bytes fits_def)
qed

lemma uint_eq_int_iff: "uint (w::'a::len word) = int n \<longleftrightarrow> unat w = n"
proof -
  have "uint w = int (unat w)" by simp
  then show ?thesis by (simp only: of_nat_eq_iff)
qed

lemma hdr_in_range_unpack: "length raw = 128 \<Longrightarrow> hdr_in_range (slab_unpack raw)"
  by (simp add: hdr_in_range_def slab_unpack_def fits_le_nat length_pslice)

lemma pslice_after: "length xs = i \<Longrightarrow> length ys = j - i \<Longrightarrow> pslice (xs @ ys @ zs) i j = ys"
  by (simp add: pslice_def)

lemma slab_unpack_bytes:
  assumes r: "hdr_in_range h" and "length (h_magic h) = 8" and "length (h_key h) = 36"
  shows "slab_unpack (slab_hdr_bytes h) = h"
proof -
  let ?m = "h_magic h" let ?v = "le_bytes 4 (nat (h_version h))" let ?g = "le_bytes 4 (nat (h_group h))"
  let ?e = "le_bytes 4 (nat (h_epoch h))" let ?l = "le_bytes 4 (nat (h_length h))"
  let ?s = "le_bytes 8 (nat (h_seq h))" let ?k = "h_key h"
  let ?p = "le_bytes 4 (nat (h_pcrc h))" let ?c = "le_bytes 4 (nat (h_hcrc h))"
  let ?z = "replicate 52 (0::byte)" let ?raw = "slab_hdr_bytes h"
  have raw: "?raw = ?m @ ?v @ ?g @ ?e @ ?l @ ?s @ ?k @ ?p @ ?c @ ?z"
    using assms(2,3) by (simp add: slab_hdr_bytes_def)
  have "pslice ?raw 0 8 = ?m"
    using assms(2) pslice_after [of "[]" 0 ?m 8 "?v @ ?g @ ?e @ ?l @ ?s @ ?k @ ?p @ ?c @ ?z"] by (simp add: raw)
  moreover have "pslice ?raw 8 12 = ?v"
    using assms(2) pslice_after [of ?m 8 ?v 12 "?g @ ?e @ ?l @ ?s @ ?k @ ?p @ ?c @ ?z"] by (simp add: raw)
  moreover have "pslice ?raw 12 16 = ?g"
    using assms(2) pslice_after [of "?m @ ?v" 12 ?g 16 "?e @ ?l @ ?s @ ?k @ ?p @ ?c @ ?z"] by (simp add: raw)
  moreover have "pslice ?raw 16 20 = ?e"
    using assms(2) pslice_after [of "?m @ ?v @ ?g" 16 ?e 20 "?l @ ?s @ ?k @ ?p @ ?c @ ?z"] by (simp add: raw)
  moreover have "pslice ?raw 20 24 = ?l"
    using assms(2) pslice_after [of "?m @ ?v @ ?g @ ?e" 20 ?l 24 "?s @ ?k @ ?p @ ?c @ ?z"] by (simp add: raw)
  moreover have "pslice ?raw 24 32 = ?s"
    using assms(2) pslice_after [of "?m @ ?v @ ?g @ ?e @ ?l" 24 ?s 32 "?k @ ?p @ ?c @ ?z"] by (simp add: raw)
  moreover have "pslice ?raw 32 68 = ?k"
    using assms(2,3) pslice_after [of "?m @ ?v @ ?g @ ?e @ ?l @ ?s" 32 ?k 68 "?p @ ?c @ ?z"] by (simp add: raw)
  moreover have "pslice ?raw 68 72 = ?p"
    using assms(2,3) pslice_after [of "?m @ ?v @ ?g @ ?e @ ?l @ ?s @ ?k" 68 ?p 72 "?c @ ?z"] by (simp add: raw)
  moreover have "pslice ?raw 72 76 = ?c"
    using assms(2,3) pslice_after [of "?m @ ?v @ ?g @ ?e @ ?l @ ?s @ ?k @ ?p" 72 ?c 76 ?z] by (simp add: raw)
  ultimately show ?thesis
    using r by (simp add: slab_unpack_def hdr_in_range_def le_nat_fits)
qed

lemma le_bytes_pslice:
  "j \<le> length raw \<Longrightarrow> i \<le> j \<Longrightarrow> le_bytes (j - i) (le_nat (pslice raw i j)) = pslice raw i j"
  using le_bytes_le_nat [of "pslice raw i j"] by (simp add: length_pslice)

lemma le_bytes_zero: "le_bytes n 0 = replicate n 0"
  by (induction n) auto

lemma base_of_raw:
  assumes "length raw = 128"
  shows "slab_hdr_bytes ((slab_unpack raw)\<lparr>h_hcrc := 0\<rparr>) = pslice raw 0 72 @ replicate 56 0"
proof -
  have s: "le_bytes 4 (le_nat (pslice raw 8 12)) = pslice raw 8 12"
    "le_bytes 4 (le_nat (pslice raw 12 16)) = pslice raw 12 16"
    "le_bytes 4 (le_nat (pslice raw 16 20)) = pslice raw 16 20"
    "le_bytes 4 (le_nat (pslice raw 20 24)) = pslice raw 20 24"
    "le_bytes 8 (le_nat (pslice raw 24 32)) = pslice raw 24 32"
    "le_bytes 4 (le_nat (pslice raw 68 72)) = pslice raw 68 72"
    using assms le_bytes_pslice [of 12 raw 8] le_bytes_pslice [of 16 raw 12] le_bytes_pslice [of 20 raw 16]
      le_bytes_pslice [of 24 raw 20] le_bytes_pslice [of 32 raw 24] le_bytes_pslice [of 72 raw 68] by simp_all
  have "pslice raw 0 72 = pslice raw 0 8 @ pslice raw 8 12 @ pslice raw 12 16 @ pslice raw 16 20
      @ pslice raw 20 24 @ pslice raw 24 32 @ pslice raw 32 68 @ pslice raw 68 72"
    by (simp add: pslice_split)
  moreover have "replicate 56 (0::byte) = replicate 4 0 @ replicate 52 0"
    by (simp flip: replicate_add)
  ultimately show ?thesis
    using assms by (simp add: slab_hdr_bytes_def slab_unpack_def s le_bytes_zero length_pslice)
qed

text \<open>Parsing in terms of the raw bytes: three comparisons of slices.\<close>

lemma parse_header_raw:
  assumes "length raw = 128"
  shows "parse_header raw =
    (if pslice raw 0 8 = SLAB_MAGIC \<and> int (le_nat (pslice raw 8 12)) = SLAB_VERSION
        \<and> unat (zlib_crc32 (pslice raw 0 72 @ replicate 56 0) 0) = le_nat (pslice raw 72 76)
     then Some (slab_unpack raw) else None)"
proof -
  have "uint (zlib_crc32 (pslice raw 0 72 @ replicate 56 0) 0) = int (le_nat (pslice raw 72 76))
    \<longleftrightarrow> unat (zlib_crc32 (pslice raw 0 72 @ replicate 56 0) 0) = le_nat (pslice raw 72 76)"
    by (rule uint_eq_int_iff)
  moreover have "h_hcrc (slab_unpack raw) = int (le_nat (pslice raw 72 76))"
    "h_magic (slab_unpack raw) = pslice raw 0 8"
    "h_version (slab_unpack raw) = int (le_nat (pslice raw 8 12))"
    by (simp_all add: slab_unpack_def)
  ultimately show ?thesis
    using assms base_of_raw [OF assms] by (simp add: parse_header_def SLAB_HEADER_BYTES_def crc_concat Let_def)
qed

lemma parse_header_take: "parse_header (take 128 raw) = parse_header raw"
  by (simp add: parse_header_def SLAB_HEADER_BYTES_def min_def)

lemma header_ok_iff:
  "is_ok (header se g key len seq pc epoch) \<longleftrightarrow>
     length key = 36 \<and> fits 4 (int g) \<and> fits 4 (case epoch of None \<Rightarrow> se | Some e \<Rightarrow> e)
     \<and> fits 4 (int len) \<and> fits 8 seq"
proof -
  have "fits 4 (uint (c :: 32 word))" for c
    using unsigned_less [of c] by (simp add: fits_def)
  moreover have "fits 4 SLAB_VERSION" "fits 4 0" by (simp_all add: fits_def SLAB_VERSION_def)
  ultimately show ?thesis
    by (auto simp: header_def Let_def slab_pack_def hdr_in_range_def)
qed

text \<open>What \<^const>\<open>header\<close> builds, and that it parses.\<close>

lemma header_okD:
  assumes "header se g key len seq pc epoch = ok raw"
  defines "h \<equiv> \<lparr>h_magic = SLAB_MAGIC, h_version = SLAB_VERSION, h_group = int g,
      h_epoch = (case epoch of None \<Rightarrow> se | Some e \<Rightarrow> e), h_length = int len, h_seq = seq, h_key = key,
      h_pcrc = uint pc, h_hcrc = 0\<rparr>"
  shows "length raw = 128" and "parse_header raw = Some (h\<lparr>h_hcrc := uint (crc [slab_hdr_bytes h])\<rparr>)"
proof -
  let ?h = "h\<lparr>h_hcrc := uint (crc [slab_hdr_bytes h])\<rparr>"
  have k: "length key = 36" and r: "hdr_in_range ?h" and raw: "raw = slab_hdr_bytes ?h"
    using assms(1) by (auto simp: header_def Let_def slab_pack_def h_def split: if_splits)
  show l: "length raw = 128" by (simp add: raw)
  have "slab_unpack raw = ?h"
    unfolding raw using r k by (intro slab_unpack_bytes) (simp_all add: h_def SLAB_MAGIC_def)
  then show "parse_header raw = Some ?h"
    using l by (simp add: parse_header_def SLAB_HEADER_BYTES_def Let_def h_def)
qed

text \<open>A header whose first byte is not the magic's never parses, in particular a blanked one.\<close>

lemma parse_header_bad_first:
  assumes "raw \<noteq> []" and "hd raw \<noteq> 71"
  shows "parse_header raw = None"
proof (cases "length raw < 128")
  case False
  have "pslice (take 128 raw) 0 8 \<noteq> SLAB_MAGIC"
    using assms False by (cases raw) (auto simp: pslice_def SLAB_MAGIC_def min_def)
  then show ?thesis
    using False parse_header_raw [of "take 128 raw"] by (simp add: parse_header_take)
qed (simp add: parse_header_def SLAB_HEADER_BYTES_def)

text \<open>The first 76 bytes, up to the checksum, are covered by it; the rest of a header is padding.\<close>

lemma parse_header_sealed_byte:
  assumes "length raw = SLAB_HEADER_BYTES" and "parse_header raw = Some h" and "i < 76" and "b \<noteq> raw ! i"
  shows "parse_header (raw[i := b]) = None"
proof -
  have l: "length raw = 128" "length (raw[i := b]) = 128"
    using assms(1) by (simp_all add: SLAB_HEADER_BYTES_def)
  have c: "unat (zlib_crc32 (pslice raw 0 72 @ replicate 56 0) 0) = le_nat (pslice raw 72 76)"
    using assms(2) by (simp add: parse_header_raw [OF l(1)] split: if_splits)
  show ?thesis
  proof (cases "i < 72")
    case True
    let ?s = "pslice raw 0 72 @ replicate 56 0"
    have "pslice (raw[i := b]) 0 72 @ replicate 56 0 = ?s[i := b]"
      using True l by (simp add: pslice_simps list_update_append)
    moreover have "zlib_crc32 (?s[i := b]) 0 \<noteq> zlib_crc32 ?s 0"
      using True l assms(4) by (intro crc32.detects_byte) (auto simp: nth_append pslice_def)
    ultimately have "unat (zlib_crc32 (pslice (raw[i := b]) 0 72 @ replicate 56 0) 0)
        \<noteq> le_nat (pslice (raw[i := b]) 72 76)"
      using True c by (simp add: pslice_simps word_unat_eq_iff)
    then show ?thesis by (simp add: parse_header_raw [OF l(2)])
  next
    case False
    have "pslice (raw[i := b]) 72 76 \<noteq> pslice raw 72 76"
    proof
      assume "pslice (raw[i := b]) 72 76 = pslice raw 72 76"
      then have "(pslice raw 72 76)[i - 72 := b] ! (i - 72) = pslice raw 72 76 ! (i - 72)"
        using False assms(3) by (simp add: pslice_simps)
      then show False using False assms(3,4) l by (simp add: pslice_def)
    qed
    then have "le_nat (pslice (raw[i := b]) 72 76) \<noteq> le_nat (pslice raw 72 76)"
      using l by (metis le_nat_inject length_pslice)
    moreover have "pslice (raw[i := b]) 0 72 = pslice raw 0 72" using False by (simp add: pslice_simps)
    ultimately show ?thesis using c by (simp add: parse_header_raw [OF l(2)])
  qed
qed

lemma parse_header_single_byte:
  assumes "length raw = SLAB_HEADER_BYTES" and "parse_header raw = Some h"
  shows "parse_header (raw[i := b]) = None \<or> parse_header (raw[i := b]) = Some h"
proof (cases "i < 76 \<and> b \<noteq> raw ! i")
  case True
  then show ?thesis using parse_header_sealed_byte [OF assms] by blast
next
  case False
  have l: "length raw = 128" "length (raw[i := b]) = 128"
    using assms(1) by (simp_all add: SLAB_HEADER_BYTES_def)
  show ?thesis
  proof (cases "i < 76")
    case True
    then have "raw[i := b] = raw" using False l by auto
    then show ?thesis using assms(2) by simp
  next
    case False
    then have same: "pslice (raw[i := b]) x y = pslice raw x y" if "y \<le> 76" for x y
      using that by (simp add: pslice_simps)
    then have "slab_unpack (raw[i := b]) = slab_unpack raw"
      by (simp add: slab_unpack_def)
    then show ?thesis
      using assms(2) same by (auto simp: parse_header_raw [OF l(1)] parse_header_raw [OF l(2)] split: if_splits)
  qed
qed

section \<open>Properties\<close>

text \<open>
  A header that \<^verbatim>\<open>SlabIO.header\<close> builds parses back to exactly the group, epoch, length, write
  sequence number, key and payload checksum it was built from.
\<close>

theorem header_roundtrip:
  assumes "header self_epoch g key len seq payload_crc epoch = ok raw"
  shows "\<exists>h. parse_header raw = Some h \<and> h_group h = int g
     \<and> h_epoch h = (case epoch of None \<Rightarrow> self_epoch | Some e \<Rightarrow> e)
     \<and> h_length h = int len \<and> h_seq h = seq \<and> h_key h = key \<and> h_pcrc h = uint payload_crc"
  using header_okD(2) [OF assms] by simp

theorem header_roundtrip_witness:
  "\<exists>raw h. header 3 0 (replicate 36 7) 4096 9 5 None = ok raw \<and> parse_header raw = Some h
     \<and> h_epoch h = 3 \<and> h_seq h = 9 \<and> h_key h = replicate 36 7"
proof -
  have "is_ok (header 3 0 (replicate 36 7) 4096 9 5 None)"
    by (simp add: header_ok_iff fits_def)
  then obtain raw where raw: "header 3 0 (replicate 36 7) 4096 9 5 None = ok raw" by blast
  from header_roundtrip [OF raw] raw show ?thesis by auto
qed

text \<open>
  Damage to any one byte of a stored header is harmless: either the header no longer parses (the
  slot reads as a miss), or the byte lies in the padding and the parsed header is unchanged. No
  single-byte corruption makes a header parse as a different key, epoch, length or checksum.
\<close>

theorem parse_header_single_byte_damage:
  assumes "length raw = SLAB_HEADER_BYTES" and "parse_header raw = Some h"
  shows "parse_header (raw[i := b]) = None \<or> parse_header (raw[i := b]) = Some h"
  using assms by (rule parse_header_single_byte)

theorem parse_header_single_byte_damage_witness:
  "\<exists>raw h. header 3 0 (replicate 36 7) 4096 9 5 None = ok raw \<and> parse_header raw = Some h
     \<and> (parse_header (raw[40 := 8]) = None \<or> parse_header (raw[40 := 8]) = Some h)"
proof -
  have "is_ok (header 3 0 (replicate 36 7) 4096 9 5 None)"
    by (simp add: header_ok_iff fits_def)
  then obtain raw where raw: "header 3 0 (replicate 36 7) 4096 9 5 None = ok raw" by blast
  have l: "length raw = SLAB_HEADER_BYTES" by (simp add: header_okD(1) [OF raw] SLAB_HEADER_BYTES_def)
  obtain h where h: "parse_header raw = Some h" using header_okD(2) [OF raw] by blast
  show ?thesis using raw h parse_header_single_byte_damage [OF l h] by blast
qed

end
