(* ===== verification/Slab_IO.thy ===== *)
theory Slab_IO
  imports Slab_Format
begin

text \<open>
  Slot-level I/O of one rank (\<^verbatim>\<open>multinode.py\<close>: \<^verbatim>\<open>_drain_iov\<close> and \<^verbatim>\<open>SlabIO\<close>). A slab file is a byte
  list. What the operating system may do is an explicit list of answers: each \<^verbatim>\<open>pwrite\<close>,
  \<^verbatim>\<open>pwritev\<close> or \<^verbatim>\<open>preadv\<close> takes the next answer, which is a byte count (clipped to what was asked, a
  count of zero or less being the error the code raises) or the loss of the process; when the
  answers are used up a call does all its work. A theorem over all answer lists is therefore a
  theorem over every pattern of short writes, failed writes and crashes.
\<close>

section \<open>Files and system calls\<close>

datatype os_answer = Did int | Crashed

fun next_count :: "os_answer list \<Rightarrow> nat \<Rightarrow> int res \<times> os_answer list" where
  "next_count [] n = (ok (int n), [])"
| "next_count (Did a # as) n = (ok (min a (int n)), as)"
| "next_count (Crashed # as) n = (err Crash, as)"

definition benign :: "os_answer list \<Rightarrow> bool" where
  "benign as = list_all (\<lambda>a. case a of Did n \<Rightarrow> 0 < n | Crashed \<Rightarrow> False) as"

lemma benign_simps [simp]:
  "benign []" "benign (Did n # as) \<longleftrightarrow> 0 < n \<and> benign as" "\<not> benign (Crashed # as)"
  by (simp_all add: benign_def)

lemma next_count_bound: "next_count as n = (ok k, as') \<Longrightarrow> k \<le> int n"
  by (cases "(as, n)" rule: next_count.cases) auto

lemma next_count_benign:
  "benign as \<Longrightarrow> 0 < n \<Longrightarrow> \<exists>k as'. next_count as n = (ok k, as') \<and> 0 < k \<and> k \<le> int n \<and> benign as'"
  by (cases "(as, n)" rule: next_count.cases) auto

text \<open>A write past the end of a file leaves zeros in the gap; a write of nothing changes nothing.\<close>

definition pwrite :: "byte list \<Rightarrow> byte list \<Rightarrow> nat \<Rightarrow> byte list" where
  "pwrite f data off =
     (if data = [] then f
      else let f0 = f @ replicate (off - length f) 0
           in take off f0 @ data @ drop (off + length data) f0)"

definition pread :: "byte list \<Rightarrow> nat \<Rightarrow> nat \<Rightarrow> byte list" where
  "pread f n off = take n (drop off f)"

lemma pwrite_Nil [simp]: "pwrite f [] off = f"
  by (simp add: pwrite_def)

definition patch :: "byte list \<Rightarrow> byte list \<Rightarrow> nat \<Rightarrow> byte list" where
  "patch f data off = take off f @ data @ drop (off + length data) f"

lemma pwrite_patch: "data \<noteq> [] \<Longrightarrow> pwrite f data off = patch (f @ replicate (off - length f) 0) data off"
  by (simp add: pwrite_def patch_def Let_def)

lemma patch_append: "off \<le> length f \<Longrightarrow> patch (patch f xs off) ys (off + length xs) = patch f (xs @ ys) off"
  by (simp add: patch_def add.commute add.left_commute)

lemma length_patch: "off \<le> length f \<Longrightarrow> length (patch f xs off) = max (length f) (off + length xs)"
  by (auto simp: patch_def)

lemma nth_patch:
  assumes "off \<le> length f" and "i < length (patch f xs off)"
  shows "patch f xs off ! i = (if off \<le> i \<and> i < off + length xs then xs ! (i - off) else f ! i)"
  using assms by (auto simp: patch_def nth_append)

lemma pwrite_append: "pwrite (pwrite f xs off) ys (off + length xs) = pwrite f (xs @ ys) off"
proof (cases "xs = [] \<or> ys = []")
  case False
  let ?f0 = "f @ replicate (off - length f) 0"
  have l: "off \<le> length ?f0" by simp
  have "off + length xs \<le> length (patch ?f0 xs off)" using l by (simp only: length_patch)
  then have "pwrite (patch ?f0 xs off) ys (off + length xs) = patch (patch ?f0 xs off) ys (off + length xs)"
    using False by (simp add: pwrite_patch)
  then show ?thesis using False l by (simp add: pwrite_patch patch_append)
qed auto

lemma length_pwrite: "xs \<noteq> [] \<Longrightarrow> length (pwrite f xs off) = max (length f) (off + length xs)"
  by (simp add: pwrite_patch length_patch)

lemma nth_pwrite:
  assumes "i < length (pwrite f xs off)"
  shows "pwrite f xs off ! i =
    (if off \<le> i \<and> i < off + length xs then xs ! (i - off) else if i < length f then f ! i else 0)"
proof (cases "xs = []")
  case False
  let ?f0 = "f @ replicate (off - length f) 0"
  have "pwrite f xs off ! i = (if off \<le> i \<and> i < off + length xs then xs ! (i - off) else ?f0 ! i)"
    using assms False by (simp add: pwrite_patch nth_patch)
  moreover have "i < max (length f) (off + length xs)" using assms False by (simp add: length_pwrite)
  ultimately show ?thesis by (auto simp: nth_append)
qed (use assms in auto)

text \<open>
  The interface the slot layout relies on: what a read returns after a write, in the written range
  and, for a range that lay inside the device already, away from it.
\<close>

locale block_device =
  fixes wr :: "'d \<Rightarrow> byte list \<Rightarrow> nat \<Rightarrow> 'd"
    and rd :: "'d \<Rightarrow> nat \<Rightarrow> nat \<Rightarrow> byte list"
  assumes rd_wr_inside: "off \<le> p \<Longrightarrow> p + n \<le> off + length xs \<Longrightarrow> rd (wr d xs off) n p = take n (drop (p - off) xs)"
    and rd_wr_apart: "p + n \<le> off \<or> off + length xs \<le> p \<Longrightarrow> length (rd d n p) = n \<Longrightarrow> rd (wr d xs off) n p = rd d n p"
begin

lemma rd_wr_same: "rd (wr d xs off) (length xs) off = xs"
  using rd_wr_inside [of off off "length xs" xs d] by simp

text \<open>Two extents of a slot layout: writing one leaves the other alone.\<close>

lemma rd_wr_other_slot:
  assumes "s \<noteq> s'" and "base + length xs \<le> sb" and "base' + n \<le> sb"
    and "length (rd d n (s' * sb + base')) = n"
  shows "rd (wr d xs (s * sb + base)) n (s' * sb + base') = rd d n (s' * sb + base')"
proof (rule rd_wr_apart [OF _ assms(4)])
  have "s * sb + sb \<le> s' * sb \<or> s' * sb + sb \<le> s * sb"
    using assms(1) by (rule extents_apart)
  then show "s' * sb + base' + n \<le> s * sb + base \<or> s * sb + base + length xs \<le> s' * sb + base'"
    using assms(2,3) by linarith
qed

end

lemma pread_pwrite_inside:
  assumes "off \<le> p" and "p + n \<le> off + length xs"
  shows "pread (pwrite f xs off) n p = take n (drop (p - off) xs)"
proof (cases "xs = []")
  case False
  then have l: "off + length xs \<le> length (pwrite f xs off)" by (simp add: length_pwrite)
  show ?thesis
    by (rule nth_equalityI) (use assms l in \<open>auto simp: pread_def nth_pwrite\<close>)
qed (use assms in \<open>auto simp: pread_def\<close>)

lemma pread_pwrite_apart:
  assumes "p + n \<le> off \<or> off + length xs \<le> p" and "length (pread f n p) = n"
  shows "pread (pwrite f xs off) n p = pread f n p"
proof (cases "xs = []")
  case False
  have "n = 0 \<or> p + n \<le> length f" using assms(2) by (auto simp: pread_def min_def split: if_splits)
  then show ?thesis
  proof
    assume "p + n \<le> length f"
    then show ?thesis
      by (intro nth_equalityI) (use assms False in \<open>auto simp: pread_def nth_pwrite length_pwrite\<close>)
  qed (simp add: pread_def)
qed simp

interpretation dev: block_device pwrite pread
  by unfold_locales (simp_all add: pread_pwrite_inside pread_pwrite_apart)

section \<open>The write and read loops\<close>

text \<open>\<^verbatim>\<open>_drain_iov\<close>: drop the first \<open>n\<close> bytes of a list of buffers.\<close>

fun drain_iov :: "'a list list \<Rightarrow> nat \<Rightarrow> 'a list list" where
  "drain_iov [] n = []"
| "drain_iov (v # vs) n =
     (if length v \<le> n then drain_iov vs (n - length v)
      else (if 0 < n then drop n v else v) # vs)"

lemma concat_drain_iov: "concat (drain_iov vs n) = drop n (concat vs)"
  by (induction vs n rule: drain_iov.induct) auto

lemma drain_iov_nonempty: "drain_iov vs n \<noteq> [] \<Longrightarrow> concat (drain_iov vs n) \<noteq> []"
  by (induction vs n rule: drain_iov.induct) auto

text \<open>
  A file operation: the answers and the contents before, the answers and the contents after, and a
  result. Sequencing stops at the first error, keeping what was written.
\<close>

type_synonym fstate = "os_answer list \<times> byte list"
type_synonym 'a fio = "fstate \<Rightarrow> fstate \<times> 'a res"

definition fseq :: "'a fio \<Rightarrow> ('a \<Rightarrow> 'b fio) \<Rightarrow> 'b fio" where
  "fseq m k s = (case m s of (s', Inl e) \<Rightarrow> (s', Inl e) | (s', Inr x) \<Rightarrow> k x s')"

function pwrite_all :: "byte list \<Rightarrow> nat \<Rightarrow> unit fio" where
  "pwrite_all view off (as, f) =
     (if view = [] then ((as, f), ok ())
      else case next_count as (length view) of
        (Inl e, as') \<Rightarrow> ((as', f), err e)
      | (Inr n, as') \<Rightarrow>
          if n \<le> 0 then ((as', f), err OSError)
          else pwrite_all (drop (nat n) view) (off + nat n) (as', pwrite f (take (nat n) view) off))"
  by pat_completeness auto
termination
  by (relation "measure (\<lambda>(view, off, s). length view)") (auto simp: neq_Nil_conv)

function pwritev_all :: "byte list list \<Rightarrow> nat \<Rightarrow> unit fio" where
  "pwritev_all remaining pos (as, f) =
     (if remaining = [] then ((as, f), ok ())
      else case next_count as (length (concat remaining)) of
        (Inl e, as') \<Rightarrow> ((as', f), err e)
      | (Inr n, as') \<Rightarrow>
          if n \<le> 0 then ((as', f), err OSError)
          else pwritev_all (drain_iov remaining (nat n)) (pos + nat n)
                 (as', pwrite f (take (nat n) (concat remaining)) pos))"
  by pat_completeness auto
termination
proof (relation "measure (\<lambda>(vs, pos, s). length (concat vs))", goal_cases)
  case (2 remaining pos as f r as' n)
  from 2(2) [symmetric] 2(3) have "n \<le> int (length (concat remaining))"
    by (intro next_count_bound [of as _ _ as']) simp
  then show ?case using 2(4) by (simp add: concat_drain_iov del: concat.simps length_concat)
qed simp

text \<open>\<^verbatim>\<open>preadv\<close> gives at most what the file holds from the position; none is a short read.\<close>

function preadv_all :: "byte list list \<Rightarrow> nat \<Rightarrow> byte list \<Rightarrow> byte list fio" where
  "preadv_all remaining pos got (as, f) =
     (if remaining = [] then ((as, f), ok got)
      else case next_count as (min (length (concat remaining)) (length f - pos)) of
        (Inl e, as') \<Rightarrow> ((as', f), err e)
      | (Inr n, as') \<Rightarrow>
          if n \<le> 0 then ((as', f), err OSError)
          else preadv_all (drain_iov remaining (nat n)) (pos + nat n)
                 (got @ pread f (nat n) pos) (as', f))"
  by pat_completeness auto
termination
proof (relation "measure (\<lambda>(vs, pos, got, s). length (concat vs))", goal_cases)
  case (2 remaining pos got as f r as' n)
  from 2(2) [symmetric] 2(3) have "n \<le> int (min (length (concat remaining)) (length f - pos))"
    by (intro next_count_bound [of as _ _ as']) simp
  then show ?case using 2(4) by (simp add: concat_drain_iov del: concat.simps length_concat)
qed simp

declare pwrite_all.simps [simp del] pwritev_all.simps [simp del] preadv_all.simps [simp del]

text \<open>
  Whatever the answers, a write loop leaves a prefix of its data in place, all of it when it
  succeeds; with benign answers it succeeds.
\<close>

lemma pwrite_all_prefix:
  assumes "pwrite_all view off (as, f) = ((as', f'), r)"
  shows "\<exists>n \<le> length view. f' = pwrite f (take n view) off \<and> (is_ok r \<longrightarrow> n = length view)"
  using assms
proof (induction view off "(as, f)" arbitrary: as f rule: pwrite_all.induct)
  case (1 view off as f)
  show ?case
  proof (cases "view = []")
    case True
    then show ?thesis using 1(2) by (auto simp: pwrite_all.simps)
  next
    case False
    obtain k as1 where nc: "next_count as (length view) = (k, as1)" by (cases "next_count as (length view)")
    show ?thesis
    proof (cases "\<exists>n. k = Inr n \<and> 0 < n")
      case True
      then obtain n where n: "k = Inr n" "0 < n" by blast
      have le: "n \<le> int (length view)" using nc n by (auto dest: next_count_bound)
      have "pwrite_all (drop (nat n) view) (off + nat n) (as1, pwrite f (take (nat n) view) off) = ((as', f'), r)"
        using 1(2) False nc n by (simp add: pwrite_all.simps [of view])
      then obtain m where m: "m \<le> length (drop (nat n) view)"
          "f' = pwrite (pwrite f (take (nat n) view) off) (take m (drop (nat n) view)) (off + nat n)"
          "is_ok r \<longrightarrow> m = length (drop (nat n) view)"
        using 1(1) [OF False nc [symmetric] n(1)] n by auto
      have lt: "length (take (nat n) view) = nat n" using le by simp
      have "f' = pwrite f (take (nat n) view @ take m (drop (nat n) view)) off"
        using m(2) pwrite_append [of f "take (nat n) view" off "take m (drop (nat n) view)"] lt by simp
      then have "f' = pwrite f (take (nat n + m) view) off" by (simp only: take_add)
      moreover have "nat n + m \<le> length view" using m(1) le by auto
      moreover have "is_ok r \<longrightarrow> nat n + m = length view" using m(3) le by auto
      ultimately show ?thesis by blast
    next
      case bad: False
      have "f' = f \<and> \<not> is_ok r"
        using 1(2) False nc bad by (cases k) (auto simp: pwrite_all.simps [of view])
      then show ?thesis by (auto intro: exI [of _ 0])
    qed
  qed
qed

lemma pwrite_all_benign:
  "benign as \<Longrightarrow> \<exists>as' f'. pwrite_all view off (as, f) = ((as', f'), ok ()) \<and> benign as'"
proof (induction view off "(as, f)" arbitrary: as f rule: pwrite_all.induct)
  case (1 view off as f)
  show ?case
  proof (cases "view = []")
    case False
    then obtain n as1 where n: "next_count as (length view) = (ok n, as1)" "0 < n" "benign as1"
      using next_count_benign [OF 1(2), of "length view"] by auto
    show ?thesis
      using 1(1) [OF False n(1) [symmetric] refl] n False by (simp add: pwrite_all.simps [of view])
  qed (use 1 in \<open>simp add: pwrite_all.simps\<close>)
qed

lemma pwritev_all_prefix:
  assumes "pwritev_all vs pos (as, f) = ((as', f'), r)"
  shows "\<exists>n \<le> length (concat vs). f' = pwrite f (take n (concat vs)) pos
     \<and> (is_ok r \<longrightarrow> n = length (concat vs))"
  using assms
proof (induction vs pos "(as, f)" arbitrary: as f rule: pwritev_all.induct)
  case (1 vs pos as f)
  show ?case
  proof (cases "vs = []")
    case True
    then show ?thesis using 1(2) by (auto simp: pwritev_all.simps)
  next
    case False
    let ?d = "concat vs"
    obtain k as1 where nc: "next_count as (length ?d) = (k, as1)" by (cases "next_count as (length ?d)")
    show ?thesis
    proof (cases "\<exists>n. k = Inr n \<and> 0 < n")
      case True
      then obtain n where n: "k = Inr n" "0 < n" by blast
      have le: "n \<le> int (length ?d)" using nc n by (auto dest: next_count_bound)
      have "pwritev_all (drain_iov vs (nat n)) (pos + nat n) (as1, pwrite f (take (nat n) ?d) pos) = ((as', f'), r)"
        using 1(2) False nc n by (simp add: pwritev_all.simps [of vs])
      then obtain m where m: "m \<le> length (drop (nat n) ?d)"
          "f' = pwrite (pwrite f (take (nat n) ?d) pos) (take m (drop (nat n) ?d)) (pos + nat n)"
          "is_ok r \<longrightarrow> m = length (drop (nat n) ?d)"
        using 1(1) [OF False nc [symmetric] n(1)] n unfolding concat_drain_iov by auto
      have "length (take (nat n) ?d) = nat n" using le by (simp del: length_concat)
      then have "f' = pwrite f (take (nat n) ?d @ take m (drop (nat n) ?d)) pos"
        using m(2) pwrite_append [of f "take (nat n) ?d" pos "take m (drop (nat n) ?d)"] by simp
      then have "f' = pwrite f (take (nat n + m) ?d) pos" by (simp only: take_add)
      moreover have "nat n + m \<le> length ?d" using m(1) le by (auto simp del: length_concat)
      moreover have "is_ok r \<longrightarrow> nat n + m = length ?d" using m(3) le by (auto simp del: length_concat)
      ultimately show ?thesis by blast
    next
      case bad: False
      have "f' = f \<and> \<not> is_ok r"
        using 1(2) False nc bad by (cases k) (auto simp: pwritev_all.simps [of vs])
      then show ?thesis by (auto intro: exI [of _ 0])
    qed
  qed
qed

text \<open>A buffer list is writable when it is empty or holds at least one byte (no zero-length call).\<close>

lemma pwritev_all_benign:
  "benign as \<Longrightarrow> vs = [] \<or> concat vs \<noteq> [] \<Longrightarrow>
     \<exists>as' f'. pwritev_all vs pos (as, f) = ((as', f'), ok ()) \<and> benign as'"
proof (induction vs pos "(as, f)" arbitrary: as f rule: pwritev_all.induct)
  case (1 vs pos as f)
  show ?case
  proof (cases "vs = []")
    case False
    then have "0 < length (concat vs)" using 1(3) by blast
    then obtain n as1 where n: "next_count as (length (concat vs)) = (ok n, as1)" "0 < n" "benign as1"
      using next_count_benign [OF 1(2)] by blast
    then show ?thesis
      using 1(1) [OF False n(1) [symmetric] refl] drain_iov_nonempty [of vs "nat n"] False
      by (auto simp: pwritev_all.simps [of vs])
  qed (use 1 in \<open>simp add: pwritev_all.simps\<close>)
qed

lemma preadv_all_ok:
  assumes "preadv_all vs pos got (as, f) = ((as', f'), ok bs)"
  shows "f' = f \<and> bs = got @ pread f (length (concat vs)) pos
     \<and> length (pread f (length (concat vs)) pos) = length (concat vs)"
  using assms
proof (induction vs pos got "(as, f)" arbitrary: as rule: preadv_all.induct)
  case (1 vs pos got as)
  show ?case
  proof (cases "vs = []")
    case True
    then show ?thesis using 1(2) by (simp add: preadv_all.simps pread_def)
  next
    case False
    let ?d = "length (concat vs)"
    obtain k as1 where nc: "next_count as (min ?d (length f - pos)) = (k, as1)"
      by (cases "next_count as (min ?d (length f - pos))")
    obtain n where n: "k = Inr n" "0 < n"
      using 1(2) False nc by (cases k) (auto simp: preadv_all.simps [of vs] split: if_splits)
    have le: "nat n \<le> ?d" "pos + nat n \<le> length f" using nc n by (auto dest: next_count_bound)
    have "preadv_all (drain_iov vs (nat n)) (pos + nat n) (got @ pread f (nat n) pos) (as1, f) = ((as', f'), ok bs)"
      using 1(2) False nc n by (simp add: preadv_all.simps [of vs])
    then have IH: "f' = f" "bs = got @ pread f (nat n) pos @ pread f (?d - nat n) (pos + nat n)"
        "length (pread f (?d - nat n) (pos + nat n)) = ?d - nat n"
      using 1(1) [OF False nc [symmetric] n(1)] n unfolding concat_drain_iov length_drop by auto
    have "pread f (nat n) pos @ pread f (?d - nat n) (pos + nat n) = pread f ?d pos"
      using le take_add [of "nat n" "?d - nat n" "drop pos f"]
      by (simp add: pread_def add.commute del: length_concat)
    moreover have "length (pread f (nat n) pos) = nat n" using le by (simp add: pread_def)
    ultimately show ?thesis using IH le by (metis le_add_diff_inverse length_append)
  qed
qed

lemma preadv_all_benign:
  "benign as \<Longrightarrow> vs = [] \<or> concat vs \<noteq> [] \<Longrightarrow> pos + length (concat vs) \<le> length f \<Longrightarrow>
     \<exists>s bs. preadv_all vs pos got (as, f) = (s, ok bs)"
proof (induction vs pos got "(as, f)" arbitrary: as rule: preadv_all.induct)
  case (1 vs pos got as)
  show ?case
  proof (cases "vs = []")
    case False
    then have "0 < min (length (concat vs)) (length f - pos)"
      using 1(3,4) by (auto simp del: length_concat)
    then obtain n as1 where n: "next_count as (min (length (concat vs)) (length f - pos)) = (ok n, as1)"
        "0 < n" "n \<le> int (min (length (concat vs)) (length f - pos))" "benign as1"
      using next_count_benign [OF 1(2)] by blast
    have "\<exists>s bs. preadv_all (drain_iov vs (nat n)) (pos + nat n) (got @ pread f (nat n) pos) (as1, f) = (s, ok bs)"
    proof (rule 1(1) [OF False n(1) [symmetric] refl _ n(4)])
      show "drain_iov vs (nat n) = [] \<or> concat (drain_iov vs (nat n)) \<noteq> []"
        using drain_iov_nonempty by blast
      show "pos + nat n + length (concat (drain_iov vs (nat n))) \<le> length f"
        using 1(4) n(2,3) by (simp add: concat_drain_iov del: length_concat)
    qed (use n(2) in simp)
    then show ?thesis using False n by (simp add: preadv_all.simps [of vs])
  qed (simp add: preadv_all.simps)
qed

section \<open>SlabIO\<close>

text \<open>
  One open slab directory: the geometry, the object's epoch, the contents of \<^verbatim>\<open>g0.slab\<close>,
  \<^verbatim>\<open>g1.slab\<close>, \<dots> (one per open descriptor) and the answers still to come from the system. The
  group of a key, \<^verbatim>\<open>get_offload_group_idx\<close>, belongs to the engine: it is the parameter \<open>grp\<close>.
\<close>

record slab_io =
  slot_bytes :: "nat list"
  slot_counts :: "nat list"
  io_epoch :: int
  files :: "byte list list"
  answers :: "os_answer list"

text \<open>\<^verbatim>\<open>SlabIO.__init__\<close>: open or create each group's file, and cut it to the budget's capacity.\<close>

definition slab_open :: "byte list list \<Rightarrow> nat list \<Rightarrow> nat list \<Rightarrow> int \<Rightarrow> os_answer list \<Rightarrow> slab_io" where
  "slab_open contents sbs counts ep as =
     \<lparr>slot_bytes = sbs, slot_counts = counts, io_epoch = ep,
      files = map (\<lambda>g. let f = (if g < length contents then contents ! g else []);
                           cap = sbs ! g * counts ! g
                       in if cap < length f then take cap f else f) [0..<length sbs],
      answers = as\<rparr>"

definition slot_off :: "slab_io \<Rightarrow> nat \<Rightarrow> int \<Rightarrow> nat res" where
  "slot_off io g slot =
     (if 0 \<le> slot \<and> slot < int (slot_counts io ! g) then ok (nat slot * slot_bytes io ! g)
      else err AssertionError)"

text \<open>\<^verbatim>\<open>SlabIO.write\<close>: blank the header, write the payload, seal with the header.\<close>

definition write_slot :: "nat \<Rightarrow> byte list list \<Rightarrow> byte list res \<Rightarrow> unit fio" where
  "write_slot off views hdr =
     fseq (pwrite_all (replicate SLAB_HEADER_BYTES 0) off) (\<lambda>_.
     fseq (pwritev_all views (off + SLAB_HEADER_BYTES)) (\<lambda>_.
     case hdr of Inl e \<Rightarrow> (\<lambda>s. (s, err e)) | Inr h \<Rightarrow> pwrite_all h off))"

definition slab_write :: "(byte list \<Rightarrow> nat) \<Rightarrow> slab_io \<Rightarrow> byte list \<Rightarrow> int \<Rightarrow> byte list list \<Rightarrow> int
    \<Rightarrow> int option \<Rightarrow> slab_io \<times> unit res" where
  "slab_write grp io key slot views seq epoch =
     (let g = grp key in
      if length (files io) \<le> g then (io, err IndexError)
      else case slot_off io g slot of
        Inl e \<Rightarrow> (io, err e)
      | Inr off \<Rightarrow>
          let len = sum_list (map length views) in
          if slot_bytes io ! g < SLAB_HEADER_BYTES + len then (io, err AssertionError)
          else case write_slot off views (header (io_epoch io) g key len seq (crc views) epoch)
                      (answers io, files io ! g) of
            ((as, f), r) \<Rightarrow> (io\<lparr>files := (files io)[g := f], answers := as\<rparr>, r))"

text \<open>
  \<^verbatim>\<open>SlabIO.read\<close> into the buffers \<open>views\<close> (only their lengths matter): the bytes are returned. An
  exception leaves the answers used so far. The one call that reads the header takes no answer: one that fails or comes
  short of 128 bytes raises, like a header that does not parse.
\<close>

definition slab_read :: "(byte list \<Rightarrow> nat) \<Rightarrow> slab_io \<Rightarrow> byte list \<Rightarrow> int \<Rightarrow> byte list list
    \<Rightarrow> int option \<Rightarrow> slab_io \<times> byte list res" where
  "slab_read grp io key slot views epoch =
     (let g = grp key in
      if length (files io) \<le> g then (io, err IndexError)
      else case slot_off io g slot of
        Inl e \<Rightarrow> (io, err e)
      | Inr off \<Rightarrow>
          let f = files io ! g; expected = sum_list (map length views) in
          case parse_header (pread f SLAB_HEADER_BYTES off) of
            None \<Rightarrow> (io, err OSError)
          | Some h \<Rightarrow>
              if h_key h \<noteq> key \<or> h_length h \<noteq> int expected then (io, err OSError)
              else if (case epoch of None \<Rightarrow> False | Some e \<Rightarrow> h_epoch h \<noteq> e) then (io, err OSError)
              else case preadv_all views (off + SLAB_HEADER_BYTES) [] (answers io, f) of
                ((as, _), r) \<Rightarrow>
                  (io\<lparr>answers := as\<rparr>,
                   rbind r (\<lambda>bs. if uint (crc [bs]) \<noteq> h_pcrc h then err OSError else ok bs)))"

text \<open>\<^verbatim>\<open>SlabIO.sync\<close>: \<^verbatim>\<open>fdatasync\<close> (which takes an answer) and the page-cache hints.\<close>

definition slab_sync :: "slab_io \<Rightarrow> nat \<Rightarrow> int list \<Rightarrow> slab_io \<times> unit res" where
  "slab_sync io g slots =
     (if length (files io) \<le> g then (io, err IndexError)
      else case next_count (answers io) 0 of
        (Inl e, as) \<Rightarrow> (io\<lparr>answers := as\<rparr>, err e)
      | (Inr n, as) \<Rightarrow>
          (io\<lparr>answers := as\<rparr>,
           if n < 0 then err OSError
           else if list_all (\<lambda>s. is_ok (slot_off io g s)) slots then ok () else err AssertionError))"

text \<open>\<^verbatim>\<open>SlabIO.scan\<close>: the valid slots of a group in the given epoch; the loop ends at a sparse tail.\<close>

fun scan_slots :: "byte list \<Rightarrow> nat \<Rightarrow> nat \<Rightarrow> int \<Rightarrow> nat list \<Rightarrow> (nat \<times> int \<times> byte list) list" where
  "scan_slots f sb g ep [] = []"
| "scan_slots f sb g ep (slot # slots) =
     (let raw = pread f SLAB_HEADER_BYTES (slot * sb) in
      if length raw < SLAB_HEADER_BYTES then []
      else case parse_header raw of
        None \<Rightarrow> scan_slots f sb g ep slots
      | Some h \<Rightarrow>
          if h_group h \<noteq> int g \<or> h_epoch h \<noteq> ep then scan_slots f sb g ep slots
          else (slot, h_seq h, h_key h) # scan_slots f sb g ep slots)"

definition scan :: "slab_io \<Rightarrow> nat \<Rightarrow> int \<Rightarrow> (nat \<times> int \<times> byte list) list" where
  "scan io g ep = scan_slots (files io ! g) (slot_bytes io ! g) g ep [0..<slot_counts io ! g]"

definition wipe :: "slab_io \<Rightarrow> slab_io" where
  "wipe io = io\<lparr>files := map (\<lambda>_. []) (files io)\<rparr>"

fun max_epoch_slots :: "byte list \<Rightarrow> nat \<Rightarrow> nat list \<Rightarrow> int option \<Rightarrow> int option" where
  "max_epoch_slots f sb [] best = best"
| "max_epoch_slots f sb (slot # slots) best =
     (let raw = pread f SLAB_HEADER_BYTES (slot * sb) in
      if length raw < SLAB_HEADER_BYTES then best
      else case parse_header raw of
        None \<Rightarrow> max_epoch_slots f sb slots best
      | Some h \<Rightarrow>
          max_epoch_slots f sb slots
            (case best of None \<Rightarrow> Some (h_epoch h)
             | Some b \<Rightarrow> if b < h_epoch h then Some (h_epoch h) else Some b))"

definition max_epoch :: "slab_io \<Rightarrow> int option" where
  "max_epoch io =
     fold (\<lambda>g best. max_epoch_slots (files io ! g) (slot_bytes io ! g) [0..<slot_counts io ! g] best)
       [0..<length (files io)] None"

definition slab_close :: "slab_io \<Rightarrow> slab_io" where
  "slab_close io = io\<lparr>files := []\<rparr>"

section \<open>What a slot holds\<close>

text \<open>The bytes a slot serves for a key and a length, read off the file contents alone.\<close>

definition slot_value :: "byte list \<Rightarrow> nat \<Rightarrow> byte list \<Rightarrow> nat \<Rightarrow> int option \<Rightarrow> byte list option" where
  "slot_value f off key n epoch =
     (case parse_header (pread f SLAB_HEADER_BYTES off) of
        None \<Rightarrow> None
      | Some h \<Rightarrow>
          let bs = pread f n (off + SLAB_HEADER_BYTES) in
          if h_key h = key \<and> h_length h = int n \<and> (\<forall>e. epoch = Some e \<longrightarrow> h_epoch h = e)
             \<and> length bs = n \<and> uint (crc [bs]) = h_pcrc h
          then Some bs else None)"

definition in_slot :: "(byte list \<Rightarrow> nat) \<Rightarrow> slab_io \<Rightarrow> byte list \<Rightarrow> int \<Rightarrow> bool" where
  "in_slot grp io key slot =
     (grp key < length (files io) \<and> 0 \<le> slot \<and> slot < int (slot_counts io ! grp key))"

definition readable :: "byte list list \<Rightarrow> bool" where
  "readable views = (views = [] \<or> concat views \<noteq> [])"

abbreviation off_of :: "(byte list \<Rightarrow> nat) \<Rightarrow> slab_io \<Rightarrow> byte list \<Rightarrow> int \<Rightarrow> nat" where
  "off_of grp io key slot \<equiv> nat slot * slot_bytes io ! grp key"

lemma sum_list_lengths: "sum_list (map length vs) = length (concat vs)"
  by (simp add: length_concat)

lemma slab_read_okD:
  assumes "slab_read grp io key slot views epoch = (io', ok bs)"
  shows "in_slot grp io key slot"
    and "slot_value (files io ! grp key) (off_of grp io key slot) key (length (concat views)) epoch = Some bs"
proof -
  show 1: "in_slot grp io key slot"
    using assms by (auto simp: slab_read_def in_slot_def slot_off_def Let_def split: if_splits)
  let ?f = "files io ! grp key" let ?off = "off_of grp io key slot"
  from assms 1 obtain h where h: "parse_header (pread ?f SLAB_HEADER_BYTES ?off) = Some h"
      "h_key h = key" "h_length h = int (length (concat views))" "\<forall>e. epoch = Some e \<longrightarrow> h_epoch h = e"
    by (auto simp: slab_read_def in_slot_def slot_off_def Let_def sum_list_lengths
        simp del: length_concat split: if_splits option.splits)
  from assms 1 h obtain as f' where r: "preadv_all views (?off + SLAB_HEADER_BYTES) [] (answers io, ?f) = ((as, f'), ok bs)"
      "uint (crc [bs]) = h_pcrc h"
    by (auto simp: slab_read_def in_slot_def slot_off_def Let_def sum_list_lengths rbind_ok_iff
        simp del: length_concat split: if_splits option.splits prod.splits)
  from preadv_all_ok [OF r(1)] r(2) h
  show "slot_value ?f ?off key (length (concat views)) epoch = Some bs"
    by (simp add: slot_value_def Let_def del: length_concat)
qed

lemma slab_read_complete:
  assumes "in_slot grp io key slot" and "benign (answers io)" and "readable views"
    and "slot_value (files io ! grp key) (off_of grp io key slot) key (length (concat views)) epoch = Some bs"
  shows "\<exists>io'. slab_read grp io key slot views epoch = (io', ok bs)"
proof -
  let ?f = "files io ! grp key" let ?off = "off_of grp io key slot" let ?n = "length (concat views)"
  from assms(4) obtain h where h: "parse_header (pread ?f SLAB_HEADER_BYTES ?off) = Some h"
      "h_key h = key" "h_length h = int ?n" "\<forall>e. epoch = Some e \<longrightarrow> h_epoch h = e"
      "bs = pread ?f ?n (?off + SLAB_HEADER_BYTES)" "length bs = ?n" "uint (crc [bs]) = h_pcrc h"
    by (auto simp: slot_value_def Let_def simp del: length_concat split: option.splits if_splits)
  have "?n \<le> length ?f - (?off + SLAB_HEADER_BYTES)"
    using h(6) unfolding h(5) by (simp add: pread_def del: length_concat)
  then have "?n = 0 \<or> ?off + SLAB_HEADER_BYTES + ?n \<le> length ?f" by linarith
  then have "views = [] \<or> ?off + SLAB_HEADER_BYTES + ?n \<le> length ?f"
    using assms(3) by (auto simp: readable_def simp del: length_concat)
  then obtain as f' bs' where r: "preadv_all views (?off + SLAB_HEADER_BYTES) [] (answers io, ?f) = ((as, f'), ok bs')"
    using preadv_all_benign [OF assms(2), of views "?off + SLAB_HEADER_BYTES" ?f "[]"] assms(3)
    by (auto simp: readable_def preadv_all.simps [of "[]"] simp del: length_concat)
  have "bs' = bs" using preadv_all_ok [OF r] h(5) by simp
  then show ?thesis
    using assms(1) h r
    by (auto simp: slab_read_def in_slot_def slot_off_def Let_def sum_list_lengths
        simp del: length_concat split: option.splits)
qed

section \<open>The outcomes of a write\<close>

text \<open>
  However a slot write ends, the file is the old one, or its slot starts with a zero byte (blank
  or half-blank header), or the whole payload is in place (the header write had begun).
\<close>

lemma pread_one_zero: "0 < n \<Longrightarrow> pread (pwrite f (replicate n 0) off) 1 off = [0]"
  by (subst pread_pwrite_inside) auto

lemma pwrite_all_zeros_prefix:
  assumes "pwrite_all (replicate k 0) off (as, f) = ((as', f'), r)"
  shows "\<exists>n \<le> k. f' = pwrite f (replicate n 0) off \<and> (is_ok r \<longrightarrow> n = k)"
proof -
  obtain n where n: "n \<le> k" "f' = pwrite f (take n (replicate k 0)) off" "is_ok r \<longrightarrow> n = k"
    using pwrite_all_prefix [OF assms, unfolded length_replicate] by blast
  then have "f' = pwrite f (replicate n 0) off" by (simp add: min_absorb1)
  then show ?thesis using n by blast
qed

text \<open>The four ways a slot write can end.\<close>

lemma write_slot_stages:
  assumes "write_slot off views hdr (as, f) = ((as', f'), r)"
    and "pwrite_all (replicate SLAB_HEADER_BYTES 0) off (as, f) = ((a1, f1), r1)"
    and "pwritev_all views (off + SLAB_HEADER_BYTES) (a1, f1) = ((a2, f2), r2)"
  shows "(\<not> is_ok r1 \<and> f' = f1 \<and> \<not> is_ok r) \<or> (is_ok r1 \<and> f' = f2 \<and> \<not> is_ok r)
    \<or> (\<exists>h. is_ok r1 \<and> is_ok r2 \<and> hdr = Inr h \<and> pwrite_all h off (a2, f2) = ((as', f'), r))"
proof (cases r1)
  case Inl
  then show ?thesis using assms(1,2) by (auto simp: write_slot_def fseq_def)
next
  case r1: (Inr u)
  show ?thesis
  proof (cases r2)
    case Inl
    then show ?thesis using assms r1 by (auto simp: write_slot_def fseq_def)
  next
    case (Inr v)
    then show ?thesis using assms r1 by (cases hdr) (auto simp: write_slot_def fseq_def)
  qed
qed

lemma write_slot_outcome:
  assumes "write_slot off views hdr (as, f) = ((as', f'), r)" and "\<forall>h. hdr = Inr h \<longrightarrow> length h = SLAB_HEADER_BYTES"
  shows "f' = f \<or> pread f' 1 off = [0]
      \<or> pread f' (length (concat views)) (off + SLAB_HEADER_BYTES) = concat views"
    and "is_ok r \<Longrightarrow> \<exists>h. hdr = Inr h \<and> pread f' SLAB_HEADER_BYTES off = h
      \<and> pread f' (length (concat views)) (off + SLAB_HEADER_BYTES) = concat views"
proof -
  let ?H = SLAB_HEADER_BYTES let ?P = "concat views" let ?z = "replicate ?H (0::byte)"
  have H: "?H = 128" by (simp add: SLAB_HEADER_BYTES_def)
  obtain a1 f1 r1 where 1: "pwrite_all ?z off (as, f) = ((a1, f1), r1)" by (metis prod.exhaust)
  obtain a2 f2 r2 where 2: "pwritev_all views (off + ?H) (a1, f1) = ((a2, f2), r2)" by (metis prod.exhaust)
  from pwrite_all_zeros_prefix [OF 1] obtain n1 where n1: "n1 \<le> ?H" "f1 = pwrite f (replicate n1 0) off"
      "is_ok r1 \<longrightarrow> n1 = ?H" by blast
  from pwritev_all_prefix [OF 2] obtain n2 where n2: "n2 \<le> length ?P" "f2 = pwrite f1 (take n2 ?P) (off + ?H)"
      "is_ok r2 \<longrightarrow> n2 = length ?P" by blast
  have z: "pread f1 1 off = [0] \<or> f1 = f" using n1 pread_one_zero by (cases "n1 = 0") auto
  from write_slot_stages [OF assms(1) 1 2] consider (blank) "\<not> is_ok r1" "f' = f1" "\<not> is_ok r"
    | (payload) "is_ok r1" "f' = f2" "\<not> is_ok r"
    | (seal) h where "is_ok r1" "is_ok r2" "hdr = Inr h" "pwrite_all h off (a2, f2) = ((as', f'), r)"
    by metis
  then have "(f' = f \<or> pread f' 1 off = [0] \<or> pread f' (length ?P) (off + ?H) = ?P)
    \<and> (is_ok r \<longrightarrow> (\<exists>h. hdr = Inr h \<and> pread f' ?H off = h \<and> pread f' (length ?P) (off + ?H) = ?P))"
  proof cases
    case blank
    then show ?thesis using z by auto
  next
    case payload
    have "pread f1 1 off = [0]" using n1 payload(1) pread_one_zero H by simp
    then have "pread f2 1 off = [0]" unfolding n2(2) by (subst pread_pwrite_apart) (simp_all add: H)
    then show ?thesis using payload by simp
  next
    case (seal h)
    have lh: "length h = ?H" using seal assms(2) by simp
    have "f2 = pwrite f1 ?P (off + ?H)" using n2 seal by simp
    then have p2: "pread f2 (length ?P) (off + ?H) = ?P" by (simp add: dev.rd_wr_same del: length_concat)
    from pwrite_all_prefix [OF seal(4)] obtain n3 where n3: "n3 \<le> length h" "f' = pwrite f2 (take n3 h) off"
        "is_ok r \<longrightarrow> n3 = length h" by blast
    have "pread f' (length ?P) (off + ?H) = pread f2 (length ?P) (off + ?H)"
      unfolding n3(2) using n3(1) lh p2 by (subst pread_pwrite_apart) (simp_all del: length_concat)
    moreover have "is_ok r \<longrightarrow> pread f' ?H off = h"
      unfolding n3(2) using n3(3) lh dev.rd_wr_same [of f2 h off] by simp
    ultimately show ?thesis using p2 seal(3) by simp
  qed
  then show "f' = f \<or> pread f' 1 off = [0] \<or> pread f' (length ?P) (off + ?H) = ?P"
    and "is_ok r \<Longrightarrow> \<exists>h. hdr = Inr h \<and> pread f' ?H off = h \<and> pread f' (length ?P) (off + ?H) = ?P"
    by blast+
qed

lemma write_slot_benign:
  assumes "benign as" and "readable views" and "hdr = Inr h"
  shows "\<exists>as' f'. write_slot off views hdr (as, f) = ((as', f'), ok ()) \<and> benign as'"
proof -
  let ?z = "replicate SLAB_HEADER_BYTES 0"
  obtain a1 f1 where 1: "pwrite_all ?z off (as, f) = ((a1, f1), ok ())" "benign a1"
    using pwrite_all_benign [OF assms(1)] by blast
  obtain a2 f2 where 2: "pwritev_all views (off + SLAB_HEADER_BYTES) (a1, f1) = ((a2, f2), ok ())" "benign a2"
    using pwritev_all_benign [OF 1(2)] assms(2) by (meson readable_def)
  obtain a3 f3 where "pwrite_all h off (a2, f2) = ((a3, f3), ok ())" "benign a3"
    using pwrite_all_benign [OF 2(2)] by blast
  then show ?thesis using 1 2 assms(3) by (simp add: write_slot_def fseq_def)
qed

text \<open>A write changes its file only inside the slot: extents elsewhere that were there stay.\<close>

lemma write_slot_apart:
  assumes w: "write_slot off views hdr (as, f) = ((as', f'), r)"
    and hl: "\<forall>h. hdr = Inr h \<longrightarrow> length h = SLAB_HEADER_BYTES"
    and far: "p + n \<le> off \<or> off + SLAB_HEADER_BYTES + length (concat views) \<le> p"
    and inside: "length (pread f n p) = n"
  shows "pread f' n p = pread f n p"
proof -
  let ?H = SLAB_HEADER_BYTES let ?P = "concat views"
  obtain a1 f1 r1 where 1: "pwrite_all (replicate ?H 0) off (as, f) = ((a1, f1), r1)" by (metis prod.exhaust)
  obtain a2 f2 r2 where 2: "pwritev_all views (off + ?H) (a1, f1) = ((a2, f2), r2)" by (metis prod.exhaust)
  from pwrite_all_zeros_prefix [OF 1] obtain n1 where n1: "n1 \<le> ?H" "f1 = pwrite f (replicate n1 0) off"
    by blast
  from pwritev_all_prefix [OF 2] obtain n2 where n2: "n2 \<le> length ?P" "f2 = pwrite f1 (take n2 ?P) (off + ?H)"
    by blast
  have s1: "pread f1 n p = pread f n p"
    unfolding n1(2) using far n1(1) inside by (intro pread_pwrite_apart) (auto simp del: length_concat)
  have s2: "pread f2 n p = pread f n p"
    unfolding n2(2) using far n2(1) inside s1 by (subst pread_pwrite_apart) (auto simp del: length_concat)
  consider "f' = f1" | "f' = f2" | h where "hdr = Inr h" "pwrite_all h off (a2, f2) = ((as', f'), r)"
    using write_slot_stages [OF w 1 2] by metis
  then show ?thesis
  proof cases
    case 3
    from pwrite_all_prefix [OF 3(2)] obtain n3 where "n3 \<le> length h" "f' = pwrite f2 (take n3 h) off" by blast
    then show ?thesis
      using far inside s2 hl 3(1) by (simp, subst pread_pwrite_apart) (auto simp del: length_concat)
  qed (use s1 s2 in simp_all)
qed

section \<open>Properties\<close>

lemma slab_write_cases:
  assumes "slab_write grp io key slot views seq epoch = (io', r)" and "in_slot grp io key slot"
    and "SLAB_HEADER_BYTES + length (concat views) \<le> slot_bytes io ! grp key"
  obtains as f hdr where "hdr = header (io_epoch io) (grp key) key (length (concat views)) seq (crc views) epoch"
    "write_slot (off_of grp io key slot) views hdr (answers io, files io ! grp key) = ((as, f), r)"
    "io' = io\<lparr>files := (files io)[grp key := f], answers := as\<rparr>"
  using assms
  by (auto simp: slab_write_def in_slot_def slot_off_def Let_def sum_list_lengths
      simp del: length_concat split: prod.splits)

lemma header_length: "header se g key len seq pc epoch = Inr h \<Longrightarrow> length h = SLAB_HEADER_BYTES"
  by (simp add: header_okD(1) SLAB_HEADER_BYTES_def)

lemma slot_value_bytes: "slot_value f off key n epoch = Some bs \<Longrightarrow> bs = pread f n (off + SLAB_HEADER_BYTES)"
  by (auto simp: slot_value_def Let_def split: option.splits if_splits)

lemma slot_value_key:
  "slot_value f off key n epoch = Some bs \<Longrightarrow> \<exists>h. parse_header (pread f SLAB_HEADER_BYTES off) = Some h \<and> h_key h = key"
  by (auto simp: slot_value_def Let_def split: option.splits if_splits)

lemma slot_value_first_zero: "pread f 1 off = [0] \<Longrightarrow> slot_value f off key n epoch = None"
proof -
  assume z: "pread f 1 off = [0]"
  have "pread f SLAB_HEADER_BYTES off \<noteq> [] \<and> hd (pread f SLAB_HEADER_BYTES off) = 0"
    using z by (cases "drop off f") (auto simp: pread_def SLAB_HEADER_BYTES_def)
  then have "parse_header (pread f SLAB_HEADER_BYTES off) = None"
    by (intro parse_header_bad_first) auto
  then show ?thesis by (simp add: slot_value_def)
qed

text \<open>A write that returned: the slot exists, the block fits, and the slot now serves it.\<close>

lemma slab_write_ok_value:
  assumes w: "slab_write grp io key slot views seq epoch = (io', ok ())"
    and ep: "ep = None \<or> ep = Some (case epoch of None \<Rightarrow> io_epoch io | Some e \<Rightarrow> e)"
  shows "in_slot grp io key slot" and "SLAB_HEADER_BYTES + length (concat views) \<le> slot_bytes io ! grp key"
    and "slot_value (files io' ! grp key) (off_of grp io key slot) key (length (concat views)) ep = Some (concat views)"
proof -
  let ?P = "concat views" let ?off = "off_of grp io key slot"
  show ins: "in_slot grp io key slot" and fit: "SLAB_HEADER_BYTES + length ?P \<le> slot_bytes io ! grp key"
    using w by (auto simp: slab_write_def in_slot_def slot_off_def Let_def sum_list_lengths
        simp del: length_concat split: if_splits)
  obtain as f hdr where hdr: "hdr = header (io_epoch io) (grp key) key (length ?P) seq (crc views) epoch"
    and f: "write_slot ?off views hdr (answers io, files io ! grp key) = ((as, f), ok ())"
       "io' = io\<lparr>files := (files io)[grp key := f], answers := as\<rparr>"
    by (rule slab_write_cases [OF w ins fit])
  have "\<forall>h. hdr = Inr h \<longrightarrow> length h = SLAB_HEADER_BYTES" by (simp add: hdr header_length)
  from write_slot_outcome(2) [OF f(1) this] obtain h where
    h: "hdr = ok h" "pread f SLAB_HEADER_BYTES ?off = h" "pread f (length ?P) (?off + SLAB_HEADER_BYTES) = ?P" by auto
  have "slot_value f ?off key (length ?P) ep = Some ?P"
    using h(2,3) header_okD(2) [OF h(1) [unfolded hdr]] ep by (auto simp: slot_value_def Let_def crc_concat)
  then show "slot_value (files io' ! grp key) ?off key (length ?P) ep = Some ?P"
    using ins f(2) by (simp add: in_slot_def)
qed

lemma slab_write_geometry:
  assumes "slab_write grp io key slot views seq epoch = (io', r)"
  shows "slot_bytes io' = slot_bytes io" "slot_counts io' = slot_counts io" "length (files io') = length (files io)"
    "io_epoch io' = io_epoch io"
  using assms by (auto simp: slab_write_def Let_def split: if_splits sum.splits prod.splits)

lemma slab_write_benign:
  assumes "in_slot grp io key slot" and "benign (answers io)" and "readable views"
    and "SLAB_HEADER_BYTES + length (concat views) \<le> slot_bytes io ! grp key"
    and "is_ok (header (io_epoch io) (grp key) key (length (concat views)) seq (crc views) epoch)"
  shows "\<exists>io'. slab_write grp io key slot views seq epoch = (io', ok ()) \<and> benign (answers io')"
proof -
  let ?hdr = "header (io_epoch io) (grp key) key (length (concat views)) seq (crc views) epoch"
  obtain h where h: "?hdr = ok h" using assms(5) by blast
  obtain io' r where w: "slab_write grp io key slot views seq epoch = (io', r)" by (metis prod.exhaust)
  obtain as f hdr where hdr: "hdr = ?hdr"
    and f: "write_slot (off_of grp io key slot) views hdr (answers io, files io ! grp key) = ((as, f), r)"
    and io': "io' = io\<lparr>files := (files io)[grp key := f], answers := as\<rparr>"
    by (rule slab_write_cases [OF w assms(1,4)])
  obtain as' f' where "write_slot (off_of grp io key slot) views hdr (answers io, files io ! grp key) = ((as', f'), ok ())" "benign as'"
    using write_slot_benign [OF assms(2,3) hdr [unfolded h]] by blast
  then have "r = ok ()" "benign (answers io')" using f io' by simp_all
  then show ?thesis using w by blast
qed

lemma write_then_read:
  assumes "in_slot grp io key slot" and "benign (answers io)" and "readable views"
    and "SLAB_HEADER_BYTES + length (concat views) \<le> slot_bytes io ! grp key"
    and "is_ok (header (io_epoch io) (grp key) key (length (concat views)) seq (crc views) epoch)"
    and "readable bufs" and "length (concat bufs) = length (concat views)" and "benign as"
    and "ep = None \<or> ep = Some (case epoch of None \<Rightarrow> io_epoch io | Some e \<Rightarrow> e)"
  shows "\<exists>io'. slab_write grp io key slot views seq epoch = (io', ok ())
     \<and> (\<exists>io''. slab_read grp (io'\<lparr>answers := as\<rparr>) key slot bufs ep = (io'', ok (concat views)))"
proof -
  obtain io' where w: "slab_write grp io key slot views seq epoch = (io', ok ())"
    using slab_write_benign [OF assms(1-5)] by blast
  have "\<exists>io''. slab_read grp (io'\<lparr>answers := as\<rparr>) key slot bufs ep = (io'', ok (concat views))"
    using assms(1,6-8) slab_write_ok_value(3) [OF w assms(9)] slab_write_geometry [OF w]
    by (intro slab_read_complete) (simp_all add: in_slot_def del: length_concat)
  then show ?thesis using w by blast
qed

text \<open>
  C1: round trip. A store of a block into a slot that fits it, with an epoch and sequence number the
  header can hold, succeeds for every pattern of partial writes the system may choose, and a load of
  that key from that slot, with the store's epoch or with none, returns exactly the stored bytes,
  again for every pattern of partial reads.
\<close>

theorem slab_write_read_roundtrip:
  assumes "in_slot grp io key slot" and "benign (answers io)" and "readable views"
    and "SLAB_HEADER_BYTES + length (concat views) \<le> slot_bytes io ! grp key"
    and "is_ok (header (io_epoch io) (grp key) key (length (concat views)) seq (crc views) epoch)"
    and "readable bufs" and "length (concat bufs) = length (concat views)" and "benign as"
    and "ep = None \<or> ep = Some (case epoch of None \<Rightarrow> io_epoch io | Some e \<Rightarrow> e)"
  shows "\<exists>io'. slab_write grp io key slot views seq epoch = (io', ok ())
     \<and> (\<exists>io''. slab_read grp (io'\<lparr>answers := as\<rparr>) key slot bufs ep = (io'', ok (concat views)))"
  using assms by (rule write_then_read)

text \<open>
  C2: crash safety. Whatever the system answers during a store (partial writes, a failed write, the
  process lost between any two system calls), afterwards either the slab file is untouched, or a load
  of the stored key from the slot fails or returns the complete new block; it never returns a mixture
  of old and new bytes. After a store that succeeded, a load of any other key from that slot fails.
\<close>

theorem slab_write_crash_safe:
  assumes "slab_write grp io key slot views seq epoch = (io', r)" and "in_slot grp io key slot"
    and "SLAB_HEADER_BYTES + length (concat views) \<le> slot_bytes io ! grp key"
    and "length (concat bufs) = length (concat views)"
  shows "(files io' = files io
      \<or> snd (slab_read grp (io'\<lparr>answers := as\<rparr>) key slot bufs ep) = ok (concat views)
      \<or> \<not> is_ok (snd (slab_read grp (io'\<lparr>answers := as\<rparr>) key slot bufs ep)))
    \<and> (is_ok r \<and> key' \<noteq> key \<and> grp key' = grp key \<longrightarrow>
         \<not> is_ok (snd (slab_read grp (io'\<lparr>answers := as\<rparr>) key' slot bufs' ep')))"
proof -
  let ?g = "grp key" let ?off = "off_of grp io key slot" let ?P = "concat views"
  let ?hdr = "header (io_epoch io) ?g key (length ?P) seq (crc views) epoch"
  from slab_write_cases [OF assms(1-3)] obtain as1 f where
    f: "write_slot ?off views ?hdr (answers io, files io ! ?g) = ((as1, f), r)"
       "io' = io\<lparr>files := (files io)[?g := f], answers := as1\<rparr>"
    by blast
  have fg: "files io' ! ?g = f" using assms(2) f(2) by (simp add: in_slot_def)
  have hl: "\<forall>h. ?hdr = Inr h \<longrightarrow> length h = SLAB_HEADER_BYTES" by (simp add: header_length)
  have "files io' = files io \<or> (\<forall>bs. slot_value f ?off key (length ?P) ep = Some bs \<longrightarrow> bs = ?P)"
    using write_slot_outcome(1) [OF f(1) hl]
  proof (elim disjE)
    assume "f = files io ! ?g"
    then show ?thesis by (simp add: f(2))
  next
    assume "pread f 1 ?off = [0]"
    then show ?thesis by (simp add: slot_value_first_zero)
  next
    assume "pread f (length ?P) (?off + SLAB_HEADER_BYTES) = ?P"
    then show ?thesis by (metis slot_value_bytes)
  qed
  moreover have "\<forall>bs. snd (slab_read grp (io'\<lparr>answers := as\<rparr>) key slot bufs ep) = ok bs \<longrightarrow>
      slot_value f ?off key (length ?P) ep = Some bs"
  proof (intro allI impI)
    fix bs assume "snd (slab_read grp (io'\<lparr>answers := as\<rparr>) key slot bufs ep) = ok bs"
    then obtain io2 where "slab_read grp (io'\<lparr>answers := as\<rparr>) key slot bufs ep = (io2, ok bs)"
      by (metis prod.collapse)
    from slab_read_okD(2) [OF this] show "slot_value f ?off key (length ?P) ep = Some bs"
      using assms(4) fg f(2) by (simp del: length_concat)
  qed
  moreover have "is_ok r \<and> key' \<noteq> key \<and> grp key' = ?g \<longrightarrow>
      \<not> is_ok (snd (slab_read grp (io'\<lparr>answers := as\<rparr>) key' slot bufs' ep'))"
  proof (intro impI notI)
    assume k: "is_ok r \<and> key' \<noteq> key \<and> grp key' = ?g"
      and "is_ok (snd (slab_read grp (io'\<lparr>answers := as\<rparr>) key' slot bufs' ep'))"
    then obtain io2 bs where "slab_read grp (io'\<lparr>answers := as\<rparr>) key' slot bufs' ep' = (io2, ok bs)"
      by (metis is_okE prod.collapse)
    from slab_read_okD(2) [OF this] have "slot_value f ?off key' (length (concat bufs')) ep' = Some bs"
      using fg k f(2) by simp
    moreover obtain h where "?hdr = ok h" "pread f SLAB_HEADER_BYTES ?off = h"
      using write_slot_outcome(2) [OF f(1) hl] k by blast
    ultimately show False
      using k header_okD(2) [of "io_epoch io" ?g key "length ?P" seq "crc views" epoch h]
        slot_value_key [of f ?off key'] by fastforce
  qed
  ultimately show ?thesis
    by (cases "snd (slab_read grp (io'\<lparr>answers := as\<rparr>) key slot bufs ep)") auto
qed

lemma slot_value_cong:
  assumes "pread f' SLAB_HEADER_BYTES off = pread f SLAB_HEADER_BYTES off"
    and "pread f' n (off + SLAB_HEADER_BYTES) = pread f n (off + SLAB_HEADER_BYTES)"
  shows "slot_value f' off key n epoch = slot_value f off key n epoch"
  using assms by (simp add: slot_value_def Let_def cong: option.case_cong)

lemma slot_value_extents:
  assumes "slot_value f off key n epoch = Some bs"
  shows "length (pread f SLAB_HEADER_BYTES off) = SLAB_HEADER_BYTES"
    and "length (pread f n (off + SLAB_HEADER_BYTES)) = n"
proof -
  show "length (pread f n (off + SLAB_HEADER_BYTES)) = n"
    using assms by (auto simp: slot_value_def Let_def split: option.splits if_splits)
  have "parse_header (pread f SLAB_HEADER_BYTES off) \<noteq> None"
    using assms by (auto simp: slot_value_def split: option.splits)
  then have "\<not> length (pread f SLAB_HEADER_BYTES off) < SLAB_HEADER_BYTES"
    by (auto simp: parse_header_def)
  moreover have "length (pread f SLAB_HEADER_BYTES off) \<le> SLAB_HEADER_BYTES" by (simp add: pread_def)
  ultimately show "length (pread f SLAB_HEADER_BYTES off) = SLAB_HEADER_BYTES" by linarith
qed

text \<open>A write of one slot, however it ends, leaves what another slot serves.\<close>

lemma slab_write_other_value:
  assumes w: "slab_write grp io key slot views seq epoch = (io', r)"
    and v: "slot_value (files io ! grp key') (off_of grp io key' slot') key' n ep = Some bs"
    and i: "in_slot grp io key' slot'" and other: "grp key' \<noteq> grp key \<or> slot' \<noteq> slot"
    and fit: "SLAB_HEADER_BYTES + n \<le> slot_bytes io ! grp key'"
  shows "slot_value (files io' ! grp key') (off_of grp io key' slot') key' n ep = Some bs"
proof -
  let ?g = "grp key'" let ?off' = "off_of grp io key' slot'"
  have "slot_value (files io' ! ?g) ?off' key' n ep = Some bs"
  proof (cases "in_slot grp io key slot \<and> SLAB_HEADER_BYTES + length (concat views) \<le> slot_bytes io ! grp key")
    case False
    then have "io' = io"
      using w by (auto simp: slab_write_def in_slot_def slot_off_def Let_def sum_list_lengths
          simp del: length_concat split: if_splits)
    then show ?thesis using v by simp
  next
    case True
    let ?off = "off_of grp io key slot"
    obtain as1 f hdr where hdr: "hdr = header (io_epoch io) (grp key) key (length (concat views)) seq (crc views) epoch"
      and ws: "write_slot ?off views hdr (answers io, files io ! grp key) = ((as1, f), r)"
      and io': "io' = io\<lparr>files := (files io)[grp key := f], answers := as1\<rparr>"
      by (rule slab_write_cases [OF w True [THEN conjunct1] True [THEN conjunct2]])
    have hl: "\<forall>h. hdr = Inr h \<longrightarrow> length h = SLAB_HEADER_BYTES" by (simp add: hdr header_length)
    have "slot_value (files io' ! ?g) ?off' key' n ep = slot_value (files io ! ?g) ?off' key' n ep"
    proof (cases "grp key = ?g")
      case gg: True
      have ne: "nat slot \<noteq> nat slot'" using other gg i True by (auto simp: in_slot_def)
      have "nat slot * slot_bytes io ! ?g + slot_bytes io ! ?g \<le> nat slot' * slot_bytes io ! ?g
          \<or> nat slot' * slot_bytes io ! ?g + slot_bytes io ! ?g \<le> nat slot * slot_bytes io ! ?g"
        using ne by (rule extents_apart)
      then have "?off' + (SLAB_HEADER_BYTES + n) \<le> ?off
          \<or> ?off + SLAB_HEADER_BYTES + length (concat views) \<le> ?off'"
        using fit True gg by auto
      then show ?thesis
        using write_slot_apart [OF ws hl, of ?off' SLAB_HEADER_BYTES]
          write_slot_apart [OF ws hl, of "?off' + SLAB_HEADER_BYTES" n] slot_value_extents [OF v] i gg
        by (intro slot_value_cong) (auto simp: io' in_slot_def simp del: length_concat)
    qed (simp add: io')
    then show ?thesis using v io' by simp
  qed
  then show ?thesis .
qed

text \<open>
  C3: isolation. A store into one slot, however it ends, leaves every block that could be loaded from
  another slot or another group loadable with the same bytes.
\<close>

theorem slab_write_keeps_other_slots:
  assumes w: "slab_write grp io key slot views seq epoch = (io', r)"
    and rd: "slab_read grp (io\<lparr>answers := as\<rparr>) key' slot' bufs ep = (io1, ok bs)"
    and other: "grp key' \<noteq> grp key \<or> slot' \<noteq> slot"
    and fit: "SLAB_HEADER_BYTES + length (concat bufs) \<le> slot_bytes io ! grp key'"
    and ans: "benign as'" "readable bufs"
  shows "\<exists>io2. slab_read grp (io'\<lparr>answers := as'\<rparr>) key' slot' bufs ep = (io2, ok bs)"
proof -
  have v: "slot_value (files io ! grp key') (off_of grp io key' slot') key' (length (concat bufs)) ep = Some bs"
    and i: "in_slot grp io key' slot'"
    using slab_read_okD [OF rd] by (simp_all add: in_slot_def)
  note same = slab_write_other_value [OF w v i other fit] and geo = slab_write_geometry [OF w]
  show ?thesis
  proof (rule slab_read_complete [OF _ _ ans(2)])
    show "in_slot grp (io'\<lparr>answers := as'\<rparr>) key' slot'" using i geo by (simp add: in_slot_def)
  qed (use ans(1) same geo in \<open>simp_all del: length_concat\<close>)
qed

lemma pread_update:
  "pread (f[i := b]) n p = (if p \<le> i then (pread f n p)[i - p := b] else pread f n p)"
  by (simp add: pread_def drop_update_swap drop_update_cancel take_update_swap)

lemma slot_value_single_byte_damage:
  assumes "slot_value f off key n ep = Some bs" and "slot_value (f[i := b]) off key n ep = Some bs'"
  shows "bs' = bs"
proof -
  let ?H = SLAB_HEADER_BYTES let ?f' = "f[i := b]"
  have l: "length (pread f ?H off) = ?H" using slot_value_extents [OF assms(1)] by simp
  from assms(1) obtain h where h: "parse_header (pread f ?H off) = Some h" "bs = pread f n (off + ?H)"
      "uint (crc [bs]) = h_pcrc h"
    by (auto simp: slot_value_def Let_def split: option.splits if_splits)
  from assms(2) obtain h' where h': "parse_header (pread ?f' ?H off) = Some h'" "bs' = pread ?f' n (off + ?H)"
      "uint (crc [bs']) = h_pcrc h'" "length bs' = n"
    by (auto simp: slot_value_def Let_def split: option.splits if_splits)
  have hh: "h' = h"
    using parse_header_single_byte [OF l h(1), of "i - off" b] h(1) h'(1)
    by (auto simp: pread_update split: if_splits)
  have "bs' = (if off + ?H \<le> i then bs[i - (off + ?H) := b] else bs)"
    using h(2) h'(2) by (simp add: pread_update)
  then show ?thesis
    using crc32.uint_sum_changes [of "i - (off + ?H)" bs b] h(3) h'(3) hh
    by (cases "i - (off + ?H) < length bs"; cases "b = bs ! (i - (off + ?H))")
      (auto simp: crc_concat list_update_beyond split: if_splits)
qed

lemma slot_value_payload: "slot_value f off key n ep = Some bs \<Longrightarrow> bs = pread f n (off + SLAB_HEADER_BYTES) \<and> length bs = n"
  by (auto simp: slot_value_def Let_def split: option.splits if_splits)

text \<open>Damage to the sealed part of a header, or to the payload, makes the slot worthless.\<close>

lemma slot_value_sealed_byte:
  assumes "slot_value f off key n ep = Some bs" and "i < length f" and "b \<noteq> f ! i"
    and "off \<le> i \<and> i < off + 76 \<or> off + SLAB_HEADER_BYTES \<le> i \<and> i < off + SLAB_HEADER_BYTES + n"
  shows "slot_value (f[i := b]) off key n ep = None"
proof (rule ccontr)
  let ?H = SLAB_HEADER_BYTES
  assume "slot_value (f[i := b]) off key n ep \<noteq> None"
  then obtain bs' where bs': "slot_value (f[i := b]) off key n ep = Some bs'" by blast
  have l: "length (pread f ?H off) = ?H" "length bs = n" using slot_value_extents [OF assms(1)] slot_value_payload [OF assms(1)] by simp_all
  from assms(1) obtain h where h: "parse_header (pread f ?H off) = Some h" "bs = pread f n (off + ?H)"
    by (auto simp: slot_value_def Let_def split: option.splits if_splits)
  from bs' obtain h' where h': "parse_header (pread (f[i := b]) ?H off) = Some h'" "bs' = pread (f[i := b]) n (off + ?H)"
    by (auto simp: slot_value_def Let_def split: option.splits if_splits)
  have H: "?H = 128" by (simp add: SLAB_HEADER_BYTES_def)
  from assms(4) show False
  proof
    assume i: "off \<le> i \<and> i < off + 76"
    have j: "i - off < 76" "i - off < 128" "off + (i - off) = i" using i by auto
    then have "pread f ?H off ! (i - off) = f ! i" using assms(2) by (simp add: pread_def H)
    then show False using parse_header_sealed_byte [OF l(1) h(1), of "i - off" b] i j(1) assms(3) h'(1) by (simp add: pread_update)
  next
    assume i: "off + ?H \<le> i \<and> i < off + ?H + n"
    have j: "i - (off + ?H) < n" "off + ?H \<le> i" using i by linarith+
    have "bs' ! (i - (off + ?H)) = b" using j h(2) h'(2) l(2) by (simp add: pread_update)
    moreover have "bs ! (i - (off + ?H)) = f ! i" using j h(2) assms(2) by (simp add: pread_def)
    ultimately show False using slot_value_single_byte_damage [OF assms(1) bs'] assms(3) by simp
  qed
qed

text \<open>
  C4: a damaged byte is never served. If a load returns a block, then after any one byte of any slab
  file of the rank has been changed on disk, the same load fails or still returns the same bytes. It
  fails for certain when the byte is one of the slot's payload or of the 76 bytes of its header up to
  the checksum (the other 52 bytes of the header are padding, which nothing reads).
\<close>

theorem slab_read_single_byte_damage:
  fixes g i :: nat and b :: byte and as :: "os_answer list"
  assumes "slab_read grp io key slot bufs ep = (io1, ok bs)"
  defines "io' \<equiv> io\<lparr>files := (files io)[g := (files io ! g)[i := b]], answers := as\<rparr>"
  shows "(snd (slab_read grp io' key slot bufs ep) = ok bs \<or> \<not> is_ok (snd (slab_read grp io' key slot bufs ep)))
    \<and> (g = grp key \<and> i < length (files io ! g) \<and> b \<noteq> files io ! g ! i
         \<and> (\<exists>k. i = off_of grp io key slot + k \<and> (k < 76 \<or> 128 \<le> k \<and> k < 128 + length bs))
       \<longrightarrow> \<not> is_ok (snd (slab_read grp io' key slot bufs ep)))"
proof (cases "snd (slab_read grp io' key slot bufs ep)")
  case (Inr bs')
  then obtain io2 where r': "slab_read grp io' key slot bufs ep = (io2, ok bs')" by (metis prod.collapse)
  note v = slab_read_okD [OF assms(1)] slab_read_okD [OF r']
  have "bs' = bs"
  proof (cases "g = grp key")
    case True
    then show ?thesis
      using v slot_value_single_byte_damage [OF v(2), of i b bs'] by (simp add: io'_def in_slot_def)
  next
    case False
    then show ?thesis using v by (simp add: io'_def)
  qed
  moreover have False if d: "g = grp key" "i < length (files io ! g)" "b \<noteq> files io ! g ! i"
      "i = off_of grp io key slot + k" "k < 76 \<or> 128 \<le> k \<and> k < 128 + length bs" for k
  proof -
    have "length bs = length (concat bufs)" using slot_value_payload [OF v(2)] by blast
    then show False
      using slot_value_sealed_byte [OF v(2), of i b] d v by (auto simp: io'_def in_slot_def SLAB_HEADER_BYTES_def simp del: length_concat)
  qed
  ultimately show ?thesis using Inr by auto
qed simp

subsection \<open>Scanning the headers\<close>

lemma pread_short_mono:
  "length (pread f n p) < n \<Longrightarrow> p \<le> q \<Longrightarrow> length (pread f n q) < n"
  by (auto simp: pread_def)

lemma parse_short: "length raw < SLAB_HEADER_BYTES \<Longrightarrow> parse_header raw = None"
  by (simp add: parse_header_def)

lemma set_scan_slots:
  assumes "sorted slots"
  shows "(slot, seq, key) \<in> set (scan_slots f sb g ep slots) \<longleftrightarrow>
    slot \<in> set slots \<and> (\<exists>h. parse_header (pread f SLAB_HEADER_BYTES (slot * sb)) = Some h
      \<and> h_group h = int g \<and> h_epoch h = ep \<and> h_seq h = seq \<and> h_key h = key)"
  using assms
proof (induction slots)
  case (Cons s slots)
  show ?case
  proof (cases "length (pread f SLAB_HEADER_BYTES (s * sb)) < SLAB_HEADER_BYTES")
    case True
    have "parse_header (pread f SLAB_HEADER_BYTES (t * sb)) = None" if "t \<in> set (s # slots)" for t
      using that Cons.prems pread_short_mono [OF True, of "t * sb"] by (intro parse_short) (auto simp: mult_le_mono1)
    then show ?thesis using True by auto
  next
    case False
    then show ?thesis using Cons by (auto simp: Let_def split: option.splits)
  qed
qed simp

lemma distinct_scan_slots: "distinct slots \<Longrightarrow> distinct (map fst (scan_slots f sb g ep slots))
    \<and> set (map fst (scan_slots f sb g ep slots)) \<subseteq> set slots"
  by (induction slots) (auto simp: Let_def split: option.splits)

text \<open>
  C5: \<^verbatim>\<open>scan\<close> is exact. It yields (slot, seq, key) precisely for the slots below the slot count whose
  header parses, belongs to the group and carries the given epoch, and it yields each slot once;
  stopping at the first short read loses nothing.
\<close>

theorem scan_exact:
  "((slot, seq, key) \<in> set (scan io g ep) \<longleftrightarrow>
      slot < slot_counts io ! g
      \<and> (\<exists>h. parse_header (pread (files io ! g) SLAB_HEADER_BYTES (slot * slot_bytes io ! g)) = Some h
           \<and> h_group h = int g \<and> h_epoch h = ep \<and> h_seq h = seq \<and> h_key h = key))
   \<and> distinct (map fst (scan io g ep))"
  using distinct_scan_slots [of "[0..<slot_counts io ! g]" "files io ! g" "slot_bytes io ! g" g ep]
  by (simp add: scan_def set_scan_slots)

definition opt_le :: "int option \<Rightarrow> int option \<Rightarrow> bool" where
  "opt_le a b = (case a of None \<Rightarrow> True | Some x \<Rightarrow> (case b of None \<Rightarrow> False | Some y \<Rightarrow> x \<le> y))"

lemma opt_le_refl [simp]: "opt_le a a"
  by (cases a) (simp_all add: opt_le_def)

lemma opt_le_trans: "opt_le a b \<Longrightarrow> opt_le b c \<Longrightarrow> opt_le a c"
  by (auto simp: opt_le_def split: option.splits)

lemma max_epoch_slots_ge: "opt_le best (max_epoch_slots f sb slots best)"
proof (induction slots arbitrary: best)
  case (Cons s slots)
  have up: "opt_le best (case best of None \<Rightarrow> Some e | Some b \<Rightarrow> if b < e then Some e else Some b)" for e
    by (simp add: opt_le_def split: option.splits)
  show ?case
    using opt_le_trans [OF up Cons.IH] Cons.IH by (auto simp: Let_def split: option.split)
qed simp

lemma max_epoch_slots_covers:
  assumes "sorted slots" and "slot \<in> set slots" and "parse_header (pread f SLAB_HEADER_BYTES (slot * sb)) = Some h"
  shows "opt_le (Some (h_epoch h)) (max_epoch_slots f sb slots best)"
  using assms
proof (induction slots arbitrary: best)
  case (Cons s slots)
  have long: "\<not> length (pread f SLAB_HEADER_BYTES (s * sb)) < SLAB_HEADER_BYTES"
  proof
    assume "length (pread f SLAB_HEADER_BYTES (s * sb)) < SLAB_HEADER_BYTES"
    moreover have "s * sb \<le> slot * sb" using Cons.prems(1,2) by (auto intro: mult_le_mono1)
    ultimately have "length (pread f SLAB_HEADER_BYTES (slot * sb)) < SLAB_HEADER_BYTES"
      by (rule pread_short_mono)
    then show False using Cons.prems(3) parse_short by simp
  qed
  show ?case
  proof (cases "slot = s")
    case True
    let ?best = "case best of None \<Rightarrow> Some (h_epoch h) | Some b \<Rightarrow> if b < h_epoch h then Some (h_epoch h) else Some b"
    have "opt_le (Some (h_epoch h)) ?best" by (auto simp: opt_le_def split: option.splits)
    then have "opt_le (Some (h_epoch h)) (max_epoch_slots f sb slots ?best)"
      by (rule opt_le_trans) (rule max_epoch_slots_ge)
    then show ?thesis using True long Cons.prems(3) by (simp add: Let_def)
  next
    case False
    then show ?thesis using Cons long by (auto simp: Let_def split: option.splits)
  qed
qed simp

lemma fold_opt_le:
  assumes "\<And>g b. opt_le b (F g b)"
  shows "opt_le best (fold F gs best)"
  by (induction gs arbitrary: best) (use assms opt_le_trans in \<open>fastforce+\<close>)

lemma max_epoch_covers:
  assumes "g < length (files io)" and "slot < slot_counts io ! g"
    and "parse_header (pread (files io ! g) SLAB_HEADER_BYTES (slot * slot_bytes io ! g)) = Some h"
  shows "opt_le (Some (h_epoch h)) (max_epoch io)"
proof -
  let ?F = "\<lambda>g. max_epoch_slots (files io ! g) (slot_bytes io ! g) [0..<slot_counts io ! g]"
  have "[0..<length (files io)] = [0..<g] @ g # [Suc g..<length (files io)]"
    using assms(1) by (metis upt_conv_Cons upt_add_eq_append le_add_diff_inverse less_imp_le_nat zero_le)
  then have "max_epoch io = fold ?F [Suc g..<length (files io)] (?F g (fold ?F [0..<g] None))"
    by (simp add: max_epoch_def)
  moreover have "opt_le (Some (h_epoch h)) (?F g (fold ?F [0..<g] None))"
    using assms(2,3) by (intro max_epoch_slots_covers) simp_all
  ultimately show ?thesis
    by (simp add: opt_le_trans [OF _ fold_opt_le] max_epoch_slots_ge)
qed

text \<open>
  The logical wipe: the epoch the scheduler picks when the epoch file is unusable, one above the
  highest on disk (zero when nothing on disk parses), is one no slot of any group carries: a scan at
  it finds nothing. More generally every slot a scan finds has an epoch at most \<^verbatim>\<open>max_epoch\<close>.
\<close>

theorem max_epoch_logical_wipe:
  assumes "g < length (files io)"
  shows "scan io g (case max_epoch io of None \<Rightarrow> 0 | Some m \<Rightarrow> m + 1) = []
     \<and> (scan io g ep \<noteq> [] \<longrightarrow> (\<exists>m. max_epoch io = Some m \<and> ep \<le> m))"
proof -
  have found: "opt_le (Some ep) (max_epoch io)" if ne: "scan io g ep \<noteq> []" for ep
  proof -
    obtain slot seq key where "(slot, seq, key) \<in> set (scan io g ep)"
      using ne by (cases "scan io g ep") auto
    then show ?thesis
      using max_epoch_covers [OF assms, of slot] by (auto simp: scan_def set_scan_slots)
  qed
  have none: "scan io g e = []" if "\<not> opt_le (Some e) (max_epoch io)" for e
    using that found [of e] by blast
  show ?thesis
  proof (cases "max_epoch io")
    case None
    then show ?thesis by (simp add: none opt_le_def)
  next
    case (Some m)
    then have "ep \<le> m" if "scan io g ep \<noteq> []"
      using found [OF that] by (simp add: opt_le_def)
    then show ?thesis using Some none [of "m + 1"] by (auto simp: opt_le_def)
  qed
qed

section \<open>Witnesses\<close>

text \<open>A slab of one group with two slots of 132 bytes, and blocks of four bytes.\<close>

definition demo_io :: slab_io where
  "demo_io = \<lparr>slot_bytes = [132], slot_counts = [2], io_epoch = 0, files = [[]], answers = []\<rparr>"

definition demo_key :: "nat \<Rightarrow> byte list" where
  "demo_key n = replicate 36 (word_of_nat n)"

lemma demo_hyps:
  "in_slot (\<lambda>_. 0) demo_io (demo_key 1) 0" "in_slot (\<lambda>_. 0) demo_io (demo_key 1) 1"
  "benign (answers demo_io)" "readable [[1, 2], [3, 4::byte]]"
  "SLAB_HEADER_BYTES + length (concat [[1, 2], [3, 4::byte]]) \<le> slot_bytes demo_io ! 0"
  "is_ok (header (io_epoch demo_io) 0 (demo_key 1) (length (concat [[1, 2], [3, 4::byte]])) 5 (crc [[1, 2], [3, 4]]) (Some 7))"
  "readable [[0, 0, 0, 0::byte]]" "benign [Did 1]"
  by (simp_all add: in_slot_def demo_io_def demo_key_def readable_def SLAB_HEADER_BYTES_def header_ok_iff fits_def)

theorem slab_write_read_roundtrip_witness:
  "\<exists>io'. slab_write (\<lambda>_. 0) demo_io (demo_key 1) 0 [[1, 2], [3, 4]] 5 (Some 7) = (io', ok ())
     \<and> (\<exists>io''. slab_read (\<lambda>_. 0) (io'\<lparr>answers := [Did 1]\<rparr>) (demo_key 1) 0 [[0, 0, 0, 0]] (Some 7)
            = (io'', ok [1, 2, 3, 4]))"
  using slab_write_read_roundtrip [OF demo_hyps(1,3,4,5,6,7), of "[Did 1]" "Some 7"] by simp

theorem slab_write_crash_safe_witness:
  "\<exists>io' r. slab_write (\<lambda>_. 0) (demo_io\<lparr>answers := [Did 128, Did 1, Crashed]\<rparr>) (demo_key 1) 0 [[1, 2], [3, 4]] 5 (Some 7) = (io', r)
     \<and> (files io' = files demo_io
      \<or> snd (slab_read (\<lambda>_. 0) (io'\<lparr>answers := []\<rparr>) (demo_key 1) 0 [[0, 0, 0, 0]] (Some 7)) = ok [1, 2, 3, 4]
      \<or> \<not> is_ok (snd (slab_read (\<lambda>_. 0) (io'\<lparr>answers := []\<rparr>) (demo_key 1) 0 [[0, 0, 0, 0]] (Some 7))))"
proof -
  let ?io = "demo_io\<lparr>answers := [Did 128, Did 1, Crashed]\<rparr>"
  obtain io' r where w: "slab_write (\<lambda>_. 0) ?io (demo_key 1) 0 [[1, 2], [3, 4]] 5 (Some 7) = (io', r)"
    by (metis prod.exhaust)
  have "in_slot (\<lambda>_. 0) ?io (demo_key 1) 0"
    "SLAB_HEADER_BYTES + length (concat [[1, 2], [3, 4::byte]]) \<le> slot_bytes ?io ! 0"
    by (simp_all add: in_slot_def demo_io_def SLAB_HEADER_BYTES_def)
  from slab_write_crash_safe [OF w this, of "[[0, 0, 0, 0]]" "[]" "Some 7"] w show ?thesis by auto
qed

theorem slab_write_keeps_other_slots_witness:
  "\<exists>io1 io2 io3 io4 r.
     slab_write (\<lambda>_. 0) demo_io (demo_key 1) 0 [[1, 2], [3, 4]] 5 (Some 7) = (io1, ok ())
     \<and> slab_read (\<lambda>_. 0) (io1\<lparr>answers := [Did 1]\<rparr>) (demo_key 1) 0 [[0, 0, 0, 0]] (Some 7) = (io2, ok [1, 2, 3, 4])
     \<and> slab_write (\<lambda>_. 0) io1 (demo_key 2) 1 [[9]] 6 (Some 7) = (io3, r)
     \<and> slab_read (\<lambda>_. 0) (io3\<lparr>answers := [Did 1]\<rparr>) (demo_key 1) 0 [[0, 0, 0, 0]] (Some 7) = (io4, ok [1, 2, 3, 4])"
proof -
  obtain io1 io2 where
    1: "slab_write (\<lambda>_. 0) demo_io (demo_key 1) 0 [[1, 2], [3, 4]] 5 (Some 7) = (io1, ok ())"
       "slab_read (\<lambda>_. 0) (io1\<lparr>answers := [Did 1]\<rparr>) (demo_key 1) 0 [[0, 0, 0, 0]] (Some 7) = (io2, ok [1, 2, 3, 4])"
    using write_then_read [OF demo_hyps(1,3,4,5,6,7), of "[Did 1]" "Some 7"] by auto
  have sb: "slot_bytes io1 = [132]"
    using 1(1) demo_hyps(1,5) by (elim slab_write_cases) (simp_all add: demo_io_def)
  obtain io3 r where 2: "slab_write (\<lambda>_. 0) io1 (demo_key 2) 1 [[9]] 6 (Some 7) = (io3, r)"
    by (metis prod.exhaust)
  from slab_write_keeps_other_slots [OF 2 1(2), of "[Did 1]"] 1 2 demo_hyps(7,8) sb
  show ?thesis by (auto simp: SLAB_HEADER_BYTES_def)
qed

theorem slab_read_single_byte_damage_witness:
  "\<exists>io1 io2. slab_read (\<lambda>_. 0) io1 (demo_key 1) 0 [[0, 0, 0, 0]] (Some 7) = (io2, ok [1, 2, 3, 4])
     \<and> \<not> is_ok (snd (slab_read (\<lambda>_. 0) (io1\<lparr>files := (files io1)[0 := (files io1 ! 0)[129 := 77]], answers := []\<rparr>) (demo_key 1) 0 [[0, 0, 0, 0]] (Some 7)))"
proof -
  obtain io1 io2 where r: "slab_read (\<lambda>_. 0) (io1\<lparr>answers := [Did 1]\<rparr>) (demo_key 1) 0 [[0, 0, 0, 0]] (Some 7) = (io2, ok [1, 2, 3, 4])"
    using write_then_read [OF demo_hyps(1,3,4,5,6,7), of "[Did 1]" "Some 7"] by auto
  let ?io = "io1\<lparr>answers := [Did 1]\<rparr>"
  have off: "off_of (\<lambda>_. 0) ?io (demo_key 1) 0 = 0" by simp
  have n: "length (concat [[0, 0, 0, 0 :: byte]]) = 4" by simp
  have "[1, 2, 3, 4] = pread (files ?io ! 0) 4 128"
    using slot_value_payload [OF slab_read_okD(2) [OF r]] unfolding n off SLAB_HEADER_BYTES_def by simp
  then have p: "take 4 (drop 128 (files ?io ! 0)) = [1, 2, 3, 4]" by (simp add: pread_def)
  then have l: "132 \<le> length (files ?io ! 0)" by (auto dest!: arg_cong [where f = length])
  then have "files ?io ! 0 ! 129 = take 4 (drop 128 (files ?io ! 0)) ! 1" by simp
  then have f: "files ?io ! 0 ! 129 = 2" unfolding p by simp
  have "\<not> is_ok (snd (slab_read (\<lambda>_. 0) (?io\<lparr>files := (files ?io)[0 := (files ?io ! 0)[129 := 77]], answers := []\<rparr>) (demo_key 1) 0 [[0, 0, 0, 0]] (Some 7)))"
    using slab_read_single_byte_damage [OF r, where g = 0 and i = 129 and b = 77 and as = "[]"] l f off by auto
  then show ?thesis using r by blast
qed

theorem max_epoch_logical_wipe_witness:
  "scan demo_io 0 (case max_epoch demo_io of None \<Rightarrow> 0 | Some m \<Rightarrow> m + 1) = []"
  using max_epoch_logical_wipe [of 0 demo_io] by (simp add: demo_io_def)

end
