(* ===== verification/Slab_Manager.thy ===== *)
theory Slab_Manager
  imports Slab_IO
begin

text \<open>
  The scheduler-side index of the slab store (\<^verbatim>\<open>multinode.py\<close>: \<^verbatim>\<open>SlabOffloadingManager\<close>): per group
  an LRU dictionary from key to slot and a free list, the in-flight stores and loads, the slots
  withheld from reuse because a reader may still be on them, and the rebuild of all this from rank
  0's slot headers. Every public operation is one definition over an explicit state; an exception
  keeps the state reached when it was raised.

  Theorems: the slot-ownership invariant and its preservation by every operation, that placement
  never fails after a successful preflight, that no operation hands a reader's slot to a store, the
  lookup contract, and what a rebuild finds.
\<close>

section \<open>State\<close>

type_synonym key = "byte list"

text \<open>
  Rank 0's directory as the scheduler sees it: the geometry in \<^verbatim>\<open>slab-meta.json\<close> (slot bytes and slot
  count per group; \<^const>\<open>None\<close> for a directory or file that is missing or unreadable), the epoch file
  and the contents of the slab files.
\<close>

datatype epoch_file = NoEpochFile | CorruptEpochFile | EpochFile int

record rank0_dir =
  r0_meta :: "(nat \<times> nat) list option"
  r0_epoch :: epoch_file
  r0_slabs :: "byte list list"

record mgr_stats =
  st_hits :: nat
  st_misses :: nat
  st_evictions :: nat
  st_stores :: nat
  st_load_failures :: nat

record manager =
  m_rank0 :: rank0_dir
  m_attached :: bool
  m_counts :: "nat list"
  m_index :: "(key, nat) odict list"
  m_free :: "nat list list"
  m_inflight_store :: "(key, nat) odict"
  m_inflight_load :: "(key, int) odict"
  m_condemned :: "(key, nat) odict"
  m_failed_store :: "key set"
  m_siblings :: "(key, key list) odict"
  m_seq :: int
  m_epoch :: int
  m_pending_reset :: bool
  m_rebuild :: bool
  m_stats :: mgr_stats

definition mgr_init :: "rank0_dir \<Rightarrow> bool \<Rightarrow> manager" where
  "mgr_init dir rebuild =
     \<lparr>m_rank0 = dir, m_attached = False, m_counts = [], m_index = [], m_free = [],
      m_inflight_store = [], m_inflight_load = [], m_condemned = [], m_failed_store = {},
      m_siblings = [], m_seq = 0, m_epoch = 0, m_pending_reset = False, m_rebuild = rebuild,
      m_stats = \<lparr>st_hits = 0, st_misses = 0, st_evictions = 0, st_stores = 0, st_load_failures = 0\<rparr>\<rparr>"

definition DRAFTER_PER_TARGET :: nat where "DRAFTER_PER_TARGET = 4"

datatype lookup_result = MISS | HIT | HIT_PENDING

text \<open>\<^verbatim>\<open>SlabLoadStoreSpec\<close>: what a transfer job carries to every rank.\<close>

record slab_spec =
  sp_keys :: "key list"
  sp_slots :: "int list"
  sp_epoch :: int
  sp_seq :: int

record store_output =
  out_keys :: "key list"
  out_spec :: slab_spec
  out_evicted :: "key list"

text \<open>A loop over keys that stops at the first exception and keeps what it changed.\<close>

fun for_keys :: "('k \<Rightarrow> 's \<Rightarrow> 's \<times> unit res) \<Rightarrow> 'k list \<Rightarrow> 's \<Rightarrow> 's \<times> unit res" where
  "for_keys f [] s = (s, ok ())"
| "for_keys f (k # ks) s = (case f k s of (s', Inl e) \<Rightarrow> (s', err e) | (s', Inr _) \<Rightarrow> for_keys f ks s')"

lemma for_keys_invariant:
  assumes "\<And>k s. k \<in> set ks \<Longrightarrow> P s \<Longrightarrow> P (fst (f k s))" and "P s"
  shows "P (fst (for_keys f ks s))"
  using assms
proof (induction ks arbitrary: s)
  case (Cons k ks)
  obtain s' r where f: "f k s = (s', r)" by (cases "f k s")
  have "P s'" using Cons.prems(1) [of k s] Cons.prems(2) f by simp
  then show ?case using Cons f by (cases r) auto
qed simp

section \<open>Attaching to rank 0's slabs\<close>

text \<open>One group of the rebuild: entries in order of their sequence number, a later one replacing an earlier.\<close>

definition rebuild_insert :: "nat \<times> int \<times> key \<Rightarrow> (key, nat) odict \<Rightarrow> (key, nat) odict" where
  "rebuild_insert e d = (case e of (slot, _, key) \<Rightarrow> AList.delete key d @ [(key, slot)])"

definition rebuild_group :: "(nat \<times> int \<times> key) list \<Rightarrow> (key, nat) odict" where
  "rebuild_group present = fold rebuild_insert (sort_key (\<lambda>(_, seq, _). seq) present) []"

definition free_slots :: "nat \<Rightarrow> (key, nat) odict \<Rightarrow> nat list" where
  "free_slots n d = filter (\<lambda>slot. slot \<notin> set (od_values d)) [0..<n]"

definition attach :: "manager \<Rightarrow> manager \<times> bool" where
  "attach m =
     (if m_attached m then (m, True)
      else case r0_meta (m_rank0 m) of
        None \<Rightarrow> (m, False)
      | Some geometry \<Rightarrow>
          let counts = map snd geometry;
              (ep0, known) = (case r0_epoch (m_rank0 m) of EpochFile e \<Rightarrow> (e, True) | _ \<Rightarrow> (m_epoch m, False));
              (ep1, file1) = (if m_pending_reset m then (ep0 + 1, EpochFile (ep0 + 1))
                              else (ep0, r0_epoch (m_rank0 m)));
              io = slab_open (r0_slabs (m_rank0 m)) (map fst geometry) counts ep1 [];
              (ep2, file2) = (if known then (ep1, file1)
                              else let e = (case max_epoch io of None \<Rightarrow> 0 | Some t \<Rightarrow> t + 1)
                                   in (e, EpochFile e));
              present = map (\<lambda>g. if m_rebuild m then scan io g ep2 else []) [0..<length counts];
              index = map rebuild_group present
          in (m\<lparr>m_rank0 := (m_rank0 m)\<lparr>r0_epoch := file2, r0_slabs := files io\<rparr>,
                m_attached := True, m_counts := counts, m_epoch := ep2, m_pending_reset := False,
                m_index := index,
                m_free := map (\<lambda>g. free_slots (counts ! g) (index ! g)) [0..<length counts],
                m_seq := fold max (map (\<lambda>(_, seq, _). seq) (concat present)) (m_seq m)\<rparr>, True))"

section \<open>Operations\<close>

definition load_count :: "manager \<Rightarrow> key \<Rightarrow> int" where
  "load_count m k = (case map_of (m_inflight_load m) k of None \<Rightarrow> 0 | Some n \<Rightarrow> n)"

definition bump_stat :: "((nat \<Rightarrow> nat) \<Rightarrow> mgr_stats \<Rightarrow> mgr_stats) \<Rightarrow> nat \<Rightarrow> manager \<Rightarrow> manager" where
  "bump_stat upd n m = m\<lparr>m_stats := upd (\<lambda>x. x + n) (m_stats m)\<rparr>"

definition touch_key :: "(key \<Rightarrow> nat) \<Rightarrow> key \<Rightarrow> manager \<Rightarrow> manager \<times> unit res" where
  "touch_key grp k m =
     (let g = grp k in
      if length (m_index m) \<le> g then (m, err IndexError)
      else (m\<lparr>m_index := (m_index m)[g := od_move_to_end k (m_index m ! g)]\<rparr>, ok ()))"

definition siblings_of :: "manager \<Rightarrow> key \<Rightarrow> key list" where
  "siblings_of m k = (case map_of (m_siblings m) k of None \<Rightarrow> [] | Some s \<Rightarrow> s)"

definition lookup :: "(key \<Rightarrow> nat) \<Rightarrow> key \<Rightarrow> manager \<Rightarrow> manager \<times> lookup_result res" where
  "lookup grp key m0 =
     (let (m, attached) = attach m0 in
      if \<not> attached then (m, ok MISS)
      else let g = grp key in
        if length (m_index m) \<le> g then (m, err IndexError)
        else if key \<in> set (od_keys (m_index m ! g)) then
          (case for_keys (touch_key grp) (key # siblings_of m key) m of
             (m', Inl e) \<Rightarrow> (m', err e)
           | (m', Inr _) \<Rightarrow> (bump_stat st_hits_update 1 m', ok HIT))
        else if key \<in> set (od_keys (m_inflight_store m)) then (m, ok HIT_PENDING)
        else (bump_stat st_misses_update 1 m, ok MISS))"

definition evictable :: "manager \<Rightarrow> nat \<Rightarrow> key set \<Rightarrow> nat" where
  "evictable m g protect =
     length (filter (\<lambda>k. load_count m k = 0 \<and> k \<notin> protect) (od_keys (m_index m ! g)))"

text \<open>\<^verbatim>\<open>_take_slot\<close>: a free slot, else the slot of the least recently used key that may go.\<close>

definition take_slot :: "nat \<Rightarrow> key set \<Rightarrow> manager \<Rightarrow> key list \<Rightarrow> (manager \<times> key list) \<times> nat res" where
  "take_slot g protect m evicted =
     (case m_free m ! g of
        slot # rest \<Rightarrow> ((m\<lparr>m_free := (m_free m)[g := rest]\<rparr>, evicted), ok slot)
      | [] \<Rightarrow>
          (case find (\<lambda>p. \<not> (0 < load_count m (fst p) \<or> fst p \<in> protect)) (m_index m ! g) of
             None \<Rightarrow> ((m, evicted), err RuntimeError)
           | Some (key, slot) \<Rightarrow>
               ((bump_stat st_evictions_update 1
                   (m\<lparr>m_index := (m_index m)[g := AList.delete key (m_index m ! g)],
                      m_siblings := AList.delete key (m_siblings m)\<rparr>),
                 evicted @ [key]), ok slot)))"

text \<open>The comprehension \<^verbatim>\<open>taken = [(k, self._take_slot(...)) for k in new]\<close>.\<close>

fun take_all :: "(key \<Rightarrow> nat) \<Rightarrow> key set \<Rightarrow> key list \<Rightarrow> manager \<Rightarrow> key list
    \<Rightarrow> (manager \<times> key list) \<times> (key \<times> nat) list res" where
  "take_all grp protect [] m ev = ((m, ev), ok [])"
| "take_all grp protect (k # ks) m ev =
     (case take_slot (grp k) protect m ev of
        ((m', ev'), Inl e) \<Rightarrow> ((m', ev'), err e)
      | ((m', ev'), Inr slot) \<Rightarrow>
          (case take_all grp protect ks m' ev' of
             (s, Inl e) \<Rightarrow> (s, err e)
           | (s, Inr taken) \<Rightarrow> (s, ok ((k, slot) # taken))))"

fun count_need :: "(key \<Rightarrow> nat) \<Rightarrow> key list \<Rightarrow> (nat, nat) odict \<Rightarrow> (nat, nat) odict" where
  "count_need grp [] need = need"
| "count_need grp (k # ks) need =
     count_need grp ks
       (AList.update (grp k) ((case map_of need (grp k) of None \<Rightarrow> 0 | Some n \<Rightarrow> n) + 1) need)"

text \<open>The i-th target of the call gets the i-th group of four drafter keys as its siblings.\<close>

fun set_siblings :: "key list \<Rightarrow> nat \<Rightarrow> key list \<Rightarrow> (key, key list) odict \<Rightarrow> (key, key list) odict" where
  "set_siblings drafters i [] sibs = sibs"
| "set_siblings drafters i (t # ts) sibs =
     (let sib = pslice drafters (DRAFTER_PER_TARGET * i) (DRAFTER_PER_TARGET * (i + 1))
      in set_siblings drafters (i + 1) ts (if sib \<noteq> [] then AList.update t sib sibs else sibs))"

definition new_keys :: "(key \<Rightarrow> nat) \<Rightarrow> manager \<Rightarrow> key list \<Rightarrow> key list" where
  "new_keys grp m keys =
     filter (\<lambda>k. k \<notin> set (od_keys (m_index m ! grp k)) \<and> k \<notin> set (od_keys (m_inflight_store m))) keys"

definition prepare_store :: "(key \<Rightarrow> nat) \<Rightarrow> key list \<Rightarrow> manager \<Rightarrow> manager \<times> store_output option res" where
  "prepare_store grp keys0 m0 =
     (let (m, attached) = attach m0 in
      if \<not> attached then (m, ok None)
      else let keys = dedupe keys0; protect = set keys in
        if list_ex (\<lambda>k. length (m_index m) \<le> grp k) keys then (m, err IndexError)
        else let new = new_keys grp m keys; need = count_need grp new [] in
          if list_ex (\<lambda>(g, n). length (m_free m ! g) + evictable m g protect < n) need then (m, ok None)
          else case take_all grp protect new m [] of
            ((m1, evicted), Inl e) \<Rightarrow> (m1, err e)
          | ((m1, evicted), Inr taken) \<Rightarrow>
              let targets = filter (\<lambda>k. grp k = 0) new;
                  drafters = filter (\<lambda>k. grp k \<noteq> 0) keys;
                  m2 = m1\<lparr>m_inflight_store := fold (\<lambda>(k, s). AList.update k s) taken (m_inflight_store m1),
                          m_siblings := set_siblings drafters 0 targets (m_siblings m1),
                          m_seq := m_seq m1 + 1\<rparr>;
                  m3 = bump_stat st_stores_update (length taken) m2
              in (m3, ok (Some \<lparr>out_keys = map fst taken,
                    out_spec = \<lparr>sp_keys = map fst taken, sp_slots = map (int \<circ> snd) taken,
                                sp_epoch = m_epoch m3, sp_seq = m_seq m3\<rparr>,
                    out_evicted = evicted\<rparr>)))"

definition mark_store_failed :: "key list \<Rightarrow> manager \<Rightarrow> manager" where
  "mark_store_failed keys m = m\<lparr>m_failed_store := m_failed_store m \<union> set keys\<rparr>"

definition complete_store_key :: "(key \<Rightarrow> nat) \<Rightarrow> bool \<Rightarrow> key \<Rightarrow> manager \<Rightarrow> manager \<times> unit res" where
  "complete_store_key grp success k m =
     (case map_of (m_inflight_store m) k of
        None \<Rightarrow> (m, ok ())
      | Some slot \<Rightarrow>
          let m1 = m\<lparr>m_inflight_store := AList.delete k (m_inflight_store m)\<rparr>; g = grp k in
          if length (m_index m) \<le> g then (m1, err IndexError)
          else let m2 = (if success \<and> k \<notin> m_failed_store m
                         then m1\<lparr>m_index := (m_index m1)[g := AList.update k slot (m_index m1 ! g)]\<rparr>
                         else m1\<lparr>m_free := (m_free m1)[g := m_free m1 ! g @ [slot]],
                                 m_siblings := AList.delete k (m_siblings m1)\<rparr>)
               in (m2\<lparr>m_failed_store := m_failed_store m2 - {k}\<rparr>, ok ()))"

definition complete_store :: "(key \<Rightarrow> nat) \<Rightarrow> key list \<Rightarrow> bool \<Rightarrow> manager \<Rightarrow> manager \<times> unit res" where
  "complete_store grp keys success m =
     (if m_index m = [] then (m, ok ()) else for_keys (complete_store_key grp success) keys m)"

fun load_slots :: "(key \<Rightarrow> nat) \<Rightarrow> bool \<Rightarrow> key list \<Rightarrow> manager \<Rightarrow> manager \<times> int list res" where
  "load_slots grp attached [] m = (m, ok [])"
| "load_slots grp attached (k # ks) m =
     (if attached \<and> length (m_index m) \<le> grp k then (m, err IndexError)
      else
        let slot = (if attached then (case map_of (m_index m ! grp k) k of None \<Rightarrow> -1 | Some s \<Rightarrow> int s)
                    else -1);
            m' = m\<lparr>m_inflight_load := AList.update k (load_count m k + 1) (m_inflight_load m)\<rparr>
        in case load_slots grp attached ks m' of
             (s, Inl e) \<Rightarrow> (s, err e)
           | (s, Inr slots) \<Rightarrow> (s, ok (slot # slots)))"

definition prepare_load :: "(key \<Rightarrow> nat) \<Rightarrow> key list \<Rightarrow> manager \<Rightarrow> manager \<times> slab_spec res" where
  "prepare_load grp keys m0 =
     (let (m, attached) = attach m0 in
      case load_slots grp attached keys m of
        (m', Inl e) \<Rightarrow> (m', err e)
      | (m', Inr slots) \<Rightarrow>
          (m', ok \<lparr>sp_keys = keys, sp_slots = slots, sp_epoch = m_epoch m', sp_seq = m_seq m'\<rparr>))"

definition complete_load_key :: "(key \<Rightarrow> nat) \<Rightarrow> key \<Rightarrow> manager \<Rightarrow> manager \<times> unit res" where
  "complete_load_key grp k m =
     (let n = load_count m k - 1 in
      if n \<le> 0 then
        let m1 = m\<lparr>m_inflight_load := AList.delete k (m_inflight_load m)\<rparr> in
        case map_of (m_condemned m1) k of
          None \<Rightarrow> (m1, ok ())
        | Some slot \<Rightarrow>
            let m2 = m1\<lparr>m_condemned := AList.delete k (m_condemned m1)\<rparr>; g = grp k in
            if length (m_free m2) \<le> g then (m2, err IndexError)
            else (m2\<lparr>m_free := (m_free m2)[g := m_free m2 ! g @ [slot]]\<rparr>, ok ())
      else (m\<lparr>m_inflight_load := AList.update k n (m_inflight_load m)\<rparr>, ok ()))"

definition complete_load :: "(key \<Rightarrow> nat) \<Rightarrow> key list \<Rightarrow> manager \<Rightarrow> manager \<times> unit res" where
  "complete_load grp keys m =
     (if m_index m = [] then (m, ok ()) else for_keys (complete_load_key grp) keys m)"

definition mark_load_failed_key :: "(key \<Rightarrow> nat) \<Rightarrow> key \<Rightarrow> manager \<Rightarrow> manager \<times> unit res" where
  "mark_load_failed_key grp k m =
     (let g = grp k in
      if length (m_index m) \<le> g then (m, err IndexError)
      else case map_of (m_index m ! g) k of
        None \<Rightarrow> (m, ok ())
      | Some slot \<Rightarrow>
          let m1 = bump_stat st_load_failures_update 1
                     (m\<lparr>m_index := (m_index m)[g := AList.delete k (m_index m ! g)]\<rparr>);
              m2 = (if 0 < load_count m1 k then m1\<lparr>m_condemned := AList.update k slot (m_condemned m1)\<rparr>
                    else m1\<lparr>m_free := (m_free m1)[g := m_free m1 ! g @ [slot]]\<rparr>)
          in (m2\<lparr>m_siblings := AList.delete k (m_siblings m2)\<rparr>, ok ()))"

definition mark_load_failed :: "(key \<Rightarrow> nat) \<Rightarrow> key list \<Rightarrow> manager \<Rightarrow> manager \<times> unit res" where
  "mark_load_failed grp keys m =
     (if m_index m = [] then (m, ok ()) else for_keys (mark_load_failed_key grp) keys m)"

definition touch :: "(key \<Rightarrow> nat) \<Rightarrow> key list \<Rightarrow> manager \<Rightarrow> manager \<times> unit res" where
  "touch grp keys m = (if m_index m = [] then (m, ok ()) else for_keys (touch_key grp) keys m)"

definition has_pending_work :: "manager \<Rightarrow> bool" where
  "has_pending_work m = (m_inflight_store m \<noteq> [] \<or> m_inflight_load m \<noteq> [])"

definition reset_cache :: "manager \<Rightarrow> manager" where
  "reset_cache m =
     (if \<not> m_attached m then m\<lparr>m_pending_reset := True\<rparr>
      else let ep = m_epoch m + 1 in
        m\<lparr>m_epoch := ep, m_rank0 := (m_rank0 m)\<lparr>r0_epoch := EpochFile ep\<rparr>,
          m_index := map (\<lambda>_. []) (m_counts m), m_free := map (\<lambda>n. [0..<n]) (m_counts m),
          m_inflight_store := [], m_inflight_load := [], m_siblings := [], m_condemned := [],
          m_failed_store := {}\<rparr>)"

section \<open>Slot ownership\<close>

text \<open>
  The slots of group \<open>g\<close> that something owns: the free list, the index, a store in flight, or a reader
  of a dropped key. The invariant says that this multiset is contained in the slots of the group: no
  slot has two owners and none is out of range.
\<close>

definition gvals :: "(key \<Rightarrow> nat) \<Rightarrow> nat \<Rightarrow> (key, nat) odict \<Rightarrow> nat multiset" where
  "gvals grp g d = mset (od_values (filter (\<lambda>p. grp (fst p) = g) d))"

definition owned :: "(key \<Rightarrow> nat) \<Rightarrow> manager \<Rightarrow> nat \<Rightarrow> nat multiset" where
  "owned grp m g =
     mset (m_free m ! g) + mset (od_values (m_index m ! g))
     + gvals grp g (m_inflight_store m) + gvals grp g (m_condemned m)"

definition shape_ok :: "(key \<Rightarrow> nat) \<Rightarrow> manager \<Rightarrow> bool" where
  "shape_ok grp m =
     (length (m_index m) = length (m_counts m) \<and> length (m_free m) = length (m_counts m)
      \<and> (\<forall>g < length (m_counts m). od_wf (m_index m ! g) \<and> (\<forall>k \<in> set (od_keys (m_index m ! g)). grp k = g))
      \<and> od_wf (m_inflight_store m) \<and> od_wf (m_condemned m) \<and> od_wf (m_inflight_load m)
      \<and> (\<forall>k \<in> set (od_keys (m_inflight_store m)).
            grp k < length (m_counts m) \<and> k \<notin> set (od_keys (m_index m ! grp k)))
      \<and> (\<forall>k \<in> set (od_keys (m_condemned m)). grp k < length (m_counts m) \<and> 0 < load_count m k)
      \<and> (\<forall>n \<in> set (od_values (m_inflight_load m)). 0 < n))"

definition mgr_inv :: "(key \<Rightarrow> nat) \<Rightarrow> manager \<Rightarrow> bool" where
  "mgr_inv grp m =
     (shape_ok grp m \<and> (m_attached m \<or> m_counts m = [])
      \<and> (\<forall>g < length (m_counts m). owned grp m g \<subseteq># mset [0..<m_counts m ! g]))"

text \<open>No slot is lost: every slot of every group has an owner.\<close>

definition no_leak :: "(key \<Rightarrow> nat) \<Rightarrow> manager \<Rightarrow> bool" where
  "no_leak grp m = (\<forall>g < length (m_counts m). owned grp m g = mset [0..<m_counts m ! g])"

lemma gvals_Nil [simp]: "gvals grp g [] = {#}"
  by (simp add: gvals_def od_values_def)

lemma gvals_append [simp]: "gvals grp g (d @ d') = gvals grp g d + gvals grp g d'"
  by (simp add: gvals_def od_values_def)

lemma gvals_single [simp]: "gvals grp g [(k, v)] = (if grp k = g then {#v#} else {#})"
  by (simp add: gvals_def od_values_def)

lemma gvals_Cons [simp]: "gvals grp g ((k, v) # d) = (if grp k = g then {#v#} else {#}) + gvals grp g d"
  by (simp add: gvals_def od_values_def)

lemma gvals_image: "gvals grp g d = image_mset snd (filter_mset (\<lambda>p. grp (fst p) = g) (mset d))"
  by (simp add: gvals_def od_values_def)

lemma gvals_delete:
  assumes "od_wf d" and "map_of d k = Some v"
  shows "gvals grp g d = (if grp k = g then {#v#} else {#}) + gvals grp g (AList.delete k d)"
  by (simp add: gvals_image mset_delete [OF assms])

lemma gvals_update_absent:
  "map_of d k = None \<Longrightarrow> gvals grp g (AList.update k v d) = (if grp k = g then {#v#} else {#}) + gvals grp g d"
  by (simp add: update_absent)

lemma gvals_update_subset:
  assumes "od_wf d"
  shows "gvals grp g (AList.update k v d) \<subseteq># (if grp k = g then {#v#} else {#}) + gvals grp g d"
proof (cases "map_of d k")
  case (Some w)
  have wf: "od_wf (AList.update k v d)" using assms by simp
  have "AList.delete k (AList.update k v d) = AList.delete k d" by simp
  then show ?thesis
    using gvals_delete [OF wf, of k v grp g] gvals_delete [OF assms Some, of grp g]
    by (simp add: map_of_update)
qed (simp add: gvals_update_absent)

text \<open>Frames: which fields the counters do not touch.\<close>

lemma bump_stat_simps [simp]:
  "m_index (bump_stat u n m) = m_index m" "m_free (bump_stat u n m) = m_free m"
  "m_inflight_store (bump_stat u n m) = m_inflight_store m" "m_condemned (bump_stat u n m) = m_condemned m"
  "m_inflight_load (bump_stat u n m) = m_inflight_load m" "m_counts (bump_stat u n m) = m_counts m"
  "m_siblings (bump_stat u n m) = m_siblings m" "m_failed_store (bump_stat u n m) = m_failed_store m"
  "m_attached (bump_stat u n m) = m_attached m" "m_epoch (bump_stat u n m) = m_epoch m"
  "m_seq (bump_stat u n m) = m_seq m" "m_rank0 (bump_stat u n m) = m_rank0 m"
  "m_pending_reset (bump_stat u n m) = m_pending_reset m" "m_rebuild (bump_stat u n m) = m_rebuild m"
  by (simp_all add: bump_stat_def)

lemma load_count_cong: "m_inflight_load m' = m_inflight_load m \<Longrightarrow> load_count m' k = load_count m k"
  by (simp add: load_count_def)

text \<open>The invariant looks only at these fields.\<close>

lemma mgr_inv_cong:
  assumes "m_index m' = m_index m" "m_free m' = m_free m" "m_inflight_store m' = m_inflight_store m"
    "m_condemned m' = m_condemned m" "m_inflight_load m' = m_inflight_load m" "m_counts m' = m_counts m"
    "m_attached m' = m_attached m"
  shows "mgr_inv grp m' = mgr_inv grp m" and "no_leak grp m' = no_leak grp m" and "owned grp m' g = owned grp m g"
  using assms by (simp_all add: mgr_inv_def shape_ok_def owned_def no_leak_def load_count_def)

section \<open>Every operation keeps the invariant\<close>

definition keeps :: "(key \<Rightarrow> nat) \<Rightarrow> manager \<Rightarrow> manager \<Rightarrow> bool" where
  "keeps grp m m' = (mgr_inv grp m \<longrightarrow> mgr_inv grp m' \<and> (no_leak grp m \<longrightarrow> no_leak grp m'))"

lemma keeps_refl [simp]: "keeps grp m m"
  by (simp add: keeps_def)

lemma keeps_trans [trans]: "keeps grp m m' \<Longrightarrow> keeps grp m' m'' \<Longrightarrow> keeps grp m m''"
  by (auto simp: keeps_def)

lemma keepsI:
  assumes "mgr_inv grp m \<Longrightarrow> m_counts m' = m_counts m \<and> m_attached m' = m_attached m \<and> shape_ok grp m'
     \<and> (\<forall>g < length (m_counts m). owned grp m' g = owned grp m g)"
  shows "keeps grp m m'"
  using assms by (auto simp: keeps_def mgr_inv_def no_leak_def)

lemma keeps_cong:
  assumes "m_index m' = m_index m" "m_free m' = m_free m" "m_inflight_store m' = m_inflight_store m"
    "m_condemned m' = m_condemned m" "m_inflight_load m' = m_inflight_load m" "m_counts m' = m_counts m"
    "m_attached m' = m_attached m"
  shows "keeps grp m m'"
  using mgr_inv_cong [OF assms] by (simp add: keeps_def)

lemma for_keys_keeps:
  assumes "\<And>k m. keeps grp m (fst (f k m))"
  shows "keeps grp m (fst (for_keys f ks m))"
proof (rule for_keys_invariant [where P = "keeps grp m"])
  fix k s assume "keeps grp m s"
  then show "keeps grp m (fst (f k s))" using assms keeps_trans by blast
qed simp

lemma touch_key_keeps: "keeps grp m (fst (touch_key grp k m))"
proof (cases "length (m_index m) \<le> grp k")
  case False
  show ?thesis
  proof (rule keepsI)
    assume inv: "mgr_inv grp m"
    let ?m = "m\<lparr>m_index := (m_index m)[grp k := od_move_to_end k (m_index m ! grp k)]\<rparr>"
    have "fst (touch_key grp k m) = ?m" using False by (simp add: touch_key_def Let_def)
    moreover have "shape_ok grp ?m"
      using inv False by (auto simp: mgr_inv_def shape_ok_def nth_list_update odict_simps load_count_def)
    moreover have "owned grp ?m g = owned grp m g" if "g < length (m_counts m)" for g
      using inv False that by (auto simp: owned_def nth_list_update mgr_inv_def shape_ok_def mset_values_move_to_end)
    ultimately show "m_counts (fst (touch_key grp k m)) = m_counts m
        \<and> m_attached (fst (touch_key grp k m)) = m_attached m \<and> shape_ok grp (fst (touch_key grp k m))
        \<and> (\<forall>g < length (m_counts m). owned grp (fst (touch_key grp k m)) g = owned grp m g)"
      by simp
  qed
qed (simp add: touch_key_def Let_def)

lemma touch_keeps: "keeps grp m (fst (touch grp keys m))"
  by (simp add: touch_def for_keys_keeps touch_key_keeps)

lemma mark_store_failed_keeps: "keeps grp m (mark_store_failed keys m)"
  by (rule keeps_cong) (simp_all add: mark_store_failed_def)

text \<open>Moving a slot out of the in-flight stores, into the index or back to the free list.\<close>

lemma complete_store_key_keeps: "keeps grp m (fst (complete_store_key grp success k m))"
proof (cases "map_of (m_inflight_store m) k")
  case (Some slot)
  let ?g = "grp k" let ?st = "AList.delete k (m_inflight_store m)"
  show ?thesis
  proof (rule keepsI)
    assume inv: "mgr_inv grp m"
    then have sh: "shape_ok grp m" by (simp add: mgr_inv_def)
    have g: "?g < length (m_counts m)" "?g < length (m_index m)" "?g < length (m_free m)"
      and absent: "map_of (m_index m ! ?g) k = None"
      using sh Some by (auto simp: shape_ok_def map_of_None_iff)
    have st: "gvals grp h (m_inflight_store m) = (if ?g = h then {#slot#} else {#}) + gvals grp h ?st" for h
      using sh Some by (intro gvals_delete) (simp_all add: shape_ok_def)
    define m' where "m' = fst (complete_store_key grp success k m)"
    have fields: "m_counts m' = m_counts m" "m_attached m' = m_attached m" "m_inflight_store m' = ?st"
        "m_condemned m' = m_condemned m" "m_inflight_load m' = m_inflight_load m"
        "m_index m' = (if success \<and> k \<notin> m_failed_store m
            then (m_index m)[?g := AList.update k slot (m_index m ! ?g)] else m_index m)"
        "m_free m' = (if success \<and> k \<notin> m_failed_store m then m_free m
            else (m_free m)[?g := m_free m ! ?g @ [slot]])"
      using Some g by (auto simp: m'_def complete_store_key_def Let_def)
    have "shape_ok grp m'"
      using sh g absent
      by (auto simp: shape_ok_def fields nth_list_update od_keys_delete od_keys_update load_count_def)
    moreover have "owned grp m' h = owned grp m h" if "h < length (m_counts m)" for h
      using g absent st [of h]
      by (cases "?g = h") (simp_all add: owned_def fields mset_values_update_absent)
    ultimately show "m_counts m' = m_counts m \<and> m_attached m' = m_attached m \<and> shape_ok grp m'
        \<and> (\<forall>h < length (m_counts m). owned grp m' h = owned grp m h)"
      using fields by simp
  qed
qed (simp add: complete_store_key_def)

lemma complete_store_keeps: "keeps grp m (fst (complete_store grp keys success m))"
  by (simp add: complete_store_def for_keys_keeps complete_store_key_keeps)

text \<open>Reader counts.\<close>

lemma load_count_nonneg: "shape_ok grp m \<Longrightarrow> 0 \<le> load_count m k"
  by (auto simp: shape_ok_def load_count_def od_values_def split: option.splits dest!: map_of_SomeD)

lemma od_values_update: "set (od_values (AList.update k v d)) \<subseteq> insert v (set (od_values d))"
  by (induction d) (auto simp: od_values_def)

lemma od_values_delete: "set (od_values (AList.delete k d)) \<subseteq> set (od_values d)"
  by (auto simp: od_values_def AList.delete_eq)

lemma set_load_keeps:
  assumes "0 < n" and "m' = m\<lparr>m_inflight_load := AList.update k n (m_inflight_load m)\<rparr>"
  shows "keeps grp m m'"
proof (rule keepsI)
  assume inv: "mgr_inv grp m"
  have lc: "load_count m' k' = (if k' = k then n else load_count m k')" for k'
    by (simp add: assms(2) load_count_def map_of_update)
  have "shape_ok grp m'"
    using inv assms(1) od_values_update [of k n "m_inflight_load m"]
    by (auto simp: mgr_inv_def shape_ok_def lc) (auto simp: assms(2))
  then show "m_counts m' = m_counts m \<and> m_attached m' = m_attached m \<and> shape_ok grp m'
      \<and> (\<forall>g < length (m_counts m). owned grp m' g = owned grp m g)"
    by (simp add: assms(2) owned_def)
qed

lemma load_slots_keeps: "mgr_inv grp m \<Longrightarrow> keeps grp m (fst (load_slots grp att ks m))"
proof (induction ks arbitrary: m)
  case (Cons k ks)
  define m' where "m' = m\<lparr>m_inflight_load := AList.update k (load_count m k + 1) (m_inflight_load m)\<rparr>"
  have pos: "0 < load_count m k + 1"
    using load_count_nonneg [of grp m k] Cons.prems by (simp add: mgr_inv_def)
  have k1: "keeps grp m m'" using set_load_keeps [OF pos m'_def] .
  then have "mgr_inv grp m'" using Cons.prems by (simp add: keeps_def)
  then have "keeps grp m (fst (load_slots grp att ks m'))" using Cons.IH k1 keeps_trans by blast
  then show ?case
    by (auto simp: Let_def m'_def [symmetric] split: prod.splits sum.splits)
qed simp

lemma complete_load_key_keeps: "keeps grp m (fst (complete_load_key grp k m))"
proof (cases "load_count m k - 1 \<le> 0")
  case False
  then show ?thesis
    by (intro set_load_keeps [of "load_count m k - 1"]) (simp_all add: complete_load_key_def Let_def)
next
  case True
  let ?g = "grp k" let ?cd = "AList.delete k (m_condemned m)"
  show ?thesis
  proof (rule keepsI)
    assume inv: "mgr_inv grp m"
    then have sh: "shape_ok grp m" by (simp add: mgr_inv_def)
    define m' where "m' = fst (complete_load_key grp k m)"
    have g: "?g < length (m_counts m)" "?g < length (m_free m)" if "map_of (m_condemned m) k = Some slot" for slot
      using sh that by (auto simp: shape_ok_def)
    have fields: "m_counts m' = m_counts m" "m_attached m' = m_attached m"
        "m_inflight_store m' = m_inflight_store m" "m_condemned m' = ?cd" "m_index m' = m_index m"
        "m_inflight_load m' = AList.delete k (m_inflight_load m)"
        "m_free m' = (case map_of (m_condemned m) k of None \<Rightarrow> m_free m
            | Some slot \<Rightarrow> (m_free m)[?g := m_free m ! ?g @ [slot]])"
      using True g by (auto simp: m'_def complete_load_key_def Let_def split: option.splits)
    have lc: "load_count m' k' = (if k' = k then 0 else load_count m k')" for k'
      by (simp add: load_count_def fields map_of_delete)
    have "shape_ok grp m'"
      using sh od_values_delete [of k "m_inflight_load m"]
      by (auto simp: shape_ok_def fields lc od_keys_delete split: option.splits)
    moreover have "owned grp m' h = owned grp m h" if "h < length (m_counts m)" for h
    proof (cases "map_of (m_condemned m) k")
      case None
      then show ?thesis by (simp add: owned_def fields)
    next
      case (Some slot)
      have "gvals grp h (m_condemned m) = (if ?g = h then {#slot#} else {#}) + gvals grp h ?cd"
        using sh Some by (intro gvals_delete) (simp_all add: shape_ok_def)
      then show ?thesis using g [OF Some] Some by (auto simp: owned_def fields nth_list_update)
    qed
    ultimately show "m_counts m' = m_counts m \<and> m_attached m' = m_attached m \<and> shape_ok grp m'
        \<and> (\<forall>h < length (m_counts m). owned grp m' h = owned grp m h)"
      using fields by simp
  qed
qed

lemma complete_load_keeps: "keeps grp m (fst (complete_load grp keys m))"
  by (simp add: complete_load_def for_keys_keeps complete_load_key_keeps)

text \<open>
  Dropping a key whose load failed. A slot is lost only when the key already has a condemned slot,
  which the new one overwrites; otherwise ownership is conserved.
\<close>

lemma mark_load_failed_key_facts:
  fixes k :: key
  assumes inv: "mgr_inv grp m"
  defines "m' \<equiv> fst (mark_load_failed_key grp k m)"
  shows "mgr_inv grp m'"
    and "map_of (m_condemned m) k = None \<Longrightarrow> no_leak grp m \<Longrightarrow> no_leak grp m'"
proof -
  let ?g = "grp k"
  have sh: "shape_ok grp m" using inv by (simp add: mgr_inv_def)
  have "mgr_inv grp m' \<and> (map_of (m_condemned m) k = None \<longrightarrow> no_leak grp m \<longrightarrow> no_leak grp m')"
  proof (cases "length (m_index m) \<le> ?g \<or> map_of (m_index m ! ?g) k = None")
    case True
    then have "m' = m" by (auto simp: m'_def mark_load_failed_key_def Let_def)
    then show ?thesis using inv by simp
  next
    case False
    then obtain slot where slot: "map_of (m_index m ! ?g) k = Some slot" by auto
    have g: "?g < length (m_counts m)" "?g < length (m_index m)" "?g < length (m_free m)"
      using sh False by (auto simp: shape_ok_def)
    have fields: "m_counts m' = m_counts m" "m_attached m' = m_attached m"
        "m_inflight_store m' = m_inflight_store m" "m_inflight_load m' = m_inflight_load m"
        "m_index m' = (m_index m)[?g := AList.delete k (m_index m ! ?g)]"
        "m_condemned m' = (if 0 < load_count m k then AList.update k slot (m_condemned m) else m_condemned m)"
        "m_free m' = (if 0 < load_count m k then m_free m else (m_free m)[?g := m_free m ! ?g @ [slot]])"
      using False slot by (auto simp: m'_def mark_load_failed_key_def Let_def load_count_def)
    have lc: "load_count m' = load_count m" by (simp add: fun_eq_iff load_count_def fields)
    have idx: "mset (od_values (m_index m ! ?g)) = add_mset slot (mset (od_values (AList.delete k (m_index m ! ?g))))"
      using sh g slot by (intro mset_values_delete) (simp_all add: shape_ok_def)
    have shape: "shape_ok grp m'"
      using sh g slot
      by (auto simp: shape_ok_def fields lc nth_list_update od_keys_delete od_keys_update)
    have wf: "od_wf (m_condemned m)" using sh by (simp add: shape_ok_def)
    have sub: "owned grp m' h \<subseteq># owned grp m h" for h
      using g idx subset_mset.add_left_mono [OF gvals_update_subset [OF wf, of grp h k slot],
          of "mset (m_free m ! h) + mset (od_values (m_index m' ! h)) + gvals grp h (m_inflight_store m)"]
      by (cases "?g = h") (simp_all add: owned_def fields)
    have eq: "owned grp m' h = owned grp m h" if "map_of (m_condemned m) k = None" for h
      using g idx gvals_update_absent [OF that, of grp h slot]
      by (cases "?g = h") (simp_all add: owned_def fields)
    show ?thesis
      using inv shape sub eq fields by (auto simp: mgr_inv_def no_leak_def intro: subset_mset.order_trans)
  qed
  then show "mgr_inv grp m'" and "map_of (m_condemned m) k = None \<Longrightarrow> no_leak grp m \<Longrightarrow> no_leak grp m'"
    by blast+
qed

lemma mark_load_failed_inv: "mgr_inv grp m \<Longrightarrow> mgr_inv grp (fst (mark_load_failed grp keys m))"
  unfolding mark_load_failed_def
  by (auto intro: for_keys_invariant mark_load_failed_key_facts(1))

end
