(* ===== verification/Slab_Placement.thy ===== *)
theory Slab_Placement
  imports Slab_Manager
begin

text \<open>
  Placement of stores in the slab index (\<^verbatim>\<open>multinode.py\<close>: \<^verbatim>\<open>SlabOffloadingManager.prepare_store\<close> and
  \<^verbatim>\<open>_take_slot\<close>): once the per-group preflight passes, every slot is found, the keys evicted for it have
  no reader and were not asked for, and slot ownership is conserved.
\<close>

section \<open>Placement\<close>

text \<open>What the preflight counts: the slots a store of group \<open>g\<close> can still get.\<close>

definition avail :: "manager \<Rightarrow> nat \<Rightarrow> key set \<Rightarrow> nat" where
  "avail m g protect = length (m_free m ! g) + evictable m g protect"

text \<open>One slot taken: where it came from and what stays as it was.\<close>

definition took :: "(key \<Rightarrow> nat) \<Rightarrow> manager \<Rightarrow> nat \<Rightarrow> nat \<Rightarrow> key set \<Rightarrow> manager \<Rightarrow> bool" where
  "took grp m g slot ev m' =
     (shape_ok grp m' \<and> m_counts m' = m_counts m \<and> m_attached m' = m_attached m
      \<and> m_inflight_store m' = m_inflight_store m \<and> m_inflight_load m' = m_inflight_load m
      \<and> m_condemned m' = m_condemned m \<and> m_epoch m' = m_epoch m \<and> m_seq m' = m_seq m
      \<and> m_failed_store m' = m_failed_store m
      \<and> (\<forall>h < length (m_counts m). owned grp m h = (if h = g then {#slot#} else {#}) + owned grp m' h
           \<and> (\<forall>k. map_of (m_index m' ! h) k = (if k \<in> ev then None else map_of (m_index m ! h) k))))"

lemma shape_grp: "shape_ok grp m \<Longrightarrow> g < length (m_counts m) \<Longrightarrow> k \<in> set (od_keys (m_index m ! g)) \<Longrightarrow> grp k = g"
  by (simp add: shape_ok_def)

lemma find_filter_Some: "find P xs = Some x \<Longrightarrow> P x \<and> x \<in> set xs"
  by (auto simp: find_Some_iff)

lemma filter_delete_length:
  assumes "od_wf d" and "map_of d k = Some v" and "P k"
  shows "length (filter P (od_keys d)) = Suc (length (filter P (od_keys (AList.delete k d))))"
proof -
  have "mset (od_keys d) = add_mset k (mset (od_keys (AList.delete k d)))"
    using arg_cong [OF mset_delete [OF assms(1,2)], of "image_mset fst"] by (simp add: od_keys_def flip: mset_map)
  then have "mset (filter P (od_keys d)) = add_mset k (mset (filter P (od_keys (AList.delete k d))))"
    using assms(3) by (simp add: mset_filter)
  then show ?thesis by (metis size_add_mset size_mset)
qed

lemma take_slot_free:
  assumes "shape_ok grp m" and "g < length (m_counts m)" and "m_free m ! g = slot # rest"
  shows "take_slot g protect m ev = ((m\<lparr>m_free := (m_free m)[g := rest]\<rparr>, ev), ok slot)"
    and "took grp m g slot {} (m\<lparr>m_free := (m_free m)[g := rest]\<rparr>)"
    and "avail m h protect = (if h = g then 1 else 0) + avail (m\<lparr>m_free := (m_free m)[g := rest]\<rparr>) h protect"
proof -
  have g: "g < length (m_free m)" using assms by (simp add: shape_ok_def)
  show "take_slot g protect m ev = ((m\<lparr>m_free := (m_free m)[g := rest]\<rparr>, ev), ok slot)"
    using assms(3) by (simp add: take_slot_def)
  have "shape_ok grp (m\<lparr>m_free := (m_free m)[g := rest]\<rparr>)"
    using assms(1) by (simp add: shape_ok_def load_count_def)
  then show "took grp m g slot {} (m\<lparr>m_free := (m_free m)[g := rest]\<rparr>)"
    using g assms(3) by (simp add: took_def owned_def nth_list_update)
  show "avail m h protect = (if h = g then 1 else 0) + avail (m\<lparr>m_free := (m_free m)[g := rest]\<rparr>) h protect"
    using g assms(3) by (simp add: avail_def evictable_def load_count_def nth_list_update)
qed

lemma take_slot_evict:
  assumes sh: "shape_ok grp m" and g: "g < length (m_counts m)" and "m_free m ! g = []"
    and f: "find (\<lambda>p. \<not> (0 < load_count m (fst p) \<or> fst p \<in> protect)) (m_index m ! g) = Some (k, slot)"
  defines "m' \<equiv> bump_stat st_evictions_update 1
      (m\<lparr>m_index := (m_index m)[g := AList.delete k (m_index m ! g)], m_siblings := AList.delete k (m_siblings m)\<rparr>)"
  shows "take_slot g protect m ev = ((m', ev @ [k]), ok slot)"
    and "took grp m g slot {k} m'"
    and "avail m h protect = (if h = g then 1 else 0) + avail m' h protect"
    and "load_count m k = 0" and "k \<notin> protect" and "map_of (m_index m ! g) k = Some slot"
proof -
  show "take_slot g protect m ev = ((m', ev @ [k]), ok slot)"
    using assms(3,4) by (simp add: take_slot_def m'_def)
  have gi: "g < length (m_index m)" "g < length (m_free m)" and wf: "od_wf (m_index m ! g)"
    using sh g by (simp_all add: shape_ok_def)
  have k: "(k, slot) \<in> set (m_index m ! g)" "\<not> 0 < load_count m k" "k \<notin> protect"
    using find_filter_Some [OF f] by auto
  show "k \<notin> protect" by (fact k(3))
  show lc: "load_count m k = 0" using k(2) load_count_nonneg [OF sh, of k] by simp
  show mk: "map_of (m_index m ! g) k = Some slot"
    using k(1) wf by (simp add: od_wf_def od_keys_def)
  have other: "map_of (m_index m ! h) k = None" if "h < length (m_counts m)" "h \<noteq> g" for h
    using shape_grp [OF sh g map_of_Some_key [OF mk]] shape_grp [OF sh that(1)] that(2)
    by (auto simp: map_of_None_iff)
  have lc': "load_count m' = load_count m" by (simp add: fun_eq_iff load_count_def m'_def)
  have fields: "m_counts m' = m_counts m" "m_inflight_store m' = m_inflight_store m" "m_free m' = m_free m"
      "m_inflight_load m' = m_inflight_load m" "m_condemned m' = m_condemned m"
      "m_index m' = (m_index m)[g := AList.delete k (m_index m ! g)]"
    by (simp_all add: m'_def)
  have "shape_ok grp m'"
    using sh gi by (auto simp: shape_ok_def lc' fields nth_list_update od_keys_delete)
  moreover have "owned grp m h = (if h = g then {#slot#} else {#}) + owned grp m' h" for h
    using gi mset_values_delete [OF wf mk] by (cases "h = g") (simp_all add: owned_def fields)
  moreover have "map_of (m_index m' ! h) k' = (if k' \<in> {k} then None else map_of (m_index m ! h) k')"
    if "h < length (m_counts m)" for h k'
    using gi other [OF that] by (cases "h = g") (simp_all add: fields map_of_delete)
  moreover have "m_attached m' = m_attached m" "m_epoch m' = m_epoch m" "m_seq m' = m_seq m"
      "m_failed_store m' = m_failed_store m"
    by (simp_all add: m'_def)
  ultimately show "took grp m g slot {k} m'" unfolding took_def using fields by blast
  have "length (filter (\<lambda>k. load_count m k = 0 \<and> k \<notin> protect) (od_keys (m_index m ! g)))
      = Suc (length (filter (\<lambda>k. load_count m k = 0 \<and> k \<notin> protect) (od_keys (AList.delete k (m_index m ! g)))))"
    using wf mk lc k(3) by (intro filter_delete_length) simp_all
  then show "avail m h protect = (if h = g then 1 else 0) + avail m' h protect"
    using gi assms(3) lc' by (cases "h = g") (simp_all add: avail_def evictable_def fields)
qed

text \<open>A slot is available: \<^const>\<open>take_slot\<close> succeeds and uses up exactly one.\<close>

lemma take_slot_avail:
  assumes sh: "shape_ok grp m" and g: "g < length (m_counts m)" and "0 < avail m g protect"
  obtains m' ev' slot new_ev where "take_slot g protect m ev = ((m', ev'), ok slot)" "took grp m g slot new_ev m'"
    "\<forall>h. avail m h protect = (if h = g then 1 else 0) + avail m' h protect"
    "set ev' = set ev \<union> new_ev" "new_ev \<subseteq> {k. load_count m k = 0 \<and> k \<notin> protect \<and> k \<in> set (od_keys (m_index m ! g))}"
proof (cases "m_free m ! g")
  case (Cons slot rest)
  note f = take_slot_free [OF sh g Cons]
  show ?thesis by (rule that [OF f(1) f(2)]) (use f(3) in simp_all)
next
  case Nil
  have "0 < evictable m g protect" using assms(3) Nil by (simp add: avail_def)
  then obtain k where "k \<in> set (od_keys (m_index m ! g))" "load_count m k = 0" "k \<notin> protect"
    unfolding evictable_def by (metis (mono_tags, lifting) filter_False length_greater_0_conv)
  then have "find (\<lambda>p. \<not> (0 < load_count m (fst p) \<or> fst p \<in> protect)) (m_index m ! g) \<noteq> None"
    by (auto simp: find_None_iff od_keys_def)
  then obtain k slot where f: "find (\<lambda>p. \<not> (0 < load_count m (fst p) \<or> fst p \<in> protect)) (m_index m ! g) = Some (k, slot)"
    by (cases "find (\<lambda>p. \<not> (0 < load_count m (fst p) \<or> fst p \<in> protect)) (m_index m ! g)") auto
  note e = take_slot_evict [OF sh g Nil f]
  show ?thesis
    by (rule that [OF e(1) e(2)]) (use e(3-5) map_of_Some_key [OF e(6)] in simp_all)
qed

lemma map_of_count_need:
  "map_of (count_need grp ks need) g =
     (let n = length (filter (\<lambda>k. grp k = g) ks)
      in case map_of need g of None \<Rightarrow> if n = 0 then None else Some n | Some c \<Rightarrow> Some (c + n))"
proof (induction ks arbitrary: need)
  case (Cons k ks)
  then show ?case by (cases "grp k = g") (auto simp: map_of_update Let_def split: option.splits)
qed (simp add: Let_def split: option.splits)

lemma took_trans_owned:
  "took grp m g slot ev m' \<Longrightarrow> h < length (m_counts m) \<Longrightarrow> owned grp m h = (if h = g then {#slot#} else {#}) + owned grp m' h"
  by (simp add: took_def)

text \<open>
  With enough slots available in every group, placement of a list of keys succeeds, evicts only keys
  that have no reader and were not asked for, and gives out exactly the slots that lost their owner.
\<close>

definition placed :: "(key \<Rightarrow> nat) \<Rightarrow> key set \<Rightarrow> manager \<Rightarrow> (key \<times> nat) list \<Rightarrow> key set \<Rightarrow> manager \<Rightarrow> bool" where
  "placed grp protect m taken ev m' =
     (shape_ok grp m' \<and> m_counts m' = m_counts m \<and> m_attached m' = m_attached m
      \<and> m_inflight_store m' = m_inflight_store m \<and> m_inflight_load m' = m_inflight_load m
      \<and> m_condemned m' = m_condemned m \<and> m_epoch m' = m_epoch m \<and> m_seq m' = m_seq m
      \<and> m_failed_store m' = m_failed_store m
      \<and> (\<forall>h < length (m_counts m). owned grp m h = gvals grp h taken + owned grp m' h
           \<and> (\<forall>k. map_of (m_index m' ! h) k = (if k \<in> ev then None else map_of (m_index m ! h) k)))
      \<and> (\<forall>k \<in> ev. load_count m k = 0 \<and> k \<notin> protect \<and> (\<exists>h < length (m_counts m). k \<in> set (od_keys (m_index m ! h)))))"

lemma placed_step:
  assumes t: "took grp m (grp k) slot ev1 m1" and p: "placed grp protect m1 taken ev m2"
    and ev: "\<forall>k' \<in> ev1. load_count m k' = 0 \<and> k' \<notin> protect \<and> (\<exists>h < length (m_counts m). k' \<in> set (od_keys (m_index m ! h)))"
  shows "placed grp protect m ((k, slot) # taken) (ev1 \<union> ev) m2"
proof -
  have c: "m_counts m1 = m_counts m" and lc: "load_count m1 = load_count m"
    using t by (simp_all add: took_def fun_eq_iff load_count_def)
  have idx: "map_of (m_index m1 ! h) k' = (if k' \<in> ev1 then None else map_of (m_index m ! h) k')"
    if "h < length (m_counts m)" for h k'
    using t that by (simp add: took_def)
  have keys: "set (od_keys (m_index m1 ! h)) \<subseteq> set (od_keys (m_index m ! h))" if "h < length (m_counts m)" for h
    using idx [OF that] by (auto simp: set_od_keys split: if_splits)
  have "\<forall>k' \<in> ev. load_count m k' = 0 \<and> k' \<notin> protect \<and> (\<exists>h < length (m_counts m). k' \<in> set (od_keys (m_index m ! h)))"
    using p keys by (fastforce simp: placed_def c lc)
  then have "\<forall>k' \<in> ev1 \<union> ev. load_count m k' = 0 \<and> k' \<notin> protect \<and> (\<exists>h < length (m_counts m). k' \<in> set (od_keys (m_index m ! h)))"
    using ev by blast
  moreover have "\<forall>h < length (m_counts m). owned grp m h = gvals grp h ((k, slot) # taken) + owned grp m2 h
      \<and> (\<forall>k'. map_of (m_index m2 ! h) k' = (if k' \<in> ev1 \<union> ev then None else map_of (m_index m ! h) k'))"
    using p idx took_trans_owned [OF t] by (simp add: placed_def c)
  ultimately show ?thesis
    using t p by (simp add: placed_def took_def)
qed

lemma take_all_avail:
  assumes "shape_ok grp m" and "\<forall>k \<in> set ks. grp k < length (m_counts m)"
    and "\<forall>g. length (filter (\<lambda>k. grp k = g) ks) \<le> avail m g protect"
  shows "\<exists>m' ev' taken. take_all grp protect ks m ev = ((m', ev'), ok taken) \<and> map fst taken = ks
     \<and> (\<exists>new_ev. set ev' = set ev \<union> new_ev \<and> placed grp protect m taken new_ev m')"
  using assms
proof (induction ks arbitrary: m ev)
  case Nil
  then show ?case by (auto simp: placed_def intro!: exI [of _ "{}"])
next
  case (Cons k ks)
  let ?g = "grp k"
  have g: "?g < length (m_counts m)" using Cons.prems(2) by simp
  have av: "0 < avail m ?g protect" using Cons.prems(3) [rule_format, of ?g] by simp
  obtain m1 ev1 slot new1 where t: "take_slot ?g protect m ev = ((m1, ev1), ok slot)" "took grp m ?g slot new1 m1"
      "\<forall>h. avail m h protect = (if h = ?g then 1 else 0) + avail m1 h protect"
      "set ev1 = set ev \<union> new1" "new1 \<subseteq> {k. load_count m k = 0 \<and> k \<notin> protect \<and> k \<in> set (od_keys (m_index m ! ?g))}"
    by (rule take_slot_avail [OF Cons.prems(1) g av, of ev])
  have c1: "m_counts m1 = m_counts m" and sh1: "shape_ok grp m1" using t(2) by (simp_all add: took_def)
  have n1: "\<forall>h. length (filter (\<lambda>k. grp k = h) ks) \<le> avail m1 h protect"
  proof
    fix h
    show "length (filter (\<lambda>k. grp k = h) ks) \<le> avail m1 h protect"
      using Cons.prems(3) [rule_format, of h] t(3) [rule_format, of h] by (cases "h = ?g") auto
  qed
  have "\<forall>k \<in> set ks. grp k < length (m_counts m1)" using Cons.prems(2) c1 by simp
  from Cons.IH [OF sh1 this n1, of ev1] obtain m2 ev2 taken new2 where
    r: "take_all grp protect ks m1 ev1 = ((m2, ev2), ok taken)" "map fst taken = ks"
       "set ev2 = set ev1 \<union> new2" "placed grp protect m1 taken new2 m2" by blast
  have "\<forall>k' \<in> new1. load_count m k' = 0 \<and> k' \<notin> protect \<and> (\<exists>h < length (m_counts m). k' \<in> set (od_keys (m_index m ! h)))"
    using t(5) g by fastforce
  note p = placed_step [OF t(2) r(4) this]
  have "set ev2 = set ev \<union> (new1 \<union> new2)" using t(4) r(3) by auto
  moreover have "take_all grp protect (k # ks) m ev = ((m2, ev2), ok ((k, slot) # taken))" using t(1) r(1) by simp
  moreover have "map fst ((k, slot) # taken) = k # ks" using r(2) by simp
  ultimately show ?case using p by (intro exI conjI) assumption+
qed


text \<open>The whole operation on an attached manager.\<close>

lemma fold_update_absent:
  assumes "distinct (map fst xs)" and "\<forall>k \<in> fst ` set xs. map_of d k = None"
  shows "fold (\<lambda>(k, s). AList.update k s) xs d = d @ xs"
  using assms
proof (induction xs arbitrary: d)
  case (Cons x xs)
  obtain k s where x: "x = (k, s)" by (cases x)
  have "fold (\<lambda>(k, s). AList.update k s) xs (d @ [(k, s)]) = (d @ [(k, s)]) @ xs"
  proof (rule Cons.IH)
    show "\<forall>k' \<in> fst ` set xs. map_of (d @ [(k, s)]) k' = None"
      using Cons.prems by (auto simp: x map_add_def split: option.splits)
  qed (use Cons.prems in simp)
  then show ?case using Cons.prems by (simp add: x update_absent)
qed simp

lemma od_wf_append:
  assumes "od_wf d" "distinct (map fst xs)" "\<forall>k \<in> fst ` set xs. map_of d k = None"
  shows "od_wf (d @ xs)"
proof -
  have "fst ` set d \<inter> fst ` set xs = {}"
    using assms(3) unfolding map_of_eq_None_iff by blast
  then show ?thesis using assms(1,2) by (simp add: od_wf_def od_keys_def)
qed

lemma need_fits:
  assumes "\<not> list_ex (\<lambda>(g, n). length (m_free m ! g) + evictable m g protect < n) (count_need grp ks [])"
  shows "length (filter (\<lambda>k. grp k = g) ks) \<le> avail m g protect"
proof (cases "length (filter (\<lambda>k. grp k = g) ks) = 0")
  case False
  then have "map_of (count_need grp ks []) g = Some (length (filter (\<lambda>k. grp k = g) ks))"
    by (simp add: map_of_count_need Let_def)
  then have "(g, length (filter (\<lambda>k. grp k = g) ks)) \<in> set (count_need grp ks [])"
    by (rule map_of_SomeD)
  then show ?thesis using assms by (auto simp: list_ex_iff avail_def)
qed simp

lemma od_wf_count_need: "od_wf d \<Longrightarrow> od_wf (count_need grp ks d)"
  by (induction ks arbitrary: d) auto

lemma need_short:
  assumes "list_ex (\<lambda>(g, n). length (m_free m ! g) + evictable m g protect < n) (count_need grp ks [])"
  shows "\<exists>g. length (m_free m ! g) + evictable m g protect < length (filter (\<lambda>k. grp k = g) ks)"
proof -
  obtain g n where gn: "(g, n) \<in> set (count_need grp ks [])"
      and short: "length (m_free m ! g) + evictable m g protect < n"
    using assms by (auto simp: list_ex_iff)
  have "map_of (count_need grp ks []) g = Some n"
    using gn od_wf_count_need [of "[]" grp ks] by (simp add: od_wf_def od_keys_def)
  then have "n = length (filter (\<lambda>k. grp k = g) ks)"
    by (simp add: map_of_count_need Let_def split: if_splits)
  then show ?thesis using short by auto
qed

text \<open>What a successful store leaves behind.\<close>

definition stored :: "(key \<Rightarrow> nat) \<Rightarrow> key list \<Rightarrow> manager \<Rightarrow> manager \<Rightarrow> (key \<times> nat) list \<Rightarrow> key list \<Rightarrow> bool" where
  "stored grp keys m m' taken evicted =
     (map fst taken = new_keys grp m (dedupe keys)
      \<and> m_inflight_store m' = m_inflight_store m @ taken
      \<and> m_counts m' = m_counts m \<and> m_attached m' = m_attached m \<and> m_inflight_load m' = m_inflight_load m
      \<and> m_condemned m' = m_condemned m \<and> m_epoch m' = m_epoch m \<and> m_seq m' = m_seq m + 1
      \<and> shape_ok grp m'
      \<and> (\<forall>h < length (m_counts m). owned grp m' h = owned grp m h
           \<and> (\<forall>k. map_of (m_index m' ! h) k = (if k \<in> set evicted then None else map_of (m_index m ! h) k)))
      \<and> (\<forall>k \<in> set evicted. load_count m k = 0 \<and> k \<notin> set keys
           \<and> (\<exists>h < length (m_counts m). k \<in> set (od_keys (m_index m ! h)))))"

lemma attach_attached [simp]: "m_attached m \<Longrightarrow> attach m = (m, True)"
  by (simp add: attach_def)

lemma prepare_store_cases:
  assumes inv: "mgr_inv grp m" and att: "m_attached m" and gs: "\<forall>k \<in> set keys. grp k < length (m_counts m)"
  obtains
    (refused) g where "prepare_store grp keys m = (m, ok None)"
      "length (m_free m ! g) + evictable m g (set keys) < length (filter (\<lambda>k. grp k = g) (new_keys grp m (dedupe keys)))"
  | (placed) m' taken evicted where
      "prepare_store grp keys m = (m', ok (Some \<lparr>out_keys = map fst taken,
          out_spec = \<lparr>sp_keys = map fst taken, sp_slots = map (int \<circ> snd) taken, sp_epoch = m_epoch m, sp_seq = m_seq m + 1\<rparr>,
          out_evicted = evicted\<rparr>))"
      "stored grp keys m m' taken evicted"
proof -
  let ?new = "new_keys grp m (dedupe keys)" let ?P = "set keys"
  have sh: "shape_ok grp m" using inv by (simp add: mgr_inv_def)
  have idx: "length (m_index m) = length (m_counts m)" using sh by (simp add: shape_ok_def)
  have inr: "\<not> list_ex (\<lambda>k. length (m_index m) \<le> grp k) (dedupe keys)"
    using gs idx by (auto simp: list_ex_iff)
  show ?thesis
  proof (cases "list_ex (\<lambda>(g, n). length (m_free m ! g) + evictable m g ?P < n) (count_need grp ?new [])")
    case True
    from need_short [OF True] obtain g where
      g: "length (m_free m ! g) + evictable m g ?P < length (filter (\<lambda>k. grp k = g) ?new)" ..
    have "prepare_store grp keys m = (m, ok None)"
      using att inr True by (simp add: prepare_store_def Let_def)
    then show ?thesis using g by (rule refused)
  next
    case False
    have gs': "\<forall>k \<in> set ?new. grp k < length (m_counts m)" using gs by (simp add: new_keys_def)
    have need: "\<forall>g. length (filter (\<lambda>k. grp k = g) ?new) \<le> avail m g ?P"
      using need_fits [OF False] by simp
    from take_all_avail [OF sh gs' need, of "[]"] obtain m1 evicted taken where
      t: "take_all grp ?P ?new m [] = ((m1, evicted), ok taken)" "map fst taken = ?new"
         "placed grp ?P m taken (set evicted) m1" by auto
    define m' where "m' = fst (prepare_store grp keys m)"
    have ps: "prepare_store grp keys m = (m', ok (Some \<lparr>out_keys = map fst taken,
          out_spec = \<lparr>sp_keys = map fst taken, sp_slots = map (int \<circ> snd) taken, sp_epoch = m_epoch m1, sp_seq = m_seq m1 + 1\<rparr>,
          out_evicted = evicted\<rparr>))"
      using att inr False t(1) by (simp add: prepare_store_def Let_def m'_def)
    have dist: "distinct (map fst taken)" by (simp add: t(2) new_keys_def)
    have fresh: "\<forall>k \<in> fst ` set taken. map_of (m_inflight_store m) k = None"
      using arg_cong [OF t(2), of set] by (auto simp: new_keys_def map_of_None_iff)
    have fields: "m_inflight_store m' = m_inflight_store m @ taken" "m_counts m' = m_counts m"
        "m_attached m' = m_attached m" "m_inflight_load m' = m_inflight_load m" "m_condemned m' = m_condemned m"
        "m_epoch m' = m_epoch m" "m_seq m' = m_seq m + 1" "m_index m' = m_index m1" "m_free m' = m_free m1"
      using att inr False t fold_update_absent [OF dist fresh]
      by (simp_all add: prepare_store_def Let_def m'_def placed_def)
    have sh1: "shape_ok grp m1" and c1: "m_counts m1 = m_counts m" and st1: "m_inflight_store m1 = m_inflight_store m"
      and cd1: "m_condemned m1 = m_condemned m" and lc1: "m_inflight_load m1 = m_inflight_load m"
      and ep: "m_epoch m1 = m_epoch m" "m_seq m1 = m_seq m"
      using t(3) by (simp_all add: placed_def)
    have pl: "owned grp m h = gvals grp h taken + owned grp m1 h"
        "map_of (m_index m1 ! h) k = (if k \<in> set evicted then None else map_of (m_index m ! h) k)"
      if "h < length (m_counts m)" for h k
      using t(3) that by (simp_all add: placed_def)
    have new: "grp k < length (m_counts m) \<and> k \<notin> set (od_keys (m_index m1 ! grp k))" if "k \<in> fst ` set taken" for k
    proof -
      have k: "k \<in> set ?new" using that arg_cong [OF t(2), of set] by auto
      then have "map_of (m_index m ! grp k) k = None" by (simp add: new_keys_def map_of_None_iff)
      then show ?thesis using k gs' pl(2) [of "grp k" k] by (auto simp flip: map_of_None_iff)
    qed
    have "shape_ok grp m'"
    proof -
      have "od_wf (m_inflight_store m)" using sh by (simp add: shape_ok_def)
      then have "od_wf (m_inflight_store m @ taken)"
        using dist fresh by (rule od_wf_append)
      moreover have "\<forall>k \<in> set (od_keys (m_inflight_store m @ taken)).
          grp k < length (m_counts m) \<and> k \<notin> set (od_keys (m_index m1 ! grp k))"
        using new sh1 by (auto simp: shape_ok_def st1 c1 od_keys_def)
      ultimately show ?thesis
        using sh1 unfolding shape_ok_def load_count_def fields c1 st1 cd1 lc1 by blast
    qed
    moreover have "owned grp m' h = owned grp m h" if "h < length (m_counts m)" for h
      using pl(1) [OF that] by (simp add: owned_def fields st1 cd1)
    ultimately have "stored grp keys m m' taken evicted"
      using t(2,3) pl(2) by (simp add: stored_def fields placed_def)
    then show ?thesis using ps ep by (intro placed) simp_all
  qed
qed

lemma prepare_store_keeps:
  assumes "m_attached m" and "\<forall>k \<in> set keys. grp k < length (m_counts m)"
  shows "keeps grp m (fst (prepare_store grp keys m))"
proof (rule keepsI)
  assume inv: "mgr_inv grp m"
  show "m_counts (fst (prepare_store grp keys m)) = m_counts m
      \<and> m_attached (fst (prepare_store grp keys m)) = m_attached m \<and> shape_ok grp (fst (prepare_store grp keys m))
      \<and> (\<forall>g < length (m_counts m). owned grp (fst (prepare_store grp keys m)) g = owned grp m g)"
    using inv assms
  proof (cases rule: prepare_store_cases)
    case (refused g)
    then show ?thesis using inv by (simp add: mgr_inv_def)
  next
    case (placed m' taken evicted)
    then show ?thesis by (simp add: stored_def)
  qed
qed

section \<open>The contract of a store\<close>

text \<open>A slot handed to a store had no reader and no other owner.\<close>

lemma stored_slot_fresh:
  assumes inv: "mgr_inv grp m" and st: "stored grp keys m m' taken evicted"
    and k: "(k, slot) \<in> set taken" "grp k < length (m_counts m)"
  shows "slot < m_counts m ! grp k"
    and "slot \<notin># gvals grp (grp k) (m_inflight_store m)"
    and "slot \<notin># gvals grp (grp k) (m_condemned m)"
    and "map_of (m_index m ! grp k) k' = Some slot \<Longrightarrow> load_count m k' = 0 \<and> k' \<notin> set keys"
proof -
  let ?g = "grp k"
  have own: "owned grp m' ?g \<subseteq># mset [0..<m_counts m ! ?g]"
    using inv st k(2) by (simp add: stored_def mgr_inv_def)
  have split: "gvals grp ?g (m_inflight_store m') = gvals grp ?g (m_inflight_store m) + gvals grp ?g taken"
    and cd: "m_condemned m' = m_condemned m"
    using st by (simp_all add: stored_def)
  have "{#slot#} \<subseteq># gvals grp ?g taken"
    using k(1) by (force simp: gvals_image)
  then obtain T where T: "gvals grp ?g taken = {#slot#} + T" by (auto simp: mset_subset_eq_exists_conv)
  have "count (mset [0..<m_counts m ! ?g]) slot \<le> 1"
    by (metis distinct_count_atmost_1 distinct_upt le_refl zero_le)
  then have "count (owned grp m' ?g) slot \<le> 1" using mset_subset_eq_count [OF own, of slot] by linarith
  then have once: "slot \<notin># mset (od_values (m_index m' ! ?g))" "slot \<notin># gvals grp ?g (m_inflight_store m)"
      "slot \<notin># gvals grp ?g (m_condemned m)"
    by (simp_all add: owned_def split T cd not_in_iff)
  then show "slot \<notin># gvals grp ?g (m_inflight_store m)" "slot \<notin># gvals grp ?g (m_condemned m)" by blast+
  show "slot < m_counts m ! ?g"
    using mset_subset_eqD [OF own, of slot] by (simp add: owned_def split T)
  assume k': "map_of (m_index m ! ?g) k' = Some slot"
  have "map_of (m_index m' ! ?g) k' \<noteq> Some slot"
  proof
    assume "map_of (m_index m' ! ?g) k' = Some slot"
    then have "slot \<in># mset (od_values (m_index m' ! ?g))"
      by (force simp: od_values_def dest: map_of_SomeD)
    then show False using once(1) by contradiction
  qed
  then have "k' \<in> set evicted" using st k(2) k' by (auto simp: stored_def split: if_splits)
  then show "load_count m k' = 0 \<and> k' \<notin> set keys" using st by (auto simp: stored_def)
qed

text \<open>
  C6: \<^verbatim>\<open>prepare_store\<close> on an attached index never raises: the preflight is exact. Either some group has
  fewer free and evictable slots than new keys of that group, and then nothing at all has changed; or
  every new key gets a slot. Such a slot is in range, has no other owner in flight, is not one that a
  reader still uses, and is not taken from a key of the same request; the evicted keys have no reader
  and were not asked for. Slot ownership, and with it the absence of leaks, is conserved.
\<close>

theorem prepare_store_contract:
  assumes "mgr_inv grp m" and "m_attached m" and "\<forall>k \<in> set keys. grp k < length (m_counts m)"
  shows "case prepare_store grp keys m of
     (m', Inl e) \<Rightarrow> False
   | (m', Inr None) \<Rightarrow> m' = m \<and> (\<exists>g. length (m_free m ! g) + evictable m g (set keys)
         < length (filter (\<lambda>k. grp k = g) (new_keys grp m (dedupe keys))))
   | (m', Inr (Some out)) \<Rightarrow>
       mgr_inv grp m' \<and> (no_leak grp m \<longrightarrow> no_leak grp m')
       \<and> out_keys out = new_keys grp m (dedupe keys) \<and> sp_keys (out_spec out) = out_keys out
       \<and> length (sp_slots (out_spec out)) = length (out_keys out)
       \<and> sp_seq (out_spec out) = m_seq m + 1 \<and> sp_epoch (out_spec out) = m_epoch m
       \<and> (\<forall>k \<in> set (out_evicted out). load_count m k = 0 \<and> k \<notin> set keys)
       \<and> (\<forall>(k, s) \<in> set (zip (out_keys out) (sp_slots (out_spec out))).
            map_of (m_inflight_store m') k = Some (nat s) \<and> 0 \<le> s \<and> nat s < m_counts m ! grp k
            \<and> nat s \<notin># gvals grp (grp k) (m_inflight_store m) \<and> nat s \<notin># gvals grp (grp k) (m_condemned m)
            \<and> (\<forall>k'. map_of (m_index m ! grp k) k' = Some (nat s) \<longrightarrow> load_count m k' = 0 \<and> k' \<notin> set keys))"
  using assms
proof (cases rule: prepare_store_cases)
  case (refused g)
  then show ?thesis by auto
next
  case (placed m' taken evicted)
  have "keeps grp m m'" using prepare_store_keeps [OF assms(2,3)] placed(1) by simp
  then have inv: "mgr_inv grp m' \<and> (no_leak grp m \<longrightarrow> no_leak grp m')"
    using assms(1) by (simp add: keeps_def)
  have keys: "map fst taken = new_keys grp m (dedupe keys)" and st: "m_inflight_store m' = m_inflight_store m @ taken"
    and wf: "od_wf (m_inflight_store m')"
    and ev: "\<forall>k \<in> set evicted. load_count m k = 0 \<and> k \<notin> set keys"
    using placed(2) unfolding stored_def shape_ok_def by blast+
  have each: "map_of (m_inflight_store m') k = Some slot \<and> slot < m_counts m ! grp k
        \<and> slot \<notin># gvals grp (grp k) (m_inflight_store m) \<and> slot \<notin># gvals grp (grp k) (m_condemned m)
        \<and> (\<forall>k'. map_of (m_index m ! grp k) k' = Some slot \<longrightarrow> load_count m k' = 0 \<and> k' \<notin> set keys)"
    if "(k, slot) \<in> set taken" for k slot
  proof -
    have "k \<in> set (new_keys grp m (dedupe keys))" using that keys by (metis fst_conv image_eqI list.set_map)
    then have "grp k < length (m_counts m)" using assms(3) by (simp add: new_keys_def)
    note f = stored_slot_fresh [OF assms(1) placed(2) that this]
    moreover have "map_of (m_inflight_store m') k = Some slot"
      using that wf unfolding st od_wf_def od_keys_def by (intro map_of_is_SomeI) simp_all
    ultimately show ?thesis by blast
  qed
  have "zip (map fst taken) (map (int \<circ> snd) taken) = map (\<lambda>(k, s). (k, int s)) taken"
    by (simp add: zip_map_map zip_same_conv_map split_beta)
  moreover have "length taken = length (new_keys grp m (dedupe keys))" using arg_cong [OF keys, of length] by simp
  ultimately show ?thesis using placed(1) inv keys ev each by (auto simp: comp_def)
qed

text \<open>A small attached manager: one group of two slots, \<open>[7]\<close> stored in slot 1 and being read, slot 0 holds \<open>[8]\<close>.\<close>

definition demo_mgr :: manager where
  "demo_mgr = (mgr_init \<lparr>r0_meta = Some [(8192, 2)], r0_epoch = EpochFile 3, r0_slabs = [[]]\<rparr> True)
     \<lparr>m_attached := True, m_counts := [2], m_index := [[([7], 1), ([8], 0)]], m_free := [[]],
      m_inflight_load := [([7], 1)], m_epoch := 3, m_seq := 5\<rparr>"

lemma demo_mgr_inv: "mgr_inv (\<lambda>_. 0) demo_mgr"
  by (simp add: mgr_inv_def shape_ok_def demo_mgr_def mgr_init_def owned_def od_wf_def od_keys_def od_values_def
      load_count_def upt_rec numeral_2_eq_2)

theorem prepare_store_contract_witness:
  "\<exists>m' out. prepare_store (\<lambda>_. 0) [[9]] demo_mgr = (m', ok (Some out)) \<and> mgr_inv (\<lambda>_. 0) m'
     \<and> out_keys out = [[9]] \<and> out_evicted out = [[8]] \<and> sp_slots (out_spec out) = [0]"
proof -
  have hyps: "m_attached demo_mgr" "\<forall>k \<in> set [[9]]. (\<lambda>_. 0) k < length (m_counts demo_mgr)"
    by (simp_all add: demo_mgr_def)
  obtain m' out where run: "prepare_store (\<lambda>_. 0) [[9]] demo_mgr = (m', ok (Some out))"
      "out_evicted out = [[8]]" "sp_slots (out_spec out) = [0]" "out_keys out = [[9]]"
    by (simp add: prepare_store_def demo_mgr_def mgr_init_def Let_def new_keys_def od_keys_def evictable_def
        load_count_def take_slot_def bump_stat_def)
  then show ?thesis using prepare_store_contract [OF demo_mgr_inv hyps] by auto
qed

end
