(* ===== verification/Slab_Lifecycle.thy ===== *)
theory Slab_Lifecycle
  imports Slab_Placement
begin

text \<open>
  The life of the slab index (\<^verbatim>\<open>multinode.py\<close>: \<^verbatim>\<open>SlabOffloadingManager\<close>): what a rebuild from rank 0's
  headers yields, the step relation of the scheduler's calls with its reachable states, and what
  \<^verbatim>\<open>lookup\<close> answers along a store, a failed load and a reset.
\<close>

section \<open>The rebuild\<close>

lemma rebuild_fold:
  assumes "sorted (map (\<lambda>(_, seq, _). seq) xs)"
  defines "d \<equiv> fold rebuild_insert xs []"
  shows "od_wf d" and "mset (od_values d) \<subseteq># mset (map fst xs)"
    and "map_of d k = Some slot \<Longrightarrow> \<exists>seq. (slot, seq, k) \<in> set xs \<and> (\<forall>s q. (s, q, k) \<in> set xs \<longrightarrow> q \<le> seq)"
    and "map_of d k = None \<longleftrightarrow> k \<notin> (snd \<circ> snd) ` set xs"
proof -
  have "od_wf d \<and> mset (od_values d) \<subseteq># mset (map fst xs)
      \<and> (\<forall>k slot. map_of d k = Some slot \<longrightarrow> (\<exists>seq. (slot, seq, k) \<in> set xs \<and> (\<forall>s q. (s, q, k) \<in> set xs \<longrightarrow> q \<le> seq)))
      \<and> (\<forall>k. map_of d k = None \<longleftrightarrow> k \<notin> (snd \<circ> snd) ` set xs)"
    using assms(1) unfolding d_def
  proof (induction xs rule: rev_induct)
    case Nil
    then show ?case by (simp add: od_values_def)
  next
    case (snoc e xs)
    obtain slot seq key where e: "e = (slot, seq, key)" by (cases e)
    define d where "d = fold rebuild_insert xs []"
    have IH: "od_wf d" "mset (od_values d) \<subseteq># mset (map fst xs)"
        "\<forall>k s. map_of d k = Some s \<longrightarrow> (\<exists>q. (s, q, k) \<in> set xs \<and> (\<forall>s' q'. (s', q', k) \<in> set xs \<longrightarrow> q' \<le> q))"
        "\<forall>k. map_of d k = None \<longleftrightarrow> k \<notin> (snd \<circ> snd) ` set xs"
      using snoc by (simp_all add: d_def sorted_append)
    have le: "q \<le> seq" if "(s, q, k) \<in> set xs" for s q k
      using snoc.prems that by (force simp: sorted_append e)
    have step: "fold rebuild_insert (xs @ [e]) [] = AList.delete key d @ [(key, slot)]"
      by (simp add: d_def rebuild_insert_def e)
    have mo: "map_of (AList.delete key d @ [(key, slot)]) k = (if k = key then Some slot else map_of d k)" for k
      by (auto simp: map_add_def map_of_delete split: option.split)
    have "od_wf (AList.delete key d @ [(key, slot)])"
      using IH(1) by (simp add: od_wf_def od_keys_def delete_keys distinct_removeAll)
    moreover have "mset (od_values (AList.delete key d)) \<subseteq># mset (od_values d)"
      by (cases "map_of d key") (simp_all add: mset_values_delete [OF IH(1)])
    then have "mset (od_values (AList.delete key d @ [(key, slot)])) \<subseteq># mset (map fst (xs @ [e]))"
      using IH(2) by (simp add: e od_values_def)
    moreover have "\<exists>q. (s, q, k) \<in> set (xs @ [e]) \<and> (\<forall>s' q'. (s', q', k) \<in> set (xs @ [e]) \<longrightarrow> q' \<le> q)"
      if "map_of (AList.delete key d @ [(key, slot)]) k = Some s" for k s
    proof (cases "k = key")
      case True
      then have "s = slot" using that unfolding mo by simp
      then show ?thesis using True le by (intro exI [of _ seq]) (auto simp: e)
    next
      case False
      then have "map_of d k = Some s" using that unfolding mo by simp
      then show ?thesis using IH(3) False by (auto simp: e)
    qed
    moreover have "map_of (AList.delete key d @ [(key, slot)]) k = None \<longleftrightarrow> k \<notin> (snd \<circ> snd) ` set (xs @ [e])" for k
      unfolding mo using IH(4) by (auto simp: e)
    ultimately show ?case unfolding step by blast
  qed
  then show "od_wf d" and "mset (od_values d) \<subseteq># mset (map fst xs)"
    and "map_of d k = Some slot \<Longrightarrow> \<exists>seq. (slot, seq, k) \<in> set xs \<and> (\<forall>s q. (s, q, k) \<in> set xs \<longrightarrow> q \<le> seq)"
    and "map_of d k = None \<longleftrightarrow> k \<notin> (snd \<circ> snd) ` set xs"
    by blast+
qed

lemma rebuild_group_facts:
  shows "od_wf (rebuild_group xs)" and "mset (od_values (rebuild_group xs)) \<subseteq># mset (map fst xs)"
    and "map_of (rebuild_group xs) k = Some slot \<Longrightarrow>
          \<exists>seq. (slot, seq, k) \<in> set xs \<and> (\<forall>s q. (s, q, k) \<in> set xs \<longrightarrow> q \<le> seq)"
    and "map_of (rebuild_group xs) k = None \<longleftrightarrow> k \<notin> (snd \<circ> snd) ` set xs"
proof -
  let ?ys = "sort_key (\<lambda>(_, seq, _). seq) xs"
  note f = rebuild_fold [OF sorted_sort_key [of "\<lambda>(_, seq, _). seq" xs], folded rebuild_group_def]
  show "od_wf (rebuild_group xs)" by (rule f(1))
  have "mset (map fst ?ys) = mset (map fst xs)" by simp
  then show "mset (od_values (rebuild_group xs)) \<subseteq># mset (map fst xs)" using f(2) by simp
  show "map_of (rebuild_group xs) k = Some slot \<Longrightarrow>
          \<exists>seq. (slot, seq, k) \<in> set xs \<and> (\<forall>s q. (s, q, k) \<in> set xs \<longrightarrow> q \<le> seq)"
    using f(3) [of k slot] by simp
  show "map_of (rebuild_group xs) k = None \<longleftrightarrow> k \<notin> (snd \<circ> snd) ` set xs" using f(4) [of k] by simp
qed

text \<open>The free list is the complement of the index.\<close>

lemma free_slots_complement:
  assumes "mset (od_values d) \<subseteq># mset [0..<n]"
  shows "mset (free_slots n d) + mset (od_values d) = mset [0..<n]"
proof -
  have sub: "set (od_values d) \<subseteq> {0..<n}" using set_mset_mono [OF assms] by simp
  have "count (mset (od_values d)) x \<le> 1" for x
  proof -
    have "count (mset [0..<n]) x \<le> 1" by (simp add: count_mset_set')
    then show ?thesis using mset_subset_eq_count [OF assms, of x] by linarith
  qed
  then have "distinct (od_values d)"
    unfolding distinct_count_atmost_1 by (metis One_nat_def count_greater_zero_iff le_antisym not_in_iff Suc_leI set_mset_mset)
  then have "distinct (free_slots n d @ od_values d)" by (auto simp: free_slots_def)
  moreover have "set (free_slots n d @ od_values d) = set [0..<n]" using sub by (auto simp: free_slots_def)
  ultimately show ?thesis using set_eq_iff_mset_eq_distinct [of "free_slots n d @ od_values d" "[0..<n]"] by simp
qed

section \<open>Attaching\<close>

text \<open>
  What the code relies on in rank 0's files: a header of group \<open>g\<close>'s slab names a key of group \<open>g\<close>.
\<close>

definition dir_grouped :: "(key \<Rightarrow> nat) \<Rightarrow> rank0_dir \<Rightarrow> bool" where
  "dir_grouped grp d =
     (\<forall>geo ep ep' g. r0_meta d = Some geo \<longrightarrow> g < length geo \<longrightarrow>
        (\<forall>(slot, seq, k) \<in> set (scan (slab_open (r0_slabs d) (map fst geo) (map snd geo) ep []) g ep'). grp k = g))"

text \<open>The slabs as \<open>attach\<close> opens them, and the epoch it ends up with.\<close>

definition att_ep :: "manager \<Rightarrow> int" where
  "att_ep m = (case r0_epoch (m_rank0 m) of EpochFile e \<Rightarrow> e | _ \<Rightarrow> m_epoch m) + (if m_pending_reset m then 1 else 0)"

definition att_io :: "manager \<Rightarrow> (nat \<times> nat) list \<Rightarrow> slab_io" where
  "att_io m geo = slab_open (r0_slabs (m_rank0 m)) (map fst geo) (map snd geo) (att_ep m) []"

definition att_epoch :: "manager \<Rightarrow> (nat \<times> nat) list \<Rightarrow> int" where
  "att_epoch m geo =
     (case r0_epoch (m_rank0 m) of
        EpochFile e \<Rightarrow> att_ep m
      | _ \<Rightarrow> (case max_epoch (att_io m geo) of None \<Rightarrow> 0 | Some t \<Rightarrow> t + 1))"

definition att_present :: "manager \<Rightarrow> (nat \<times> nat) list \<Rightarrow> nat \<Rightarrow> (nat \<times> int \<times> key) list" where
  "att_present m geo g = (if m_rebuild m then scan (att_io m geo) g (att_epoch m geo) else [])"

lemma scan_distinct: "distinct (map fst (scan io g e)) \<and> set (map fst (scan io g e)) \<subseteq> {0..<slot_counts io ! g}"
  using distinct_scan_slots [of "[0..<slot_counts io ! g]"] by (simp add: scan_def)

lemma attach_fields:
  assumes "\<not> m_attached m" and "r0_meta (m_rank0 m) = Some geo"
  defines "m' \<equiv> fst (attach m)"
  shows "snd (attach m)" "m_attached m'" "m_counts m' = map snd geo" "m_epoch m' = att_epoch m geo"
    "\<not> m_pending_reset m'" "m_inflight_store m' = m_inflight_store m" "m_inflight_load m' = m_inflight_load m"
    "m_condemned m' = m_condemned m"
    "m_index m' = map (\<lambda>g. rebuild_group (att_present m geo g)) [0..<length geo]"
    "m_free m' = map (\<lambda>g. free_slots (snd (geo ! g)) (rebuild_group (att_present m geo g))) [0..<length geo]"
    "m_seq m' = fold max (map (\<lambda>(_, seq, _). seq) (concat (map (att_present m geo) [0..<length geo]))) (m_seq m)"
    "r0_epoch (m_rank0 m') = (if m_pending_reset m \<or> (\<forall>e. r0_epoch (m_rank0 m) \<noteq> EpochFile e)
        then EpochFile (att_epoch m geo) else r0_epoch (m_rank0 m))"
proof -
  note defs = m'_def attach_def att_epoch_def att_present_def [abs_def] att_io_def att_ep_def Let_def assms(1,2)
  show "snd (attach m)" "m_attached m'" "m_counts m' = map snd geo" "m_epoch m' = att_epoch m geo"
    "\<not> m_pending_reset m'" "m_inflight_store m' = m_inflight_store m" "m_inflight_load m' = m_inflight_load m"
    "m_condemned m' = m_condemned m"
    by (simp_all add: defs split: epoch_file.splits)
  show "m_index m' = map (\<lambda>g. rebuild_group (att_present m geo g)) [0..<length geo]"
    by (cases "m_rebuild m") (simp_all add: defs comp_def split: epoch_file.splits)
  show "m_free m' = map (\<lambda>g. free_slots (snd (geo ! g)) (rebuild_group (att_present m geo g))) [0..<length geo]"
    by (cases "m_rebuild m") (simp_all add: defs comp_def split: epoch_file.splits)
  show "m_seq m' = fold max (map (\<lambda>(_, seq, _). seq) (concat (map (att_present m geo) [0..<length geo]))) (m_seq m)"
    by (cases "m_rebuild m") (simp_all add: defs comp_def split: epoch_file.splits)
  show "r0_epoch (m_rank0 m') = (if m_pending_reset m \<or> (\<forall>e. r0_epoch (m_rank0 m) \<noteq> EpochFile e)
        then EpochFile (att_epoch m geo) else r0_epoch (m_rank0 m))"
    by (simp add: defs split: epoch_file.splits)
qed

lemma attach_miss: "\<not> m_attached m \<Longrightarrow> r0_meta (m_rank0 m) = None \<Longrightarrow> attach m = (m, False)"
  by (simp add: attach_def)

lemma present_slots: "g < length geo \<Longrightarrow> mset (map fst (att_present m geo g)) \<subseteq># mset [0..<snd (geo ! g)]"
proof -
  assume g: "g < length geo"
  have cnt: "slot_counts (att_io m geo) ! g = snd (geo ! g)" using g by (simp add: att_io_def slab_open_def)
  have d: "distinct (map fst (att_present m geo g))" and s: "set (map fst (att_present m geo g)) \<subseteq> {0..<snd (geo ! g)}"
    using cnt scan_distinct [of "att_io m geo" g "att_epoch m geo"]
    by (auto simp: att_present_def)
  have "mset (map fst (att_present m geo g)) = mset_set (set (map fst (att_present m geo g)))"
    using d by (rule mset_set_set [symmetric])
  also have "\<dots> \<subseteq># mset_set {0..<snd (geo ! g)}" using s by (intro subset_imp_msubset_mset_set) simp_all
  finally show ?thesis by simp
qed

text \<open>Before the slabs are attached no store and no condemned slot exists.\<close>

lemma unattached_empty:
  assumes "mgr_inv grp m" and "\<not> m_attached m"
  shows "m_counts m = []" "m_inflight_store m = []" "m_condemned m = []" "m_index m = []" "m_free m = []"
proof -
  show c: "m_counts m = []" using assms by (simp add: mgr_inv_def)
  have sh: "shape_ok grp m" using assms(1) by (simp add: mgr_inv_def)
  show "m_index m = []" "m_free m = []" using sh c by (simp_all add: shape_ok_def)
  show "m_inflight_store m = []" "m_condemned m = []"
    using sh c by (auto simp: shape_ok_def od_keys_def)
qed

lemma attach_inv:
  assumes inv: "mgr_inv grp m" and dir: "m_attached m \<or> dir_grouped grp (m_rank0 m)"
  shows "mgr_inv grp (fst (attach m))" and "no_leak grp m \<Longrightarrow> no_leak grp (fst (attach m))"
proof -
  have "mgr_inv grp (fst (attach m)) \<and> (no_leak grp m \<longrightarrow> no_leak grp (fst (attach m)))"
  proof (cases "m_attached m \<or> r0_meta (m_rank0 m) = None")
    case True
    then show ?thesis using inv attach_miss [of m] by (cases "m_attached m") simp_all
  next
    case False
    then obtain geo where na: "\<not> m_attached m" and geo: "r0_meta (m_rank0 m) = Some geo" by auto
    define m' where "m' = fst (attach m)"
    note f = attach_fields [OF na geo, folded m'_def]
    note e = unattached_empty [OF inv na]
    have keys: "grp k = g" if "g < length geo" "k \<in> set (od_keys (rebuild_group (att_present m geo g)))" for g k
    proof -
      have "k \<in> (snd \<circ> snd) ` set (att_present m geo g)"
        using that(2) rebuild_group_facts(4) [of "att_present m geo g" k] by (simp add: map_of_None_iff)
      then show ?thesis
        using dir na geo that(1) unfolding dir_grouped_def att_present_def att_io_def by (fastforce split: if_splits)
    qed
    have own: "owned grp m' g = mset [0..<m_counts m' ! g]" if "g < length geo" for g
    proof -
      have "mset (od_values (rebuild_group (att_present m geo g))) \<subseteq># mset [0..<snd (geo ! g)]"
        using rebuild_group_facts(2) present_slots [OF that] by (rule subset_mset.order_trans)
      from free_slots_complement [OF this] show ?thesis
        using that by (simp add: owned_def f(3,6,8,9,10) e)
    qed
    have "od_wf (m_inflight_load m)" "\<forall>n \<in> set (od_values (m_inflight_load m)). 0 < n"
      using inv by (simp_all add: mgr_inv_def shape_ok_def)
    then have "shape_ok grp m'"
      using keys by (simp add: shape_ok_def f(3,6-10) e od_keys_def [of "[]"] rebuild_group_facts(1))
    then show ?thesis using own f(2,3) unfolding m'_def [symmetric] by (simp add: mgr_inv_def no_leak_def)
  qed
  then show "mgr_inv grp (fst (attach m))" and "no_leak grp m \<Longrightarrow> no_leak grp (fst (attach m))" by blast+
qed

section \<open>Reachable states\<close>

lemma lookup_inv:
  assumes "mgr_inv grp m" and "m_attached m \<or> dir_grouped grp (m_rank0 m)"
  shows "mgr_inv grp (fst (lookup grp k m))" and "no_leak grp m \<Longrightarrow> no_leak grp (fst (lookup grp k m))"
proof -
  obtain m1 b where a: "attach m = (m1, b)" by (cases "attach m")
  have i1: "mgr_inv grp m1" "no_leak grp m \<Longrightarrow> no_leak grp m1" using attach_inv [OF assms] a by simp_all
  let ?r = "for_keys (touch_key grp) (k # siblings_of m1 k) m1"
  have t: "keeps grp m1 (fst ?r)" by (rule for_keys_keeps) (rule touch_key_keeps)
  have bump: "keeps grp s (bump_stat u n s)" for s u n by (rule keeps_cong) simp_all
  obtain m2 r2 where r: "?r = (m2, r2)" by (cases ?r)
  have "fst (lookup grp k m) \<in> {m1, m2, bump_stat st_hits_update 1 m2, bump_stat st_misses_update 1 m1}"
    using r by (cases r2) (auto simp: lookup_def a Let_def)
  moreover have "keeps grp m1 m2" using t r by simp
  ultimately have "keeps grp m1 (fst (lookup grp k m))"
    using bump keeps_trans [OF \<open>keeps grp m1 m2\<close> bump] by auto
  then show "mgr_inv grp (fst (lookup grp k m))" and "no_leak grp m \<Longrightarrow> no_leak grp (fst (lookup grp k m))"
    using i1 by (simp_all add: keeps_def)
qed

lemma prepare_load_inv:
  assumes "mgr_inv grp m" and "m_attached m \<or> dir_grouped grp (m_rank0 m)"
  shows "mgr_inv grp (fst (prepare_load grp ks m))" and "no_leak grp m \<Longrightarrow> no_leak grp (fst (prepare_load grp ks m))"
proof -
  obtain m1 b where a: "attach m = (m1, b)" by (cases "attach m")
  have i1: "mgr_inv grp m1" "no_leak grp m \<Longrightarrow> no_leak grp m1" using attach_inv [OF assms] a by simp_all
  have "fst (prepare_load grp ks m) = fst (load_slots grp b ks m1)"
    by (auto simp: prepare_load_def a Let_def split: prod.splits sum.splits)
  then show "mgr_inv grp (fst (prepare_load grp ks m))" and "no_leak grp m \<Longrightarrow> no_leak grp (fst (prepare_load grp ks m))"
    using load_slots_keeps [OF i1(1), of b ks] i1 by (simp_all add: keeps_def)
qed

lemma prepare_store_inv:
  assumes "mgr_inv grp m" and "m_attached m \<or> dir_grouped grp (m_rank0 m)"
  shows "mgr_inv grp (fst (prepare_store grp ks m))" and "no_leak grp m \<Longrightarrow> no_leak grp (fst (prepare_store grp ks m))"
proof -
  obtain m1 b where a: "attach m = (m1, b)" by (cases "attach m")
  have i1: "mgr_inv grp m1" "no_leak grp m \<Longrightarrow> no_leak grp m1" using attach_inv [OF assms] a by simp_all
  have idx: "length (m_index m1) = length (m_counts m1)" using i1(1) by (simp add: mgr_inv_def shape_ok_def)
  have "keeps grp m1 (fst (prepare_store grp ks m))"
  proof (cases "b \<and> (\<forall>k \<in> set ks. grp k < length (m_counts m1))")
    case False
    then have "fst (prepare_store grp ks m) = m1"
      using idx by (auto simp: prepare_store_def a Let_def list_ex_iff not_less)
    then show ?thesis by simp
  next
    case True
    then have att: "m_attached m1" using a by (auto simp: attach_def Let_def split: if_splits option.splits prod.splits)
    then have "prepare_store grp ks m = prepare_store grp ks m1" using True by (simp add: prepare_store_def a)
    then show ?thesis using prepare_store_keeps [OF att] True by simp
  qed
  then show "mgr_inv grp (fst (prepare_store grp ks m))" and "no_leak grp m \<Longrightarrow> no_leak grp (fst (prepare_store grp ks m))"
    using i1 by (simp_all add: keeps_def)
qed

lemma reset_cache_inv: "mgr_inv grp m \<Longrightarrow> mgr_inv grp (reset_cache m)"
proof (cases "m_attached m")
  case True
  then show ?thesis
    by (simp add: mgr_inv_def shape_ok_def reset_cache_def Let_def od_keys_def od_values_def owned_def)
next
  case False
  assume "mgr_inv grp m"
  then show ?thesis using False mgr_inv_cong(1) [of "reset_cache m" m grp] by (simp add: reset_cache_def)
qed

text \<open>
  One call of the scheduler, or, before the slabs are attached, the appearance of a new state of rank
  0's directory (the worker creates the slabs when it starts).
\<close>

inductive mgr_step :: "(key \<Rightarrow> nat) \<Rightarrow> manager \<Rightarrow> manager \<Rightarrow> bool" for grp where
  step_lookup: "mgr_step grp m (fst (lookup grp k m))"
| step_prepare_store: "mgr_step grp m (fst (prepare_store grp ks m))"
| step_mark_store_failed: "mgr_step grp m (mark_store_failed ks m)"
| step_complete_store: "mgr_step grp m (fst (complete_store grp ks success m))"
| step_prepare_load: "mgr_step grp m (fst (prepare_load grp ks m))"
| step_complete_load: "mgr_step grp m (fst (complete_load grp ks m))"
| step_mark_load_failed: "mgr_step grp m (fst (mark_load_failed grp ks m))"
| step_touch: "mgr_step grp m (fst (touch grp ks m))"
| step_reset: "mgr_step grp m (reset_cache m)"
| step_rank0: "\<not> m_attached m \<Longrightarrow> dir_grouped grp d \<Longrightarrow> mgr_step grp m (m\<lparr>m_rank0 := d\<rparr>)"

inductive mgr_reachable :: "(key \<Rightarrow> nat) \<Rightarrow> manager \<Rightarrow> bool" for grp where
  reach_init: "dir_grouped grp d \<Longrightarrow> mgr_reachable grp (mgr_init d rebuild)"
| reach_step: "mgr_reachable grp m \<Longrightarrow> mgr_step grp m m' \<Longrightarrow> mgr_reachable grp m'"

text \<open>Outside \<open>attach\<close> nothing touches the attachment or, before it, the directory.\<close>

definition dir_frame :: "manager \<Rightarrow> manager \<Rightarrow> bool" where
  "dir_frame m m' = (m_attached m' = m_attached m \<and> (m_attached m \<or> m_rank0 m' = m_rank0 m))"

lemma dir_frame_refl [simp]: "dir_frame m m"
  by (simp add: dir_frame_def)

lemma dir_frame_trans: "dir_frame m m' \<Longrightarrow> dir_frame m' m'' \<Longrightarrow> dir_frame m m''"
  by (auto simp: dir_frame_def)

lemma for_keys_frame:
  assumes "\<And>k m. dir_frame m (fst (f k m))"
  shows "dir_frame m (fst (for_keys f ks m))"
proof (rule for_keys_invariant [where P = "dir_frame m"])
  fix k s assume "dir_frame m s"
  then show "dir_frame m (fst (f k s))" using assms dir_frame_trans by blast
qed simp

lemma key_op_frames:
  "dir_frame m (fst (touch_key grp k m))" "dir_frame m (fst (complete_store_key grp success k m))"
  "dir_frame m (fst (complete_load_key grp k m))" "dir_frame m (fst (mark_load_failed_key grp k m))"
  by (simp_all add: dir_frame_def touch_key_def complete_store_key_def complete_load_key_def
      mark_load_failed_key_def Let_def split: option.splits)

definition attached_or_grouped :: "(key \<Rightarrow> nat) \<Rightarrow> manager \<Rightarrow> bool" where
  "attached_or_grouped grp m = (m_attached m \<or> dir_grouped grp (m_rank0 m))"

lemma frame_grouped: "dir_frame m m' \<Longrightarrow> attached_or_grouped grp m \<Longrightarrow> attached_or_grouped grp m'"
  by (auto simp: attached_or_grouped_def dir_frame_def)

lemma attach_grouped: "attached_or_grouped grp m \<Longrightarrow> attached_or_grouped grp (fst (attach m))"
proof (cases "m_attached m \<or> r0_meta (m_rank0 m) = None")
  case True
  assume "attached_or_grouped grp m"
  then show ?thesis using True attach_miss [of m] by (cases "m_attached m") simp_all
next
  case False
  then show ?thesis using attach_fields(2) [of m] by (auto simp: attached_or_grouped_def)
qed

lemma lookup_frame: "dir_frame (fst (attach m)) (fst (lookup grp k m))"
proof -
  obtain m1 b where a: "attach m = (m1, b)" by (cases "attach m")
  have "dir_frame m1 (fst (for_keys (touch_key grp) (k # siblings_of m1 k) m1))"
    by (rule for_keys_frame) (rule key_op_frames)
  then show ?thesis
    unfolding lookup_def a Let_def by (auto simp: dir_frame_def simp del: for_keys.simps split: prod.splits sum.splits)
qed

lemma load_slots_frame: "dir_frame m (fst (load_slots grp b ks m))"
proof (induction ks arbitrary: m)
  case (Cons k ks)
  define m' where "m' = m\<lparr>m_inflight_load := AList.update k (load_count m k + 1) (m_inflight_load m)\<rparr>"
  have "dir_frame m m'" by (simp add: dir_frame_def m'_def)
  then have "dir_frame m (fst (load_slots grp b ks m'))" using Cons.IH dir_frame_trans by blast
  then show ?case by (auto simp: Let_def m'_def [symmetric] split: prod.splits sum.splits)
qed simp

lemma prepare_load_frame: "dir_frame (fst (attach m)) (fst (prepare_load grp ks m))"
  using load_slots_frame [of "fst (attach m)" grp "snd (attach m)" ks]
  by (auto simp: prepare_load_def split: prod.splits sum.splits)

lemma take_all_frame: "dir_frame m (fst (fst (take_all grp P ks m ev)))"
proof (induction ks arbitrary: m ev)
  case (Cons k ks)
  obtain m1 ev1 r where t: "take_slot (grp k) P m ev = ((m1, ev1), r)" by (metis prod.exhaust_sel)
  have "dir_frame m m1"
    using t by (auto simp: take_slot_def dir_frame_def split: list.splits option.splits)
  then have "dir_frame m (fst (fst (take_all grp P ks m1 ev1)))" using Cons.IH dir_frame_trans by blast
  then show ?case using t \<open>dir_frame m m1\<close> by (auto split: prod.splits sum.splits)
qed simp

lemma prepare_store_frame: "dir_frame (fst (attach m)) (fst (prepare_store grp ks m))"
proof -
  obtain m1 b where a: "attach m = (m1, b)" by (cases "attach m")
  have "dir_frame m1 (fst (fst (take_all grp (set (dedupe ks)) (new_keys grp m1 (dedupe ks)) m1 [])))"
    by (rule take_all_frame)
  then show ?thesis
    unfolding prepare_store_def a Let_def by (auto simp: dir_frame_def split: prod.splits sum.splits)
qed

lemma step_grouped: "mgr_step grp m m' \<Longrightarrow> attached_or_grouped grp m \<Longrightarrow> attached_or_grouped grp m'"
proof (induction rule: mgr_step.induct)
  case (step_lookup m k)
  then show ?case using frame_grouped [OF lookup_frame] attach_grouped by blast
next
  case (step_prepare_store m ks)
  then show ?case using frame_grouped [OF prepare_store_frame] attach_grouped by blast
next
  case (step_prepare_load m ks)
  then show ?case using frame_grouped [OF prepare_load_frame] attach_grouped by blast
next
  case (step_mark_store_failed m ks)
  then show ?case by (simp add: attached_or_grouped_def mark_store_failed_def)
next
  case (step_reset m)
  then show ?case by (auto simp: attached_or_grouped_def reset_cache_def Let_def)
next
  case (step_rank0 m d)
  then show ?case by (simp add: attached_or_grouped_def)
qed (auto simp: complete_store_def complete_load_def mark_load_failed_def touch_def
      intro!: frame_grouped [OF for_keys_frame] key_op_frames)

lemma step_inv:
  assumes "mgr_step grp m m'" and "mgr_inv grp m" and "attached_or_grouped grp m"
  shows "mgr_inv grp m'"
  using assms(1) assms(2,3) [unfolded attached_or_grouped_def]
proof cases
  case (step_rank0 d)
  then show ?thesis using assms(2) mgr_inv_cong(1) [of m' m grp] by simp
qed (use assms(2,3) touch_keeps [of grp m] complete_store_keeps [of grp m] complete_load_keeps [of grp m]
       mark_store_failed_keeps [of grp m]
     in \<open>auto simp: keeps_def attached_or_grouped_def
        intro: lookup_inv prepare_store_inv prepare_load_inv mark_load_failed_inv reset_cache_inv\<close>)

lemma init_inv: "mgr_inv grp (mgr_init d rebuild)" "no_leak grp (mgr_init d rebuild)"
  by (simp_all add: mgr_inv_def no_leak_def shape_ok_def mgr_init_def od_values_def od_keys_def)

lemma reachable_inv: "mgr_reachable grp m \<Longrightarrow> mgr_inv grp m \<and> attached_or_grouped grp m"
proof (induction rule: mgr_reachable.induct)
  case (reach_init d rebuild)
  then show ?case using init_inv(1) by (simp add: attached_or_grouped_def mgr_init_def)
next
  case (reach_step m m')
  then show ?case using step_inv step_grouped by blast
qed

lemma owned_once: "mgr_inv grp m \<Longrightarrow> g < length (m_counts m) \<Longrightarrow> count (owned grp m g) slot \<le> 1"
proof -
  assume "mgr_inv grp m" "g < length (m_counts m)"
  then have "owned grp m g \<subseteq># mset [0..<m_counts m ! g]" by (simp add: mgr_inv_def)
  moreover have "count (mset [0..<m_counts m ! g]) slot \<le> 1" by (simp add: count_mset_set')
  ultimately show ?thesis using mset_subset_eq_count [of "owned grp m g" "mset [0..<m_counts m ! g]" slot] by linarith
qed

text \<open>
  C7: In every state the scheduler's calls can reach, whatever their order and whatever fails, each
  slot of a group has at most one owner among the free list, the index, the stores in flight and the
  slots withheld for a reader; only slots of the group occur; a key being stored is not in the index;
  and every withheld slot still has a reader.
\<close>

theorem slot_ownership_reachable:
  assumes "mgr_reachable grp m" and "g < length (m_counts m)"
  shows "mgr_inv grp m \<and> count (owned grp m g) slot \<le> 1 \<and> (slot \<in># owned grp m g \<longrightarrow> slot < m_counts m ! g)
     \<and> (\<forall>k \<in> set (od_keys (m_inflight_store m)). k \<notin> set (od_keys (m_index m ! grp k)))
     \<and> (\<forall>k \<in> set (od_keys (m_condemned m)). 0 < load_count m k)"
proof -
  have inv: "mgr_inv grp m" using reachable_inv [OF assms(1)] by blast
  then have "shape_ok grp m" and sub: "owned grp m g \<subseteq># mset [0..<m_counts m ! g]"
    using assms(2) by (simp_all add: mgr_inv_def)
  then show ?thesis
    using inv owned_once [OF inv assms(2)] mset_subset_eqD [OF sub, of slot]
    unfolding shape_ok_def by simp
qed

lemma scan_empty_file: "files io ! g = [] \<Longrightarrow> scan io g ep = []"
  unfolding scan_def by (cases "[0..<slot_counts io ! g]") (simp_all add: pread_def SLAB_HEADER_BYTES_def)

lemma demo_dir_grouped: "dir_grouped (\<lambda>_. 0) \<lparr>r0_meta = Some [(8192, 2)], r0_epoch = EpochFile 3, r0_slabs = [[]]\<rparr>"
  by (simp add: dir_grouped_def scan_empty_file slab_open_def)

theorem slot_ownership_reachable_witness:
  "\<exists>m. mgr_reachable (\<lambda>_. 0) m \<and> m_counts m = [2] \<and> mgr_inv (\<lambda>_. 0) m \<and> count (owned (\<lambda>_. 0) m 0) 1 \<le> 1"
proof -
  define m where "m = fst (lookup (\<lambda>_. 0) [7] (mgr_init \<lparr>r0_meta = Some [(8192, 2)], r0_epoch = EpochFile 3, r0_slabs = [[]]\<rparr> True))"
  have r: "mgr_reachable (\<lambda>_. 0) m"
    unfolding m_def by (rule reach_step [OF reach_init [OF demo_dir_grouped] step_lookup])
  have c: "m_counts m = [2]"
    by (simp add: m_def lookup_def attach_def mgr_init_def Let_def od_keys_def rebuild_group_def scan_empty_file slab_open_def)
  show ?thesis using slot_ownership_reachable [OF r, of 0 1] r c by auto
qed

section \<open>What a rebuild finds\<close>

lemma fold_max_ge: "x \<in> insert a (set xs) \<Longrightarrow> x \<le> fold max xs (a::int)"
proof (induction xs arbitrary: a x)
  case (Cons y ys)
  have "max y a \<le> fold max ys (max y a)" by (rule Cons.IH) simp
  then show ?case using Cons.IH [of x "max y a"] Cons.prems by auto
qed simp

lemma att_io_files: "length (files (att_io m geo)) = length geo"
  by (simp add: att_io_def slab_open_def)

lemma wiped_scan:
  assumes "g < length (files io)"
  shows "scan io g (case max_epoch io of None \<Rightarrow> 0 | Some t \<Rightarrow> t + 1) = []"
proof (rule ccontr)
  assume "scan io g (case max_epoch io of None \<Rightarrow> 0 | Some t \<Rightarrow> t + 1) \<noteq> []"
  then obtain slot seq key where "(slot, seq, key) \<in> set (scan io g (case max_epoch io of None \<Rightarrow> 0 | Some t \<Rightarrow> t + 1))"
    by (cases "scan io g (case max_epoch io of None \<Rightarrow> 0 | Some t \<Rightarrow> t + 1)") auto
  then have "opt_le (Some (case max_epoch io of None \<Rightarrow> 0 | Some t \<Rightarrow> t + 1)) (max_epoch io)"
    using max_epoch_covers [OF assms, of slot] by (auto simp: scan_def set_scan_slots)
  then show False by (cases "max_epoch io") (simp_all add: opt_le_def)
qed

text \<open>
  C8: A rebuild recovers exactly what rank 0's headers of the current epoch record: a key is indexed
  iff some slot of its group carries it, and then under a slot with the highest sequence number among
  the copies of that key; the free list is the complement of the indexed slots; and the sequence
  counter is at least every sequence number found, so that later stores win later rebuilds. When the
  epoch file is missing or unreadable the rebuild indexes nothing at all, whatever the slabs hold.
\<close>

theorem attach_newest_copy:
  assumes "\<not> m_attached m" and "r0_meta (m_rank0 m) = Some geo" and "g < length geo"
  shows "let m' = fst (attach m);
             present = (if m_rebuild m then scan (att_io m geo) g (att_epoch m geo) else []) in
     (map_of (m_index m' ! g) k = None \<longleftrightarrow> (\<forall>slot seq. (slot, seq, k) \<notin> set present))
     \<and> (\<forall>slot. map_of (m_index m' ! g) k = Some slot \<longrightarrow>
          (\<exists>seq \<le> m_seq m'. (slot, seq, k) \<in> set present \<and> (\<forall>s q. (s, q, k) \<in> set present \<longrightarrow> q \<le> seq)))
     \<and> set (m_free m' ! g) = {0..<snd (geo ! g)} - set (od_values (m_index m' ! g))
     \<and> ((\<forall>e. r0_epoch (m_rank0 m) \<noteq> EpochFile e) \<longrightarrow> m_index m' ! g = [] \<and> m_free m' ! g = [0..<snd (geo ! g)])"
proof -
  define m' where "m' = fst (attach m)"
  define ps where "ps = att_present m geo g"
  note f = attach_fields [OF assms(1,2), folded m'_def]
  have idx: "m_index m' ! g = rebuild_group ps" and fr: "m_free m' ! g = free_slots (snd (geo ! g)) (rebuild_group ps)"
    using f(9,10) assms(3) by (simp_all add: ps_def)
  have seq: "seq \<le> m_seq m'" if "(slot, seq, k) \<in> set ps" for slot seq
    unfolding f(11) using that assms(3) by (intro fold_max_ge) (force simp: ps_def)
  have none: "ps = []" if "\<forall>e. r0_epoch (m_rank0 m) \<noteq> EpochFile e"
  proof -
    have "att_epoch m geo = (case max_epoch (att_io m geo) of None \<Rightarrow> 0 | Some t \<Rightarrow> t + 1)"
      using that by (simp add: att_epoch_def split: epoch_file.splits)
    then show ?thesis using wiped_scan [of g "att_io m geo"] assms(3) by (simp add: ps_def att_present_def att_io_files)
  qed
  have "map_of (rebuild_group ps) k = None \<longleftrightarrow> (\<forall>slot seq. (slot, seq, k) \<notin> set ps)"
    using rebuild_group_facts(4) [of ps k] by (force simp: image_iff)
  moreover have "\<exists>seq \<le> m_seq m'. (slot, seq, k) \<in> set ps \<and> (\<forall>s q. (s, q, k) \<in> set ps \<longrightarrow> q \<le> seq)"
    if "map_of (rebuild_group ps) k = Some slot" for slot
    using rebuild_group_facts(3) [OF that] seq by blast
  moreover have "set (free_slots (snd (geo ! g)) (rebuild_group ps)) = {0..<snd (geo ! g)} - set (od_values (rebuild_group ps))"
    by (auto simp: free_slots_def)
  moreover have "rebuild_group [] = [] \<and> free_slots (snd (geo ! g)) [] = [0..<snd (geo ! g)]"
    by (simp add: rebuild_group_def free_slots_def od_values_def)
  ultimately show ?thesis
    unfolding Let_def m'_def [symmetric] att_present_def [symmetric] ps_def [symmetric] idx fr using none by auto
qed

theorem attach_newest_copy_witness:
  "m_index (fst (attach (mgr_init \<lparr>r0_meta = Some [(8192, 2)], r0_epoch = CorruptEpochFile, r0_slabs = [[]]\<rparr> True))) ! 0 = []"
  using attach_newest_copy [of "mgr_init \<lparr>r0_meta = Some [(8192, 2)], r0_epoch = CorruptEpochFile, r0_slabs = [[]]\<rparr> True"
      "[(8192, 2)]" 0]
  by (simp add: mgr_init_def Let_def)

section \<open>The index as a map\<close>

text \<open>
  What the connector's scheduler relies on: the index as a map from key to slot with the stores in
  flight beside it. The laws say how each call moves them.
\<close>

locale kv_index =
  fixes good :: "'s \<Rightarrow> bool" and view :: "'s \<Rightarrow> 'k \<Rightarrow> 'v option" and pending :: "'s \<Rightarrow> 'k \<Rightarrow> 'v option"
    and failed :: "'s \<Rightarrow> 'k set"
    and finish :: "'k list \<Rightarrow> bool \<Rightarrow> 's \<Rightarrow> 's" and drop_failed :: "'k list \<Rightarrow> 's \<Rightarrow> 's"
    and refresh :: "'k list \<Rightarrow> 's \<Rightarrow> 's" and ask :: "'k \<Rightarrow> 's \<Rightarrow> 's \<times> lookup_result res"
    and clear :: "'s \<Rightarrow> 's"
  assumes good_finish: "good s \<Longrightarrow> good (finish ks b s)"
    and good_drop: "good s \<Longrightarrow> good (drop_failed ks s)"
    and good_refresh: "good s \<Longrightarrow> good (refresh ks s)"
    and good_clear: "good s \<Longrightarrow> good (clear s)"
    and view_finish: "good s \<Longrightarrow> view (finish ks b s) k =
          (if k \<in> set ks \<and> pending s k \<noteq> None \<and> b \<and> k \<notin> failed s then pending s k else view s k)"
    and pending_finish: "good s \<Longrightarrow> pending (finish ks b s) k = (if k \<in> set ks then None else pending s k)"
    and view_drop: "good s \<Longrightarrow> view (drop_failed ks s) k = (if k \<in> set ks then None else view s k)"
    and pending_drop: "good s \<Longrightarrow> pending (drop_failed ks s) k = pending s k"
    and view_refresh: "good s \<Longrightarrow> view (refresh ks s) k = view s k"
    and pending_refresh: "good s \<Longrightarrow> pending (refresh ks s) k = pending s k"
    and view_clear: "good s \<Longrightarrow> view (clear s) k = None"
    and pending_clear: "good s \<Longrightarrow> pending (clear s) k = None"
    and apart: "good s \<Longrightarrow> pending s k \<noteq> None \<Longrightarrow> view s k = None"
    and answer: "good s \<Longrightarrow> snd (ask k s) =
          ok (if view s k \<noteq> None then HIT else if pending s k \<noteq> None then HIT_PENDING else MISS)"
begin

lemma store_then_hit:
  "good s \<Longrightarrow> pending s k = Some v \<Longrightarrow> k \<notin> failed s \<Longrightarrow> k \<in> set ks \<Longrightarrow>
     view (finish ks True s) k = Some v \<and> snd (ask k (finish ks True s)) = ok HIT"
  by (simp add: answer good_finish view_finish)

lemma failed_store_then_miss:
  "good s \<Longrightarrow> pending s k \<noteq> None \<Longrightarrow> \<not> b \<or> k \<in> failed s \<Longrightarrow> k \<in> set ks \<Longrightarrow>
     snd (ask k (finish ks b s)) = ok MISS"
  using apart [of s k] by (auto simp: answer good_finish view_finish pending_finish)

lemma failed_load_not_hit:
  "good s \<Longrightarrow> k \<in> set ks \<Longrightarrow> snd (ask k (drop_failed ks s)) \<noteq> ok HIT"
  by (simp add: answer good_drop view_drop)

lemma cleared_misses: "good s \<Longrightarrow> snd (ask k (refresh ks (clear s))) = ok MISS"
  by (simp add: answer good_refresh good_clear view_refresh pending_refresh view_clear pending_clear)

end

text \<open>The model provides it: the operations on an attached manager whose keys all have a group.\<close>

definition good_mgr :: "(key \<Rightarrow> nat) \<Rightarrow> manager \<Rightarrow> bool" where
  "good_mgr grp m = (mgr_inv grp m \<and> m_attached m \<and> (\<forall>k. grp k < length (m_counts m)))"

definition slot_of :: "(key \<Rightarrow> nat) \<Rightarrow> manager \<Rightarrow> key \<Rightarrow> nat option" where
  "slot_of grp m k = map_of (m_index m ! grp k) k"

lemma good_mgr_shape:
  assumes "good_mgr grp m"
  shows "shape_ok grp m" "grp k < length (m_index m)" "grp k < length (m_free m)" "m_index m \<noteq> []"
proof -
  show sh: "shape_ok grp m" using assms by (simp add: good_mgr_def mgr_inv_def)
  have "grp k < length (m_counts m)" for k using assms by (simp add: good_mgr_def)
  then show "grp k < length (m_index m)" "grp k < length (m_free m)" "m_index m \<noteq> []"
    using sh by (auto simp: shape_ok_def)
qed

lemma good_mgr_keeps:
  "good_mgr grp m \<Longrightarrow> mgr_inv grp m' \<Longrightarrow> m_attached m' = m_attached m \<Longrightarrow> m_counts m' = m_counts m \<Longrightarrow> good_mgr grp m'"
  by (simp add: good_mgr_def)

lemma key_op_counts:
  "m_counts (fst (touch_key grp k m)) = m_counts m" "m_counts (fst (complete_store_key grp b k m)) = m_counts m"
  "m_counts (fst (mark_load_failed_key grp k m)) = m_counts m"
  by (simp_all add: touch_key_def complete_store_key_def mark_load_failed_key_def Let_def split: option.splits)

lemma good_key_ops:
  assumes g: "good_mgr grp m"
  shows "good_mgr grp (fst (touch_key grp k m))" "snd (touch_key grp k m) = ok ()"
    "good_mgr grp (fst (complete_store_key grp b k m))" "snd (complete_store_key grp b k m) = ok ()"
    "good_mgr grp (fst (mark_load_failed_key grp k m))" "snd (mark_load_failed_key grp k m) = ok ()"
proof -
  have inv: "mgr_inv grp m" using g by (simp add: good_mgr_def)
  have att: "m_attached (fst (touch_key grp k m)) = m_attached m"
      "m_attached (fst (complete_store_key grp b k m)) = m_attached m"
      "m_attached (fst (mark_load_failed_key grp k m)) = m_attached m"
    using key_op_frames by (simp_all add: dir_frame_def)
  show "good_mgr grp (fst (touch_key grp k m))"
    using good_mgr_keeps [OF g _ att(1) key_op_counts(1)] touch_key_keeps inv by (simp add: keeps_def)
  show "good_mgr grp (fst (complete_store_key grp b k m))"
    using good_mgr_keeps [OF g _ att(2) key_op_counts(2)] complete_store_key_keeps inv by (simp add: keeps_def)
  show "good_mgr grp (fst (mark_load_failed_key grp k m))"
    using good_mgr_keeps [OF g _ att(3) key_op_counts(3)] mark_load_failed_key_facts(1) [OF inv] by simp
  show "snd (touch_key grp k m) = ok ()" "snd (complete_store_key grp b k m) = ok ()" "snd (mark_load_failed_key grp k m) = ok ()"
    using good_mgr_shape(2) [OF g, of k]
    by (simp_all add: touch_key_def complete_store_key_def mark_load_failed_key_def Let_def split: option.splits)
qed

lemma for_keys_good:
  assumes "\<And>k s. good_mgr grp s \<Longrightarrow> good_mgr grp (fst (f k s)) \<and> snd (f k s) = ok ()" and "good_mgr grp m"
  shows "for_keys f ks m = (fold (\<lambda>k s. fst (f k s)) ks m, ok ()) \<and> good_mgr grp (fold (\<lambda>k s. fst (f k s)) ks m)"
  using assms(2)
proof (induction ks arbitrary: m)
  case (Cons k ks)
  obtain m1 r where f: "f k m = (m1, r)" by (cases "f k m")
  then show ?case using assms(1) [OF Cons.prems, of k] Cons.IH [of m1] by simp
qed simp

lemma step_maps:
  assumes "good_mgr grp m"
  shows "slot_of grp (fst (touch_key grp k m)) k' = slot_of grp m k'"
    "m_inflight_store (fst (touch_key grp k m)) = m_inflight_store m"
    "slot_of grp (fst (complete_store_key grp b k m)) k' =
       (if k' = k \<and> map_of (m_inflight_store m) k \<noteq> None \<and> b \<and> k \<notin> m_failed_store m
        then map_of (m_inflight_store m) k else slot_of grp m k')"
    "map_of (m_inflight_store (fst (complete_store_key grp b k m))) k' =
       (if k' = k then None else map_of (m_inflight_store m) k')"
    "k' \<noteq> k \<Longrightarrow> (k' \<in> m_failed_store (fst (complete_store_key grp b k m))) = (k' \<in> m_failed_store m)"
    "slot_of grp (fst (mark_load_failed_key grp k m)) k' = (if k' = k then None else slot_of grp m k')"
    "m_inflight_store (fst (mark_load_failed_key grp k m)) = m_inflight_store m"
  using good_mgr_shape(2) [OF assms, of k]
  by (auto simp: slot_of_def touch_key_def complete_store_key_def mark_load_failed_key_def Let_def nth_list_update
      map_of_move_to_end map_of_delete map_of_update split: option.splits)

lemma fold_complete_maps:
  assumes "good_mgr grp m"
  shows "slot_of grp (fold (\<lambda>k s. fst (complete_store_key grp b k s)) ks m) k' =
       (if k' \<in> set ks \<and> map_of (m_inflight_store m) k' \<noteq> None \<and> b \<and> k' \<notin> m_failed_store m
        then map_of (m_inflight_store m) k' else slot_of grp m k')
     \<and> map_of (m_inflight_store (fold (\<lambda>k s. fst (complete_store_key grp b k s)) ks m)) k' =
       (if k' \<in> set ks then None else map_of (m_inflight_store m) k')"
  using assms
proof (induction ks arbitrary: m)
  case (Cons k ks)
  have "good_mgr grp (fst (complete_store_key grp b k m))" by (rule good_key_ops [OF Cons.prems])
  from Cons.IH [OF this] show ?case
    using step_maps(3-5) [OF Cons.prems, where b = b and k = k and k' = k'] by (cases "k' = k") auto
qed simp

lemma fold_fail_maps:
  assumes "good_mgr grp m"
  shows "slot_of grp (fold (\<lambda>k s. fst (mark_load_failed_key grp k s)) ks m) k' =
       (if k' \<in> set ks then None else slot_of grp m k')
     \<and> m_inflight_store (fold (\<lambda>k s. fst (mark_load_failed_key grp k s)) ks m) = m_inflight_store m"
  using assms
proof (induction ks arbitrary: m)
  case (Cons k ks)
  have "good_mgr grp (fst (mark_load_failed_key grp k m))" by (rule good_key_ops [OF Cons.prems])
  from Cons.IH [OF this] show ?case using step_maps(6,7) [OF Cons.prems, of k] by simp
qed simp

lemma fold_touch_maps:
  assumes "good_mgr grp m"
  shows "slot_of grp (fold (\<lambda>k s. fst (touch_key grp k s)) ks m) k' = slot_of grp m k'
     \<and> m_inflight_store (fold (\<lambda>k s. fst (touch_key grp k s)) ks m) = m_inflight_store m"
  using assms
proof (induction ks arbitrary: m)
  case (Cons k ks)
  have "good_mgr grp (fst (touch_key grp k m))" by (rule good_key_ops [OF Cons.prems])
  from Cons.IH [OF this] show ?case using step_maps(1,2) [OF Cons.prems, of k] by simp
qed simp

lemma ops_as_folds:
  assumes "good_mgr grp m"
  shows "complete_store grp ks b m = (fold (\<lambda>k s. fst (complete_store_key grp b k s)) ks m, ok ())"
    "mark_load_failed grp ks m = (fold (\<lambda>k s. fst (mark_load_failed_key grp k s)) ks m, ok ())"
    "touch grp ks m = (fold (\<lambda>k s. fst (touch_key grp k s)) ks m, ok ())"
    "good_mgr grp (fst (complete_store grp ks b m))" "good_mgr grp (fst (mark_load_failed grp ks m))"
    "good_mgr grp (fst (touch grp ks m))"
  using good_mgr_shape(4) [OF assms]
    for_keys_good [of grp "complete_store_key grp b", OF _ assms, of ks]
    for_keys_good [of grp "mark_load_failed_key grp", OF _ assms, of ks]
    for_keys_good [of grp "touch_key grp", OF _ assms, of ks] good_key_ops
  by (simp_all add: complete_store_def mark_load_failed_def touch_def)

lemma good_reset: "good_mgr grp m \<Longrightarrow> good_mgr grp (reset_cache m)"
  using reset_cache_inv [of grp m] by (auto simp: good_mgr_def reset_cache_def Let_def)

lemma lookup_answer:
  assumes "good_mgr grp m"
  shows "snd (lookup grp k m) = ok (if slot_of grp m k \<noteq> None then HIT
     else if map_of (m_inflight_store m) k \<noteq> None then HIT_PENDING else MISS)"
proof -
  have att: "attach m = (m, True)" using assms by (simp add: good_mgr_def)
  have gk: "\<not> length (m_index m) \<le> grp k" using good_mgr_shape(2) [OF assms, of k] by simp
  obtain m' where "for_keys (touch_key grp) (k # siblings_of m k) m = (m', ok ())"
    using for_keys_good [of grp "touch_key grp", OF _ assms, of "k # siblings_of m k"] good_key_ops by blast
  then show ?thesis
    using gk by (auto simp: lookup_def att Let_def slot_of_def map_of_None_iff simp del: for_keys.simps)
qed

interpretation slab: kv_index "good_mgr grp" "slot_of grp" "\<lambda>m. map_of (m_inflight_store m)" m_failed_store
  "\<lambda>ks b m. fst (complete_store grp ks b m)" "\<lambda>ks m. fst (mark_load_failed grp ks m)"
  "\<lambda>ks m. fst (touch grp ks m)" "lookup grp" reset_cache
  for grp
proof
  fix m k assume g: "good_mgr grp m"
  show "slot_of grp (reset_cache m) k = None"
    using g by (simp add: slot_of_def reset_cache_def good_mgr_def Let_def)
  show "map_of (m_inflight_store (reset_cache m)) k = None"
    using g by (simp add: reset_cache_def good_mgr_def Let_def)
  assume "map_of (m_inflight_store m) k \<noteq> None"
  then show "slot_of grp m k = None"
    using good_mgr_shape(1) [OF g] by (auto simp: shape_ok_def slot_of_def map_of_None_iff)
qed ((rule ops_as_folds(4-6) good_reset; assumption)
   | simp add: ops_as_folds(1-3) fold_complete_maps fold_fail_maps fold_touch_maps lookup_answer)+

text \<open>
  C9: What the scheduler is told along the life of a key. Once a store in flight completes, its slot
  is served and \<^verbatim>\<open>lookup\<close> says HIT; if the store failed, on any rank or as a whole, it says MISS and
  nothing is served; after a failed load it never says HIT for that key until it is stored again, and
  after a reset it says MISS for every key.
\<close>

theorem lookup_life_cycle:
  assumes "good_mgr grp m" and "k \<in> set ks"
  shows "(map_of (m_inflight_store m) k = Some slot \<longrightarrow> k \<notin> m_failed_store m \<longrightarrow>
       snd (lookup grp k (fst (complete_store grp ks True m))) = ok HIT
       \<and> map_of (m_index (fst (complete_store grp ks True m)) ! grp k) k = Some slot)
     \<and> (map_of (m_inflight_store m) k = Some slot \<longrightarrow> \<not> success \<or> k \<in> m_failed_store m \<longrightarrow>
       snd (lookup grp k (fst (complete_store grp ks success m))) = ok MISS)
     \<and> snd (lookup grp k (fst (mark_load_failed grp ks m))) \<noteq> ok HIT
     \<and> snd (lookup grp k' (fst (touch grp ks (reset_cache m)))) = ok MISS"
  using slab.store_then_hit [OF assms(1) _ _ assms(2), of slot]
    slab.failed_store_then_miss [OF assms(1) _ _ assms(2), of success]
    slab.failed_load_not_hit [OF assms] slab.cleared_misses [OF assms(1), of k' ks]
  by (simp add: slot_of_def)

theorem lookup_life_cycle_witness:
  "good_mgr (\<lambda>_. 0) demo_mgr \<and> snd (lookup (\<lambda>_. 0) [7] (fst (mark_load_failed (\<lambda>_. 0) [[7]] demo_mgr))) \<noteq> ok HIT"
proof -
  have g: "good_mgr (\<lambda>_. 0) demo_mgr" using demo_mgr_inv by (simp add: good_mgr_def demo_mgr_def)
  show ?thesis using g lookup_life_cycle [OF g, of "[7]" "[[7]]"] by simp
qed

section \<open>Leaked slots\<close>

text \<open>
  A step loses a slot only in one way: a load of a key fails that already has a withheld slot.
\<close>

lemma for_keys_fail_leak_free:
  assumes "mgr_inv grp m" "no_leak grp m" "distinct ks" "\<forall>k \<in> set ks. map_of (m_condemned m) k = None"
  shows "no_leak grp (fst (for_keys (mark_load_failed_key grp) ks m))"
  using assms
proof (induction ks arbitrary: m)
  case (Cons k ks)
  obtain m1 r where f: "mark_load_failed_key grp k m = (m1, r)" by (cases "mark_load_failed_key grp k m")
  note facts = mark_load_failed_key_facts [OF Cons.prems(1), of k, unfolded f fst_conv]
  have "map_of (m_condemned m1) k' = map_of (m_condemned m) k'" if "k' \<noteq> k" for k'
    using f that by (auto simp: mark_load_failed_key_def Let_def map_of_update split: if_splits option.splits)
  then have "\<forall>k' \<in> set ks. map_of (m_condemned m1) k' = None"
    using Cons.prems(3,4) by (metis distinct.simps(2) list.set_intros(2))
  then show ?case using Cons.IH [OF facts(1) facts(2)] facts(2) Cons.prems f by (cases r) auto
qed simp

text \<open>
  C10: No slot is lost by any call, with one exception: every call keeps the property that each slot of
  each group has an owner, where a failed load is required to name each key once and only keys without
  a withheld slot. A reset restores the property unconditionally.
\<close>

theorem no_slot_leak:
  assumes "mgr_inv grp m" and "no_leak grp m" and "attached_or_grouped grp m"
    and "distinct ks \<and> (\<forall>k \<in> set ks. map_of (m_condemned m) k = None)"
  shows "no_leak grp (fst (lookup grp k m)) \<and> no_leak grp (fst (prepare_store grp keys m))
     \<and> no_leak grp (fst (complete_store grp keys success m)) \<and> no_leak grp (fst (prepare_load grp keys m))
     \<and> no_leak grp (fst (complete_load grp keys m)) \<and> no_leak grp (fst (mark_load_failed grp ks m))
     \<and> no_leak grp (fst (touch grp keys m)) \<and> (m_attached m' \<longrightarrow> no_leak grp (reset_cache m'))"
proof -
  have dir: "m_attached m \<or> dir_grouped grp (m_rank0 m)" using assms(3) by (simp add: attached_or_grouped_def)
  have "no_leak grp (fst (mark_load_failed grp ks m))"
    using for_keys_fail_leak_free [OF assms(1,2), of ks] assms(2,4) by (simp add: mark_load_failed_def)
  moreover have "no_leak grp (reset_cache m')" if "m_attached m'"
    using that by (simp add: no_leak_def reset_cache_def Let_def owned_def od_values_def)
  ultimately show ?thesis
    using lookup_inv(2) [OF assms(1) dir assms(2)] prepare_store_inv(2) [OF assms(1) dir assms(2)]
      prepare_load_inv(2) [OF assms(1) dir assms(2)] complete_store_keeps [of grp m keys success]
      complete_load_keeps [of grp m keys] touch_keeps [of grp m keys] assms(1,2)
    by (simp add: keeps_def)
qed

theorem no_slot_leak_witness:
  "no_leak (\<lambda>_. 0) demo_mgr \<and> no_leak (\<lambda>_. 0) (fst (mark_load_failed (\<lambda>_. 0) [[7], [8]] demo_mgr))"
proof -
  have n: "no_leak (\<lambda>_. 0) demo_mgr"
    by (simp add: no_leak_def owned_def demo_mgr_def mgr_init_def od_values_def upt_rec numeral_2_eq_2)
  have "attached_or_grouped (\<lambda>_. 0) demo_mgr" by (simp add: attached_or_grouped_def demo_mgr_def)
  from no_slot_leak [OF demo_mgr_inv n this, of "[[7], [8]]"] show ?thesis
    using n by (simp add: demo_mgr_def mgr_init_def)
qed

text \<open>The run of the counterexample below, call by call.\<close>

lemmas demo_defs = demo_mgr_def mgr_init_def od_values_def od_keys_def load_count_def bump_stat_def Let_def

definition demo_after :: "(key, nat) odict list \<Rightarrow> nat list list \<Rightarrow> (key, nat) odict \<Rightarrow> (key, nat) odict \<Rightarrow> mgr_stats \<Rightarrow> manager" where
  "demo_after idx fr stores cond st = demo_mgr\<lparr>m_index := idx, m_free := fr, m_inflight_store := stores,
      m_condemned := cond, m_stats := st\<rparr>"

lemma demo_run0: "fst (prepare_load (\<lambda>_. 0) [[7]] demo_mgr) = demo_mgr\<lparr>m_inflight_load := [([7], 2)]\<rparr>"
  by (simp add: prepare_load_def demo_defs)

lemma demo_run1:
  "fst (mark_load_failed (\<lambda>_. 0) [[7]] (demo_mgr\<lparr>m_inflight_load := [([7], 2)]\<rparr>)) =
     (demo_after [[([8], 0)]] [[]] [] [([7], 1)]
        \<lparr>st_hits = 0, st_misses = 0, st_evictions = 0, st_stores = 0, st_load_failures = 1\<rparr>)\<lparr>m_inflight_load := [([7], 2)]\<rparr>"
  by (simp add: mark_load_failed_def mark_load_failed_key_def demo_after_def demo_defs)

lemma demo_run1b:
  "fst (complete_load (\<lambda>_. 0) [[7]] ((demo_after [[([8], 0)]] [[]] [] [([7], 1)] st)\<lparr>m_inflight_load := [([7], 2)]\<rparr>)) =
     demo_after [[([8], 0)]] [[]] [] [([7], 1)] st"
  by (simp add: complete_load_def complete_load_key_def demo_after_def demo_defs)

lemma demo_run2:
  "fst (prepare_store (\<lambda>_. 0) [[7]] (demo_after [[([8], 0)]] [[]] [] [([7], 1)] st)) =
     (demo_after [[]] [[]] [([7], 0)] [([7], 1)] (st\<lparr>st_evictions := st_evictions st + 1, st_stores := st_stores st + 1\<rparr>))
     \<lparr>m_seq := 6\<rparr>"
  by (simp add: prepare_store_def new_keys_def evictable_def take_slot_def demo_after_def demo_defs pslice_def)

lemma demo_run3:
  "fst (complete_store (\<lambda>_. 0) [[7]] True ((demo_after [[]] [[]] [([7], 0)] [([7], 1)] st)\<lparr>m_seq := 6\<rparr>)) =
     (demo_after [[([7], 0)]] [[]] [] [([7], 1)] st)\<lparr>m_seq := 6\<rparr>"
  by (simp add: complete_store_def complete_store_key_def demo_after_def demo_defs)

lemma demo_run4:
  "fst (mark_load_failed (\<lambda>_. 0) [[7]] ((demo_after [[([7], 0)]] [[]] [] [([7], 1)] st)\<lparr>m_seq := 6\<rparr>)) =
     (demo_after [[]] [[]] [] [([7], 0)] (st\<lparr>st_load_failures := st_load_failures st + 1\<rparr>))\<lparr>m_seq := 6\<rparr>"
  by (simp add: mark_load_failed_def mark_load_failed_key_def demo_after_def demo_defs)

lemma demo_run5:
  "fst (complete_load (\<lambda>_. 0) [[7]] ((demo_after [[]] [[]] [] [([7], 0)] st)\<lparr>m_seq := 6\<rparr>)) =
     (demo_after [[]] [[0]] [] [] st)\<lparr>m_seq := 6, m_inflight_load := []\<rparr>"
  by (simp add: complete_load_def complete_load_key_def demo_after_def demo_defs)

text \<open>
  The exception is real. From a state without leaks, two loads of key \<open>[7]\<close> are in flight. The first
  fails: the key is dropped and its slot withheld for the second reader. The key is stored again in
  another slot; then the second load fails and overwrites the withheld slot. When both readers are
  done and nothing is in flight, slot 1 is owned by nothing and is never used again until a reset.
\<close>

theorem mark_load_failed_leaks_slot:
  "let grp = (\<lambda>_. 0);
       m0 = fst (prepare_load grp [[7]] demo_mgr);
       m1 = fst (complete_load grp [[7]] (fst (mark_load_failed grp [[7]] m0)));
       m2 = fst (complete_store grp [[7]] True (fst (prepare_store grp [[7]] m1)));
       m3 = fst (mark_load_failed grp [[7]] m2);
       m4 = fst (complete_load grp [[7]] m3)
   in no_leak grp demo_mgr \<and> no_leak grp m2 \<and> \<not> has_pending_work m4 \<and> m_condemned m4 = []
      \<and> owned grp m4 0 = {#0#} \<and> \<not> no_leak grp m4"
  unfolding Let_def demo_run0 demo_run1 demo_run1b demo_run2 demo_run3 demo_run4 demo_run5
  by (simp add: no_leak_def owned_def has_pending_work_def demo_after_def demo_mgr_def mgr_init_def od_values_def
      upt_rec numeral_2_eq_2)

end
