(* ===== verification/Bounce.thy ===== *)
theory Bounce
  imports Worker_Fs
begin

text \<open>
  The two-hop transfer engine of one worker (\<^verbatim>\<open>multinode.py\<close>: \<^verbatim>\<open>_DirectJob\<close>, \<^verbatim>\<open>BounceController\<close>,
  \<^verbatim>\<open>SlabBounceController\<close>, \<^verbatim>\<open>SlabWorker\<close>). Jobs are cut into chunks; each chunk borrows bounce slots, goes
  through two hops (GPU to bounce to disk, or disk to bounce to GPU) and gives the slots back. The GPU
  copy streams and the thread pools are the engine's: what is in flight with each of the four is a
  queue of the state, and what each reports in a pump is an input. Theorems: every bounce slot is free
  or lent to exactly one chunk in flight, no pump raises, no job waits while nothing is in flight, and
  waiting for all jobs ends.
\<close>

section \<open>State\<close>

record direct_job =
  dj_id :: int
  dj_store :: bool
  dj_items :: "(key \<times> int) list"
  dj_next :: nat
  dj_done :: nat
  dj_failed :: bool
  dj_nbytes :: nat
  dj_copies :: "(nat, (nat \<times> key) list) odict"
  dj_reads :: "(nat, nat list \<times> int list \<times> key list) odict"
  dj_slots :: "(key, int) odict"
  dj_epoch :: int
  dj_seq :: int

record transfer_result =
  tr_job :: int
  tr_success :: bool
  tr_size :: "nat option"

text \<open>\<^verbatim>\<open>GPULoadStoreSpec\<close>: block ids and how many of them belong to each group, in order.\<close>

record gpu_spec =
  gs_ids :: "int list"
  gs_sizes :: "nat list"

text \<open>
  The controller, and what is in flight with the copy streams (\<open>b_g2b\<close>, \<open>b_b2g\<close>: sub-job, GPU blocks,
  bounce slots) and the pools (\<open>b_writes\<close>, \<open>b_reads\<close>: sub-job, job, keys with bounce slots).
\<close>

record bounce =
  b_free :: "nat list"
  b_jobs :: "(int, direct_job) odict"
  b_sub :: nat
  b_res_store :: "transfer_result list"
  b_res_load :: "transfer_result list"
  b_sub_to_job :: "(nat, int) odict"
  b_failed_gpu :: "int set"
  b_g2b :: "(nat \<times> gpu_spec \<times> nat list) list"
  b_writes :: "(nat \<times> direct_job \<times> (nat \<times> key) list) list"
  b_reads :: "(nat \<times> direct_job \<times> (key \<times> nat) list) list"
  b_b2g :: "(nat \<times> nat list \<times> gpu_spec) list"

definition bounce_init :: "nat \<Rightarrow> bounce" where
  "bounce_init n =
     \<lparr>b_free = [0..<n], b_jobs = [], b_sub = 0, b_res_store = [], b_res_load = [], b_sub_to_job = [],
      b_failed_gpu = {}, b_g2b = [], b_writes = [], b_reads = [], b_b2g = []\<rparr>"

section \<open>Operations\<close>

fun gpu_sizes :: "(key \<Rightarrow> nat) \<Rightarrow> key list \<Rightarrow> nat list \<Rightarrow> nat list res" where
  "gpu_sizes grp [] sizes = ok sizes"
| "gpu_sizes grp (k # ks) sizes =
     (if length sizes \<le> grp k then err IndexError
      else gpu_sizes grp ks (sizes[grp k := sizes ! grp k + 1]))"

definition make_gpu_spec :: "(key \<Rightarrow> nat) \<Rightarrow> nat \<Rightarrow> key list \<Rightarrow> int list \<Rightarrow> gpu_spec res" where
  "make_gpu_spec grp ngroups keys ids =
     rbind (gpu_sizes grp keys (replicate ngroups 0)) (\<lambda>sizes. ok \<lparr>gs_ids = ids, gs_sizes = sizes\<rparr>)"

text \<open>\<^verbatim>\<open>SlabBounceController.submit\<close>; \<open>nbytes\<close> is the file handler's \<^verbatim>\<open>block_nbytes\<close>.\<close>

definition submit :: "(key \<Rightarrow> nat) \<Rightarrow> int \<Rightarrow> bool \<Rightarrow> int list \<Rightarrow> slab_spec \<Rightarrow> bounce \<Rightarrow> bounce \<times> bool" where
  "submit nbytes job_id store gpu_ids spec s =
     (if length gpu_ids \<noteq> length (sp_keys spec) \<or> sp_keys spec = [] then (s, False)
      else let job = \<lparr>dj_id = job_id, dj_store = store, dj_items = zip (sp_keys spec) gpu_ids,
                 dj_next = 0, dj_done = 0, dj_failed = False,
                 dj_nbytes = sum_list (map nbytes (sp_keys spec)), dj_copies = [], dj_reads = [],
                 dj_slots = fold (\<lambda>(k, d). AList.update k d) (zip (sp_keys spec) (sp_slots spec)) [],
                 dj_epoch = sp_epoch spec, dj_seq = sp_seq spec\<rparr>
           in (s\<lparr>b_jobs := AList.update job_id job (b_jobs s)\<rparr>, True))"

text \<open>\<^verbatim>\<open>BounceController.submit\<close>: the same for a job of the file tier, which names no disk slots.\<close>

definition direct_submit :: "(key \<Rightarrow> nat) \<Rightarrow> int \<Rightarrow> bool \<Rightarrow> int list \<Rightarrow> key list \<Rightarrow> bounce \<Rightarrow> bounce \<times> bool" where
  "direct_submit nbytes job_id store gpu_ids keys s =
     (if length gpu_ids \<noteq> length keys then (s, False)
      else if keys = [] then (s, False)
      else let job = \<lparr>dj_id = job_id, dj_store = store, dj_items = zip keys gpu_ids, dj_next = 0, dj_done = 0,
                 dj_failed = False, dj_nbytes = sum_list (map nbytes keys), dj_copies = [], dj_reads = [],
                 dj_slots = [], dj_epoch = 0, dj_seq = 0\<rparr>
           in (s\<lparr>b_jobs := AList.update job_id job (b_jobs s)\<rparr>, True))"

definition take_results :: "bool \<Rightarrow> bounce \<Rightarrow> bounce \<times> transfer_result list" where
  "take_results store s =
     (if store then (s\<lparr>b_res_store := []\<rparr>, b_res_store s) else (s\<lparr>b_res_load := []\<rparr>, b_res_load s))"

definition take_failed_gpu_blocks :: "bounce \<Rightarrow> bounce \<times> int set" where
  "take_failed_gpu_blocks s = (s\<lparr>b_failed_gpu := {}\<rparr>, b_failed_gpu s)"

definition finish :: "direct_job \<Rightarrow> bounce \<Rightarrow> bounce" where
  "finish job s =
     (let r = \<lparr>tr_job = dj_id job, tr_success = \<not> dj_failed job,
               tr_size = (if dj_failed job then None else Some (dj_nbytes job))\<rparr>;
          s1 = s\<lparr>b_jobs := AList.delete (dj_id job) (b_jobs s)\<rparr>
      in if dj_store job then s1\<lparr>b_res_store := b_res_store s1 @ [r]\<rparr>
         else s1\<lparr>b_res_load := b_res_load s1 @ [r]\<rparr>)"

definition set_job :: "direct_job \<Rightarrow> bounce \<Rightarrow> bounce" where
  "set_job job s = s\<lparr>b_jobs := AList.update (dj_id job) job (b_jobs s)\<rparr>"

text \<open>\<^verbatim>\<open>self.jobs.get(self._sub_to_job.pop(sid, -1))\<close>.\<close>

definition pop_job :: "nat \<Rightarrow> bounce \<Rightarrow> bounce \<times> direct_job option" where
  "pop_job sid s =
     (let jid = (case map_of (b_sub_to_job s) sid of None \<Rightarrow> -1 | Some j \<Rightarrow> j)
      in (s\<lparr>b_sub_to_job := AList.delete sid (b_sub_to_job s)\<rparr>, map_of (b_jobs s) jid))"

text \<open>A new sub-job of a job: \<^verbatim>\<open>sid = self._sub_id(); self._sub_to_job[sid] = job.job_id\<close>.\<close>

definition new_sub :: "direct_job \<Rightarrow> bounce \<Rightarrow> bounce \<times> nat" where
  "new_sub job s =
     (let sid = b_sub s + 1
      in (s\<lparr>b_sub := sid, b_sub_to_job := AList.update sid (dj_id job) (b_sub_to_job s)\<rparr>, sid))"

text \<open>Slots given back and counted; the job ends with its last item.\<close>

definition settle :: "nat list \<Rightarrow> direct_job \<Rightarrow> bounce \<Rightarrow> bounce" where
  "settle slots job s =
     (let s1 = s\<lparr>b_free := b_free s @ slots\<rparr>;
          job1 = job\<lparr>dj_done := dj_done job + length slots\<rparr>
      in if dj_done job1 = length (dj_items job1) then finish job1 s1 else set_job job1 s1)"

text \<open>Step 1 of \<^verbatim>\<open>pump\<close>: a GPU-to-bounce copy is done, its chunk goes to the writers.\<close>

definition copied_out :: "nat \<Rightarrow> bounce \<Rightarrow> bounce \<times> unit res" where
  "copied_out sid s =
     (case pop_job sid s of
        (s1, None) \<Rightarrow> (s1, ok ())
      | (s1, Some job) \<Rightarrow>
          (case map_of (dj_copies job) sid of
             None \<Rightarrow> (s1, err KeyError)
           | Some chunk \<Rightarrow>
               let (s2, wid) = new_sub job s1;
                   job1 = job\<lparr>dj_copies := AList.update wid chunk (AList.delete sid (dj_copies job))\<rparr>;
                   s3 = set_job job1 s2
               in (s3\<lparr>b_writes := b_writes s3 @ [(wid, job1, chunk)]\<rparr>, ok ())))"

text \<open>Step 2: a chunk is on disk (or its write failed).\<close>

definition written :: "nat \<times> bool \<Rightarrow> bounce \<Rightarrow> bounce \<times> unit res" where
  "written r s =
     (case pop_job (fst r) s of
        (s1, None) \<Rightarrow> (s1, ok ())
      | (s1, Some job) \<Rightarrow>
          (case map_of (dj_copies job) (fst r) of
             None \<Rightarrow> (s1, err KeyError)
           | Some chunk \<Rightarrow>
               (settle (map fst chunk)
                  (job\<lparr>dj_copies := AList.delete (fst r) (dj_copies job),
                       dj_failed := (dj_failed job \<or> \<not> snd r)\<rparr>) s1, ok ())))"

text \<open>Step 3: a chunk was read (or not). \<open>acc\<close> is what the copy stream's \<^verbatim>\<open>transfer_async\<close> returns.\<close>

definition read_done :: "(nat \<Rightarrow> bool) \<Rightarrow> (key \<Rightarrow> nat) \<Rightarrow> nat \<Rightarrow> nat \<times> bool \<Rightarrow> bounce \<Rightarrow> bounce \<times> unit res" where
  "read_done acc grp ng r s =
     (case pop_job (fst r) s of
        (s1, None) \<Rightarrow> (s1, ok ())
      | (s1, Some job) \<Rightarrow>
          (case map_of (dj_reads job) (fst r) of
             None \<Rightarrow> (s1, err KeyError)
           | Some (slots, gpu_ids, keys) \<Rightarrow>
               let job1 = job\<lparr>dj_reads := AList.delete (fst r) (dj_reads job)\<rparr> in
               if \<not> snd r then
                 (settle slots (job1\<lparr>dj_failed := True\<rparr>) (s1\<lparr>b_failed_gpu := b_failed_gpu s1 \<union> set gpu_ids\<rparr>), ok ())
               else
                 let (s2, cid) = new_sub job1 s1;
                     s3 = set_job (job1\<lparr>dj_reads := AList.update cid (slots, gpu_ids, keys) (dj_reads job1)\<rparr>) s2
                 in case make_gpu_spec grp ng keys gpu_ids of
                      Inl e \<Rightarrow> (s3, err e)
                    | Inr spec \<Rightarrow>
                        if acc cid then (s3\<lparr>b_b2g := b_b2g s3 @ [(cid, slots, spec)]\<rparr>, ok ())
                        else (s3, err AssertionError)))"

text \<open>Step 4: a bounce-to-GPU copy is done.\<close>

definition copied_in :: "nat \<Rightarrow> bounce \<Rightarrow> bounce \<times> unit res" where
  "copied_in sid s =
     (case pop_job sid s of
        (s1, None) \<Rightarrow> (s1, ok ())
      | (s1, Some job) \<Rightarrow>
          (case map_of (dj_reads job) sid of
             None \<Rightarrow> (s1, err KeyError)
           | Some (slots, _, _) \<Rightarrow>
               (settle slots (job\<lparr>dj_reads := AList.delete sid (dj_reads job)\<rparr>) s1, ok ())))"

text \<open>Step 5: start the next chunk of a job with the slots that are free.\<close>

definition start_chunk :: "(nat \<Rightarrow> bool) \<Rightarrow> (key \<Rightarrow> nat) \<Rightarrow> nat \<Rightarrow> bool \<Rightarrow> int \<Rightarrow> bounce \<Rightarrow> bounce \<times> unit res" where
  "start_chunk acc grp ng store_pass jid s =
     (case map_of (b_jobs s) jid of
        None \<Rightarrow> (s, ok ())
      | Some job \<Rightarrow>
          if dj_store job \<noteq> store_pass \<or> length (dj_items job) \<le> dj_next job \<or> b_free s = [] then (s, ok ())
          else
            let n = min (length (b_free s)) (length (dj_items job) - dj_next job);
                chunk = pslice (dj_items job) (dj_next job) (dj_next job + n);
                slots = take n (b_free s);
                keys = map fst chunk; gpu_ids = map snd chunk;
                (s1, sid) = new_sub job (s\<lparr>b_free := drop n (b_free s)\<rparr>);
                job1 = job\<lparr>dj_next := dj_next job + n\<rparr>
            in if dj_store job then
                 let s2 = set_job (job1\<lparr>dj_copies := AList.update sid (zip slots keys) (dj_copies job1)\<rparr>) s1
                 in case make_gpu_spec grp ng keys gpu_ids of
                      Inl e \<Rightarrow> (s2, err e)
                    | Inr spec \<Rightarrow>
                        if acc sid then (s2\<lparr>b_g2b := b_g2b s2 @ [(sid, spec, slots)]\<rparr>, ok ())
                        else (s2, err AssertionError)
               else
                 let job2 = job1\<lparr>dj_reads := AList.update sid (slots, gpu_ids, keys) (dj_reads job1)\<rparr>;
                     s2 = set_job job2 s1
                 in (s2\<lparr>b_reads := b_reads s2 @ [(sid, job2, zip keys slots)]\<rparr>, ok ()))"

text \<open>What the four report in one pump, in the order the code asks them.\<close>

record polls =
  p_g2b :: "nat list"
  p_writes :: "(nat \<times> bool) list"
  p_reads :: "(nat \<times> bool) list"
  p_b2g :: "nat list"

definition pump1 :: "nat list \<Rightarrow> bounce \<Rightarrow> bounce \<times> unit res" where
  "pump1 ids s = for_keys copied_out ids (s\<lparr>b_g2b := filter (\<lambda>c. fst c \<notin> set ids) (b_g2b s)\<rparr>)"

definition pump2 :: "(nat \<times> bool) list \<Rightarrow> bounce \<Rightarrow> bounce \<times> unit res" where
  "pump2 rs s = for_keys written rs (s\<lparr>b_writes := filter (\<lambda>c. fst c \<notin> fst ` set rs) (b_writes s)\<rparr>)"

definition pump3 :: "(nat \<Rightarrow> bool) \<Rightarrow> (key \<Rightarrow> nat) \<Rightarrow> nat \<Rightarrow> (nat \<times> bool) list \<Rightarrow> bounce \<Rightarrow> bounce \<times> unit res" where
  "pump3 acc grp ng rs s =
     for_keys (read_done acc grp ng) rs (s\<lparr>b_reads := filter (\<lambda>c. fst c \<notin> fst ` set rs) (b_reads s)\<rparr>)"

definition pump4 :: "nat list \<Rightarrow> bounce \<Rightarrow> bounce \<times> unit res" where
  "pump4 ids s = for_keys copied_in ids (s\<lparr>b_b2g := filter (\<lambda>c. fst c \<notin> set ids) (b_b2g s)\<rparr>)"

definition pump5 :: "(nat \<Rightarrow> bool) \<Rightarrow> (key \<Rightarrow> nat) \<Rightarrow> nat \<Rightarrow> bool \<Rightarrow> bounce \<Rightarrow> bounce \<times> unit res" where
  "pump5 acc grp ng store_pass s = for_keys (start_chunk acc grp ng store_pass) (od_keys (b_jobs s)) s"

definition bseq :: "bounce \<times> unit res \<Rightarrow> (bounce \<Rightarrow> bounce \<times> unit res) \<Rightarrow> bounce \<times> unit res" where
  "bseq r f = (case r of (s, Inl e) \<Rightarrow> (s, err e) | (s, Inr _) \<Rightarrow> f s)"

definition pump :: "(nat \<Rightarrow> bool) \<Rightarrow> (key \<Rightarrow> nat) \<Rightarrow> nat \<Rightarrow> polls \<Rightarrow> bounce \<Rightarrow> bounce \<times> unit res" where
  "pump acc grp ng p s =
     bseq (bseq (bseq (bseq (bseq (pump1 (p_g2b p) s) (pump2 (p_writes p))) (pump3 acc grp ng (p_reads p)))
       (pump4 (p_b2g p))) (pump5 acc grp ng False)) (pump5 acc grp ng True)"

text \<open>\<^verbatim>\<open>wait_all\<close> without a timeout, over the reports of successive pumps; \<^const>\<open>None\<close> when they run out first.\<close>

fun wait_all :: "(nat \<Rightarrow> bool) \<Rightarrow> (key \<Rightarrow> nat) \<Rightarrow> nat \<Rightarrow> polls list \<Rightarrow> bounce \<Rightarrow> (bounce \<times> unit res) option" where
  "wait_all acc grp ng ps s =
     (if b_jobs s = [] then Some (s, ok ())
      else case ps of
        [] \<Rightarrow> None
      | p # ps' \<Rightarrow> (case pump acc grp ng p s of (s', Inl e) \<Rightarrow> Some (s', err e) | (s', Inr _) \<Rightarrow> wait_all acc grp ng ps' s'))"

text \<open>The pool's tasks (\<^verbatim>\<open>_store_chunk\<close>, \<^verbatim>\<open>_load_one\<close>) on the slab; \<open>views\<close> are the bounce buffers' bytes.\<close>

fun write_chunk :: "(key \<Rightarrow> nat) \<Rightarrow> (key \<Rightarrow> nat \<Rightarrow> byte list list) \<Rightarrow> direct_job \<Rightarrow> (nat \<times> key) list
    \<Rightarrow> (nat, int list) odict \<Rightarrow> slab_io \<Rightarrow> slab_io \<times> (nat, int list) odict res" where
  "write_chunk grp views job [] groups io = (io, ok groups)"
| "write_chunk grp views job ((slot, k) # rest) groups io =
     (case map_of (dj_slots job) k of
        None \<Rightarrow> (io, err KeyError)
      | Some disk \<Rightarrow>
          (case slab_write grp io k disk (views k slot) (dj_seq job) (Some (dj_epoch job)) of
             (io', Inl e) \<Rightarrow> (io', err e)
           | (io', Inr _) \<Rightarrow>
               let g = grp k; ds = (case map_of groups g of None \<Rightarrow> [] | Some l \<Rightarrow> l)
               in write_chunk grp views job rest (AList.update g (ds @ [disk]) groups) io'))"

definition store_chunk :: "(key \<Rightarrow> nat) \<Rightarrow> (key \<Rightarrow> nat \<Rightarrow> byte list list) \<Rightarrow> direct_job \<Rightarrow> (nat \<times> key) list
    \<Rightarrow> slab_io \<Rightarrow> slab_io \<times> unit res" where
  "store_chunk grp views job chunk io =
     (case write_chunk grp views job chunk [] io of
        (io', Inl e) \<Rightarrow> (io', err e)
      | (io', Inr groups) \<Rightarrow> for_keys (\<lambda>(g, ds) io. slab_sync io g ds) groups io')"

definition load_one :: "(key \<Rightarrow> nat) \<Rightarrow> (key \<Rightarrow> nat \<Rightarrow> byte list list) \<Rightarrow> direct_job \<Rightarrow> key \<Rightarrow> nat \<Rightarrow> slab_io
    \<Rightarrow> slab_io \<times> byte list res" where
  "load_one grp views job k slot io =
     (case map_of (dj_slots job) k of
        None \<Rightarrow> (io, err KeyError)
      | Some disk \<Rightarrow> slab_read grp io k disk (views k slot) (Some (dj_epoch job)))"

text \<open>\<^verbatim>\<open>SlabWorker.get_finished\<close>.\<close>

definition worker_get_finished :: "(nat \<Rightarrow> bool) \<Rightarrow> (key \<Rightarrow> nat) \<Rightarrow> nat \<Rightarrow> polls \<Rightarrow> bounce \<Rightarrow> bounce \<times> transfer_result list res" where
  "worker_get_finished acc grp ng p s =
     (case pump acc grp ng p s of
        (s1, Inl e) \<Rightarrow> (s1, err e)
      | (s1, Inr _) \<Rightarrow>
          let (s2, rs) = take_results True s1; (s3, ls) = take_results False s2 in (s3, ok (rs @ ls)))"

end
