(* ===== verification/Slab_Transfer.thy ===== *)
theory Slab_Transfer
  imports Bounce
begin

text \<open>
  What the pool tasks of the transfer engine do to the slab (\<^verbatim>\<open>multinode.py\<close>: \<^verbatim>\<open>_store_chunk\<close>,
  \<^verbatim>\<open>_load_one\<close>, \<^verbatim>\<open>_gpu_spec\<close>): a stored chunk is loaded back block for block, and the group sizes handed
  to the copy stream assign every GPU block to the group of its key.
\<close>

section \<open>Chunks on disk\<close>

lemma write_chunk_geometry:
  "write_chunk grp views job chunk gs io = (io', r) \<Longrightarrow>
     slot_bytes io' = slot_bytes io \<and> slot_counts io' = slot_counts io \<and> length (files io') = length (files io)"
proof (induction chunk arbitrary: gs io)
  case (Cons p chunk)
  obtain slot k where p: "p = (slot, k)" by (cases p)
  show ?case
  proof (cases "map_of (dj_slots job) k")
    case (Some d)
    obtain io1 r1 where w: "slab_write grp io k d (views k slot) (dj_seq job) (Some (dj_epoch job)) = (io1, r1)" by fastforce
    show ?thesis using Cons.prems slab_write_geometry [OF w] Cons.IH [of _ io1]
      by (cases r1) (auto simp: p Some w Let_def)
  qed (use Cons.prems in \<open>simp add: p\<close>)
qed simp

text \<open>A slot that no key of the chunk is stored in keeps what it serves.\<close>

lemma write_chunk_other:
  assumes "write_chunk grp views job chunk gs io = (io', r)"
    and "slot_value (files io ! grp key') (off_of grp io key' d') key' n ep = Some bs"
    and "in_slot grp io key' d'" and "SLAB_HEADER_BYTES + n \<le> slot_bytes io ! grp key'"
    and "\<forall>(slot, k) \<in> set chunk. grp key' \<noteq> grp k \<or> map_of (dj_slots job) k \<noteq> Some d'"
  shows "slot_value (files io' ! grp key') (off_of grp io key' d') key' n ep = Some bs"
  using assms
proof (induction chunk arbitrary: gs io)
  case (Cons p chunk)
  obtain slot k where p: "p = (slot, k)" by (cases p)
  show ?case
  proof (cases "map_of (dj_slots job) k")
    case (Some d)
    obtain io1 r1 where w: "slab_write grp io k d (views k slot) (dj_seq job) (Some (dj_epoch job)) = (io1, r1)" by fastforce
    note geo = slab_write_geometry [OF w]
    have other: "grp key' \<noteq> grp k \<or> d' \<noteq> d" using Cons.prems(5) Some by (auto simp: p)
    note v = slab_write_other_value [OF w Cons.prems(2,3) other Cons.prems(4)]
    show ?thesis
    proof (cases r1)
      case (Inl e)
      then show ?thesis using Cons.prems(1) v by (simp add: p Some w)
    next
      case (Inr u)
      then obtain gs' where run: "write_chunk grp views job chunk gs' io1 = (io', r)"
        using Cons.prems(1) by (auto simp: p Some w Let_def)
      show ?thesis
        using Cons.IH [OF run] v Cons.prems(3-5) geo by (simp add: in_slot_def)
    qed
  qed (use Cons.prems in \<open>simp add: p\<close>)
qed simp

text \<open>Different keys of a job go to different disk slots.\<close>

definition slots_apart :: "(key \<Rightarrow> nat) \<Rightarrow> direct_job \<Rightarrow> key set \<Rightarrow> bool" where
  "slots_apart grp job ks =
     (\<forall>k \<in> ks. \<forall>k' \<in> ks. k \<noteq> k' \<longrightarrow> grp k = grp k' \<longrightarrow> map_of (dj_slots job) k \<noteq> map_of (dj_slots job) k')"

lemma write_chunk_values:
  assumes "write_chunk grp views job chunk gs io = (io', ok gs')"
    and "distinct (map snd chunk)" and "slots_apart grp job (set (map snd chunk))" and "(slot, k) \<in> set chunk"
  shows "\<exists>d. map_of (dj_slots job) k = Some d \<and> in_slot grp io k d
     \<and> slot_value (files io' ! grp k) (off_of grp io k d) k (length (concat (views k slot))) (Some (dj_epoch job))
         = Some (concat (views k slot))"
  using assms
proof (induction chunk arbitrary: gs io)
  case (Cons p chunk)
  obtain s0 k0 where p: "p = (s0, k0)" by (cases p)
  obtain d0 where d0: "map_of (dj_slots job) k0 = Some d0"
    using Cons.prems(1) by (cases "map_of (dj_slots job) k0") (auto simp: p)
  obtain io1 gs1 where w: "slab_write grp io k0 d0 (views k0 s0) (dj_seq job) (Some (dj_epoch job)) = (io1, ok ())"
      and run: "write_chunk grp views job chunk gs1 io1 = (io', ok gs')"
    using Cons.prems(1) by (auto simp: p d0 Let_def split: prod.splits sum.splits)
  note geo = slab_write_geometry [OF w]
  note val = slab_write_ok_value [OF w, of "Some (dj_epoch job)"]
  show ?case
  proof (cases "(slot, k) = p")
    case True
    have apart: "\<forall>(slot, k) \<in> set chunk. grp k0 \<noteq> grp k \<or> map_of (dj_slots job) k \<noteq> Some d0"
    proof -
      have "grp k0 \<noteq> grp k' \<or> map_of (dj_slots job) k' \<noteq> Some d0" if m: "(s, k') \<in> set chunk" for s k'
      proof -
        have "k' \<in> snd ` set chunk" using m by force
        moreover have "k0 \<notin> snd ` set chunk" using Cons.prems(2) by (simp add: p)
        ultimately show ?thesis using Cons.prems(3) d0 by (fastforce simp: slots_apart_def p)
      qed
      then show ?thesis by blast
    qed
    have "slot_value (files io' ! grp k0) (off_of grp io1 k0 d0) k0 (length (concat (views k0 s0))) (Some (dj_epoch job))
        = Some (concat (views k0 s0))"
      by (rule write_chunk_other [OF run _ _ _ apart]) (use val geo in \<open>simp_all add: in_slot_def del: length_concat\<close>)
    then show ?thesis using True d0 val(1) geo by (simp add: p del: length_concat)
  next
    case False
    have "slots_apart grp job (set (map snd chunk))" using Cons.prems(3) by (simp add: slots_apart_def p)
    then show ?thesis
      using Cons.IH [OF run] Cons.prems(2,4) False geo by (auto simp: in_slot_def simp del: length_concat)
  qed
qed simp

lemma sync_all_files:
  "files (fst (for_keys (\<lambda>(g, ds) io. slab_sync io g ds) gs io)) = files io
   \<and> slot_bytes (fst (for_keys (\<lambda>(g, ds) io. slab_sync io g ds) gs io)) = slot_bytes io
   \<and> slot_counts (fst (for_keys (\<lambda>(g, ds) io. slab_sync io g ds) gs io)) = slot_counts io"
proof (induction gs arbitrary: io)
  case (Cons p gs)
  obtain g ds where p: "p = (g, ds)" by (cases p)
  obtain io1 r where s: "slab_sync io g ds = (io1, r)" by fastforce
  have "files io1 = files io" "slot_bytes io1 = slot_bytes io" "slot_counts io1 = slot_counts io"
    using s by (auto simp: slab_sync_def split: if_splits prod.splits sum.splits)
  then show ?case using Cons.IH [of io1] by (cases r) (simp_all add: p s)
qed simp

text \<open>With a system that makes progress, the write task of a chunk that fits succeeds.\<close>

definition storable :: "(key \<Rightarrow> nat) \<Rightarrow> (key \<Rightarrow> nat \<Rightarrow> byte list list) \<Rightarrow> direct_job \<Rightarrow> slab_io \<Rightarrow> nat \<times> key \<Rightarrow> bool" where
  "storable grp views job io p =
     (case map_of (dj_slots job) (snd p) of None \<Rightarrow> False
      | Some d \<Rightarrow> in_slot grp io (snd p) d \<and> readable (views (snd p) (fst p))
          \<and> SLAB_HEADER_BYTES + length (concat (views (snd p) (fst p))) \<le> slot_bytes io ! grp (snd p)
          \<and> is_ok (header (io_epoch io) (grp (snd p)) (snd p) (length (concat (views (snd p) (fst p)))) (dj_seq job)
                (crc (views (snd p) (fst p))) (Some (dj_epoch job))))"

definition syncable :: "slab_io \<Rightarrow> (nat, int list) odict \<Rightarrow> bool" where
  "syncable io gs = (\<forall>(g, ds) \<in> set gs. g < length (files io) \<and> (\<forall>d \<in> set ds. 0 \<le> d \<and> d < int (slot_counts io ! g)))"

lemma write_chunk_succeeds:
  assumes "benign (answers io)" and "\<forall>p \<in> set chunk. storable grp views job io p" and "syncable io gs"
  shows "\<exists>io' gs'. write_chunk grp views job chunk gs io = (io', ok gs') \<and> benign (answers io') \<and> syncable io' gs'"
  using assms
proof (induction chunk arbitrary: gs io)
  case (Cons p chunk)
  obtain slot k where p: "p = (slot, k)" by (cases p)
  obtain d where d: "map_of (dj_slots job) k = Some d" "in_slot grp io k d" "readable (views k slot)"
      "SLAB_HEADER_BYTES + length (concat (views k slot)) \<le> slot_bytes io ! grp k"
      "is_ok (header (io_epoch io) (grp k) k (length (concat (views k slot))) (dj_seq job) (crc (views k slot)) (Some (dj_epoch job)))"
    using Cons.prems(2) by (auto simp: p storable_def simp del: length_concat split: option.splits)
  obtain io1 where w: "slab_write grp io k d (views k slot) (dj_seq job) (Some (dj_epoch job)) = (io1, ok ())"
      "benign (answers io1)"
    using slab_write_benign [OF d(2) Cons.prems(1) d(3-5)] by blast
  note geo = slab_write_geometry [OF w(1)]
  define gs1 where "gs1 = AList.update (grp k) ((case map_of gs (grp k) of None \<Rightarrow> [] | Some l \<Rightarrow> l) @ [d]) gs"
  have "syncable io1 gs1"
    unfolding syncable_def
  proof (clarify)
    fix g ds assume "(g, ds) \<in> set gs1"
    then have "(g, ds) \<in> set gs \<or> (g = grp k \<and> ds = (case map_of gs (grp k) of None \<Rightarrow> [] | Some l \<Rightarrow> l) @ [d])"
      using set_update_subset unfolding gs1_def by fastforce
    then show "g < length (files io1) \<and> (\<forall>d \<in> set ds. 0 \<le> d \<and> d < int (slot_counts io1 ! g))"
      using Cons.prems(3) d(2) geo
      by (fastforce simp: syncable_def in_slot_def dest: map_of_SomeD split: option.splits)
  qed
  moreover have "\<forall>p \<in> set chunk. storable grp views job io1 p"
    using Cons.prems(2) geo by (simp add: storable_def in_slot_def split: option.splits)
  ultimately show ?case
    using Cons.IH [OF w(2)] w(1) d(1) by (simp add: p Let_def gs1_def)
qed simp

lemma store_chunk_succeeds:
  assumes "benign (answers io)" and "\<forall>p \<in> set chunk. storable grp views job io p"
  shows "\<exists>io'. store_chunk grp views job chunk io = (io', ok ())"
proof -
  obtain io1 gs where w: "write_chunk grp views job chunk [] io = (io1, ok gs)" "benign (answers io1)" "syncable io1 gs"
    using write_chunk_succeeds [OF assms, of "[]"] by (auto simp: syncable_def)
  have "\<exists>io'. for_keys (\<lambda>(g, ds) io. slab_sync io g ds) gs io1 = (io', ok ())"
    using w(2,3)
  proof (induction gs arbitrary: io1)
    case (Cons p gs)
    obtain g ds where p: "p = (g, ds)" by (cases p)
    have "\<exists>io2. slab_sync io1 g ds = (io2, ok ()) \<and> benign (answers io2) \<and> files io2 = files io1 \<and> slot_counts io2 = slot_counts io1"
      using Cons.prems
      by (cases "(answers io1, 0::nat)" rule: next_count.cases)
        (auto simp: p syncable_def slab_sync_def slot_off_def list_all_iff)
    then obtain io2 where s: "slab_sync io1 g ds = (io2, ok ())" "benign (answers io2)" "files io2 = files io1" "slot_counts io2 = slot_counts io1"
      by blast
    then show ?case using Cons.IH [of io2] Cons.prems(2) by (simp add: p syncable_def)
  qed simp
  then show ?thesis using w(1) by (simp add: store_chunk_def)
qed

text \<open>
  C15: What a store chunk wrote, the loads of that job return. If the write task of a chunk ended
  without an exception, under whatever short writes the system chose, then loading any of its keys
  with the job's disk slots and epoch, into buffers of the same total size, returns the block as it
  was in the bounce buffer; later chunks of the same job to other slots included. The chunk's keys are
  distinct and have different disk slots, as the scheduler's placement gives them.
\<close>

theorem chunk_store_load_roundtrip:
  assumes "store_chunk grp views job chunk io = (io', ok ())"
    and "distinct (map snd chunk)" and "slots_apart grp job (set (map snd chunk))" and "(slot, k) \<in> set chunk"
    and "length (concat (bufs k slot')) = length (concat (views k slot))" and "readable (bufs k slot')" and "benign as"
  shows "snd (load_one grp bufs job k slot' (io'\<lparr>answers := as\<rparr>)) = ok (concat (views k slot))"
proof -
  obtain io1 gs where w: "write_chunk grp views job chunk [] io = (io1, ok gs)"
      and sy: "for_keys (\<lambda>(g, ds) io. slab_sync io g ds) gs io1 = (io', ok ())"
    using assms(1) by (auto simp: store_chunk_def split: prod.splits sum.splits)
  obtain d where d: "map_of (dj_slots job) k = Some d" "in_slot grp io k d"
      "slot_value (files io1 ! grp k) (off_of grp io k d) k (length (concat (views k slot))) (Some (dj_epoch job)) = Some (concat (views k slot))"
    using write_chunk_values [OF w assms(2-4)] by blast
  have f: "files io' = files io1" "slot_bytes io' = slot_bytes io" "slot_counts io' = slot_counts io"
      "length (files io1) = length (files io)"
    using sync_all_files [of gs io1] sy write_chunk_geometry [OF w] by simp_all
  have "\<exists>io2. slab_read grp (io'\<lparr>answers := as\<rparr>) k d (bufs k slot') (Some (dj_epoch job)) = (io2, ok (concat (views k slot)))"
    by (rule slab_read_complete) (use assms(5-7) d f in \<open>simp_all add: in_slot_def del: length_concat\<close>)
  then show ?thesis by (auto simp: load_one_def d(1))
qed

definition demo_job :: direct_job where
  "demo_job = \<lparr>dj_id = 1, dj_store = True, dj_items = [(demo_key 1, 0)], dj_next = 1, dj_done = 0, dj_failed = False, dj_nbytes = 4,
     dj_copies = [], dj_reads = [], dj_slots = [(demo_key 1, 0)], dj_epoch = 7, dj_seq = 5\<rparr>"

theorem chunk_store_load_roundtrip_witness:
  "\<exists>io'. store_chunk (\<lambda>_. 0) (\<lambda>_ _. [[1, 2], [3, 4]]) demo_job [(0, demo_key 1)] demo_io = (io', ok ())
     \<and> snd (load_one (\<lambda>_. 0) (\<lambda>_ _. [[0, 0, 0, 0]]) demo_job (demo_key 1) 5 (io'\<lparr>answers := [Did 1]\<rparr>)) = ok [1, 2, 3, 4]"
proof -
  have "\<exists>io'. store_chunk (\<lambda>_. 0) (\<lambda>_ _. [[1, 2], [3, 4]]) demo_job [(0, demo_key 1)] demo_io = (io', ok ())"
    by (rule store_chunk_succeeds) (use demo_hyps in \<open>simp_all add: storable_def demo_job_def\<close>)
  then obtain io' where s: "store_chunk (\<lambda>_. 0) (\<lambda>_ _. [[1, 2], [3, 4]]) demo_job [(0, demo_key 1)] demo_io = (io', ok ())" ..
  show ?thesis
    using s chunk_store_load_roundtrip [OF s, of 0 "demo_key 1" "\<lambda>_ _. [[0, 0, 0, 0]]" 5 "[Did 1]"] demo_hyps(7)
    by (simp add: slots_apart_def)
qed

section \<open>Group sizes\<close>

lemma gpu_sizes_count:
  "gpu_sizes grp ks sizes = ok out \<Longrightarrow> length out = length sizes
     \<and> (\<forall>g < length sizes. out ! g = sizes ! g + count_list (map grp ks) g)"
proof (induction ks arbitrary: sizes)
  case (Cons k ks)
  then have "grp k < length sizes" and r: "gpu_sizes grp ks (sizes[grp k := sizes ! grp k + 1]) = ok out"
    by (simp_all split: if_splits)
  then show ?case using Cons.IH [OF r] by (auto simp: nth_list_update)
qed simp

lemma sorted_by_counts:
  assumes "sorted xs" and "\<forall>x \<in> set xs. x < n"
  shows "concat (map (\<lambda>g. replicate (count_list xs g) g) [0..<n]) = (xs :: nat list)"
proof -
  let ?ys = "concat (map (\<lambda>g. replicate (count_list xs g) g) [0..<n])"
  have "sorted (concat (map (\<lambda>g. replicate (c g) g) [0..<m]))
      \<and> (\<forall>x \<in> set (concat (map (\<lambda>g. replicate (c g) g) [0..<m])). x < m)" for c :: "nat \<Rightarrow> nat" and m
  proof (induction m)
    case (Suc m)
    then show ?case by (auto simp: sorted_append less_Suc_eq intro: less_imp_le)
  qed simp
  then have s: "sorted ?ys" by blast
  have cc: "count_list (concat (map (\<lambda>g. replicate (c g) g) [0..<m])) x = (if x < m then c x else 0)" for c :: "nat \<Rightarrow> nat" and m x
  proof (induction m)
    case (Suc m)
    have "count_list (replicate n' y) x = (if x = y then n' else 0)" for n' and y :: nat
      by (induction n') auto
    then show ?case using Suc by (auto simp: less_Suc_eq)
  qed simp
  have "count_list xs x = 0" if "\<not> x < n" for x using that assms(2) by (auto simp: count_list_0_iff)
  then have "mset ?ys = mset xs" by (intro multiset_eqI) (simp only: count_mset cc, simp)
  then show ?thesis using s assms(1) properties_for_sort by metis
qed

text \<open>
  The copy streams place every GPU block in the group of its key. The stream reads the block ids
  of a transfer as consecutive runs, one per group, of the given sizes; for keys in group order, which
  is the order of a job's items and so of each chunk, \<^verbatim>\<open>_gpu_spec\<close> gives sizes under which position \<open>i\<close> falls
  into the run of the group of key \<open>i\<close>.
\<close>

theorem gpu_spec_group_runs:
  assumes "sorted (map grp keys)" and "\<forall>k \<in> set keys. grp k < ng"
  shows "\<exists>spec. make_gpu_spec grp ng keys ids = ok spec \<and> gs_ids spec = ids \<and> length (gs_sizes spec) = ng
     \<and> concat (map (\<lambda>g. replicate (gs_sizes spec ! g) g) [0..<ng]) = map grp keys"
proof -
  have "\<exists>out. gpu_sizes grp ks sizes = ok out" if "\<forall>k \<in> set ks. grp k < length sizes" for ks sizes
    using that by (induction ks arbitrary: sizes) auto
  then obtain out where out: "gpu_sizes grp keys (replicate ng 0) = ok out" using assms(2) by (metis length_replicate)
  have c: "length out = ng" "\<And>g. g < ng \<Longrightarrow> out ! g = count_list (map grp keys) g"
    using gpu_sizes_count [OF out] by simp_all
  have "concat (map (\<lambda>g. replicate (out ! g) g) [0..<ng]) = concat (map (\<lambda>g. replicate (count_list (map grp keys) g) g) [0..<ng])"
    using c(2) by (intro arg_cong [of _ _ concat] map_cong) simp_all
  also have "\<dots> = map grp keys" using assms by (intro sorted_by_counts) simp_all
  finally show ?thesis using out c(1) by (auto simp: make_gpu_spec_def)
qed

theorem gpu_spec_group_runs_witness:
  "\<exists>spec. make_gpu_spec length 3 [[1], [2], [1, 2]] [10, 11, 12] = ok spec \<and> gs_sizes spec = [0, 2, 1]
     \<and> concat (map (\<lambda>g. replicate (gs_sizes spec ! g) g) [0..<3]) = [1, 1, 2]"
  using gpu_spec_group_runs [of length "[[1], [2], [1, 2]]" 3 "[10, 11, 12]"]
  by (simp add: make_gpu_spec_def numeral_3_eq_3)

end
