(* ===== verification/Bounce_Inv.thy ===== *)
theory Bounce_Inv
  imports Bounce
begin

text \<open>
  The invariant of the transfer engine: bounce slots are conserved and lent to one chunk each, every
  sub-job in flight belongs to exactly one chunk of one job, and the counters of a job add up. It is
  kept by every step of a pump, none of which raises.
\<close>

section \<open>Sums over jobs\<close>

definition sumj :: "(direct_job \<Rightarrow> 'a multiset) \<Rightarrow> (int, direct_job) odict \<Rightarrow> 'a multiset" where
  "sumj F js = (\<Sum>p\<in>#mset js. F (snd p))"

lemma sumj_simps [simp]: "sumj F [] = {#}" "sumj F ((i, j) # js) = F j + sumj F js"
  by (simp_all add: sumj_def)

lemma in_sumj: "x \<in># sumj F js \<longleftrightarrow> (\<exists>(i, j) \<in> set js. x \<in># F j)"
  by (induction js) (auto simp: sumj_def)

lemma sumj_empty_iff: "sumj F js = {#} \<longleftrightarrow> (\<forall>(i, j) \<in> set js. F j = {#})"
  by (induction js) (auto simp: sumj_def)

lemma mset_concat_map: "mset (concat (map f xs)) = (\<Sum>p\<in>#mset xs. mset (f p))"
  by (induction xs) simp_all

lemma sumj_mset: "mset js = mset js' \<Longrightarrow> sumj F js = sumj F js'"
  by (simp add: sumj_def)

lemma set_delete_subset: "set (AList.delete i js) \<subseteq> set js"
  by (auto simp: AList.delete_eq)

lemma mset_split:
  "od_wf js \<Longrightarrow> map_of js i = Some j \<Longrightarrow> mset js = mset ((i, j) # AList.delete i js)"
  using mset_delete by simp

lemma mset_updated:
  assumes "od_wf js" and "map_of js i = Some j"
  shows "mset (AList.update i j' js) = mset ((i, j') # AList.delete i js)"
  using mset_split [of "AList.update i j' js" i j'] assms by (simp add: map_of_update)

section \<open>The invariant\<close>

definition jslots :: "direct_job \<Rightarrow> nat multiset" where
  "jslots j = (\<Sum>p\<in>#mset (dj_copies j). mset (map fst (snd p))) + (\<Sum>p\<in>#mset (dj_reads j). mset (fst (snd p)))"

definition subs :: "direct_job \<Rightarrow> (nat \<times> int) multiset" where
  "subs j = image_mset (\<lambda>p. (fst p, dj_id j)) (mset (dj_copies j)) + image_mset (\<lambda>p. (fst p, dj_id j)) (mset (dj_reads j))"

definition copy_ids :: "direct_job \<Rightarrow> nat multiset" where
  "copy_ids j = image_mset fst (mset (dj_copies j))"

definition read_ids :: "direct_job \<Rightarrow> nat multiset" where
  "read_ids j = image_mset fst (mset (dj_reads j))"

definition job_shape :: "(key \<Rightarrow> nat) \<Rightarrow> nat \<Rightarrow> direct_job \<Rightarrow> bool" where
  "job_shape grp ng j =
     (od_wf (dj_copies j) \<and> od_wf (dj_reads j)
      \<and> (dj_store j \<longrightarrow> dj_reads j = []) \<and> (\<not> dj_store j \<longrightarrow> dj_copies j = [])
      \<and> (\<forall>p \<in> set (dj_copies j). snd p \<noteq> []) \<and> (\<forall>p \<in> set (dj_reads j). fst (snd p) \<noteq> [])
      \<and> (\<forall>k \<in> fst ` set (dj_items j). grp k < ng)
      \<and> (\<forall>p \<in> set (dj_reads j). set (snd (snd (snd p))) \<subseteq> fst ` set (dj_items j))
      \<and> dj_next j \<le> length (dj_items j) \<and> dj_done j < length (dj_items j))"

definition job_ok :: "(key \<Rightarrow> nat) \<Rightarrow> nat \<Rightarrow> direct_job \<Rightarrow> bool" where
  "job_ok grp ng j = (job_shape grp ng j \<and> dj_done j + size (jslots j) = dj_next j)"

definition jobs_ok :: "(key \<Rightarrow> nat) \<Rightarrow> nat \<Rightarrow> (int, direct_job) odict \<Rightarrow> bool" where
  "jobs_ok grp ng js = (od_wf js \<and> (\<forall>p \<in> set js. dj_id (snd p) = fst p \<and> job_ok grp ng (snd p)))"

text \<open>
  \<open>X\<close> and \<open>Y\<close> are sub-jobs reported but not yet handled, \<open>E\<close> slots in the hands of the running step.
\<close>

definition core :: "nat \<Rightarrow> nat multiset \<Rightarrow> nat multiset \<Rightarrow> nat multiset \<Rightarrow> (int, direct_job) odict \<Rightarrow> bounce \<Rightarrow> bool" where
  "core nb X Y E js s =
     (od_wf (b_sub_to_job s) \<and> (\<forall>sid \<in> set (od_keys (b_sub_to_job s)). sid \<le> b_sub s)
      \<and> mset (b_free s) + E + sumj jslots js = mset [0..<nb]
      \<and> mset (b_sub_to_job s) = sumj subs js
      \<and> sumj copy_ids js = mset (map fst (b_g2b s)) + mset (map fst (b_writes s)) + X
      \<and> sumj read_ids js = mset (map fst (b_reads s)) + mset (map fst (b_b2g s)) + Y)"

definition binv :: "(key \<Rightarrow> nat) \<Rightarrow> nat \<Rightarrow> nat \<Rightarrow> nat multiset \<Rightarrow> nat multiset \<Rightarrow> bounce \<Rightarrow> bool" where
  "binv grp ng nb X Y s = (jobs_ok grp ng (b_jobs s) \<and> core nb X Y {#} (b_jobs s) s)"

lemma core_mset: "mset js = mset js' \<Longrightarrow> core nb X Y E js s = core nb X Y E js' s"
  by (simp add: core_def sumj_mset [of js js'])

lemma binv_split:
  assumes "binv grp ng nb X Y s" and "map_of (b_jobs s) i = Some j"
  shows "core nb X Y {#} ((i, j) # AList.delete i (b_jobs s)) s" and "dj_id j = i" and "job_ok grp ng j"
    and "jobs_ok grp ng (AList.delete i (b_jobs s))" and "od_wf (b_jobs s)"
proof -
  show wf: "od_wf (b_jobs s)" using assms(1) by (simp add: binv_def jobs_ok_def)
  have c: "core nb X Y {#} (b_jobs s) s" and js: "\<forall>p \<in> set (b_jobs s). dj_id (snd p) = fst p \<and> job_ok grp ng (snd p)"
    using assms(1) by (simp_all add: binv_def jobs_ok_def)
  show "core nb X Y {#} ((i, j) # AList.delete i (b_jobs s)) s"
    using c core_mset [OF mset_split [OF wf assms(2)]] by blast
  have "(i, j) \<in> set (b_jobs s)" using assms(2) by (rule map_of_SomeD)
  then show "dj_id j = i" "job_ok grp ng j" using js by auto
  show "jobs_ok grp ng (AList.delete i (b_jobs s))"
    using js wf set_delete_subset [of i "b_jobs s"] by (auto simp: jobs_ok_def)
qed

text \<open>Putting a changed job back.\<close>

lemma binv_set_job:
  assumes "map_of (b_jobs s) i = Some j" and "od_wf (b_jobs s)" and "jobs_ok grp ng (AList.delete i (b_jobs s))"
    and "dj_id j' = i" and "job_ok grp ng j'" and "core nb X Y {#} ((i, j') # AList.delete i (b_jobs s)) s"
  shows "binv grp ng nb X Y (set_job j' s)"
proof -
  let ?js = "AList.update i j' (b_jobs s)"
  have m: "mset ?js = mset ((i, j') # AList.delete i (b_jobs s))" using mset_updated [OF assms(2,1)] .
  have "set ?js = set ((i, j') # AList.delete i (b_jobs s))" using m by (metis set_mset_mset)
  then have "jobs_ok grp ng ?js" using assms(2-5) by (auto simp: jobs_ok_def)
  moreover have "core nb X Y {#} ?js s" using assms(6) core_mset [OF m] by blast
  ultimately show ?thesis by (simp add: binv_def set_job_def assms(4) core_def)
qed

section \<open>Moving a chunk\<close>

lemma core_locate:
  assumes c: "core nb X Y E js s" and ok: "jobs_ok grp ng js" and "sid \<in># sumj ids js"
    and sub: "\<And>j. sid \<in># ids j \<Longrightarrow> (sid, dj_id j) \<in># subs j"
  obtains i j where "map_of js i = Some j" "map_of (b_sub_to_job s) sid = Some i" "sid \<in># ids j"
proof -
  obtain i j where ij: "(i, j) \<in> set js" "sid \<in># ids j" using assms(3) by (auto simp: in_sumj)
  have wf: "od_wf js" and id: "dj_id j = i" using ok ij(1) by (auto simp: jobs_ok_def)
  have "(sid, i) \<in># sumj subs js" using sub [OF ij(2)] id ij(1) by (auto simp: in_sumj)
  then have "(sid, i) \<in> set (b_sub_to_job s)" using c by (metis core_def set_mset_mset)
  then have "map_of (b_sub_to_job s) sid = Some i" using c by (simp add: core_def od_wf_def od_keys_def)
  moreover have "map_of js i = Some j" using wf ij(1) by (simp add: od_wf_def od_keys_def)
  ultimately show ?thesis using ij(2) that by blast
qed

lemma sub_copy: "sid \<in># copy_ids j \<Longrightarrow> (sid, dj_id j) \<in># subs j"
  by (auto simp: subs_def copy_ids_def)

lemma sub_read: "sid \<in># read_ids j \<Longrightarrow> (sid, dj_id j) \<in># subs j"
  by (auto simp: subs_def read_ids_def)

lemma copy_ids_map: "sid \<in># copy_ids j \<Longrightarrow> od_wf (dj_copies j) \<Longrightarrow> \<exists>ch. map_of (dj_copies j) sid = Some ch"
  by (cases "map_of (dj_copies j) sid") (auto simp: copy_ids_def map_of_eq_None_iff)

lemma read_ids_map: "sid \<in># read_ids j \<Longrightarrow> od_wf (dj_reads j) \<Longrightarrow> \<exists>ch. map_of (dj_reads j) sid = Some ch"
  by (cases "map_of (dj_reads j) sid") (auto simp: read_ids_def map_of_eq_None_iff)

lemma core_remove_copy:
  assumes c: "core nb (add_mset sid X) Y E ((i, j) # R) s" and "dj_id j = i" and wf: "od_wf (dj_copies j)"
    and ch: "map_of (dj_copies j) sid = Some ch" and sub: "map_of (b_sub_to_job s) sid = Some i"
  shows "core nb X Y (E + mset (map fst ch)) ((i, j\<lparr>dj_copies := AList.delete sid (dj_copies j)\<rparr>) # R)
           (s\<lparr>b_sub_to_job := AList.delete sid (b_sub_to_job s)\<rparr>)"
proof -
  have wfs: "od_wf (b_sub_to_job s)" using c by (simp add: core_def)
  note mc = mset_delete [OF wf ch] and ms = mset_delete [OF wfs sub]
  show ?thesis
    using c assms(2) unfolding core_def ms
    by (simp add: jslots_def subs_def copy_ids_def read_ids_def mc ac_simps od_keys_delete)
qed

lemma core_remove_read:
  assumes c: "core nb X (add_mset sid Y) E ((i, j) # R) s" and "dj_id j = i" and wf: "od_wf (dj_reads j)"
    and ch: "map_of (dj_reads j) sid = Some ch" and sub: "map_of (b_sub_to_job s) sid = Some i"
  shows "core nb X Y (E + mset (fst ch)) ((i, j\<lparr>dj_reads := AList.delete sid (dj_reads j)\<rparr>) # R)
           (s\<lparr>b_sub_to_job := AList.delete sid (b_sub_to_job s)\<rparr>)"
proof -
  have wfs: "od_wf (b_sub_to_job s)" using c by (simp add: core_def)
  note mc = mset_delete [OF wf ch] and ms = mset_delete [OF wfs sub]
  show ?thesis
    using c assms(2) unfolding core_def ms
    by (simp add: jslots_def subs_def copy_ids_def read_ids_def mc ac_simps od_keys_delete)
qed

lemma core_fresh:
  assumes "core nb X Y E ((i, j) # R) s" and "dj_id j = i"
  shows "map_of (b_sub_to_job s) (Suc (b_sub s)) = None" and "map_of (dj_copies j) (Suc (b_sub s)) = None"
    and "map_of (dj_reads j) (Suc (b_sub s)) = None"
proof -
  have le: "\<forall>sid \<in> set (od_keys (b_sub_to_job s)). sid \<le> b_sub s"
    and m: "mset (b_sub_to_job s) = subs j + sumj subs R" using assms(1) by (simp_all add: core_def)
  show "map_of (b_sub_to_job s) (Suc (b_sub s)) = None" using le by (auto simp: map_of_None_iff)
  have "sid \<le> b_sub s" if "(sid, i) \<in># subs j" for sid
  proof -
    have "(sid, i) \<in># mset (b_sub_to_job s)" using that m by simp
    then show ?thesis using le by (auto simp: od_keys_def)
  qed
  then show "map_of (dj_copies j) (Suc (b_sub s)) = None" and "map_of (dj_reads j) (Suc (b_sub s)) = None"
    using sub_copy [of "Suc (b_sub s)" j] sub_read [of "Suc (b_sub s)" j] assms(2)
    by (fastforce simp: map_of_None_iff od_keys_def copy_ids_def read_ids_def)+
qed

lemma core_add_copy:
  assumes c: "core nb X Y (E + mset (map fst ch)) ((i, j) # R) s" and id: "dj_id j = i" "dj_id k = i"
  shows "core nb (add_mset (Suc (b_sub s)) X) Y E
           ((i, j\<lparr>dj_copies := AList.update (Suc (b_sub s)) ch (dj_copies j)\<rparr>) # R) (fst (new_sub k s))"
  using c id core_fresh [OF c id(1)]
  unfolding core_def
  by (simp add: new_sub_def Let_def update_absent jslots_def subs_def copy_ids_def read_ids_def ac_simps
      od_wf_def od_keys_def map_of_None_iff le_SucI)

lemma core_add_read:
  assumes c: "core nb X Y (E + mset (fst ch)) ((i, j) # R) s" and id: "dj_id j = i" "dj_id k = i"
  shows "core nb X (add_mset (Suc (b_sub s)) Y) E
           ((i, j\<lparr>dj_reads := AList.update (Suc (b_sub s)) ch (dj_reads j)\<rparr>) # R) (fst (new_sub k s))"
  using c id core_fresh [OF c id(1)]
  unfolding core_def
  by (simp add: new_sub_def Let_def update_absent jslots_def subs_def copy_ids_def read_ids_def ac_simps
      od_wf_def od_keys_def map_of_None_iff le_SucI)

text \<open>Handing a sub-job to a queue, and taking reported ones off.\<close>

lemma binv_enqueue:
  "binv grp ng nb (add_mset sid X) Y s \<Longrightarrow> binv grp ng nb X Y (s\<lparr>b_g2b := b_g2b s @ [(sid, c)]\<rparr>)"
  "binv grp ng nb (add_mset sid X) Y s \<Longrightarrow> binv grp ng nb X Y (s\<lparr>b_writes := b_writes s @ [(sid, d)]\<rparr>)"
  "binv grp ng nb X (add_mset sid Y) s \<Longrightarrow> binv grp ng nb X Y (s\<lparr>b_reads := b_reads s @ [(sid, e)]\<rparr>)"
  "binv grp ng nb X (add_mset sid Y) s \<Longrightarrow> binv grp ng nb X Y (s\<lparr>b_b2g := b_b2g s @ [(sid, f)]\<rparr>)"
  by (simp_all add: binv_def core_def)

lemma queue_poll:
  assumes "distinct ids" and "set ids \<subseteq> fst ` set q" and "distinct (map fst q)"
  shows "mset (map fst (filter (\<lambda>c. fst c \<notin> set ids) q)) + mset ids = mset (map fst q)"
proof -
  have e: "map fst (filter (\<lambda>c. fst c \<notin> set ids) q) = filter (\<lambda>x. x \<notin> set ids) (map fst q)"
    by (simp add: filter_map comp_def)
  have "distinct (filter (\<lambda>x. x \<notin> set ids) (map fst q) @ ids)" using assms(1,3) by auto
  moreover have "set (filter (\<lambda>x. x \<notin> set ids) (map fst q) @ ids) = set (map fst q)" using assms(2) by auto
  ultimately show ?thesis
    using set_eq_iff_mset_eq_distinct [OF _ assms(3)] e by (metis mset_append)
qed

section \<open>The steps of a pump\<close>

lemma empty_job:
  assumes "job_shape grp ng j" and "size (jslots j) = 0"
  shows "dj_copies j = []" "dj_reads j = []"
proof -
  have z: "jslots j = {#}" using assms(2) by simp
  show "dj_copies j = []"
    using assms(1) z by (cases "dj_copies j") (auto simp: job_shape_def jslots_def)
  show "dj_reads j = []"
    using assms(1) z by (cases "dj_reads j") (auto simp: job_shape_def jslots_def)
qed

lemma settle_binv:
  assumes j: "map_of (b_jobs s) i = Some j" and wf: "od_wf (b_jobs s)" and R: "jobs_ok grp ng (AList.delete i (b_jobs s))"
    and id: "dj_id j1 = i" and sh: "job_shape grp ng j1"
    and n: "dj_done j1 + length sl + size (jslots j1) = dj_next j1"
    and c: "core nb X Y (mset sl) ((i, j1) # AList.delete i (b_jobs s)) s"
  shows "binv grp ng nb X Y (settle sl j1 s)"
proof (cases "dj_done j1 + length sl = length (dj_items j1)")
  case True
  moreover have "dj_next j1 \<le> length (dj_items j1)" using sh by (simp add: job_shape_def)
  ultimately have "size (jslots j1) = 0" using n by linarith
  from empty_job [OF sh this] have e: "jslots j1 = {#}" "subs j1 = {#}" "copy_ids j1 = {#}" "read_ids j1 = {#}"
    by (simp_all add: jslots_def subs_def copy_ids_def read_ids_def)
  have "core nb X Y {#} (AList.delete i (b_jobs s)) (s\<lparr>b_free := b_free s @ sl\<rparr>)"
    using c by (simp add: core_def e)
  then show ?thesis
    using R True id by (auto simp: settle_def Let_def finish_def binv_def core_def)
next
  case False
  let ?j = "j1\<lparr>dj_done := dj_done j1 + length sl\<rparr>" let ?s = "s\<lparr>b_free := b_free s @ sl\<rparr>"
  have "dj_done j1 + length sl < length (dj_items j1)" using n sh False by (simp add: job_shape_def)
  then have ok: "job_ok grp ng ?j" using sh n by (simp add: job_ok_def job_shape_def jslots_def)
  have "core nb X Y {#} ((i, ?j) # AList.delete i (b_jobs s)) ?s"
    using c by (simp add: core_def jslots_def subs_def copy_ids_def read_ids_def ac_simps)
  then have "binv grp ng nb X Y (set_job ?j ?s)"
    using binv_set_job [of ?s i j grp ng ?j] j wf R id ok by simp
  then show ?thesis using False by (simp add: settle_def Let_def)
qed

text \<open>What popping a reported sub-job finds.\<close>

lemma pop_copy:
  assumes inv: "binv grp ng nb (add_mset sid X) Y s"
  obtains i j ch where "map_of (b_jobs s) i = Some j" "dj_id j = i" "map_of (dj_copies j) sid = Some ch"
    "pop_job sid s = (s\<lparr>b_sub_to_job := AList.delete sid (b_sub_to_job s)\<rparr>, Some j)"
    "core nb X Y (mset (map fst ch)) ((i, j\<lparr>dj_copies := AList.delete sid (dj_copies j)\<rparr>) # AList.delete i (b_jobs s))
       (s\<lparr>b_sub_to_job := AList.delete sid (b_sub_to_job s)\<rparr>)"
proof -
  have c: "core nb (add_mset sid X) Y {#} (b_jobs s) s" and ok: "jobs_ok grp ng (b_jobs s)"
    using inv by (simp_all add: binv_def)
  have "sid \<in># sumj copy_ids (b_jobs s)" using c by (simp add: core_def)
  from core_locate [OF c ok this sub_copy] obtain i j where
    ij: "map_of (b_jobs s) i = Some j" "map_of (b_sub_to_job s) sid = Some i" "sid \<in># copy_ids j" by blast
  note sp = binv_split [OF inv ij(1)]
  have wf: "od_wf (dj_copies j)" using sp(3) by (simp add: job_ok_def job_shape_def)
  then obtain ch where ch: "map_of (dj_copies j) sid = Some ch" using copy_ids_map [OF ij(3)] by blast
  have "pop_job sid s = (s\<lparr>b_sub_to_job := AList.delete sid (b_sub_to_job s)\<rparr>, Some j)"
    using ij by (simp add: pop_job_def Let_def)
  then show ?thesis
    using that [OF ij(1) sp(2) ch] core_remove_copy [OF sp(1,2) wf ch ij(2)] by simp
qed

lemma pop_read:
  assumes inv: "binv grp ng nb X (add_mset sid Y) s"
  obtains i j ch where "map_of (b_jobs s) i = Some j" "dj_id j = i" "map_of (dj_reads j) sid = Some ch"
    "pop_job sid s = (s\<lparr>b_sub_to_job := AList.delete sid (b_sub_to_job s)\<rparr>, Some j)"
    "core nb X Y (mset (fst ch)) ((i, j\<lparr>dj_reads := AList.delete sid (dj_reads j)\<rparr>) # AList.delete i (b_jobs s))
       (s\<lparr>b_sub_to_job := AList.delete sid (b_sub_to_job s)\<rparr>)"
proof -
  have c: "core nb X (add_mset sid Y) {#} (b_jobs s) s" and ok: "jobs_ok grp ng (b_jobs s)"
    using inv by (simp_all add: binv_def)
  have "sid \<in># sumj read_ids (b_jobs s)" using c by (simp add: core_def)
  from core_locate [OF c ok this sub_read] obtain i j where
    ij: "map_of (b_jobs s) i = Some j" "map_of (b_sub_to_job s) sid = Some i" "sid \<in># read_ids j" by blast
  note sp = binv_split [OF inv ij(1)]
  have wf: "od_wf (dj_reads j)" using sp(3) by (simp add: job_ok_def job_shape_def)
  then obtain ch where ch: "map_of (dj_reads j) sid = Some ch" using read_ids_map [OF ij(3)] by blast
  have "pop_job sid s = (s\<lparr>b_sub_to_job := AList.delete sid (b_sub_to_job s)\<rparr>, Some j)"
    using ij by (simp add: pop_job_def Let_def)
  then show ?thesis
    using that [OF ij(1) sp(2) ch] core_remove_read [OF sp(1,2) wf ch ij(2)] by simp
qed

text \<open>A job without one of its entries.\<close>

lemma job_drop_copy:
  assumes "job_ok grp ng j" and ch: "map_of (dj_copies j) sid = Some ch"
  defines "j1 \<equiv> j\<lparr>dj_copies := AList.delete sid (dj_copies j)\<rparr>"
  shows "job_shape grp ng j1" and "dj_done j1 + length ch + size (jslots j1) = dj_next j1" and "ch \<noteq> []" and "dj_store j"
proof -
  have sh: "job_shape grp ng j" and wf: "od_wf (dj_copies j)" using assms(1) by (simp_all add: job_ok_def job_shape_def)
  note m = mset_delete [OF wf ch]
  show "job_shape grp ng j1"
    using sh set_delete_subset [of sid "dj_copies j"] by (auto simp: job_shape_def j1_def)
  show "dj_done j1 + length ch + size (jslots j1) = dj_next j1"
    using assms(1) by (simp add: job_ok_def jslots_def m j1_def)
  show "ch \<noteq> []" "dj_store j" using sh map_of_SomeD [OF ch] by (auto simp: job_shape_def)
qed

lemma job_drop_read:
  assumes "job_ok grp ng j" and ch: "map_of (dj_reads j) sid = Some ch"
  defines "j1 \<equiv> j\<lparr>dj_reads := AList.delete sid (dj_reads j)\<rparr>"
  shows "job_shape grp ng j1" and "dj_done j1 + length (fst ch) + size (jslots j1) = dj_next j1"
    and "fst ch \<noteq> []" and "\<forall>k \<in> set (snd (snd ch)). grp k < ng" and "\<not> dj_store j"
    and "set (snd (snd ch)) \<subseteq> fst ` set (dj_items j)"
proof -
  have sh: "job_shape grp ng j" and wf: "od_wf (dj_reads j)" using assms(1) by (simp_all add: job_ok_def job_shape_def)
  note m = mset_delete [OF wf ch] and in_set = map_of_SomeD [OF ch]
  show "job_shape grp ng j1"
    using sh set_delete_subset [of sid "dj_reads j"] by (auto simp: job_shape_def j1_def)
  show "dj_done j1 + length (fst ch) + size (jslots j1) = dj_next j1"
    using assms(1) by (simp add: job_ok_def jslots_def m j1_def)
  show "fst ch \<noteq> []" and "\<not> dj_store j" using sh in_set by (auto simp: job_shape_def)
  have "\<forall>p \<in> set (dj_reads j). set (snd (snd (snd p))) \<subseteq> fst ` set (dj_items j)" using sh unfolding job_shape_def by blast
  from bspec [OF this in_set] show k: "set (snd (snd ch)) \<subseteq> fst ` set (dj_items j)" by simp
  have "\<forall>k \<in> fst ` set (dj_items j). grp k < ng" using sh by (simp add: job_shape_def)
  then show "\<forall>k \<in> set (snd (snd ch)). grp k < ng" using k by blast
qed

text \<open>A job with one more entry.\<close>

lemma job_add_copy:
  assumes sh: "job_shape grp ng j" and n: "dj_done j + length ch + size (jslots j) = dj_next j" and ne: "ch \<noteq> []"
    and st: "dj_store j" and fresh: "map_of (dj_copies j) sid = None"
  shows "job_ok grp ng (j\<lparr>dj_copies := AList.update sid ch (dj_copies j)\<rparr>)"
proof -
  let ?j = "j\<lparr>dj_copies := AList.update sid ch (dj_copies j)\<rparr>"
  have "jslots ?j = jslots j + mset (map fst ch)" using fresh by (simp add: jslots_def update_absent ac_simps)
  then have "dj_done ?j + size (jslots ?j) = dj_next ?j" using n by simp
  moreover have "job_shape grp ng ?j"
    using sh ne st od_wf_update [of "dj_copies j" sid ch] update_absent [OF fresh, of ch] by (simp add: job_shape_def)
  ultimately show ?thesis by (simp add: job_ok_def)
qed

lemma job_add_read:
  assumes sh: "job_shape grp ng j" and n: "dj_done j + length (fst ch) + size (jslots j) = dj_next j" and ne: "fst ch \<noteq> []"
    and st: "\<not> dj_store j" and fresh: "map_of (dj_reads j) sid = None"
    and keys: "set (snd (snd ch)) \<subseteq> fst ` set (dj_items j)"
  shows "job_ok grp ng (j\<lparr>dj_reads := AList.update sid ch (dj_reads j)\<rparr>)"
proof -
  let ?j = "j\<lparr>dj_reads := AList.update sid ch (dj_reads j)\<rparr>"
  have "jslots ?j = jslots j + mset (fst ch)" using fresh by (simp add: jslots_def update_absent ac_simps)
  then have "dj_done ?j + size (jslots ?j) = dj_next ?j" using n by simp
  moreover have "job_shape grp ng ?j"
    using sh ne st keys od_wf_update [of "dj_reads j" sid ch] update_absent [OF fresh, of ch] by (simp add: job_shape_def)
  ultimately show ?thesis by (simp add: job_ok_def)
qed

lemma copied_out_binv:
  assumes inv: "binv grp ng nb (add_mset sid X) Y s"
  shows "snd (copied_out sid s) = ok ()" and "binv grp ng nb X Y (fst (copied_out sid s))"
proof -
  obtain i j ch where p: "map_of (b_jobs s) i = Some j" "dj_id j = i" "map_of (dj_copies j) sid = Some ch"
    "pop_job sid s = (s\<lparr>b_sub_to_job := AList.delete sid (b_sub_to_job s)\<rparr>, Some j)"
    "core nb X Y (mset (map fst ch)) ((i, j\<lparr>dj_copies := AList.delete sid (dj_copies j)\<rparr>) # AList.delete i (b_jobs s))
       (s\<lparr>b_sub_to_job := AList.delete sid (b_sub_to_job s)\<rparr>)"
    by (rule pop_copy [OF inv])
  let ?s1 = "s\<lparr>b_sub_to_job := AList.delete sid (b_sub_to_job s)\<rparr>" let ?wid = "Suc (b_sub s)"
  let ?j0 = "j\<lparr>dj_copies := AList.delete sid (dj_copies j)\<rparr>"
  let ?j1 = "j\<lparr>dj_copies := AList.update ?wid ch (AList.delete sid (dj_copies j))\<rparr>"
  note sp = binv_split [OF inv p(1)]
  note d = job_drop_copy [OF sp(3) p(3)]
  have fresh: "map_of (AList.delete sid (dj_copies j)) ?wid = None" using core_fresh(2) [OF p(5)] p(2) by simp
  have ok1: "job_ok grp ng ?j1" using job_add_copy [OF d(1,2,3)] d(4) fresh by simp
  have "core nb (add_mset ?wid X) Y {#} ((i, ?j1) # AList.delete i (b_jobs s)) (fst (new_sub j ?s1))"
    using core_add_copy [of nb X Y "{#}" ch i ?j0 "AList.delete i (b_jobs s)" ?s1 j] p(2,5) by simp
  then have "binv grp ng nb (add_mset ?wid X) Y (set_job ?j1 (fst (new_sub j ?s1)))"
    using binv_set_job [of "fst (new_sub j ?s1)" i j grp ng ?j1] p(1,2) sp(4,5) ok1 by (simp add: new_sub_def Let_def)
  then have r: "binv grp ng nb X Y ((set_job ?j1 (fst (new_sub j ?s1)))\<lparr>b_writes := b_writes (set_job ?j1 (fst (new_sub j ?s1))) @ [(?wid, ?j1, ch)]\<rparr>)" by (rule binv_enqueue(2))
  have run: "copied_out sid s = ((set_job ?j1 (fst (new_sub j ?s1)))\<lparr>b_writes := b_writes (set_job ?j1 (fst (new_sub j ?s1))) @ [(?wid, ?j1, ch)]\<rparr>, ok ())"
    using p(3,4) by (simp add: copied_out_def new_sub_def Let_def)
  show "snd (copied_out sid s) = ok ()" and "binv grp ng nb X Y (fst (copied_out sid s))"
    using r unfolding run by simp_all
qed

lemma written_binv:
  assumes inv: "binv grp ng nb (add_mset sid X) Y s"
  shows "snd (written (sid, success) s) = ok ()" and "binv grp ng nb X Y (fst (written (sid, success) s))"
proof -
  obtain i j ch where p: "map_of (b_jobs s) i = Some j" "dj_id j = i" "map_of (dj_copies j) sid = Some ch"
    "pop_job sid s = (s\<lparr>b_sub_to_job := AList.delete sid (b_sub_to_job s)\<rparr>, Some j)"
    "core nb X Y (mset (map fst ch)) ((i, j\<lparr>dj_copies := AList.delete sid (dj_copies j)\<rparr>) # AList.delete i (b_jobs s))
       (s\<lparr>b_sub_to_job := AList.delete sid (b_sub_to_job s)\<rparr>)"
    by (rule pop_copy [OF inv])
  let ?s1 = "s\<lparr>b_sub_to_job := AList.delete sid (b_sub_to_job s)\<rparr>"
  let ?j1 = "j\<lparr>dj_copies := AList.delete sid (dj_copies j), dj_failed := (dj_failed j \<or> \<not> success)\<rparr>"
  note sp = binv_split [OF inv p(1)]
  note d = job_drop_copy [OF sp(3) p(3)]
  have sh: "job_shape grp ng ?j1" and n: "dj_done ?j1 + length (map fst ch) + size (jslots ?j1) = dj_next ?j1"
    using d(1,2) by (simp_all add: job_shape_def jslots_def)
  have c: "core nb X Y (mset (map fst ch)) ((i, ?j1) # AList.delete i (b_jobs ?s1)) ?s1"
    using p(5) by (simp add: core_def jslots_def subs_def copy_ids_def read_ids_def)
  have run: "written (sid, success) s = (settle (map fst ch) ?j1 ?s1, ok ())"
    using p(3,4) by (simp add: written_def)
  have "binv grp ng nb X Y (settle (map fst ch) ?j1 ?s1)"
    by (rule settle_binv [OF _ _ _ _ sh n c]) (use p(1,2) sp(4,5) in simp_all)
  then show "snd (written (sid, success) s) = ok ()" and "binv grp ng nb X Y (fst (written (sid, success) s))"
    unfolding run by simp_all
qed

lemma gpu_sizes_ok: "\<forall>k \<in> set ks. grp k < length sizes \<Longrightarrow> \<exists>out. gpu_sizes grp ks sizes = ok out"
  by (induction ks arbitrary: sizes) auto

lemma make_gpu_spec_ok: "\<forall>k \<in> set ks. grp k < ng \<Longrightarrow> \<exists>spec. make_gpu_spec grp ng ks ids = ok spec"
  using gpu_sizes_ok [of ks grp "replicate ng 0"] by (auto simp: make_gpu_spec_def)

lemma read_done_binv:
  assumes inv: "binv grp ng nb X (add_mset sid Y) s" and acc: "\<forall>i. acc i"
  shows "snd (read_done acc grp ng (sid, success) s) = ok ()"
    and "binv grp ng nb X Y (fst (read_done acc grp ng (sid, success) s))"
proof -
  obtain i j ch where p: "map_of (b_jobs s) i = Some j" "dj_id j = i" "map_of (dj_reads j) sid = Some ch"
    "pop_job sid s = (s\<lparr>b_sub_to_job := AList.delete sid (b_sub_to_job s)\<rparr>, Some j)"
    "core nb X Y (mset (fst ch)) ((i, j\<lparr>dj_reads := AList.delete sid (dj_reads j)\<rparr>) # AList.delete i (b_jobs s))
       (s\<lparr>b_sub_to_job := AList.delete sid (b_sub_to_job s)\<rparr>)"
    by (rule pop_read [OF inv])
  obtain sl ids ks where ch: "ch = (sl, ids, ks)" by (cases ch)
  let ?s1 = "s\<lparr>b_sub_to_job := AList.delete sid (b_sub_to_job s)\<rparr>" let ?cid = "Suc (b_sub s)"
  let ?j0 = "j\<lparr>dj_reads := AList.delete sid (dj_reads j)\<rparr>"
  note sp = binv_split [OF inv p(1)]
  note d = job_drop_read [OF sp(3) p(3), unfolded ch fst_conv snd_conv]
  have "snd (read_done acc grp ng (sid, success) s) = ok ()
      \<and> binv grp ng nb X Y (fst (read_done acc grp ng (sid, success) s))"
  proof (cases success)
    case False
    let ?j1 = "?j0\<lparr>dj_failed := True\<rparr>" let ?s2 = "?s1\<lparr>b_failed_gpu := b_failed_gpu s \<union> set ids\<rparr>"
    have sh: "job_shape grp ng ?j1" and n: "dj_done ?j1 + length sl + size (jslots ?j1) = dj_next ?j1"
      using d(1,2) by (simp_all add: job_shape_def jslots_def)
    have c: "core nb X Y (mset sl) ((i, ?j1) # AList.delete i (b_jobs ?s2)) ?s2"
      using p(5) by (simp add: ch core_def jslots_def subs_def copy_ids_def read_ids_def)
    have run: "read_done acc grp ng (sid, success) s = (settle sl ?j1 ?s2, ok ())"
      using p(3,4) False by (simp add: ch read_done_def)
    have "binv grp ng nb X Y (settle sl ?j1 ?s2)"
      by (rule settle_binv [OF _ _ _ _ sh n c]) (use p(1,2) sp(4,5) in simp_all)
    then show ?thesis unfolding run by simp
  next
    case True
    let ?j1 = "j\<lparr>dj_reads := AList.update ?cid (sl, ids, ks) (AList.delete sid (dj_reads j))\<rparr>"
    let ?s3 = "set_job ?j1 (fst (new_sub j ?s1))"
    obtain spec where spec: "make_gpu_spec grp ng ks ids = ok spec" using make_gpu_spec_ok [OF d(4)] by blast
    have fresh: "map_of (AList.delete sid (dj_reads j)) ?cid = None" using core_fresh(3) [OF p(5)] p(2) by simp
    have ok1: "job_ok grp ng ?j1"
      using job_add_read [of grp ng ?j0 "(sl, ids, ks)" ?cid] d fresh by simp
    have "core nb X (add_mset ?cid Y) {#} ((i, ?j1) # AList.delete i (b_jobs s)) (fst (new_sub j ?s1))"
      using core_add_read [of nb X Y "{#}" "(sl, ids, ks)" i ?j0 "AList.delete i (b_jobs s)" ?s1 j] p(2,5) by (simp add: ch)
    then have "binv grp ng nb X (add_mset ?cid Y) ?s3"
      using binv_set_job [of "fst (new_sub j ?s1)" i j grp ng ?j1] p(1,2) sp(4,5) ok1 by (simp add: new_sub_def Let_def)
    then have r: "binv grp ng nb X Y (?s3\<lparr>b_b2g := b_b2g ?s3 @ [(?cid, sl, spec)]\<rparr>)" by (rule binv_enqueue(4))
    have run: "read_done acc grp ng (sid, success) s = (?s3\<lparr>b_b2g := b_b2g ?s3 @ [(?cid, sl, spec)]\<rparr>, ok ())"
      using p(3,4) True acc spec by (simp add: ch read_done_def new_sub_def Let_def)
    show ?thesis using r unfolding run by simp
  qed
  then show "snd (read_done acc grp ng (sid, success) s) = ok ()"
    and "binv grp ng nb X Y (fst (read_done acc grp ng (sid, success) s))" by blast+
qed

lemma copied_in_binv:
  assumes inv: "binv grp ng nb X (add_mset sid Y) s"
  shows "snd (copied_in sid s) = ok ()" and "binv grp ng nb X Y (fst (copied_in sid s))"
proof -
  obtain i j ch where p: "map_of (b_jobs s) i = Some j" "dj_id j = i" "map_of (dj_reads j) sid = Some ch"
    "pop_job sid s = (s\<lparr>b_sub_to_job := AList.delete sid (b_sub_to_job s)\<rparr>, Some j)"
    "core nb X Y (mset (fst ch)) ((i, j\<lparr>dj_reads := AList.delete sid (dj_reads j)\<rparr>) # AList.delete i (b_jobs s))
       (s\<lparr>b_sub_to_job := AList.delete sid (b_sub_to_job s)\<rparr>)"
    by (rule pop_read [OF inv])
  note sp = binv_split [OF inv p(1)]
  note d = job_drop_read [OF sp(3) p(3)]
  let ?s1 = "s\<lparr>b_sub_to_job := AList.delete sid (b_sub_to_job s)\<rparr>"
  let ?j1 = "j\<lparr>dj_reads := AList.delete sid (dj_reads j)\<rparr>"
  have run: "copied_in sid s = (settle (fst ch) ?j1 ?s1, ok ())"
    using p(3,4) by (cases ch) (simp add: copied_in_def)
  have "binv grp ng nb X Y (settle (fst ch) ?j1 ?s1)"
    by (rule settle_binv [OF _ _ _ _ d(1,2)]) (use p(1,2,5) sp(4,5) in simp_all)
  then show "snd (copied_in sid s) = ok ()" and "binv grp ng nb X Y (fst (copied_in sid s))"
    unfolding run by simp_all
qed

section \<open>Weight\<close>

text \<open>
  What is still to do: three units for an item not started, two for a sub-job in its first hop, one for
  a sub-job in its second. Every report lowers it and starting a chunk does too.
\<close>

definition todo :: "(int, direct_job) odict \<Rightarrow> nat" where
  "todo js = (\<Sum>p\<in>#mset js. length (dj_items (snd p)) - dj_next (snd p))"

definition queued :: "bounce \<Rightarrow> nat" where
  "queued s = length (b_g2b s) + length (b_reads s) + length (b_writes s) + length (b_b2g s)"

definition weight :: "bounce \<Rightarrow> nat" where
  "weight s = 3 * todo (b_jobs s) + 2 * (length (b_g2b s) + length (b_reads s)) + length (b_writes s) + length (b_b2g s)"

lemma todo_Cons [simp]: "todo ((i, j) # js) = length (dj_items j) - dj_next j + todo js" "todo [] = 0"
  by (simp_all add: todo_def)

lemma todo_split:
  assumes "od_wf js" and "map_of js i = Some j"
  shows "todo js = length (dj_items j) - dj_next j + todo (AList.delete i js)"
    and "todo (AList.update i j' js) = length (dj_items j') - dj_next j' + todo (AList.delete i js)"
  using mset_split [OF assms] mset_updated [OF assms, of j'] by (simp_all add: todo_def)

lemma set_job_fields [simp]:
  "b_g2b (set_job j s) = b_g2b s" "b_writes (set_job j s) = b_writes s" "b_reads (set_job j s) = b_reads s"
  "b_b2g (set_job j s) = b_b2g s" "b_free (set_job j s) = b_free s"
  "b_jobs (set_job j s) = AList.update (dj_id j) j (b_jobs s)" "b_sub_to_job (set_job j s) = b_sub_to_job s"
  "b_sub (set_job j s) = b_sub s"
  by (simp_all add: set_job_def)

lemma new_sub_fields [simp]:
  "b_g2b (fst (new_sub j s)) = b_g2b s" "b_writes (fst (new_sub j s)) = b_writes s" "b_reads (fst (new_sub j s)) = b_reads s"
  "b_b2g (fst (new_sub j s)) = b_b2g s" "b_free (fst (new_sub j s)) = b_free s" "b_jobs (fst (new_sub j s)) = b_jobs s"
  "snd (new_sub j s) = Suc (b_sub s)"
  by (simp_all add: new_sub_def Let_def)

lemma settle_weight:
  assumes "map_of (b_jobs s) i = Some j" and "od_wf (b_jobs s)" and "dj_id j1 = i"
    and "dj_items j1 = dj_items j" and "dj_next j1 = dj_next j" and "dj_done j1 + length sl \<le> dj_next j1"
  shows "weight (settle sl j1 s) = weight s"
  using todo_split(1) [OF assms(2,1)] todo_split(2) [OF assms(2,1), of "j1\<lparr>dj_done := dj_done j1 + length sl\<rparr>"] assms(3-6)
  by (auto simp: settle_def Let_def finish_def weight_def)

lemma step_weights:
  assumes "job_ok grp ng j" "map_of (b_jobs s) i = Some j" "od_wf (b_jobs s)" "dj_id j = i"
  shows "pop_job sid s = (s\<lparr>b_sub_to_job := S\<rparr>, Some j) \<Longrightarrow> map_of (dj_copies j) sid = Some ch \<Longrightarrow>
      weight (fst (copied_out sid s)) = weight s + 1"
    and "pop_job sid s = (s\<lparr>b_sub_to_job := S\<rparr>, Some j) \<Longrightarrow> map_of (dj_copies j) sid = Some ch \<Longrightarrow>
      weight (fst (written (sid, success) s)) = weight s"
    and "pop_job sid s = (s\<lparr>b_sub_to_job := S\<rparr>, Some j) \<Longrightarrow> map_of (dj_reads j) sid = Some rd \<Longrightarrow>
      weight (fst (read_done acc grp ng (sid, success) s)) \<le> weight s + 1"
    and "pop_job sid s = (s\<lparr>b_sub_to_job := S\<rparr>, Some j) \<Longrightarrow> map_of (dj_reads j) sid = Some rd \<Longrightarrow>
      weight (fst (copied_in sid s)) = weight s"
proof -
  let ?s1 = "s\<lparr>b_sub_to_job := S\<rparr>"
  have w1: "weight ?s1 = weight s" by (simp add: weight_def)
  have m1: "map_of (b_jobs ?s1) i = Some j" "od_wf (b_jobs ?s1)" using assms(2,3) by simp_all
  note ts = todo_split [OF assms(3,2)]
  assume p: "pop_job sid s = (?s1, Some j)"
  { assume ch: "map_of (dj_copies j) sid = Some ch"
    note d = job_drop_copy [OF assms(1) ch]
    show "weight (fst (copied_out sid s)) = weight s + 1"
      using p ch assms(4) ts(1) ts(2) [of "j\<lparr>dj_copies := AList.update (Suc (b_sub s)) ch (AList.delete sid (dj_copies j))\<rparr>"]
      by (simp add: copied_out_def new_sub_def Let_def weight_def)
    have "weight (settle (map fst ch) (j\<lparr>dj_copies := AList.delete sid (dj_copies j), dj_failed := dj_failed j \<or> \<not> success\<rparr>) ?s1) = weight ?s1"
      by (rule settle_weight [OF m1]) (use assms(4) d(2) in simp_all)
    then show "weight (fst (written (sid, success) s)) = weight s"
      using p ch w1 by (simp add: written_def) }
  { assume rd: "map_of (dj_reads j) sid = Some rd"
    obtain sl ids ks where ch: "rd = (sl, ids, ks)" by (cases rd)
    note d = job_drop_read [OF assms(1) rd, unfolded ch fst_conv snd_conv]
    have "weight (settle sl (j\<lparr>dj_reads := AList.delete sid (dj_reads j)\<rparr>) ?s1) = weight ?s1"
      by (rule settle_weight [OF m1]) (use assms(4) d(2) in simp_all)
    then show "weight (fst (copied_in sid s)) = weight s" using p rd w1 ch by (simp add: copied_in_def)
    let ?s2 = "?s1\<lparr>b_failed_gpu := b_failed_gpu s \<union> set ids\<rparr>"
    have "weight (settle sl (j\<lparr>dj_reads := AList.delete sid (dj_reads j), dj_failed := True\<rparr>) ?s2) = weight ?s2"
      by (rule settle_weight [of _ i j]) (use assms(2-4) d(2) in simp_all)
    moreover have "weight ?s2 = weight s" by (simp add: weight_def)
    ultimately show "weight (fst (read_done acc grp ng (sid, success) s)) \<le> weight s + 1"
      using p rd ch assms(4) ts(1) ts(2) [of "j\<lparr>dj_reads := AList.update (Suc (b_sub s)) (sl, ids, ks) (AList.delete sid (dj_reads j))\<rparr>"]
      by (cases success) (auto simp: read_done_def new_sub_def Let_def weight_def split: sum.splits) }
qed

section \<open>Starting chunks\<close>

lemma start_chunk_binv:
  assumes inv: "binv grp ng nb X Y s" and acc: "\<forall>i. acc i"
  shows "snd (start_chunk acc grp ng pass jid s) = ok ()"
    and "binv grp ng nb X Y (fst (start_chunk acc grp ng pass jid s))"
    and "weight (fst (start_chunk acc grp ng pass jid s)) + queued (fst (start_chunk acc grp ng pass jid s)) \<le> weight s + queued s"
    and "weight (fst (start_chunk acc grp ng pass jid s)) \<le> weight s"
proof -
  let ?r = "start_chunk acc grp ng pass jid s"
  have "snd ?r = ok () \<and> binv grp ng nb X Y (fst ?r) \<and> weight (fst ?r) + queued (fst ?r) \<le> weight s + queued s
      \<and> weight (fst ?r) \<le> weight s"
  proof (cases "map_of (b_jobs s) jid")
    case None
    then show ?thesis using inv by (simp add: start_chunk_def)
  next
    case (Some j)
    note sp = binv_split [OF inv Some]
    show ?thesis
    proof (cases "dj_store j \<noteq> pass \<or> length (dj_items j) \<le> dj_next j \<or> b_free s = []")
      case True
      then show ?thesis using Some inv by (auto simp: start_chunk_def)
    next
      case False
      define n where "n = min (length (b_free s)) (length (dj_items j) - dj_next j)"
      define chunk where "chunk = pslice (dj_items j) (dj_next j) (dj_next j + n)"
      define sl where "sl = take n (b_free s)"
      let ?ks = "map fst chunk" let ?ids = "map snd chunk" let ?sid = "Suc (b_sub s)"
      let ?s0 = "s\<lparr>b_free := drop n (b_free s)\<rparr>" let ?j1 = "j\<lparr>dj_next := dj_next j + n\<rparr>"
      have n: "0 < n" "dj_next j + n \<le> length (dj_items j)" "length sl = n" "length chunk = n"
        using False by (auto simp: n_def sl_def chunk_def pslice_def neq_Nil_conv)
      then have ne: "chunk \<noteq> []" "sl \<noteq> []" by auto
      have sub: "set chunk \<subseteq> set (dj_items j)"
        unfolding chunk_def pslice_def by (meson in_set_dropD in_set_takeD subsetI)
      have sh: "job_shape grp ng j" and cnt: "dj_done j + size (jslots j) = dj_next j" using sp(3) by (simp_all add: job_ok_def)
      have "\<forall>k \<in> fst ` set (dj_items j). grp k < ng" using sh by (simp add: job_shape_def)
      then have kg: "\<forall>k \<in> set ?ks. grp k < ng" using sub by auto
      obtain spec where spec: "make_gpu_spec grp ng ?ks ?ids = ok spec" using make_gpu_spec_ok [OF kg] by blast
      have sh1: "job_shape grp ng ?j1" using sh n(2) by (simp add: job_shape_def)
      have "mset (drop n (b_free s)) + mset sl = mset (b_free s)"
        unfolding sl_def by (metis append_take_drop_id mset_append union_commute)
      then have c0: "core nb X Y (mset sl) ((jid, ?j1) # AList.delete jid (b_jobs s)) ?s0"
        using sp(1) by (simp add: core_def jslots_def subs_def copy_ids_def read_ids_def)
      note fresh = core_fresh [OF c0]
      have ts: "todo (AList.update jid j' (b_jobs s)) + n = todo (b_jobs s)"
        if "dj_items j' = dj_items j" "dj_next j' = dj_next j + n" for j'
        using todo_split [OF sp(5) Some] that n(2) by simp
      show ?thesis
      proof (cases "dj_store j")
        case True
        let ?ch = "zip sl ?ks"
        let ?j2 = "?j1\<lparr>dj_copies := AList.update ?sid ?ch (dj_copies j)\<rparr>"
        let ?s2 = "set_job ?j2 (fst (new_sub j ?s0))"
        have mf: "map fst ?ch = sl" using n by simp
        have ok2: "job_ok grp ng ?j2"
          using job_add_copy [OF sh1, of ?ch ?sid] n ne cnt True fresh(2) sp(2)
          by (auto simp: jslots_def)
        have "core nb (add_mset ?sid X) Y {#} ((jid, ?j2) # AList.delete jid (b_jobs s)) (fst (new_sub j ?s0))"
          using core_add_copy [of nb X Y "{#}" ?ch jid ?j1 "AList.delete jid (b_jobs s)" ?s0 j] c0 sp(2) mf by simp
        then have "binv grp ng nb (add_mset ?sid X) Y ?s2"
          using binv_set_job [of "fst (new_sub j ?s0)" jid j grp ng ?j2] Some sp(2,4,5) ok2 by simp
        then have b: "binv grp ng nb X Y (?s2\<lparr>b_g2b := b_g2b ?s2 @ [(?sid, spec, sl)]\<rparr>)" by (rule binv_enqueue(1))
        have run: "?r = (?s2\<lparr>b_g2b := b_g2b ?s2 @ [(?sid, spec, sl)]\<rparr>, ok ())"
          using Some False True spec acc
          by (simp add: start_chunk_def Let_def new_sub_def flip: n_def chunk_def sl_def)
        show ?thesis using b n(1) ts [of ?j2] sp(2) unfolding run by (simp add: weight_def queued_def)
      next
        case load: False
        let ?ch = "(sl, ?ids, ?ks)"
        let ?j2 = "?j1\<lparr>dj_reads := AList.update ?sid ?ch (dj_reads j)\<rparr>"
        let ?s2 = "set_job ?j2 (fst (new_sub j ?s0))"
        have ok2: "job_ok grp ng ?j2"
          using job_add_read [OF sh1, of ?ch ?sid] n ne cnt load fresh(3) sp(2) image_mono [OF sub, of fst]
          by (auto simp: jslots_def)
        have "core nb X (add_mset ?sid Y) {#} ((jid, ?j2) # AList.delete jid (b_jobs s)) (fst (new_sub j ?s0))"
          using core_add_read [of nb X Y "{#}" ?ch jid ?j1 "AList.delete jid (b_jobs s)" ?s0 j] c0 sp(2) by simp
        then have "binv grp ng nb X (add_mset ?sid Y) ?s2"
          using binv_set_job [of "fst (new_sub j ?s0)" jid j grp ng ?j2] Some sp(2,4,5) ok2 by simp
        then have b: "binv grp ng nb X Y (?s2\<lparr>b_reads := b_reads ?s2 @ [(?sid, ?j2, zip ?ks sl)]\<rparr>)" by (rule binv_enqueue(3))
        have run: "?r = (?s2\<lparr>b_reads := b_reads ?s2 @ [(?sid, ?j2, zip ?ks sl)]\<rparr>, ok ())"
          using Some False load by (simp add: start_chunk_def Let_def new_sub_def flip: n_def chunk_def sl_def)
        show ?thesis using b n(1) ts [of ?j2] sp(2) unfolding run by (simp add: weight_def queued_def)
      qed
    qed
  qed
  then show "snd ?r = ok ()" "binv grp ng nb X Y (fst ?r)"
    "weight (fst ?r) + queued (fst ?r) \<le> weight s + queued s" "weight (fst ?r) \<le> weight s" by blast+
qed

end
