(* ===== verification/Bounce_Pump.thy ===== *)
theory Bounce_Pump
  imports Bounce_Inv
begin

text \<open>
  Whole pumps of the transfer engine: from the steps' lemmas to a pump, the reachable states of the
  controller, that a pump never leaves jobs waiting for nothing, and that \<^verbatim>\<open>wait_all\<close> returns.
\<close>

section \<open>A whole pump\<close>

lemma copied_out_step:
  "binv grp ng nb (add_mset sid X) Y s \<Longrightarrow> snd (copied_out sid s) = ok ()
     \<and> binv grp ng nb X Y (fst (copied_out sid s)) \<and> weight (fst (copied_out sid s)) \<le> weight s + 1"
proof -
  assume inv: "binv grp ng nb (add_mset sid X) Y s"
  obtain i j ch where p: "map_of (b_jobs s) i = Some j" "map_of (dj_copies j) sid = Some ch"
    "pop_job sid s = (s\<lparr>b_sub_to_job := AList.delete sid (b_sub_to_job s)\<rparr>, Some j)" by (rule pop_copy [OF inv])
  note sp = binv_split [OF inv p(1)]
  show ?thesis using copied_out_binv [OF inv] step_weights(1) [OF sp(3) p(1) sp(5) sp(2) p(3) p(2)] by simp
qed

lemma written_step:
  "binv grp ng nb (add_mset (fst r) X) Y s \<Longrightarrow> snd (written r s) = ok ()
     \<and> binv grp ng nb X Y (fst (written r s)) \<and> weight (fst (written r s)) \<le> weight s + 0"
proof -
  assume inv: "binv grp ng nb (add_mset (fst r) X) Y s"
  obtain i j ch where p: "map_of (b_jobs s) i = Some j" "map_of (dj_copies j) (fst r) = Some ch"
    "pop_job (fst r) s = (s\<lparr>b_sub_to_job := AList.delete (fst r) (b_sub_to_job s)\<rparr>, Some j)" by (rule pop_copy [OF inv])
  note sp = binv_split [OF inv p(1)]
  show ?thesis
    using written_binv [OF inv, of "snd r"] step_weights(2) [OF sp(3) p(1) sp(5) sp(2) p(3) p(2), of "snd r"] by simp
qed

lemma read_done_step:
  assumes inv: "binv grp ng nb X (add_mset (fst r) Y) s" and acc: "\<forall>i. acc i"
  shows "snd (read_done acc grp ng r s) = ok ()
     \<and> binv grp ng nb X Y (fst (read_done acc grp ng r s)) \<and> weight (fst (read_done acc grp ng r s)) \<le> weight s + 1"
proof -
  obtain i j ch where p: "map_of (b_jobs s) i = Some j" "map_of (dj_reads j) (fst r) = Some ch"
    "pop_job (fst r) s = (s\<lparr>b_sub_to_job := AList.delete (fst r) (b_sub_to_job s)\<rparr>, Some j)" by (rule pop_read [OF inv])
  note sp = binv_split [OF inv p(1)]
  show ?thesis
    using read_done_binv [OF inv acc, of "snd r"] step_weights(3) [OF sp(3) p(1) sp(5) sp(2) p(3) p(2), of acc "snd r"] by simp
qed

lemma copied_in_step:
  "binv grp ng nb X (add_mset sid Y) s \<Longrightarrow> snd (copied_in sid s) = ok ()
     \<and> binv grp ng nb X Y (fst (copied_in sid s)) \<and> weight (fst (copied_in sid s)) \<le> weight s + 0"
proof -
  assume inv: "binv grp ng nb X (add_mset sid Y) s"
  obtain i j ch where p: "map_of (b_jobs s) i = Some j" "map_of (dj_reads j) sid = Some ch"
    "pop_job sid s = (s\<lparr>b_sub_to_job := AList.delete sid (b_sub_to_job s)\<rparr>, Some j)" by (rule pop_read [OF inv])
  note sp = binv_split [OF inv p(1)]
  show ?thesis using copied_in_binv [OF inv] step_weights(4) [OF sp(3) p(1) sp(5) sp(2) p(3) p(2)] by simp
qed

lemma for_keys_run:
  assumes "\<And>x M s. P (add_mset (k x) M) s \<Longrightarrow> snd (f x s) = ok () \<and> P M (fst (f x s)) \<and> weight (fst (f x s)) \<le> weight s + w"
    and "P (mset (map k xs)) s"
  shows "snd (for_keys f xs s) = ok () \<and> P {#} (fst (for_keys f xs s))
     \<and> weight (fst (for_keys f xs s)) \<le> weight s + w * length xs"
  using assms(2)
proof (induction xs arbitrary: s)
  case (Cons x xs)
  obtain s1 r where f: "f x s = (s1, r)" by (cases "f x s")
  have st: "r = ok ()" "P (mset (map k xs)) s1" "weight s1 \<le> weight s + w" using assms(1) [of x "mset (map k xs)" s] Cons.prems f by simp_all
  then show ?case using Cons.IH [OF st(2)] f by simp
qed simp

text \<open>The queues hold distinct sub-jobs.\<close>

lemma binv_distinct:
  assumes "binv grp ng nb {#} {#} s"
  shows "distinct (map fst (b_g2b s))" "distinct (map fst (b_writes s))" "distinct (map fst (b_reads s))" "distinct (map fst (b_b2g s))"
proof -
  have c: "core nb {#} {#} {#} (b_jobs s) s" using assms by (simp add: binv_def)
  have "image_mset fst (sumj subs js) = sumj copy_ids js + sumj read_ids js" for js
    by (induction js) (auto simp: subs_def copy_ids_def read_ids_def image_mset.compositionality comp_def ac_simps)
  then have "mset (od_keys (b_sub_to_job s)) = mset (map fst (b_g2b s) @ map fst (b_writes s) @ map fst (b_reads s) @ map fst (b_b2g s))"
    using c arg_cong [of "mset (b_sub_to_job s)" "sumj subs (b_jobs s)" "image_mset fst"]
    by (simp add: core_def od_keys_def ac_simps)
  moreover have "distinct (od_keys (b_sub_to_job s))" using c by (simp add: core_def od_wf_def)
  ultimately have "distinct (map fst (b_g2b s) @ map fst (b_writes s) @ map fst (b_reads s) @ map fst (b_b2g s))"
    using distinct_mset_iff by blast
  then show "distinct (map fst (b_g2b s))" "distinct (map fst (b_writes s))" "distinct (map fst (b_reads s))" "distinct (map fst (b_b2g s))"
    by simp_all
qed

text \<open>Sub-jobs a stream or pool may report: ones it has, each once.\<close>

definition reported :: "(nat \<times> 'c) list \<Rightarrow> nat list \<Rightarrow> bool" where
  "reported q ids = (distinct ids \<and> set ids \<subseteq> fst ` set q)"

lemma poll_length:
  assumes "reported q ids" and "distinct (map fst q)"
  shows "length (filter (\<lambda>c. fst c \<notin> set ids) q) + length ids = length q"
  using arg_cong [OF queue_poll [of ids q], of size] assms by (simp add: reported_def del: mset_filter)

lemma pump1_ok:
  assumes inv: "binv grp ng nb {#} {#} s" and r: "reported (b_g2b s) ids"
  shows "snd (pump1 ids s) = ok () \<and> binv grp ng nb {#} {#} (fst (pump1 ids s))
     \<and> weight (fst (pump1 ids s)) + length ids \<le> weight s"
proof -
  let ?s = "s\<lparr>b_g2b := filter (\<lambda>c. fst c \<notin> set ids) (b_g2b s)\<rparr>"
  note q = queue_poll [of ids "b_g2b s"] and l = poll_length [OF r binv_distinct(1) [OF inv]]
  have "binv grp ng nb (mset (map id ids)) {#} ?s"
    using inv q r binv_distinct(1) [OF inv] by (simp add: binv_def core_def reported_def ac_simps)
  from for_keys_run [of "\<lambda>X. binv grp ng nb X {#}" id copied_out 1 ids ?s, OF _ this] copied_out_step
  show ?thesis using l by (fastforce simp: pump1_def weight_def)
qed

lemma pump2_ok:
  assumes inv: "binv grp ng nb {#} {#} s" and r: "reported (b_writes s) (map fst rs)"
  shows "snd (pump2 rs s) = ok () \<and> binv grp ng nb {#} {#} (fst (pump2 rs s))
     \<and> weight (fst (pump2 rs s)) + length rs \<le> weight s"
proof -
  let ?s = "s\<lparr>b_writes := filter (\<lambda>c. fst c \<notin> fst ` set rs) (b_writes s)\<rparr>"
  note q = queue_poll [of "map fst rs" "b_writes s"] and l = poll_length [OF r binv_distinct(2) [OF inv]]
  have "binv grp ng nb (mset (map fst rs)) {#} ?s"
    using inv q r binv_distinct(2) [OF inv] by (simp add: binv_def core_def reported_def ac_simps)
  from for_keys_run [of "\<lambda>X. binv grp ng nb X {#}" fst written 0 rs ?s, OF _ this] written_step
  show ?thesis using l by (fastforce simp: pump2_def weight_def)
qed

lemma pump3_ok:
  assumes inv: "binv grp ng nb {#} {#} s" and r: "reported (b_reads s) (map fst rs)" and acc: "\<forall>i. acc i"
  shows "snd (pump3 acc grp ng rs s) = ok () \<and> binv grp ng nb {#} {#} (fst (pump3 acc grp ng rs s))
     \<and> weight (fst (pump3 acc grp ng rs s)) + length rs \<le> weight s"
proof -
  let ?s = "s\<lparr>b_reads := filter (\<lambda>c. fst c \<notin> fst ` set rs) (b_reads s)\<rparr>"
  note q = queue_poll [of "map fst rs" "b_reads s"] and l = poll_length [OF r binv_distinct(3) [OF inv]]
  have "binv grp ng nb {#} (mset (map fst rs)) ?s"
    using inv q r binv_distinct(3) [OF inv] by (simp add: binv_def core_def reported_def ac_simps)
  from for_keys_run [of "binv grp ng nb {#}" fst "read_done acc grp ng" 1 rs ?s, OF _ this] read_done_step [OF _ acc]
  show ?thesis using l by (fastforce simp: pump3_def weight_def)
qed

lemma pump4_ok:
  assumes inv: "binv grp ng nb {#} {#} s" and r: "reported (b_b2g s) ids"
  shows "snd (pump4 ids s) = ok () \<and> binv grp ng nb {#} {#} (fst (pump4 ids s))
     \<and> weight (fst (pump4 ids s)) + length ids \<le> weight s"
proof -
  let ?s = "s\<lparr>b_b2g := filter (\<lambda>c. fst c \<notin> set ids) (b_b2g s)\<rparr>"
  note q = queue_poll [of ids "b_b2g s"] and l = poll_length [OF r binv_distinct(4) [OF inv]]
  have "binv grp ng nb {#} (mset (map id ids)) ?s"
    using inv q r binv_distinct(4) [OF inv] by (simp add: binv_def core_def reported_def ac_simps)
  from for_keys_run [of "binv grp ng nb {#}" id copied_in 0 ids ?s, OF _ this] copied_in_step
  show ?thesis using l by (fastforce simp: pump4_def weight_def)
qed

lemma pump5_ok:
  assumes inv: "binv grp ng nb {#} {#} s" and acc: "\<forall>i. acc i"
  shows "snd (pump5 acc grp ng pass s) = ok () \<and> binv grp ng nb {#} {#} (fst (pump5 acc grp ng pass s))
     \<and> weight (fst (pump5 acc grp ng pass s)) + queued (fst (pump5 acc grp ng pass s)) \<le> weight s + queued s
     \<and> weight (fst (pump5 acc grp ng pass s)) \<le> weight s"
proof -
  have "snd (for_keys (start_chunk acc grp ng pass) is s) = ok ()
      \<and> binv grp ng nb {#} {#} (fst (for_keys (start_chunk acc grp ng pass) is s))
      \<and> weight (fst (for_keys (start_chunk acc grp ng pass) is s)) + queued (fst (for_keys (start_chunk acc grp ng pass) is s))
        \<le> weight s + queued s
      \<and> weight (fst (for_keys (start_chunk acc grp ng pass) is s)) \<le> weight s" for "is"
    using inv
  proof (induction "is" arbitrary: s)
    case (Cons i "is")
    obtain s1 r where f: "start_chunk acc grp ng pass i s = (s1, r)" by (cases "start_chunk acc grp ng pass i s")
    note st = start_chunk_binv [OF Cons.prems acc, of pass i, unfolded f fst_conv snd_conv]
    then show ?case using Cons.IH [OF st(2)] f by auto
  qed simp
  then show ?thesis by (simp add: pump5_def)
qed

lemma bseq_ok: "snd r = ok () \<Longrightarrow> bseq r f = f (fst r)"
  by (cases r) (simp add: bseq_def)

text \<open>The reports of one pump are honest.\<close>

definition polls_legal :: "(nat \<Rightarrow> bool) \<Rightarrow> (key \<Rightarrow> nat) \<Rightarrow> nat \<Rightarrow> polls \<Rightarrow> bounce \<Rightarrow> bool" where
  "polls_legal acc grp ng p s =
     (let s1 = fst (pump1 (p_g2b p) s); s2 = fst (pump2 (p_writes p) s1); s3 = fst (pump3 acc grp ng (p_reads p) s2)
      in reported (b_g2b s) (p_g2b p) \<and> reported (b_writes s1) (map fst (p_writes p))
         \<and> reported (b_reads s2) (map fst (p_reads p)) \<and> reported (b_b2g s3) (p_b2g p))"

definition reports :: "polls \<Rightarrow> nat" where
  "reports p = length (p_g2b p) + length (p_writes p) + length (p_reads p) + length (p_b2g p)"

lemma for_keys_Nil_simps [simp]: "pump1 [] s = (s, ok ())" "pump2 [] s = (s, ok ())" "pump3 acc grp ng [] s = (s, ok ())" "pump4 [] s = (s, ok ())"
  by (simp_all add: pump1_def pump2_def pump3_def pump4_def)

lemma pump_run:
  assumes inv: "binv grp ng nb {#} {#} s" and acc: "\<forall>i. acc i" and leg: "polls_legal acc grp ng p s"
  obtains s4 where "binv grp ng nb {#} {#} s4" "weight s4 + reports p \<le> weight s" "reports p = 0 \<longrightarrow> s4 = s"
    "pump acc grp ng p s = bseq (pump5 acc grp ng False s4) (pump5 acc grp ng True)"
proof -
  define s1 where "s1 = fst (pump1 (p_g2b p) s)"
  define s2 where "s2 = fst (pump2 (p_writes p) s1)"
  define s3 where "s3 = fst (pump3 acc grp ng (p_reads p) s2)"
  define s4 where "s4 = fst (pump4 (p_b2g p) s3)"
  have leg': "reported (b_g2b s) (p_g2b p)" "reported (b_writes s1) (map fst (p_writes p))"
      "reported (b_reads s2) (map fst (p_reads p))" "reported (b_b2g s3) (p_b2g p)"
    using leg by (simp_all add: polls_legal_def Let_def s1_def s2_def s3_def)
  have 1: "snd (pump1 (p_g2b p) s) = ok ()" "binv grp ng nb {#} {#} s1" "weight s1 + length (p_g2b p) \<le> weight s"
    using pump1_ok [OF inv leg'(1)] by (simp_all add: s1_def)
  have 2: "snd (pump2 (p_writes p) s1) = ok ()" "binv grp ng nb {#} {#} s2" "weight s2 + length (p_writes p) \<le> weight s1"
    using pump2_ok [OF 1(2) leg'(2)] by (simp_all add: s2_def)
  have 3: "snd (pump3 acc grp ng (p_reads p) s2) = ok ()" "binv grp ng nb {#} {#} s3" "weight s3 + length (p_reads p) \<le> weight s2"
    using pump3_ok [OF 2(2) leg'(3) acc] by (simp_all add: s3_def)
  have 4: "snd (pump4 (p_b2g p) s3) = ok ()" "binv grp ng nb {#} {#} s4" "weight s4 + length (p_b2g p) \<le> weight s3"
    using pump4_ok [OF 3(2) leg'(4)] by (simp_all add: s4_def)
  have run: "pump acc grp ng p s = bseq (pump5 acc grp ng False s4) (pump5 acc grp ng True)"
    using 1(1) 2(1) 3(1) 4(1) by (simp add: pump_def bseq_ok s1_def s2_def s3_def s4_def)
  have w: "weight s4 + reports p \<le> weight s" using 1(3) 2(3) 3(3) 4(3) by (simp add: reports_def)
  have z: "reports p = 0 \<longrightarrow> s4 = s" by (simp add: reports_def s1_def s2_def s3_def s4_def)
  show ?thesis by (rule that [OF 4(2) w z run])
qed

lemma pump_ok:
  assumes inv: "binv grp ng nb {#} {#} s" and acc: "\<forall>i. acc i" and leg: "polls_legal acc grp ng p s"
  shows "snd (pump acc grp ng p s) = ok ()" and "binv grp ng nb {#} {#} (fst (pump acc grp ng p s))"
    and "weight (fst (pump acc grp ng p s)) + reports p \<le> weight s"
    and "reports p = 0 \<Longrightarrow> weight (fst (pump acc grp ng p s)) + queued (fst (pump acc grp ng p s)) \<le> weight s + queued s"
proof -
  obtain s4 where s4: "binv grp ng nb {#} {#} s4" "weight s4 + reports p \<le> weight s" "reports p = 0 \<longrightarrow> s4 = s"
    "pump acc grp ng p s = bseq (pump5 acc grp ng False s4) (pump5 acc grp ng True)" by (rule pump_run [OF assms])
  note 5 = pump5_ok [OF s4(1) acc, of False]
  define s5 where "s5 = fst (pump5 acc grp ng False s4)"
  have b5: "binv grp ng nb {#} {#} s5" using 5 by (simp add: s5_def)
  note 6 = pump5_ok [OF b5 acc, of True]
  have run: "pump acc grp ng p s = pump5 acc grp ng True s5" using s4(4) 5 by (simp add: bseq_ok s5_def)
  show "snd (pump acc grp ng p s) = ok ()" and "binv grp ng nb {#} {#} (fst (pump acc grp ng p s))"
    and "weight (fst (pump acc grp ng p s)) + reports p \<le> weight s"
    using 5 6 s4(2) by (simp_all add: run s5_def)
  show "weight (fst (pump acc grp ng p s)) + queued (fst (pump acc grp ng p s)) \<le> weight s + queued s" if "reports p = 0"
    using 5 6 s4(3) that by (simp add: run s5_def)
qed

section \<open>No waiting for nothing\<close>

text \<open>After the start loop either no slot is free or every job of the pass is fully started.\<close>

definition fully_started :: "bool \<Rightarrow> int \<Rightarrow> bounce \<Rightarrow> bool" where
  "fully_started pass i s =
     (b_free s = [] \<or> (\<forall>j. map_of (b_jobs s) i = Some j \<longrightarrow> dj_store j = pass \<longrightarrow> length (dj_items j) \<le> dj_next j))"

text \<open>What starting a chunk changes.\<close>

lemma start_chunk_cases:
  assumes "\<forall>p \<in> set (b_jobs s). dj_id (snd p) = fst p" and "\<forall>i. acc i" and "snd (start_chunk acc grp ng pass i s) = ok ()"
  defines "s' \<equiv> fst (start_chunk acc grp ng pass i s)"
  obtains (idle) "s' = s" "fully_started pass i s"
  | (started) j j' n where "map_of (b_jobs s) i = Some j" "b_jobs s' = AList.update i j' (b_jobs s)"
      "b_free s' = drop n (b_free s)" "dj_store j' = dj_store j" "dj_id j' = i" "dj_store j = pass" "dj_items j' = dj_items j"
      "dj_next j' = dj_next j + n" "n = min (length (b_free s)) (length (dj_items j) - dj_next j)"
proof (cases "map_of (b_jobs s) i")
  case None
  then show ?thesis using idle by (simp add: s'_def start_chunk_def fully_started_def)
next
  case (Some j)
  have id: "dj_id j = i" using assms(1) map_of_SomeD [OF Some] by auto
  show ?thesis
  proof (cases "dj_store j \<noteq> pass \<or> length (dj_items j) \<le> dj_next j \<or> b_free s = []")
    case True
    then show ?thesis using idle Some by (auto simp: s'_def start_chunk_def fully_started_def)
  next
    case False
    define n where "n = min (length (b_free s)) (length (dj_items j) - dj_next j)"
    define chunk where "chunk = pslice (dj_items j) (dj_next j) (dj_next j + n)"
    define j1 where "j1 = (if dj_store j
        then j\<lparr>dj_next := dj_next j + n, dj_copies := AList.update (Suc (b_sub s)) (zip (take n (b_free s)) (map fst chunk)) (dj_copies j)\<rparr>
        else j\<lparr>dj_next := dj_next j + n, dj_reads := AList.update (Suc (b_sub s)) (take n (b_free s), map snd chunk, map fst chunk) (dj_reads j)\<rparr>)"
    have j1: "dj_store j1 = dj_store j" "dj_id j1 = i" "dj_items j1 = dj_items j" "dj_next j1 = dj_next j + n"
      using id by (simp_all add: j1_def)
    have "b_jobs s' = AList.update i j1 (b_jobs s) \<and> b_free s' = drop n (b_free s)"
    proof (cases "make_gpu_spec grp ng (map fst chunk) (map snd chunk)")
      case (Inl e)
      then show ?thesis using Some False assms(3) id
        by (cases "dj_store j") (simp_all add: s'_def j1_def start_chunk_def Let_def new_sub_def flip: n_def chunk_def)
    next
      case (Inr spec)
      then show ?thesis using Some False assms(2) id
        by (cases "dj_store j") (simp_all add: s'_def j1_def start_chunk_def Let_def new_sub_def flip: n_def chunk_def)
    qed
    then show ?thesis using started [OF Some _ _ j1(1,2) _ j1(3,4) n_def] False by blast
  qed
qed

lemma start_chunk_started:
  assumes ids: "\<forall>p \<in> set (b_jobs s). dj_id (snd p) = fst p" and acc: "\<forall>i. acc i"
    and ok: "snd (start_chunk acc grp ng pass i s) = ok ()"
  shows "fully_started pass i (fst (start_chunk acc grp ng pass i s))
    \<and> (\<forall>p k. fully_started p k s \<longrightarrow> fully_started p k (fst (start_chunk acc grp ng pass i s)))
    \<and> set (od_keys (b_jobs (fst (start_chunk acc grp ng pass i s)))) = set (od_keys (b_jobs s))"
  using assms
proof (cases rule: start_chunk_cases)
  case (started j j' n)
  have "fully_started p k s \<Longrightarrow> fully_started p k (fst (start_chunk acc grp ng pass i s))" for p k
    using started by (auto simp: fully_started_def map_of_update)
  moreover have "fully_started pass i (fst (start_chunk acc grp ng pass i s))"
    using started by (auto simp: fully_started_def map_of_update)
  moreover have "set (od_keys (b_jobs (fst (start_chunk acc grp ng pass i s)))) = set (od_keys (b_jobs s))"
    using started(1,2) by (auto simp: od_keys_update)
  ultimately show ?thesis by blast
qed simp

lemma start_loop_started:
  assumes "binv grp ng nb {#} {#} s" and "\<forall>i. acc i"
  shows "(\<forall>i \<in> set is. fully_started pass i (fst (for_keys (start_chunk acc grp ng pass) is s)))
     \<and> (\<forall>p k. fully_started p k s \<longrightarrow> fully_started p k (fst (for_keys (start_chunk acc grp ng pass) is s)))
     \<and> set (od_keys (b_jobs (fst (for_keys (start_chunk acc grp ng pass) is s)))) = set (od_keys (b_jobs s))"
  using assms(1)
proof (induction "is" arbitrary: s)
  case (Cons i "is")
  obtain s1 r where f: "start_chunk acc grp ng pass i s = (s1, r)" by (cases "start_chunk acc grp ng pass i s")
  note st = start_chunk_binv [OF Cons.prems assms(2), of pass i, unfolded f fst_conv snd_conv]
  have ids: "\<forall>p \<in> set (b_jobs s). dj_id (snd p) = fst p" using Cons.prems by (simp add: binv_def jobs_ok_def)
  have ok: "snd (start_chunk acc grp ng pass i s) = ok ()" using f st(1) by simp
  note sc = start_chunk_started [OF ids assms(2) ok, unfolded f fst_conv]
  show ?case using Cons.IH [OF st(2)] sc f st(1) by auto
qed simp

lemma pump_never_idle:
  assumes inv: "binv grp ng nb {#} {#} s" and acc: "\<forall>i. acc i" and leg: "polls_legal acc grp ng p s" and nb: "0 < nb"
    and jobs: "b_jobs (fst (pump acc grp ng p s)) \<noteq> []"
  shows "0 < queued (fst (pump acc grp ng p s))"
proof (rule ccontr)
  assume nq: "\<not> 0 < queued (fst (pump acc grp ng p s))"
  obtain s4 where s4: "binv grp ng nb {#} {#} s4" "weight s4 + reports p \<le> weight s" "reports p = 0 \<longrightarrow> s4 = s"
    "pump acc grp ng p s = bseq (pump5 acc grp ng False s4) (pump5 acc grp ng True)" by (rule pump_run [OF inv acc leg])
  define s5 where "s5 = fst (pump5 acc grp ng False s4)"
  define s6 where "s6 = fst (pump5 acc grp ng True s5)"
  note 5 = pump5_ok [OF s4(1) acc, of False]
  have b5: "binv grp ng nb {#} {#} s5" using 5 by (simp add: s5_def)
  have s6: "fst (pump acc grp ng p s) = s6" using s4(4) 5 by (simp add: bseq_ok s5_def s6_def)
  have b6: "binv grp ng nb {#} {#} s6" using pump5_ok [OF b5 acc, of True] by (simp add: s6_def)
  have l5: "\<forall>i \<in> set (od_keys (b_jobs s4)). fully_started False i s5" "set (od_keys (b_jobs s5)) = set (od_keys (b_jobs s4))"
    using start_loop_started [OF s4(1) acc, of "od_keys (b_jobs s4)" False] by (simp_all add: s5_def pump5_def)
  have l6: "\<forall>i \<in> set (od_keys (b_jobs s5)). fully_started True i s6" "\<forall>p k. fully_started p k s5 \<longrightarrow> fully_started p k s6"
      "set (od_keys (b_jobs s6)) = set (od_keys (b_jobs s5))"
    using start_loop_started [OF b5 acc, of "od_keys (b_jobs s5)" True] by (simp_all add: s6_def pump5_def)
  obtain i j where ij: "(i, j) \<in> set (b_jobs s6)" using jobs s6 by (cases "b_jobs s6") auto
  have m: "map_of (b_jobs s6) i = Some j" and ok: "job_ok grp ng j" and ki: "i \<in> set (od_keys (b_jobs s6))"
    using b6 ij by (auto simp: binv_def jobs_ok_def od_wf_def od_keys_def intro: rev_image_eqI)
  have c: "core nb {#} {#} {#} (b_jobs s6) s6" using b6 by (simp add: binv_def)
  have "sumj copy_ids (b_jobs s6) = {#}" "sumj read_ids (b_jobs s6) = {#}"
    using c nq s6 by (simp_all add: core_def queued_def)
  then have e: "jslots j' = {#}" if "(i', j') \<in> set (b_jobs s6)" for i' j'
    using that by (auto simp: sumj_empty_iff jslots_def copy_ids_def read_ids_def)
  then have "sumj jslots (b_jobs s6) = {#}" by (auto simp: sumj_empty_iff)
  then have "mset (b_free s6) = mset [0..<nb]" using c by (simp add: core_def)
  then have "length (b_free s6) = nb" by (metis length_upt minus_nat.diff_0 size_mset)
  then have "b_free s6 \<noteq> []" using nb by auto
  moreover have "fully_started (dj_store j) i s6" using l5 l6 ki by (cases "dj_store j") auto
  ultimately have "length (dj_items j) \<le> dj_next j" using m by (simp add: fully_started_def)
  moreover have "dj_done j < length (dj_items j)" "dj_done j + size (jslots j) = dj_next j"
    using ok by (simp_all add: job_ok_def job_shape_def)
  ultimately show False using e [OF ij] by simp
qed

section \<open>Reachable states\<close>

text \<open>
  One call on the controller: a job with a new id whose keys all have a group, a pump with honest
  reports, or one of the two collections.
\<close>

inductive bounce_step :: "(nat \<Rightarrow> bool) \<Rightarrow> (key \<Rightarrow> nat) \<Rightarrow> nat \<Rightarrow> bounce \<Rightarrow> bounce \<Rightarrow> bool" for acc grp ng where
  step_submit: "job_id \<notin> set (od_keys (b_jobs s)) \<Longrightarrow> \<forall>k \<in> set (sp_keys spec). grp k < ng \<Longrightarrow>
     bounce_step acc grp ng s (fst (submit nbytes job_id store gpu_ids spec s))"
| step_pump: "polls_legal acc grp ng p s \<Longrightarrow> bounce_step acc grp ng s (fst (pump acc grp ng p s))"
| step_take_results: "bounce_step acc grp ng s (fst (take_results store s))"
| step_take_failed: "bounce_step acc grp ng s (fst (take_failed_gpu_blocks s))"

inductive bounce_reachable :: "(nat \<Rightarrow> bool) \<Rightarrow> (key \<Rightarrow> nat) \<Rightarrow> nat \<Rightarrow> nat \<Rightarrow> bounce \<Rightarrow> bool" for acc grp ng nb where
  reach_start: "bounce_reachable acc grp ng nb (bounce_init nb)"
| reach_next: "bounce_reachable acc grp ng nb s \<Longrightarrow> bounce_step acc grp ng s s' \<Longrightarrow> bounce_reachable acc grp ng nb s'"

lemma submit_binv:
  assumes inv: "binv grp ng nb {#} {#} s" and fresh: "job_id \<notin> set (od_keys (b_jobs s))"
    and keys: "\<forall>k \<in> set (sp_keys spec). grp k < ng"
  shows "binv grp ng nb {#} {#} (fst (submit nbytes job_id store gpu_ids spec s))"
proof (cases "length gpu_ids \<noteq> length (sp_keys spec) \<or> sp_keys spec = []")
  case False
  define job where "job = \<lparr>dj_id = job_id, dj_store = store, dj_items = zip (sp_keys spec) gpu_ids,
                 dj_next = 0, dj_done = 0, dj_failed = False,
                 dj_nbytes = sum_list (map nbytes (sp_keys spec)), dj_copies = [], dj_reads = [],
                 dj_slots = fold (\<lambda>(k, d). AList.update k d) (zip (sp_keys spec) (sp_slots spec)) [],
                 dj_epoch = sp_epoch spec, dj_seq = sp_seq spec\<rparr>"
  have "\<forall>k \<in> fst ` set (zip (sp_keys spec) gpu_ids). grp k < ng" using keys by (auto dest: set_zip_leftD)
  then have ok: "job_ok grp ng job" using False by (auto simp: job_ok_def job_shape_def jslots_def job_def)
  have e: "jslots job = {#}" "subs job = {#}" "copy_ids job = {#}" "read_ids job = {#}"
    by (simp_all add: jslots_def subs_def copy_ids_def read_ids_def job_def)
  have upd: "AList.update job_id job (b_jobs s) = b_jobs s @ [(job_id, job)]"
    using fresh by (simp add: update_absent map_of_None_iff)
  have run: "fst (submit nbytes job_id store gpu_ids spec s) = s\<lparr>b_jobs := b_jobs s @ [(job_id, job)]\<rparr>"
    using False by (simp add: submit_def Let_def upd flip: job_def)
  have sums: "sumj F (b_jobs s @ [(job_id, job)]) = F job + sumj F (b_jobs s)" for F :: "direct_job \<Rightarrow> 'x multiset"
    by (simp add: sumj_def)
  have "jobs_ok grp ng (b_jobs s @ [(job_id, job)])"
    using inv ok fresh by (auto simp: binv_def jobs_ok_def od_wf_def od_keys_def job_def)
  moreover have "core nb {#} {#} {#} (b_jobs s @ [(job_id, job)]) (s\<lparr>b_jobs := b_jobs s @ [(job_id, job)]\<rparr>)"
    using inv by (simp add: binv_def core_def sums e)
  ultimately show ?thesis by (simp add: run binv_def)
qed (use inv in \<open>simp add: submit_def\<close>)

lemma init_binv: "binv grp ng nb {#} {#} (bounce_init nb)"
  by (simp add: binv_def jobs_ok_def core_def bounce_init_def od_keys_def)

lemma bounce_reachable_inv:
  assumes "bounce_reachable acc grp ng nb s" and acc: "\<forall>i. acc i"
  shows "binv grp ng nb {#} {#} s"
  using assms(1)
proof (induction rule: bounce_reachable.induct)
  case reach_start
  show ?case by (rule init_binv)
next
  case (reach_next s s')
  from reach_next(2) show ?case
  proof cases
    case (step_submit job_id spec nbytes store gpu_ids)
    then show ?thesis using submit_binv [OF reach_next(3)] by simp
  next
    case (step_pump p)
    then show ?thesis using pump_ok(2) [OF reach_next(3) acc] by simp
  next
    case (step_take_results store)
    then show ?thesis using reach_next(3) by (simp add: take_results_def binv_def core_def)
  next
    case step_take_failed
    then show ?thesis using reach_next(3) by (simp add: take_failed_gpu_blocks_def binv_def core_def)
  qed
qed

text \<open>Slots lent to the chunks of a job.\<close>

definition lent :: "direct_job \<Rightarrow> nat list" where
  "lent j = concat (map (map fst \<circ> snd) (dj_copies j)) @ concat (map (fst \<circ> snd) (dj_reads j))"

lemma mset_lent: "mset (lent j) = jslots j"
  by (simp add: lent_def jslots_def mset_concat_map del: mset_concat)

text \<open>
  C12: Bounce buffers are neither lost nor shared. In every state the controller can reach, whatever the
  order in which copies, writes and reads finish and whichever of them fail, the free slots together
  with the slots lent to chunks in flight are exactly the slots \<open>0 .. n_bounce - 1\<close>, each once; every job
  still open has items left, and its items done plus those in flight are the ones started.
\<close>

theorem bounce_slots_conserved:
  assumes "bounce_reachable acc grp ng nb s" and "\<forall>i. acc i"
  shows "mset (b_free s @ concat (map (lent \<circ> snd) (b_jobs s))) = mset [0..<nb]
     \<and> (\<forall>(jid, j) \<in> set (b_jobs s). dj_id j = jid \<and> dj_done j < length (dj_items j) \<and> dj_next j \<le> length (dj_items j)
          \<and> dj_done j + length (lent j) = dj_next j)"
proof -
  have inv: "binv grp ng nb {#} {#} s" by (rule bounce_reachable_inv [OF assms])
  have "mset (concat (map (lent \<circ> snd) js)) = sumj jslots js" for js
    by (induction js) (auto simp: sumj_def mset_lent)
  moreover have "length (lent j) = size (jslots j)" for j using mset_lent [of j] by (metis size_mset)
  ultimately show ?thesis
    using inv by (auto simp: binv_def core_def jobs_ok_def job_ok_def job_shape_def)
qed

text \<open>A worker with two bounce slots and one store of three blocks.\<close>

definition demo_store :: bounce where
  "demo_store = fst (submit (\<lambda>_. 4) 1 True [10, 11, 12] \<lparr>sp_keys = [[1], [2], [3]], sp_slots = [5, 6, 7], sp_epoch = 0, sp_seq = 1\<rparr>
     (bounce_init 2))"

lemma demo_store_reachable: "bounce_reachable (\<lambda>_. True) (\<lambda>_. 0) 1 2 demo_store"
  unfolding demo_store_def
  by (rule reach_next [OF reach_start step_submit]) (simp_all add: bounce_init_def od_keys_def)

theorem bounce_slots_conserved_witness:
  "bounce_reachable (\<lambda>_. True) (\<lambda>_. 0) 1 2 demo_store
   \<and> mset (b_free demo_store @ concat (map (lent \<circ> snd) (b_jobs demo_store))) = mset [0..<2]"
  using bounce_slots_conserved [OF demo_store_reachable] demo_store_reachable by simp

text \<open>
  C13: A pump never raises and never leaves jobs waiting for nothing: on any honest reports, in any
  reachable state, no lookup of a sub-job fails and no assertion trips; and as long as a job is open
  after the pump, at least one copy, write or read is in flight (with one bounce slot or more).
\<close>

theorem pump_safe_and_busy:
  assumes "bounce_reachable acc grp ng nb s" and "\<forall>i. acc i" and "polls_legal acc grp ng p s" and "0 < nb"
  shows "snd (pump acc grp ng p s) = ok ()
     \<and> (b_jobs (fst (pump acc grp ng p s)) \<noteq> [] \<longrightarrow>
         b_g2b (fst (pump acc grp ng p s)) \<noteq> [] \<or> b_writes (fst (pump acc grp ng p s)) \<noteq> []
         \<or> b_reads (fst (pump acc grp ng p s)) \<noteq> [] \<or> b_b2g (fst (pump acc grp ng p s)) \<noteq> [])"
proof -
  have inv: "binv grp ng nb {#} {#} s" by (rule bounce_reachable_inv [OF assms(1,2)])
  show ?thesis
    using pump_ok(1) [OF inv assms(2,3)] pump_never_idle [OF inv assms(2,3,4)] by (auto simp: queued_def)
qed

definition no_polls :: polls where
  "no_polls = \<lparr>p_g2b = [], p_writes = [], p_reads = [], p_b2g = []\<rparr>"

lemma no_polls_legal: "polls_legal acc grp ng no_polls s"
  by (simp add: polls_legal_def no_polls_def reported_def)

theorem pump_safe_and_busy_witness:
  "snd (pump (\<lambda>_. True) (\<lambda>_. 0) 1 no_polls demo_store) = ok ()"
  using pump_safe_and_busy [OF demo_store_reachable _ no_polls_legal] by simp

section \<open>Waiting for all jobs\<close>

text \<open>A sequence of pumps whose reports are honest and not empty while something is in flight.\<close>

fun live_run :: "(nat \<Rightarrow> bool) \<Rightarrow> (key \<Rightarrow> nat) \<Rightarrow> nat \<Rightarrow> polls list \<Rightarrow> bounce \<Rightarrow> bool" where
  "live_run acc grp ng [] s = True"
| "live_run acc grp ng (p # ps) s =
     (polls_legal acc grp ng p s \<and> (0 < queued s \<longrightarrow> 0 < reports p) \<and> live_run acc grp ng ps (fst (pump acc grp ng p s)))"

lemma pump_progress:
  assumes inv: "binv grp ng nb {#} {#} s" and acc: "\<forall>i. acc i" and leg: "polls_legal acc grp ng p s" and nb: "0 < nb"
    and live: "0 < queued s \<longrightarrow> 0 < reports p" and jobs: "b_jobs (fst (pump acc grp ng p s)) \<noteq> []"
  shows "weight (fst (pump acc grp ng p s)) < weight s"
proof (cases "reports p = 0")
  case True
  then show ?thesis
    using pump_ok(4) [OF inv acc leg True] live pump_never_idle [OF inv acc leg nb jobs] by simp
next
  case False
  then show ?thesis using pump_ok(3) [OF inv acc leg] by simp
qed

declare wait_all.simps [simp del]

lemma wait_all_done:
  assumes "binv grp ng nb {#} {#} s" and "\<forall>i. acc i" and "0 < nb" and "live_run acc grp ng ps s" and "weight s < length ps"
  shows "\<exists>s'. wait_all acc grp ng ps s = Some (s', ok ()) \<and> b_jobs s' = [] \<and> binv grp ng nb {#} {#} s'"
  using assms(1,4,5)
proof (induction ps arbitrary: s)
  case (Cons p ps)
  show ?case
  proof (cases "b_jobs s = []")
    case True
    then show ?thesis using Cons.prems(1) by (simp add: wait_all.simps)
  next
    case False
    have leg: "polls_legal acc grp ng p s" and live: "0 < queued s \<longrightarrow> 0 < reports p"
      and rest: "live_run acc grp ng ps (fst (pump acc grp ng p s))" using Cons.prems(2) by simp_all
    note ok = pump_ok [OF Cons.prems(1) assms(2) leg]
    obtain s1 where run: "pump acc grp ng p s = (s1, ok ())" using ok(1) by (cases "pump acc grp ng p s") simp
    have w: "wait_all acc grp ng (p # ps) s = wait_all acc grp ng ps s1"
      using False run by (simp add: wait_all.simps [of acc grp ng "p # ps"])
    show ?thesis
    proof (cases "b_jobs s1 = []")
      case True
      then show ?thesis using ok(2) run w by (simp add: wait_all.simps)
    next
      case open_jobs: False
      have "weight s1 < weight s"
        using pump_progress [OF Cons.prems(1) assms(2) leg assms(3) live] open_jobs run by simp
      then show ?thesis using Cons.IH [of s1] ok(2) run w rest Cons.prems(3) by simp
    qed
  qed
qed simp

text \<open>
  C14: \<^verbatim>\<open>wait_all\<close> returns. From any reachable state, if whatever is in flight keeps being reported (at
  least one report per pump while there is something in flight, in any order and with any outcome),
  the loop ends without an exception after at most three pumps per item not yet started and two per
  sub-job in flight, with every job closed and every bounce slot free again.
\<close>

theorem wait_all_returns:
  assumes "bounce_reachable acc grp ng nb s" and "\<forall>i. acc i" and "0 < nb"
    and "live_run acc grp ng ps s"
    and "3 * sum_list (map (\<lambda>(_, j). length (dj_items j) - dj_next j) (b_jobs s)) + 2 * queued s < length ps"
  shows "\<exists>s'. wait_all acc grp ng ps s = Some (s', ok ()) \<and> b_jobs s' = [] \<and> mset (b_free s') = mset [0..<nb]"
proof -
  have inv: "binv grp ng nb {#} {#} s" by (rule bounce_reachable_inv [OF assms(1,2)])
  have "todo js = sum_list (map (\<lambda>(_, j). length (dj_items j) - dj_next j) js)" for js
    by (induction js) (auto simp: todo_def)
  then have "weight s < length ps" using assms(5) by (simp add: weight_def queued_def)
  from wait_all_done [OF inv assms(2,3,4) this] show ?thesis by (auto simp: binv_def core_def)
qed

text \<open>The whole life of the small job: copied out in two chunks, each written, then done.\<close>

definition demo_polls :: "polls list" where
  "demo_polls = [no_polls, no_polls\<lparr>p_g2b := [1]\<rparr>, no_polls\<lparr>p_writes := [(2, True)]\<rparr>, no_polls\<lparr>p_g2b := [3]\<rparr>,
     no_polls\<lparr>p_writes := [(4, False)]\<rparr>, no_polls, no_polls, no_polls, no_polls, no_polls]"

lemmas pump_defs = pump_def pump1_def pump2_def pump3_def pump4_def pump5_def bseq_def copied_out_def written_def
  read_done_def copied_in_def start_chunk_def pop_job_def new_sub_def set_job_def settle_def finish_def make_gpu_spec_def

lemma demo_live: "live_run (\<lambda>_. True) (\<lambda>_. 0) 1 demo_polls demo_store"
  by (simp add: demo_polls_def demo_store_def submit_def bounce_init_def Let_def polls_legal_def reported_def no_polls_def
      pump_defs reports_def queued_def od_keys_def pslice_def upt_rec numeral_2_eq_2)

theorem wait_all_returns_witness:
  "live_run (\<lambda>_. True) (\<lambda>_. 0) 1 demo_polls demo_store
   \<and> (\<exists>s'. wait_all (\<lambda>_. True) (\<lambda>_. 0) 1 demo_polls demo_store = Some (s', ok ()) \<and> b_jobs s' = [] \<and> mset (b_free s') = mset [0..<2])"
proof -
  have "3 * sum_list (map (\<lambda>(_, j). length (dj_items j) - dj_next j) (b_jobs demo_store)) + 2 * queued demo_store < length demo_polls"
    by (simp add: demo_store_def demo_polls_def submit_def bounce_init_def queued_def)
  then show ?thesis using wait_all_returns [OF demo_store_reachable _ _ demo_live] demo_live by simp
qed

end
