(* ===== verification/Slab_Spec.thy ===== *)
theory Slab_Spec
  imports Worker_Fs Bounce Py_Strings
begin

text \<open>
  How a rank's slabs come up (\<^verbatim>\<open>multinode.py\<close>: \<^verbatim>\<open>slab_geometry\<close>, \<^verbatim>\<open>_slab_persist_value\<close>,
  \<^verbatim>\<open>_dir_fingerprint\<close>, \<^verbatim>\<open>_content_identity\<close>, \<^verbatim>\<open>_slab_should_wipe\<close>, \<^verbatim>\<open>_atomic_write_text\<close>,
  \<^verbatim>\<open>discover_rank0_base_path\<close>, \<^verbatim>\<open>MultiNodeSlabOffloadingSpec\<close>). Theorems: the slabs fit the disk budget
  and every slot fits its block; slabs written under any other identity are not served after a start;
  a start under the same identity keeps them, with persistence on or on a host that has not rebooted.
\<close>

section \<open>Geometry\<close>

definition round_up :: "int \<Rightarrow> int \<Rightarrow> int" where
  "round_up n m = - ((- n) div m) * m"

definition slot_size :: "nat \<Rightarrow> nat" where
  "slot_size b = nat (round_up (int (SLAB_HEADER_BYTES + b)) 4096)"

definition slab_geometry :: "nat list \<Rightarrow> nat \<Rightarrow> (nat list \<times> nat list) res" where
  "slab_geometry group_bytes budget =
     (let slot_bytes = map slot_size group_bytes in
      case slot_bytes of
        [] \<Rightarrow> err IndexError
      | b0 # rest \<Rightarrow>
          let per_row = b0 + sum_list (map (\<lambda>b. DRAFTER_PER_TARGET * b) rest);
              n = max 1 (budget div per_row)
          in ok (slot_bytes, n # replicate (length group_bytes - 1) (DRAFTER_PER_TARGET * n)))"

lemma round_up_bounds:
  assumes "0 < m" and "0 \<le> n"
  shows "n \<le> round_up n m" and "round_up n m < n + m" and "m dvd round_up n m"
proof -
  have "(- n) div m * m + (- n) mod m = - n" by simp
  moreover have "0 \<le> (- n) mod m" "(- n) mod m < m" using assms(1) by simp_all
  moreover have "round_up n m = - ((- n) div m * m)" by (simp add: round_up_def)
  ultimately show "n \<le> round_up n m" and "round_up n m < n + m" by linarith+
  show "m dvd round_up n m" by (simp add: round_up_def)
qed

lemma slot_size_facts:
  "SLAB_HEADER_BYTES + b \<le> slot_size b" "slot_size b < SLAB_HEADER_BYTES + b + 4096" "4096 dvd slot_size b" "0 < slot_size b"
proof -
  let ?r = "round_up (int (SLAB_HEADER_BYTES + b)) 4096"
  have b: "int (SLAB_HEADER_BYTES + b) \<le> ?r" "?r < int (SLAB_HEADER_BYTES + b) + 4096" "4096 dvd ?r"
    using round_up_bounds [of 4096 "int (SLAB_HEADER_BYTES + b)"] by simp_all
  have r: "int (slot_size b) = ?r" using b(1) by (simp add: slot_size_def)
  show le: "SLAB_HEADER_BYTES + b \<le> slot_size b" using b(1) r by linarith
  show "slot_size b < SLAB_HEADER_BYTES + b + 4096" using b(2) r by linarith
  have "(4096::int) dvd int (slot_size b)" using b(3) r by simp
  then show "4096 dvd slot_size b" by presburger
  show "0 < slot_size b" using le by (simp add: SLAB_HEADER_BYTES_def)
qed

text \<open>
  C16: The slabs fit. For any list of block sizes and any budget, every slot has room for the header and
  the block of its group, is a multiple of the 4 KiB block size and wastes less than one; group 0 gets
  \<open>n\<close> slots and every other group four times as many; and \<open>n\<close> is the largest number for which all slabs
  together stay within the budget, or one when not even a single row fits.
\<close>

theorem slab_geometry_fits:
  assumes "group_bytes \<noteq> []"
  shows "\<exists>slot_bytes n. slab_geometry group_bytes budget =
       ok (slot_bytes, n # replicate (length group_bytes - 1) (DRAFTER_PER_TARGET * n))
     \<and> length slot_bytes = length group_bytes
     \<and> (\<forall>g < length group_bytes. SLAB_HEADER_BYTES + group_bytes ! g \<le> slot_bytes ! g
          \<and> slot_bytes ! g < SLAB_HEADER_BYTES + group_bytes ! g + 4096 \<and> 4096 dvd slot_bytes ! g)
     \<and> 0 < n
     \<and> (let row = hd slot_bytes + DRAFTER_PER_TARGET * sum_list (tl slot_bytes)
        in n * row = sum_list (map2 (*) slot_bytes (n # replicate (length group_bytes - 1) (DRAFTER_PER_TARGET * n)))
           \<and> (row \<le> budget \<longrightarrow> n * row \<le> budget) \<and> budget < (n + 1) * row)"
proof -
  obtain b bs where gb: "group_bytes = b # bs" using assms by (cases group_bytes) auto
  define rest where "rest = map slot_size bs"
  define row where "row = slot_size b + DRAFTER_PER_TARGET * sum_list rest"
  define n where "n = max 1 (budget div row)"
  have pos: "0 < row" using slot_size_facts(4) [of b] by (simp add: row_def)
  have sum: "sum_list (map (\<lambda>b. DRAFTER_PER_TARGET * b) xs) = DRAFTER_PER_TARGET * sum_list xs" for xs
    by (simp add: sum_list_const_mult)
  have run: "slab_geometry group_bytes budget =
      ok (slot_size b # rest, n # replicate (length group_bytes - 1) (DRAFTER_PER_TARGET * n))"
    by (simp add: slab_geometry_def gb Let_def n_def row_def rest_def sum)
  have "sum_list (map2 (*) xs (replicate (length xs) c)) = c * sum_list xs" for xs and c :: nat
    by (induction xs) (simp_all add: algebra_simps)
  from this [of rest "DRAFTER_PER_TARGET * n"]
  have total: "n * row = sum_list (map2 (*) (slot_size b # rest) (n # replicate (length group_bytes - 1) (DRAFTER_PER_TARGET * n)))"
    by (simp add: row_def gb rest_def algebra_simps)
  have within: "n * row \<le> budget" if "row \<le> budget"
  proof -
    have "1 \<le> budget div row" using that pos by (simp add: div_greater_zero_iff Suc_leI)
    then have "n = budget div row" by (simp add: n_def)
    then show ?thesis by simp
  qed
  have "budget < (budget div row + 1) * row" using pos by (simp add: dividend_less_div_times)
  also have "\<dots> \<le> (n + 1) * row" by (simp add: n_def)
  finally have less: "budget < (n + 1) * row" .
  show ?thesis
    using run total within less slot_size_facts(1-3)
    by (intro exI [of _ "slot_size b # rest"] exI [of _ n])
      (auto simp: gb rest_def row_def n_def Let_def nth_Cons split: nat.splits)
qed

theorem slab_geometry_fits_witness:
  "\<exists>n. slab_geometry [4000, 100] 40960 = ok ([8192, 4096], [n, 4 * n]) \<and> n * (8192 + 4 * 4096) \<le> 40960"
  using slab_geometry_fits [of "[4000, 100]" 40960]
  by (auto simp: slab_geometry_def slot_size_def round_up_def SLAB_HEADER_BYTES_def DRAFTER_PER_TARGET_def Let_def)

section \<open>Flags and identities\<close>

text \<open>Values a configuration may carry for the flag: JSON strings, booleans, numbers, or nothing.\<close>

datatype py_flag = FlagStr string | FlagBool bool | FlagInt int | FlagNone

definition slab_persist_value :: "py_flag \<Rightarrow> bool" where
  "slab_persist_value v =
     (case v of
        FlagStr s \<Rightarrow> map lower (strip s) \<notin> {''0'', ''false'', ''no'', ''off'', []}
      | FlagBool b \<Rightarrow> b
      | FlagInt n \<Rightarrow> n \<noteq> 0
      | FlagNone \<Rightarrow> False)"

definition slab_persist_default :: "string option \<Rightarrow> bool" where
  "slab_persist_default env = slab_persist_value (FlagStr (case env of None \<Rightarrow> ''1'' | Some v \<Rightarrow> v))"

text \<open>
  \<^verbatim>\<open>_dir_fingerprint\<close> of a directory as \<^verbatim>\<open>os.walk\<close> lists it: per directory its path relative to the root
  (with a trailing separator, empty for the root) and its files with size and modification time
  (\<^const>\<open>None\<close> when \<^verbatim>\<open>stat\<close> fails). \<open>sha\<close> is SHA-256 in hex, \<open>dec\<close> the decimal text of a number and \<open>name_le\<close>
  the order of strings.
\<close>

type_synonym walk = "(string \<times> (string \<times> (nat \<times> nat) option) list) list"

definition weight_file :: "string \<Rightarrow> bool" where
  "weight_file name = list_ex (ends_with name)
     [''.safetensors'', ''.json'', ''.bin'', ''.pt'', ''.pth'', ''.gguf'']"

fun insert_file :: "(string \<Rightarrow> string \<Rightarrow> bool) \<Rightarrow> string \<times> 'a \<Rightarrow> (string \<times> 'a) list \<Rightarrow> (string \<times> 'a) list" where
  "insert_file le x [] = [x]"
| "insert_file le x (y # ys) = (if le (fst x) (fst y) then x # y # ys else y # insert_file le x ys)"

definition sorted_files :: "(string \<Rightarrow> string \<Rightarrow> bool) \<Rightarrow> (string \<times> 'a) list \<Rightarrow> (string \<times> 'a) list" where
  "sorted_files le fs = foldr (insert_file le) fs []"

definition fp_entries :: "(nat \<Rightarrow> string) \<Rightarrow> (string \<Rightarrow> string \<Rightarrow> bool) \<Rightarrow> walk \<Rightarrow> string list" where
  "fp_entries dec name_le w =
     concat (map (\<lambda>(d, fs).
        concat (map (\<lambda>(name, st).
          if \<not> weight_file name then []
          else case st of None \<Rightarrow> []
            | Some (bytes, mtime) \<Rightarrow> [d @ name @ [CHR 0x00] @ dec bytes @ [CHR 0x00] @ dec mtime @ [CHR 0x0A]])
          (sorted_files name_le fs))) w)"

definition dir_fingerprint :: "(string \<Rightarrow> string) \<Rightarrow> (nat \<Rightarrow> string) \<Rightarrow> (string \<Rightarrow> string \<Rightarrow> bool) \<Rightarrow> walk option \<Rightarrow> string option" where
  "dir_fingerprint sha dec name_le dir =
     (case dir of
        None \<Rightarrow> None
      | Some w \<Rightarrow> let es = fp_entries dec name_le w in if es = [] then None else Some (sha (concat es)))"

text \<open>
  The engine configuration \<^verbatim>\<open>_content_identity\<close> reads: attributes by name (\<^const>\<open>None\<close> for one that is
  missing), the two weight directories, and what the engine's dtype rule answers.
\<close>

record vllm_cfg =
  vc_model :: "string \<rightharpoonup> string"
  vc_hf :: "string \<rightharpoonup> string"
  vc_cache :: "string \<rightharpoonup> string"
  vc_parallel :: "string \<rightharpoonup> string"
  vc_weights :: "walk option"
  vc_cache_dtype :: string
  vc_hashseed :: "string option"

definition content_identity :: "(walk option \<Rightarrow> string option) \<Rightarrow> (string option \<Rightarrow> string) \<Rightarrow> (string option \<Rightarrow> string)
    \<Rightarrow> vllm_cfg \<Rightarrow> walk option \<Rightarrow> string option \<Rightarrow> (string \<times> string option) list" where
  "content_identity fp js str cfg draft salt =
     [(''weights_target'', fp (vc_weights cfg)), (''weights_draft'', fp draft),
      (''dtype'', Some (str (vc_model cfg ''dtype''))),
      (''quantization'', vc_model cfg ''quantization''), (''revision'', vc_model cfg ''revision''),
      (''hf_overrides'', Some (js (vc_model cfg ''hf_overrides''))),
      (''rope_theta'', vc_hf cfg ''rope_theta''), (''rope_scaling'', Some (js (vc_hf cfg ''rope_scaling''))),
      (''max_position_embeddings'', vc_hf cfg ''max_position_embeddings''),
      (''cache_dtype'', Some (vc_cache_dtype cfg)), (''kv_cache_layout'', vc_cache cfg ''kv_cache_layout''),
      (''cp_kv_cache_interleave_size'', vc_parallel cfg ''cp_kv_cache_interleave_size''),
      (''prefix_caching_hash_algo'', vc_cache cfg ''prefix_caching_hash_algo''),
      (''pythonhashseed'', vc_hashseed cfg), (''slab_salt'', salt)]"

section \<open>Starting a worker\<close>

text \<open>\<^verbatim>\<open>slab-meta.json\<close> as read back: a key that is missing is \<^const>\<open>None\<close>.\<close>

record slab_meta =
  mt_version :: "int option"
  mt_boot :: "string option"
  mt_slot_bytes :: "nat list option"
  mt_slot_counts :: "nat list option"
  mt_group_bytes :: "nat list option"
  mt_disk_bytes :: "nat option"
  mt_engine :: "string option"
  mt_run_config :: "string option"
  mt_identity :: "(string \<times> string option) list option"

definition SLAB_META_VERSION :: int where "SLAB_META_VERSION = 3"

definition slab_should_wipe :: "slab_meta option \<Rightarrow> nat list \<Rightarrow> nat list \<Rightarrow> string \<Rightarrow> string \<Rightarrow> string \<Rightarrow> bool
    \<Rightarrow> (string \<times> string option) list option \<Rightarrow> bool" where
  "slab_should_wipe old sbytes scounts run_config engine boot persist identity =
     (case old of
        None \<Rightarrow> True
      | Some m \<Rightarrow>
          if mt_version m \<noteq> Some SLAB_META_VERSION \<or> mt_slot_bytes m \<noteq> Some sbytes
             \<or> mt_slot_counts m \<noteq> Some scounts \<or> mt_engine m \<noteq> Some engine
             \<or> mt_run_config m \<noteq> Some run_config \<or> mt_identity m \<noteq> identity then True
          else if \<not> persist \<and> mt_boot m \<noteq> Some boot then True
          else False)"

text \<open>A rank's directory; a missing or unreadable meta file is \<^const>\<open>None\<close>.\<close>

record rank_dir =
  rd_meta :: "slab_meta option"
  rd_epoch :: epoch_file
  rd_slabs :: "byte list list"

text \<open>What a start reads besides the directory.\<close>

record start_env =
  se_group_bytes :: "nat list"
  se_budget :: nat
  se_boot :: string
  se_engine :: string
  se_run_config :: string
  se_identity :: "(string \<times> string option) list"
  se_persist :: "py_flag option"
  se_persist_env :: "string option"
  se_bounce :: nat

definition new_meta :: "start_env \<Rightarrow> nat list \<Rightarrow> nat list \<Rightarrow> slab_meta" where
  "new_meta e sbytes counts =
     \<lparr>mt_version = Some SLAB_META_VERSION, mt_boot = Some (se_boot e), mt_slot_bytes = Some sbytes,
      mt_slot_counts = Some counts, mt_group_bytes = Some (se_group_bytes e), mt_disk_bytes = Some (se_budget e),
      mt_engine = Some (se_engine e), mt_run_config = Some (se_run_config e), mt_identity = Some (se_identity e)\<rparr>"

definition persist_of :: "start_env \<Rightarrow> bool" where
  "persist_of e = (case se_persist e of None \<Rightarrow> slab_persist_default (se_persist_env e) | Some v \<Rightarrow> slab_persist_value v)"

text \<open>\<^verbatim>\<open>get_worker\<close>: the directory afterwards, the open slabs and the transfer engine.\<close>

definition get_worker :: "start_env \<Rightarrow> rank_dir \<Rightarrow> (rank_dir \<times> slab_io \<times> bounce) res" where
  "get_worker e d =
     (case slab_geometry (se_group_bytes e) (se_budget e) of
        Inl x \<Rightarrow> err x
      | Inr (sb, counts) \<Rightarrow>
          let io0 = slab_open (rd_slabs d) sb counts 0 [];
              io1 = (if slab_should_wipe (rd_meta d) sb counts (se_run_config e) (se_engine e) (se_boot e)
                          (persist_of e) (Some (se_identity e)) then wipe io0 else io0);
              io2 = io1\<lparr>io_epoch := (case rd_epoch d of EpochFile n \<Rightarrow> n | _ \<Rightarrow> 0)\<rparr>
          in ok (d\<lparr>rd_meta := Some (new_meta e sb counts), rd_slabs := files io2\<rparr>, io2, bounce_init (se_bounce e)))"

text \<open>Rank 0's directory as the scheduler's index sees it.\<close>

definition as_rank0 :: "rank_dir \<Rightarrow> rank0_dir" where
  "as_rank0 d =
     \<lparr>r0_meta = (case rd_meta d of None \<Rightarrow> None
        | Some m \<Rightarrow> (case mt_slot_bytes m of None \<Rightarrow> None
            | Some sb \<Rightarrow> (case mt_slot_counts m of None \<Rightarrow> None | Some sc \<Rightarrow> Some (zip sb sc)))),
      r0_epoch = rd_epoch d, r0_slabs = rd_slabs d\<rparr>"

text \<open>The identity under which a meta file vouches for the slabs beside it.\<close>

definition same_identity :: "start_env \<Rightarrow> start_env \<Rightarrow> bool" where
  "same_identity e e' =
     (slab_geometry (se_group_bytes e') (se_budget e') = slab_geometry (se_group_bytes e) (se_budget e)
      \<and> se_engine e' = se_engine e \<and> se_run_config e' = se_run_config e \<and> se_identity e' = se_identity e)"

lemma get_worker_okD:
  assumes "get_worker e d = ok (d', io, b)"
  obtains sb sc where "slab_geometry (se_group_bytes e) (se_budget e) = ok (sb, sc)" "rd_meta d' = Some (new_meta e sb sc)"
    "rd_slabs d' = files io" "rd_epoch d' = rd_epoch d" "slot_bytes io = sb" "slot_counts io = sc" "b = bounce_init (se_bounce e)"
    "files io = (if slab_should_wipe (rd_meta d) sb sc (se_run_config e) (se_engine e) (se_boot e) (persist_of e) (Some (se_identity e))
       then map (\<lambda>_. []) sb else files (slab_open (rd_slabs d) sb sc 0 []))"
proof -
  obtain sb sc where geo: "slab_geometry (se_group_bytes e) (se_budget e) = ok (sb, sc)"
    using assms by (cases "slab_geometry (se_group_bytes e) (se_budget e)") (auto simp: get_worker_def)
  show ?thesis
    by (rule that [OF geo])
      (use assms geo in \<open>auto simp: get_worker_def Let_def wipe_def slab_open_def comp_def map_replicate_const\<close>)
qed

lemma scan_empty_slab: "files io ! g = [] \<Longrightarrow> scan io g ep = []"
  unfolding scan_def by (cases "[0..<slot_counts io ! g]") (simp_all add: pread_def SLAB_HEADER_BYTES_def)

text \<open>
  C17: Persisted blocks are served only under the identity they were written for. When the engine build,
  the run configuration, the geometry or anything in the content identity differs between the last
  start in a directory and this one, or when persistence is off and the host has rebooted, no slot of
  any group is visible after the start, in any epoch. Otherwise the start keeps the slabs byte for
  byte. Either way the scheduler attaches to the geometry the worker opened.
\<close>

theorem start_keeps_or_hides:
  assumes "get_worker e d = ok (d1, io1, b1)" and "get_worker e' (d1\<lparr>rd_slabs := slabs\<rparr>) = ok (d2, io2, b2)"
    and "g < length (se_group_bytes e')"
  shows "(if same_identity e e' \<and> (persist_of e' \<or> se_boot e' = se_boot e)
     then files io2 = files (slab_open slabs (slot_bytes io1) (slot_counts io1) 0 [])
        \<and> slot_bytes io2 = slot_bytes io1 \<and> slot_counts io2 = slot_counts io1
     else scan io2 g ep = [])
     \<and> r0_meta (as_rank0 d2) = Some (zip (slot_bytes io2) (slot_counts io2)) \<and> r0_slabs (as_rank0 d2) = files io2"
proof -
  obtain sb1 sc1 where 1: "slab_geometry (se_group_bytes e) (se_budget e) = ok (sb1, sc1)" "rd_meta d1 = Some (new_meta e sb1 sc1)"
      "slot_bytes io1 = sb1" "slot_counts io1 = sc1"
    using get_worker_okD [OF assms(1)] by metis
  let ?W = "\<lambda>sb sc. slab_should_wipe (rd_meta d1) sb sc (se_run_config e') (se_engine e') (se_boot e') (persist_of e') (Some (se_identity e'))"
  have d: "rd_meta (d1\<lparr>rd_slabs := slabs\<rparr>) = rd_meta d1" "rd_slabs (d1\<lparr>rd_slabs := slabs\<rparr>) = slabs" by simp_all
  obtain sb2 sc2 where 2: "slab_geometry (se_group_bytes e') (se_budget e') = ok (sb2, sc2)" "rd_meta d2 = Some (new_meta e' sb2 sc2)"
      "rd_slabs d2 = files io2" "slot_bytes io2 = sb2" "slot_counts io2 = sc2"
      "files io2 = (if ?W sb2 sc2 then map (\<lambda>_. []) sb2 else files (slab_open slabs sb2 sc2 0 []))"
    by (rule get_worker_okD [OF assms(2), unfolded d])
  have w: "?W sb2 sc2 \<longleftrightarrow> \<not> (same_identity e e' \<and> (persist_of e' \<or> se_boot e' = se_boot e))"
    using 1(1,2) 2(1) by (auto simp: slab_should_wipe_def new_meta_def same_identity_def)
  have "length sb2 = length (se_group_bytes e')"
    using 2(1) by (auto simp: slab_geometry_def Let_def split: list.splits)
  then have "scan io2 g ep = []" if "\<not> (same_identity e e' \<and> (persist_of e' \<or> se_boot e' = se_boot e))"
    using that w 2(6) assms(3) by (intro scan_empty_slab) simp
  moreover have "sb2 = sb1 \<and> sc2 = sc1" if "same_identity e e'" using that 1(1) 2(1) by (simp add: same_identity_def)
  ultimately show ?thesis
    using w 1(3,4) 2(2-6) by (auto simp: as_rank0_def new_meta_def)
qed

definition demo_env :: start_env where
  "demo_env = \<lparr>se_group_bytes = [100], se_budget = 8192, se_boot = ''b'', se_engine = ''v'', se_run_config = ''r'',
     se_identity = [(''dtype'', Some ''bf16'')], se_persist = Some (FlagStr ''off''), se_persist_env = None, se_bounce = 2\<rparr>"

theorem start_keeps_or_hides_witness:
  "\<exists>d1 io1 b1 d2 io2 b2. get_worker demo_env \<lparr>rd_meta = None, rd_epoch = NoEpochFile, rd_slabs = []\<rparr> = ok (d1, io1, b1)
     \<and> get_worker (demo_env\<lparr>se_boot := ''c''\<rparr>) (d1\<lparr>rd_slabs := [[1]]\<rparr>) = ok (d2, io2, b2) \<and> scan io2 0 0 = []"
proof -
  obtain d1 io1 b1 where r1: "get_worker demo_env \<lparr>rd_meta = None, rd_epoch = NoEpochFile, rd_slabs = []\<rparr> = ok (d1, io1, b1)"
    by (simp add: get_worker_def demo_env_def slab_geometry_def Let_def)
  obtain d2 io2 b2 where r2: "get_worker (demo_env\<lparr>se_boot := ''c''\<rparr>) (d1\<lparr>rd_slabs := [[1]]\<rparr>) = ok (d2, io2, b2)"
    by (simp add: get_worker_def demo_env_def slab_geometry_def Let_def)
  have "\<not> persist_of (demo_env\<lparr>se_boot := ''c''\<rparr>)"
    by (simp add: persist_of_def demo_env_def slab_persist_value_def strip_def is_space_def lower_def)
  then show ?thesis
    using start_keeps_or_hides [OF r1 r2, of 0 0] r1 r2 by (auto simp: demo_env_def)
qed

section \<open>Finding rank 0\<close>

text \<open>
  \<^verbatim>\<open>discover_rank0_base_path\<close>: of the directories named after the model for rank 0, the one modified
  last. A root that cannot be listed is \<^const>\<open>None\<close>; an entry is its name, whether it is a directory, and its
  modification time.
\<close>

fun first_max :: "('a \<Rightarrow> nat) \<Rightarrow> 'a list \<Rightarrow> 'a option" where
  "first_max f [] = None"
| "first_max f (x # xs) = (case first_max f xs of None \<Rightarrow> Some x | Some y \<Rightarrow> if f y \<le> f x then Some x else Some y)"

definition discover_rank0_base_path :: "string \<Rightarrow> (string \<times> bool \<times> nat) list option \<Rightarrow> string \<Rightarrow> string option" where
  "discover_rank0_base_path root listing model =
     (let safe = map (\<lambda>c. if c = CHR ''/'' then CHR ''_'' else c) model in
      case listing of
        None \<Rightarrow> None
      | Some names \<Rightarrow>
          let cands = filter (\<lambda>(n, isdir, _). starts_with n (safe @ ''_'') \<and> ends_with n ''_r0'' \<and> isdir) names in
          case first_max (\<lambda>(_, _, mtime). mtime) cands of
            None \<Rightarrow> None
          | Some (newest, _, _) \<Rightarrow> Some (root @ ''/'' @ take (length newest - length ''_r0'') newest))"

lemma first_max_in: "first_max f xs = Some x \<Longrightarrow> x \<in> set xs \<and> (\<forall>y \<in> set xs. f y \<le> f x)"
proof (induction xs arbitrary: x)
  case (Cons z zs)
  show ?case
  proof (cases "first_max f zs")
    case None
    then have "zs = []" by (cases zs) (auto split: option.splits if_splits)
    then show ?thesis using Cons.prems by simp
  next
    case (Some y)
    then show ?thesis using Cons.IH [OF Some] Cons.prems by (auto split: if_splits)
  qed
qed simp

text \<open>The directory the scheduler then opens, base path and suffix, is one of the root's entries.\<close>

lemma discovered_dir_exists:
  assumes "discover_rank0_base_path root (Some names) model = Some base"
  shows "\<exists>n mtime. (n, True, mtime) \<in> set names \<and> base @ ''_r0'' = root @ ''/'' @ n"
proof -
  let ?safe = "map (\<lambda>c. if c = CHR ''/'' then CHR ''_'' else c) model"
  let ?cands = "filter (\<lambda>(n, isdir, _). starts_with n (?safe @ ''_'') \<and> ends_with n ''_r0'' \<and> isdir) names"
  obtain n isdir mtime where m: "first_max (\<lambda>(_, _, mtime). mtime) ?cands = Some (n, isdir, mtime)"
      and base: "base = root @ ''/'' @ take (length n - length ''_r0'') n"
    using assms by (auto simp: discover_rank0_base_path_def Let_def split: option.splits)
  have c: "(n, isdir, mtime) \<in> set names" "ends_with n ''_r0''" "isdir" using first_max_in [OF m] by auto
  have "take (length n - length ''_r0'') n @ ''_r0'' = n"
    using c(2) append_take_drop_id [of "length n - length ''_r0''" n] by (simp add: ends_with_def)
  then show ?thesis using base c by auto
qed

end
