(* ===== verification/Slab_Connector.thy ===== *)
theory Slab_Connector
  imports Slab_Lifecycle Bounce_Pump Slab_Spec
begin

text \<open>
  The connector between the engine and the slab store (\<^verbatim>\<open>multinode.py\<close>: \<^verbatim>\<open>MultiNodeWorkerMetadata\<close>,
  \<^verbatim>\<open>MultiNodeDirectConnectorWorker\<close>, \<^verbatim>\<open>MultiNodeSlabConnectorWorker\<close>, \<^verbatim>\<open>_FailureAwareScheduler\<close>, \<^verbatim>\<open>MultiNodeSlabConnector\<close>,
  \<^verbatim>\<open>MultiNodeSlabOffloadingSpec\<close>, \<^verbatim>\<open>SlabWorker\<close>, \<^verbatim>\<open>_atomic_write_json\<close>, \<^verbatim>\<open>_atomic_write_text\<close>). The base classes it extends belong to the
  engine: what is called of them is a record of parameters. Theorem: a job that failed on any one
  rank is never served by the scheduler's index, and its GPU blocks are reported as invalid.
\<close>

section \<open>Durable publication\<close>

text \<open>
  Into a temporary file, flushed, synced and closed, renamed over the path, then the directory is opened, synced and closed. The buffered
  writer repeats short writes until everything is written, as the loop of the slab store does. An exception leaves the temporary file.
\<close>

definition atomic_write :: "string \<Rightarrow> string \<Rightarrow> byte list \<Rightarrow> block_fs \<Rightarrow> block_fs \<times> unit res" where
  "atomic_write suffix path data fs =
     (let tmp = path @ suffix in
      case plain_call (bf_answers fs, []) of
        ((as, _), Inl e) \<Rightarrow> (fs\<lparr>bf_answers := as\<rparr>, err e)
      | ((as, _), Inr _) \<Rightarrow>
          (case write_steps [data] (as, []) of
             ((as1, f), Inl e) \<Rightarrow> (fs\<lparr>bf_files := (bf_files fs)(tmp \<mapsto> f), bf_answers := as1\<rparr>, err e)
           | ((as1, f), Inr _) \<Rightarrow>
               let fs1 = fs\<lparr>bf_files := (bf_files fs)(tmp := None, path \<mapsto> f)\<rparr> in
               (case fseq plain_call (\<lambda>_. closing plain_call) (as1, f) of ((as2, _), r) \<Rightarrow> (fs1\<lparr>bf_answers := as2\<rparr>, r))))"

definition atomic_write_json :: "('j \<Rightarrow> byte list) \<Rightarrow> string \<Rightarrow> string \<Rightarrow> 'j \<Rightarrow> block_fs \<Rightarrow> block_fs \<times> unit res" where
  "atomic_write_json dumps suffix path obj fs = atomic_write suffix path (dumps obj) fs"

definition atomic_write_text :: "string \<Rightarrow> string \<Rightarrow> byte list \<Rightarrow> block_fs \<Rightarrow> block_fs \<times> unit res" where
  "atomic_write_text suffix path text fs = atomic_write suffix path text fs"

text \<open>Under any answers and wherever the process dies, the path holds what it held or all of the data.\<close>

lemma atomic_write_whole:
  assumes "suffix \<noteq> []"
  shows "bf_files (fst (atomic_write suffix path data fs)) path \<in> {bf_files fs path, Some data}"
    and "is_ok (snd (atomic_write suffix path data fs)) \<Longrightarrow> bf_files (fst (atomic_write suffix path data fs)) path = Some data"
    and "p \<noteq> path \<Longrightarrow> p \<noteq> path @ suffix \<Longrightarrow> bf_files (fst (atomic_write suffix path data fs)) p = bf_files fs p"
proof -
  let ?r = "atomic_write suffix path data fs"
  have "bf_files (fst ?r) path \<in> {bf_files fs path, Some data} \<and> (is_ok (snd ?r) \<longrightarrow> bf_files (fst ?r) path = Some data)
      \<and> (p \<noteq> path \<longrightarrow> p \<noteq> path @ suffix \<longrightarrow> bf_files (fst ?r) p = bf_files fs p)" for p
  proof (cases rule: plain_call_cases [of "bf_answers fs" "[]"])
    case (good as0)
    obtain as f r where run: "write_steps [data] (as0, []) = ((as, f), r)" by (metis prod.exhaust)
    have ok: "is_ok r \<Longrightarrow> f = data" using write_steps_prefix [OF run] by auto
    show ?thesis
      using good(1) run ok assms by (cases r) (auto simp: atomic_write_def Let_def simp del: plain_call.simps split: prod.splits)
  qed (use assms in \<open>auto simp: atomic_write_def Let_def simp del: plain_call.simps\<close>)
  then show "bf_files (fst ?r) path \<in> {bf_files fs path, Some data}"
    and "is_ok (snd ?r) \<Longrightarrow> bf_files (fst ?r) path = Some data"
    and "p \<noteq> path \<Longrightarrow> p \<noteq> path @ suffix \<Longrightarrow> bf_files (fst ?r) p = bf_files fs p" by blast+
qed

section \<open>The worker's handle on the transfer engine\<close>

text \<open>\<^verbatim>\<open>SlabWorker\<close>; its \<^verbatim>\<open>get_finished\<close> is \<^const>\<open>worker_get_finished\<close>.\<close>

definition submit_store :: "(key \<Rightarrow> nat) \<Rightarrow> int \<Rightarrow> int list \<Rightarrow> slab_spec \<Rightarrow> bounce \<Rightarrow> bounce \<times> bool" where
  "submit_store nbytes job_id src dst = submit nbytes job_id True src dst"

definition submit_load :: "(key \<Rightarrow> nat) \<Rightarrow> int \<Rightarrow> slab_spec \<Rightarrow> int list \<Rightarrow> bounce \<Rightarrow> bounce \<times> bool" where
  "submit_load nbytes job_id src dst = submit nbytes job_id False dst src"

definition worker_wait :: "(nat \<Rightarrow> bool) \<Rightarrow> (key \<Rightarrow> nat) \<Rightarrow> nat \<Rightarrow> polls list \<Rightarrow> bounce \<Rightarrow> (bounce \<times> unit res) option" where
  "worker_wait acc grp ng ps s = wait_all acc grp ng ps s"

section \<open>Worker metadata\<close>

text \<open>
  What is called of the engine's base metadata (completed jobs and transfer statistics): a fresh one,
  marking a job as completed, recording a transfer (load or store, bytes), the completed
  jobs, and the base class's merge.
\<close>

record 'b base_ops =
  bo_new :: 'b
  bo_mark :: "int \<Rightarrow> 'b \<Rightarrow> 'b"
  bo_record :: "bool \<Rightarrow> nat \<Rightarrow> 'b \<Rightarrow> 'b"
  bo_completed :: "'b \<Rightarrow> int list"
  bo_merge :: "'b \<Rightarrow> 'b \<Rightarrow> 'b"

text \<open>Metadata of the base class, or with the failed jobs.\<close>

datatype 'b worker_meta = PlainMeta 'b | MultiMeta 'b "int set"

fun meta_base :: "'b worker_meta \<Rightarrow> 'b" where
  "meta_base (PlainMeta b) = b"
| "meta_base (MultiMeta b _) = b"

fun failed_jobs :: "'b worker_meta \<Rightarrow> int set" where
  "failed_jobs (PlainMeta b) = {}"
| "failed_jobs (MultiMeta b f) = f"

definition aggregate :: "('b, 'z) base_ops_scheme \<Rightarrow> 'b worker_meta \<Rightarrow> 'b worker_meta \<Rightarrow> 'b worker_meta" where
  "aggregate bo m n = MultiMeta (bo_merge bo (meta_base m) (meta_base n)) (failed_jobs m \<union> failed_jobs n)"

record 'b conn_worker =
  cw_meta :: "'b worker_meta"
  cw_load_jobs :: "(int, string) odict"
  cw_invalid :: "int set"

definition conn_worker_init :: "('b, 'z) base_ops_scheme \<Rightarrow> 'b conn_worker" where
  "conn_worker_init bo = \<lparr>cw_meta = MultiMeta (bo_new bo) {}, cw_load_jobs = [], cw_invalid = {}\<rparr>"

text \<open>\<^verbatim>\<open>_meta\<close>: metadata that is of the base class is replaced by one with a failure channel.\<close>

fun multi_meta :: "'b worker_meta \<Rightarrow> 'b worker_meta" where
  "multi_meta (PlainMeta b) = MultiMeta b {}"
| "multi_meta (MultiMeta b f) = MultiMeta b f"

text \<open>One result of the loop in \<^verbatim>\<open>get_finished\<close>, without and with the failure channel, and the request it ends.\<close>

definition record_result :: "('b, 'z) base_ops_scheme \<Rightarrow> transfer_result \<Rightarrow> 'b conn_worker \<Rightarrow> 'b \<Rightarrow> 'b" where
  "record_result bo r w b =
     (case (tr_success r, tr_size r) of (True, Some n) \<Rightarrow> bo_record bo (tr_job r \<in> set (od_keys (cw_load_jobs w))) n b | _ \<Rightarrow> b)"

definition direct_result :: "('b, 'z) base_ops_scheme \<Rightarrow> transfer_result \<Rightarrow> 'b conn_worker \<times> string set \<Rightarrow> 'b conn_worker \<times> string set" where
  "direct_result bo r = (\<lambda>(w, recv).
     let b = bo_mark bo (tr_job r) (record_result bo r w (meta_base (cw_meta w)));
         meta = (case cw_meta w of PlainMeta _ \<Rightarrow> PlainMeta b | MultiMeta _ f \<Rightarrow> MultiMeta b f)
     in (w\<lparr>cw_meta := meta, cw_load_jobs := AList.delete (tr_job r) (cw_load_jobs w)\<rparr>,
         case map_of (cw_load_jobs w) (tr_job r) of None \<Rightarrow> recv | Some rid \<Rightarrow> insert rid recv))"

definition slab_result :: "('b, 'z) base_ops_scheme \<Rightarrow> transfer_result \<Rightarrow> 'b conn_worker \<times> string set \<Rightarrow> 'b conn_worker \<times> string set" where
  "slab_result bo r = (\<lambda>(w, recv).
     let b = bo_mark bo (tr_job r) (record_result bo r w (meta_base (cw_meta w)));
         f = (if tr_success r then failed_jobs (cw_meta w) else insert (tr_job r) (failed_jobs (cw_meta w)))
     in (w\<lparr>cw_meta := MultiMeta b f, cw_load_jobs := AList.delete (tr_job r) (cw_load_jobs w)\<rparr>,
         case map_of (cw_load_jobs w) (tr_job r) of None \<Rightarrow> recv | Some rid \<Rightarrow> insert rid recv))"

text \<open>The blocks whose load failed are taken over from the controller, when there is one.\<close>

definition take_over :: "bounce option \<Rightarrow> 'b conn_worker \<Rightarrow> bounce option \<times> 'b conn_worker" where
  "take_over ctrl w = (case ctrl of
     None \<Rightarrow> (None, w)
   | Some s \<Rightarrow> let (s', bad) = take_failed_gpu_blocks s in (Some s', w\<lparr>cw_invalid := cw_invalid w \<union> bad\<rparr>))"

definition direct_get_finished :: "('b, 'z) base_ops_scheme \<Rightarrow> transfer_result list \<Rightarrow> bounce option \<Rightarrow> 'b conn_worker
    \<Rightarrow> bounce option \<times> 'b conn_worker \<times> string set" where
  "direct_get_finished bo rs ctrl w =
     (let (w1, recv) = fold (direct_result bo) rs (w, {}); (ctrl', w2) = take_over ctrl w1 in (ctrl', w2, recv))"

definition slab_get_finished :: "('b, 'z) base_ops_scheme \<Rightarrow> transfer_result list \<Rightarrow> bounce option \<Rightarrow> 'b conn_worker
    \<Rightarrow> bounce option \<times> 'b conn_worker \<times> string set" where
  "slab_get_finished bo rs ctrl w =
     (let (w1, recv) = fold (slab_result bo) rs (w\<lparr>cw_meta := multi_meta (cw_meta w)\<rparr>, {}); (ctrl', w2) = take_over ctrl w1 in (ctrl', w2, recv))"

definition take_invalid_block_ids :: "'b conn_worker \<Rightarrow> 'b conn_worker \<times> int set" where
  "take_invalid_block_ids w = (w\<lparr>cw_invalid := {}\<rparr>, cw_invalid w)"

definition build_connector_worker_meta :: "('b, 'z) base_ops_scheme \<Rightarrow> 'b conn_worker \<Rightarrow> 'b conn_worker \<times> 'b worker_meta option" where
  "build_connector_worker_meta bo w =
     (let meta = multi_meta (cw_meta w); w1 = w\<lparr>cw_meta := meta\<rparr> in
      if bo_completed bo (meta_base meta) = [] then (w1, None) else (w1\<lparr>cw_meta := MultiMeta (bo_new bo) {}\<rparr>, Some meta))"

section \<open>The scheduler\<close>

record job_status =
  js_store :: bool
  js_keys :: "key list"

record scheduler =
  sc_jobs :: "(int, job_status) odict"
  sc_manager :: manager

text \<open>Failed jobs mark the manager, in the order in which the set is iterated; a job that is not known is passed over.\<close>

definition mark_failed_job :: "(key \<Rightarrow> nat) \<Rightarrow> (int, job_status) odict \<Rightarrow> int \<Rightarrow> manager \<Rightarrow> manager \<times> unit res" where
  "mark_failed_job grp jobs j m =
     (case map_of jobs j of
        None \<Rightarrow> (m, ok ())
      | Some st \<Rightarrow> if js_store st then (mark_store_failed (js_keys st) m, ok ()) else mark_load_failed grp (js_keys st) m)"

text \<open>\<open>base\<close> is the completion path of the engine's scheduler, which runs afterwards.\<close>

definition update_connector_output :: "(key \<Rightarrow> nat) \<Rightarrow> ('b worker_meta option \<Rightarrow> scheduler \<Rightarrow> scheduler \<times> unit res) \<Rightarrow> int list
    \<Rightarrow> 'b worker_meta option \<Rightarrow> scheduler \<Rightarrow> scheduler \<times> unit res" where
  "update_connector_output grp base order meta s =
     (case for_keys (mark_failed_job grp (sc_jobs s)) order (sc_manager s) of
        (m, Inl e) \<Rightarrow> (s\<lparr>sc_manager := m\<rparr>, err e)
      | (m, Inr _) \<Rightarrow> base meta (s\<lparr>sc_manager := m\<rparr>))"

definition iteration_of :: "'b worker_meta option \<Rightarrow> int list \<Rightarrow> bool" where
  "iteration_of meta order = (distinct order \<and> set order = (case meta of None \<Rightarrow> {} | Some m \<Rightarrow> failed_jobs m))"

section \<open>The tier's configuration\<close>

text \<open>The offloading configuration as the tier reads it; extra settings are absent or parsed numbers.\<close>

record tier_config =
  tc_blocks_per_chunk :: nat
  tc_canonical :: bool
  tc_root_dir :: "string option"
  tc_disk_bytes :: "int option"
  tc_bounce_blocks :: "int option"
  tc_read_threads :: "int option"
  tc_write_threads :: "int option"

record tier_spec =
  ts_factor :: nat
  ts_root_dir :: string
  ts_disk_bytes :: int
  ts_n_bounce :: int
  ts_read_threads :: int
  ts_write_threads :: int
  ts_manager :: "manager option"

definition tier_spec_init :: "tier_config \<Rightarrow> tier_spec res" where
  "tier_spec_init c =
     (if tc_blocks_per_chunk c \<noteq> 1 \<or> tc_canonical c then err ValueError
      else case tc_root_dir c of
        None \<Rightarrow> err ValueError
      | Some root \<Rightarrow>
          if root = [] then err ValueError
          else ok \<lparr>ts_factor = tc_blocks_per_chunk c, ts_root_dir = root,
                   ts_disk_bytes = (case tc_disk_bytes c of None \<Rightarrow> 150000000000 | Some n \<Rightarrow> n),
                   ts_n_bounce = (case tc_bounce_blocks c of None \<Rightarrow> 48 | Some n \<Rightarrow> n),
                   ts_read_threads = (case tc_read_threads c of None \<Rightarrow> 8 | Some n \<Rightarrow> n),
                   ts_write_threads = (case tc_write_threads c of None \<Rightarrow> 8 | Some n \<Rightarrow> n), ts_manager = None\<rparr>)"

text \<open>The manager is made once and kept; it indexes the directory of rank 0.\<close>

definition get_manager :: "rank0_dir \<Rightarrow> tier_spec \<Rightarrow> tier_spec \<times> manager" where
  "get_manager dir t = (case ts_manager t of
     Some m \<Rightarrow> (t, m)
   | None \<Rightarrow> let m = mgr_init dir True in (t\<lparr>ts_manager := Some m\<rparr>, m))"

text \<open>The data type in the namespace: the engine's rule for the attention backend when there is one, and the model's type for \<open>auto\<close>.\<close>

definition slab_cache_dtype :: "('a \<Rightarrow> string \<Rightarrow> string) \<Rightarrow> 'a option \<Rightarrow> string \<Rightarrow> string" where
  "slab_cache_dtype canonicalize backend dtype = (case backend of None \<Rightarrow> dtype | Some b \<Rightarrow> canonicalize b dtype)"

definition removeprefix :: "string \<Rightarrow> string \<Rightarrow> string" where
  "removeprefix pre s = (if take (length pre) s = pre then drop (length pre) s else s)"

datatype role = SchedulerRole | WorkerRole | OtherRole

record 'b connector =
  cn_canonical :: bool
  cn_dtype :: string
  cn_identity :: "(string \<times> string option) list"
  cn_scheduler :: "scheduler option"
  cn_worker :: "'b conn_worker option"

text \<open>\<open>is_slab\<close> says whether the factory made the slab tier; the identity is the one of \<^const>\<open>content_identity\<close>.\<close>

definition connector_init :: "('b, 'z) base_ops_scheme \<Rightarrow> ('a \<Rightarrow> string \<Rightarrow> string) \<Rightarrow> 'a option \<Rightarrow> string \<Rightarrow> string
    \<Rightarrow> (string \<times> string option) list \<Rightarrow> tier_config \<Rightarrow> bool \<Rightarrow> role \<Rightarrow> rank0_dir \<Rightarrow> 'b connector res" where
  "connector_init bo canonicalize backend cache_dtype model_dtype identity c is_slab role dir =
     (let d0 = slab_cache_dtype canonicalize backend cache_dtype; d1 = (if d0 = ''auto'' then model_dtype else d0) in
      rbind (tier_spec_init c) (\<lambda>t.
        if \<not> is_slab then err ValueError
        else ok \<lparr>cn_canonical = tc_canonical c, cn_dtype = removeprefix ''torch.'' d1, cn_identity = identity,
                 cn_scheduler = (if role = SchedulerRole then Some \<lparr>sc_jobs = [], sc_manager = snd (get_manager dir t)\<rparr> else None),
                 cn_worker = (if role = WorkerRole then Some (conn_worker_init bo) else None)\<rparr>))"

definition get_block_ids_with_load_errors :: "'b connector \<Rightarrow> 'b connector \<times> int set" where
  "get_block_ids_with_load_errors c = (case cn_worker c of
     None \<Rightarrow> (c, {})
   | Some w \<Rightarrow> let (w', bad) = take_invalid_block_ids w in (c\<lparr>cn_worker := Some w'\<rparr>, bad))"


section \<open>Failures reach the scheduler\<close>

text \<open>What the code relies on of the base metadata: marking adds exactly the job, and recording a transfer completes nothing.\<close>

definition base_laws :: "('b, 'z) base_ops_scheme \<Rightarrow> bool" where
  "base_laws bo = ((\<forall>j b. set (bo_completed bo (bo_mark bo j b)) = insert j (set (bo_completed bo b)))
     \<and> (\<forall>l n b. set (bo_completed bo (bo_record bo l n b)) = set (bo_completed bo b)))"

lemma multi_meta_simps [simp]: "failed_jobs (multi_meta m) = failed_jobs m" "meta_base (multi_meta m) = meta_base m"
  by (cases m; simp)+

definition failures :: "transfer_result list \<Rightarrow> int set" where
  "failures rs = tr_job ` {r \<in> set rs. \<not> tr_success r}"

lemma results_collected:
  assumes "base_laws bo"
  shows "failed_jobs (cw_meta (fst (fold (slab_result bo) rs (w, recv)))) = failed_jobs (cw_meta w) \<union> failures rs
    \<and> set (bo_completed bo (meta_base (cw_meta (fst (fold (slab_result bo) rs (w, recv)))))) = set (bo_completed bo (meta_base (cw_meta w))) \<union> tr_job ` set rs"
proof (induction rs arbitrary: w recv)
  case Nil
  then show ?case by (simp add: failures_def)
next
  case (Cons r rs)
  obtain w1 recv1 where one: "slab_result bo r (w, recv) = (w1, recv1)" by fastforce
  have w1: "failed_jobs (cw_meta w1) = failed_jobs (cw_meta w) \<union> failures [r]"
      "set (bo_completed bo (meta_base (cw_meta w1))) = insert (tr_job r) (set (bo_completed bo (meta_base (cw_meta w))))"
    using one assms by (auto simp: slab_result_def record_result_def base_laws_def failures_def Let_def split: if_splits option.splits bool.splits)
  have "failures (r # rs) = failures [r] \<union> failures rs" by (auto simp: failures_def)
  then show ?case using Cons.IH [of w1 recv1] one w1 by auto
qed

text \<open>What a rank hands to the scheduler after a step with the results \<open>rs\<close>.\<close>

definition rank_report :: "('b, 'z) base_ops_scheme \<Rightarrow> transfer_result list \<times> bounce option \<times> 'b conn_worker \<Rightarrow> 'b worker_meta option" where
  "rank_report bo = (\<lambda>(rs, ctrl, w). snd (build_connector_worker_meta bo (fst (snd (slab_get_finished bo rs ctrl w)))))"

lemma take_over_meta [simp]: "cw_meta (snd (take_over ctrl w)) = cw_meta w"
  by (simp add: take_over_def take_failed_gpu_blocks_def split: option.splits)

lemma rank_report_failed:
  assumes "base_laws bo" and "r \<in> set rs" and "\<not> tr_success r"
  obtains meta where "rank_report bo (rs, ctrl, w) = Some meta" "tr_job r \<in> failed_jobs meta"
proof -
  let ?w = "fst (fold (slab_result bo) rs (w\<lparr>cw_meta := multi_meta (cw_meta w)\<rparr>, {}))"
  have m: "cw_meta (fst (snd (slab_get_finished bo rs ctrl w))) = cw_meta ?w"
    by (simp add: slab_get_finished_def Let_def case_prod_unfold)
  have j: "tr_job r \<in> failed_jobs (cw_meta ?w)" "tr_job r \<in> set (bo_completed bo (meta_base (cw_meta ?w)))"
    using results_collected [OF assms(1), of rs "w\<lparr>cw_meta := multi_meta (cw_meta w)\<rparr>" "{}"] assms(2,3) by (auto simp: failures_def)
  then have "bo_completed bo (meta_base (cw_meta ?w)) \<noteq> []" by auto
  then have "rank_report bo (rs, ctrl, w) = Some (multi_meta (cw_meta ?w))"
    by (simp add: rank_report_def build_connector_worker_meta_def Let_def m)
  then show thesis using that j(1) by simp
qed

text \<open>The engine merges the reports of the ranks that sent one.\<close>

fun gather :: "('b, 'z) base_ops_scheme \<Rightarrow> 'b worker_meta option list \<Rightarrow> 'b worker_meta option" where
  "gather bo [] = None"
| "gather bo (None # ms) = gather bo ms"
| "gather bo (Some m # ms) = (case gather bo ms of None \<Rightarrow> Some m | Some n \<Rightarrow> Some (aggregate bo m n))"

lemma gather_failed: "Some m \<in> set ms \<Longrightarrow> \<exists>meta. gather bo ms = Some meta \<and> failed_jobs m \<subseteq> failed_jobs meta"
  by (induction bo ms rule: gather.induct) (auto simp: aggregate_def split: option.splits)

section \<open>Marking the index\<close>

lemma fold_fail_keeps_failed: "m_failed_store (fold (\<lambda>k s. fst (mark_load_failed_key grp k s)) ks m) = m_failed_store m"
  by (induction ks arbitrary: m) (auto simp: mark_load_failed_key_def bump_stat_def Let_def split: option.splits)

text \<open>The keys of a job of the given kind.\<close>

definition keys_of :: "(int, job_status) odict \<Rightarrow> bool \<Rightarrow> int \<Rightarrow> key set" where
  "keys_of jobs store j = (case map_of jobs j of None \<Rightarrow> {} | Some st \<Rightarrow> if js_store st = store then set (js_keys st) else {})"

lemma mark_job:
  assumes "good_mgr grp m"
  obtains m' where "mark_failed_job grp jobs j m = (m', ok ())" "good_mgr grp m'" "m_inflight_store m' = m_inflight_store m"
    "\<And>k. slot_of grp m' k = (if k \<in> keys_of jobs False j then None else slot_of grp m k)" "m_failed_store m' = m_failed_store m \<union> keys_of jobs True j"
proof (cases "map_of jobs j")
  case None
  then show thesis using that assms by (simp add: mark_failed_job_def keys_of_def)
next
  case (Some st)
  show thesis
  proof (cases "js_store st")
    case True
    have "good_mgr grp (mark_store_failed (js_keys st) m)"
      using assms mark_store_failed_keeps [of grp m "js_keys st"]
      by (intro good_mgr_keeps [OF assms]) (simp_all add: keeps_def good_mgr_def mark_store_failed_def)
    then show thesis using that [of "mark_store_failed (js_keys st) m"] Some True
      by (simp add: mark_failed_job_def keys_of_def mark_store_failed_def slot_of_def)
  next
    case False
    let ?m = "fold (\<lambda>k s. fst (mark_load_failed_key grp k s)) (js_keys st) m"
    show thesis
      using that [of ?m] Some False ops_as_folds(2,5) [OF assms, of "js_keys st"] fold_fail_maps [OF assms, of "js_keys st"] fold_fail_keeps_failed
      by (simp add: mark_failed_job_def keys_of_def)
  qed
qed

lemma mark_jobs:
  assumes "good_mgr grp m"
  obtains m' where "for_keys (mark_failed_job grp jobs) js m = (m', ok ())" "good_mgr grp m'" "m_inflight_store m' = m_inflight_store m"
    "\<And>k. slot_of grp m' k = (if k \<in> \<Union> (keys_of jobs False ` set js) then None else slot_of grp m k)"
    "m_failed_store m' = m_failed_store m \<union> \<Union> (keys_of jobs True ` set js)"
  using assms
proof (induction js arbitrary: m thesis)
  case Nil
  then show ?case by simp
next
  case (Cons j js)
  obtain m1 where m1: "mark_failed_job grp jobs j m = (m1, ok ())" "good_mgr grp m1" "m_inflight_store m1 = m_inflight_store m"
    "\<And>k. slot_of grp m1 k = (if k \<in> keys_of jobs False j then None else slot_of grp m k)" "m_failed_store m1 = m_failed_store m \<union> keys_of jobs True j"
    using mark_job [OF Cons.prems(2), of jobs j] by blast
  obtain m2 where m2: "for_keys (mark_failed_job grp jobs) js m1 = (m2, ok ())" "good_mgr grp m2" "m_inflight_store m2 = m_inflight_store m1"
    "\<And>k. slot_of grp m2 k = (if k \<in> \<Union> (keys_of jobs False ` set js) then None else slot_of grp m1 k)"
    "m_failed_store m2 = m_failed_store m1 \<union> \<Union> (keys_of jobs True ` set js)"
    using Cons.IH [OF _ m1(2)] by blast
  show ?case using m1 m2 by (intro Cons.prems(1) [of m2]) auto
qed

section \<open>The property\<close>

text \<open>A rank takes over every GPU block whose load failed, and hands all of them out once.\<close>

lemma invalid_blocks_reported:
  "b_failed_gpu s \<subseteq> snd (take_invalid_block_ids (fst (snd (slab_get_finished bo rs (Some s) w))))"
  by (simp add: slab_get_finished_def take_over_def take_failed_gpu_blocks_def take_invalid_block_ids_def Let_def case_prod_unfold)

definition list_ops :: "int list base_ops" where
  "list_ops = \<lparr>bo_new = [], bo_mark = (\<lambda>j b. b @ [j]), bo_record = (\<lambda>_ _ b. b), bo_completed = id, bo_merge = (@)\<rparr>"

definition one_result :: "bool \<Rightarrow> transfer_result" where
  "one_result success = \<lparr>tr_job = 1, tr_success = success, tr_size = (if success then Some 4096 else None)\<rparr>"

definition demo_scheduler :: scheduler where
  "demo_scheduler = \<lparr>sc_jobs = [(1, \<lparr>js_store = False, js_keys = [[7]]\<rparr>)], sc_manager = demo_mgr\<rparr>"

text \<open>
  C18: a job that failed on one rank counts as failed. Let some rank's engine report a job as failed in a
  step: the metadata merged over all ranks names the job, whatever the other ranks reported, and when the scheduler
  processes it, the engine's completion path runs on an index in which every key of a failed load is
  not a HIT, and in which completing the failed store, even as a success, makes each of its keys a
  MISS; the marking raises nothing and keeps the index well formed; and the rank hands the GPU blocks whose load failed to the engine as invalid.
\<close>

theorem failed_anywhere_not_served:
  assumes "base_laws bo" and "(rs, Some c, w) \<in> set ranks" and "r \<in> set rs" and "\<not> tr_success r"
    and "good_mgr grp (sc_manager s)" and "map_of (sc_jobs s) (tr_job r) = Some st" and "k \<in> set (js_keys st)"
    and "iteration_of (gather bo (map (rank_report bo) ranks)) order"
  shows "\<exists>m. update_connector_output grp base order (gather bo (map (rank_report bo) ranks)) s
       = base (gather bo (map (rank_report bo) ranks)) (s\<lparr>sc_manager := m\<rparr>) \<and> good_mgr grp m
     \<and> (\<not> js_store st \<longrightarrow> snd (lookup grp k m) \<noteq> ok HIT)
     \<and> (js_store st \<longrightarrow> map_of (m_inflight_store (sc_manager s)) k \<noteq> None \<longrightarrow> snd (lookup grp k (fst (complete_store grp (js_keys st) success m))) = ok MISS)
     \<and> b_failed_gpu c \<subseteq> snd (take_invalid_block_ids (fst (snd (slab_get_finished bo rs (Some c) w))))"
proof -
  obtain meta where meta: "rank_report bo (rs, Some c, w) = Some meta" "tr_job r \<in> failed_jobs meta" using rank_report_failed [OF assms(1,3,4)] .
  have "Some meta \<in> set (map (rank_report bo) ranks)" using assms(2) meta(1) by force
  then obtain g where g: "gather bo (map (rank_report bo) ranks) = Some g" "failed_jobs meta \<subseteq> failed_jobs g" using gather_failed by blast
  have j: "tr_job r \<in> set order" using assms(8) g meta(2) by (auto simp: iteration_of_def)
  obtain m where m: "for_keys (mark_failed_job grp (sc_jobs s)) order (sc_manager s) = (m, ok ())" "good_mgr grp m" "m_inflight_store m = m_inflight_store (sc_manager s)"
    "\<And>k. slot_of grp m k = (if k \<in> \<Union> (keys_of (sc_jobs s) False ` set order) then None else slot_of grp (sc_manager s) k)"
    "m_failed_store m = m_failed_store (sc_manager s) \<union> \<Union> (keys_of (sc_jobs s) True ` set order)"
    using mark_jobs [OF assms(5), of "sc_jobs s" order] by blast
  have k: "k \<in> \<Union> (keys_of (sc_jobs s) (js_store st) ` set order)" using j assms(6,7) by (intro UN_I [of "tr_job r"]) (simp_all add: keys_of_def)
  have "snd (lookup grp k m) \<noteq> ok HIT" if "\<not> js_store st"
  proof -
    have "slot_of grp m k = None" using m(4) [of k] k that by simp
    then show ?thesis using lookup_answer [OF m(2), of k] by simp
  qed
  moreover have "snd (lookup grp k (fst (complete_store grp (js_keys st) success m))) = ok MISS"
    if "js_store st" "map_of (m_inflight_store (sc_manager s)) k \<noteq> None"
    using slab.failed_store_then_miss [OF m(2) _ _ assms(7), of success] that k m(3,5) by auto
  moreover have "update_connector_output grp base order (gather bo (map (rank_report bo) ranks)) s
      = base (gather bo (map (rank_report bo) ranks)) (s\<lparr>sc_manager := m\<rparr>)" by (simp add: update_connector_output_def m(1))
  ultimately show ?thesis using m(2) invalid_blocks_reported [of c bo rs w] by (intro exI [of _ m] conjI impI) simp_all
qed

lemma failed_anywhere_not_served_witness:
  "gather list_ops (map (rank_report list_ops)
       [([one_result True], None, conn_worker_init list_ops), ([one_result False], Some ((bounce_init 2)\<lparr>b_failed_gpu := {5}\<rparr>), conn_worker_init list_ops)])
     = Some (MultiMeta [1, 1] {1})
   \<and> (\<exists>m. update_connector_output (\<lambda>_. 0) (\<lambda>_ s. (s, ok ())) [1] (Some (MultiMeta [1, 1 :: int] {1})) demo_scheduler = (demo_scheduler\<lparr>sc_manager := m\<rparr>, ok ())
        \<and> snd (lookup (\<lambda>_. 0) [7] m) \<noteq> ok HIT)"
proof -
  let ?c = "(bounce_init 2)\<lparr>b_failed_gpu := {5}\<rparr>"
  let ?ranks = "[([one_result True], None, conn_worker_init list_ops), ([one_result False], Some ?c, conn_worker_init list_ops)]"
  have meta: "gather list_ops (map (rank_report list_ops) ?ranks) = Some (MultiMeta [1, 1] {1})"
    by (simp add: rank_report_def build_connector_worker_meta_def slab_get_finished_def slab_result_def record_result_def take_over_def
        take_failed_gpu_blocks_def conn_worker_init_def one_result_def list_ops_def aggregate_def od_keys_def)
  have "base_laws list_ops" by (simp add: base_laws_def list_ops_def)
  moreover have "good_mgr (\<lambda>_. 0) (sc_manager demo_scheduler)" using demo_mgr_inv by (simp add: demo_scheduler_def good_mgr_def demo_mgr_def)
  moreover have "map_of (sc_jobs demo_scheduler) (tr_job (one_result False)) = Some \<lparr>js_store = False, js_keys = [[7]]\<rparr>" by (simp add: demo_scheduler_def one_result_def)
  moreover have "iteration_of (gather list_ops (map (rank_report list_ops) ?ranks)) [1]" unfolding meta by (simp add: iteration_of_def)
  ultimately obtain m where "update_connector_output (\<lambda>_. 0) (\<lambda>_ s. (s, ok ())) [1] (gather list_ops (map (rank_report list_ops) ?ranks)) demo_scheduler
        = (demo_scheduler\<lparr>sc_manager := m\<rparr>, ok ())" "snd (lookup (\<lambda>_. 0) [7] m) \<noteq> ok HIT"
    using failed_anywhere_not_served [of list_ops "[one_result False]" ?c "conn_worker_init list_ops" ?ranks "one_result False" "\<lambda>_. 0" demo_scheduler
        "\<lparr>js_store = False, js_keys = [[7]]\<rparr>" "[7]" "[1]" "\<lambda>_ s. (s, ok ())" True]
    by (force simp: one_result_def)
  then show ?thesis using meta by auto
qed

end
