(* ===== verification/Ckpt_Plan.thy ===== *)
theory Ckpt_Plan
  imports Slab_Format Py_Strings
begin

text \<open>
  Reading plan of a checkpoint (\<^verbatim>\<open>spark_nvme/streaming.py\<close>: \<^verbatim>\<open>DTYPES\<close>, \<^verbatim>\<open>TensorInfo\<close>, \<^verbatim>\<open>stamp\<close>,
  \<^verbatim>\<open>checkpoint_metadata\<close>; \<^verbatim>\<open>coalesced.py\<close>: \<^verbatim>\<open>Batch\<close>, \<^verbatim>\<open>plan_batches\<close>). The metadata names every tensor's
  extent in the safetensors files; the plan groups the extents of a file into batches that are read as
  one aligned range each. Theorems: the metadata is well formed whenever it is returned, and the plan
  covers every nonempty tensor exactly once within the bounds of its file.
\<close>

section \<open>Metadata\<close>

datatype dtype = Bool | U8 | I8 | I16 | I32 | I64 | F16 | BF16 | F32 | F64 | F8_E4M3 | F8_E5M2 | U16 | U32 | U64

fun element_size :: "dtype \<Rightarrow> nat" where
  "element_size Bool = 1" | "element_size U8 = 1" | "element_size I8 = 1" | "element_size F8_E4M3 = 1"
| "element_size F8_E5M2 = 1" | "element_size I16 = 2" | "element_size F16 = 2" | "element_size BF16 = 2"
| "element_size U16 = 2" | "element_size I32 = 4" | "element_size F32 = 4" | "element_size U32 = 4"
| "element_size I64 = 8" | "element_size F64 = 8" | "element_size U64 = 8"

text \<open>\<^verbatim>\<open>DTYPES\<close>: ten labels always, five more when this torch has the type (\<open>has\<close>, by its torch name).\<close>

definition DTYPES :: "(string \<Rightarrow> bool) \<Rightarrow> (string, dtype) odict" where
  "DTYPES has =
     [(''BOOL'', Bool), (''U8'', U8), (''I8'', I8), (''I16'', I16), (''I32'', I32), (''I64'', I64),
      (''F16'', F16), (''BF16'', BF16), (''F32'', F32), (''F64'', F64)]
     @ concat (map (\<lambda>(label, name, t). if has name then [(label, t)] else [])
         [(''F8_E4M3'', ''float8_e4m3fn'', F8_E4M3), (''F8_E5M2'', ''float8_e5m2'', F8_E5M2),
          (''U16'', ''uint16'', U16), (''U32'', ''uint32'', U32), (''U64'', ''uint64'', U64)])"

record tensor_info =
  ti_name :: string
  ti_shape :: "nat list"
  ti_dtype :: dtype
  ti_bytes :: int
  ti_file :: string
  ti_offset :: int

text \<open>\<^verbatim>\<open>stamp\<close>: the five fields of \<^verbatim>\<open>os.stat\<close> that identify a version of a file.\<close>

record file_stamp =
  st_dev :: nat
  st_ino :: nat
  st_size :: int
  st_mtime :: int
  st_ctime :: int

text \<open>
  A checkpoint file as the inspection meets it: its stamp before and after, its bytes, and what the
  official parser \<^verbatim>\<open>safe_open\<close> reports (keys with dtype label and shape, and the metadata map).
\<close>

record source_file =
  sf_path :: string
  sf_before :: file_stamp
  sf_after :: file_stamp
  sf_bytes :: "byte list"
  sf_safe :: "((string \<times> string \<times> nat list) list \<times> (string \<times> string) list) res"

record ckpt_metadata =
  md_tensors :: "(string, tensor_info) odict"
  md_stamps :: "(string, file_stamp) odict"
  md_source_id :: string

text \<open>The identity entry of a file: its base name, size and header digest.\<close>

type_synonym identity = "string \<times> int \<times> string"

definition add_tensor :: "(string \<Rightarrow> bool) \<Rightarrow> string \<Rightarrow> nat \<Rightarrow> (string \<rightharpoonup> int \<times> int) \<Rightarrow> string \<times> string \<times> nat list
    \<Rightarrow> (string, tensor_info) odict \<Rightarrow> (string, tensor_info) odict res" where
  "add_tensor has path hdr offsets = (\<lambda>(name, label, shape) tensors.
     if map_of tensors name \<noteq> None then err ValueError
     else case map_of (DTYPES has) label of
       None \<Rightarrow> err UnsupportedStream
     | Some t \<Rightarrow>
         (case offsets name of
            None \<Rightarrow> err KeyError
          | Some (start, stop) \<Rightarrow>
              let n = int (element_size t * prod_list shape) in
              if stop - start \<noteq> n then err ValueError
              else ok (AList.update name
                     \<lparr>ti_name = name, ti_shape = shape, ti_dtype = t, ti_bytes = n, ti_file = path,
                      ti_offset = 8 + int hdr + start\<rparr> tensors)))"

text \<open>
  One file of \<^verbatim>\<open>checkpoint_metadata\<close>. \<open>loads\<close> is \<^verbatim>\<open>json.loads\<close> of the header followed by the
  \<^verbatim>\<open>data_offsets\<close> of each name, \<open>sha\<close> SHA-256, \<open>base\<close> the last path component, \<open>show_item\<close> Python's \<^verbatim>\<open>str\<close> of a
  metadata item.
\<close>

definition inspect_file :: "(string \<Rightarrow> bool) \<Rightarrow> (byte list \<Rightarrow> (string \<rightharpoonup> int \<times> int) res) \<Rightarrow> (byte list \<Rightarrow> string) \<Rightarrow> (string \<Rightarrow> string)
    \<Rightarrow> (string \<times> string \<Rightarrow> string) \<Rightarrow> source_file
    \<Rightarrow> (string, tensor_info) odict \<times> (string, file_stamp) odict \<times> identity list
    \<Rightarrow> ((string, tensor_info) odict \<times> (string, file_stamp) odict \<times> identity list) res" where
  "inspect_file has loads sha base show_item sf = (\<lambda>(tensors, stamps, ids).
     if map_of stamps (sf_path sf) \<noteq> None then err ValueError
     else let raw = take 8 (sf_bytes sf); hdr = le_nat raw; header = take hdr (drop 8 (sf_bytes sf)) in
     if length raw \<noteq> 8 then err ValueError
     else if min 100000000 (st_size (sf_before sf) - 8) < int hdr then err ValueError
     else if length header \<noteq> hdr then err ValueError
     else rbind (sf_safe sf) (\<lambda>(keys, meta). rbind (loads header) (\<lambda>offsets.
       if list_ex (\<lambda>x. contains (map lower (show_item x)) ''torchao'') meta then err UnsupportedStream
       else rbind (fold_res (add_tensor has (sf_path sf) hdr offsets) keys tensors) (\<lambda>tensors'.
         if sf_after sf \<noteq> sf_before sf then err ValueError
         else ok (tensors', AList.update (sf_path sf) (sf_before sf) stamps,
                  ids @ [(base (sf_path sf), st_size (sf_before sf), sha header)])))))"

definition checkpoint_metadata :: "(string \<Rightarrow> bool) \<Rightarrow> (byte list \<Rightarrow> (string \<rightharpoonup> int \<times> int) res) \<Rightarrow> (byte list \<Rightarrow> string) \<Rightarrow> (string \<Rightarrow> string)
    \<Rightarrow> (string \<times> string \<Rightarrow> string) \<Rightarrow> (identity list \<Rightarrow> string) \<Rightarrow> source_file list \<Rightarrow> ckpt_metadata res" where
  "checkpoint_metadata has loads sha base show_item dgst files =
     rbind (fold_res (inspect_file has loads sha base show_item) files ([], [], [])) (\<lambda>(tensors, stamps, ids).
       if tensors = [] then err ValueError
       else ok \<lparr>md_tensors = tensors, md_stamps = stamps, md_source_id = dgst ids\<rparr>)"

section \<open>The plan\<close>

definition ALIGN :: int where "ALIGN = 4096"

record batch =
  bt_file :: string
  bt_start :: int
  bt_end :: int
  bt_tensors :: "(string \<times> tensor_info) list"

definition bt_bytes :: "batch \<Rightarrow> int" where "bt_bytes b = bt_end b - bt_start b"

text \<open>The first loop: nonempty tensors by file.\<close>

definition add_row :: "string \<times> tensor_info \<Rightarrow> (string, (string \<times> tensor_info) list) odict
    \<Rightarrow> (string, (string \<times> tensor_info) list) odict res" where
  "add_row = (\<lambda>(name, info) by_file.
     if ti_bytes info = 0 then ok by_file
     else if ti_offset info mod int (element_size (ti_dtype info)) \<noteq> 0 then err UnsupportedStream
     else case map_of by_file (ti_file info) of
       None \<Rightarrow> err KeyError
     | Some rows \<Rightarrow> ok (AList.update (ti_file info) (rows @ [(name, info)]) by_file))"

text \<open>The second loop, one row: batches so far, and the current batch with its start and end.\<close>

type_synonym plan_state = "batch list \<times> (string \<times> tensor_info) list \<times> int \<times> int"

definition flush :: "string \<Rightarrow> plan_state \<Rightarrow> batch list" where
  "flush path = (\<lambda>(batches, current, start, stop).
     if current = [] then batches
     else batches @ [\<lparr>bt_file = path, bt_start = start, bt_end = stop, bt_tensors = current\<rparr>])"

definition plan_row :: "int \<Rightarrow> string \<Rightarrow> int \<Rightarrow> string \<times> tensor_info \<Rightarrow> plan_state \<Rightarrow> plan_state res" where
  "plan_row batch_bytes path fsize row = (\<lambda>(batches, current, start, stop).
     let off = ti_offset (snd row); n = ti_bytes (snd row) in
     if \<not> (0 \<le> off \<and> off < off + n \<and> off + n \<le> fsize) then err ValueError
     else if current \<noteq> [] \<and> off < stop then err ValueError
     else
       let full = (current \<noteq> [] \<and> batch_bytes < off + n - start);
           batches' = (if full then flush path (batches, current, start, stop) else batches);
           current' = (if full then [] else current);
           start' = (if current' = [] then off div ALIGN * ALIGN else start)
       in ok (batches', current' @ [row], start', off + n))"

definition row_offset :: "string \<times> tensor_info \<Rightarrow> int" where
  "row_offset row = ti_offset (snd row)"

definition plan_file :: "int \<Rightarrow> (string, file_stamp) odict \<Rightarrow> string \<times> (string \<times> tensor_info) list \<Rightarrow> batch list \<Rightarrow> batch list res" where
  "plan_file batch_bytes stamps = (\<lambda>(path, rows) batches.
     case map_of stamps path of
       None \<Rightarrow> err KeyError
     | Some st \<Rightarrow>
         rbind (fold_res (plan_row batch_bytes path (st_size st)) (sort_key row_offset rows) (batches, [], 0, 0))
           (\<lambda>s. ok (flush path s)))"

definition plan_batches :: "ckpt_metadata \<Rightarrow> int \<Rightarrow> batch list res" where
  "plan_batches md batch_bytes =
     (if batch_bytes < ALIGN \<or> batch_bytes mod ALIGN \<noteq> 0 then err ValueError
      else rbind (fold_res add_row (md_tensors md) (map (\<lambda>(path, _). (path, [])) (md_stamps md))) (\<lambda>by_file.
        fold_res (plan_file batch_bytes (md_stamps md)) by_file []))"

section \<open>The metadata is well formed\<close>

definition info_wf :: "(string \<times> tensor_info) \<Rightarrow> bool" where
  "info_wf = (\<lambda>(name, info). ti_name info = name
      \<and> ti_bytes info = int (element_size (ti_dtype info) * prod_list (ti_shape info)))"

definition md_wf :: "ckpt_metadata \<Rightarrow> bool" where
  "md_wf md = (od_wf (md_tensors md) \<and> od_wf (md_stamps md)
     \<and> (\<forall>row \<in> set (md_tensors md). info_wf row \<and> ti_file (snd row) \<in> set (od_keys (md_stamps md))))"

lemma element_size_facts: "0 < element_size t" "int (element_size t) dvd ALIGN"
  by (cases t; simp add: ALIGN_def)+

lemma update_fresh_keys: "map_of d k = None \<Longrightarrow> od_keys (AList.update k v d) = od_keys d @ [k]"
  by (simp add: update_absent od_keys_def)

lemma add_tensor_ok:
  assumes "add_tensor has path hdr offsets key tensors = ok tensors'"
  obtains info where "tensors' = tensors @ [(fst key, info)]" "fst key \<notin> set (od_keys tensors)"
    "info_wf (fst key, info)" "ti_file info = path"
  using assms
  by (auto simp: add_tensor_def Let_def update_absent info_wf_def map_of_None_iff split: prod.splits option.splits if_splits)

lemma add_tensors_ok:
  assumes "fold_res (add_tensor has path hdr offsets) keys tensors = ok tensors'" and "od_wf tensors"
  shows "\<exists>new. tensors' = tensors @ new \<and> od_wf tensors' \<and> map fst new = map fst keys
     \<and> (\<forall>row \<in> set new. info_wf row \<and> ti_file (snd row) = path)"
  using assms
proof (induction keys arbitrary: tensors)
  case (Cons key keys)
  obtain t1 where t1: "add_tensor has path hdr offsets key tensors = ok t1"
      "fold_res (add_tensor has path hdr offsets) keys t1 = ok tensors'"
    using Cons.prems(1) by (auto simp: rbind_ok_iff)
  obtain info where i: "t1 = tensors @ [(fst key, info)]" "fst key \<notin> set (od_keys tensors)"
      "info_wf (fst key, info)" "ti_file info = path"
    by (rule add_tensor_ok [OF t1(1)])
  have "od_wf t1" using Cons.prems(2) i(1,2) by (simp add: od_wf_def od_keys_def)
  from Cons.IH [OF t1(2) this] obtain new where "tensors' = t1 @ new" "od_wf tensors'" "map fst new = map fst keys"
      "\<forall>row \<in> set new. info_wf row \<and> ti_file (snd row) = path" by blast
  then show ?case using i by (intro exI [of _ "(fst key, info) # new"]) simp
qed simp

text \<open>The keys \<^verbatim>\<open>safe_open\<close> reports for a file.\<close>

definition safe_keys :: "source_file \<Rightarrow> string list" where
  "safe_keys sf = (case sf_safe sf of Inl _ \<Rightarrow> [] | Inr (keys, _) \<Rightarrow> map fst keys)"

definition inspected :: "source_file list \<Rightarrow> (string, tensor_info) odict \<times> (string, file_stamp) odict \<times> identity list \<Rightarrow> bool" where
  "inspected files = (\<lambda>(tensors, stamps, ids).
     od_wf tensors \<and> od_wf stamps \<and> od_keys tensors = concat (map safe_keys files)
     \<and> stamps = map (\<lambda>sf. (sf_path sf, sf_before sf)) files \<and> (\<forall>sf \<in> set files. sf_after sf = sf_before sf)
     \<and> (\<forall>row \<in> set tensors. info_wf row \<and> ti_file (snd row) \<in> set (od_keys stamps)))"

lemma inspect_file_step:
  assumes "inspect_file has loads sha base show_item sf s = ok s'" and "inspected done s"
  shows "inspected (done @ [sf]) s'"
proof -
  obtain tensors stamps ids where s: "s = (tensors, stamps, ids)" by (cases s)
  obtain keys meta where safe: "sf_safe sf = ok (keys, meta)"
    using assms(1) by (auto simp: inspect_file_def s Let_def rbind_ok_iff split: if_splits)
  obtain hdr offsets tensors' ids' where run: "fold_res (add_tensor has (sf_path sf) hdr offsets) keys tensors = ok tensors'"
      and s': "s' = (tensors', AList.update (sf_path sf) (sf_before sf) stamps, ids')"
      and new: "map_of stamps (sf_path sf) = None" and same: "sf_after sf = sf_before sf"
    using assms(1) by (auto simp: inspect_file_def s Let_def rbind_ok_iff safe split: if_splits)
  have wf: "od_wf tensors" "od_wf stamps" using assms(2) unfolding inspected_def s prod.case by blast+
  obtain rows where rows: "tensors' = tensors @ rows" "od_wf tensors'" "map fst rows = map fst keys"
      "\<forall>row \<in> set rows. info_wf row \<and> ti_file (snd row) = sf_path sf"
    using add_tensors_ok [OF run wf(1)] by blast
  have stamps': "AList.update (sf_path sf) (sf_before sf) stamps = stamps @ [(sf_path sf, sf_before sf)]"
    using new by (rule update_absent)
  have "od_wf (AList.update (sf_path sf) (sf_before sf) stamps)" using wf(2) by simp
  then show ?thesis
    using assms(2) rows same unfolding inspected_def s s' stamps'
    by (fastforce simp: od_keys_def safe_keys_def safe)
qed

lemma inspect_files_ok:
  assumes "fold_res (inspect_file has loads sha base show_item) files s = ok s'" and "inspected done s"
  shows "inspected (done @ files) s'"
  using assms
proof (induction files arbitrary: s "done")
  case (Cons sf files)
  obtain s1 where s1: "inspect_file has loads sha base show_item sf s = ok s1"
      "fold_res (inspect_file has loads sha base show_item) files s1 = ok s'"
    using Cons.prems(1) by (auto simp: rbind_ok_iff)
  show ?case using Cons.IH [OF s1(2) inspect_file_step [OF s1(1) Cons.prems(2)]] by simp
qed simp

text \<open>
  C19: Metadata that \<^verbatim>\<open>checkpoint_metadata\<close> returns is well formed: the tensors are the keys of all files in
  order, none twice, not empty; each has the byte count of its dtype and shape and belongs to a file of
  the inventory; every file is listed once with its stamp, and no file changed while it was inspected.
\<close>

theorem checkpoint_metadata_wf:
  assumes "checkpoint_metadata has loads sha base show_item dgst files = ok md"
  shows "md_wf md \<and> md_tensors md \<noteq> [] \<and> od_keys (md_tensors md) = concat (map safe_keys files)
     \<and> md_stamps md = map (\<lambda>sf. (sf_path sf, sf_before sf)) files
     \<and> (\<forall>sf \<in> set files. sf_after sf = sf_before sf)"
proof -
  obtain tensors stamps ids where s: "fold_res (inspect_file has loads sha base show_item) files ([], [], []) = ok (tensors, stamps, ids)"
      and md: "tensors \<noteq> []" "md = \<lparr>md_tensors = tensors, md_stamps = stamps, md_source_id = dgst ids\<rparr>"
    using assms by (auto simp: checkpoint_metadata_def rbind_ok_iff split: if_splits)
  have "inspected [] ([], [], [])" by (simp add: inspected_def od_keys_def)
  from inspect_files_ok [OF s this] show ?thesis
    unfolding md md_wf_def inspected_def ckpt_metadata.simps prod.case append_Nil using md(1) by blast
qed

definition demo_stamp :: file_stamp where
  "demo_stamp = \<lparr>st_dev = 1, st_ino = 2, st_size = 14, st_mtime = 0, st_ctime = 0\<rparr>"

definition demo_source :: source_file where
  "demo_source = \<lparr>sf_path = ''/m/a'', sf_before = demo_stamp, sf_after = demo_stamp,
     sf_bytes = [2, 0, 0, 0, 0, 0, 0, 0, 123, 125, 1, 2, 3, 4], sf_safe = ok ([(''w'', ''I16'', [2])], [])\<rparr>"

definition demo_md :: ckpt_metadata where
  "demo_md = \<lparr>md_tensors = [(''w'', \<lparr>ti_name = ''w'', ti_shape = [2], ti_dtype = I16, ti_bytes = 4, ti_file = ''/m/a'',
     ti_offset = 10\<rparr>)], md_stamps = [(''/m/a'', demo_stamp)], md_source_id = ''id''\<rparr>"

theorem checkpoint_metadata_wf_witness:
  "checkpoint_metadata (\<lambda>_. False) (\<lambda>_. ok [''w'' \<mapsto> (0, 4)]) (\<lambda>_. ''h'') (\<lambda>p. p) fst (\<lambda>_. ''id'') [demo_source] = ok demo_md
   \<and> md_wf demo_md"
proof -
  have run: "checkpoint_metadata (\<lambda>_. False) (\<lambda>_. ok [''w'' \<mapsto> (0, 4)]) (\<lambda>_. ''h'') (\<lambda>p. p) fst (\<lambda>_. ''id'') [demo_source] = ok demo_md"
    by (simp add: checkpoint_metadata_def inspect_file_def demo_source_def demo_md_def demo_stamp_def add_tensor_def DTYPES_def Let_def)
  show ?thesis using checkpoint_metadata_wf [OF run] run by blast
qed
section \<open>What the plan covers\<close>

definition row_end :: "string \<times> tensor_info \<Rightarrow> int" where
  "row_end row = ti_offset (snd row) + ti_bytes (snd row)"

definition row_before :: "string \<times> tensor_info \<Rightarrow> string \<times> tensor_info \<Rightarrow> bool" where
  "row_before r s = (row_end r \<le> row_offset s)"

definition row_aligned :: "string \<times> tensor_info \<Rightarrow> bool" where
  "row_aligned r = (row_offset r mod int (element_size (ti_dtype (snd r))) = 0)"

definition row_inside :: "int \<Rightarrow> string \<times> tensor_info \<Rightarrow> bool" where
  "row_inside fsize r = (0 \<le> row_offset r \<and> 0 < ti_bytes (snd r) \<and> row_end r \<le> fsize)"

definition nonempty :: "string \<times> tensor_info \<Rightarrow> bool" where
  "nonempty r = (ti_bytes (snd r) \<noteq> 0)"

text \<open>
  A batch as it should be: an aligned start, the end of its last tensor, tensors of its file in order
  without overlap, and no larger than asked for unless it is a single tensor.
\<close>

definition batch_shape :: "int \<Rightarrow> string \<Rightarrow> batch \<Rightarrow> bool" where
  "batch_shape batch_bytes path b =
     (bt_file b = path \<and> bt_tensors b \<noteq> []
      \<and> bt_start b = row_offset (hd (bt_tensors b)) div ALIGN * ALIGN \<and> bt_end b = row_end (last (bt_tensors b))
      \<and> sorted_wrt row_before (bt_tensors b)
      \<and> (\<forall>r \<in> set (bt_tensors b). bt_start b \<le> row_offset r \<and> 0 < ti_bytes (snd r) \<and> row_end r \<le> bt_end b)
      \<and> (bt_bytes b \<le> batch_bytes \<or> length (bt_tensors b) = 1))"

definition plan_inv :: "int \<Rightarrow> string \<Rightarrow> int \<Rightarrow> batch list \<Rightarrow> (string \<times> tensor_info) list \<Rightarrow> plan_state \<Rightarrow> bool" where
  "plan_inv batch_bytes path fsize old rows = (\<lambda>(batches, current, start, stop).
     \<exists>new. batches = old @ new \<and> (\<forall>b \<in> set new. batch_shape batch_bytes path b)
       \<and> (current \<noteq> [] \<longrightarrow> batch_shape batch_bytes path
             \<lparr>bt_file = path, bt_start = start, bt_end = stop, bt_tensors = current\<rparr>)
       \<and> concat (map bt_tensors new) @ current = rows \<and> (current = [] \<longrightarrow> rows = [])
       \<and> sorted_wrt row_before rows \<and> (\<forall>r \<in> set rows. row_inside fsize r \<and> row_end r \<le> stop))"

lemma align_down: "i div ALIGN * ALIGN \<le> i" "i - i div ALIGN * ALIGN < ALIGN" "ALIGN dvd i div ALIGN * ALIGN"
proof -
  have "i div ALIGN * ALIGN + i mod ALIGN = i" by simp
  moreover have "0 \<le> i mod ALIGN" "i mod ALIGN < ALIGN" by (simp_all add: ALIGN_def)
  ultimately show "i div ALIGN * ALIGN \<le> i" "i - i div ALIGN * ALIGN < ALIGN" by linarith+
qed simp

lemma single_batch_shape:
  "0 < ti_bytes (snd row) \<Longrightarrow> batch_shape bb path \<lparr>bt_file = path, bt_start = row_offset row div ALIGN * ALIGN, bt_end = row_end row, bt_tensors = [row]\<rparr>"
  by (simp add: batch_shape_def align_down(1))

lemma grow_batch_shape:
  assumes "batch_shape bb path \<lparr>bt_file = path, bt_start = start, bt_end = stop, bt_tensors = current\<rparr>"
    and "current \<noteq> []" and "stop \<le> row_offset row" and "0 < ti_bytes (snd row)" and "row_end row - start \<le> bb"
  shows "batch_shape bb path \<lparr>bt_file = path, bt_start = start, bt_end = row_end row, bt_tensors = current @ [row]\<rparr>"
proof -
  obtain r rs where c: "current = r # rs" using assms(2) by (cases current) auto
  have "start \<le> row_offset r" "0 < ti_bytes (snd r)" "row_end r \<le> stop" using assms(1) by (auto simp: batch_shape_def c)
  then have lo: "start \<le> row_offset row" using assms(3) by (simp add: row_end_def row_offset_def)
  have hi: "stop \<le> row_end row" using assms(3,4) by (simp add: row_end_def row_offset_def)
  show ?thesis
    using assms lo hi by (fastforce simp: batch_shape_def bt_bytes_def sorted_wrt_append row_before_def)
qed

lemma plan_row_step:
  assumes "plan_inv bb path fsize old rows s"
  shows "case plan_row bb path fsize row s of
       Inl e \<Rightarrow> e = ValueError \<and> \<not> (row_inside fsize row \<and> (\<forall>r \<in> set rows. row_before r row))
     | Inr s' \<Rightarrow> plan_inv bb path fsize old (rows @ [row]) s'"
proof -
  obtain batches current start stop where s: "s = (batches, current, start, stop)" by (cases s)
  obtain new where inv: "batches = old @ new" "\<forall>b \<in> set new. batch_shape bb path b"
      "current \<noteq> [] \<longrightarrow> batch_shape bb path \<lparr>bt_file = path, bt_start = start, bt_end = stop, bt_tensors = current\<rparr>"
      "concat (map bt_tensors new) @ current = rows" "current = [] \<longrightarrow> rows = []"
      "sorted_wrt row_before rows" "\<forall>r \<in> set rows. row_inside fsize r \<and> row_end r \<le> stop"
    using assms by (auto simp: plan_inv_def s)
  show ?thesis
  proof (cases "row_inside fsize row \<and> (current \<noteq> [] \<longrightarrow> stop \<le> row_offset row)")
    case False
    have "stop = row_end (last current)" if "current \<noteq> []" using inv(3) that by (simp add: batch_shape_def)
    moreover have "current \<noteq> [] \<Longrightarrow> last current \<in> set rows" using inv(4) by auto
    ultimately have "\<not> (row_inside fsize row \<and> (\<forall>r \<in> set rows. row_before r row))" using False by (auto simp: row_before_def)
    moreover have "plan_row bb path fsize row s = err ValueError"
      using False by (auto simp: plan_row_def s row_inside_def row_offset_def row_end_def Let_def)
    ultimately show ?thesis by simp
  next
    case True
    have pos: "0 < ti_bytes (snd row)" using True by (simp add: row_inside_def)
    have stop: "\<forall>r \<in> set rows. row_end r \<le> row_offset row" using True inv(5,7) by fastforce
    have rows: "sorted_wrt row_before (rows @ [row])" "\<forall>r \<in> set (rows @ [row]). row_inside fsize r \<and> row_end r \<le> row_end row"
      using True inv(6,7) stop pos by (fastforce simp: sorted_wrt_append row_before_def row_end_def row_offset_def)+
    show ?thesis
    proof (cases "current \<noteq> [] \<and> bb < row_end row - start")
      case full: True
      have "plan_row bb path fsize row s = ok (flush path s, [row], row_offset row div ALIGN * ALIGN, row_end row)"
        using True full pos by (simp add: plan_row_def s row_inside_def row_offset_def row_end_def Let_def)
      moreover have "\<exists>new'. flush path s = old @ new' \<and> (\<forall>b \<in> set new'. batch_shape bb path b) \<and> concat (map bt_tensors new') = rows"
        using inv(1-4) full
        by (intro exI [of _ "new @ [\<lparr>bt_file = path, bt_start = start, bt_end = stop, bt_tensors = current\<rparr>]"]) (auto simp: flush_def s)
      ultimately show ?thesis using rows single_batch_shape [OF pos] by (auto simp: plan_inv_def)
    next
      case fits: False
      define start' where "start' = (if current = [] then row_offset row div ALIGN * ALIGN else start)"
      have run: "plan_row bb path fsize row s = ok (batches, current @ [row], start', row_end row)"
        using True fits pos by (auto simp: plan_row_def s row_inside_def row_offset_def row_end_def Let_def start'_def)
      have "batch_shape bb path \<lparr>bt_file = path, bt_start = start', bt_end = row_end row, bt_tensors = current @ [row]\<rparr>"
        using single_batch_shape [OF pos] grow_batch_shape [of bb path start stop current row] inv(3) True fits pos
        by (cases "current = []") (simp_all add: start'_def)
      then show ?thesis using run rows inv(1,2,4) by (auto simp: plan_inv_def)
    qed
  qed
qed

lemma plan_rows:
  assumes "plan_inv bb path fsize old seen s"
  shows "case fold_res (plan_row bb path fsize) rows s of
       Inl e \<Rightarrow> e = ValueError \<and> \<not> ((\<forall>r \<in> set rows. row_inside fsize r) \<and> sorted_wrt row_before (seen @ rows))
     | Inr s' \<Rightarrow> plan_inv bb path fsize old (seen @ rows) s'"
  using assms
proof (induction rows arbitrary: seen s)
  case (Cons row rows)
  note step = plan_row_step [OF Cons.prems, of row]
  show ?case
  proof (cases "plan_row bb path fsize row s")
    case (Inl e)
    then show ?thesis using step by (auto simp: sorted_wrt_append)
  next
    case (Inr s1)
    then have "plan_inv bb path fsize old (seen @ [row]) s1" using step by simp
    from Cons.IH [OF this] show ?thesis by (auto simp: Inr split: sum.splits)
  qed
qed simp

lemma sorted_before_iff:
  assumes "distinct rows" and "\<forall>r \<in> set rows. 0 < ti_bytes (snd r)"
  shows "sorted_wrt row_before (sort_key row_offset rows)
     \<longleftrightarrow> (\<forall>r \<in> set rows. \<forall>s \<in> set rows. r \<noteq> s \<longrightarrow> row_before r s \<or> row_before s r)"
proof -
  define ys where "ys = sort_key row_offset rows"
  have ys: "set ys = set rows" "distinct ys" "sorted (map row_offset ys)" using assms(1) by (simp_all add: ys_def)
  have "row_before (ys ! i) (ys ! j)"
    if d: "\<forall>r \<in> set ys. \<forall>s \<in> set ys. r \<noteq> s \<longrightarrow> row_before r s \<or> row_before s r" and ij: "i < j" "j < length ys" for i j
  proof -
    have "row_offset (ys ! i) \<le> row_offset (ys ! j)" using ys(3) ij by (simp add: sorted_iff_nth_mono_less)
    moreover have "row_offset (ys ! j) < row_end (ys ! j)" using assms(2) ys(1) ij by (auto simp: row_end_def row_offset_def)
    moreover have "row_before (ys ! i) (ys ! j) \<or> row_before (ys ! j) (ys ! i)" using d ij ys(2) by (simp add: nth_eq_iff_index_eq)
    ultimately show ?thesis by (auto simp: row_before_def)
  qed
  moreover have "row_before r s \<or> row_before s r"
    if srt: "sorted_wrt row_before ys" and rs: "r \<in> set ys" "s \<in> set ys" "r \<noteq> s" for r s
  proof -
    obtain i j where ij: "i < length ys" "j < length ys" "r = ys ! i" "s = ys ! j" using rs by (auto simp: in_set_conv_nth)
    then have "i < j \<or> j < i" using rs(3) by (cases i j rule: linorder_cases) auto
    then show ?thesis using srt ij by (auto simp: sorted_wrt_iff_nth_less)
  qed
  ultimately show ?thesis unfolding ys(1) [symmetric] ys_def [symmetric] sorted_wrt_iff_nth_less [of row_before ys] by blast
qed

text \<open>The extents a plan can be made for, and what a plan of a file is.\<close>

definition file_ok :: "int \<Rightarrow> (string \<times> tensor_info) list \<Rightarrow> bool" where
  "file_ok fsize rows = ((\<forall>r \<in> set rows. row_inside fsize r)
     \<and> (\<forall>r \<in> set rows. \<forall>s \<in> set rows. r \<noteq> s \<longrightarrow> row_before r s \<or> row_before s r))"

definition file_plan :: "int \<Rightarrow> string \<Rightarrow> int \<Rightarrow> (string \<times> tensor_info) list \<Rightarrow> batch list \<Rightarrow> bool" where
  "file_plan bb path fsize rows bs =
     (mset (concat (map bt_tensors bs)) = mset rows
      \<and> (\<forall>b \<in> set bs. batch_shape bb path b \<and> 0 \<le> bt_start b \<and> bt_end b \<le> fsize))"

lemma batch_bounds:
  assumes "batch_shape bb path b" and "\<forall>r \<in> set (bt_tensors b). row_inside fsize r"
  shows "0 \<le> bt_start b \<and> bt_end b \<le> fsize"
proof -
  have "bt_tensors b \<noteq> []" "bt_start b = row_offset (hd (bt_tensors b)) div ALIGN * ALIGN" "bt_end b = row_end (last (bt_tensors b))"
    using assms(1) by (simp_all add: batch_shape_def)
  then show ?thesis using assms(2) by (auto simp: row_inside_def ALIGN_def pos_imp_zdiv_nonneg_iff)
qed

lemma plan_file_exact:
  assumes "map_of stamps path = Some st" and "distinct rows"
  shows "case plan_file bb stamps (path, rows) batches of
       Inl e \<Rightarrow> e = ValueError \<and> \<not> file_ok (st_size st) rows
     | Inr bs \<Rightarrow> file_ok (st_size st) rows \<and> (\<exists>new. bs = batches @ new \<and> file_plan bb path (st_size st) rows new)"
proof -
  define srt where "srt = sort_key row_offset rows"
  have srt: "set srt = set rows" "mset srt = mset rows" by (simp_all add: srt_def)
  have ok_iff: "file_ok (st_size st) rows \<longleftrightarrow> (\<forall>r \<in> set srt. row_inside (st_size st) r) \<and> sorted_wrt row_before srt"
  proof (cases "\<forall>r \<in> set rows. row_inside (st_size st) r")
    case True
    then have "\<forall>r \<in> set rows. 0 < ti_bytes (snd r)" by (simp add: row_inside_def)
    from sorted_before_iff [OF assms(2) this] show ?thesis unfolding file_ok_def srt(1) using True by (simp add: srt_def)
  qed (auto simp: file_ok_def srt(1))
  have "plan_inv bb path (st_size st) batches [] (batches, [], 0, 0)" by (simp add: plan_inv_def)
  note run = plan_rows [OF this, of srt]
  show ?thesis
  proof (cases "fold_res (plan_row bb path (st_size st)) srt (batches, [], 0, 0)")
    case (Inl e)
    then show ?thesis using run ok_iff by (auto simp: plan_file_def assms(1) simp flip: srt_def)
  next
    case (Inr s)
    obtain bts current start stop where s: "s = (bts, current, start, stop)" by (cases s)
    obtain new where new: "bts = batches @ new" "\<forall>b \<in> set new. batch_shape bb path b"
        "current \<noteq> [] \<longrightarrow> batch_shape bb path \<lparr>bt_file = path, bt_start = start, bt_end = stop, bt_tensors = current\<rparr>"
        "concat (map bt_tensors new) @ current = srt" "sorted_wrt row_before srt" "\<forall>r \<in> set srt. row_inside (st_size st) r"
      using run Inr by (auto simp: plan_inv_def s)
    define all where "all = new @ (if current = [] then [] else
      [\<lparr>bt_file = path, bt_start = start, bt_end = stop, bt_tensors = current\<rparr>])"
    have all: "concat (map bt_tensors all) = srt" "\<forall>b \<in> set all. batch_shape bb path b"
      using new(2-4) by (auto simp: all_def)
    have "row_inside (st_size st) r" if "b \<in> set all" "r \<in> set (bt_tensors b)" for b r
      using new(6) that arg_cong [OF all(1), of set] by auto
    then have "0 \<le> bt_start b \<and> bt_end b \<le> st_size st" if "b \<in> set all" for b
      using all(2) that by (intro batch_bounds) auto
    then have "file_plan bb path (st_size st) rows all"
      using all(2) arg_cong [OF all(1), of mset] by (simp add: file_plan_def srt(2))
    moreover have "plan_file bb stamps (path, rows) batches = ok (batches @ all)"
      using Inr new(1) by (simp add: plan_file_def assms(1) s flush_def all_def flip: srt_def)
    ultimately show ?thesis using ok_iff new(5,6) by simp
  qed
qed

text \<open>The first loop sorts the nonempty tensors by file.\<close>

definition rows_of :: "(string \<times> tensor_info) list \<Rightarrow> string \<Rightarrow> (string \<times> tensor_info) list" where
  "rows_of ts p = filter (\<lambda>r. nonempty r \<and> ti_file (snd r) = p) ts"

lemma update_keys_present: "k \<in> set (od_keys d) \<Longrightarrow> od_keys (AList.update k v d) = od_keys d"
  by (simp add: od_keys_def update_keys)

lemma add_rows_exact:
  assumes "\<forall>r \<in> set ts. ti_file (snd r) \<in> set (od_keys bf)"
  shows "case fold_res add_row ts bf of
       Inl e \<Rightarrow> e = UnsupportedStream \<and> \<not> (\<forall>r \<in> set ts. nonempty r \<longrightarrow> row_aligned r)
     | Inr bf' \<Rightarrow> (\<forall>r \<in> set ts. nonempty r \<longrightarrow> row_aligned r) \<and> od_keys bf' = od_keys bf
         \<and> (\<forall>p. map_of bf' p = map_option (\<lambda>rows. rows @ rows_of ts p) (map_of bf p))"
  using assms
proof (induction ts arbitrary: bf)
  case Nil
  then show ?case by (simp add: rows_of_def option.map_ident)
next
  case (Cons r ts)
  obtain name info where r: "r = (name, info)" by (cases r)
  obtain rows where rows: "map_of bf (ti_file info) = Some rows"
    using Cons.prems by (auto simp: r set_od_keys)
  consider (empty) "\<not> nonempty r" | (bad) "nonempty r" "\<not> row_aligned r" | (good) "nonempty r" "row_aligned r" by blast
  then show ?case
  proof cases
    case empty
    then have "add_row r bf = ok bf" by (simp add: add_row_def r nonempty_def)
    then show ?thesis using Cons.IH [of bf] Cons.prems empty by (auto simp: rows_of_def split: sum.splits)
  next
    case bad
    then have "add_row r bf = err UnsupportedStream"
      by (simp add: add_row_def r nonempty_def row_aligned_def row_offset_def)
    then show ?thesis using bad by auto
  next
    case good
    define bf1 where "bf1 = AList.update (ti_file info) (rows @ [r]) bf"
    have "add_row r bf = ok bf1"
      using good rows by (simp add: add_row_def r nonempty_def row_aligned_def row_offset_def bf1_def)
    moreover have "od_keys bf1 = od_keys bf" using rows by (simp add: bf1_def update_keys_present map_of_Some_key)
    moreover have "map_of bf1 p = (if p = ti_file info then Some (rows @ [r]) else map_of bf p)" for p
      by (simp add: bf1_def map_of_update)
    ultimately show ?thesis
      using Cons.IH [of bf1] Cons.prems good rows
      by (auto simp: rows_of_def r split: sum.splits)
  qed
qed

lemma od_eq_map: "od_wf d \<Longrightarrow> \<forall>p \<in> set (od_keys d). map_of d p = Some (f p) \<Longrightarrow> d = map (\<lambda>p. (p, f p)) (od_keys d)"
proof -
  assume wf: "od_wf d" and f: "\<forall>p \<in> set (od_keys d). map_of d p = Some (f p)"
  have "(fst x, f (fst x)) = x" if "x \<in> set d" for x
  proof -
    have "map_of d (fst x) = Some (snd x)" using wf that by (simp add: od_wf_def od_keys_def)
    then show ?thesis using f that by (simp add: od_keys_def prod_eq_iff)
  qed
  then have "map (\<lambda>x. (fst x, f (fst x))) d = d" by (rule map_idI)
  then show ?thesis by (simp add: od_keys_def comp_def)
qed

lemma mset_filter_disj: "\<forall>x. \<not> (A x \<and> B x) \<Longrightarrow> mset (filter A xs) + mset (filter B xs) = mset (filter (\<lambda>x. A x \<or> B x) xs)"
  by (induction xs) (auto simp del: mset_filter)

lemma mset_rows_of:
  "distinct ps \<Longrightarrow> mset (concat (map (rows_of ts) ps)) = mset (filter (\<lambda>r. nonempty r \<and> ti_file (snd r) \<in> set ps) ts)"
proof (induction ps)
  case (Cons p ps)
  have "mset (rows_of ts p) + mset (filter (\<lambda>r. nonempty r \<and> ti_file (snd r) \<in> set ps) ts)
      = mset (filter (\<lambda>r. (nonempty r \<and> ti_file (snd r) = p) \<or> nonempty r \<and> ti_file (snd r) \<in> set ps) ts)"
    unfolding rows_of_def using Cons.prems by (intro mset_filter_disj) auto
  moreover have "(\<lambda>r. (nonempty r \<and> ti_file (snd r) = p) \<or> nonempty r \<and> ti_file (snd r) \<in> set ps)
      = (\<lambda>r. nonempty r \<and> ti_file (snd r) \<in> set (p # ps))" by auto
  ultimately show ?case using Cons by (simp del: mset_filter)
qed simp

lemma map_of_empty_lists:
  "map_of (map (\<lambda>(p, _). (p, [])) d) k = (if k \<in> set (od_keys (map (\<lambda>(p, _). (p, [])) d)) then Some [] else None)"
  by (induction d) (auto simp: od_keys_def)

lemma plan_files_exact:
  assumes "\<forall>p \<in> set ps. \<exists>st. map_of stamps p = Some st" and "\<forall>p \<in> set ps. distinct (rows p)"
  shows "case fold_res (plan_file bb stamps) (map (\<lambda>p. (p, rows p)) ps) batches of
       Inl e \<Rightarrow> e = ValueError \<and> \<not> (\<forall>p \<in> set ps. \<forall>st. map_of stamps p = Some st \<longrightarrow> file_ok (st_size st) (rows p))
     | Inr bs \<Rightarrow> (\<forall>p \<in> set ps. \<forall>st. map_of stamps p = Some st \<longrightarrow> file_ok (st_size st) (rows p))
         \<and> (\<exists>new. bs = batches @ new \<and> mset (concat (map bt_tensors new)) = mset (concat (map rows ps))
             \<and> (\<forall>b \<in> set new. \<exists>st. map_of stamps (bt_file b) = Some st \<and> batch_shape bb (bt_file b) b
                   \<and> 0 \<le> bt_start b \<and> bt_end b \<le> st_size st \<and> set (bt_tensors b) \<subseteq> set (rows (bt_file b))))"
  using assms
proof (induction ps arbitrary: batches)
  case (Cons p ps)
  obtain st where st: "map_of stamps p = Some st" using Cons.prems(1) by auto
  note one = plan_file_exact [OF st, where rows = "rows p" and bb = bb and batches = batches]
  show ?case
  proof (cases "plan_file bb stamps (p, rows p) batches")
    case (Inl e)
    then show ?thesis using one Cons.prems(2) st by auto
  next
    case (Inr bs1)
    obtain new1 where p1: "file_ok (st_size st) (rows p)" "bs1 = batches @ new1" "file_plan bb p (st_size st) (rows p) new1"
      using one Inr Cons.prems(2) by auto
    have b1: "\<exists>st. map_of stamps (bt_file b) = Some st \<and> batch_shape bb (bt_file b) b \<and> 0 \<le> bt_start b \<and> bt_end b \<le> st_size st \<and> set (bt_tensors b) \<subseteq> set (rows (bt_file b))"
      if "b \<in> set new1" for b
    proof -
      have "bt_file b = p" "batch_shape bb p b" "0 \<le> bt_start b" "bt_end b \<le> st_size st"
        using p1(3) that by (auto simp: file_plan_def batch_shape_def)
      moreover have "set (bt_tensors b) \<subseteq> set (rows p)"
        using p1(3) that mset_eq_setD [of "concat (map bt_tensors new1)" "rows p"] by (auto simp: file_plan_def)
      ultimately show ?thesis using st by auto
    qed
    note IH = Cons.IH [of bs1]
    show ?thesis
    proof (cases "fold_res (plan_file bb stamps) (map (\<lambda>p. (p, rows p)) ps) bs1")
      case (Inl e)
      then show ?thesis using IH Inr Cons.prems by auto
    next
      case bs: (Inr bs)
      then obtain new where n: "bs = bs1 @ new" "mset (concat (map bt_tensors new)) = mset (concat (map rows ps))"
          "\<forall>b \<in> set new. \<exists>st. map_of stamps (bt_file b) = Some st \<and> batch_shape bb (bt_file b) b \<and> 0 \<le> bt_start b \<and> bt_end b \<le> st_size st \<and> set (bt_tensors b) \<subseteq> set (rows (bt_file b))"
          "\<forall>p \<in> set ps. \<forall>st. map_of stamps p = Some st \<longrightarrow> file_ok (st_size st) (rows p)"
        using IH Cons.prems by auto
      have "mset (concat (map bt_tensors (new1 @ new))) = mset (concat (map rows (p # ps)))"
        using n(2) p1(3) by (simp add: file_plan_def)
      then show ?thesis using n(1,3,4) b1 p1(1,2) st Inr bs
        by (auto intro!: exI [of _ "new1 @ new"])
    qed
  qed
qed simp

definition extents_ok :: "ckpt_metadata \<Rightarrow> bool" where
  "extents_ok md =
     ((\<forall>r \<in> set (md_tensors md). nonempty r \<longrightarrow> row_aligned r)
      \<and> (\<forall>p st. map_of (md_stamps md) p = Some st \<longrightarrow> file_ok (st_size st) (rows_of (md_tensors md) p)))"

definition plan_covers :: "ckpt_metadata \<Rightarrow> int \<Rightarrow> batch list \<Rightarrow> bool" where
  "plan_covers md bb bs =
     (mset (concat (map bt_tensors bs)) = mset (filter nonempty (md_tensors md))
      \<and> (\<forall>b \<in> set bs. \<exists>st. map_of (md_stamps md) (bt_file b) = Some st \<and> batch_shape bb (bt_file b) b
            \<and> 0 \<le> bt_start b \<and> bt_end b \<le> st_size st \<and> (\<forall>r \<in> set (bt_tensors b). ti_file (snd r) = bt_file b)))"

lemma plan_exact:
  assumes "md_wf md" and "ALIGN \<le> batch_bytes" and "batch_bytes mod ALIGN = 0"
  shows "case plan_batches md batch_bytes of
       Inl e \<Rightarrow> e \<in> {ValueError, UnsupportedStream} \<and> \<not> extents_ok md
     | Inr bs \<Rightarrow> extents_ok md \<and> plan_covers md batch_bytes bs"
proof -
  define ts where "ts = md_tensors md"
  define bf where "bf = map (\<lambda>(path, _). (path, [] :: (string \<times> tensor_info) list)) (md_stamps md)"
  have keys: "od_keys bf = od_keys (md_stamps md)" by (auto simp: bf_def od_keys_def comp_def case_prod_beta)
  have wf: "od_wf ts" "od_wf (md_stamps md)" "\<forall>r \<in> set ts. ti_file (snd r) \<in> set (od_keys bf)"
    using assms(1) unfolding md_wf_def keys ts_def by auto
  have empty: "map_of bf p = (if p \<in> set (od_keys bf) then Some [] else None)" for p
    unfolding bf_def by (rule map_of_empty_lists)
  have "distinct ts" using wf(1) by (simp add: od_wf_def od_keys_def distinct_map)
  then have rows: "distinct (rows_of ts p)" for p by (simp add: rows_of_def)
  note first = add_rows_exact [OF wf(3)]
  have run: "plan_batches md batch_bytes = rbind (fold_res add_row ts bf) (\<lambda>by_file. fold_res (plan_file batch_bytes (md_stamps md)) by_file [])"
    using assms(2,3) by (simp add: plan_batches_def ts_def bf_def)
  show ?thesis
  proof (cases "fold_res add_row ts bf")
    case (Inl e)
    then show ?thesis using first run by (auto simp: extents_ok_def ts_def)
  next
    case (Inr by_file)
    have "by_file = map (\<lambda>p. (p, rows_of ts p)) (od_keys by_file)"
      using Inr first wf(2) empty by (intro od_eq_map) (auto simp: od_wf_def keys)
    moreover have "od_keys by_file = od_keys (md_stamps md)" using Inr first keys by simp
    ultimately have plan: "plan_batches md batch_bytes
        = fold_res (plan_file batch_bytes (md_stamps md)) (map (\<lambda>p. (p, rows_of ts p)) (od_keys (md_stamps md))) []"
      using run Inr by simp
    have known: "\<forall>p \<in> set (od_keys (md_stamps md)). \<exists>st. map_of (md_stamps md) p = Some st" by (auto simp: set_od_keys)
    have "filter (\<lambda>r. nonempty r \<and> ti_file (snd r) \<in> set (od_keys (md_stamps md))) ts = filter nonempty ts"
      using wf(3) keys by (intro filter_cong) auto
    then have all: "mset (concat (map (rows_of ts) (od_keys (md_stamps md)))) = mset (filter nonempty ts)"
      using mset_rows_of [of "od_keys (md_stamps md)" ts] wf(2) by (simp add: od_wf_def del: mset_filter)
    have ext: "extents_ok md \<longleftrightarrow> (\<forall>p \<in> set (od_keys (md_stamps md)). \<forall>st. map_of (md_stamps md) p = Some st
        \<longrightarrow> file_ok (st_size st) (rows_of ts p))"
      using Inr first by (auto simp: extents_ok_def ts_def)
    have tensors: "set xs \<subseteq> set (rows_of ts p) \<Longrightarrow> \<forall>r \<in> set xs. ti_file (snd r) = p" for xs p by (auto simp: rows_of_def)
    show ?thesis
      using tensors plan_files_exact [OF known, where rows = "rows_of ts" and bb = batch_bytes and batches = "[]"] rows all ext
      unfolding plan plan_covers_def ts_def
      by (cases "fold_res (plan_file batch_bytes (md_stamps md)) (map (\<lambda>p. (p, rows_of (md_tensors md) p)) (od_keys (md_stamps md))) []")
        (simp_all del: mset_filter, blast)
  qed
qed

text \<open>
  C20: A reading plan is exact, and one is made whenever it can be. On well-formed metadata and a legal
  batch size, \<^verbatim>\<open>plan_batches\<close> raises only when some nonempty tensor is misaligned for its dtype, lies
  outside its file or overlaps another; otherwise the batches hold every nonempty tensor exactly once,
  each batch is an aligned range inside its file that contains its tensors in order without overlap,
  and only a batch of a single tensor is larger than the batch size.
\<close>

theorem plan_batches_exact:
  assumes "md_wf md" and "ALIGN \<le> batch_bytes" and "batch_bytes mod ALIGN = 0"
  shows "case plan_batches md batch_bytes of
       Inl e \<Rightarrow> e \<in> {ValueError, UnsupportedStream} \<and> \<not> extents_ok md
     | Inr bs \<Rightarrow> extents_ok md \<and> plan_covers md batch_bytes bs"
  using assms by (rule plan_exact)

theorem plan_batches_exact_witness:
  "\<exists>bs. plan_batches demo_md 4096 = ok bs \<and> plan_covers demo_md 4096 bs \<and> length bs = 1"
proof -
  have wf: "md_wf demo_md" by (simp add: md_wf_def demo_md_def demo_stamp_def info_wf_def od_wf_def od_keys_def)
  have "\<exists>bs. plan_batches demo_md 4096 = ok bs \<and> length bs = 1"
    by (simp add: plan_batches_def demo_md_def demo_stamp_def ALIGN_def add_row_def plan_file_def plan_row_def flush_def Let_def)
  then show ?thesis using plan_batches_exact [OF wf, of 4096] by (auto simp: ALIGN_def)
qed

lemma plan_covered:
  assumes "md_wf md" and "plan_batches md batch_bytes = ok bs"
  shows "plan_covers md batch_bytes bs"
proof -
  have "ALIGN \<le> batch_bytes" "batch_bytes mod ALIGN = 0" using assms(2) by (auto simp: plan_batches_def split: if_splits)
  from plan_exact [OF assms(1) this] show ?thesis by (simp add: assms(2))
qed

lemma batch_nonneg: "batch_shape bb path b \<Longrightarrow> bt_start b \<le> bt_end b"
proof -
  assume b: "batch_shape bb path b"
  then obtain r rs where "bt_tensors b = r # rs" by (cases "bt_tensors b") (auto simp: batch_shape_def)
  then have "bt_start b \<le> row_offset r" "0 < ti_bytes (snd r)" "row_end r \<le> bt_end b" using b by (auto simp: batch_shape_def)
  then show ?thesis by (simp add: row_offset_def row_end_def)
qed

end
