(* ===== verification/Ckpt_Read.thy ===== *)
theory Ckpt_Read
  imports Ckpt_Plan Slab_IO
begin

text \<open>
  Reading checkpoint ranges (\<^verbatim>\<open>spark_nvme/transport.py\<close>: \<^verbatim>\<open>align\<close>, \<^verbatim>\<open>read_exact\<close>; \<^verbatim>\<open>coalesced.py\<close>:
  \<^verbatim>\<open>read_aligned\<close>, \<^verbatim>\<open>check_direct_support\<close>, \<^verbatim>\<open>RangeReader\<close>). Two host tiles are filled by concurrent reads
  and uploaded by an asynchronous stream; an event per tile fences its reuse. Theorems: a read that
  returns has the bytes of the file however the system cuts it up, every read is aligned and stays in
  its part of the tile, and the output of a batch is the file range whenever the uploads happen.
\<close>

section \<open>Read loops\<close>

definition align :: "int \<Rightarrow> int" where
  "align n = (n + ALIGN - 1) div ALIGN * ALIGN"

text \<open>
  One \<^verbatim>\<open>preadv\<close> at an offset into a buffer of a given length: a count the system chooses, at most what the
  file still has there; a negative answer is an \<^verbatim>\<open>OSError\<close>.
\<close>

definition pread_some :: "os_answer list \<Rightarrow> byte list \<Rightarrow> nat \<Rightarrow> nat \<Rightarrow> (byte list \<times> os_answer list) res" where
  "pread_some as f n off =
     (case next_count as (min n (length f - off)) of
        (Inl e, _) \<Rightarrow> err e
      | (Inr k, as') \<Rightarrow> if k < 0 then err OSError else ok (pread f (nat k) off, as'))"

lemma pread_some_ok:
  assumes "pread_some as f n off = ok (bs, as')"
  shows "bs = pread f (length bs) off" "length bs \<le> n" "length bs \<le> length f - off"
proof -
  obtain k where k: "next_count as (min n (length f - off)) = (ok k, as')" "0 \<le> k" "bs = pread f (nat k) off"
    using assms by (auto simp: pread_some_def split: prod.splits sum.splits if_splits)
  have "nat k \<le> n \<and> nat k \<le> length f - off" using next_count_bound [OF k(1)] by (simp add: nat_le_iff min_le_iff_disj min_def split: if_splits)
  then show "bs = pread f (length bs) off" "length bs \<le> n" "length bs \<le> length f - off"
    by (simp_all add: k(3) pread_def)
qed

text \<open>\<^verbatim>\<open>read_exact\<close>: fill a buffer of \<open>n\<close> bytes; the bytes read so far are \<open>got\<close>.\<close>

function read_exact :: "byte list \<Rightarrow> nat \<Rightarrow> nat \<Rightarrow> byte list \<Rightarrow> os_answer list \<Rightarrow> byte list res" where
  "read_exact f n off got as =
     (if length got < n then
        (case pread_some as f (n - length got) (off + length got) of
           Inl e \<Rightarrow> err e
         | Inr (bs, as') \<Rightarrow> if bs = [] then err EOFError else read_exact f n off (got @ bs) as')
      else ok got)"
  by pat_completeness auto
termination
  by (relation "measure (\<lambda>(f, n, off, got, as). n - length got)") (auto simp: neq_Nil_conv)

text \<open>
  \<^verbatim>\<open>read_aligned\<close>: the same for a view of \<open>vlen\<close> bytes of which \<open>required\<close> are needed. After a first short read
  of a direct descriptor the file is reopened without \<^verbatim>\<open>O_DIRECT\<close>; \<open>reopen\<close> is what that open does.
\<close>

function read_aligned :: "unit res \<Rightarrow> byte list \<Rightarrow> nat \<Rightarrow> nat \<Rightarrow> nat \<Rightarrow> bool \<Rightarrow> bool \<Rightarrow> byte list \<Rightarrow> nat \<Rightarrow> os_answer list
    \<Rightarrow> (byte list \<times> nat) res" where
  "read_aligned reopen f vlen off required direct buffered got calls as =
     (if length got < required then
        (case pread_some as f (vlen - length got) (off + length got) of
           Inl e \<Rightarrow> err e
         | Inr (bs, as') \<Rightarrow>
             if bs = [] then err EOFError
             else let got' = got @ bs in
               if length got' < required \<and> direct \<and> \<not> buffered then
                 (case reopen of
                    Inl e \<Rightarrow> err e
                  | Inr _ \<Rightarrow> read_aligned reopen f vlen off required direct True got' (calls + 1) as')
               else read_aligned reopen f vlen off required direct buffered got' (calls + 1) as')
      else ok (got, calls))"
  by pat_completeness auto
termination
  by (relation "measure (\<lambda>(reopen, f, vlen, off, required, direct, buffered, got, calls, as). required - length got)") (auto simp: neq_Nil_conv)

text \<open>
  \<^verbatim>\<open>check_direct_support\<close>: one probe per source device; \<open>probe\<close> answers the aligned read of a file, with the
  error number when it fails.
\<close>

datatype probe = ProbeOk | ProbeErrno nat

definition EINVAL :: nat where "EINVAL = 22"
definition EOPNOTSUPP :: nat where "EOPNOTSUPP = 95"
definition ENOSYS :: nat where "ENOSYS = 38"

fun check_direct_support :: "(string \<Rightarrow> probe) \<Rightarrow> (string, file_stamp) odict \<Rightarrow> nat set \<Rightarrow> unit res" where
  "check_direct_support probe [] checked = ok ()"
| "check_direct_support probe ((path, before) # rest) checked =
     (if st_dev before \<in> checked then check_direct_support probe rest checked
      else case probe path of
        ProbeErrno n \<Rightarrow> if n \<in> {EINVAL, EOPNOTSUPP, ENOSYS} then err UnsupportedStream else err OSError
      | ProbeOk \<Rightarrow> check_direct_support probe rest (insert (st_dev before) checked))"

section \<open>The range reader\<close>

text \<open>
  An upload enqueued on the stream: its event, the tile it copies from, and the output, position and
  length it copies to.
\<close>

record upload =
  up_event :: nat
  up_slot :: nat
  up_out :: nat
  up_pos :: nat
  up_len :: nat

text \<open>
  The reader: tile size, concurrency, two tiles (bytes and the event of the last upload from it), the
  slot counter, the uploads not yet performed, the next event, the open file, and the outputs of the
  batches so far.
\<close>

record reader =
  rr_tile :: nat
  rr_concurrency :: nat
  rr_cuda :: bool
  rr_direct :: bool
  rr_slots :: "(byte list \<times> nat option) list"
  rr_next :: nat
  rr_stream :: "upload list"
  rr_event :: nat
  rr_path :: "string option"
  rr_outs :: "byte list list"

definition range_reader :: "bool \<Rightarrow> bool \<Rightarrow> int \<Rightarrow> int \<Rightarrow> int \<Rightarrow> reader res" where
  "range_reader cuda direct memory_limit concurrency tile_bytes =
     (if \<not> (1 \<le> concurrency \<and> concurrency \<le> 128) then err ValueError
      else let tile = min tile_bytes ((memory_limit div 2 - ALIGN) div ALIGN * ALIGN) in
        if tile < ALIGN then err ValueError
        else ok \<lparr>rr_tile = nat tile, rr_concurrency = nat concurrency, rr_cuda = cuda, rr_direct = direct,
               rr_slots = [(replicate (nat tile) 0, None), (replicate (nat tile) 0, None)],
               rr_next = 0, rr_stream = [], rr_event = 0, rr_path = None, rr_outs = []\<rparr>)"

text \<open>Performing an upload copies from the tile as it is at that moment.\<close>

definition do_upload :: "(byte list \<times> nat option) list \<Rightarrow> upload \<Rightarrow> byte list list \<Rightarrow> byte list list" where
  "do_upload slots u outs =
     outs[up_out u := patch (outs ! up_out u) (take (up_len u) (fst (slots ! up_slot u))) (up_pos u)]"

definition perform :: "nat \<Rightarrow> reader \<Rightarrow> reader" where
  "perform n r = r\<lparr>rr_stream := drop n (rr_stream r),
     rr_outs := fold (do_upload (rr_slots r)) (take n (rr_stream r)) (rr_outs r)\<rparr>"

text \<open>\<^verbatim>\<open>event.synchronize()\<close>: every upload up to the event has happened.\<close>

definition synchronize :: "nat \<Rightarrow> reader \<Rightarrow> reader" where
  "synchronize ev r = perform (length (takeWhile (\<lambda>u. up_event u \<le> ev) (rr_stream r))) r"

text \<open>
  The jobs of one tile: offset and length of each read, as \<^verbatim>\<open>fill\<close> submits them to the pool. The view of a
  job is its length rounded up to the alignment.
\<close>

definition quantum :: "nat \<Rightarrow> nat \<Rightarrow> nat" where
  "quantum concurrency len =
     nat (max ALIGN (align (int ((len + concurrency - 1) div concurrency))))"

function read_jobs :: "nat \<Rightarrow> nat \<Rightarrow> nat \<Rightarrow> (nat \<times> nat) list" where
  "read_jobs q len off = (if off < len \<and> 0 < q then (off, min q (len - off)) # read_jobs q len (off + q) else [])"
  by pat_completeness auto
termination
  by (relation "measure (\<lambda>(q, len, off). len - off)") auto

text \<open>
  All jobs run to the end; the first error in submission order is raised then. \<open>ans\<close> are the system's
  answers to each job. A job that fails may have written part of its view; what it left there is not
  read by anyone, and the tile keeps its old bytes in that part.
\<close>

fun run_jobs :: "unit res \<Rightarrow> bool \<Rightarrow> byte list \<Rightarrow> nat \<Rightarrow> (nat \<Rightarrow> os_answer list) \<Rightarrow> (nat \<times> nat) list \<Rightarrow> byte list \<Rightarrow> byte list \<times> unit res" where
  "run_jobs reopen direct f source ans [] buf = (buf, ok ())"
| "run_jobs reopen direct f source ans ((off, len) # jobs) buf =
     (case read_aligned reopen f (nat (align (int len))) (source + off) len direct False [] 0 (ans off) of
        Inl e \<Rightarrow> (case run_jobs reopen direct f source ans jobs buf of (buf', _) \<Rightarrow> (buf', err e))
      | Inr (bs, _) \<Rightarrow> run_jobs reopen direct f source ans jobs (patch buf bs off))"

text \<open>Before a tile is filled again, the upload from it is waited for.\<close>

definition fence :: "nat \<Rightarrow> reader \<Rightarrow> reader" where
  "fence s r = (case snd (rr_slots r ! s) of None \<Rightarrow> r | Some ev \<Rightarrow> synchronize ev r)"

definition tile_len :: "reader \<Rightarrow> batch \<Rightarrow> nat \<Rightarrow> nat" where
  "tile_len r b position = min (rr_tile r) (nat (bt_bytes b) - position)"

text \<open>
  One tile of \<^verbatim>\<open>fill\<close> for the output \<open>out\<close>; \<open>drain\<close> is how many uploads the stream happens to perform before it.
\<close>

definition fill_tile :: "unit res \<Rightarrow> byte list \<Rightarrow> batch \<Rightarrow> nat \<Rightarrow> nat \<Rightarrow> (nat \<Rightarrow> os_answer list) \<Rightarrow> nat \<Rightarrow> reader
    \<Rightarrow> reader \<times> unit res" where
  "fill_tile reopen f b out drain ans position r0 =
     (let r1 = perform drain r0;
          s = rr_next r1 mod 2;
          r2 = fence s r1;
          len = tile_len r2 b position;
          (buf, res) = run_jobs reopen (rr_direct r2) f (nat (bt_start b) + position) ans
              (read_jobs (quantum (rr_concurrency r2) len) len 0) (fst (rr_slots r2 ! s));
          r3 = r2\<lparr>rr_next := rr_next r2 + 1, rr_slots := (rr_slots r2)[s := (buf, snd (rr_slots r2 ! s))]\<rparr>
      in case res of
           Inl e \<Rightarrow> (r3, err e)
         | Inr _ \<Rightarrow>
             if rr_cuda r3
             then (r3\<lparr>rr_slots := (rr_slots r3)[s := (buf, Some (rr_event r3))], rr_event := rr_event r3 + 1,
                      rr_stream := rr_stream r3 @ [\<lparr>up_event = rr_event r3, up_slot = s, up_out = out,
                        up_pos = position, up_len = len\<rparr>]\<rparr>, ok ())
             else (r3\<lparr>rr_outs := (rr_outs r3)[out := patch (rr_outs r3 ! out) (take len buf) position]\<rparr>, ok ()))"

fun fill_tiles :: "unit res \<Rightarrow> byte list \<Rightarrow> batch \<Rightarrow> nat \<Rightarrow> (nat \<Rightarrow> nat) \<Rightarrow> (nat \<Rightarrow> nat \<Rightarrow> os_answer list) \<Rightarrow> nat list \<Rightarrow> reader
    \<Rightarrow> reader \<times> unit res" where
  "fill_tiles reopen f b out drain ans [] r = (r, ok ())"
| "fill_tiles reopen f b out drain ans (p # ps) r =
     (case fill_tile reopen f b out (drain p) (ans p) p r of
        (r', Inl e) \<Rightarrow> (r', err e)
      | (r', Inr _) \<Rightarrow> fill_tiles reopen f b out drain ans ps r')"

text \<open>\<^verbatim>\<open>range(0, n, step)\<close>.\<close>

function positions :: "nat \<Rightarrow> nat \<Rightarrow> nat \<Rightarrow> nat list" where
  "positions n step p = (if p < n \<and> 0 < step then p # positions n step (p + step) else [])"
  by pat_completeness auto
termination
  by (relation "measure (\<lambda>(n, step, p). n - p)") auto

text \<open>
  \<^verbatim>\<open>fill\<close> on the file's bytes (\<open>opened\<close> is what opening it does, when it is not open already). The result is
  the final event, if any: the output is complete once that event has been waited for.
\<close>

definition fill :: "unit res \<Rightarrow> unit res \<Rightarrow> byte list \<Rightarrow> batch \<Rightarrow> nat \<Rightarrow> (nat \<Rightarrow> nat) \<Rightarrow> (nat \<Rightarrow> nat \<Rightarrow> os_answer list) \<Rightarrow> reader
    \<Rightarrow> reader \<times> nat option res" where
  "fill opened reopen f b out drain ans r =
     (let (r1, res) = (if rr_path r \<noteq> Some (bt_file b)
             then (case opened of Inl e \<Rightarrow> (r, err e) | Inr u \<Rightarrow> (r\<lparr>rr_path := Some (bt_file b)\<rparr>, ok u))
             else (r, ok ()))
      in case res of
           Inl e \<Rightarrow> (r1, err e)
         | Inr _ \<Rightarrow>
             (case fill_tiles reopen f b out drain ans (positions (nat (bt_bytes b)) (rr_tile r1) 0) r1 of
                (r2, Inl e) \<Rightarrow> (r2, err e)
              | (r2, Inr _) \<Rightarrow>
                  (r2, ok (if rr_event r1 < rr_event r2 then Some (rr_event r2 - 1) else None))))"

section \<open>Reads are exact\<close>

declare read_exact.simps [simp del] read_aligned.simps [simp del] read_jobs.simps [simp del] positions.simps [simp del]

lemma length_pread: "length (pread f n off) = min n (length f - off)"
  by (simp add: pread_def)

lemma pread_append: "pread f n off @ pread f m (off + n) = pread f (n + m) off"
  by (simp add: pread_def take_add add.commute [of n off])

lemma take_pread: "k \<le> n \<Longrightarrow> take k (pread f n off) = pread f k off"
  by (simp add: pread_def min_def)

text \<open>The bytes read so far are the file's bytes at the offset.\<close>

definition read_at :: "byte list \<Rightarrow> nat \<Rightarrow> byte list \<Rightarrow> bool" where
  "read_at f off bs = (bs = pread f (length bs) off)"

lemma read_at_Nil [simp]: "read_at f off []"
  by (simp add: read_at_def pread_def)

lemma read_at_length: "read_at f off bs \<Longrightarrow> bs \<noteq> [] \<Longrightarrow> off + length bs \<le> length f"
  using length_pread [of f "length bs" off] unfolding read_at_def by (cases "length f \<le> off") auto

lemma read_at_extend:
  assumes "read_at f off got" and "pread_some as f n (off + length got) = ok (bs, as')"
  shows "read_at f off (got @ bs)"
proof -
  have "got @ bs = pread f (length got) off @ pread f (length bs) (off + length got)"
    using assms(1) pread_some_ok(1) [OF assms(2)] unfolding read_at_def by (rule arg_cong2 [where f = "(@)"])
  also have "\<dots> = pread f (length (got @ bs)) off" by (simp add: pread_append)
  finally show ?thesis unfolding read_at_def .
qed

lemma pread_some_progress:
  assumes "benign as" and "0 < n" and "off < length f"
  obtains bs as' where "pread_some as f n off = ok (bs, as')" "bs \<noteq> []" "benign as'"
proof -
  obtain k as' where k: "next_count as (min n (length f - off)) = (ok k, as')" "0 < k" "benign as'"
    using next_count_benign [OF assms(1), of "min n (length f - off)"] assms(2,3) by auto
  have "pread f (nat k) off \<noteq> []" using k(2) assms(3) by (simp add: pread_def)
  then show ?thesis using that k by (simp add: pread_some_def)
qed

lemma read_exact_ok:
  assumes "read_exact f n off got as = ok bs" and "read_at f off got" and "length got \<le> n"
  shows "read_at f off bs \<and> length bs = n"
  using assms
proof (induction f n off got as rule: read_exact.induct)
  case (1 f n off got as)
  show ?case
  proof (cases "length got < n")
    case True
    then obtain xs as' where p: "pread_some as f (n - length got) (off + length got) = ok (xs, as')" "xs \<noteq> []"
        "read_exact f n off (got @ xs) as' = ok bs"
      using 1(2) by (subst (asm) read_exact.simps) (auto split: sum.splits if_splits)
    note x = pread_some_ok [OF p(1)]
    show ?thesis
      using 1(1) [OF True p(1) refl p(2,3) read_at_extend [OF 1(3) p(1)]] x(2) True by simp
  next
    case False
    then show ?thesis using 1(2,3,4) by (subst (asm) read_exact.simps) simp
  qed
qed

lemma read_aligned_step:
  assumes "read_aligned reopen f vlen off required direct buffered got calls as = ok (bs, n)" and "length got < required"
  obtains xs as' buffered' where "pread_some as f (vlen - length got) (off + length got) = ok (xs, as')" "xs \<noteq> []"
    "read_aligned reopen f vlen off required direct buffered' (got @ xs) (calls + 1) as' = ok (bs, n)"
  using assms by (subst (asm) read_aligned.simps) (auto simp: Let_def split: sum.splits if_splits)

lemma read_aligned_ok:
  assumes "read_aligned reopen f vlen off required direct buffered got calls as = ok (bs, n)"
    and "read_at f off got" and "length got \<le> vlen" and "required \<le> vlen"
  shows "read_at f off bs \<and> required \<le> length bs \<and> length bs \<le> vlen \<and> n \<le> calls + (required - length got)"
  using assms
proof (induction "required - length got" arbitrary: buffered got calls as rule: less_induct)
  case less
  show ?case
  proof (cases "length got < required")
    case True
    obtain xs as' buffered' where p: "pread_some as f (vlen - length got) (off + length got) = ok (xs, as')" "xs \<noteq> []"
        "read_aligned reopen f vlen off required direct buffered' (got @ xs) (calls + 1) as' = ok (bs, n)"
      by (rule read_aligned_step [OF less.prems(1) True])
    have pos: "0 < length xs" using p(2) by (rule length_greater_0_conv [THEN iffD2])
    then have "required - length (got @ xs) < required - length got" using True by (simp del: length_greater_0_conv)
    moreover have "length (got @ xs) \<le> vlen" using pread_some_ok(2) [OF p(1)] less.prems(3) by simp
    ultimately have "read_at f off bs \<and> required \<le> length bs \<and> length bs \<le> vlen \<and> n \<le> calls + 1 + (required - length (got @ xs))"
      using less.hyps [OF _ p(3) read_at_extend [OF less.prems(2) p(1)]] less.prems(4) by simp
    moreover have "calls + 1 + (required - length (got @ xs)) \<le> calls + (required - length got)"
      using True pos unfolding length_append by linarith
    ultimately show ?thesis by linarith
  next
    case False
    then show ?thesis using less.prems by (subst (asm) read_aligned.simps) simp
  qed
qed

lemma read_aligned_returns:
  assumes "benign as" and "off + required \<le> length f" and "required \<le> vlen" and "read_at f off got"
  shows "is_ok (read_aligned (ok ()) f vlen off required direct buffered got calls as)"
  using assms
proof (induction "required - length got" arbitrary: buffered got calls as rule: less_induct)
  case less
  show ?case
  proof (cases "length got < required")
    case True
    obtain xs as' where p: "pread_some as f (vlen - length got) (off + length got) = ok (xs, as')" "xs \<noteq> []" "benign as'"
      by (rule pread_some_progress [OF less.prems(1), of "vlen - length got" "off + length got" f]) (use True less.prems(2,3) in simp_all)
    have "required - length (got @ xs) < required - length got" using True p(2) by (cases xs) auto
    note IH = less.hyps [OF this p(3) less.prems(2,3) read_at_extend [OF less.prems(4) p(1)]]
    show ?thesis using True p(1,2) IH by (subst read_aligned.simps) (auto simp: Let_def)
  next
    case False
    then show ?thesis by (subst read_aligned.simps) simp
  qed
qed

text \<open>
  C21: \<^verbatim>\<open>read_aligned\<close> ends, and never makes up bytes. However the system splits the reads, a call that returns
  has at least the required bytes and exactly what the file holds there, so that a file too short for
  them always raises; and when every read makes progress (and the reopening of a short direct read
  succeeds) a call inside the file returns after at most one read per required byte.
\<close>

theorem read_aligned_exact:
  assumes "0 < required" and "required \<le> vlen"
  shows "case read_aligned reopen f vlen off required direct False [] 0 as of
       Inr (bs, n) \<Rightarrow> bs = pread f (length bs) off \<and> required \<le> length bs \<and> length bs \<le> vlen \<and> off + length bs \<le> length f
         \<and> n \<le> required
     | Inl e \<Rightarrow> \<not> (benign as \<and> reopen = ok () \<and> off + required \<le> length f)"
proof -
  let ?r = "read_aligned reopen f vlen off required direct False [] 0 as"
  show ?thesis
  proof (cases ?r)
    case (Inl e)
    have "\<not> is_ok ?r" by (simp add: Inl)
    then have "\<not> (benign as \<and> reopen = ok () \<and> off + required \<le> length f)"
      using read_aligned_returns [where got = "[]" and as = as and off = off and f = f, OF _ _ assms(2)] by auto
    then show ?thesis by (simp add: Inl)
  next
    case (Inr p)
    obtain bs n where p: "p = (bs, n)" by (cases p)
    have bs: "read_at f off bs" "required \<le> length bs" "length bs \<le> vlen"
      using read_aligned_ok [OF Inr [unfolded p]] assms(2) by simp_all
    moreover have "n \<le> required" using read_aligned_ok [OF Inr [unfolded p]] assms(2) by simp
    moreover have "off + length bs \<le> length f" using bs(2) assms(1) by (intro read_at_length [OF bs(1)]) auto
    ultimately show ?thesis by (simp add: Inr p read_at_def)
  qed
qed

theorem read_aligned_exact_witness:
  "read_aligned (ok ()) [1, 2, 3, 4, 5] 4 1 3 True False [] 0 [Did 1, Did 2] = ok ([2, 3, 4], 2)
   \<and> [2, 3, 4] = pread [1, 2, 3, 4, 5] 3 1"
proof -
  have run: "read_aligned (ok ()) [1, 2, 3, 4, 5] 4 1 3 True False [] 0 [Did 1, Did 2] = ok ([2, 3, 4], 2)"
    by (simp add: read_aligned.simps pread_some_def pread_def)
  then show ?thesis
    using read_aligned_exact [where required = 3 and vlen = 4 and reopen = "ok ()" and f = "[1, 2, 3, 4, 5]" and off = 1 and direct = True
        and as = "[Did 1, Did 2]"] by (simp add: numeral_3_eq_3)
qed

section \<open>The jobs of a tile\<close>

lemma align_facts: "n \<le> align n" "align n < n + ALIGN" "ALIGN dvd align n"
proof -
  have "align n = n + ALIGN - 1 - (n + ALIGN - 1) mod ALIGN"
    by (simp add: align_def minus_mod_eq_div_mult [symmetric])
  moreover have "0 \<le> (n + ALIGN - 1) mod ALIGN" "(n + ALIGN - 1) mod ALIGN < ALIGN" by (simp_all add: ALIGN_def)
  ultimately show "n \<le> align n" "align n < n + ALIGN" by linarith+
qed (simp add: align_def)

lemma align_least: "ALIGN dvd m \<Longrightarrow> n \<le> m \<Longrightarrow> align n \<le> m"
proof -
  assume "ALIGN dvd m" "n \<le> m"
  then obtain a b where ab: "m = ALIGN * a" "align n = ALIGN * b" using align_facts(3) [of n] by (auto elim!: dvdE)
  have "ALIGN * b < ALIGN * (a + 1)" using align_facts(2) [of n] \<open>n \<le> m\<close> by (simp add: ab algebra_simps)
  then show ?thesis by (simp add: ab ALIGN_def)
qed

lemma align_nat: "k \<le> nat (align (int k))" "4096 dvd m \<Longrightarrow> k \<le> m \<Longrightarrow> nat (align (int k)) \<le> m"
proof -
  show "k \<le> nat (align (int k))" using align_facts(1) [of "int k"] by simp
  assume "4096 dvd m" "k \<le> m"
  then have "ALIGN dvd int m" by (metis ALIGN_def int_dvd_int_iff of_nat_numeral)
  then show "nat (align (int k)) \<le> m" using align_least [of "int m" "int k"] \<open>k \<le> m\<close> by simp
qed

lemma quantum_facts:
  assumes "0 < c"
  shows "4096 dvd quantum c len" "0 < quantum c len" "len \<le> c * quantum c len"
proof -
  let ?m = "max ALIGN (align (int ((len + c - 1) div c)))"
  have q: "int (quantum c len) = ?m" by (simp add: quantum_def ALIGN_def)
  have "ALIGN dvd ?m" using align_facts(3) by (simp add: max_def)
  then show "4096 dvd quantum c len" by (metis ALIGN_def int_dvd_int_iff of_nat_numeral q)
  show "0 < quantum c len" by (simp add: quantum_def ALIGN_def)
  have "int ((len + c - 1) div c) \<le> int (quantum c len)" using align_facts(1) [of "int ((len + c - 1) div c)"] unfolding q by simp
  then have "(len + c - 1) div c \<le> quantum c len" by simp
  then have "c * ((len + c - 1) div c) \<le> c * quantum c len" by simp
  moreover have "len \<le> c * ((len + c - 1) div c)"
  proof -
    have "len + c - 1 = c * ((len + c - 1) div c) + (len + c - 1) mod c" by simp
    moreover have "(len + c - 1) mod c < c" using assms by simp
    ultimately show ?thesis by linarith
  qed
  ultimately show "len \<le> c * quantum c len" by linarith
qed

definition job_range :: "nat \<times> nat \<Rightarrow> nat list" where
  "job_range = (\<lambda>(off, l). [off..<off + l])"

definition job_view :: "nat \<times> nat \<Rightarrow> nat \<times> nat" where
  "job_view = (\<lambda>(off, l). (off, off + nat (align (int l))))"

lemma read_jobs_in:
  assumes "(o', l) \<in> set (read_jobs q len off)" and "4096 dvd q" and "4096 dvd off" and "4096 dvd tile" and "len \<le> tile"
  shows "4096 dvd o' \<and> off \<le> o' \<and> 0 < l \<and> o' + l \<le> len \<and> l \<le> q \<and> o' + nat (align (int l)) \<le> tile"
  using assms
proof (induction q len off rule: read_jobs.induct)
  case (1 q len off)
  then have lt: "off < len" "0 < q" by (auto simp: read_jobs.simps [of q len off] split: if_splits)
  show ?case
  proof (cases "(o', l) = (off, min q (len - off))")
    case True
    have "4096 dvd tile - off" using 1(4,5) by (simp add: dvd_diff_nat)
    then have "nat (align (int l)) \<le> tile - off" using True 1(6) lt by (intro align_nat(2)) auto
    then show ?thesis using True lt 1(4,6) by auto
  next
    case False
    then have "(o', l) \<in> set (read_jobs q len (off + q))" using 1(2) lt by (auto simp: read_jobs.simps [of q len off])
    then show ?thesis using 1(1) [OF _ _ 1(3) _ 1(5,6)] lt 1(3,4) by auto
  qed
qed

lemma read_jobs_cover: "off \<le> len \<Longrightarrow> 0 < q \<Longrightarrow> concat (map job_range (read_jobs q len off)) = [off..<len]"
proof (induction q len off rule: read_jobs.induct)
  case (1 q len off)
  show ?case
  proof (cases "off + q \<le> len")
    case True
    then have "off < len" using 1(3) by simp
    moreover have "[off..<len] = [off..<off + q] @ [off + q..<len]" using True upt_add_eq_append [of off "off + q" "len - (off + q)"] by simp
    ultimately show ?thesis using 1 True by (simp add: read_jobs.simps [of q len off] job_range_def min_def)
  next
    case False
    then have "read_jobs q len (off + q) = []" by (simp add: read_jobs.simps)
    then show ?thesis using 1(2,3) False by (auto simp: read_jobs.simps [of q len off] job_range_def)
  qed
qed

lemma read_jobs_views_apart:
  assumes "4096 dvd q" and "4096 dvd off"
  shows "sorted_wrt (\<lambda>v w. snd v \<le> fst w) (map job_view (read_jobs q len off))"
  using assms
proof (induction q len off rule: read_jobs.induct)
  case (1 q len off)
  show ?case
  proof (cases "off < len \<and> 0 < q")
    case True
    have "off + nat (align (int (min q (len - off)))) \<le> o'" if "(o', l) \<in> set (read_jobs q len (off + q))" for o' l
      using read_jobs_in [OF that 1(2), of "4096 * len"] 1(2,3) align_nat(2) [OF 1(2), of "min q (len - off)"] by auto
    then show ?thesis using 1 True by (auto simp: read_jobs.simps [of q len off] job_view_def)
  qed (simp add: read_jobs.simps)
qed

lemma length_read_jobs: "len \<le> off + n * q \<Longrightarrow> length (read_jobs q len off) \<le> n"
proof (induction q len off arbitrary: n rule: read_jobs.induct)
  case (1 q len off)
  show ?case
  proof (cases "off < len \<and> 0 < q")
    case True
    then obtain m where m: "n = Suc m" using 1(2) by (cases n) auto
    show ?thesis using 1(1) [OF True, of m] 1(2) True by (simp add: read_jobs.simps [of q len off] m)
  qed (auto simp: read_jobs.simps)
qed

text \<open>
  The concurrent reads of a tile are legal and cannot collide. There are at most \<open>concurrency\<close> of them;
  together they read every byte of the tile's part of the batch exactly once; each starts at a
  multiple of 4096 in the file and in the tile, and its view, rounded up to 4096, stays inside the tile
  and does not reach the view of the next one.
\<close>

theorem tile_reads_aligned:
  assumes "0 < concurrency" and "len \<le> tile" and "4096 dvd tile" and "4096 dvd source"
  shows "length (read_jobs (quantum concurrency len) len 0) \<le> concurrency
     \<and> concat (map job_range (read_jobs (quantum concurrency len) len 0)) = [0..<len]
     \<and> sorted_wrt (\<lambda>v w. snd v \<le> fst w) (map job_view (read_jobs (quantum concurrency len) len 0))
     \<and> (\<forall>(off, l) \<in> set (read_jobs (quantum concurrency len) len 0).
          4096 dvd source + off \<and> 4096 dvd off \<and> 0 < l \<and> off + nat (align (int l)) \<le> tile)"
proof (intro conjI)
  note q = quantum_facts [OF assms(1), of len]
  show "length (read_jobs (quantum concurrency len) len 0) \<le> concurrency" using q(3) by (intro length_read_jobs) simp
  show "concat (map job_range (read_jobs (quantum concurrency len) len 0)) = [0..<len]" using q(2) by (intro read_jobs_cover) auto
  show "sorted_wrt (\<lambda>v w. snd v \<le> fst w) (map job_view (read_jobs (quantum concurrency len) len 0))"
    by (rule read_jobs_views_apart [OF q(1)]) simp
  show "\<forall>(off, l) \<in> set (read_jobs (quantum concurrency len) len 0).
          4096 dvd source + off \<and> 4096 dvd off \<and> 0 < l \<and> off + nat (align (int l)) \<le> tile"
    using read_jobs_in [OF _ q(1) _ assms(3,2), of _ _ 0] assms(4) by auto
qed

theorem tile_reads_aligned_witness:
  "read_jobs (quantum 2 10000) 10000 0 = [(0, 8192), (8192, 1808)]
   \<and> length (read_jobs (quantum 2 10000) 10000 0) \<le> 2
   \<and> list_all (\<lambda>(off, l). 4096 dvd 8192 + off \<and> off + nat (align (int l)) \<le> 12288) (read_jobs (quantum 2 10000) 10000 0)"
proof -
  have "read_jobs (quantum 2 10000) 10000 0 = [(0, 8192), (8192, 1808)]"
    by (simp add: quantum_def align_def ALIGN_def read_jobs.simps)
  then show ?thesis using tile_reads_aligned [of 2 10000 12288 8192] by auto
qed

section \<open>Filling tiles and outputs\<close>

lemma take_patch_extend:
  assumes "off \<le> length buf" and "l \<le> length bs"
  shows "take (off + l) (patch buf bs off) = take off buf @ take l bs"
  using assms by (simp add: patch_def take_add)

lemma read_job_ok:
  assumes "read_aligned reopen f (nat (align (int l))) off l direct False [] 0 as = ok (bs, n)"
  shows "l \<le> length bs" "length bs \<le> nat (align (int l))" "take l bs = pread f l off"
proof -
  have r: "read_at f off bs" "l \<le> length bs" "length bs \<le> nat (align (int l))"
    using read_aligned_ok [OF assms] align_nat(1) [of l] by simp_all
  then show "l \<le> length bs" "length bs \<le> nat (align (int l))" by simp_all
  have "take l (pread f (length bs) off) = pread f l off" using r(2) by (rule take_pread)
  then show "take l bs = pread f l off" using r(1) by (simp add: read_at_def)
qed

lemma run_jobs_ok:
  assumes "run_jobs reopen direct f source ans (read_jobs q len off) buf = (buf', ok ())"
    and "4096 dvd q" and "0 < q" and "4096 dvd off" and "4096 dvd length buf" and "len \<le> length buf"
    and "take (min off len) buf = pread f (min off len) source"
  shows "length buf' = length buf \<and> take len buf' = pread f len source"
  using assms
proof (induction q len off arbitrary: buf rule: read_jobs.induct)
  case (1 q len off)
  show ?case
  proof (cases "off < len")
    case True
    define l where "l = min q (len - off)"
    have jobs: "read_jobs q len off = (off, l) # read_jobs q len (off + q)"
      using True 1(4) by (simp add: read_jobs.simps [of q len off] l_def)
    obtain bs n where r: "read_aligned reopen f (nat (align (int l))) (source + off) l direct False [] 0 (ans off) = ok (bs, n)"
        and rest: "run_jobs reopen direct f source ans (read_jobs q len (off + q)) (patch buf bs off) = (buf', ok ())"
      using 1(2) by (auto simp: jobs split: sum.splits prod.splits)
    note job = read_job_ok [OF r]
    have "4096 dvd length buf - off" using 1(5,6) by (simp add: dvd_diff_nat)
    moreover have "l \<le> length buf - off" "off \<le> length buf" using 1(7) True by (auto simp: l_def)
    ultimately have "off + length bs \<le> length buf" using job(2) align_nat(2) [of "length buf - off" l] by linarith
    then have len: "length (patch buf bs off) = length buf" by (simp add: length_patch)
    have "take (off + l) (patch buf bs off) = pread f off source @ pread f l (source + off)"
      using take_patch_extend [of off buf l bs] job(1,3) 1(7,8) True by simp
    also have "\<dots> = pread f (off + l) source" by (rule pread_append)
    also have "off + l = min (off + q) len" using True by (simp add: l_def)
    finally have "take (min (off + q) len) (patch buf bs off) = pread f (min (off + q) len) source" .
    then show ?thesis using 1(1) [OF _ rest] True 1(3-7) len by simp
  next
    case False
    then have "read_jobs q len off = []" by (simp add: read_jobs.simps)
    then show ?thesis using 1(2,8) False by simp
  qed
qed

lemma run_jobs_returns:
  assumes "\<forall>off. benign (ans off)" and "\<forall>(off, l) \<in> set jobs. source + off + l \<le> length f"
  shows "snd (run_jobs (ok ()) direct f source ans jobs buf) = ok ()"
  using assms
proof (induction jobs arbitrary: buf)
  case (Cons j jobs)
  obtain off l where j: "j = (off, l)" by (cases j)
  have "is_ok (read_aligned (ok ()) f (nat (align (int l))) (source + off) l direct False [] 0 (ans off))"
    using Cons.prems by (intro read_aligned_returns) (auto simp: j align_nat(1))
  then obtain bs n where "read_aligned (ok ()) f (nat (align (int l))) (source + off) l direct False [] 0 (ans off) = ok (bs, n)"
    by (metis is_okE surj_pair)
  then show ?case using Cons by (simp add: j)
qed simp

text \<open>The outputs as they will be when the stream has caught up.\<close>

definition virt :: "reader \<Rightarrow> byte list list" where
  "virt r = fold (do_upload (rr_slots r)) (rr_stream r) (rr_outs r)"

definition upload_ok :: "reader \<Rightarrow> upload \<Rightarrow> bool" where
  "upload_ok r u = (up_slot u < 2 \<and> up_event u < rr_event r
     \<and> (\<exists>ev. snd (rr_slots r ! up_slot u) = Some ev \<and> up_event u \<le> ev)
     \<and> up_pos u + up_len u \<le> length (rr_outs r ! up_out u))"

definition reader_ok :: "reader \<Rightarrow> bool" where
  "reader_ok r = (length (rr_slots r) = 2 \<and> (\<forall>s < 2. length (fst (rr_slots r ! s)) = rr_tile r)
     \<and> 4096 dvd rr_tile r \<and> 0 < rr_tile r \<and> 0 < rr_concurrency r
     \<and> sorted_wrt (\<lambda>u v. up_event u < up_event v) (rr_stream r) \<and> (\<forall>u \<in> set (rr_stream r). upload_ok r u)
     \<and> (\<not> rr_cuda r \<longrightarrow> rr_stream r = []))"

lemma do_upload_lengths:
  "up_pos u + up_len u \<le> length (outs ! up_out u) \<Longrightarrow> map length (do_upload slots u outs) = map length outs"
proof -
  assume "up_pos u + up_len u \<le> length (outs ! up_out u)"
  then have "length (patch (outs ! up_out u) (take (up_len u) (fst (slots ! up_slot u))) (up_pos u)) = length (outs ! up_out u)"
    by (simp add: length_patch)
  then show ?thesis by (cases "up_out u < length outs") (simp_all add: do_upload_def map_update list_update_same_conv list_update_beyond)
qed

lemma uploads_lengths:
  "\<forall>u \<in> set us. up_pos u + up_len u \<le> length (outs ! up_out u) \<Longrightarrow> \<forall>u \<in> set us. up_out u < length outs
    \<Longrightarrow> map length (fold (do_upload slots) us outs) = map length outs"
proof (induction us arbitrary: outs)
  case (Cons u us)
  have l: "map length (do_upload slots u outs) = map length outs" using Cons.prems(1) by (intro do_upload_lengths) simp
  then have len: "length (do_upload slots u outs) = length outs" by (metis length_map)
  have "length (do_upload slots u outs ! i) = length (outs ! i)" if "i < length outs" for i
    using l that len by (metis nth_map)
  then show ?case using Cons l len by simp
qed simp

lemma uploads_slots:
  "\<forall>u \<in> set us. fst (slots ! up_slot u) = fst (slots' ! up_slot u) \<Longrightarrow> fold (do_upload slots) us outs = fold (do_upload slots') us outs"
  by (induction us arbitrary: outs) (simp_all add: do_upload_def)

lemma uploads_other: "\<forall>u \<in> set us. up_out u \<noteq> k \<Longrightarrow> fold (do_upload slots) us outs ! k = outs ! k"
  by (induction us arbitrary: outs) (simp_all add: do_upload_def)

text \<open>Performing some of the uploads earlier does not change where the outputs are going.\<close>

lemma virt_perform [simp]: "virt (perform n r) = virt r"
proof -
  have "fold (do_upload (rr_slots r)) (take n (rr_stream r) @ drop n (rr_stream r)) (rr_outs r) = virt r"
    by (simp add: virt_def)
  then show ?thesis by (simp only: fold_append comp_def) (simp add: virt_def perform_def)
qed

lemma perform_fields [simp]:
  "rr_tile (perform n r) = rr_tile r" "rr_concurrency (perform n r) = rr_concurrency r" "rr_cuda (perform n r) = rr_cuda r"
  "rr_direct (perform n r) = rr_direct r" "rr_slots (perform n r) = rr_slots r" "rr_next (perform n r) = rr_next r"
  "rr_event (perform n r) = rr_event r" "rr_path (perform n r) = rr_path r" "rr_stream (perform n r) = drop n (rr_stream r)"
  by (simp_all add: perform_def)

definition outs_in :: "reader \<Rightarrow> bool" where
  "outs_in r = (\<forall>u \<in> set (rr_stream r). up_out u < length (rr_outs r))"

lemma perform_outs:
  assumes "reader_ok r" and "outs_in r"
  shows "map length (rr_outs (perform n r)) = map length (rr_outs r)"
  unfolding perform_def using assms
  by (auto simp: reader_ok_def outs_in_def upload_ok_def dest!: in_set_takeD intro!: uploads_lengths)

lemma same_lengths:
  assumes "map length xs = map length ys"
  shows "length xs = length ys" "i < length ys \<Longrightarrow> length (xs ! i) = length (ys ! i)"
  using assms by (metis length_map, metis assms length_map nth_map)

lemma perform_ok:
  assumes "reader_ok r" and "outs_in r"
  shows "reader_ok (perform n r) \<and> outs_in (perform n r)"
proof -
  note len = same_lengths [OF perform_outs [OF assms, of n]]
  have "upload_ok (perform n r) u" if "u \<in> set (drop n (rr_stream r))" for u
  proof -
    have "u \<in> set (rr_stream r)" using that by (rule in_set_dropD)
    then have "upload_ok r u" "up_out u < length (rr_outs r)" using assms by (simp_all add: reader_ok_def outs_in_def)
    then show ?thesis using len by (simp add: upload_ok_def)
  qed
  moreover have "sorted_wrt (\<lambda>u v. up_event u < up_event v) (drop n (rr_stream r))"
    using assms(1) by (simp add: reader_ok_def sorted_wrt_drop)
  moreover have "outs_in (perform n r)" using assms(2) len(1) by (auto simp: outs_in_def dest: in_set_dropD)
  ultimately show ?thesis using assms(1) by (auto simp: reader_ok_def)
qed

lemma dropWhile_sorted_events:
  "sorted_wrt (\<lambda>u v. up_event u < up_event v) us \<Longrightarrow> u \<in> set (dropWhile (\<lambda>u. up_event u \<le> ev) us) \<Longrightarrow> ev < up_event u"
  by (induction us) (auto split: if_splits)

lemma synchronize_stream:
  assumes "sorted_wrt (\<lambda>u v. up_event u < up_event v) (rr_stream r)" and "u \<in> set (rr_stream (synchronize ev r))"
  shows "ev < up_event u \<and> u \<in> set (rr_stream r)"
  using assms dropWhile_sorted_events [OF assms(1), of u ev]
  by (auto simp: synchronize_def dropWhile_eq_drop [symmetric] dest: set_dropWhileD)

text \<open>An output that no upload beyond an event writes to is complete once the event has been waited for.\<close>

lemma synchronized_output:
  assumes "reader_ok r" and "\<forall>u \<in> set (rr_stream r). up_out u = k \<longrightarrow> up_event u \<le> ev"
  shows "rr_outs (synchronize ev r) ! k = virt r ! k"
proof -
  have "\<forall>u \<in> set (rr_stream (synchronize ev r)). up_out u \<noteq> k"
    using assms synchronize_stream [of r _ ev] by (fastforce simp: reader_ok_def)
  then have "virt (synchronize ev r) ! k = rr_outs (synchronize ev r) ! k" unfolding virt_def by (rule uploads_other)
  then show ?thesis by (simp add: synchronize_def)
qed

lemma fence_ok:
  assumes "reader_ok r" and "outs_in r"
  shows "reader_ok (fence s r) \<and> outs_in (fence s r) \<and> virt (fence s r) = virt r
     \<and> map length (rr_outs (fence s r)) = map length (rr_outs r) \<and> rr_slots (fence s r) = rr_slots r
     \<and> rr_tile (fence s r) = rr_tile r \<and> rr_concurrency (fence s r) = rr_concurrency r \<and> rr_cuda (fence s r) = rr_cuda r
     \<and> rr_event (fence s r) = rr_event r \<and> (\<forall>u \<in> set (rr_stream (fence s r)). up_slot u \<noteq> s \<and> u \<in> set (rr_stream r))"
proof (cases "snd (rr_slots r ! s)")
  case None
  then have "\<forall>u \<in> set (rr_stream r). up_slot u \<noteq> s" using assms(1) by (auto simp: reader_ok_def upload_ok_def)
  then show ?thesis using None assms by (simp add: fence_def)
next
  case (Some ev)
  have "up_slot u \<noteq> s \<and> u \<in> set (rr_stream r)" if "u \<in> set (rr_stream (synchronize ev r))" for u
  proof -
    have u: "ev < up_event u" "u \<in> set (rr_stream r)" using synchronize_stream [OF _ that] assms(1) by (auto simp: reader_ok_def)
    then have "upload_ok r u" using assms(1) by (simp add: reader_ok_def)
    then show ?thesis using u Some by (auto simp: upload_ok_def)
  qed
  then show ?thesis
    using Some perform_ok [OF assms] perform_outs [OF assms] by (simp add: fence_def synchronize_def)
qed

lemma fill_tile_cases:
  assumes "fill_tile reopen f b out drain ans position r0 = (r', res)"
  obtains s r buf where "s < 2" "r = fence s (perform drain r0)" "run_jobs reopen (rr_direct r) f (nat (bt_start b) + position) ans
      (read_jobs (quantum (rr_concurrency r) (tile_len r b position)) (tile_len r b position) 0) (fst (rr_slots r ! s)) = (buf, res)"
    "res = ok () \<Longrightarrow> r' = (if rr_cuda r
       then r\<lparr>rr_next := rr_next r + 1, rr_slots := (rr_slots r)[s := (buf, Some (rr_event r))], rr_event := rr_event r + 1,
              rr_stream := rr_stream r @ [\<lparr>up_event = rr_event r, up_slot = s, up_out = out, up_pos = position, up_len = tile_len r b position\<rparr>]\<rparr>
       else r\<lparr>rr_next := rr_next r + 1, rr_slots := (rr_slots r)[s := (buf, snd (rr_slots r ! s))],
              rr_outs := (rr_outs r)[out := patch (rr_outs r ! out) (take (tile_len r b position) buf) position]\<rparr>)"
proof -
  define s where "s = rr_next r0 mod 2"
  define r where "r = fence s (perform drain r0)"
  obtain buf res' where job: "run_jobs reopen (rr_direct r) f (nat (bt_start b) + position) ans
      (read_jobs (quantum (rr_concurrency r) (tile_len r b position)) (tile_len r b position) 0) (fst (rr_slots r ! s)) = (buf, res')"
    by fastforce
  have run: "fill_tile reopen f b out drain ans position r0 = (r', res)" by (rule assms)
  have res: "res' = res"
    using run job by (cases res') (auto simp: fill_tile_def Let_def split: if_splits simp flip: s_def r_def)
  have "s < 2" by (simp add: s_def)
  then show ?thesis
    by (rule that [OF _ r_def job [unfolded res]])
      (use run job in \<open>auto simp: fill_tile_def Let_def res split: if_splits simp flip: s_def r_def\<close>)
qed

lemma reader_ok_slot: "reader_ok r \<Longrightarrow> s < 2 \<Longrightarrow> length (fst (rr_slots r ! s)) = rr_tile r \<and> s < length (rr_slots r)"
  by (simp add: reader_ok_def)

text \<open>A filled tile changes the outputs by one patch: the bytes of the file at the tile's place.\<close>

definition tile_done :: "byte list \<Rightarrow> batch \<Rightarrow> nat \<Rightarrow> nat \<Rightarrow> reader \<Rightarrow> reader \<Rightarrow> bool" where
  "tile_done f b out position r r' =
     (reader_ok r' \<and> outs_in r' \<and> map length (rr_outs r') = map length (rr_outs r)
      \<and> virt r' = (virt r)[out := patch (virt r ! out) (pread f (tile_len r b position) (nat (bt_start b) + position)) position]
      \<and> rr_tile r' = rr_tile r \<and> rr_cuda r' = rr_cuda r \<and> rr_event r \<le> rr_event r'
      \<and> (rr_event r' = rr_event r \<longrightarrow> set (rr_stream r') \<subseteq> set (rr_stream r))
      \<and> (\<forall>u \<in> set (rr_stream r'). u \<in> set (rr_stream r) \<or> up_out u = out))"

lemma fill_tile_ok:
  assumes "fill_tile reopen f b out drain ans position r0 = (r', ok ())" and "reader_ok r0" and "outs_in r0"
    and "out < length (rr_outs r0)" and "position + tile_len r0 b position \<le> length (rr_outs r0 ! out)"
  shows "tile_done f b out position r0 r'"
proof -
  obtain s r buf where s: "s < 2" and r: "r = fence s (perform drain r0)" and job: "run_jobs reopen (rr_direct r) f (nat (bt_start b) + position) ans
      (read_jobs (quantum (rr_concurrency r) (tile_len r b position)) (tile_len r b position) 0) (fst (rr_slots r ! s)) = (buf, ok ())"
    and r': "r' = (if rr_cuda r
       then r\<lparr>rr_next := rr_next r + 1, rr_slots := (rr_slots r)[s := (buf, Some (rr_event r))], rr_event := rr_event r + 1,
              rr_stream := rr_stream r @ [\<lparr>up_event = rr_event r, up_slot = s, up_out = out, up_pos = position, up_len = tile_len r b position\<rparr>]\<rparr>
       else r\<lparr>rr_next := rr_next r + 1, rr_slots := (rr_slots r)[s := (buf, snd (rr_slots r ! s))],
              rr_outs := (rr_outs r)[out := patch (rr_outs r ! out) (take (tile_len r b position) buf) position]\<rparr>)"
    by (rule fill_tile_cases [OF assms(1)]) simp
  define len where "len = tile_len r b position"
  note p = perform_ok [OF assms(2,3), of drain] perform_outs [OF assms(2,3), of drain]
  have ok: "reader_ok r" "outs_in r" "virt r = virt r0" "map length (rr_outs r) = map length (rr_outs r0)"
    and same: "rr_slots r = rr_slots r0" "rr_tile r = rr_tile r0" "rr_cuda r = rr_cuda r0" "rr_event r = rr_event r0"
    and free: "\<forall>u \<in> set (rr_stream r). up_slot u \<noteq> s \<and> u \<in> set (rr_stream r0)"
    using fence_ok [of "perform drain r0" s] p by (auto simp: r dest: in_set_dropD)
  have len0: "len = tile_len r0 b position" by (simp add: len_def tile_len_def same)
  note slot = reader_ok_slot [OF ok(1) s]
  have tile: "4096 dvd rr_tile r" "0 < rr_concurrency r" using ok(1) by (simp_all add: reader_ok_def)
  have buf: "length buf = rr_tile r" "take len buf = pread f len (nat (bt_start b) + position)"
    using run_jobs_ok [OF job [folded len_def]] quantum_facts [OF tile(2)] tile(1) slot
    by (simp_all add: len_def tile_len_def pread_def)
  note outs = same_lengths [OF ok(4)]
  have inb: "out < length (rr_outs r)" "position + len \<le> length (rr_outs r ! out)"
    using assms(4,5) outs len0 by simp_all
  have stale: "\<forall>u \<in> set (rr_stream r). fst (rr_slots r ! up_slot u) = fst ((rr_slots r)[s := x] ! up_slot u)" for x
    using free by (metis nth_list_update_neq)
  show ?thesis
  proof (cases "rr_cuda r")
    case True
    have slots: "rr_slots r' = (rr_slots r)[s := (buf, Some (rr_event r))]" and ro: "rr_outs r' = rr_outs r"
      and rs: "rr_stream r' = rr_stream r @ [\<lparr>up_event = rr_event r, up_slot = s, up_out = out, up_pos = position, up_len = len\<rparr>]"
      and ev: "rr_event r' = rr_event r + 1" and keep: "rr_tile r' = rr_tile r" "rr_cuda r' = rr_cuda r" "rr_concurrency r' = rr_concurrency r"
      using True by (simp_all add: r' len_def)
    have v: "virt r' = (virt r)[out := patch (virt r ! out) (take len buf) position]"
      using uploads_slots [OF stale [of "(buf, Some (rr_event r))"], where outs = "rr_outs r"] slot
      by (simp add: virt_def slots ro rs do_upload_def)
    have old: "upload_ok r' u" if "u \<in> set (rr_stream r)" for u
    proof -
      have "upload_ok r u" "up_slot u \<noteq> s" using ok(1) free that by (simp_all add: reader_ok_def)
      then show ?thesis using ro by (auto simp: upload_ok_def slots ev)
    qed
    have "upload_ok r' \<lparr>up_event = rr_event r, up_slot = s, up_out = out, up_pos = position, up_len = len\<rparr>"
      using s slot inb by (simp add: upload_ok_def slots ev ro)
    moreover have "\<forall>u \<in> set (rr_stream r). up_event u < rr_event r" using ok(1) by (simp add: reader_ok_def upload_ok_def)
    ultimately have "reader_ok r'"
      using ok(1) old slot buf(1) by (auto simp: reader_ok_def rs keep slots sorted_wrt_append nth_list_update True)
    moreover have "outs_in r'" using ok(2) inb(1) by (auto simp: outs_in_def rs ro)
    ultimately show ?thesis
      using v buf(2) ok(3,4) same free ro unfolding tile_done_def len0 [symmetric] by (auto simp: rs ev keep)
  next
    case False
    then have "rr_stream r = []" using ok(1) by (simp add: reader_ok_def)
    moreover have slots: "rr_slots r' = (rr_slots r)[s := (buf, snd (rr_slots r ! s))]"
      and ro: "rr_outs r' = (rr_outs r)[out := patch (rr_outs r ! out) (take len buf) position]"
      and keep: "rr_stream r' = rr_stream r" "rr_tile r' = rr_tile r" "rr_cuda r' = rr_cuda r" "rr_concurrency r' = rr_concurrency r" "rr_event r' = rr_event r"
      using False by (simp_all add: r' len_def)
    moreover have "map length (rr_outs r') = map length (rr_outs r)"
      using do_upload_lengths [where u = "\<lparr>up_event = 0, up_slot = s, up_out = out, up_pos = position, up_len = len\<rparr>" and outs = "rr_outs r"
          and slots = "(rr_slots r)[s := (buf, None)]"] inb slot by (simp add: do_upload_def ro)
    moreover have "reader_ok r'" using ok(1) slot buf(1) calculation by (auto simp: reader_ok_def nth_list_update)
    ultimately show ?thesis
      using ok(3,4) buf(2) same unfolding tile_done_def len0 [symmetric] by (simp add: outs_in_def virt_def)
  qed
qed

text \<open>What a finished fill leaves behind, for a batch and an output.\<close>

definition batch_done :: "byte list \<Rightarrow> batch \<Rightarrow> nat \<Rightarrow> reader \<Rightarrow> reader \<Rightarrow> bool" where
  "batch_done f b out r r' =
     (reader_ok r' \<and> outs_in r' \<and> map length (rr_outs r') = map length (rr_outs r)
     \<and> virt r' = (virt r)[out := pread f (nat (bt_bytes b)) (nat (bt_start b))]
     \<and> rr_tile r' = rr_tile r \<and> rr_cuda r' = rr_cuda r \<and> rr_event r \<le> rr_event r'
     \<and> (rr_event r' = rr_event r \<longrightarrow> set (rr_stream r') \<subseteq> set (rr_stream r))
     \<and> (\<forall>u \<in> set (rr_stream r'). u \<in> set (rr_stream r) \<or> up_out u = out))"

lemma batch_done_tile:
  assumes "tile_done f b out p r r1" and "batch_done f b out r1 r'"
  shows "batch_done f b out r r'"
proof -
  have "virt r' = (virt r)[out := pread f (nat (bt_bytes b)) (nat (bt_start b))]"
    using assms by (simp add: tile_done_def batch_done_def)
  moreover have "\<forall>u \<in> set (rr_stream r'). u \<in> set (rr_stream r) \<or> up_out u = out"
    using assms unfolding tile_done_def batch_done_def by blast
  moreover have "rr_event r' = rr_event r \<longrightarrow> set (rr_stream r') \<subseteq> set (rr_stream r)"
    using assms unfolding tile_done_def batch_done_def by (metis le_antisym subset_trans)
  ultimately show ?thesis using assms unfolding tile_done_def batch_done_def by (metis le_trans)
qed

definition partly_filled :: "byte list \<Rightarrow> batch \<Rightarrow> nat \<Rightarrow> nat \<Rightarrow> reader \<Rightarrow> bool" where
  "partly_filled f b out p r =
     (reader_ok r \<and> outs_in r \<and> out < length (rr_outs r) \<and> length (rr_outs r ! out) = nat (bt_bytes b)
      \<and> length (virt r) = length (rr_outs r) \<and> length (virt r ! out) = nat (bt_bytes b)
      \<and> take (min p (nat (bt_bytes b))) (virt r ! out) = pread f (min p (nat (bt_bytes b))) (nat (bt_start b)))"

lemma partly_filled_step:
  assumes "partly_filled f b out p r" and "fill_tile reopen f b out drain ans p r = (r1, ok ())"
    and "p < nat (bt_bytes b)" and "nat (bt_start b) + nat (bt_bytes b) \<le> length f"
  shows "tile_done f b out p r r1 \<and> partly_filled f b out (p + rr_tile r) r1"
proof -
  let ?n = "nat (bt_bytes b)" and ?start = "nat (bt_start b)"
  have r: "reader_ok r" "outs_in r" "out < length (rr_outs r)" "length (rr_outs r ! out) = ?n"
      "length (virt r) = length (rr_outs r)" "length (virt r ! out) = ?n" "take p (virt r ! out) = pread f p ?start"
    using assms(1,3) by (simp_all add: partly_filled_def)
  define len where "len = tile_len r b p"
  have len: "p + len = min (p + rr_tile r) ?n" using assms(3) by (simp add: len_def tile_len_def)
  have d: "tile_done f b out p r r1"
    using assms(3) r(4) by (intro fill_tile_ok [OF assms(2) r(1,2,3)]) (simp add: tile_len_def)
  have step: "reader_ok r1" "outs_in r1" "map length (rr_outs r1) = map length (rr_outs r)"
      "virt r1 = (virt r)[out := patch (virt r ! out) (pread f len (?start + p)) p]"
    using d by (simp_all add: tile_done_def len_def)
  note outs = same_lengths [OF step(3)]
  have chunk: "length (pread f len (?start + p)) = len" using assms(3,4) len by (simp add: length_pread)
  have l1: "length (virt r1) = length (rr_outs r1)" "length (virt r1 ! out) = ?n"
    using r(3,5,6) outs(1) step(4) chunk len by (simp_all add: length_patch)
  have "take (p + len) (virt r1 ! out) = take p (virt r ! out) @ pread f len (?start + p)"
    using r(3,5,6) step(4) chunk assms(3) take_patch_extend [of p "virt r ! out" len "pread f len (?start + p)"] by simp
  also have "\<dots> = pread f (p + len) ?start" using r(7) by (simp add: pread_append)
  finally show ?thesis using d step l1 outs r(3,4) unfolding len partly_filled_def by simp
qed

lemma fill_tiles_ok:
  assumes "fill_tiles reopen f b out drain ans (positions n tile p) r = (r', ok ())"
    and "partly_filled f b out p r" and "tile = rr_tile r" and "n = nat (bt_bytes b)" and "nat (bt_start b) + n \<le> length f"
  shows "batch_done f b out r r'"
  using assms
proof (induction n tile p arbitrary: r rule: positions.induct)
  case (1 n tile p)
  have tile: "0 < tile" using 1(3,4) by (simp add: partly_filled_def reader_ok_def)
  show ?case
  proof (cases "p < n")
    case True
    have pos: "positions n tile p = p # positions n tile (p + tile)" using tile True by (subst positions.simps) simp
    obtain r1 where r1: "fill_tile reopen f b out (drain p) (ans p) p r = (r1, ok ())"
        and rest: "fill_tiles reopen f b out drain ans (positions n tile (p + tile)) r1 = (r', ok ())"
      using 1(2) by (auto simp: pos split: prod.splits sum.splits)
    note step = partly_filled_step [OF 1(3) r1 True [unfolded 1(5)] 1(6) [unfolded 1(5)]]
    have t1: "tile = rr_tile r1" using step 1(4) by (simp add: tile_done_def)
    have "batch_done f b out r1 r'"
      by (rule 1(1) [OF conjI [OF True tile] rest _ t1 1(5,6)]) (use step 1(4) in simp)
    then show ?thesis using step batch_done_tile by blast
  next
    case False
    then have "positions n tile p = []" by (subst positions.simps) simp
    then have "r' = r" using 1(2) by simp
    moreover have "virt r ! out = pread f n (nat (bt_start b))" using 1(3,5) False by (auto simp: partly_filled_def)
    then have "virt r = (virt r)[out := pread f n (nat (bt_start b))]" by (metis list_update_id)
    ultimately show ?thesis using 1(3,5) by (simp add: batch_done_def partly_filled_def)
  qed
qed

lemma virt_length:
  assumes "reader_ok r" and "outs_in r"
  shows "map length (virt r) = map length (rr_outs r)"
  unfolding virt_def using assms by (intro uploads_lengths) (auto simp: reader_ok_def outs_in_def upload_ok_def)

lemma fill_ok:
  assumes "fill opened reopen f b out drain ans r = (r', ok ev)" and "reader_ok r" and "outs_in r"
    and "out < length (rr_outs r)" and "length (rr_outs r ! out) = nat (bt_bytes b)" and "nat (bt_start b) + nat (bt_bytes b) \<le> length f"
  shows "batch_done f b out r r' \<and> ev = (if rr_event r < rr_event r' then Some (rr_event r' - 1) else None)"
proof -
  define r1 where "r1 = (if rr_path r \<noteq> Some (bt_file b) then r\<lparr>rr_path := Some (bt_file b)\<rparr> else r)"
  have run: "fill_tiles reopen f b out drain ans (positions (nat (bt_bytes b)) (rr_tile r1) 0) r1 = (r', ok ())"
      and ev: "ev = (if rr_event r1 < rr_event r' then Some (rr_event r' - 1) else None)"
    using assms(1) by (auto simp: fill_def Let_def r1_def split: if_splits sum.splits prod.splits)
  have same: "rr_slots r1 = rr_slots r" "rr_stream r1 = rr_stream r" "rr_outs r1 = rr_outs r" "rr_event r1 = rr_event r" "rr_tile r1 = rr_tile r"
      "rr_cuda r1 = rr_cuda r" "rr_concurrency r1 = rr_concurrency r"
    by (simp_all add: r1_def)
  have ok: "reader_ok r1" "outs_in r1" "virt r1 = virt r" using assms(2,3) by (auto simp: reader_ok_def upload_ok_def outs_in_def virt_def same)
  note v = same_lengths [OF virt_length [OF ok(1,2)]]
  have "partly_filled f b out 0 r1" using ok assms(4,5) v same by (simp add: partly_filled_def pread_def)
  then have "batch_done f b out r1 r'" by (rule fill_tiles_ok [OF run _ refl refl assms(6)])
  then show ?thesis using ev ok(3) by (simp add: batch_done_def same)
qed

text \<open>Nothing but the system makes a fill fail.\<close>

lemma fill_tile_returns:
  assumes "\<forall>off. benign (ans off)" and "nat (bt_start b) + nat (bt_bytes b) \<le> length f" and "position < nat (bt_bytes b)"
    and "reader_ok r" and "outs_in r"
  shows "snd (fill_tile (ok ()) f b out drain ans position r) = ok ()"
proof -
  obtain r' res where run: "fill_tile (ok ()) f b out drain ans position r = (r', res)" by fastforce
  obtain s r1 buf where r1: "r1 = fence s (perform drain r)" and job: "run_jobs (ok ()) (rr_direct r1) f (nat (bt_start b) + position) ans
      (read_jobs (quantum (rr_concurrency r1) (tile_len r1 b position)) (tile_len r1 b position) 0) (fst (rr_slots r1 ! s)) = (buf, res)"
    by (rule fill_tile_cases [OF run])
  have "reader_ok r1" using fence_ok [of "perform drain r"] perform_ok [OF assms(4,5)] by (simp add: r1)
  then have c: "0 < rr_concurrency r1" by (simp add: reader_ok_def)
  have "nat (bt_start b) + position + off + l \<le> length f"
    if "(off, l) \<in> set (read_jobs (quantum (rr_concurrency r1) (tile_len r1 b position)) (tile_len r1 b position) 0)" for off l
  proof -
    have "off + l \<le> tile_len r1 b position"
      using read_jobs_in [OF that quantum_facts(1) [OF c], of "4096 * tile_len r1 b position"] by simp
    then show ?thesis using assms(2,3) unfolding tile_len_def by linarith
  qed
  then have "snd (buf, res) = ok ()" unfolding job [symmetric] using assms(1) by (intro run_jobs_returns) auto
  then show ?thesis by (simp add: run)
qed

lemma fill_tiles_returns:
  assumes "\<forall>p off. benign (ans p off)" and "nat (bt_start b) + nat (bt_bytes b) \<le> length f"
    and "\<forall>p \<in> set ps. p < nat (bt_bytes b)" and "reader_ok r" and "outs_in r"
    and "out < length (rr_outs r)" and "length (rr_outs r ! out) = nat (bt_bytes b)"
  shows "snd (fill_tiles (ok ()) f b out drain ans ps r) = ok ()"
  using assms
proof (induction ps arbitrary: r)
  case (Cons p ps)
  obtain r1 where r1: "fill_tile (ok ()) f b out (drain p) (ans p) p r = (r1, ok ())"
    using fill_tile_returns [of "ans p" b f p r out "drain p"] Cons.prems
    by (cases "fill_tile (ok ()) f b out (drain p) (ans p) p r") auto
  have "tile_done f b out p r r1" using Cons.prems by (intro fill_tile_ok [OF r1]) (auto simp: tile_len_def)
  then have "reader_ok r1" "outs_in r1" "map length (rr_outs r1) = map length (rr_outs r)" by (simp_all add: tile_done_def)
  then show ?case using Cons.IH [of r1] Cons.prems same_lengths [of "rr_outs r1" "rr_outs r"] by (simp add: r1)
qed simp

lemma positions_bound: "q \<in> set (positions n step p) \<Longrightarrow> q < n"
proof (induction n step p rule: positions.induct)
  case (1 n step p)
  then show ?case by (subst (asm) (2) positions.simps) (auto split: if_splits)
qed

lemma range_reader_ok:
  assumes "range_reader cuda direct memory_limit concurrency tile_bytes = ok r" and "tile_bytes mod ALIGN = 0"
  shows "reader_ok r \<and> rr_outs r = [] \<and> rr_stream r = []"
proof -
  define tile where "tile = min tile_bytes ((memory_limit div 2 - ALIGN) div ALIGN * ALIGN)"
  have r: "r = \<lparr>rr_tile = nat tile, rr_concurrency = nat concurrency, rr_cuda = cuda, rr_direct = direct,
      rr_slots = [(replicate (nat tile) 0, None), (replicate (nat tile) 0, None)],
      rr_next = 0, rr_stream = [], rr_event = 0, rr_path = None, rr_outs = []\<rparr>" and c: "1 \<le> concurrency" and t: "ALIGN \<le> tile"
    using assms(1) by (auto simp: range_reader_def Let_def tile_def split: if_splits)
  have "ALIGN dvd tile" using assms(2) by (auto simp: tile_def min_def)
  then have "4096 dvd nat tile" using t by (simp add: ALIGN_def nat_dvd_iff dvd_nat_abs_iff flip: int_dvd_int_iff)
  then show ?thesis using c t by (auto simp: r reader_ok_def ALIGN_def less_2_cases_iff)
qed

lemma fill_returns:
  assumes "reader_ok r" and "outs_in r" and "out < length (rr_outs r)" and "length (rr_outs r ! out) = nat (bt_bytes b)"
    and "nat (bt_start b) + nat (bt_bytes b) \<le> length f" and "\<forall>p off. benign (ans p off)"
  shows "is_ok (snd (fill (ok ()) (ok ()) f b out drain ans r))"
proof -
  define r1 where "r1 = (if rr_path r \<noteq> Some (bt_file b) then r\<lparr>rr_path := Some (bt_file b)\<rparr> else r)"
  have r1: "reader_ok r1" "outs_in r1" "rr_outs r1 = rr_outs r"
    using assms(1,2) by (auto simp: r1_def reader_ok_def upload_ok_def outs_in_def)
  have "snd (fill_tiles (ok ()) f b out drain ans (positions (nat (bt_bytes b)) (rr_tile r1) 0) r1) = ok ()"
    using assms(3-6) r1 positions_bound by (intro fill_tiles_returns) auto
  then show ?thesis by (auto simp: fill_def Let_def r1_def split: if_splits sum.splits prod.splits)
qed

text \<open>
  C22: A filled batch is the file's bytes, whenever the uploads happen. The tiles are reused while uploads
  from them may still be pending; whatever the stream has done by each point, after a fill that returns
  the output is the requested range of the file once the fill's event has been waited for, earlier
  outputs are where they were going, and the same holds when all pending uploads finish. A fill inside
  the file fails only when the system does.
\<close>

theorem fill_exact:
  assumes "reader_ok r" and "outs_in r" and "out < length (rr_outs r)" and "length (rr_outs r ! out) = nat (bt_bytes b)"
    and "nat (bt_start b) + nat (bt_bytes b) \<le> length f" and "\<forall>u \<in> set (rr_stream r). up_out u \<noteq> out"
  shows "case fill opened reopen f b out drain ans r of
       (r', Inr ev) \<Rightarrow> reader_ok r' \<and> outs_in r'
         \<and> virt r' = (virt r)[out := pread f (nat (bt_bytes b)) (nat (bt_start b))]
         \<and> rr_outs (case ev of None \<Rightarrow> r' | Some e \<Rightarrow> synchronize e r') ! out = pread f (nat (bt_bytes b)) (nat (bt_start b))
     | (r', Inl e) \<Rightarrow> \<not> (opened = ok () \<and> reopen = ok () \<and> (\<forall>p off. benign (ans p off)))"
proof -
  obtain r' res where run: "fill opened reopen f b out drain ans r = (r', res)" by fastforce
  show ?thesis
  proof (cases res)
    case (Inr ev)
    have ok: "reader_ok r'" "outs_in r'" "virt r' = (virt r)[out := pread f (nat (bt_bytes b)) (nat (bt_start b))]"
        "\<forall>u \<in> set (rr_stream r'). u \<in> set (rr_stream r) \<or> up_out u = out"
        "ev = (if rr_event r < rr_event r' then Some (rr_event r' - 1) else None)"
        "rr_event r' = rr_event r \<longrightarrow> set (rr_stream r') \<subseteq> set (rr_stream r)" "rr_event r \<le> rr_event r'"
      using fill_ok [OF run [unfolded Inr] assms(1-5)] by (simp_all add: batch_done_def)
    have "out < length (virt r)" using same_lengths(1) [OF virt_length [OF assms(1,2)]] assms(3) by simp
    then have v: "virt r' ! out = pread f (nat (bt_bytes b)) (nat (bt_start b))" by (simp add: ok(3))
    have "rr_outs (case ev of None \<Rightarrow> r' | Some e \<Rightarrow> synchronize e r') ! out = virt r' ! out"
    proof (cases "rr_event r < rr_event r'")
      case True
      have "\<forall>u \<in> set (rr_stream r'). up_event u \<le> rr_event r' - 1"
        using ok(1) by (fastforce simp: reader_ok_def upload_ok_def)
      then show ?thesis using synchronized_output [OF ok(1), of out "rr_event r' - 1"] True ok(5) by simp
    next
      case False
      then have "set (rr_stream r') \<subseteq> set (rr_stream r)" using ok(6,7) by simp
      then have "\<forall>u \<in> set (rr_stream r'). up_out u \<noteq> out" using assms(6) by blast
      then show ?thesis using False ok(5) uploads_other [of "rr_stream r'" out "rr_slots r'" "rr_outs r'"] by (simp add: virt_def)
    qed
    then show ?thesis using run Inr ok v by simp
  next
    case (Inl e)
    then have "\<not> is_ok (snd (fill opened reopen f b out drain ans r))" by (simp add: run)
    then have "\<not> (opened = ok () \<and> reopen = ok () \<and> (\<forall>p off. benign (ans p off)))" using fill_returns [OF assms(1-5)] by blast
    then show ?thesis using run Inl by simp
  qed
qed

definition demo_batch :: batch where
  "demo_batch = \<lparr>bt_file = ''a'', bt_start = 0, bt_end = 6000, bt_tensors = []\<rparr>"

definition demo_reader :: reader where
  "demo_reader = \<lparr>rr_tile = 4096, rr_concurrency = 2, rr_cuda = True, rr_direct = True,
     rr_slots = [(replicate 4096 0, None), (replicate 4096 0, None)], rr_next = 0, rr_stream = [], rr_event = 0, rr_path = None,
     rr_outs = [replicate 6000 0]\<rparr>"

theorem fill_exact_witness:
  "\<exists>r' ev. fill (ok ()) (ok ()) (replicate 7000 9) demo_batch 0 (\<lambda>_. 0) (\<lambda>_ _. [Did 1000]) demo_reader = (r', ok ev)
     \<and> virt r' ! 0 = replicate 6000 9"
proof -
  have "reader_ok demo_reader" by (auto simp: reader_ok_def demo_reader_def less_2_cases_iff)
  then have "case fill (ok ()) (ok ()) (replicate 7000 9) demo_batch 0 (\<lambda>_. 0) (\<lambda>_ _. [Did 1000]) demo_reader of
       (r', Inr ev) \<Rightarrow> virt r' = (virt demo_reader)[0 := pread (replicate 7000 9) 6000 0] | (r', Inl e) \<Rightarrow> False"
    using fill_exact [where r = demo_reader and out = 0 and b = demo_batch and f = "replicate 7000 9" and opened = "ok ()" and reopen = "ok ()"
        and drain = "\<lambda>_. 0" and ans = "\<lambda>_ _. [Did 1000]"]
    by (auto simp: outs_in_def demo_reader_def demo_batch_def bt_bytes_def split: prod.splits sum.splits)
  then show ?thesis
    by (auto simp: virt_def demo_reader_def pread_def split: prod.splits sum.splits)
qed

end
