(* ===== verification/Ckpt_Stream.thy ===== *)
theory Ckpt_Stream
  imports Ckpt_Read
begin

text \<open>
  Streaming a checkpoint into a model (\<^verbatim>\<open>spark_nvme/streaming.py\<close>: \<^verbatim>\<open>OwnedStorageBudget\<close>, \<^verbatim>\<open>stream_weights\<close>;
  \<^verbatim>\<open>coalesced.py\<close>: \<^verbatim>\<open>coalesced_weights\<close>). The file system is a parameter: the stamp of a path at each moment, and
  the bytes of a file by its stamp. Theorems: a stream that completes has delivered every tensor that
  was not skipped exactly once with the bytes of the inspected checkpoint, whichever way uploads and
  reads interleave; the owned memory stays within its budget; and the environment is put back.
\<close>

section \<open>The owned-storage budget\<close>

record budget =
  bg_limit :: int
  bg_live :: int
  bg_peak :: int
  bg_refs :: "(nat \<times> int) list"

definition budget_init :: "int \<Rightarrow> budget" where
  "budget_init limit = \<lparr>bg_limit = limit, bg_live = 0, bg_peak = 0, bg_refs = []\<rparr>"

text \<open>\<open>expired\<close> says which storages the C++ runtime has freed.\<close>

definition collect :: "(nat \<Rightarrow> bool) \<Rightarrow> budget \<Rightarrow> budget" where
  "collect expired b =
     b\<lparr>bg_live := bg_live b - sum_list (map snd (filter (\<lambda>(r, _). expired r) (bg_refs b))),
       bg_refs := filter (\<lambda>(r, _). \<not> expired r) (bg_refs b)\<rparr>"

definition reserve :: "(nat \<Rightarrow> bool) \<Rightarrow> int \<Rightarrow> budget \<Rightarrow> budget \<times> unit res" where
  "reserve expired n b =
     (let b' = collect expired b in (b', if bg_limit b' < bg_live b' + n then err MemoryError else ok ()))"

definition track :: "nat \<Rightarrow> int \<Rightarrow> budget \<Rightarrow> budget" where
  "track ref n b = b\<lparr>bg_refs := bg_refs b @ [(ref, n)], bg_live := bg_live b + n, bg_peak := max (bg_peak b) (bg_live b + n)\<rparr>"

definition budget_close :: "budget \<Rightarrow> budget" where
  "budget_close b = b\<lparr>bg_refs := []\<rparr>"

section \<open>Coalesced streaming\<close>

text \<open>A tensor as the model receives it.\<close>

record tensor =
  tn_shape :: "nat list"
  tn_dtype :: dtype
  tn_bytes :: "byte list"

record metrics =
  mx_bytes :: int
  mx_tensors :: nat
  mx_batches :: nat
  mx_empty :: nat
  mx_skipped :: nat
  mx_peak :: int
  mx_complete :: bool

definition metrics_init :: metrics where
  "metrics_init = \<lparr>mx_bytes = 0, mx_tensors = 0, mx_batches = 0, mx_empty = 0, mx_skipped = 0, mx_peak = 0, mx_complete = False\<rparr>"

text \<open>
  The surroundings of a run: stamps by moment and path, bytes by path and stamp, freed storages by
  moment, what opening and reopening files does, how far the upload stream is, the answers of the
  reads, and the contents of freshly allocated memory.
\<close>

record surroundings =
  sr_stamp :: "nat \<Rightarrow> string \<Rightarrow> file_stamp"
  sr_content :: "string \<Rightarrow> file_stamp \<Rightarrow> byte list"
  sr_expired :: "nat \<Rightarrow> nat \<Rightarrow> bool"
  sr_opened :: "nat \<Rightarrow> unit res"
  sr_reopen :: "nat \<Rightarrow> unit res"
  sr_drain :: "nat \<Rightarrow> nat \<Rightarrow> nat"
  sr_ans :: "nat \<Rightarrow> nat \<Rightarrow> nat \<Rightarrow> os_answer list"
  sr_mem :: "nat \<Rightarrow> byte"

text \<open>The producer: reader, budget and the moment. An item is a batch, its event and its output.\<close>

record producer =
  pr_reader :: reader
  pr_budget :: budget
  pr_clock :: nat

type_synonym item = "batch \<times> nat option \<times> nat"

definition produce_batch :: "surroundings \<Rightarrow> (string, file_stamp) odict \<Rightarrow> batch \<Rightarrow> producer \<Rightarrow> producer \<times> item res" where
  "produce_batch w stamps b p =
     (let t = pr_clock p; p1 = p\<lparr>pr_clock := t + 2\<rparr> in
      case map_of stamps (bt_file b) of
        None \<Rightarrow> (p1, err KeyError)
      | Some s \<Rightarrow>
          if sr_stamp w t (bt_file b) \<noteq> s then (p1, err ValueError)
          else (case reserve (sr_expired w t) (bt_bytes b) (pr_budget p) of
              (bg, Inl e) \<Rightarrow> (p1\<lparr>pr_budget := bg\<rparr>, err e)
            | (bg, Inr _) \<Rightarrow>
                let out = length (rr_outs (pr_reader p));
                    r = (pr_reader p)\<lparr>rr_outs := rr_outs (pr_reader p) @ [map (sr_mem w) [0..<nat (bt_bytes b)]]\<rparr>;
                    (r', res) = fill (sr_opened w t) (sr_reopen w t) (sr_content w (bt_file b) (sr_stamp w (t + 1) (bt_file b))) b out
                      (sr_drain w t) (sr_ans w t) r;
                    p2 = p1\<lparr>pr_reader := r', pr_budget := track out (bt_bytes b) bg\<rparr>
                in (case res of Inl e \<Rightarrow> (p2, err e) | Inr ev \<Rightarrow> (p2, ok (b, ev, out)))))"

text \<open>
  The items the producer yields, each with the reader as it is then, and how it ends. The pump of
  \<^verbatim>\<open>prefetch_weights\<close> hands the items over in this order and raises the producer's error after them.
\<close>

fun produce :: "surroundings \<Rightarrow> (string, file_stamp) odict \<Rightarrow> batch list \<Rightarrow> producer \<Rightarrow> (item \<times> reader) list \<times> producer \<times> unit res" where
  "produce w stamps [] p = ([], p, ok ())"
| "produce w stamps (b # bs) p =
     (case produce_batch w stamps b p of
        (p', Inl e) \<Rightarrow> ([], p', err e)
      | (p', Inr it) \<Rightarrow> (case produce w stamps bs p' of (its, p'', res) \<Rightarrow> ((it, pr_reader p') # its, p'', res)))"

text \<open>The consumer of one item: wait for the event, then slice the output. \<open>r\<close> is the reader at that moment.\<close>

definition slice :: "batch \<Rightarrow> byte list \<Rightarrow> string \<times> tensor_info \<Rightarrow> string \<times> tensor" where
  "slice b output row =
     (fst row, \<lparr>tn_shape = ti_shape (snd row), tn_dtype = ti_dtype (snd row),
       tn_bytes = pread output (nat (ti_bytes (snd row))) (nat (ti_offset (snd row) - bt_start b))\<rparr>)"

definition consume_batch :: "(string \<Rightarrow> bool) \<Rightarrow> item \<Rightarrow> reader \<Rightarrow> (string \<times> tensor) list" where
  "consume_batch skip = (\<lambda>(b, ev, out) r.
     let output = rr_outs (case ev of None \<Rightarrow> r | Some e \<Rightarrow> synchronize e r) ! out
     in map (slice b output) (filter (\<lambda>row. \<not> skip (fst row)) (bt_tensors b)))"

text \<open>
  Item \<open>k\<close> is consumed when the producer is at item \<open>k\<close> or beyond: \<open>lead k\<close> more fills may have happened.
\<close>

fun consume :: "(string \<Rightarrow> bool) \<Rightarrow> (nat \<Rightarrow> nat) \<Rightarrow> nat \<Rightarrow> (item \<times> reader) list \<Rightarrow> (string \<times> tensor) list" where
  "consume skip lead k [] = []"
| "consume skip lead k ((it, r) # its) =
     consume_batch skip it (snd (((it, r) # its) ! min (lead k) (length its))) @ consume skip lead (k + 1) its"

definition empty_tensor :: "string \<times> tensor_info \<Rightarrow> string \<times> tensor" where
  "empty_tensor row = (fst row, \<lparr>tn_shape = ti_shape (snd row), tn_dtype = ti_dtype (snd row), tn_bytes = []\<rparr>)"

definition count_rows :: "((string \<times> tensor_info) \<Rightarrow> bool) \<Rightarrow> (string \<times> tensor_info) list \<Rightarrow> nat" where
  "count_rows P rows = length (filter P rows)"

text \<open>The last loop: every file still has the stamp it was inspected with.\<close>

fun recheck :: "surroundings \<Rightarrow> nat \<Rightarrow> (string, file_stamp) odict \<Rightarrow> unit res" where
  "recheck w t [] = ok ()"
| "recheck w t ((path, before) # rest) = (if sr_stamp w t path \<noteq> before then err ValueError else recheck w (t + 1) rest)"

datatype device = Cpu | Pinned | Cuda | OtherDevice

text \<open>\<^verbatim>\<open>coalesced_weights\<close>, run to its end: what it yields, its metrics, and how it ends.\<close>

definition coalesced_weights :: "surroundings \<Rightarrow> string list \<Rightarrow> ckpt_metadata \<Rightarrow> int \<Rightarrow> int \<Rightarrow> int \<Rightarrow> int \<Rightarrow> device \<Rightarrow> bool
    \<Rightarrow> (string \<Rightarrow> bool) \<Rightarrow> (nat \<Rightarrow> nat) \<Rightarrow> (string \<times> tensor) list \<times> metrics \<times> unit res" where
  "coalesced_weights w paths md concurrency memory_limit owned_limit batch_bytes device direct skip lead =
     (if device = OtherDevice \<or> owned_limit \<le> 0 then ([], metrics_init, err ValueError)
      else if set paths \<noteq> set (od_keys (md_stamps md)) then ([], metrics_init, err ValueError)
      else case plan_batches md batch_bytes of
        Inl e \<Rightarrow> ([], metrics_init, err e)
      | Inr batches \<Rightarrow>
          if list_ex (\<lambda>b. owned_limit < bt_bytes b) batches then ([], metrics_init, err UnsupportedStream)
          else (case range_reader (device = Cuda) direct memory_limit concurrency batch_bytes of
              Inl e \<Rightarrow> ([], metrics_init, err e)
            | Inr r \<Rightarrow>
                let (its, p, res) = produce w (md_stamps md) batches \<lparr>pr_reader = r, pr_budget = budget_init owned_limit, pr_clock = 0\<rparr>;
                    rows = concat (map (\<lambda>((b, _, _), _). bt_tensors b) its);
                    empties = filter (\<lambda>row. ti_bytes (snd row) = 0) (md_tensors md);
                    m = \<lparr>mx_bytes = sum_list (map (\<lambda>row. ti_bytes (snd row)) (filter (\<lambda>row. \<not> skip (fst row)) rows)),
                         mx_tensors = count_rows (\<lambda>row. \<not> skip (fst row)) rows, mx_batches = length its, mx_empty = 0,
                         mx_skipped = count_rows (\<lambda>row. skip (fst row)) rows, mx_peak = bg_peak (pr_budget p), mx_complete = False\<rparr>
                in (case res of
                      Inl e \<Rightarrow> (consume skip lead 0 its, m, err e)
                    | Inr _ \<Rightarrow>
                        let ys = consume skip lead 0 its @ map empty_tensor (filter (\<lambda>row. \<not> skip (fst row)) empties);
                            m2 = m\<lparr>mx_empty := count_rows (\<lambda>row. \<not> skip (fst row)) empties,
                                   mx_skipped := mx_skipped m + count_rows (\<lambda>row. skip (fst row)) empties\<rparr>
                        in (case recheck w (pr_clock p) (md_stamps md) of
                              Inl e \<Rightarrow> (ys, m2, err e)
                            | Inr _ \<Rightarrow> (ys, m2\<lparr>mx_complete := True\<rparr>, ok ())))))"

section \<open>What the stream delivers\<close>

definition budget_ok :: "budget \<Rightarrow> bool" where
  "budget_ok b = (bg_live b = sum_list (map snd (bg_refs b)) \<and> (\<forall>(_, n) \<in> set (bg_refs b). 0 \<le> n)
     \<and> bg_live b \<le> bg_limit b \<and> bg_peak b \<le> bg_limit b)"

lemma sum_filter_split:
  "sum_list (map snd xs) = sum_list (map snd (filter (\<lambda>(r, _). P r) xs)) + (sum_list (map snd (filter (\<lambda>(r, _). \<not> P r) xs)) :: int)"
  by (induction xs) auto

lemma reserve_track:
  assumes "budget_ok b" and "reserve expired n b = (b', ok ())" and "0 \<le> n"
  shows "budget_ok (track ref n b') \<and> bg_limit (track ref n b') = bg_limit b"
proof -
  have b': "b' = collect expired b" "bg_live b' + n \<le> bg_limit b'" using assms(2) by (auto simp: reserve_def Let_def split: if_splits)
  have "bg_live b' = sum_list (map snd (bg_refs b'))"
    using assms(1) sum_filter_split [of "bg_refs b" expired] by (simp add: b'(1) collect_def budget_ok_def)
  moreover have "\<forall>(_, m) \<in> set (bg_refs b'). 0 \<le> m" using assms(1) by (auto simp: b'(1) collect_def budget_ok_def)
  moreover have "bg_limit b' = bg_limit b" "bg_peak b' \<le> bg_limit b" using assms(1) by (simp_all add: b'(1) collect_def budget_ok_def)
  ultimately show ?thesis using assms(3) b'(2) by (auto simp: track_def budget_ok_def)
qed

lemma reserve_limit: "reserve expired n b = (b', res) \<Longrightarrow> budget_ok b \<Longrightarrow> bg_peak b' \<le> bg_limit b"
  by (auto simp: reserve_def collect_def budget_ok_def Let_def)

text \<open>An item whose output is, or is about to be, a range of a file.\<close>

definition item_ready :: "byte list \<Rightarrow> item \<Rightarrow> reader \<Rightarrow> bool" where
  "item_ready f = (\<lambda>(b, ev, out) r. reader_ok r \<and> outs_in r \<and> out < length (rr_outs r)
     \<and> virt r ! out = pread f (nat (bt_bytes b)) (nat (bt_start b))
     \<and> (\<forall>u \<in> set (rr_stream r). up_out u = out \<longrightarrow> (\<exists>e. ev = Some e \<and> up_event u \<le> e)))"

lemma item_ready_output:
  assumes "item_ready f (b, ev, out) r"
  shows "rr_outs (case ev of None \<Rightarrow> r | Some e \<Rightarrow> synchronize e r) ! out = pread f (nat (bt_bytes b)) (nat (bt_start b))"
proof (cases ev)
  case None
  then have "\<forall>u \<in> set (rr_stream r). up_out u \<noteq> out" using assms by (auto simp: item_ready_def)
  then have "virt r ! out = rr_outs r ! out" unfolding virt_def by (rule uploads_other)
  then show ?thesis using assms None by (simp add: item_ready_def)
next
  case (Some e)
  then have "rr_outs (synchronize e r) ! out = virt r ! out"
    using assms by (intro synchronized_output) (auto simp: item_ready_def)
  then show ?thesis using assms Some by (simp add: item_ready_def)
qed

lemma new_output_ok:
  assumes "reader_ok r" and "outs_in r"
  shows "reader_ok (r\<lparr>rr_outs := rr_outs r @ [x]\<rparr>) \<and> outs_in (r\<lparr>rr_outs := rr_outs r @ [x]\<rparr>)
     \<and> (\<forall>i < length (rr_outs r). virt (r\<lparr>rr_outs := rr_outs r @ [x]\<rparr>) ! i = virt r ! i)"
proof -
  have "fold (do_upload sl) us (outs @ [x]) = fold (do_upload sl) us outs @ [x]" if "\<forall>u \<in> set us. up_out u < length outs" for sl us outs
    using that
  proof (induction us arbitrary: outs)
    case (Cons u us)
    have "do_upload sl u (outs @ [x]) = do_upload sl u outs @ [x]"
      using Cons.prems by (simp add: do_upload_def list_update_append1 nth_append)
    moreover have "length (do_upload sl u outs) = length outs" by (simp add: do_upload_def)
    ultimately show ?case using Cons by simp
  qed simp
  from this [of "rr_stream r" "rr_outs r" "rr_slots r"] assms(2)
  have v: "virt (r\<lparr>rr_outs := rr_outs r @ [x]\<rparr>) = virt r @ [x]" by (simp add: virt_def outs_in_def)
  have "length (virt r) = length (rr_outs r)" by (rule same_lengths(1) [OF virt_length [OF assms]])
  then show ?thesis
    using assms v by (auto simp: reader_ok_def upload_ok_def outs_in_def nth_append)
qed

text \<open>One batch of the producer, when the file it reads has the content \<open>F\<close>.\<close>

lemma produce_batch_ok:
  assumes "produce_batch w stamps b p = (p', ok it)" and "reader_ok (pr_reader p)" and "outs_in (pr_reader p)"
    and "sr_content w (bt_file b) (sr_stamp w (pr_clock p + 1) (bt_file b)) = F"
    and "nat (bt_start b) + nat (bt_bytes b) \<le> length F"
  shows "fst it = b \<and> item_ready F it (pr_reader p')
     \<and> (\<forall>f' it'. item_ready f' it' (pr_reader p) \<longrightarrow> item_ready f' it' (pr_reader p'))
     \<and> map_of stamps (bt_file b) = Some (sr_stamp w (pr_clock p) (bt_file b)) \<and> pr_clock p' = pr_clock p + 2"
proof -
  let ?out = "length (rr_outs (pr_reader p))"
  let ?r = "(pr_reader p)\<lparr>rr_outs := rr_outs (pr_reader p) @ [map (sr_mem w) [0..<nat (bt_bytes b)]]\<rparr>"
  obtain r' ev where fill: "fill (sr_opened w (pr_clock p)) (sr_reopen w (pr_clock p)) F b ?out (sr_drain w (pr_clock p)) (sr_ans w (pr_clock p)) ?r = (r', ok ev)"
      and p': "pr_reader p' = r'" "pr_clock p' = pr_clock p + 2" and it: "it = (b, ev, ?out)"
      and st: "map_of stamps (bt_file b) = Some (sr_stamp w (pr_clock p) (bt_file b))"
    using assms(1) unfolding produce_batch_def Let_def assms(4)
    by (auto split: option.splits if_splits prod.splits sum.splits)
  note new = new_output_ok [OF assms(2,3), of "map (sr_mem w) [0..<nat (bt_bytes b)]"]
  have d: "batch_done F b ?out ?r r'" "ev = (if rr_event ?r < rr_event r' then Some (rr_event r' - 1) else None)"
    using fill_ok [OF fill _ _ _ _ assms(5)] new by simp_all
  have lens: "length (virt ?r) = length (rr_outs ?r)" using new by (intro same_lengths(1) [OF virt_length]) auto
  have outs: "length (rr_outs r') = Suc ?out" using same_lengths(1) [of "rr_outs r'" "rr_outs ?r"] d(1) by (simp add: batch_done_def)
  have r': "reader_ok r'" "outs_in r'" "virt r' = (virt ?r)[?out := pread F (nat (bt_bytes b)) (nat (bt_start b))]"
      "\<forall>u \<in> set (rr_stream r'). u \<in> set (rr_stream (pr_reader p)) \<or> up_out u = ?out"
      "rr_event r' = rr_event (pr_reader p) \<longrightarrow> set (rr_stream r') \<subseteq> set (rr_stream (pr_reader p))" "rr_event (pr_reader p) \<le> rr_event r'"
    using d(1) by (simp_all add: batch_done_def)
  have old: "\<forall>u \<in> set (rr_stream (pr_reader p)). up_out u \<noteq> ?out" using assms(3) by (auto simp: outs_in_def)
  have "\<exists>e. ev = Some e \<and> up_event u \<le> e" if u: "u \<in> set (rr_stream r')" "up_out u = ?out" for u
  proof -
    have "u \<notin> set (rr_stream (pr_reader p))" using old u(2) by auto
    then have "rr_event (pr_reader p) < rr_event r'" using r'(5,6) u(1) by (metis le_neq_implies_less subsetD)
    moreover have "up_event u < rr_event r'" using r'(1) u(1) by (simp add: reader_ok_def upload_ok_def)
    ultimately show ?thesis using d(2) by auto
  qed
  then have ready: "item_ready F it r'" using r'(1-3) lens outs by (auto simp: item_ready_def it)
  have "item_ready f' it' r'" if "item_ready f' it' (pr_reader p)" for f' it'
  proof -
    obtain b' ev' o' where i: "it' = (b', ev', o')" by (cases it')
    have o': "o' < ?out" using that by (simp add: item_ready_def i)
    then have "virt r' ! o' = virt (pr_reader p) ! o'" using r'(3) new by simp
    moreover have "u \<in> set (rr_stream (pr_reader p))" if "u \<in> set (rr_stream r')" "up_out u = o'" for u using r'(4) that o' by auto
    ultimately show ?thesis using that r'(1,2) outs o' by (auto simp: item_ready_def i)
  qed
  then show ?thesis using ready p' st by (simp add: it)
qed

lemma produce_batch_stamp:
  "produce_batch w stamps b p = (p', ok it) \<Longrightarrow>
     map_of stamps (bt_file b) = Some (sr_stamp w (pr_clock p) (bt_file b)) \<and> pr_clock p' = pr_clock p + 2"
  unfolding produce_batch_def Let_def by (auto split: option.splits if_splits prod.splits sum.splits)

lemma produce_clock: "produce w stamps bs p = (its, p', ok ()) \<Longrightarrow> pr_clock p \<le> pr_clock p'"
proof (induction bs arbitrary: p its)
  case (Cons b bs)
  then obtain p1 it its' where one: "produce_batch w stamps b p = (p1, ok it)" and rest: "produce w stamps bs p1 = (its', p', ok ())"
    by (auto split: prod.splits sum.splits)
  show ?case using Cons.IH [OF rest] produce_batch_stamp [OF one] by simp
qed simp

text \<open>Every item is ready at its own moment and at every later one.\<close>

fun all_ready :: "(string \<Rightarrow> byte list) \<Rightarrow> (item \<times> reader) list \<Rightarrow> bool" where
  "all_ready F [] = True"
| "all_ready F (x # its) =
     ((\<forall>y \<in> set (x # its). item_ready (F (bt_file (fst (fst x)))) (fst x) (snd y)) \<and> all_ready F its)"

definition settled :: "surroundings \<Rightarrow> (string, file_stamp) odict \<Rightarrow> nat \<Rightarrow> bool" where
  "settled w stamps T = (\<forall>t path s. t < T \<longrightarrow> map_of stamps path = Some s \<longrightarrow> sr_stamp w t path = s \<longrightarrow> sr_stamp w (t + 1) path = s)"

definition source_bytes :: "surroundings \<Rightarrow> ckpt_metadata \<Rightarrow> string \<Rightarrow> byte list" where
  "source_bytes w md path = sr_content w path (the (map_of (md_stamps md) path))"

lemma produce_ready:
  assumes "produce w (md_stamps md) bs p = (its, p', ok ())" and "reader_ok (pr_reader p)" and "outs_in (pr_reader p)"
    and "\<forall>b \<in> set bs. nat (bt_start b) + nat (bt_bytes b) \<le> length (source_bytes w md (bt_file b))"
    and "settled w (md_stamps md) (pr_clock p')"
  shows "map (\<lambda>x. fst (fst x)) its = bs \<and> all_ready (source_bytes w md) its
     \<and> (\<forall>f it. item_ready f it (pr_reader p) \<longrightarrow> (\<forall>x \<in> set its. item_ready f it (snd x)))"
  using assms
proof (induction bs arbitrary: p its)
  case (Cons b bs)
  obtain p1 it its' where one: "produce_batch w (md_stamps md) b p = (p1, ok it)"
      and rest: "produce w (md_stamps md) bs p1 = (its', p', ok ())" and its: "its = (it, pr_reader p1) # its'"
    using Cons.prems(1) by (auto split: prod.splits sum.splits)
  note st = produce_batch_stamp [OF one]
  have "sr_stamp w (pr_clock p + 1) (bt_file b) = sr_stamp w (pr_clock p) (bt_file b)"
  proof -
    have "pr_clock p < pr_clock p'" using st produce_clock [OF rest] by simp
    then show ?thesis using Cons.prems(5) st by (simp add: settled_def)
  qed
  then have F: "sr_content w (bt_file b) (sr_stamp w (pr_clock p + 1) (bt_file b)) = source_bytes w md (bt_file b)"
    using st by (simp add: source_bytes_def)
  note step = produce_batch_ok [OF one Cons.prems(2,3) F]
  have s: "fst it = b" "item_ready (source_bytes w md (bt_file b)) it (pr_reader p1)"
      "\<forall>f' it'. item_ready f' it' (pr_reader p) \<longrightarrow> item_ready f' it' (pr_reader p1)"
    using step Cons.prems(4) by simp_all
  have ok: "reader_ok (pr_reader p1)" "outs_in (pr_reader p1)" using s(2) by (auto simp: item_ready_def split: prod.splits)
  have IH: "map (\<lambda>x. fst (fst x)) its' = bs" "all_ready (source_bytes w md) its'"
      "\<forall>f it. item_ready f it (pr_reader p1) \<longrightarrow> (\<forall>x \<in> set its'. item_ready f it (snd x))"
    using Cons.IH [OF rest ok _ Cons.prems(5)] Cons.prems(4) by simp_all
  have "\<forall>y \<in> set its. item_ready (source_bytes w md (bt_file b)) it (snd y)" using IH(3) s(2) unfolding its by (metis set_ConsD snd_conv)
  then have "all_ready (source_bytes w md) its" using IH(2) s(1) by (simp add: its)
  moreover have "\<forall>f it. item_ready f it (pr_reader p) \<longrightarrow> (\<forall>x \<in> set its. item_ready f it (snd x))"
    unfolding its using IH(3) s(3) by (metis set_ConsD snd_conv)
  ultimately show ?case using IH(1) s(1) by (simp add: its)
qed simp

lemma consume_ready:
  assumes "all_ready F its"
  shows "consume skip lead k its = concat (map (\<lambda>b. map (slice b (pread (F (bt_file b)) (nat (bt_bytes b)) (nat (bt_start b))))
     (filter (\<lambda>row. \<not> skip (fst row)) (bt_tensors b))) (map (\<lambda>x. fst (fst x)) its))"
  using assms
proof (induction its arbitrary: k)
  case (Cons x its)
  obtain b ev out r where x: "x = ((b, ev, out), r)" by (metis surj_pair)
  let ?y = "(x # its) ! min (lead k) (length its)"
  have "?y \<in> set (x # its)" by (rule nth_mem) simp
  then have "item_ready (F (bt_file b)) (b, ev, out) (snd ?y)" using Cons.prems by (auto simp: x)
  note out = item_ready_output [OF this]
  show ?case using Cons.IH Cons.prems out unfolding x by (simp add: consume_batch_def Let_def comp_def)
qed simp

text \<open>What the model should receive for a tensor: its extent of the inspected file.\<close>

definition deliver :: "surroundings \<Rightarrow> ckpt_metadata \<Rightarrow> string \<times> tensor_info \<Rightarrow> string \<times> tensor" where
  "deliver w md row =
     (fst row, \<lparr>tn_shape = ti_shape (snd row), tn_dtype = ti_dtype (snd row),
       tn_bytes = pread (source_bytes w md (ti_file (snd row))) (nat (ti_bytes (snd row))) (nat (ti_offset (snd row)))\<rparr>)"

lemma pread_pread: "k + m \<le> n \<Longrightarrow> pread (pread f n s) m k = pread f m (s + k)"
  by (simp add: pread_def drop_take add.commute)

lemma slice_deliver:
  assumes "batch_shape bb path b" and "0 \<le> bt_start b" and "row \<in> set (bt_tensors b)" and "ti_file (snd row) = bt_file b"
  shows "slice b (pread (source_bytes w md (bt_file b)) (nat (bt_bytes b)) (nat (bt_start b))) row = deliver w md row"
proof -
  have r: "bt_start b \<le> ti_offset (snd row)" "0 < ti_bytes (snd row)" "ti_offset (snd row) + ti_bytes (snd row) \<le> bt_end b"
    using assms(1,3) by (auto simp: batch_shape_def row_offset_def row_end_def)
  then have "nat (ti_offset (snd row) - bt_start b) + nat (ti_bytes (snd row)) \<le> nat (bt_bytes b)"
    by (simp add: bt_bytes_def nat_add_distrib [symmetric])
  moreover have "nat (bt_start b) + nat (ti_offset (snd row) - bt_start b) = nat (ti_offset (snd row))"
    using r assms(2) by (simp add: nat_add_distrib [symmetric])
  ultimately show ?thesis by (simp add: slice_def deliver_def pread_pread assms(4))
qed

lemma recheck_ok: "recheck w t stamps = ok () \<Longrightarrow> (path, s) \<in> set stamps \<Longrightarrow> \<exists>t' \<ge> t. sr_stamp w t' path = s"
proof (induction w t stamps rule: recheck.induct)
  case (2 w t path' before rest)
  show ?case
  proof (cases "(path, s) = (path', before)")
    case False
    then obtain t' where "t + 1 \<le> t'" "sr_stamp w t' path = s" using 2 by (auto split: if_splits)
    then show ?thesis by (intro exI [of _ t']) simp
  qed (use 2 in \<open>auto split: if_splits\<close>)
qed simp

lemma produce_batch_budget:
  assumes "produce_batch w stamps b p = (p1, r1)" and "budget_ok (pr_budget p)" and "0 \<le> bt_bytes b"
  shows "bg_peak (pr_budget p1) \<le> bg_limit (pr_budget p)"
    and "r1 = ok it \<Longrightarrow> budget_ok (pr_budget p1) \<and> bg_limit (pr_budget p1) = bg_limit (pr_budget p)"
proof -
  let ?t = "pr_clock p" and ?out = "length (rr_outs (pr_reader p))"
  obtain bg r0 where res: "reserve (sr_expired w ?t) (bt_bytes b) (pr_budget p) = (bg, r0)" by fastforce
  have "pr_budget p1 = pr_budget p \<and> (\<exists>e. r1 = err e) \<or> pr_budget p1 = bg \<and> (\<exists>e. r1 = err e)
      \<or> r0 = ok () \<and> pr_budget p1 = track ?out (bt_bytes b) bg"
    using assms(1) res unfolding produce_batch_def Let_def
    by (simp split: option.splits if_splits prod.splits sum.splits) auto
  moreover have "budget_ok (track ?out (bt_bytes b) bg) \<and> bg_limit (track ?out (bt_bytes b) bg) = bg_limit (pr_budget p)" if "r0 = ok ()"
    using reserve_track [OF assms(2) res [unfolded that] assms(3)] by simp
  ultimately show "bg_peak (pr_budget p1) \<le> bg_limit (pr_budget p)"
    and "r1 = ok it \<Longrightarrow> budget_ok (pr_budget p1) \<and> bg_limit (pr_budget p1) = bg_limit (pr_budget p)"
    using assms(2) reserve_limit [OF res assms(2)] by (auto simp: budget_ok_def)
qed

lemma produce_budget:
  assumes "produce w stamps bs p = (its, p', res)" and "budget_ok (pr_budget p)" and "\<forall>b \<in> set bs. 0 \<le> bt_bytes b"
  shows "bg_peak (pr_budget p') \<le> bg_limit (pr_budget p)"
  using assms
proof (induction bs arbitrary: p its)
  case (Cons b bs)
  obtain p1 r1 where one: "produce_batch w stamps b p = (p1, r1)" by fastforce
  note bud = produce_batch_budget [OF one Cons.prems(2)]
  show ?case
  proof (cases r1)
    case (Inl e)
    then show ?thesis using Cons.prems(1,3) one bud(1) by simp
  next
    case (Inr it)
    then show ?thesis using Cons.IH [of p1] Cons.prems(1,3) one bud(2) by (auto split: prod.splits)
  qed
qed (simp add: budget_ok_def)

lemma settled_final:
  assumes "\<forall>path t1 t2 t3. t1 \<le> t2 \<and> t2 \<le> t3 \<and> sr_stamp w t1 path = sr_stamp w t3 path \<longrightarrow> sr_stamp w t2 path = sr_stamp w t1 path"
    and "recheck w T stamps = ok ()"
  shows "settled w stamps T"
  unfolding settled_def
proof (intro allI impI)
  fix t path s assume t: "t < T" "map_of stamps path = Some s" "sr_stamp w t path = s"
  then obtain t' where t': "T \<le> t'" "sr_stamp w t' path = s" using recheck_ok [OF assms(2)] by (meson map_of_SomeD)
  then have "t \<le> t + 1 \<and> t + 1 \<le> t' \<and> sr_stamp w t path = sr_stamp w t' path" using t by simp
  then show "sr_stamp w (t + 1) path = s" using assms(1) t(3) by metis
qed

lemma coalesced_cases:
  assumes "coalesced_weights w paths md concurrency memory_limit owned_limit batch_bytes device direct skip lead = (ys, m, ok ())"
  obtains batches r its p where "plan_batches md batch_bytes = ok batches" "0 < owned_limit"
    "range_reader (device = Cuda) direct memory_limit concurrency batch_bytes = ok r"
    "produce w (md_stamps md) batches \<lparr>pr_reader = r, pr_budget = budget_init owned_limit, pr_clock = 0\<rparr> = (its, p, ok ())"
    "recheck w (pr_clock p) (md_stamps md) = ok ()"
    "ys = consume skip lead 0 its @ map empty_tensor (filter (\<lambda>row. \<not> skip (fst row)) (filter (\<lambda>row. ti_bytes (snd row) = 0) (md_tensors md)))"
    "mx_complete m" "mx_peak m = bg_peak (pr_budget p)"
    "mx_tensors m + mx_empty m + mx_skipped m = length (concat (map (\<lambda>x. bt_tensors (fst (fst x))) its))
       + length (filter (\<lambda>row. ti_bytes (snd row) = 0) (md_tensors md))"
proof -
  have split: "count_rows (\<lambda>row. \<not> skip (fst row)) rows + count_rows (\<lambda>row. skip (fst row)) rows = length rows" for rows
    using sum_length_filter_compl [of "\<lambda>row. skip (fst row)" rows] by (simp add: count_rows_def)
  obtain batches r where br: "plan_batches md batch_bytes = ok batches" "0 < owned_limit"
      "range_reader (device = Cuda) direct memory_limit concurrency batch_bytes = ok r" and guard: "device \<noteq> OtherDevice"
      "set paths = set (od_keys (md_stamps md))" "\<not> list_ex (\<lambda>b. owned_limit < bt_bytes b) batches"
    using assms unfolding coalesced_weights_def Let_def by (auto split: if_splits sum.splits)
  obtain its p res where pr: "produce w (md_stamps md) batches \<lparr>pr_reader = r, pr_budget = budget_init owned_limit, pr_clock = 0\<rparr> = (its, p, res)"
    by (metis surj_pair)
  have rows: "concat (map (\<lambda>((b, _, _), _). bt_tensors b) its) = concat (map (\<lambda>x. bt_tensors (fst (fst x))) its)"
    by (intro arg_cong [where f = concat] map_cong) (auto split: prod.splits)
  show ?thesis
  proof (cases res)
    case (Inl e)
    then show ?thesis using assms br guard by (simp add: coalesced_weights_def Let_def pr)
  next
    case (Inr u)
    have re: "recheck w (pr_clock p) (md_stamps md) = ok ()"
      using assms br guard Inr by (auto simp: coalesced_weights_def Let_def pr split: sum.splits)
    have m: "m = \<lparr>mx_bytes = sum_list (map (\<lambda>row. ti_bytes (snd row)) (filter (\<lambda>row. \<not> skip (fst row)) (concat (map (\<lambda>((b, _, _), _). bt_tensors b) its)))),
        mx_tensors = count_rows (\<lambda>row. \<not> skip (fst row)) (concat (map (\<lambda>((b, _, _), _). bt_tensors b) its)), mx_batches = length its,
        mx_empty = count_rows (\<lambda>row. \<not> skip (fst row)) (filter (\<lambda>row. ti_bytes (snd row) = 0) (md_tensors md)),
        mx_skipped = count_rows (\<lambda>row. skip (fst row)) (concat (map (\<lambda>((b, _, _), _). bt_tensors b) its))
          + count_rows (\<lambda>row. skip (fst row)) (filter (\<lambda>row. ti_bytes (snd row) = 0) (md_tensors md)),
        mx_peak = bg_peak (pr_budget p), mx_complete = True\<rparr>"
      and ys: "ys = consume skip lead 0 its @ map empty_tensor (filter (\<lambda>row. \<not> skip (fst row)) (filter (\<lambda>row. ti_bytes (snd row) = 0) (md_tensors md)))"
      using assms br guard Inr re by (simp_all add: coalesced_weights_def Let_def pr)
    have "mx_tensors m + mx_empty m + mx_skipped m = length (concat (map (\<lambda>x. bt_tensors (fst (fst x))) its))
       + length (filter (\<lambda>row. ti_bytes (snd row) = 0) (md_tensors md))"
      using split [of "concat (map (\<lambda>((b, _, _), _). bt_tensors b) its)"] split [of "filter (\<lambda>row. ti_bytes (snd row) = 0) (md_tensors md)"]
      unfolding m rows by simp
    then show ?thesis
      by (intro that [OF br(1) br(2) br(3) _ re ys]) (use pr Inr in \<open>simp_all add: m\<close>)
  qed
qed

lemma mset_deliver_batches:
  assumes "plan_covers md bb bs"
  shows "mset (concat (map (\<lambda>b. map (slice b (pread (source_bytes w md (bt_file b)) (nat (bt_bytes b)) (nat (bt_start b))))
       (filter P (bt_tensors b))) bs)) = mset (map (deliver w md) (filter P (filter nonempty (md_tensors md))))"
proof -
  have "map (slice b (pread (source_bytes w md (bt_file b)) (nat (bt_bytes b)) (nat (bt_start b)))) (filter P (bt_tensors b))
      = map (deliver w md) (filter P (bt_tensors b))" if "b \<in> set bs" for b
  proof (rule map_cong [OF refl])
    fix row assume "row \<in> set (filter P (bt_tensors b))"
    then have row: "row \<in> set (bt_tensors b)" by simp
    have "batch_shape bb (bt_file b) b" "0 \<le> bt_start b" "ti_file (snd row) = bt_file b"
      using assms that row by (auto simp: plan_covers_def)
    then show "slice b (pread (source_bytes w md (bt_file b)) (nat (bt_bytes b)) (nat (bt_start b))) row = deliver w md row"
      using row by (intro slice_deliver)
  qed
  then have "concat (map (\<lambda>b. map (slice b (pread (source_bytes w md (bt_file b)) (nat (bt_bytes b)) (nat (bt_start b))))
       (filter P (bt_tensors b))) bs) = concat (map (\<lambda>b. map (deliver w md) (filter P (bt_tensors b))) bs)"
    by (intro arg_cong [where f = concat] map_cong) auto
  also have "\<dots> = map (deliver w md) (filter P (concat (map bt_tensors bs)))"
    by (simp add: map_concat filter_concat comp_def)
  also have "mset \<dots> = image_mset (deliver w md) (filter_mset P (mset (concat (map bt_tensors bs))))" by (simp del: mset_concat)
  also have "mset (concat (map bt_tensors bs)) = mset (filter nonempty (md_tensors md))" using assms by (simp add: plan_covers_def)
  finally show ?thesis by (simp only: mset_map mset_filter)
qed

lemma coalesced_delivers:
  assumes "md_wf md"
    and "coalesced_weights w paths md concurrency memory_limit owned_limit batch_bytes device direct skip lead = (ys, m, ok ())"
    and "\<forall>path t1 t2 t3. t1 \<le> t2 \<and> t2 \<le> t3 \<and> sr_stamp w t1 path = sr_stamp w t3 path \<longrightarrow> sr_stamp w t2 path = sr_stamp w t1 path"
    and "\<forall>path t. int (length (sr_content w path (sr_stamp w t path))) = st_size (sr_stamp w t path)"
  shows "mset ys = mset (map (deliver w md) (filter (\<lambda>row. \<not> skip (fst row)) (md_tensors md)))
     \<and> mx_complete m \<and> mx_tensors m + mx_empty m + mx_skipped m = length (md_tensors md) \<and> mx_peak m \<le> owned_limit"
proof -
  obtain batches r its p where run: "plan_batches md batch_bytes = ok batches" "0 < owned_limit"
      "range_reader (device = Cuda) direct memory_limit concurrency batch_bytes = ok r"
      "produce w (md_stamps md) batches \<lparr>pr_reader = r, pr_budget = budget_init owned_limit, pr_clock = 0\<rparr> = (its, p, ok ())"
      "recheck w (pr_clock p) (md_stamps md) = ok ()"
      "ys = consume skip lead 0 its @ map empty_tensor (filter (\<lambda>row. \<not> skip (fst row)) (filter (\<lambda>row. ti_bytes (snd row) = 0) (md_tensors md)))"
      "mx_complete m" "mx_peak m = bg_peak (pr_budget p)"
      "mx_tensors m + mx_empty m + mx_skipped m = length (concat (map (\<lambda>x. bt_tensors (fst (fst x))) its))
         + length (filter (\<lambda>row. ti_bytes (snd row) = 0) (md_tensors md))"
    by (rule coalesced_cases [OF assms(2)])
  have bb: "ALIGN \<le> batch_bytes" "batch_bytes mod ALIGN = 0" using run(1) by (auto simp: plan_batches_def split: if_splits)
  have plan: "plan_covers md batch_bytes batches" using plan_covered [OF assms(1) run(1)] .
  have r: "reader_ok r" "outs_in r" using range_reader_ok [OF run(3) bb(2)] by (simp_all add: outs_in_def)
  have len: "int (length (source_bytes w md path)) = st_size s" if "map_of (md_stamps md) path = Some s" for path s
    using recheck_ok [OF run(5)] that assms(4) by (metis map_of_SomeD option.sel source_bytes_def)
  have shapes: "0 \<le> bt_bytes b \<and> nat (bt_start b) + nat (bt_bytes b) \<le> length (source_bytes w md (bt_file b))" if "b \<in> set batches" for b
  proof -
    obtain s where s: "map_of (md_stamps md) (bt_file b) = Some s" "batch_shape batch_bytes (bt_file b) b" "0 \<le> bt_start b" "bt_end b \<le> st_size s"
      using plan \<open>b \<in> set batches\<close> by (auto simp: plan_covers_def)
    have "bt_start b \<le> bt_end b" using batch_nonneg [OF s(2)] .
    then show ?thesis using len [OF s(1)] s(3,4) by (simp add: bt_bytes_def nat_diff_distrib)
  qed
  have ready: "map (\<lambda>x. fst (fst x)) its = batches" "all_ready (source_bytes w md) its"
    using produce_ready [OF run(4)] r shapes settled_final [OF assms(3) run(5)] by simp_all
  have "mset (consume skip lead 0 its) = mset (map (deliver w md) (filter (\<lambda>row. \<not> skip (fst row)) (filter nonempty (md_tensors md))))"
    using consume_ready [OF ready(2), of skip lead 0] mset_deliver_batches [OF plan] ready(1) by simp
  moreover have "map empty_tensor (filter (\<lambda>row. \<not> skip (fst row)) (filter (\<lambda>row. ti_bytes (snd row) = 0) (md_tensors md)))
      = map (deliver w md) (filter (\<lambda>row. \<not> skip (fst row)) (filter (\<lambda>row. \<not> nonempty row) (md_tensors md)))"
    unfolding filter_filter by (rule map_cong) (auto simp: nonempty_def empty_tensor_def deliver_def pread_def intro: filter_cong)
  moreover have "mset (map (deliver w md) (filter P (filter Q xs))) + mset (map (deliver w md) (filter P (filter (\<lambda>x. \<not> Q x) xs)))
      = mset (map (deliver w md) (filter P xs))" for P Q xs
    by (induction xs) (auto simp del: mset_map mset_filter filter_filter)
  ultimately have "mset ys = mset (map (deliver w md) (filter (\<lambda>row. \<not> skip (fst row)) (md_tensors md)))"
    unfolding run(6) mset_append by simp
  moreover have "length (concat (map bt_tensors batches)) = length (filter nonempty (md_tensors md))"
    using plan by (metis plan_covers_def size_mset)
  then have "mx_tensors m + mx_empty m + mx_skipped m = length (md_tensors md)"
    using run(9) ready(1) sum_length_filter_compl [of nonempty "md_tensors md"] by (auto simp: nonempty_def comp_def)
  moreover have "mx_peak m \<le> owned_limit"
    using produce_budget [OF run(4)] run(2,8) shapes by (simp add: budget_ok_def budget_init_def)
  ultimately show ?thesis using run(7) by simp
qed

text \<open>
  C23: A coalesced stream that completes has delivered the checkpoint. If \<^verbatim>\<open>coalesced_weights\<close> ends without an
  exception, then every tensor that was not skipped came exactly once, with its shape, its dtype and
  the bytes its extent had in the inspected files, however reads were cut up, however late uploads
  happened and however far the producer ran ahead; every tensor is accounted for in the counters, and
  the tracked memory never exceeded the owned budget. The file system is assumed not to give a changed
  file an earlier stamp again, and a stamp's size to be the file's length.
\<close>

theorem coalesced_complete:
  assumes "md_wf md"
    and "coalesced_weights w paths md concurrency memory_limit owned_limit batch_bytes device direct skip lead = (ys, m, ok ())"
    and "\<forall>path t1 t2 t3. t1 \<le> t2 \<and> t2 \<le> t3 \<and> sr_stamp w t1 path = sr_stamp w t3 path \<longrightarrow> sr_stamp w t2 path = sr_stamp w t1 path"
    and "\<forall>path t. int (length (sr_content w path (sr_stamp w t path))) = st_size (sr_stamp w t path)"
  shows "mset ys = mset (map (deliver w md) (filter (\<lambda>row. \<not> skip (fst row)) (md_tensors md)))
     \<and> mx_complete m \<and> mx_tensors m + mx_empty m + mx_skipped m = length (md_tensors md) \<and> mx_peak m \<le> owned_limit"
  using assms by (rule coalesced_delivers)

definition demo_world :: surroundings where
  "demo_world = \<lparr>sr_stamp = \<lambda>_ _. demo_stamp, sr_content = \<lambda>_ _. [2, 0, 0, 0, 0, 0, 0, 0, 123, 125, 1, 2, 3, 4],
     sr_expired = \<lambda>_ _. False, sr_opened = \<lambda>_. ok (), sr_reopen = \<lambda>_. ok (), sr_drain = \<lambda>_ _. 0, sr_ans = \<lambda>_ _ _. [], sr_mem = \<lambda>_. 7\<rparr>"

definition demo_plan :: batch where
  "demo_plan = \<lparr>bt_file = ''/m/a'', bt_start = 0, bt_end = 14, bt_tensors = md_tensors demo_md\<rparr>"

lemma demo_plan_run: "plan_batches demo_md 4096 = ok [demo_plan]"
  by (simp add: plan_batches_def demo_plan_def demo_md_def demo_stamp_def ALIGN_def add_row_def plan_file_def plan_row_def flush_def Let_def)

lemma demo_coalesced_run:
  "\<exists>ys m. coalesced_weights demo_world [''/m/a''] demo_md 1 16384 100 4096 Cpu True (\<lambda>_. False) (\<lambda>_. 0) = (ys, m, ok ())"
proof -
  obtain r where r: "range_reader (Cpu = Cuda) True 16384 1 4096 = ok r" by (simp add: range_reader_def ALIGN_def)
  define p where "p = \<lparr>pr_reader = r, pr_budget = budget_init 100, pr_clock = 0\<rparr>"
  have ro: "reader_ok r" "rr_outs r = []" "rr_stream r = []" using range_reader_ok [OF r] by (simp_all add: ALIGN_def)
  let ?f = "sr_content demo_world ''/m/a'' demo_stamp"
  let ?r = "r\<lparr>rr_outs := [map (sr_mem demo_world) [0..<14]]\<rparr>"
  have r1: "reader_ok ?r" "outs_in ?r" using new_output_ok [OF ro(1)] ro by (simp_all add: outs_in_def)
  have "is_ok (snd (fill (ok ()) (ok ()) ?f demo_plan 0 (\<lambda>_. 0) (\<lambda>_ _. []) ?r))"
    by (rule fill_returns [OF r1]) (simp_all add: demo_plan_def bt_bytes_def demo_world_def)
  then obtain r' ev where "fill (ok ()) (ok ()) ?f demo_plan 0 (\<lambda>_. 0) (\<lambda>_ _. []) ?r = (r', ok ev)"
    by (metis is_okE prod.collapse)
  then have "\<exists>it p'. produce_batch demo_world (md_stamps demo_md) demo_plan p = (p', ok it)"
    using ro(2) by (simp add: produce_batch_def p_def demo_md_def demo_world_def demo_plan_def demo_stamp_def Let_def reserve_def collect_def
        budget_init_def bt_bytes_def)
  then obtain its p' where pr: "produce demo_world (md_stamps demo_md) [demo_plan] p = (its, p', ok ())" by auto
  have "[''/m/a''] = od_keys (md_stamps demo_md)" by (simp add: demo_md_def od_keys_def)
  then have paths: "set [''/m/a''] = set (od_keys (md_stamps demo_md))" by (rule arg_cong)
  have small: "\<not> list_ex (\<lambda>b. 100 < bt_bytes b) [demo_plan]" by (simp add: demo_plan_def bt_bytes_def)
  have re: "recheck demo_world t (md_stamps demo_md) = ok ()" for t by (simp add: demo_md_def demo_world_def)
  show ?thesis
    unfolding coalesced_weights_def demo_plan_run sum.case r Let_def pr [unfolded p_def] paths if_not_P [OF small] re by simp
qed

theorem coalesced_complete_witness:
  "\<exists>ys m. coalesced_weights demo_world [''/m/a''] demo_md 1 16384 100 4096 Cpu True (\<lambda>_. False) (\<lambda>_. 0) = (ys, m, ok ())
     \<and> mset ys = {#(''w'', \<lparr>tn_shape = [2], tn_dtype = I16, tn_bytes = [1, 2, 3, 4]\<rparr>)#} \<and> mx_peak m \<le> 100"
proof -
  have wf: "md_wf demo_md" by (simp add: md_wf_def demo_md_def demo_stamp_def info_wf_def od_wf_def od_keys_def)
  obtain ys m where run: "coalesced_weights demo_world [''/m/a''] demo_md 1 16384 100 4096 Cpu True (\<lambda>_. False) (\<lambda>_. 0) = (ys, m, ok ())"
    using demo_coalesced_run by blast
  have "mset ys = mset (map (deliver demo_world demo_md) (filter (\<lambda>row. \<not> False) (md_tensors demo_md))) \<and> mx_peak m \<le> 100"
    using coalesced_complete [OF wf run] by (simp add: demo_world_def demo_stamp_def)
  then show ?thesis
    using run by (simp add: deliver_def demo_md_def demo_world_def source_bytes_def pread_def)
qed

end
