(* ===== verification/Ckpt_Runai.thy ===== *)
theory Ckpt_Runai
  imports Ckpt_Stream
begin

text \<open>
  The other streaming backend (\<^verbatim>\<open>spark_nvme/streaming.py\<close>: \<^verbatim>\<open>stream_weights\<close>), over the Run:ai streamer. The
  streamer is a third-party package: what it delivers is an input, a sequence of named tensors that
  ends or fails. Theorem: a run that completes delivers the same tensors as the coalesced backend, and
  every run puts the environment variables back.
\<close>

section \<open>The loop\<close>

type_synonym streamed = "string \<times> tensor"

record stream_state =
  ss_seen :: "string list"
  ss_remaining :: "string \<Rightarrow> int"
  ss_budget :: budget
  ss_metrics :: metrics
  ss_yields :: "(string \<times> tensor) list"
  ss_next :: nat

text \<open>\<^verbatim>\<open>Counter(t.file for t in tensors.values() if t.bytes)\<close>.\<close>

definition remaining_init :: "ckpt_metadata \<Rightarrow> string \<Rightarrow> int" where
  "remaining_init md path = int (length (rows_of (md_tensors md) path))"

text \<open>
  \<^verbatim>\<open>own\<close>: reserve, copy, track. The copy owns its storage and has the tensor's bytes on every device.
\<close>

definition own :: "(nat \<Rightarrow> bool) \<Rightarrow> nat \<Rightarrow> tensor_info \<Rightarrow> budget \<Rightarrow> budget \<times> unit res" where
  "own expired ref info bg =
     (case reserve expired (ti_bytes info) bg of
        (bg', Inl e) \<Rightarrow> (bg', err e)
      | (bg', Inr _) \<Rightarrow> (track ref (ti_bytes info) bg', ok ()))"

text \<open>One streamed tensor; \<open>advise\<close> is what dropping a finished file from the page cache does.\<close>

definition stream_item :: "(nat \<Rightarrow> nat \<Rightarrow> bool) \<Rightarrow> (string \<Rightarrow> unit res) \<Rightarrow> (string \<Rightarrow> bool) \<Rightarrow> ckpt_metadata \<Rightarrow> streamed
    \<Rightarrow> stream_state \<Rightarrow> stream_state \<times> unit res" where
  "stream_item expired advise skip md it s =
     (case map_of (md_tensors md) (fst it) of
        None \<Rightarrow> (s, err ValueError)
      | Some info \<Rightarrow>
          if fst it \<in> set (ss_seen s) then (s, err ValueError)
          else if tn_shape (snd it) \<noteq> ti_shape info \<or> tn_dtype (snd it) \<noteq> ti_dtype info then (s, err ValueError)
          else
            let s1 = s\<lparr>ss_seen := ss_seen s @ [fst it]\<rparr>;
                left = ss_remaining s1 (ti_file info) - 1;
                s2 = (if ti_bytes info \<noteq> 0 then s1\<lparr>ss_remaining := (ss_remaining s1)(ti_file info := left)\<rparr> else s1)
            in case (if ti_bytes info \<noteq> 0 \<and> left = 0 then advise (ti_file info) else ok ()) of
                 Inl e \<Rightarrow> (s2, err e)
               | Inr _ \<Rightarrow>
                   if skip (fst it)
                   then (s2\<lparr>ss_metrics := (ss_metrics s2)\<lparr>mx_skipped := mx_skipped (ss_metrics s2) + 1\<rparr>\<rparr>, ok ())
                   else (case own (expired (ss_next s2)) (ss_next s2) info (ss_budget s2) of
                       (bg, Inl e) \<Rightarrow> (s2\<lparr>ss_budget := bg\<rparr>, err e)
                     | (bg, Inr _) \<Rightarrow>
                         (s2\<lparr>ss_budget := bg, ss_next := ss_next s2 + 1, ss_yields := ss_yields s2 @ [it],
                             ss_metrics := (ss_metrics s2)\<lparr>mx_bytes := mx_bytes (ss_metrics s2) + ti_bytes info,
                                mx_tensors := mx_tensors (ss_metrics s2) + 1\<rparr>\<rparr>, ok ())))"

fun stream_items :: "(nat \<Rightarrow> nat \<Rightarrow> bool) \<Rightarrow> (string \<Rightarrow> unit res) \<Rightarrow> (string \<Rightarrow> bool) \<Rightarrow> ckpt_metadata \<Rightarrow> streamed list \<Rightarrow> unit res
    \<Rightarrow> stream_state \<Rightarrow> stream_state \<times> unit res" where
  "stream_items expired advise skip md [] finish s = (s, finish)"
| "stream_items expired advise skip md (it # its) finish s =
     (case stream_item expired advise skip md it s of
        (s', Inl e) \<Rightarrow> (s', err e)
      | (s', Inr _) \<Rightarrow> stream_items expired advise skip md its finish s')"

text \<open>The entries the streamer did not deliver: empty ones are made here, a nonempty one is an error.\<close>

fun missing :: "(string \<Rightarrow> bool) \<Rightarrow> (string \<times> tensor_info) list \<Rightarrow> stream_state \<Rightarrow> stream_state \<times> unit res" where
  "missing skip [] s = (s, ok ())"
| "missing skip (row # rows) s =
     (if fst row \<in> set (ss_seen s) then missing skip rows s
      else if ti_bytes (snd row) \<noteq> 0 then (s, err ValueError)
      else if skip (fst row) then missing skip rows s
      else missing skip rows (s\<lparr>ss_yields := ss_yields s @ [empty_tensor row],
             ss_metrics := (ss_metrics s)\<lparr>mx_empty := mx_empty (ss_metrics s) + 1\<rparr>\<rparr>))"

text \<open>The environment variables the streamer reads, and their restoration.\<close>

definition runai_keys :: "(int \<Rightarrow> string) \<Rightarrow> int \<Rightarrow> int \<Rightarrow> (string \<times> string) list" where
  "runai_keys dec concurrency memory_limit =
     [(''RUNAI_STREAMER_CONCURRENCY'', dec concurrency), (''RUNAI_STREAMER_MEMORY_LIMIT'', dec memory_limit),
      (''RUNAI_STREAMER_DIST'', ''0'')]"

definition put_env :: "(string \<times> string) list \<Rightarrow> (string \<rightharpoonup> string) \<Rightarrow> string \<rightharpoonup> string" where
  "put_env kvs env = fold (\<lambda>(k, v) e. e(k \<mapsto> v)) kvs env"

definition restore_env :: "(string \<times> string option) list \<Rightarrow> (string \<rightharpoonup> string) \<Rightarrow> string \<rightharpoonup> string" where
  "restore_env previous env = fold (\<lambda>(k, v) e. e(k := v)) previous env"

text \<open>
  \<^verbatim>\<open>stream_weights\<close>, run to its end over what the streamer delivers: the yields, the metrics, the
  environment afterwards and how it ends. \<open>t\<close> is the moment of the final stamp check.
\<close>

definition stream_weights :: "surroundings \<Rightarrow> (int \<Rightarrow> string) \<Rightarrow> (string \<Rightarrow> unit res) \<Rightarrow> ckpt_metadata \<Rightarrow> int \<Rightarrow> int \<Rightarrow> int \<Rightarrow> device
    \<Rightarrow> (string \<Rightarrow> bool) \<Rightarrow> streamed list \<Rightarrow> unit res \<Rightarrow> nat \<Rightarrow> (string \<rightharpoonup> string)
    \<Rightarrow> (string \<times> tensor) list \<times> metrics \<times> (string \<rightharpoonup> string) \<times> unit res" where
  "stream_weights w dec advise md concurrency memory_limit owned_limit device skip items finish t env =
     (if \<not> (1 \<le> concurrency \<and> concurrency \<le> 128) \<or> memory_limit \<le> 0 \<or> owned_limit \<le> 0
      then ([], metrics_init, env, err ValueError)
      else if device = OtherDevice then ([], metrics_init, env, err ValueError)
      else if md_tensors md = [] then ([], metrics_init, env, err ValueError)
      else
        let largest = Max (set (map (\<lambda>row. ti_bytes (snd row)) (md_tensors md))) in
        if memory_limit < largest \<or> owned_limit < largest then ([], metrics_init, env, err ValueError)
        else
          let keys = runai_keys dec concurrency memory_limit;
              previous = map (\<lambda>(k, _). (k, env k)) keys;
              env1 = put_env keys env;
              s0 = \<lparr>ss_seen = [], ss_remaining = remaining_init md, ss_budget = budget_init owned_limit,
                    ss_metrics = metrics_init, ss_yields = [], ss_next = 0\<rparr>;
              (s1, r1) = stream_items (sr_expired w) advise skip md items finish s0;
              (s2, r2) = (case r1 of Inl e \<Rightarrow> (s1, err e) | Inr _ \<Rightarrow> missing skip (md_tensors md) s1);
              r3 = (case r2 of Inl e \<Rightarrow> err e | Inr _ \<Rightarrow> recheck w t (md_stamps md));
              m = (ss_metrics s2)\<lparr>mx_peak := bg_peak (ss_budget s2), mx_complete := is_ok r3\<rparr>
          in (ss_yields s2, m, restore_env previous env1, r3))"

section \<open>What it delivers\<close>

lemma put_restore_env: "restore_env (map (\<lambda>(k, _). (k, env k)) kvs) (put_env kvs env) = env"
proof
  fix x
  have out: "x \<notin> fst ` set kvs \<Longrightarrow> put_env kvs e x = e x" for e
    by (induction kvs arbitrary: e) (auto simp: put_env_def)
  have "restore_env (map (\<lambda>(k, _). (k, env k)) kvs) e x = (if x \<in> fst ` set kvs then env x else e x)" for e
    by (induction kvs arbitrary: e) (auto simp: restore_env_def)
  then show "restore_env (map (\<lambda>(k, _). (k, env k)) kvs) (put_env kvs env) x = env x" using out by simp
qed

lemma own_ok:
  assumes "own expired ref info bg = (bg', r)" and "budget_ok bg" and "0 \<le> ti_bytes info"
  shows "bg_peak bg' \<le> bg_limit bg \<and> (is_ok r \<longrightarrow> budget_ok bg' \<and> bg_limit bg' = bg_limit bg)"
proof -
  obtain bg1 r1 where res: "reserve expired (ti_bytes info) bg = (bg1, r1)" by fastforce
  show ?thesis
  proof (cases r1)
    case (Inl e)
    then show ?thesis using assms(1) res reserve_limit [OF res assms(2)] by (auto simp: own_def)
  next
    case (Inr u)
    then have "bg' = track ref (ti_bytes info) bg1" "r1 = ok ()" using assms(1) res by (auto simp: own_def)
    then have "budget_ok bg'" "bg_limit bg' = bg_limit bg"
      using res reserve_track [OF assms(2) _ assms(3), of expired bg1 ref] by auto
    then show ?thesis by (simp add: budget_ok_def)
  qed
qed

text \<open>What the loop has done after the streamed tensors \<open>past\<close>.\<close>

definition stream_inv :: "(string \<Rightarrow> bool) \<Rightarrow> ckpt_metadata \<Rightarrow> int \<Rightarrow> streamed list \<Rightarrow> stream_state \<Rightarrow> bool" where
  "stream_inv skip md limit past s =
     (ss_seen s = map fst past \<and> distinct (map fst past)
      \<and> (\<forall>it \<in> set past. \<exists>info. map_of (md_tensors md) (fst it) = Some info \<and> tn_shape (snd it) = ti_shape info
            \<and> tn_dtype (snd it) = ti_dtype info)
      \<and> ss_yields s = filter (\<lambda>it. \<not> skip (fst it)) past \<and> budget_ok (ss_budget s) \<and> bg_limit (ss_budget s) = limit)"

lemma stream_item_step:
  assumes "stream_item expired advise skip md it s = (s', r)" and "stream_inv skip md limit past s"
    and "\<forall>row \<in> set (md_tensors md). 0 \<le> ti_bytes (snd row)"
  shows "bg_peak (ss_budget s') \<le> limit \<and> (is_ok r \<longrightarrow> stream_inv skip md limit (past @ [it]) s')"
proof -
  have b: "budget_ok (ss_budget s)" "bg_limit (ss_budget s) = limit" "bg_peak (ss_budget s) \<le> limit"
    using assms(2) by (auto simp: stream_inv_def budget_ok_def)
  show ?thesis
  proof (cases "map_of (md_tensors md) (fst it)")
    case None
    then show ?thesis using assms(1) b by (auto simp: stream_item_def)
  next
    case (Some info)
    have nn: "0 \<le> ti_bytes info" using assms(3) map_of_SomeD [OF Some] by auto
    obtain bg ro where ow: "own (expired (ss_next s)) (ss_next s) info (ss_budget s) = (bg, ro)" by fastforce
    note o = own_ok [OF ow b(1) nn]
    show ?thesis
      using assms(1,2) Some ow o b unfolding stream_item_def Let_def
      by (auto simp: stream_inv_def split: if_splits sum.splits)
  qed
qed

lemma stream_items_ok:
  assumes "stream_items expired advise skip md items finish s = (s', r)" and "stream_inv skip md limit past s"
    and "\<forall>row \<in> set (md_tensors md). 0 \<le> ti_bytes (snd row)"
  shows "bg_peak (ss_budget s') \<le> limit \<and> (is_ok r \<longrightarrow> stream_inv skip md limit (past @ items) s')"
  using assms
proof (induction items arbitrary: past s)
  case Nil
  then show ?case by (auto simp: stream_inv_def budget_ok_def)
next
  case (Cons it items)
  obtain s1 r1 where one: "stream_item expired advise skip md it s = (s1, r1)" by fastforce
  note step = stream_item_step [OF one Cons.prems(2,3)]
  show ?case
  proof (cases r1)
    case (Inl e)
    then show ?thesis using Cons.prems(1) one step by auto
  next
    case (Inr u)
    then show ?thesis using Cons.IH [of s1 "past @ [it]"] Cons.prems(1,3) one step by simp
  qed
qed

lemma missing_ok:
  assumes "missing skip rows s = (s', r)"
  shows "ss_budget s' = ss_budget s \<and> (is_ok r \<longrightarrow>
     ss_yields s' = ss_yields s @ map empty_tensor (filter (\<lambda>row. fst row \<notin> set (ss_seen s) \<and> \<not> skip (fst row)) rows)
     \<and> (\<forall>row \<in> set rows. fst row \<notin> set (ss_seen s) \<longrightarrow> ti_bytes (snd row) = 0))"
  using assms
proof (induction rows arbitrary: s)
  case (Cons row rows)
  consider "fst row \<in> set (ss_seen s)" | "fst row \<notin> set (ss_seen s)" "ti_bytes (snd row) \<noteq> 0"
    | "fst row \<notin> set (ss_seen s)" "ti_bytes (snd row) = 0" "skip (fst row)"
    | "fst row \<notin> set (ss_seen s)" "ti_bytes (snd row) = 0" "\<not> skip (fst row)" by blast
  then show ?case
  proof cases
    case 1
    then show ?thesis using Cons.IH [of s] Cons.prems by simp
  next
    case 2
    then show ?thesis using Cons.prems by auto
  next
    case 3
    then show ?thesis using Cons.IH [of s] Cons.prems by simp
  next
    case 4
    let ?s = "s\<lparr>ss_yields := ss_yields s @ [empty_tensor row], ss_metrics := (ss_metrics s)\<lparr>mx_empty := mx_empty (ss_metrics s) + 1\<rparr>\<rparr>"
    have "missing skip rows ?s = (s', r)" using 4 Cons.prems by simp
    from Cons.IH [OF this] show ?thesis using 4 by simp
  qed
qed auto

lemma seen_rows:
  assumes "od_wf T" and "distinct (map fst past)" and "\<forall>it \<in> set past. \<exists>info. map_of T (fst it) = Some info"
  shows "mset (map (\<lambda>it. (fst it, the (map_of T (fst it)))) past) = mset (filter (\<lambda>row. fst row \<in> set (map fst past)) T)"
proof (rule set_eq_iff_mset_eq_distinct [THEN iffD1])
  have "map fst (map (\<lambda>it. (fst it, the (map_of T (fst it)))) past) = map fst past" by simp
  then show "distinct (map (\<lambda>it. (fst it, the (map_of T (fst it)))) past)" using assms(2) distinct_map by metis
  show "distinct (filter (\<lambda>row. fst row \<in> set (map fst past)) T)" using assms(1) by (simp add: od_wf_def od_keys_def distinct_map)
  have "(k, v) \<in> set T \<longleftrightarrow> map_of T k = Some v" for k v using assms(1) by (simp add: od_wf_def od_keys_def)
  then show "set (map (\<lambda>it. (fst it, the (map_of T (fst it)))) past) = set (filter (\<lambda>row. fst row \<in> set (map fst past)) T)"
    using assms(3) by (force simp: image_iff)
qed

text \<open>What the streamer is documented to deliver: for each name the bytes of the tensor in the files.\<close>

definition streamer_faithful :: "surroundings \<Rightarrow> ckpt_metadata \<Rightarrow> streamed list \<Rightarrow> bool" where
  "streamer_faithful w md items = (\<forall>it \<in> set items. \<forall>info. map_of (md_tensors md) (fst it) = Some info
     \<longrightarrow> tn_bytes (snd it) = tn_bytes (snd (deliver w md (fst it, info))))"

lemma stream_weights_run:
  assumes "stream_weights w dec advise md concurrency memory_limit owned_limit device skip items finish t env = (ys, m, env', r)" and "md_wf md"
  shows "env' = env \<and> mx_peak m \<le> max 0 owned_limit \<and> (is_ok r \<longrightarrow> (\<exists>s1 s2. stream_inv skip md owned_limit items s1
     \<and> missing skip (md_tensors md) s1 = (s2, ok ()) \<and> ys = ss_yields s2 \<and> mx_complete m))"
proof -
  let ?s0 = "\<lparr>ss_seen = [], ss_remaining = remaining_init md, ss_budget = budget_init owned_limit,
      ss_metrics = metrics_init, ss_yields = [], ss_next = 0\<rparr>"
  obtain s1 r1 where it: "stream_items (sr_expired w) advise skip md items finish ?s0 = (s1, r1)" by fastforce
  obtain s2 r2 where mi: "missing skip (md_tensors md) s1 = (s2, r2)" by fastforce
  have nn: "\<forall>row \<in> set (md_tensors md). 0 \<le> ti_bytes (snd row)" using assms(2) by (auto simp: md_wf_def info_wf_def)
  have init: "0 < owned_limit \<Longrightarrow> stream_inv skip md owned_limit [] ?s0"
    by (simp add: stream_inv_def budget_ok_def budget_init_def)
  note run = stream_items_ok [OF it init nn] missing_ok [OF mi]
  show ?thesis
    using assms(1) it mi run unfolding stream_weights_def Let_def
    by (auto simp: put_restore_env metrics_init_def is_ok_def split: if_splits sum.splits)
qed

lemma stream_weights_delivers:
  assumes "md_wf md" and "stream_weights w dec advise md concurrency memory_limit owned_limit device skip items finish t env = (ys, m, env', r)"
    and "streamer_faithful w md items"
  shows "env' = env \<and> mx_peak m \<le> max 0 owned_limit
     \<and> (r = ok () \<longrightarrow> mx_complete m \<and> mset ys = mset (map (deliver w md) (filter (\<lambda>row. \<not> skip (fst row)) (md_tensors md)))
         \<and> distinct (map fst items) \<and> set (map fst items) \<subseteq> set (od_keys (md_tensors md)))"
proof (intro conjI impI)
  note run = stream_weights_run [OF assms(2,1)]
  show "env' = env" "mx_peak m \<le> max 0 owned_limit" using run by simp_all
  assume r: "r = ok ()"
  then obtain s1 s2 where s: "stream_inv skip md owned_limit items s1" "missing skip (md_tensors md) s1 = (s2, ok ())" "ys = ss_yields s2" "mx_complete m"
    using run by auto
  show "mx_complete m" by (rule s(4))
  have inv: "ss_seen s1 = map fst items" "distinct (map fst items)" "ss_yields s1 = filter (\<lambda>it. \<not> skip (fst it)) items"
      "\<forall>it \<in> set items. \<exists>info. map_of (md_tensors md) (fst it) = Some info"
      and schema: "\<forall>it \<in> set items. \<exists>info. map_of (md_tensors md) (fst it) = Some info \<and> tn_shape (snd it) = ti_shape info \<and> tn_dtype (snd it) = ti_dtype info"
    using s(1) unfolding stream_inv_def by (blast+)
  show "distinct (map fst items)" by (rule inv(2))
  show "set (map fst items) \<subseteq> set (od_keys (md_tensors md))" using inv(4) by (auto simp: set_od_keys)
  note mi = missing_ok [OF s(2)]
  let ?T = "md_tensors md" and ?row = "\<lambda>it. (fst it, the (map_of (md_tensors md) (fst it)))"
  have same: "deliver w md (?row it) = it" if mem: "it \<in> set items" for it
  proof -
    obtain info where i: "map_of ?T (fst it) = Some info" "tn_shape (snd it) = ti_shape info" "tn_dtype (snd it) = ti_dtype info"
      using bspec [OF schema mem] by blast
    moreover have "tn_bytes (snd it) = tn_bytes (snd (deliver w md (fst it, info)))" using assms(3) that i(1) by (auto simp: streamer_faithful_def)
    ultimately show ?thesis by (simp add: deliver_def prod_eq_iff)
  qed
  have "ss_yields s1 = map (deliver w md) (filter (\<lambda>row. \<not> skip (fst row)) (map ?row items))"
    unfolding inv(3) filter_map comp_def fst_conv map_map using same by (intro map_idI [symmetric]) auto
  then have "mset (ss_yields s1) = image_mset (deliver w md) (filter_mset (\<lambda>row. \<not> skip (fst row)) (mset (map ?row items)))"
    by (simp only: mset_map mset_filter)
  also have "mset (map ?row items) = mset (filter (\<lambda>row. fst row \<in> set (map fst items)) ?T)"
    using assms(1) inv(2,4) by (intro seen_rows) (auto simp: md_wf_def)
  finally have one: "mset (ss_yields s1) = mset (map (deliver w md) (filter (\<lambda>row. \<not> skip (fst row)) (filter (\<lambda>row. fst row \<in> set (map fst items)) ?T)))"
    by (simp only: mset_map mset_filter)
  have two: "map empty_tensor (filter (\<lambda>row. fst row \<notin> set (ss_seen s1) \<and> \<not> skip (fst row)) ?T)
      = map (deliver w md) (filter (\<lambda>row. \<not> skip (fst row)) (filter (\<lambda>row. fst row \<notin> set (map fst items)) ?T))"
    unfolding filter_filter inv(1)
  proof (rule map_cong)
    fix row assume "row \<in> set (filter (\<lambda>x. fst x \<notin> set (map fst items) \<and> \<not> skip (fst x)) ?T)"
    then have "ti_bytes (snd row) = 0" using mi inv(1) by auto
    then show "empty_tensor row = deliver w md row" by (simp add: empty_tensor_def deliver_def pread_def)
  qed simp
  have parts: "mset (map (deliver w md) (filter P (filter Q xs))) + mset (map (deliver w md) (filter P (filter (\<lambda>x. \<not> Q x) xs)))
      = mset (map (deliver w md) (filter P xs))" for P Q xs
    by (induction xs) (auto simp del: mset_map mset_filter filter_filter)
  show "mset ys = mset (map (deliver w md) (filter (\<lambda>row. \<not> skip (fst row)) ?T))"
    using mi unfolding s(3) two by (simp only: is_ok_simps mset_append one parts simp_thms)
qed

text \<open>
  C24: The two streaming backends deliver the same model. A Run:ai stream that completes, over a streamer
  that reports the bytes of the files, and a coalesced stream of the same checkpoint that completes,
  with whatever device, limits, batch size, I/O mode and read-ahead each has, have yielded the same tensors with the
  same shapes, dtypes and bytes: each unskipped tensor of the metadata once, as its extent of the inspected files. A completed
  Run:ai stream has met no tensor twice and none that is not in the metadata. Every Run:ai run, completed or not, keeps within the owned budget and leaves the process
  environment as it was. As for the coalesced stream alone, the file system does not give a changed
  file an earlier stamp again, and a stamp's size is the file's length.
\<close>

theorem stream_weights_equivalent:
  assumes "md_wf md" and "stream_weights w dec advise md concurrency memory_limit owned_limit device skip items finish t env = (ys, m, env', r)"
    and "streamer_faithful w md items"
    and "\<forall>path t1 t2 t3. t1 \<le> t2 \<and> t2 \<le> t3 \<and> sr_stamp w t1 path = sr_stamp w t3 path \<longrightarrow> sr_stamp w t2 path = sr_stamp w t1 path"
    and "\<forall>path t. int (length (sr_content w path (sr_stamp w t path))) = st_size (sr_stamp w t path)"
  shows "env' = env \<and> mx_peak m \<le> max 0 owned_limit
     \<and> (r = ok () \<longrightarrow> mx_complete m \<and> distinct (map fst items) \<and> set (map fst items) \<subseteq> set (od_keys (md_tensors md))
         \<and> mset ys = mset (map (deliver w md) (filter (\<lambda>row. \<not> skip (fst row)) (md_tensors md)))
         \<and> (\<forall>paths conc' memory' owned' batch_bytes device' direct lead ys' m'.
              coalesced_weights w paths md conc' memory' owned' batch_bytes device' direct skip lead = (ys', m', ok ()) \<longrightarrow> mset ys = mset ys'))"
  using stream_weights_delivers [OF assms(1-3)] coalesced_delivers [OF assms(1) _ assms(4,5)] by simp

theorem stream_weights_equivalent_witness:
  "\<exists>m env'. stream_weights demo_world (\<lambda>_. ''1'') (\<lambda>_. ok ()) demo_md 1 100 100 Cuda (\<lambda>_. False)
       [(''w'', \<lparr>tn_shape = [2], tn_dtype = I16, tn_bytes = [1, 2, 3, 4]\<rparr>)] (ok ()) 0 [''RUNAI_STREAMER_DIST'' \<mapsto> ''9'']
     = ([(''w'', \<lparr>tn_shape = [2], tn_dtype = I16, tn_bytes = [1, 2, 3, 4]\<rparr>)], m, env', ok ()) \<and> env' = [''RUNAI_STREAMER_DIST'' \<mapsto> ''9'']
     \<and> (\<exists>ys' m'. coalesced_weights demo_world [''/m/a''] demo_md 1 16384 100 4096 Cpu True (\<lambda>_. False) (\<lambda>_. 0) = (ys', m', ok ())
          \<and> mset ys' = {#(''w'', \<lparr>tn_shape = [2], tn_dtype = I16, tn_bytes = [1, 2, 3, 4]\<rparr>)#})"
proof -
  let ?it = "(''w'', \<lparr>tn_shape = [2], tn_dtype = I16, tn_bytes = [1, 2, 3, 4]\<rparr>)"
  have wf: "md_wf demo_md" by (simp add: md_wf_def demo_md_def demo_stamp_def info_wf_def od_wf_def od_keys_def)
  have fa: "streamer_faithful demo_world demo_md [?it]"
    by (simp add: streamer_faithful_def deliver_def demo_md_def source_bytes_def demo_world_def pread_def)
  obtain m env' where run: "stream_weights demo_world (\<lambda>_. ''1'') (\<lambda>_. ok ()) demo_md 1 100 100 Cuda (\<lambda>_. False)
       [?it] (ok ()) 0 [''RUNAI_STREAMER_DIST'' \<mapsto> ''9''] = ([?it], m, env', ok ())"
    by (simp add: stream_weights_def stream_item_def own_def reserve_def collect_def budget_init_def demo_md_def demo_world_def Let_def)
  obtain ys' m' where co: "coalesced_weights demo_world [''/m/a''] demo_md 1 16384 100 4096 Cpu True (\<lambda>_. False) (\<lambda>_. 0) = (ys', m', ok ())"
    using demo_coalesced_run by blast
  have "env' = [''RUNAI_STREAMER_DIST'' \<mapsto> ''9''] \<and> mset [?it] = mset ys'"
  proof -
    have steady: "\<forall>path t1 t2 t3. t1 \<le> t2 \<and> t2 \<le> t3 \<and> sr_stamp demo_world t1 path = sr_stamp demo_world t3 path
        \<longrightarrow> sr_stamp demo_world t2 path = sr_stamp demo_world t1 path" by (simp add: demo_world_def)
    have sizes: "\<forall>path t. int (length (sr_content demo_world path (sr_stamp demo_world t path))) = st_size (sr_stamp demo_world t path)"
      by (simp add: demo_world_def demo_stamp_def)
    show ?thesis using stream_weights_equivalent [OF wf run fa steady sizes] co by blast
  qed
  then show ?thesis using run co by auto
qed

end
