(* ===== verification/Ckpt_Prefetch.thy ===== *)
theory Ckpt_Prefetch
  imports Prelude "HOL-Library.Sublist"
begin

text \<open>
  The read-ahead of the weight streams (\<^verbatim>\<open>spark_nvme/streaming.py\<close>: \<^verbatim>\<open>prefetch_weights\<close>): a producer thread
  that alone advances the iterator, a queue of one message, a semaphore of one slot, and a consumer
  that yields to the model loader. The step relation interleaves the two threads; waiting is a step
  that is not enabled. Theorem: items arrive in order with at most one of look-ahead, errors and
  cleanup failures surface after the items before them, no state is stuck, and every run ends.
\<close>

section \<open>The two threads\<close>

datatype 'a msg = Tensor 'a | Done | Error exn

text \<open>The pump: waiting for the slot, checking for the stop, advancing the iterator, putting an item, closing the
  iterator, putting the terminal message, ended.\<close>

datatype 'a pump_pc = PLoop | PCheck | PNext | PPut 'a | PClose "unit res" | PFinal "unit res" | PEnd

text \<open>
  How the generator ends: exhausted, by an exception of the producer, closed by its caller, or by the
  \<^verbatim>\<open>RuntimeError\<close> that reports a producer still alive after the join timed out.
\<close>

datatype outcome = Finished | Raised exn | Closed | NotStopped

datatype 'a cons_pc = CGet | CGot "'a msg" | CYield | CStop outcome | CJoin outcome | CDone outcome

text \<open>
  The iterator is a list of items and how it ends; closing it may fail. \<open>pf_taken\<close> are the items advanced
  over so far and \<open>pf_out\<close> those yielded.
\<close>

record 'a prefetch =
  pf_items :: "'a list"
  pf_end :: "unit res"
  pf_close :: "unit res"
  pf_queue :: "'a msg option"
  pf_slot :: nat
  pf_stop :: bool
  pf_pump :: "'a pump_pc"
  pf_cons :: "'a cons_pc"
  pf_taken :: "'a list"
  pf_out :: "'a list"

definition prefetch_init :: "'a list \<Rightarrow> unit res \<Rightarrow> unit res \<Rightarrow> 'a prefetch" where
  "prefetch_init xs fin cl =
     \<lparr>pf_items = xs, pf_end = fin, pf_close = cl, pf_queue = None, pf_slot = 1, pf_stop = False, pf_pump = PLoop,
      pf_cons = CGet, pf_taken = [], pf_out = []\<rparr>"

text \<open>An error while closing replaces the terminal message.\<close>

definition closed_as :: "unit res \<Rightarrow> unit res \<Rightarrow> unit res" where
  "closed_as cl r = (case cl of Inl e \<Rightarrow> err e | Inr _ \<Rightarrow> r)"

definition terminal_msg :: "unit res \<Rightarrow> 'a msg" where
  "terminal_msg r = (case r of Inl e \<Rightarrow> Error e | Inr _ \<Rightarrow> Done)"

inductive pf_step :: "'a prefetch \<Rightarrow> 'a prefetch \<Rightarrow> bool" where
  acquire: "pf_pump s = PLoop \<Longrightarrow> \<not> pf_stop s \<Longrightarrow> 0 < pf_slot s \<Longrightarrow> pf_step s (s\<lparr>pf_slot := pf_slot s - 1, pf_pump := PCheck\<rparr>)"
| loop_stop: "pf_pump s = PLoop \<Longrightarrow> pf_stop s \<Longrightarrow> pf_step s (s\<lparr>pf_pump := PClose (ok ())\<rparr>)"
| check_stop: "pf_pump s = PCheck \<Longrightarrow> pf_stop s \<Longrightarrow> pf_step s (s\<lparr>pf_pump := PClose (ok ())\<rparr>)"
| check_go: "pf_pump s = PCheck \<Longrightarrow> \<not> pf_stop s \<Longrightarrow> pf_step s (s\<lparr>pf_pump := PNext\<rparr>)"
| next_item: "pf_pump s = PNext \<Longrightarrow> pf_items s = x # xs
    \<Longrightarrow> pf_step s (s\<lparr>pf_items := xs, pf_taken := pf_taken s @ [x], pf_pump := PPut x\<rparr>)"
| next_end: "pf_pump s = PNext \<Longrightarrow> pf_items s = [] \<Longrightarrow> pf_step s (s\<lparr>pf_pump := PClose (pf_end s)\<rparr>)"
| put: "pf_pump s = PPut x \<Longrightarrow> \<not> pf_stop s \<Longrightarrow> pf_queue s = None
    \<Longrightarrow> pf_step s (s\<lparr>pf_queue := Some (Tensor x), pf_pump := PLoop\<rparr>)"
| put_stop: "pf_pump s = PPut x \<Longrightarrow> pf_stop s \<Longrightarrow> pf_step s (s\<lparr>pf_pump := PLoop\<rparr>)"
| close_it: "pf_pump s = PClose r \<Longrightarrow> pf_step s (s\<lparr>pf_pump := PFinal (closed_as (pf_close s) r)\<rparr>)"
| final: "pf_pump s = PFinal r \<Longrightarrow> \<not> pf_stop s \<Longrightarrow> pf_queue s = None
    \<Longrightarrow> pf_step s (s\<lparr>pf_queue := Some (terminal_msg r), pf_pump := PEnd\<rparr>)"
| final_stop: "pf_pump s = PFinal r \<Longrightarrow> pf_stop s \<Longrightarrow> pf_step s (s\<lparr>pf_pump := PEnd\<rparr>)"
| get: "pf_cons s = CGet \<Longrightarrow> pf_queue s = Some m \<Longrightarrow> pf_step s (s\<lparr>pf_queue := None, pf_cons := CGot m\<rparr>)"
| got_tensor: "pf_cons s = CGot (Tensor x)
    \<Longrightarrow> pf_step s (s\<lparr>pf_slot := pf_slot s + 1, pf_out := pf_out s @ [x], pf_cons := CYield\<rparr>)"
| got_done: "pf_cons s = CGot Done \<Longrightarrow> pf_step s (s\<lparr>pf_slot := pf_slot s + 1, pf_cons := CStop Finished\<rparr>)"
| got_error: "pf_cons s = CGot (Error e) \<Longrightarrow> pf_step s (s\<lparr>pf_slot := pf_slot s + 1, pf_cons := CStop (Raised e)\<rparr>)"
| resume: "pf_cons s = CYield \<Longrightarrow> pf_step s (s\<lparr>pf_cons := CGet\<rparr>)"
| close_gen: "pf_cons s = CYield \<Longrightarrow> pf_step s (s\<lparr>pf_cons := CStop Closed\<rparr>)"
| set_stop: "pf_cons s = CStop out \<Longrightarrow> pf_step s (s\<lparr>pf_stop := True, pf_cons := CJoin out\<rparr>)"
| join: "pf_cons s = CJoin out \<Longrightarrow> pf_pump s = PEnd \<Longrightarrow> pf_step s (s\<lparr>pf_cons := CDone out\<rparr>)"
| join_timeout: "pf_cons s = CJoin out \<Longrightarrow> pf_pump s \<noteq> PEnd \<Longrightarrow> pf_step s (s\<lparr>pf_cons := CDone NotStopped\<rparr>)"

inductive_cases pf_stepE: "pf_step s s'"

section \<open>Invariants\<close>

text \<open>What is on its way from the iterator to the consumer.\<close>

definition putting :: "'a prefetch \<Rightarrow> 'a list" where
  "putting s = (case pf_pump s of PPut x \<Rightarrow> [x] | _ \<Rightarrow> [])"

definition queued :: "'a prefetch \<Rightarrow> 'a list" where
  "queued s = (case pf_queue s of Some (Tensor x) \<Rightarrow> [x] | _ \<Rightarrow> [])"

definition held :: "'a prefetch \<Rightarrow> 'a list" where
  "held s = (case pf_cons s of CGot (Tensor x) \<Rightarrow> [x] | _ \<Rightarrow> [])"

text \<open>The slot is free, or taken by the pump, a message in the queue or the consumer.\<close>

definition slot_user :: "'a prefetch \<Rightarrow> nat" where
  "slot_user s = (case pf_pump s of PLoop \<Rightarrow> 0 | PEnd \<Rightarrow> 0 | _ \<Rightarrow> 1)
     + (case pf_queue s of None \<Rightarrow> 0 | Some _ \<Rightarrow> 1) + (case pf_cons s of CGot _ \<Rightarrow> 1 | _ \<Rightarrow> 0)"

definition advancing :: "'a prefetch \<Rightarrow> nat" where
  "advancing s = (if pf_pump s = PCheck \<or> pf_pump s = PNext then 1 else 0)"

definition ended_as :: "'a list \<Rightarrow> 'a prefetch \<Rightarrow> unit res \<Rightarrow> bool" where
  "ended_as xs s r = (pf_items s = [] \<and> r = closed_as (pf_close s) (pf_end s))"

definition outcome_ok :: "'a list \<Rightarrow> 'a prefetch \<Rightarrow> outcome \<Rightarrow> bool" where
  "outcome_ok xs s out =
     (case out of
        Finished \<Rightarrow> pf_out s = xs \<and> closed_as (pf_close s) (pf_end s) = ok ()
      | Raised e \<Rightarrow> pf_out s = xs \<and> closed_as (pf_close s) (pf_end s) = err e
      | Closed \<Rightarrow> True
      | NotStopped \<Rightarrow> False)"

text \<open>While the consumer runs, and once it has asked the pump to stop.\<close>

definition running_inv :: "'a list \<Rightarrow> 'a prefetch \<Rightarrow> bool" where
  "running_inv xs s =
     (pf_taken s = pf_out s @ held s @ queued s @ putting s \<and> pf_slot s + slot_user s = 1
      \<and> (case pf_pump s of PClose r \<Rightarrow> pf_items s = [] \<and> r = pf_end s | PFinal r \<Rightarrow> ended_as xs s r
         | PEnd \<Rightarrow> (\<exists>r. ended_as xs s r \<and> (pf_queue s = Some (terminal_msg r) \<or> pf_cons s = CGot (terminal_msg r)
              \<or> pf_cons s = CStop (case r of Inl e \<Rightarrow> Raised e | Inr _ \<Rightarrow> Finished))) | _ \<Rightarrow> True)
      \<and> (case pf_queue s of Some Done \<Rightarrow> pf_pump s = PEnd | Some (Error e) \<Rightarrow> pf_pump s = PEnd | _ \<Rightarrow> True)
      \<and> (case pf_cons s of CGot Done \<Rightarrow> pf_pump s = PEnd | CGot (Error e) \<Rightarrow> pf_pump s = PEnd
         | CStop out \<Rightarrow> out = Closed \<or> pf_pump s = PEnd \<and> outcome_ok xs s out | CJoin _ \<Rightarrow> False | CDone _ \<Rightarrow> False | _ \<Rightarrow> True))"

definition stopped_inv :: "'a list \<Rightarrow> 'a prefetch \<Rightarrow> bool" where
  "stopped_inv xs s = (prefix (pf_out s) (pf_taken s)
     \<and> (case pf_cons s of CJoin out \<Rightarrow> outcome_ok xs s out
        | CDone out \<Rightarrow> (outcome_ok xs s out \<and> pf_pump s = PEnd) \<or> out = NotStopped | _ \<Rightarrow> False))"

definition pf_inv :: "'a list \<Rightarrow> 'a prefetch \<Rightarrow> bool" where
  "pf_inv xs s = (xs = pf_taken s @ pf_items s \<and> length (pf_taken s) + advancing s \<le> length (pf_out s) + 1
     \<and> (if pf_stop s then stopped_inv xs s else running_inv xs s))"

lemmas pf_defs = pf_inv_def running_inv_def stopped_inv_def putting_def queued_def held_def slot_user_def advancing_def ended_as_def

lemma pf_inv_init: "pf_inv xs (prefetch_init xs fin cl)"
  by (simp add: pf_defs prefetch_init_def)

lemma pf_inv_step: "pf_step s s' \<Longrightarrow> pf_inv xs s \<Longrightarrow> pf_inv xs s'"
proof (induction rule: pf_step.induct)
  case (acquire s)
  then show ?case by (auto simp: pf_defs split: option.splits msg.splits cons_pc.splits)
next
  case (loop_stop s)
  then show ?case by (auto simp: pf_defs outcome_ok_def split: cons_pc.splits outcome.splits)
next
  case (check_stop s)
  then show ?case by (auto simp: pf_defs outcome_ok_def split: cons_pc.splits outcome.splits)
next
  case (check_go s)
  then show ?case by (auto simp: pf_defs split: option.splits msg.splits cons_pc.splits)
next
  case (next_item s x ys)
  then show ?case by (auto simp: pf_defs outcome_ok_def split: option.splits msg.splits cons_pc.splits outcome.splits if_splits)
next
  case (next_end s)
  then show ?case by (auto simp: pf_defs outcome_ok_def split: option.splits msg.splits cons_pc.splits outcome.splits if_splits)
next
  case (put s x)
  then show ?case by (auto simp: pf_defs split: option.splits msg.splits cons_pc.splits)
next
  case (put_stop s x)
  then show ?case by (auto simp: pf_defs outcome_ok_def split: cons_pc.splits outcome.splits)
next
  case (close_it s r)
  then show ?case by (auto simp: pf_defs outcome_ok_def split: option.splits msg.splits cons_pc.splits outcome.splits if_splits)
next
  case (final s r)
  then show ?case by (auto simp: pf_defs outcome_ok_def terminal_msg_def split: option.splits msg.splits cons_pc.splits sum.splits)
next
  case (final_stop s r)
  then show ?case by (auto simp: pf_defs outcome_ok_def split: cons_pc.splits outcome.splits)
next
  case (get s m)
  then show ?case by (auto simp: pf_defs split: pump_pc.splits msg.splits if_splits)
next
  case (got_tensor s x)
  then show ?case by (auto simp: pf_defs outcome_ok_def terminal_msg_def split: option.splits pump_pc.splits msg.splits if_splits sum.splits)
next
  case (got_done s)
  then show ?case by (auto simp: pf_defs outcome_ok_def terminal_msg_def split: option.splits pump_pc.splits msg.splits if_splits sum.splits)
next
  case (got_error s e)
  then show ?case by (auto simp: pf_defs outcome_ok_def terminal_msg_def split: option.splits pump_pc.splits msg.splits if_splits sum.splits)
next
  case (resume s)
  then show ?case by (auto simp: pf_defs split: option.splits pump_pc.splits msg.splits if_splits)
next
  case (close_gen s)
  then show ?case by (auto simp: pf_defs split: option.splits pump_pc.splits msg.splits if_splits)
next
  case (set_stop s out)
  have "\<not> pf_stop s" using set_stop by (auto simp: pf_inv_def stopped_inv_def)
  then have run: "running_inv xs s" using set_stop.prems unfolding pf_inv_def by argo
  then have "prefix (pf_out s) (pf_taken s)" by (simp add: running_inv_def)
  moreover have "outcome_ok xs (s\<lparr>pf_stop := True, pf_cons := CJoin out\<rparr>) out"
  proof -
    have "out = Closed \<or> outcome_ok xs s out" using run set_stop.hyps by (simp add: running_inv_def) blast
    then show ?thesis by (cases out) (simp_all add: outcome_ok_def)
  qed
  ultimately show ?case using set_stop.prems by (simp add: pf_inv_def stopped_inv_def advancing_def)
next
  case (join s out)
  then show ?case by (auto simp: pf_defs outcome_ok_def split: if_splits outcome.splits)
next
  case (join_timeout s out)
  then show ?case by (auto simp: pf_defs split: if_splits)
qed


section \<open>No state is stuck, every run ends\<close>

lemma pf_progress:
  assumes "pf_inv xs s" and "\<forall>out. pf_cons s \<noteq> CDone out"
  shows "\<exists>s'. pf_step s s'"
proof (cases "pf_cons s")
  case CGet
  then have run: "running_inv xs s" using assms(1) by (auto simp: pf_inv_def stopped_inv_def split: if_splits)
  have go: "\<not> pf_stop s" using assms(1) CGet by (auto simp: pf_inv_def stopped_inv_def split: if_splits)
  show ?thesis
  proof (cases "pf_queue s")
    case None
    show ?thesis
    proof (cases "pf_pump s")
      case PLoop
      then have "0 < pf_slot s" using run None CGet by (simp add: running_inv_def slot_user_def)
      then show ?thesis using acquire [OF PLoop go] by blast
    next
      case PNext
      then show ?thesis using next_item [OF PNext] next_end [OF PNext] by (cases "pf_items s") blast+
    next
      case PEnd
      then show ?thesis using run None CGet by (auto simp: running_inv_def)
    qed (use go None in \<open>blast intro: pf_step.intros\<close>)+
  qed (use CGet in \<open>blast intro: pf_step.intros\<close>)
next
  case (CGot m)
  then show ?thesis by (cases m) (blast intro: pf_step.intros)+
next
  case (CJoin out)
  then show ?thesis by (cases "pf_pump s = PEnd") (blast intro: pf_step.intros)+
qed (use assms(2) in \<open>blast intro: pf_step.intros\<close>)+

text \<open>A rank that every step lowers.\<close>

definition pump_rank :: "'a pump_pc \<Rightarrow> nat" where
  "pump_rank pc = (case pc of PLoop \<Rightarrow> 12 | PCheck \<Rightarrow> 11 | PNext \<Rightarrow> 10 | PPut _ \<Rightarrow> 20 | PClose _ \<Rightarrow> 9 | PFinal _ \<Rightarrow> 8 | PEnd \<Rightarrow> 0)"

definition cons_rank :: "'a cons_pc \<Rightarrow> nat" where
  "cons_rank pc = (case pc of CGet \<Rightarrow> 3 | CGot _ \<Rightarrow> 9 | CYield \<Rightarrow> 8 | CStop _ \<Rightarrow> 2 | CJoin _ \<Rightarrow> 1 | CDone _ \<Rightarrow> 0)"

definition pf_rank :: "'a prefetch \<Rightarrow> nat" where
  "pf_rank s = 11 * length (pf_items s) + pump_rank (pf_pump s) + (case pf_queue s of None \<Rightarrow> 0 | Some _ \<Rightarrow> 7) + cons_rank (pf_cons s)"

lemma pf_step_rank: "pf_step s s' \<Longrightarrow> pf_rank s' < pf_rank s"
  by (induction rule: pf_step.induct) (auto simp: pf_rank_def pump_rank_def cons_rank_def split: option.splits)

lemma pf_inv_reachable: "pf_step\<^sup>*\<^sup>* (prefetch_init xs fin cl) s \<Longrightarrow> pf_inv xs s"
  by (induction rule: rtranclp_induct) (auto intro: pf_inv_init pf_inv_step)

lemma pf_constants: "pf_step\<^sup>*\<^sup>* (prefetch_init xs fin cl) s \<Longrightarrow> pf_end s = fin \<and> pf_close s = cl"
proof (induction rule: rtranclp_induct)
  case (step s s')
  from step(2,3) show ?case by (induction rule: pf_step.induct) auto
qed (simp add: prefetch_init_def)

text \<open>
  C25: The read-ahead hands over exactly what the iterator produces. In every interleaving of the pump and
  the consumer, the tensors yielded are a prefix of the iterator's and the pump is at most one ahead;
  the generator finishes normally only after all of them, with the iterator exhausted and closed
  without error; an exception of the iterator or of closing it is raised after all of them; however the
  generator ends, closed early by its caller included, the pump has ended, unless the join timed out,
  which is reported as such; no state is stuck before the consumer has ended, and every step lowers a rank, so that every run ends.
\<close>

theorem prefetch_hands_over:
  assumes "pf_step\<^sup>*\<^sup>* (prefetch_init xs fin cl) s"
  shows "prefix (pf_out s) xs \<and> length (pf_taken s) \<le> length (pf_out s) + 1
     \<and> (pf_cons s = CDone Finished \<longrightarrow> pf_out s = xs \<and> fin = ok () \<and> cl = ok ())
     \<and> (\<forall>e. pf_cons s = CDone (Raised e) \<longrightarrow> pf_out s = xs \<and> (cl = err e \<or> cl = ok () \<and> fin = err e))
     \<and> (\<forall>out. pf_cons s = CDone out \<and> out \<noteq> NotStopped \<longrightarrow> pf_pump s = PEnd)
     \<and> ((\<forall>out. pf_cons s \<noteq> CDone out) \<longrightarrow> (\<exists>s'. pf_step s s'))
     \<and> (\<forall>s'. pf_step s s' \<longrightarrow> pf_rank s' < pf_rank s)"
proof -
  have inv: "pf_inv xs s" using assms by (rule pf_inv_reachable)
  note const = pf_constants [OF assms]
  have "prefix (pf_out s) (pf_taken s)"
    using inv by (auto simp: pf_inv_def running_inv_def stopped_inv_def split: if_splits)
  moreover have "xs = pf_taken s @ pf_items s" using inv by (simp add: pf_inv_def)
  ultimately have "prefix (pf_out s) xs" by (simp add: prefix_prefix)
  moreover have "length (pf_taken s) \<le> length (pf_out s) + 1" using inv by (simp add: pf_inv_def)
  moreover have "outcome_ok xs s out \<and> pf_pump s = PEnd" if "pf_cons s = CDone out" "out \<noteq> NotStopped" for out
    using inv that by (auto simp: pf_inv_def running_inv_def stopped_inv_def split: if_splits)
  then have "pf_cons s = CDone Finished \<longrightarrow> pf_out s = xs \<and> fin = ok () \<and> cl = ok ()"
    and "\<forall>e. pf_cons s = CDone (Raised e) \<longrightarrow> pf_out s = xs \<and> (cl = err e \<or> cl = ok () \<and> fin = err e)"
    and "\<forall>out. pf_cons s = CDone out \<and> out \<noteq> NotStopped \<longrightarrow> pf_pump s = PEnd"
    using const by (auto simp: outcome_ok_def closed_as_def split: sum.splits)
  ultimately show ?thesis using pf_progress [OF inv] pf_step_rank by blast
qed

definition demo_end :: "nat prefetch" where
  "demo_end = \<lparr>pf_items = [], pf_end = ok (), pf_close = ok (), pf_queue = None, pf_slot = 1, pf_stop = True, pf_pump = PEnd,
     pf_cons = CDone Finished, pf_taken = [5], pf_out = [5]\<rparr>"

theorem prefetch_hands_over_witness:
  "pf_step\<^sup>*\<^sup>* (prefetch_init [5] (ok ()) (ok ())) demo_end \<and> pf_out demo_end = [5]"
proof -
  let ?s = "prefetch_init [5 :: nat] (ok ()) (ok ())"
  have chain: "\<And>a b c. pf_step a b \<Longrightarrow> b = c \<Longrightarrow> pf_step a c" by simp
  define s1 where "s1 = ?s\<lparr>pf_slot := 0, pf_pump := PCheck\<rparr>"
  define s2 where "s2 = s1\<lparr>pf_pump := PNext\<rparr>"
  define s3 where "s3 = s2\<lparr>pf_items := [], pf_taken := [5], pf_pump := PPut 5\<rparr>"
  define s4 where "s4 = s3\<lparr>pf_queue := Some (Tensor 5), pf_pump := PLoop\<rparr>"
  define s5 where "s5 = s4\<lparr>pf_queue := None, pf_cons := CGot (Tensor 5)\<rparr>"
  define s6 where "s6 = s5\<lparr>pf_slot := 1, pf_out := [5], pf_cons := CYield\<rparr>"
  define s7 where "s7 = s6\<lparr>pf_cons := CGet\<rparr>"
  define s8 where "s8 = s7\<lparr>pf_slot := 0, pf_pump := PCheck\<rparr>"
  define s9 where "s9 = s8\<lparr>pf_pump := PNext\<rparr>"
  define s10 where "s10 = s9\<lparr>pf_pump := PClose (ok ())\<rparr>"
  define s11 where "s11 = s10\<lparr>pf_pump := PFinal (ok ())\<rparr>"
  define s12 where "s12 = s11\<lparr>pf_queue := Some Done, pf_pump := PEnd\<rparr>"
  define s13 where "s13 = s12\<lparr>pf_queue := None, pf_cons := CGot Done\<rparr>"
  define s14 where "s14 = s13\<lparr>pf_slot := 1, pf_cons := CStop Finished\<rparr>"
  define s15 where "s15 = s14\<lparr>pf_stop := True, pf_cons := CJoin Finished\<rparr>"
  note d = prefetch_init_def s1_def s2_def s3_def s4_def s5_def s6_def s7_def s8_def s9_def s10_def s11_def s12_def s13_def s14_def s15_def
  have "pf_step ?s s1" by (rule chain [OF acquire]) (simp_all add: d)
  moreover have "pf_step s1 s2" by (rule chain [OF check_go]) (simp_all add: d)
  moreover have "pf_step s2 s3" by (rule chain [OF next_item [where x = 5 and xs = "[]"]]) (simp_all add: d)
  moreover have "pf_step s3 s4" by (rule chain [OF put [where x = 5]]) (simp_all add: d)
  moreover have "pf_step s4 s5" by (rule chain [OF get [where m = "Tensor 5"]]) (simp_all add: d)
  moreover have "pf_step s5 s6" by (rule chain [OF got_tensor [where x = 5]]) (simp_all add: d)
  moreover have "pf_step s6 s7" by (rule chain [OF resume]) (simp_all add: d)
  moreover have "pf_step s7 s8" by (rule chain [OF acquire]) (simp_all add: d)
  moreover have "pf_step s8 s9" by (rule chain [OF check_go]) (simp_all add: d)
  moreover have "pf_step s9 s10" by (rule chain [OF next_end]) (simp_all add: d)
  moreover have "pf_step s10 s11" by (rule chain [OF close_it [where r = "ok ()"]]) (simp_all add: d closed_as_def)
  moreover have "pf_step s11 s12" by (rule chain [OF final [where r = "ok ()"]]) (simp_all add: d terminal_msg_def)
  moreover have "pf_step s12 s13" by (rule chain [OF get [where m = Done]]) (simp_all add: d)
  moreover have "pf_step s13 s14" by (rule chain [OF got_done]) (simp_all add: d)
  moreover have "pf_step s14 s15" by (rule chain [OF set_stop [where out = Finished]]) (simp_all add: d)
  moreover have "pf_step s15 demo_end" by (rule chain [OF join [where out = Finished]]) (simp_all add: d demo_end_def)
  ultimately have "pf_step\<^sup>*\<^sup>* ?s demo_end" by (meson converse_rtranclp_into_rtranclp rtranclp.rtrancl_refl)
  then show ?thesis using prefetch_hands_over [of "[5]" "ok ()" "ok ()" demo_end] by (simp add: demo_end_def)
qed

end
