(* ===== verification/Py_Values.thy ===== *)
theory Py_Values
  imports Complex_Main Py_Strings "HOL-Library.List_Lexorder" "HOL-Library.Char_ord"
begin

text \<open>
  The Python values a module of a model can have as attributes, as far as the loader tells them apart,
  with Python's equality on the JSON part and the copy through \<^verbatim>\<open>json.loads(canonical(v))\<close>.
\<close>

section \<open>Values\<close>

datatype pyfloat = Fin rat | Inf bool | NaN

text \<open>
  A sequence or a mapping carries the name of its type, so that \<^verbatim>\<open>type(v) is list\<close> is not \<^verbatim>\<open>isinstance(v, list)\<close>.
  A set is given by the \<^verbatim>\<open>repr\<close> of its elements; an object of another type by its type and identity.
\<close>

datatype pyval =
    PNone
  | PBool bool
  | PInt int
  | PFloat pyfloat
  | PStr string
  | PSeq string "pyval list"
  | PMap string "(pyval \<times> pyval) list"
  | PTensor nat "nat list" string
  | PSet "string list"
  | PObj string nat

fun is_str :: "pyval \<Rightarrow> bool" where
  "is_str (PStr _) = True"
| "is_str _ = False"

fun str_of :: "pyval \<Rightarrow> string" where
  "str_of (PStr s) = s"
| "str_of _ = []"

text \<open>\<^verbatim>\<open>simple\<close>: the values JSON can carry.\<close>

fun simple :: "pyval \<Rightarrow> bool" where
  "simple (PSeq t xs) = (t = ''list'' \<and> (\<forall>x \<in> set xs. simple x))"
| "simple (PMap t kvs) = (t = ''dict'' \<and> (\<forall>(k, x) \<in> set kvs. is_str k \<and> simple x))"
| "simple (PTensor _ _ _) = False"
| "simple (PSet _) = False"
| "simple (PObj _ _) = False"
| "simple _ = True"

text \<open>\<^verbatim>\<open>json.loads(canonical(v))\<close>: a copy in which every dictionary is in the order of its keys.\<close>

fun copied :: "pyval \<Rightarrow> pyval" where
  "copied (PSeq t xs) = PSeq ''list'' (map copied xs)"
| "copied (PMap t kvs) = PMap ''dict'' (sort_key (\<lambda>kv. str_of (fst kv)) (map (\<lambda>(k, x). (k, copied x)) kvs))"
| "copied v = v"

lemma simple_copied: "simple v \<Longrightarrow> simple (copied v)"
proof (induction v rule: copied.induct)
  case (2 t kvs)
  then show ?case by fastforce
qed auto

lemma copied_idem: "copied (copied v) = copied v"
proof (induction v rule: copied.induct)
  case (2 t kvs)
  let ?g = "\<lambda>(k, x). (k, copied x)" and ?key = "\<lambda>kv. str_of (fst kv)"
  have "map ?g (sort_key ?key (map ?g kvs)) = sort_key ?key (map ?g kvs)"
    by (rule map_idI) (use 2 in auto)
  then show ?case by (simp add: sort_key_id_if_sorted)
qed auto

section \<open>Equality of JSON values\<close>

text \<open>Numbers of different types are compared by value; a NaN equals nothing.\<close>

fun num :: "pyval \<Rightarrow> rat option" where
  "num (PBool b) = Some (if b then 1 else 0)"
| "num (PInt i) = Some (of_int i)"
| "num (PFloat (Fin q)) = Some q"
| "num _ = None"

fun py_eq :: "pyval \<Rightarrow> pyval \<Rightarrow> bool" and py_eqs :: "pyval list \<Rightarrow> pyval list \<Rightarrow> bool"
  and py_eqm :: "(pyval \<times> pyval) list \<Rightarrow> (pyval \<times> pyval) list \<Rightarrow> bool" where
  "py_eq (PSeq t xs) b = (case b of PSeq t' ys \<Rightarrow> t = t' \<and> py_eqs xs ys | _ \<Rightarrow> False)"
| "py_eq (PMap t kvs) b = (case b of PMap t' kvs' \<Rightarrow> t = t' \<and> py_eqm kvs kvs' | _ \<Rightarrow> False)"
| "py_eq PNone b = (b = PNone)"
| "py_eq (PStr s) b = (b = PStr s)"
| "py_eq (PFloat (Inf n)) b = (b = PFloat (Inf n))"
| "py_eq (PTensor i s d) b = (b = PTensor i s d)"
| "py_eq (PSet s) b = (b = PSet s)"
| "py_eq (PObj t i) b = (b = PObj t i)"
| "py_eq a b = (num a \<noteq> None \<and> num a = num b)"
| "py_eqs [] ys = (ys = [])"
| "py_eqs (x # xs) ys = (case ys of [] \<Rightarrow> False | y # ys' \<Rightarrow> py_eq x y \<and> py_eqs xs ys')"
| "py_eqm [] ys = (ys = [])"
| "py_eqm ((k, x) # xs) ys = (case ys of [] \<Rightarrow> False | (k', y) # ys' \<Rightarrow> k = k' \<and> py_eq x y \<and> py_eqm xs ys')"

end
