(* ===== verification/Artifact.thy ===== *)
theory Artifact
  imports Ckpt_Read Py_Values
begin

text \<open>
  Prepared weight artifacts (\<^verbatim>\<open>spark_nvme/artifact.py\<close>: \<^verbatim>\<open>inventory\<close>, \<^verbatim>\<open>publish\<close>, \<^verbatim>\<open>inspect\<close>, \<^verbatim>\<open>restore\<close>;
  \<^verbatim>\<open>transport.py\<close>: \<^verbatim>\<open>Extent\<close>, \<^verbatim>\<open>stream\<close>). An artifact is a directory with the storages of a model, cut into
  chunks that start at multiples of 4096, and a manifest. SHA-256 and the manifest digest are parameters.
  Theorems: an artifact that passes the inspection tiles every storage, and a restore that returns has
  verified every chunk and rebuilt the published storages, in whatever order the reads complete.
\<close>

section \<open>Models and their storages\<close>

text \<open>A named tensor of a model: its storage, its layout, and whether the storage can be copied raw.\<close>

record model_tensor =
  mo_name :: string
  mo_raw :: bool
  mo_device :: string
  mo_storage :: nat
  mo_dtype :: string
  mo_shape :: "nat list"
  mo_stride :: "nat list"
  mo_offset :: nat

text \<open>A model: its parameters and buffers, and the bytes of each storage by device and identity.\<close>

record model =
  ml_params :: "model_tensor list"
  ml_buffers :: "model_tensor list"
  ml_bytes :: "string \<times> nat \<Rightarrow> byte list"

record tensor_schema =
  ts_storage :: nat
  ts_dtype :: string
  ts_shape :: "nat list"
  ts_stride :: "nat list"
  ts_offset :: nat
  ts_bytes :: nat

type_synonym schema = "(string, tensor_schema) odict"

text \<open>One tensor of \<^verbatim>\<open>inventory\<close>: a storage seen for the first time is numbered next.\<close>

definition inventory_tensor :: "model \<Rightarrow> string \<times> model_tensor \<Rightarrow> schema \<times> (string \<times> nat) list \<Rightarrow> (schema \<times> (string \<times> nat) list) res" where
  "inventory_tensor m = (\<lambda>(name, t) (sch, groups).
     if \<not> mo_raw t then err ValueError
     else
       let key = (mo_device t, mo_storage t);
           groups' = (if key \<in> set groups then groups else groups @ [key]);
           idx = length (takeWhile (\<lambda>k. k \<noteq> key) groups')
       in ok (AList.update name \<lparr>ts_storage = idx, ts_dtype = mo_dtype t, ts_shape = mo_shape t, ts_stride = mo_stride t,
                ts_offset = mo_offset t, ts_bytes = length (ml_bytes m key)\<rparr> sch, groups'))"

definition named :: "model \<Rightarrow> (string, model_tensor) odict" where
  "named m = fold (\<lambda>t d. AList.update (mo_name t) t d) (ml_buffers m) (fold (\<lambda>t d. AList.update (mo_name t) t d) (ml_params m) [])"

text \<open>\<^verbatim>\<open>inventory\<close>: the schema by name, and the storages in the order of their numbers.\<close>

definition inventory :: "model \<Rightarrow> (schema \<times> (string \<times> nat) list) res" where
  "inventory m = fold_res (inventory_tensor m) (sort_key fst (named m)) ([], [])"

definition storages :: "model \<Rightarrow> (string \<times> nat) list \<Rightarrow> byte list list" where
  "storages m groups = map (ml_bytes m) groups"

section \<open>Publishing\<close>

record chunk =
  ck_storage :: int
  ck_start :: int
  ck_length :: int
  ck_offset :: int
  ck_sha :: string

record 'c manifest =
  mf_version :: int
  mf_phase :: string
  mf_contract :: 'c
  mf_schema :: schema
  mf_chunk_bytes :: int
  mf_chunks :: "chunk list"
  mf_storage_bytes :: "int list"
  mf_loader_state :: "(string, (string, pyval) odict) odict option"
  mf_file_bytes :: int

definition VERSION :: int where "VERSION = 1"
definition PHASE :: string where "PHASE = ''before-native-postprocess''"

text \<open>An artifact directory: the manifest with its digest, and the weights file.\<close>

record 'c artifact =
  af_manifest :: "'c manifest"
  af_id :: string
  af_weights :: "byte list"

text \<open>
  The padding after a chunk is one \<^verbatim>\<open>write\<close> whose count is not looked at; an answer cuts it short.
\<close>

fun pad_write :: "nat \<Rightarrow> unit fio" where
  "pad_write n (as, f) =
     (case next_count as n of
        (Inl e, as') \<Rightarrow> ((as', f), err e)
      | (Inr k, as') \<Rightarrow> if k < 0 then ((as', f), err OSError) else ((as', f @ replicate (nat k) 0), ok ()))"

definition publish_chunk :: "(byte list \<Rightarrow> string) \<Rightarrow> nat \<Rightarrow> nat \<Rightarrow> byte list \<Rightarrow> chunk list \<Rightarrow> chunk list fio" where
  "publish_chunk sha i start data chunks = (\<lambda>(as, f).
     let c = \<lparr>ck_storage = int i, ck_start = int start, ck_length = int (length data), ck_offset = int (length f), ck_sha = sha data\<rparr>
     in fseq (pwrite_all data (length f)) (\<lambda>_. fseq (pad_write (nat (align (int (length data))) - length data)) (\<lambda>_ s. (s, ok (chunks @ [c])))) (as, f))"

function publish_storage :: "(byte list \<Rightarrow> string) \<Rightarrow> nat \<Rightarrow> nat \<Rightarrow> byte list \<Rightarrow> nat \<Rightarrow> chunk list \<Rightarrow> chunk list fio" where
  "publish_storage sha cb i raw start chunks =
     (if start < length raw \<and> 0 < cb
      then fseq (publish_chunk sha i start (take cb (drop start raw)) chunks) (publish_storage sha cb i raw (start + cb))
      else (\<lambda>s. (s, ok chunks)))"
  by pat_completeness auto
termination
  by (relation "measure (\<lambda>(sha, cb, i, raw, start, chunks). length raw - start)") auto

fun publish_storages :: "(byte list \<Rightarrow> string) \<Rightarrow> nat \<Rightarrow> nat \<Rightarrow> byte list list \<Rightarrow> chunk list \<Rightarrow> chunk list fio" where
  "publish_storages sha cb i [] chunks = (\<lambda>s. (s, ok chunks))"
| "publish_storages sha cb i (raw # raws) chunks =
     fseq (publish_storage sha cb i raw 0 chunks) (publish_storages sha cb (i + 1) raws)"

text \<open>
  \<^verbatim>\<open>publish\<close>: the artifact appears under its path only by the final rename, complete; \<open>there\<close> is what the path
  holds before. \<open>ans\<close> are the answers to the writes; the fsyncs and the rename are taken to succeed.
\<close>

definition publish :: "(byte list \<Rightarrow> string) \<Rightarrow> ('c manifest \<Rightarrow> string) \<Rightarrow> model \<Rightarrow> 'c artifact option \<Rightarrow> 'c \<Rightarrow> int \<Rightarrow> schema option
    \<Rightarrow> (string, (string, pyval) odict) odict option \<Rightarrow> os_answer list \<Rightarrow> 'c artifact option \<times> 'c artifact res" where
  "publish sha dgst m there contract chunk_bytes expected loader_state ans =
     (if there \<noteq> None then (there, err FileExistsError)
      else case inventory m of
        Inl e \<Rightarrow> (there, err e)
      | Inr (sch, groups) \<Rightarrow>
          if expected \<noteq> None \<and> expected \<noteq> Some sch then (there, err ValueError)
          else if chunk_bytes \<le> 0 \<or> chunk_bytes mod 4096 \<noteq> 0 then (there, err ValueError)
          else (case publish_storages sha (nat chunk_bytes) 0 (storages m groups) [] (ans, []) of
              (_, Inl e) \<Rightarrow> (there, err e)
            | ((_, f), Inr chunks) \<Rightarrow>
                let mf = \<lparr>mf_version = VERSION, mf_phase = PHASE, mf_contract = contract, mf_schema = sch,
                          mf_chunk_bytes = chunk_bytes, mf_chunks = chunks,
                          mf_storage_bytes = map (int \<circ> length) (storages m groups),
                          mf_loader_state = loader_state, mf_file_bytes = int (length f)\<rparr>;
                    a = \<lparr>af_manifest = mf, af_id = dgst mf, af_weights = f\<rparr>
                in (Some a, ok a)))"

section \<open>Inspecting\<close>

text \<open>One chunk of the coverage check: the cursors of the storages and of the file.\<close>

definition inspect_chunk :: "int \<Rightarrow> chunk \<Rightarrow> int list \<times> int \<Rightarrow> (int list \<times> int) res" where
  "inspect_chunk chunk_bytes e = (\<lambda>(cursors, fc).
     let i = ck_storage e; n = ck_length e in
     if \<not> (0 \<le> i \<and> i < int (length cursors)) \<or> ck_start e \<noteq> cursors ! nat i then err ValueError
     else if \<not> (0 < n \<and> n \<le> chunk_bytes) \<or> ck_offset e \<noteq> fc then err ValueError
     else ok (cursors[nat i := cursors ! nat i + n], fc + align n))"

definition inspect_artifact :: "('c manifest \<Rightarrow> string) \<Rightarrow> 'c \<Rightarrow> 'c artifact option \<Rightarrow> 'c manifest res" where
  "inspect_artifact dgst contract there =
     (case there of
        None \<Rightarrow> err FileNotFoundError
      | Some a \<Rightarrow>
          let m = af_manifest a in
          if dgst m \<noteq> af_id a then err ValueError
          else if mf_version m \<noteq> VERSION \<or> mf_phase m \<noteq> PHASE then err ValueError
          else if mf_contract m \<noteq> contract then err ValueError
          else if int (length (af_weights a)) \<noteq> mf_file_bytes m then err ValueError
          else rbind (fold_res (inspect_chunk (mf_chunk_bytes m)) (mf_chunks m) (map (\<lambda>_. 0) (mf_storage_bytes m), 0))
            (\<lambda>(cursors, fc). if cursors \<noteq> mf_storage_bytes m \<or> fc \<noteq> mf_file_bytes m then err ValueError else ok m))"

section \<open>Restoring\<close>

text \<open>
  \<^verbatim>\<open>stream\<close>: the extents still to start, the reads in flight by staging slot, and the destination storages.
  A read in the pool waits for the copy out of its slot, so that a copy has its bytes.
\<close>

record xfer =
  xf_rest :: "chunk list"
  xf_pending :: "(nat \<times> chunk) list"
  xf_dest :: "byte list list"

text \<open>The pool's task: an aligned read of the whole extent, then the checksum.\<close>

definition read_extent :: "(byte list \<Rightarrow> string) \<Rightarrow> byte list \<Rightarrow> int \<Rightarrow> os_answer list \<Rightarrow> chunk \<Rightarrow> byte list res" where
  "read_extent sha f chunk_bytes as e =
     (if ck_offset e mod ALIGN \<noteq> 0 \<or> \<not> (0 < ck_length e \<and> ck_length e \<le> chunk_bytes) then err ValueError
      else rbind (read_exact f (nat (align (ck_length e))) (nat (ck_offset e)) [] as) (\<lambda>view.
        let data = take (nat (ck_length e)) view in
        if sha data \<noteq> ck_sha e then err ValueError else ok data))"

text \<open>The destination of an extent is a slice of its storage; Python cuts it at the storage's end.\<close>

definition dest_slice :: "byte list list \<Rightarrow> chunk \<Rightarrow> byte list" where
  "dest_slice dest e = pslice (dest ! nat (ck_storage e)) (nat (ck_start e)) (nat (ck_start e + ck_length e))"

text \<open>The consumer of a completed read; \<open>devs\<close> are the devices of the storages, \<open>dev\<close> that of the first extent.\<close>

definition copy_extent :: "string list \<Rightarrow> string \<Rightarrow> chunk \<Rightarrow> byte list \<Rightarrow> byte list list \<Rightarrow> byte list list res" where
  "copy_extent devs dev e data dest =
     (if int (length (dest_slice dest e)) \<noteq> ck_length e then err ValueError
      else if devs ! nat (ck_storage e) \<noteq> dev then err ValueError
      else ok (dest[nat (ck_storage e) := patch (dest ! nat (ck_storage e)) data (nat (ck_start e))]))"

text \<open>One completed read is taken out of the pending ones; its slot goes to the next extent, when there is one.\<close>

definition pick :: "nat \<Rightarrow> 'a list \<Rightarrow> nat" where
  "pick c xs = c mod length xs"

lemma pick_less: "xs \<noteq> [] \<Longrightarrow> pick c xs < length xs"
  by (simp add: pick_def)

definition without_nth :: "nat \<Rightarrow> 'a list \<Rightarrow> 'a list" where
  "without_nth i xs = take i xs @ drop (Suc i) xs"

lemma length_without_nth: "i < length xs \<Longrightarrow> length (without_nth i xs) = length xs - 1"
  by (simp add: without_nth_def)

definition refill :: "nat \<Rightarrow> xfer \<Rightarrow> xfer" where
  "refill slot x = (case xf_rest x of [] \<Rightarrow> x | e # rest \<Rightarrow> x\<lparr>xf_rest := rest, xf_pending := xf_pending x @ [(slot, e)]\<rparr>)"

lemma refill_size [simp]:
  "length (xf_rest (refill slot x)) + length (xf_pending (refill slot x)) = length (xf_rest x) + length (xf_pending x)"
  by (simp add: refill_def split: list.splits)

text \<open>\<open>choice\<close> is which read completes next, \<open>ans\<close> the answers of the system to the read of an extent.\<close>

function stream_loop :: "(byte list \<Rightarrow> string) \<Rightarrow> string list \<Rightarrow> string \<Rightarrow> byte list \<Rightarrow> int \<Rightarrow> (nat \<Rightarrow> nat) \<Rightarrow> (chunk \<Rightarrow> os_answer list) \<Rightarrow> nat
    \<Rightarrow> xfer \<Rightarrow> xfer \<times> unit res" where
  "stream_loop sha devs dev f chunk_bytes choice ans k x =
     (if xf_pending x = [] then (x, ok ())
      else
        let i = pick (choice k) (xf_pending x); e = snd (xf_pending x ! i);
            x1 = x\<lparr>xf_pending := without_nth i (xf_pending x)\<rparr>
        in case rbind (read_extent sha f chunk_bytes (ans e) e) (\<lambda>data. copy_extent devs dev e data (xf_dest x1)) of
             Inl ex \<Rightarrow> (x1, Inl ex)
           | Inr dest \<Rightarrow> stream_loop sha devs dev f chunk_bytes choice ans (k + 1) (refill (fst (xf_pending x ! i)) (x1\<lparr>xf_dest := dest\<rparr>)))"
  by pat_completeness auto
termination
proof (relation "measure (\<lambda>(sha, devs, dev, f, cb, choice, ans, k, x). length (xf_rest x) + length (xf_pending x))", goal_cases)
  case (2 sha devs dev f cb choice ans k x)
  then show ?case using pick_less [of "xf_pending x"] by (simp add: length_without_nth)
qed simp

text \<open>\<^verbatim>\<open>stream\<close>; \<open>opened\<close> is what opening the weights file does.\<close>

definition stream :: "(byte list \<Rightarrow> string) \<Rightarrow> string list \<Rightarrow> unit res \<Rightarrow> byte list \<Rightarrow> int \<Rightarrow> nat \<Rightarrow> (nat \<Rightarrow> nat) \<Rightarrow> (chunk \<Rightarrow> os_answer list)
    \<Rightarrow> chunk list \<Rightarrow> byte list list \<Rightarrow> byte list list \<times> unit res" where
  "stream sha devs opened f chunk_bytes depth choice ans extents dest =
     (if chunk_bytes \<le> 0 \<or> chunk_bytes mod ALIGN \<noteq> 0 \<or> \<not> (1 \<le> depth \<and> depth \<le> 128) then (dest, err ValueError)
      else case extents of
        [] \<Rightarrow> (dest, ok ())
      | first # _ \<Rightarrow>
          (case opened of
             Inl e \<Rightarrow> (dest, err e)
           | Inr _ \<Rightarrow>
               (case stream_loop sha devs (devs ! nat (ck_storage first)) f chunk_bytes choice ans 0
                       \<lparr>xf_rest = drop depth extents, xf_pending = zip [0..<depth] extents, xf_dest = dest\<rparr> of
                  (x, r) \<Rightarrow> (xf_dest x, r))))"

definition put_storages :: "model \<Rightarrow> (string \<times> nat) list \<Rightarrow> byte list list \<Rightarrow> model" where
  "put_storages m groups dest = m\<lparr>ml_bytes := \<lambda>key. case map_of (zip groups dest) key of None \<Rightarrow> ml_bytes m key | Some b \<Rightarrow> b\<rparr>"

text \<open>\<^verbatim>\<open>restore\<close> into a constructed model: the model afterwards, and how it ends.\<close>

definition restore :: "(byte list \<Rightarrow> string) \<Rightarrow> ('c manifest \<Rightarrow> string) \<Rightarrow> unit res \<Rightarrow> model \<Rightarrow> 'c artifact option \<Rightarrow> 'c \<Rightarrow> nat \<Rightarrow> (nat \<Rightarrow> nat)
    \<Rightarrow> (chunk \<Rightarrow> os_answer list) \<Rightarrow> model \<times> unit res" where
  "restore sha dgst opened m there contract depth choice ans =
     (case inspect_artifact dgst contract there of
        Inl e \<Rightarrow> (m, err e)
      | Inr mf \<Rightarrow>
          (case inventory m of
             Inl e \<Rightarrow> (m, err e)
           | Inr (sch, groups) \<Rightarrow>
               if sch \<noteq> mf_schema mf \<or> map (int \<circ> length) (storages m groups) \<noteq> mf_storage_bytes mf then (m, err ValueError)
               else
                 let f = (case there of None \<Rightarrow> [] | Some a \<Rightarrow> af_weights a);
                     (dest, r) = stream sha (map fst groups) opened f (mf_chunk_bytes mf) depth choice ans (mf_chunks mf) (storages m groups)
                 in (put_storages m groups dest, r)))"

section \<open>Chunks tile the storages\<close>

declare stream_loop.simps [simp del] publish_storage.simps [simp del]

text \<open>The bytes of its storage a chunk stands for, and its place in the file.\<close>

definition chunk_range :: "chunk \<Rightarrow> nat list" where
  "chunk_range e = [nat (ck_start e)..<nat (ck_start e + ck_length e)]"

definition of_storage :: "nat \<Rightarrow> chunk list \<Rightarrow> chunk list" where
  "of_storage i cs = filter (\<lambda>e. ck_storage e = int i) cs"

definition file_before :: "chunk \<Rightarrow> chunk \<Rightarrow> bool" where
  "file_before e e' = (ck_offset e + align (ck_length e) \<le> ck_offset e')"

definition tiles :: "int \<Rightarrow> int list \<Rightarrow> int \<Rightarrow> chunk list \<Rightarrow> bool" where
  "tiles chunk_bytes cursors fc cs =
     ((\<forall>i < length cursors. 0 \<le> cursors ! i \<and> concat (map chunk_range (of_storage i cs)) = [0..<nat (cursors ! i)])
      \<and> sorted_wrt file_before cs \<and> 0 \<le> fc \<and> ALIGN dvd fc
      \<and> (\<forall>e \<in> set cs. 0 \<le> ck_storage e \<and> ck_storage e < int (length cursors) \<and> 0 \<le> ck_start e
           \<and> 0 < ck_length e \<and> ck_length e \<le> chunk_bytes
           \<and> 0 \<le> ck_offset e \<and> ALIGN dvd ck_offset e \<and> ck_offset e + align (ck_length e) \<le> fc))"

lemma inspect_chunk_step:
  assumes "inspect_chunk cb e (cursors, fc) = ok (cursors', fc')" and "tiles cb cursors fc cs"
  shows "tiles cb cursors' fc' (cs @ [e]) \<and> length cursors' = length cursors"
proof -
  define i where "i = nat (ck_storage e)"
  have e: "ck_storage e = int i" "i < length cursors" "ck_start e = cursors ! i" "0 < ck_length e" "ck_length e \<le> cb" "ck_offset e = fc"
      and res: "cursors' = cursors[i := cursors ! i + ck_length e]" "fc' = fc + align (ck_length e)"
    using assms(1) by (auto simp: inspect_chunk_def Let_def i_def split: if_splits)
  have old: "\<And>j. j < length cursors \<Longrightarrow> 0 \<le> cursors ! j \<and> concat (map chunk_range (of_storage j cs)) = [0..<nat (cursors ! j)]"
    using assms(2) by (simp add: tiles_def)
  have fc: "0 \<le> fc" "ALIGN dvd fc" "\<forall>x \<in> set cs. ck_offset x + align (ck_length x) \<le> fc" using assms(2) by (simp_all add: tiles_def)
  have al: "0 < align (ck_length e)" "ALIGN dvd align (ck_length e)" using align_facts [of "ck_length e"] e(4) by simp_all
  have "0 \<le> cursors' ! j \<and> concat (map chunk_range (of_storage j (cs @ [e]))) = [0..<nat (cursors' ! j)]" if j: "j < length cursors'" for j
  proof (cases "j = i")
    case True
    have "[0..<nat (cursors ! i)] @ [nat (cursors ! i)..<nat (cursors ! i + ck_length e)] = [0..<nat (cursors ! i + ck_length e)]"
      using upt_add_eq_append [of 0 "nat (cursors ! i)" "nat (ck_length e)"] old [OF e(2)] e(4) by (simp add: nat_add_distrib)
    then show ?thesis using old [OF e(2)] e True res(1) by (simp add: of_storage_def chunk_range_def)
  next
    case False
    then show ?thesis using old [of j] j e(1) res(1) by (simp add: of_storage_def)
  qed
  moreover have "sorted_wrt file_before (cs @ [e])"
    using assms(2) fc(3) e(6) by (auto simp: tiles_def sorted_wrt_append file_before_def)
  moreover have "\<forall>x \<in> set (cs @ [e]). 0 \<le> ck_storage x \<and> ck_storage x < int (length cursors') \<and> 0 \<le> ck_start x \<and> 0 < ck_length x
      \<and> ck_length x \<le> cb \<and> 0 \<le> ck_offset x \<and> ALIGN dvd ck_offset x \<and> ck_offset x + align (ck_length x) \<le> fc'"
    using assms(2) e fc al res old [OF e(2)] by (fastforce simp: tiles_def)
  ultimately show ?thesis using fc al res by (simp add: tiles_def)
qed

lemma inspect_chunks:
  assumes "fold_res (inspect_chunk cb) cs (cursors, fc) = ok (cursors', fc')" and "tiles cb cursors fc done"
  shows "tiles cb cursors' fc' (done @ cs) \<and> length cursors' = length cursors"
  using assms
proof (induction cs arbitrary: cursors fc "done")
  case (Cons e cs)
  obtain c1 f1 where one: "inspect_chunk cb e (cursors, fc) = ok (c1, f1)" "fold_res (inspect_chunk cb) cs (c1, f1) = ok (cursors', fc')"
    using Cons.prems(1) by (auto simp: rbind_ok_iff)
  note step = inspect_chunk_step [OF one(1) Cons.prems(2)]
  show ?case using Cons.IH [OF one(2), of "done @ [e]"] step by simp
qed simp

lemma inspect_ok:
  assumes "inspect_artifact dgst contract (Some a) = ok m"
  shows "m = af_manifest a \<and> tiles (mf_chunk_bytes m) (mf_storage_bytes m) (mf_file_bytes m) (mf_chunks m)
     \<and> int (length (af_weights a)) = mf_file_bytes m \<and> mf_contract m = contract \<and> dgst m = af_id a"
proof -
  have m: "m = af_manifest a" "int (length (af_weights a)) = mf_file_bytes m" "mf_contract m = contract" "dgst m = af_id a"
    using assms by (auto simp: inspect_artifact_def Let_def rbind_ok_iff split: if_splits prod.splits)
  then have "rbind (fold_res (inspect_chunk (mf_chunk_bytes m)) (mf_chunks m) (map (\<lambda>_. 0) (mf_storage_bytes m), 0))
      (\<lambda>(cursors, fc). if cursors \<noteq> mf_storage_bytes m \<or> fc \<noteq> mf_file_bytes m then err ValueError else ok (af_manifest a)) = ok m"
    using assms by (simp add: inspect_artifact_def Let_def split: if_splits)
  then obtain st where st: "fold_res (inspect_chunk (mf_chunk_bytes m)) (mf_chunks m) (map (\<lambda>_. 0) (mf_storage_bytes m), 0) = ok st"
      "fst st = mf_storage_bytes m" "snd st = mf_file_bytes m"
    unfolding rbind_ok_iff by (auto split: if_splits prod.splits)
  then have run: "fold_res (inspect_chunk (mf_chunk_bytes m)) (mf_chunks m) (map (\<lambda>_. 0) (mf_storage_bytes m), 0)
      = ok (mf_storage_bytes m, mf_file_bytes m)" by (metis prod.collapse)
  have "tiles (mf_chunk_bytes m) (map (\<lambda>_. 0) (mf_storage_bytes m)) 0 []" by (simp add: tiles_def of_storage_def)
  from inspect_chunks [OF run this] show ?thesis using m by simp
qed

lemma tiles_distinct:
  assumes "tiles cb sb fc cs"
  shows "distinct cs"
proof -
  have "ck_offset e < ck_offset e'" if "file_before e e'" "e \<in> set cs" for e e'
    using assms that align_facts(1) [of "ck_length e"] by (fastforce simp: tiles_def file_before_def)
  moreover have "sorted_wrt file_before cs" using assms by (simp add: tiles_def)
  ultimately have "sorted_wrt (\<lambda>e e'. ck_offset e < ck_offset e') cs" by (metis (mono_tags, lifting) sorted_wrt_mono_rel)
  then show ?thesis by (induction cs) auto
qed

lemma distinct_concat_disjoint:
  "distinct (concat (map f xs)) \<Longrightarrow> x \<in> set xs \<Longrightarrow> y \<in> set xs \<Longrightarrow> x \<noteq> y \<Longrightarrow> set (f x) \<inter> set (f y) = {}"
  by (induction xs) fastforce+

lemma tiles_apart:
  assumes "tiles cb sb fc cs" and "e \<in> set cs" and "e' \<in> set cs" and "e \<noteq> e'" and "ck_storage e = ck_storage e'"
  shows "ck_start e + ck_length e \<le> ck_start e' \<or> ck_start e' + ck_length e' \<le> ck_start e"
proof -
  define i where "i = nat (ck_storage e)"
  have ee: "0 \<le> ck_storage e" "ck_storage e < int (length sb)" "0 \<le> ck_start e" "0 < ck_length e" "0 \<le> ck_start e'" "0 < ck_length e'"
    using assms(1-3) by (auto simp: tiles_def)
  then have i: "ck_storage e = int i" "ck_storage e' = int i" "i < length sb" using assms(5) by (auto simp: i_def)
  have "distinct (concat (map chunk_range (of_storage i cs)))" using assms(1) i(3) by (simp add: tiles_def)
  then have "set (chunk_range e) \<inter> set (chunk_range e') = {}"
    by (rule distinct_concat_disjoint) (use assms i in \<open>auto simp: of_storage_def\<close>)
  then have "{nat (ck_start e)..<nat (ck_start e + ck_length e)} \<inter> {nat (ck_start e')..<nat (ck_start e' + ck_length e')} = {}"
    by (simp add: chunk_range_def)
  then have "nat (ck_start e + ck_length e) \<le> nat (ck_start e') \<or> nat (ck_start e' + ck_length e') \<le> nat (ck_start e)"
    using ee by (metis (no_types, opaque_lifting) disjoint_iff atLeastLessThan_iff le_eq_less_or_eq nat_le_iff not_le_imp_less linorder_le_cases nat_less_eq_zless add.commute less_add_same_cancel1)
  then show ?thesis using ee by auto
qed

lemma tiles_in_storage:
  assumes "tiles cb sb fc cs" and "e \<in> set cs"
  shows "ck_start e + ck_length e \<le> sb ! nat (ck_storage e)"
proof -
  define i where "i = nat (ck_storage e)"
  have ee: "0 \<le> ck_storage e" "ck_storage e < int (length sb)" "0 \<le> ck_start e" "0 < ck_length e"
    using assms by (auto simp: tiles_def)
  then have i: "ck_storage e = int i" "i < length sb" by (auto simp: i_def)
  have "e \<in> set (of_storage i cs)" using assms(2) i(1) by (simp add: of_storage_def)
  moreover have "nat (ck_start e + ck_length e - 1) \<in> set (chunk_range e)" using ee by (auto simp: chunk_range_def)
  ultimately have "nat (ck_start e + ck_length e - 1) \<in> set (concat (map chunk_range (of_storage i cs)))" by auto
  moreover have "concat (map chunk_range (of_storage i cs)) = [0..<nat (sb ! i)]" using assms(1) i(2) by (simp add: tiles_def)
  ultimately have "nat (ck_start e + ck_length e - 1) < nat (sb ! i)" by simp
  then show ?thesis using ee by (simp add: i_def)
qed

lemma tiles_cover:
  assumes "tiles cb sb fc cs" and "i < length sb" and "int j < sb ! i"
  obtains e where "e \<in> set cs" "ck_storage e = int i" "ck_start e \<le> int j" "int j < ck_start e + ck_length e"
proof -
  have "j \<in> set [0..<nat (sb ! i)]" using assms(3) by simp
  moreover have "concat (map chunk_range (of_storage i cs)) = [0..<nat (sb ! i)]" using assms(1,2) by (simp add: tiles_def)
  ultimately have "j \<in> set (concat (map chunk_range (of_storage i cs)))" by argo
  then show thesis using that by (auto simp: of_storage_def chunk_range_def)
qed

section \<open>Restoring rebuilds every chunk\<close>

lemma read_exact_benign:
  assumes "benign as" and "read_at f off got" and "off + n \<le> length f"
  shows "\<exists>bs. read_exact f n off got as = ok bs"
  using assms
proof (induction f n off got as rule: read_exact.induct)
  case (1 f n off got as)
  show ?case
  proof (cases "length got < n")
    case True
    obtain bs as' where p: "pread_some as f (n - length got) (off + length got) = ok (bs, as')" "bs \<noteq> []" "benign as'"
      by (rule pread_some_progress [of as "n - length got" "off + length got" f]) (use 1 True in auto)
    have "read_at f off (got @ bs)"
      using 1(3) pread_some_ok(1) [OF p(1)] pread_append [of f "length got" off "length bs"]
      by (metis length_append read_at_def)
    from 1(1) [OF True p(1) refl p(2,3) this 1(4)] show ?thesis using True p by (simp add: read_exact.simps [of _ _ _ got])
  qed (simp add: read_exact.simps [of _ _ _ got])
qed

lemma read_extent_ok:
  assumes "read_extent sha f cb as e = ok data"
  shows "data = pread f (nat (ck_length e)) (nat (ck_offset e)) \<and> length data = nat (ck_length e) \<and> sha data = ck_sha e"
proof -
  obtain view where v: "read_exact f (nat (align (ck_length e))) (nat (ck_offset e)) [] as = ok view" "data = take (nat (ck_length e)) view"
      and s: "sha data = ck_sha e"
    using assms by (auto simp: read_extent_def rbind_ok_iff Let_def split: if_splits)
  have r: "read_at f (nat (ck_offset e)) view" "length view = nat (align (ck_length e))"
    using read_exact_ok [OF v(1) read_at_Nil] by simp_all
  have le: "nat (ck_length e) \<le> length view" using r(2) align_facts(1) [of "ck_length e"] by simp
  then have "take (nat (ck_length e)) (pread f (length view) (nat (ck_offset e))) = pread f (nat (ck_length e)) (nat (ck_offset e))"
    by (rule take_pread)
  then have "data = pread f (nat (ck_length e)) (nat (ck_offset e))" using r(1) v(2) by (metis read_at_def)
  moreover have "length data = nat (ck_length e)" using v(2) le by simp
  ultimately show ?thesis using s by blast
qed

lemma read_extent_benign:
  assumes "tiles cb sb fc cs" and "e \<in> set cs" and "fc = int (length f)" and "benign as"
    and "sha (pread f (nat (ck_length e)) (nat (ck_offset e))) = ck_sha e"
  shows "read_extent sha f cb as e = ok (pread f (nat (ck_length e)) (nat (ck_offset e)))"
proof -
  have e: "0 < ck_length e" "ck_length e \<le> cb" "0 \<le> ck_offset e" "ck_offset e mod ALIGN = 0" "ck_offset e + align (ck_length e) \<le> fc"
    using assms(1,2) by (auto simp: tiles_def)
  have al: "ck_length e \<le> align (ck_length e)" by (rule align_facts)
  have "nat (ck_offset e) + nat (align (ck_length e)) \<le> length f" using e al assms(3) by linarith
  then obtain view where v: "read_exact f (nat (align (ck_length e))) (nat (ck_offset e)) [] as = ok view"
    using read_exact_benign [OF assms(4) read_at_Nil] by blast
  have r: "read_at f (nat (ck_offset e)) view" "length view = nat (align (ck_length e))"
    using read_exact_ok [OF v read_at_Nil] by simp_all
  have le: "nat (ck_length e) \<le> length view" using r(2) al by simp
  then have "take (nat (ck_length e)) (pread f (length view) (nat (ck_offset e))) = pread f (nat (ck_length e)) (nat (ck_offset e))"
    by (rule take_pread)
  then have "take (nat (ck_length e)) view = pread f (nat (ck_length e)) (nat (ck_offset e))" using r(1) by (metis read_at_def)
  then show ?thesis using v e assms(5) by (simp add: read_extent_def Let_def)
qed

lemma patch_slices:
  assumes "a + length data \<le> length xs"
  shows "pslice (patch xs data a) a (a + length data) = data" "length (patch xs data a) = length xs"
    and "j \<le> a \<or> a + length data \<le> i \<Longrightarrow> pslice (patch xs data a) i j = pslice xs i j"
proof -
  have a: "length (take a xs) = a" using assms by simp
  show "pslice (patch xs data a) a (a + length data) = data" using a by (simp add: patch_def pslice_def)
  show "length (patch xs data a) = length xs" using assms by (simp add: length_patch)
  show "pslice (patch xs data a) i j = pslice xs i j" if "j \<le> a \<or> a + length data \<le> i"
  proof (rule nth_equalityI)
    show "length (pslice (patch xs data a) i j) = length (pslice xs i j)" using assms by (simp add: length_pslice length_patch)
    show "pslice (patch xs data a) i j ! k = pslice xs i j ! k" if "k < length (pslice (patch xs data a) i j)" for k
    proof -
      have k: "k < j - i" "i + k < length xs" using that assms by (auto simp: length_pslice length_patch)
      have "patch xs data a ! (i + k) = xs ! (i + k)"
        using k a \<open>j \<le> a \<or> a + length data \<le> i\<close> assms
        by (cases "i + k < a") (auto simp: patch_def nth_append)
      then show ?thesis using k assms by (simp add: pslice_def length_patch)
    qed
  qed
qed

text \<open>Storages of the sizes the manifest gives, and what one copy does to the chunks of a tiling.\<close>

definition sized :: "int list \<Rightarrow> byte list list \<Rightarrow> bool" where
  "sized sb dest = (map (int \<circ> length) dest = sb)"

lemma sized_nth: "sized sb dest \<Longrightarrow> i < length sb \<Longrightarrow> i < length dest \<and> int (length (dest ! i)) = sb ! i"
  by (auto simp: sized_def)

lemma copy_extent_step:
  assumes "tiles cb sb fc cs" and "sized sb dest" and "e \<in> set cs" and "length data = nat (ck_length e)"
    and "copy_extent devs dev e data dest = ok dest'"
  shows "sized sb dest' \<and> dest_slice dest' e = data \<and> (\<forall>e' \<in> set cs - {e}. dest_slice dest' e' = dest_slice dest e')"
proof -
  define i where "i = nat (ck_storage e)"
  have e: "0 \<le> ck_storage e" "i < length sb" "0 \<le> ck_start e" "0 < ck_length e"
    using assms(1,3) by (auto simp: tiles_def i_def)
  have i: "i < length dest" "int (length (dest ! i)) = sb ! i" using sized_nth [OF assms(2) e(2)] by simp_all
  have in_st: "nat (ck_start e) + length data \<le> length (dest ! i)"
    using tiles_in_storage [OF assms(1,3)] i(2) e assms(4) by (simp add: i_def)
  have end_eq: "nat (ck_start e + ck_length e) = nat (ck_start e) + length data" using e assms(4) by simp
  have d': "dest' = dest[i := patch (dest ! i) data (nat (ck_start e))]"
    using assms(5) by (auto simp: copy_extent_def i_def split: if_splits)
  note ps = patch_slices [OF in_st]
  have "map (int \<circ> length) dest' = (map (int \<circ> length) dest)[i := map (int \<circ> length) dest ! i]"
    using ps(2) i(1) by (simp add: d' map_update)
  then have "sized sb dest'" using assms(2) by (simp only: sized_def list_update_id)
  moreover have "dest_slice dest' e = data" using ps(1) i(1) end_eq by (simp add: dest_slice_def d' flip: i_def)
  moreover have "dest_slice dest' e' = dest_slice dest e'" if e': "e' \<in> set cs - {e}" for e'
  proof (cases "ck_storage e' = ck_storage e")
    case True
    have st: "0 \<le> ck_start e'" "0 < ck_length e'" using assms(1) e' by (auto simp: tiles_def)
    have "nat (ck_start e' + ck_length e') \<le> nat (ck_start e) \<or> nat (ck_start e) + length data \<le> nat (ck_start e')"
    proof -
      have "ck_start e + ck_length e \<le> ck_start e' \<or> ck_start e' + ck_length e' \<le> ck_start e"
        using e' True by (intro tiles_apart [OF assms(1,3)]) auto
      then show ?thesis unfolding end_eq [symmetric] by (metis nat_mono)
    qed
    then show ?thesis using ps(3) i(1) True by (simp add: dest_slice_def d' flip: i_def)
  next
    case False
    then have "nat (ck_storage e') \<noteq> i" using assms(1) e' e(1) by (auto simp: tiles_def i_def eq_nat_nat_iff)
    then show ?thesis by (simp add: dest_slice_def d')
  qed
  ultimately show ?thesis by blast
qed

lemma copy_extent_succeeds:
  assumes "tiles cb sb fc cs" and "sized sb dest" and "e \<in> set cs" and "devs ! nat (ck_storage e) = dev"
  shows "\<exists>dest'. copy_extent devs dev e data dest = ok dest'"
proof -
  define i where "i = nat (ck_storage e)"
  have e: "i < length sb" "0 \<le> ck_start e" "0 < ck_length e" using assms(1,3) by (auto simp: tiles_def i_def)
  have i: "int (length (dest ! i)) = sb ! i" using sized_nth [OF assms(2) e(1)] by simp
  then have "int (length (dest_slice dest e)) = ck_length e"
    using tiles_in_storage [OF assms(1,3)] e by (simp add: dest_slice_def length_pslice flip: i_def)
  then show ?thesis using assms(4) by (simp add: copy_extent_def)
qed

text \<open>The loop's invariant: \<open>D\<close> are the extents copied so far.\<close>

definition loaded :: "(byte list \<Rightarrow> string) \<Rightarrow> byte list \<Rightarrow> byte list list \<Rightarrow> chunk \<Rightarrow> bool" where
  "loaded sha f dest e = (dest_slice dest e = pread f (nat (ck_length e)) (nat (ck_offset e)) \<and> sha (dest_slice dest e) = ck_sha e)"

definition xfer_inv :: "(byte list \<Rightarrow> string) \<Rightarrow> byte list \<Rightarrow> int list \<Rightarrow> chunk list \<Rightarrow> chunk list \<Rightarrow> xfer \<Rightarrow> bool" where
  "xfer_inv sha f sb cs D x =
     (mset D + mset (map snd (xf_pending x)) + mset (xf_rest x) = mset cs
      \<and> (xf_pending x = [] \<longrightarrow> xf_rest x = []) \<and> sized sb (xf_dest x)
      \<and> (\<forall>e \<in> set D. loaded sha f (xf_dest x) e))"

lemma mset_without_nth: "i < length xs \<Longrightarrow> mset xs = add_mset (xs ! i) (mset (without_nth i xs))"
  by (metis id_take_nth_drop mset.simps(2) mset_append union_mset_add_mset_right without_nth_def)

lemma xfer_step:
  assumes "tiles cb sb fc cs" and "xfer_inv sha f sb cs D x" and "i < length (xf_pending x)" and "e = snd (xf_pending x ! i)"
    and "read_extent sha f cb as e = ok data" and "copy_extent devs dev e data (xf_dest x) = ok dest"
  shows "e \<in> set cs \<and> xfer_inv sha f sb cs (e # D) (refill slot (x\<lparr>xf_pending := without_nth i (xf_pending x), xf_dest := dest\<rparr>))"
proof -
  let ?p = "without_nth i (xf_pending x)"
  have pend: "mset (map snd (xf_pending x)) = add_mset e (mset (map snd ?p))"
    using mset_without_nth [OF assms(3)] assms(4) by (metis image_mset_add_mset mset_map)
  have all: "mset (e # D) + mset (map snd ?p) + mset (xf_rest x) = mset cs" using assms(2) pend by (simp add: xfer_inv_def)
  then have e: "e \<in> set cs" by (metis UnCI list.set_intros(1) set_mset_mset set_mset_union)
  have sub: "set D \<subseteq> set cs" using arg_cong [OF all, of set_mset] by auto
  note r = read_extent_ok [OF assms(5)]
  have "length data = nat (ck_length e)" using r by blast
  from copy_extent_step [OF assms(1) _ e this assms(6)] assms(2)
  have c: "sized sb dest" "dest_slice dest e = data" "\<forall>e' \<in> set cs - {e}. dest_slice dest e' = dest_slice (xf_dest x) e'"
    by (simp_all add: xfer_inv_def)
  have good: "\<forall>e' \<in> set (e # D). loaded sha f dest e'"
  proof
    fix e' assume "e' \<in> set (e # D)"
    then consider "e' = e" | "e' \<in> set D" "e' \<noteq> e" by auto
    then show "loaded sha f dest e'"
    proof cases
      case 1
      then show ?thesis using c(2) r by (metis loaded_def)
    next
      case 2
      then have "dest_slice dest e' = dest_slice (xf_dest x) e'" using c(3) sub by auto
      then show ?thesis using assms(2) 2 by (metis loaded_def xfer_inv_def)
    qed
  qed
  show ?thesis
  proof (cases "xf_rest x")
    case Nil
    then show ?thesis using all good c(1) e by (simp add: xfer_inv_def refill_def)
  next
    case (Cons a rest)
    then show ?thesis using all good c(1) e by (simp add: xfer_inv_def refill_def)
  qed
qed

lemmas stream_loop_step = trans [OF stream_loop.simps if_not_P]

lemma stream_loop_ok:
  assumes "tiles cb sb fc cs" and "xfer_inv sha f sb cs D x"
    and "stream_loop sha devs dev f cb choice ans k x = (x', r)"
  shows "(r = ok () \<longrightarrow> (\<exists>D'. mset D' = mset cs \<and> xfer_inv sha f sb cs D' x'))
     \<and> ((\<forall>e \<in> set cs. devs ! nat (ck_storage e) = dev \<and> (\<exists>data. read_extent sha f cb (ans e) e = ok data)) \<longrightarrow> r = ok ())"
  using assms(2,3)
proof (induction "length (xf_rest x) + length (xf_pending x)" arbitrary: x k D rule: less_induct)
  case less
  show ?case
  proof (cases "xf_pending x = []")
    case True
    then have "x' = x" "r = ok ()" using less.prems(2) by (simp_all add: stream_loop.simps)
    moreover have "mset D = mset cs" using True less.prems(1) unfolding xfer_inv_def by auto
    ultimately show ?thesis using less.prems(1) by blast
  next
    case False
    define i where "i = pick (choice k) (xf_pending x)"
    define e where "e = snd (xf_pending x ! i)"
    have i: "i < length (xf_pending x)" unfolding i_def by (rule pick_less [OF False])
    have e: "e \<in> set cs"
    proof -
      have "e \<in># mset (map snd (xf_pending x))" using i by (simp add: e_def)
      then show ?thesis using less.prems(1) by (metis UnCI set_mset_mset set_mset_union xfer_inv_def)
    qed
    show ?thesis
    proof (cases "rbind (read_extent sha f cb (ans e) e) (\<lambda>data. copy_extent devs dev e data (xf_dest x))")
      case (Inl ex)
      have "r = Inl ex" using less.prems(2) False Inl stream_loop_step [OF False, of sha devs dev f cb choice ans k]
        by (simp add: Let_def flip: i_def e_def)
      moreover have "\<not> (\<forall>e \<in> set cs. devs ! nat (ck_storage e) = dev \<and> (\<exists>data. read_extent sha f cb (ans e) e = ok data))"
      proof
        assume ass: "\<forall>e \<in> set cs. devs ! nat (ck_storage e) = dev \<and> (\<exists>data. read_extent sha f cb (ans e) e = ok data)"
        then obtain data where d: "read_extent sha f cb (ans e) e = ok data" using e by blast
        have sz: "sized sb (xf_dest x)" and dv: "devs ! nat (ck_storage e) = dev" using less.prems(1) ass e by (simp_all add: xfer_inv_def)
        obtain dest where "copy_extent devs dev e data (xf_dest x) = ok dest" using copy_extent_succeeds [OF assms(1) sz e dv] by blast
        then show False using Inl d by simp
      qed
      ultimately show ?thesis by blast
    next
      case (Inr dest)
      then obtain data where d: "read_extent sha f cb (ans e) e = ok data" "copy_extent devs dev e data (xf_dest x) = ok dest"
        by (auto simp: rbind_ok_iff)
      let ?x = "refill (fst (xf_pending x ! i)) (x\<lparr>xf_pending := without_nth i (xf_pending x), xf_dest := dest\<rparr>)"
      have step: "stream_loop sha devs dev f cb choice ans (k + 1) ?x = (x', r)"
        using less.prems(2) False Inr stream_loop_step [OF False, of sha devs dev f cb choice ans k]
        by (simp add: Let_def flip: i_def e_def)
      have inv: "xfer_inv sha f sb cs (e # D) ?x" using xfer_step [OF assms(1) less.prems(1) i e_def d] by blast
      have "length (xf_rest ?x) + length (xf_pending ?x) < length (xf_rest x) + length (xf_pending x)"
        using i by (simp add: length_without_nth)
      note this = less.hyps [OF this inv step]
      then show ?thesis by blast
    qed
  qed
qed

lemma stream_ok:
  assumes "tiles cb sb fc cs" and "sized sb dest" and "stream sha devs opened f cb depth choice ans cs dest = (dest', r)"
  shows "r = ok () \<longrightarrow> sized sb dest' \<and> (\<forall>e \<in> set cs. loaded sha f dest' e)"
    and "0 < cb \<and> cb mod ALIGN = 0 \<and> 1 \<le> depth \<and> depth \<le> 128 \<and> opened = ok ()
       \<and> (\<forall>e \<in> set cs. devs ! nat (ck_storage e) = devs ! nat (ck_storage (hd cs)) \<and> (\<exists>data. read_extent sha f cb (ans e) e = ok data))
       \<longrightarrow> r = ok ()"
proof -
  have both: "(r = ok () \<longrightarrow> sized sb dest' \<and> (\<forall>e \<in> set cs. loaded sha f dest' e))
    \<and> (0 < cb \<and> cb mod ALIGN = 0 \<and> 1 \<le> depth \<and> depth \<le> 128 \<and> opened = ok ()
       \<and> (\<forall>e \<in> set cs. devs ! nat (ck_storage e) = devs ! nat (ck_storage (hd cs)) \<and> (\<exists>data. read_extent sha f cb (ans e) e = ok data))
       \<longrightarrow> r = ok ())"
  proof (cases "cb \<le> 0 \<or> cb mod ALIGN \<noteq> 0 \<or> \<not> (1 \<le> depth \<and> depth \<le> 128) \<or> cs = [] \<or> opened \<noteq> ok ()")
    case True
    then show ?thesis using assms(2,3) by (cases opened; cases cs) (auto simp: stream_def split: if_splits)
  next
    case False
    let ?x = "\<lparr>xf_rest = drop depth cs, xf_pending = zip [0..<depth] cs, xf_dest = dest\<rparr>"
    obtain x' where loop: "stream_loop sha devs (devs ! nat (ck_storage (hd cs))) f cb choice ans 0 ?x = (x', r)" "dest' = xf_dest x'"
      using assms(3) False by (cases cs) (auto simp: stream_def split: if_splits prod.splits)
    have "map snd (zip [0..<depth] cs) = take depth cs" by (simp add: map_snd_zip_take min_def)
    then have "xfer_inv sha f sb cs [] ?x" using assms(2) False by (auto simp: xfer_inv_def simp del: mset_map simp flip: mset_append)
    note run = stream_loop_ok [OF assms(1) this loop(1)]
    have "sized sb dest' \<and> (\<forall>e \<in> set cs. loaded sha f dest' e)" if rok: "r = ok ()"
    proof -
      obtain D' where D': "mset D' = mset cs" "xfer_inv sha f sb cs D' x'" using conjunct1 [OF run] rok by blast
      have "set D' = set cs" using D'(1) by (rule mset_eq_setD)
      then show ?thesis using D'(2) loop(2) by (auto simp: xfer_inv_def)
    qed
    then show ?thesis using conjunct2 [OF run] by argo
  qed
  show "r = ok () \<longrightarrow> sized sb dest' \<and> (\<forall>e \<in> set cs. loaded sha f dest' e)" by (rule conjunct1 [OF both])
  show "0 < cb \<and> cb mod ALIGN = 0 \<and> 1 \<le> depth \<and> depth \<le> 128 \<and> opened = ok ()
       \<and> (\<forall>e \<in> set cs. devs ! nat (ck_storage e) = devs ! nat (ck_storage (hd cs)) \<and> (\<exists>data. read_extent sha f cb (ans e) e = ok data))
       \<longrightarrow> r = ok ()" by (rule conjunct2 [OF both])
qed

text \<open>Two sets of storages of the manifest's sizes are equal when they agree on every chunk.\<close>

lemma storages_equal:
  assumes "tiles cb sb fc cs" and "sized sb dest" and "sized sb dest'" and "\<forall>e \<in> set cs. dest_slice dest e = dest_slice dest' e"
  shows "dest = dest'"
proof (rule nth_equalityI)
  have len: "length dest = length sb" "length dest' = length sb" using assms(2,3) by (metis length_map sized_def)+
  then show "length dest = length dest'" by simp
  fix i assume "i < length dest"
  then have i: "i < length sb" using len by simp
  note sz = sized_nth [OF assms(2) i] sized_nth [OF assms(3) i]
  show "dest ! i = dest' ! i"
  proof (rule nth_equalityI)
    show "length (dest ! i) = length (dest' ! i)" using sz by linarith
    fix j assume j: "j < length (dest ! i)"
    then obtain e where e: "e \<in> set cs" "ck_storage e = int i" "ck_start e \<le> int j" "int j < ck_start e + ck_length e"
      using sz by (metis tiles_cover [OF assms(1) i] of_nat_less_iff)
    have st: "0 \<le> ck_start e" using assms(1) e(1) by (auto simp: tiles_def)
    have k: "j - nat (ck_start e) < nat (ck_start e + ck_length e) - nat (ck_start e)" "nat (ck_start e) + (j - nat (ck_start e)) = j"
      using e(3,4) st by auto
    have "dest_slice dest e ! (j - nat (ck_start e)) = dest ! i ! j"
      using k j e(2) by (simp add: dest_slice_def pslice_def)
    moreover have "dest_slice dest' e ! (j - nat (ck_start e)) = dest' ! i ! j"
      using k j e(2) sz by (simp add: dest_slice_def pslice_def)
    ultimately show "dest ! i ! j = dest' ! i ! j" using assms(4) e(1) by simp
  qed
qed

section \<open>Publishing writes what inspection expects\<close>

text \<open>Writes that are never cut below a page: every answer is at least 4096 bytes.\<close>

definition wide :: "os_answer list \<Rightarrow> bool" where
  "wide as = list_all (\<lambda>a. case a of Did n \<Rightarrow> 4096 \<le> n | Crashed \<Rightarrow> False) as"

lemma next_count_wide:
  assumes "wide as"
  obtains k as' where "next_count as n = (ok k, as')" "wide as'" "k \<le> int n" "min 4096 (int n) \<le> k"
proof (cases as)
  case Nil
  then show thesis using that [of "int n" "[]"] assms by simp
next
  case (Cons a as')
  then obtain m where "a = Did m" "4096 \<le> m" "wide as'" using assms by (cases a) (auto simp: wide_def)
  then show thesis using that [of "min m (int n)" as'] Cons by simp
qed

lemma pwrite_at_end: "pwrite f data (length f) = f @ data"
  by (simp add: pwrite_def)

lemma pwrite_all_wide:
  "wide as \<Longrightarrow> \<exists>as'. pwrite_all view (length f) (as, f) = ((as', f @ view), ok ()) \<and> wide as'"
proof (induction "length view" arbitrary: view f as rule: less_induct)
  case less
  show ?case
  proof (cases "view = []")
    case True
    then show ?thesis using less.prems by (simp add: pwrite_all.simps)
  next
    case False
    obtain k as' where k: "next_count as (length view) = (ok k, as')" "wide as'" "k \<le> int (length view)" "min 4096 (int (length view)) \<le> k"
      by (rule next_count_wide [OF less.prems])
    have pos: "0 < k" using k(4) False by (cases view) auto
    have f1: "pwrite f (take (nat k) view) (length f) = f @ take (nat k) view" by (rule pwrite_at_end)
    have l: "length (f @ take (nat k) view) = length f + nat k" using k(3) by simp
    have "length (drop (nat k) view) < length view" using pos False by (cases view) auto
    from less.hyps [OF this k(2), of "f @ take (nat k) view"]
    obtain as2 where "pwrite_all (drop (nat k) view) (length f + nat k) (as', f @ take (nat k) view) = ((as2, f @ view), ok ())" "wide as2"
      using l by auto
    then show ?thesis using False k(1) pos f1 by (subst pwrite_all.simps) simp
  qed
qed

lemma pad_write_wide:
  assumes "wide as" and "n < 4096"
  obtains as' where "pad_write n (as, f) = ((as', f @ replicate n 0), ok ())" "wide as'"
proof -
  obtain k as' where k: "next_count as n = (ok k, as')" "wide as'" "k \<le> int n" "min 4096 (int n) \<le> k" by (rule next_count_wide [OF assms(1)])
  then have "k = int n" using assms(2) by simp
  then show thesis using that k by simp
qed

text \<open>A chunk recorded for bytes that the file holds at its offset.\<close>

definition recorded :: "(byte list \<Rightarrow> string) \<Rightarrow> byte list list \<Rightarrow> byte list \<Rightarrow> chunk \<Rightarrow> bool" where
  "recorded sha raws f e =
     (0 \<le> ck_offset e \<and> 0 \<le> ck_length e \<and> nat (ck_offset e) + nat (ck_length e) \<le> length f
      \<and> pread f (nat (ck_length e)) (nat (ck_offset e)) = dest_slice raws e \<and> ck_sha e = sha (dest_slice raws e))"

lemma recorded_append: "recorded sha raws f e \<Longrightarrow> recorded sha raws (f @ g) e"
  by (auto simp: recorded_def pread_def)

lemma publish_chunk_wide:
  assumes "wide as" and "i < length raws" and "start < length (raws ! i)" and "0 < cb"
    and "length cursors = length raws" and "cursors ! i = int start"
  defines "data \<equiv> take cb (drop start (raws ! i))"
  obtains as' g e where "publish_chunk sha i start data chunks (as, f) = ((as', f @ g), ok (chunks @ [e]))" "wide as'"
    "recorded sha raws (f @ g) e"
    "inspect_chunk (int cb) e (cursors, int (length f)) = ok (cursors[i := int (min (start + cb) (length (raws ! i)))], int (length (f @ g)))"
proof -
  let ?e = "\<lparr>ck_storage = int i, ck_start = int start, ck_length = int (length data), ck_offset = int (length f), ck_sha = sha data\<rparr>"
  let ?pad = "nat (align (int (length data))) - length data"
  obtain as1 where w1: "pwrite_all data (length f) (as, f) = ((as1, f @ data), ok ())" "wide as1"
    using pwrite_all_wide [OF assms(1)] by blast
  have al: "int (length data) \<le> align (int (length data))" "align (int (length data)) < int (length data) + 4096"
    using align_facts [of "int (length data)"] by (simp_all add: ALIGN_def)
  have "?pad < 4096" using al by linarith
  then obtain as2 where w2: "pad_write ?pad (as1, f @ data) = ((as2, (f @ data) @ replicate ?pad 0), ok ())" "wide as2"
    by (rule pad_write_wide [OF w1(2)])
  have run: "publish_chunk sha i start data chunks (as, f) = ((as2, f @ data @ replicate ?pad 0), ok (chunks @ [?e]))"
    using w1(1) w2(1) by (simp add: publish_chunk_def fseq_def del: pad_write.simps)
  have len: "length data = min cb (length (raws ! i) - start)" "0 < length data" using assms(3,4) by (auto simp: data_def)
  have "dest_slice raws ?e = data"
    using assms(3,4) by (simp add: dest_slice_def pslice_def data_def min_def nat_int_add)
  then have rec: "recorded sha raws (f @ data @ replicate ?pad 0) ?e"
    by (simp add: recorded_def pread_def)
  have "int start + int (length data) = int (min (start + cb) (length (raws ! i)))" using assms(3) len by simp
  moreover have "int (length (f @ data @ replicate ?pad 0)) = int (length f) + align (int (length data))"
    using al by simp
  ultimately have "inspect_chunk (int cb) ?e (cursors, int (length f))
      = ok (cursors[i := int (min (start + cb) (length (raws ! i)))], int (length (f @ data @ replicate ?pad 0)))"
    using assms(2,5,6) len by (simp add: inspect_chunk_def Let_def)
  then show thesis using that [of as2 "data @ replicate ?pad 0" ?e] run w2(2) rec by blast
qed

lemma publish_storage_wide:
  assumes "wide as" and "i < length raws" and "0 < cb" and "length cursors = length raws" and "cursors ! i = int (min start (length (raws ! i)))"
  shows "\<exists>as' g new. publish_storage sha cb i (raws ! i) start chunks (as, f) = ((as', f @ g), ok (chunks @ new)) \<and> wide as'
     \<and> (\<forall>e \<in> set new. recorded sha raws (f @ g) e)
     \<and> fold_res (inspect_chunk (int cb)) new (cursors, int (length f)) = ok (cursors[i := int (length (raws ! i))], int (length (f @ g)))"
  using assms(1,4,5)
proof (induction "length (raws ! i) - start" arbitrary: start as f chunks cursors rule: less_induct)
  case less
  show ?case
  proof (cases "start < length (raws ! i)")
    case False
    then have "cursors[i := int (length (raws ! i))] = cursors" using less.prems(3) by (metis list_update_id min.absorb2 not_less)
    then show ?thesis using False less.prems(1)
      by (intro exI [of _ as] exI [of _ "[]"]) (simp add: publish_storage.simps [of _ _ _ _ start])
  next
    case True
    have cur: "cursors ! i = int start" using True less.prems(3) by simp
    obtain as1 g1 e where c: "publish_chunk sha i start (take cb (drop start (raws ! i))) chunks (as, f) = ((as1, f @ g1), ok (chunks @ [e]))"
        "wide as1" "recorded sha raws (f @ g1) e"
        "inspect_chunk (int cb) e (cursors, int (length f)) = ok (cursors[i := int (min (start + cb) (length (raws ! i)))], int (length (f @ g1)))"
      by (rule publish_chunk_wide [OF less.prems(1) assms(2) True assms(3) less.prems(2) cur])
    let ?c = "cursors[i := int (min (start + cb) (length (raws ! i)))]"
    have sm: "length (raws ! i) - (start + cb) < length (raws ! i) - start" using True assms(3) by simp
    have cu: "length ?c = length raws" "?c ! i = int (min (start + cb) (length (raws ! i)))" using less.prems(2) assms(2) by simp_all
    obtain as2 g2 new where r: "publish_storage sha cb i (raws ! i) (start + cb) (chunks @ [e]) (as1, f @ g1) = ((as2, (f @ g1) @ g2), ok ((chunks @ [e]) @ new))"
        "wide as2" "\<forall>e \<in> set new. recorded sha raws ((f @ g1) @ g2) e"
        "fold_res (inspect_chunk (int cb)) new (?c, int (length (f @ g1))) = ok (?c[i := int (length (raws ! i))], int (length ((f @ g1) @ g2)))"
      using less.hyps [OF sm c(2) cu] by blast
    have "publish_storage sha cb i (raws ! i) start chunks (as, f) = ((as2, f @ g1 @ g2), ok (chunks @ e # new))"
      using True assms(3) c(1) r(1) by (subst publish_storage.simps) (simp add: fseq_def)
    moreover have "\<forall>x \<in> set (e # new). recorded sha raws (f @ g1 @ g2) x"
      using recorded_append [OF c(3), of g2] r(3) by simp
    moreover have "fold_res (inspect_chunk (int cb)) (e # new) (cursors, int (length f)) = ok (cursors[i := int (length (raws ! i))], int (length (f @ g1 @ g2)))"
      using c(4) r(4) by simp
    ultimately show ?thesis using r(2) by blast
  qed
qed

lemma publish_storages_wide:
  assumes "wide as" and "0 < cb" and "length cursors = length raws" and "i \<le> length raws" and "\<forall>j < length raws. i \<le> j \<longrightarrow> cursors ! j = 0"
  shows "\<exists>as' g new. publish_storages sha cb i (drop i raws) chunks (as, f) = ((as', f @ g), ok (chunks @ new))
     \<and> (\<forall>e \<in> set new. recorded sha raws (f @ g) e)
     \<and> fold_res (inspect_chunk (int cb)) new (cursors, int (length f)) = ok (take i cursors @ drop i (map (int \<circ> length) raws), int (length (f @ g)))"
  using assms(1,3-5)
proof (induction "length raws - i" arbitrary: i as f chunks cursors)
  case 0
  then show ?case by (intro exI [of _ as] exI [of _ "[]"]) simp
next
  case (Suc n)
  have i: "i < length raws" using Suc.hyps(2) by simp
  have "cursors ! i = int (min 0 (length (raws ! i)))" using Suc.prems(4) i by simp
  from publish_storage_wide [OF Suc.prems(1) i assms(2) Suc.prems(2) this, of sha chunks f]
  obtain as1 g1 new1 where a: "publish_storage sha cb i (raws ! i) 0 chunks (as, f) = ((as1, f @ g1), ok (chunks @ new1))" "wide as1"
      "\<forall>e \<in> set new1. recorded sha raws (f @ g1) e"
      "fold_res (inspect_chunk (int cb)) new1 (cursors, int (length f)) = ok (cursors[i := int (length (raws ! i))], int (length (f @ g1)))"
    by blast
  let ?c = "cursors[i := int (length (raws ! i))]"
  have c: "length ?c = length raws" "Suc i \<le> length raws" "\<forall>j < length raws. Suc i \<le> j \<longrightarrow> ?c ! j = 0" using Suc.prems(2,4) i by auto
  have "n = length raws - Suc i" using Suc.hyps(2) by simp
  from Suc.hyps(1) [OF this a(2) c, of "chunks @ new1" "f @ g1"]
  obtain as2 g2 new2 where b: "publish_storages sha cb (Suc i) (drop (Suc i) raws) (chunks @ new1) (as1, f @ g1) = ((as2, (f @ g1) @ g2), ok ((chunks @ new1) @ new2))"
      "\<forall>e \<in> set new2. recorded sha raws ((f @ g1) @ g2) e"
      "fold_res (inspect_chunk (int cb)) new2 (?c, int (length (f @ g1))) = ok (take (Suc i) ?c @ drop (Suc i) (map (int \<circ> length) raws), int (length ((f @ g1) @ g2)))"
    by blast
  have d: "drop i raws = raws ! i # drop (Suc i) raws" using i by (simp add: Cons_nth_drop_Suc)
  have "take (Suc i) ?c @ drop (Suc i) (map (int \<circ> length) raws) = take i cursors @ drop i (map (int \<circ> length) raws)"
    using i Suc.prems(2) by (simp add: take_Suc_conv_app_nth Cons_nth_drop_Suc [of i "map (int \<circ> length) raws", symmetric])
  moreover have "publish_storages sha cb i (drop i raws) chunks (as, f) = ((as2, f @ g1 @ g2), ok (chunks @ new1 @ new2))"
    using a(1) b(1) by (simp add: d fseq_def)
  moreover have "\<forall>e \<in> set (new1 @ new2). recorded sha raws (f @ g1 @ g2) e"
    using a(3) b(2) recorded_append [of sha raws "f @ g1" _ g2] by auto
  moreover have "fold_res (inspect_chunk (int cb)) (new1 @ new2) (cursors, int (length f))
      = ok (take (Suc i) ?c @ drop (Suc i) (map (int \<circ> length) raws), int (length (f @ g1 @ g2)))"
    using a(4) b(3) by (simp add: fold_res_append)
  ultimately show ?case by metis
qed

lemma publish_wide:
  assumes "wide ans" and "inventory m = ok (sch, groups)" and "0 < cb" and "cb mod 4096 = 0" and "expected = None \<or> expected = Some sch"
  obtains a where "publish sha dgst m None contract cb expected ls ans = (Some a, ok a)"
    "inspect_artifact dgst contract (Some a) = ok (af_manifest a)" "mf_schema (af_manifest a) = sch"
    "mf_storage_bytes (af_manifest a) = map (int \<circ> length) (storages m groups)" "mf_chunk_bytes (af_manifest a) = cb"
    "\<forall>e \<in> set (mf_chunks (af_manifest a)). recorded sha (storages m groups) (af_weights a) e"
    "mf_loader_state (af_manifest a) = ls"
proof -
  let ?raws = "storages m groups"
  have c: "0 < nat cb" "length (map (\<lambda>_. 0 :: int) ?raws) = length ?raws" "0 \<le> length ?raws" "\<forall>j < length ?raws. 0 \<le> j \<longrightarrow> map (\<lambda>_. 0 :: int) ?raws ! j = 0"
    using assms(3) by simp_all
  obtain as' g new where w: "publish_storages sha (nat cb) 0 ?raws [] (ans, []) = ((as', g), ok new)" "\<forall>e \<in> set new. recorded sha ?raws g e"
      "fold_res (inspect_chunk cb) new (map (\<lambda>_. 0) ?raws, 0) = ok (map (int \<circ> length) ?raws, int (length g))"
    using publish_storages_wide [OF assms(1) c, of sha "[]" "[]"] assms(3) by auto
  let ?mf = "\<lparr>mf_version = VERSION, mf_phase = PHASE, mf_contract = contract, mf_schema = sch, mf_chunk_bytes = cb, mf_chunks = new,
     mf_storage_bytes = map (int \<circ> length) ?raws, mf_loader_state = ls, mf_file_bytes = int (length g)\<rparr>"
  let ?a = "\<lparr>af_manifest = ?mf, af_id = dgst ?mf, af_weights = g\<rparr>"
  have "publish sha dgst m None contract cb expected ls ans = (Some ?a, ok ?a)"
    using assms(2-5) w(1) by (auto simp: publish_def Let_def)
  moreover have "inspect_artifact dgst contract (Some ?a) = ok ?mf"
    using w(3) by (simp add: inspect_artifact_def Let_def comp_def)
  ultimately show thesis using that [of ?a] w(2) by simp
qed

section \<open>The round trip\<close>

lemma inventory_distinct:
  assumes "inventory m = ok (sch, groups)"
  shows "distinct groups"
proof -
  have "distinct (snd (sch, groups))"
    by (rule fold_res_invariant [OF assms [unfolded inventory_def], where P = "\<lambda>s. distinct (snd s)"])
      (auto simp: inventory_tensor_def Let_def split: if_splits prod.splits)
  then show ?thesis by simp
qed

lemma storages_put:
  assumes "distinct groups" and "length dest = length groups"
  shows "storages (put_storages m groups dest) groups = dest"
  by (rule nth_equalityI) (use assms in \<open>simp_all add: storages_def put_storages_def map_of_zip_nth\<close>)

text \<open>
  C26: A restore that returns has verified what it restored. The artifact was made for the contract that
  was asked for and for the schema of the model; its chunks follow one another without gap or
  overlap through every storage; and every chunk of the restored storages is the range of the
  weights file the manifest gives for it, with the recorded SHA-256, whatever the order in which
  the reads complete. An artifact that fails the inspection leaves the model as it was.
\<close>

theorem restore_verified:
  assumes "restore sha dgst opened m (Some a) contract depth choice ans = (m', r)"
  shows "(r = ok () \<longrightarrow>
       (\<exists>groups. inventory m = ok (mf_schema (af_manifest a), groups) \<and> mf_contract (af_manifest a) = contract
          \<and> map (int \<circ> length) (storages m' groups) = mf_storage_bytes (af_manifest a)
          \<and> (\<forall>i < length groups. concat (map chunk_range (of_storage i (mf_chunks (af_manifest a)))) = [0..<length (storages m' groups ! i)])
          \<and> (\<forall>e \<in> set (mf_chunks (af_manifest a)).
               dest_slice (storages m' groups) e = pread (af_weights a) (nat (ck_length e)) (nat (ck_offset e))
               \<and> sha (dest_slice (storages m' groups) e) = ck_sha e)))
     \<and> (\<not> is_ok (inspect_artifact dgst contract (Some a)) \<longrightarrow> m' = m \<and> r \<noteq> ok ())"
proof (intro conjI impI)
  assume bad: "\<not> is_ok (inspect_artifact dgst contract (Some a))"
  then show "m' = m" "r \<noteq> ok ()" using assms by (auto simp: restore_def split: sum.splits)
next
  assume r: "r = ok ()"
  obtain mf where insp: "inspect_artifact dgst contract (Some a) = ok mf" using assms r by (auto simp: restore_def split: sum.splits)
  obtain sch groups where inv: "inventory m = ok (sch, groups)" using assms r insp by (auto simp: restore_def split: sum.splits)
  note mf = inspect_ok [OF insp]
  have same: "sch = mf_schema mf" "map (int \<circ> length) (storages m groups) = mf_storage_bytes mf"
    using assms r insp inv by (auto simp: restore_def split: if_splits)
  obtain dest where run: "stream sha (map fst groups) opened (af_weights a) (mf_chunk_bytes mf) depth choice ans (mf_chunks mf) (storages m groups) = (dest, r)"
      and m': "m' = put_storages m groups dest"
    using assms insp inv same by (auto simp: restore_def Let_def split: prod.splits)
  have sz: "sized (mf_storage_bytes mf) (storages m groups)" using same(2) by (simp add: sized_def)
  have d: "sized (mf_storage_bytes mf) dest" "\<forall>e \<in> set (mf_chunks mf). loaded sha (af_weights a) dest e"
    using stream_ok(1) [OF conjunct1 [OF conjunct2 [OF mf]] sz run] r by simp_all
  have len: "length dest = length groups"
    using d(1) same(2) by (metis length_map sized_def storages_def)
  have st: "storages m' groups = dest" unfolding m' by (rule storages_put [OF inventory_distinct [OF inv] len])
  have til: "tiles (mf_chunk_bytes mf) (mf_storage_bytes mf) (mf_file_bytes mf) (mf_chunks mf)" using mf by blast
  have len2: "length (mf_storage_bytes mf) = length groups" using same(2) by (metis length_map storages_def)
  have "concat (map chunk_range (of_storage i (mf_chunks mf))) = [0..<length (dest ! i)]" if "i < length groups" for i
  proof -
    have i: "i < length (mf_storage_bytes mf)" using that len2 by simp
    have "nat (mf_storage_bytes mf ! i) = length (dest ! i)" using sized_nth [OF d(1) i] by (metis nat_int)
    then show ?thesis using til i by (simp add: tiles_def)
  qed
  then show "\<exists>groups. inventory m = ok (mf_schema (af_manifest a), groups) \<and> mf_contract (af_manifest a) = contract
          \<and> map (int \<circ> length) (storages m' groups) = mf_storage_bytes (af_manifest a)
          \<and> (\<forall>i < length groups. concat (map chunk_range (of_storage i (mf_chunks (af_manifest a)))) = [0..<length (storages m' groups ! i)])
          \<and> (\<forall>e \<in> set (mf_chunks (af_manifest a)).
               dest_slice (storages m' groups) e = pread (af_weights a) (nat (ck_length e)) (nat (ck_offset e))
               \<and> sha (dest_slice (storages m' groups) e) = ck_sha e)"
    using mf inv same(1) d st by (intro exI [of _ groups]) (auto simp: sized_def loaded_def)
qed

lemma restore_published:
  assumes "inspect_artifact dgst contract (Some a) = ok (af_manifest a)" and "mf_schema (af_manifest a) = sch"
    and "mf_storage_bytes (af_manifest a) = map (int \<circ> length) raws" and "mf_chunk_bytes (af_manifest a) = cb"
    and "\<forall>e \<in> set (mf_chunks (af_manifest a)). recorded sha raws (af_weights a) e" and "0 < cb" and "cb mod 4096 = 0"
    and "inventory m2 = ok (sch, groups2)" and "map length (storages m2 groups2) = map length raws"
    and "\<forall>g \<in> set groups2. fst g = dev" and "1 \<le> depth" and "depth \<le> 128" and "\<forall>e. benign (reads e)"
  shows "\<exists>m3. restore sha dgst (ok ()) m2 (Some a) contract depth choice reads = (m3, ok ()) \<and> storages m3 groups2 = raws"
proof -
  let ?sb = "mf_storage_bytes (af_manifest a)" and ?cs = "mf_chunks (af_manifest a)" and ?f = "af_weights a"
  have til: "tiles cb ?sb (mf_file_bytes (af_manifest a)) ?cs" "int (length ?f) = mf_file_bytes (af_manifest a)"
    using inspect_ok [OF assms(1)] assms(4) by auto
  have same: "map (int \<circ> length) (storages m2 groups2) = ?sb" using arg_cong [OF assms(9), of "map int"] assms(3) by simp
  have sz: "sized ?sb (storages m2 groups2)" "sized ?sb raws" using same assms(3) by (simp_all add: sized_def)
  have len: "length ?sb = length groups2" using same by (metis length_map storages_def)
  obtain dest r where run: "stream sha (map fst groups2) (ok ()) ?f cb depth choice reads ?cs (storages m2 groups2) = (dest, r)" by fastforce
  have dv: "map fst groups2 ! nat (ck_storage e) = dev" if "e \<in> set ?cs" for e
  proof -
    have "nat (ck_storage e) < length groups2" using til(1) that len by (auto simp: tiles_def)
    then show ?thesis using assms(10) by simp
  qed
  have rd: "\<exists>data. read_extent sha ?f cb (reads e) e = ok data" if "e \<in> set ?cs" for e
    using read_extent_benign [OF til(1) that til(2) [symmetric], of "reads e" sha] assms(13,5) that by (auto simp: recorded_def)
  have "\<forall>e \<in> set ?cs. map fst groups2 ! nat (ck_storage e) = map fst groups2 ! nat (ck_storage (hd ?cs))
      \<and> (\<exists>data. read_extent sha ?f cb (reads e) e = ok data)" using dv rd by (metis list.set_sel(1) list.set(1) empty_iff)
  then have r: "r = ok ()" using stream_ok(2) [OF til(1) sz(1) run] assms(6,7,11,12) by (simp add: ALIGN_def)
  have d: "sized ?sb dest" "\<forall>e \<in> set ?cs. loaded sha ?f dest e" using stream_ok(1) [OF til(1) sz(1) run] r by simp_all
  have "\<forall>e \<in> set ?cs. dest_slice dest e = dest_slice raws e" using d(2) assms(5) by (simp add: loaded_def recorded_def)
  then have dest: "dest = raws" by (rule storages_equal [OF til(1) d(1) sz(2)])
  have "length dest = length groups2" using d(1) len by (metis length_map sized_def)
  then have "storages (put_storages m2 groups2 dest) groups2 = dest" by (rule storages_put [OF inventory_distinct [OF assms(8)]])
  moreover have "restore sha dgst (ok ()) m2 (Some a) contract depth choice reads = (put_storages m2 groups2 dest, ok ())"
    using assms(1,2,4,8) same run r by (simp add: restore_def Let_def)
  ultimately show ?thesis using dest by blast
qed

text \<open>
  C27: Publish and restore are a round trip. When no write is cut below a page, \<^verbatim>\<open>publish\<close> succeeds, and a
  restore of the artifact into another model of the same schema, all on one device, succeeds
  for every queue depth from 1 to 128, every order of completion and every splitting of the reads,
  and gives that model the storages of the published one byte for byte.
\<close>

theorem publish_restore_roundtrip:
  assumes "wide ans" and "inventory m = ok (sch, groups)" and "0 < cb" and "cb mod 4096 = 0" and "expected = None \<or> expected = Some sch"
    and "inventory m2 = ok (sch, groups2)" and "map length (storages m2 groups2) = map length (storages m groups)"
    and "\<forall>g \<in> set groups2. fst g = dev" and "1 \<le> depth" and "depth \<le> 128" and "\<forall>e. benign (reads e)"
  shows "\<exists>a m3. publish sha dgst m None contract cb expected ls ans = (Some a, ok a)
     \<and> restore sha dgst (ok ()) m2 (Some a) contract depth choice reads = (m3, ok ())
     \<and> storages m3 groups2 = storages m groups"
proof -
  obtain a where a: "publish sha dgst m None contract cb expected ls ans = (Some a, ok a)"
      "inspect_artifact dgst contract (Some a) = ok (af_manifest a)" "mf_schema (af_manifest a) = sch"
      "mf_storage_bytes (af_manifest a) = map (int \<circ> length) (storages m groups)" "mf_chunk_bytes (af_manifest a) = cb"
      "\<forall>e \<in> set (mf_chunks (af_manifest a)). recorded sha (storages m groups) (af_weights a) e"
    by (rule publish_wide [OF assms(1-5)])
  show ?thesis using restore_published [OF a(2-6) assms(3,4,6-11), of choice] a(1) by blast
qed

text \<open>A model with one parameter of two bytes, and an empty model of the same schema.\<close>

definition demo_tensor :: model_tensor where
  "demo_tensor = \<lparr>mo_name = ''w'', mo_raw = True, mo_device = ''cpu'', mo_storage = 5, mo_dtype = ''uint8'', mo_shape = [2], mo_stride = [1], mo_offset = 0\<rparr>"

definition demo_model :: "byte list \<Rightarrow> model" where
  "demo_model bs = \<lparr>ml_params = [demo_tensor], ml_buffers = [], ml_bytes = \<lambda>_. bs\<rparr>"

definition demo_sha :: "byte list \<Rightarrow> string" where
  "demo_sha bs = (if bs = [7, 8] then ''a'' else ''b'')"

definition demo_schema :: schema where
  "demo_schema = [(''w'', \<lparr>ts_storage = 0, ts_dtype = ''uint8'', ts_shape = [2], ts_stride = [1], ts_offset = 0, ts_bytes = 2\<rparr>)]"

lemma demo_inventory: "length bs = 2 \<Longrightarrow> inventory (demo_model bs) = ok (demo_schema, [(''cpu'', 5)])"
  by (simp add: inventory_def named_def demo_model_def demo_tensor_def demo_schema_def inventory_tensor_def Let_def sort_key_def)

lemma demo_storages: "storages (demo_model bs) [(''cpu'', 5)] = [bs]"
  by (simp add: storages_def demo_model_def)

theorem publish_restore_roundtrip_witness:
  "\<exists>a m3. publish demo_sha (\<lambda>_. ''id'') (demo_model [7, 8]) None () 4096 None None [Did 5000] = (Some a, ok a)
     \<and> restore demo_sha (\<lambda>_. ''id'') (ok ()) (demo_model [0, 0]) (Some a) () 4 (\<lambda>k. k) (\<lambda>_. [Did 1]) = (m3, ok ())
     \<and> storages m3 [(''cpu'', 5)] = [[7, 8]]"
  using publish_restore_roundtrip [of "[Did 5000]" "demo_model [7, 8]" demo_schema "[(''cpu'', 5)]" 4096 None "demo_model [0, 0]"
      "[(''cpu'', 5)]" "''cpu''" 4 "\<lambda>_. [Did 1]" demo_sha "\<lambda>_. ''id''" "()" None "\<lambda>k. k"]
  by (simp add: demo_inventory demo_storages wide_def)

text \<open>An artifact of the demo model, as \<^verbatim>\<open>publish\<close> leaves it when the system writes everything it is given.\<close>

definition demo_chunk :: chunk where
  "demo_chunk = \<lparr>ck_storage = 0, ck_start = 0, ck_length = 2, ck_offset = 0, ck_sha = ''a''\<rparr>"

definition demo_artifact :: "unit artifact" where
  "demo_artifact = \<lparr>af_manifest = \<lparr>mf_version = VERSION, mf_phase = PHASE, mf_contract = (), mf_schema = demo_schema, mf_chunk_bytes = 4096,
     mf_chunks = [demo_chunk], mf_storage_bytes = [2], mf_loader_state = None, mf_file_bytes = 4096\<rparr>, af_id = ''id'', af_weights = [7, 8] @ replicate 4094 0\<rparr>"

lemma demo_restore:
  "restore demo_sha (\<lambda>_. ''id'') (ok ()) (demo_model [0, 0]) (Some demo_artifact) () 4 (\<lambda>k. k) (\<lambda>_. [])
     = (put_storages (demo_model [0, 0]) [(''cpu'', 5)] [[7, 8]], ok ())"
proof -
  have al: "align 2 = 4096" by (simp add: align_def ALIGN_def)
  have r: "read_extent demo_sha ([7, 8] @ replicate 4094 0) 4096 [] demo_chunk = ok [7, 8]"
    using al by (simp add: read_extent_def demo_chunk_def ALIGN_def read_exact.simps pread_some_def pread_def demo_sha_def)
  have "inspect_artifact (\<lambda>_. ''id'') () (Some demo_artifact) = ok (af_manifest demo_artifact)"
    using al by (simp add: inspect_artifact_def demo_artifact_def Let_def inspect_chunk_def demo_chunk_def)
  then show ?thesis
    using r by (simp add: restore_def demo_inventory demo_storages demo_artifact_def Let_def stream_def ALIGN_def upt_rec
        stream_loop.simps pick_def without_nth_def refill_def copy_extent_def dest_slice_def demo_chunk_def pslice_def patch_def)
qed

theorem restore_verified_witness:
  "\<exists>m' groups. restore demo_sha (\<lambda>_. ''id'') (ok ()) (demo_model [0, 0]) (Some demo_artifact) () 4 (\<lambda>k. k) (\<lambda>_. []) = (m', ok ())
     \<and> inventory (demo_model [0, 0]) = ok (demo_schema, groups) \<and> demo_sha (dest_slice (storages m' groups) demo_chunk) = ''a''"
proof -
  from restore_verified [OF demo_restore]
  obtain groups where g: "inventory (demo_model [0, 0]) = ok (demo_schema, groups)"
      "demo_sha (dest_slice (storages (put_storages (demo_model [0, 0]) [(''cpu'', 5)] [[7, 8]]) groups) demo_chunk) = ''a''"
    by (auto simp: demo_artifact_def demo_chunk_def)
  then show ?thesis using demo_restore by blast
qed

text \<open>
  The padding after a chunk is written by a single \<^verbatim>\<open>write\<close>. When the system cuts that write short,
  \<^verbatim>\<open>publish\<close> still returns a manifest, and the artifact it renamed into place never passes inspection.
\<close>

lemma short_padding_rejected:
  "\<exists>a. publish demo_sha (\<lambda>_. ''id'') (demo_model [7, 8]) None () 4096 None None [Did 2, Did 10] = (Some a, ok a)
     \<and> inspect_artifact (\<lambda>_. ''id'') () (Some a) = err ValueError"
proof -
  have al: "align 2 = 4096" by (simp add: align_def ALIGN_def)
  have "publish_storages demo_sha 4096 0 [[7, 8]] [] ([Did 2, Did 10], []) = (([], [7, 8] @ replicate 10 0), ok [demo_chunk])"
    using al by (simp add: publish_storage.simps publish_chunk_def fseq_def pwrite_all.simps pwrite_def demo_chunk_def demo_sha_def Let_def)
  then show ?thesis
    using al by (simp add: publish_def demo_inventory demo_storages Let_def inspect_artifact_def inspect_chunk_def demo_chunk_def)
qed

end
