(* ===== verification/Loader_State.thy ===== *)
theory Loader_State
  imports Artifact
begin

text \<open>
  What the artifact loader looks at besides the storages (\<^verbatim>\<open>spark_nvme/loader.py\<close>: \<^verbatim>\<open>scalar_state\<close>, \<^verbatim>\<open>scalar_delta\<close>,
  \<^verbatim>\<open>object_state\<close>, \<^verbatim>\<open>check_side_effects\<close>; \<^verbatim>\<open>adapters.py\<close>; \<^verbatim>\<open>identity.py\<close>). Lemmas: a recorded delta replayed on a
  freshly constructed model gives the attributes the native load gave; the check lets no other
  attribute change through; a verified source is the prepared one.
\<close>

section \<open>Attributes of modules\<close>

text \<open>\<^verbatim>\<open>named_modules()\<close> with the \<^verbatim>\<open>vars\<close> of each module.\<close>

type_synonym modules = "(string, (string, pyval) odict) odict"

definition public :: "string \<Rightarrow> bool" where
  "public k = (\<not> starts_with k ''_'')"

text \<open>Dictionaries that went through \<^verbatim>\<open>canonical\<close> come back in the order of their keys.\<close>

definition scalars :: "(string, pyval) odict \<Rightarrow> (string, pyval) odict" where
  "scalars vs = sort_key fst (map (\<lambda>(k, v). (k, copied v)) (filter (\<lambda>(k, v). public k \<and> simple v) vs))"

definition scalar_state :: "modules \<Rightarrow> modules" where
  "scalar_state mods = sort_key fst (map (\<lambda>(name, vs). (name, scalars vs)) mods)"

definition attr_at :: "('a, ('b, 'c) odict) odict \<Rightarrow> 'a \<Rightarrow> 'b \<Rightarrow> 'c option" where
  "attr_at d name k = (case map_of d name of None \<Rightarrow> None | Some e \<Rightarrow> map_of e k)"

definition unchanged :: "modules \<Rightarrow> string \<Rightarrow> string \<Rightarrow> pyval \<Rightarrow> bool" where
  "unchanged before name k v = (case attr_at before name k of None \<Rightarrow> False | Some u \<Rightarrow> py_eq u v)"

text \<open>\<^verbatim>\<open>delta.setdefault(name, {})[k] = v\<close>.\<close>

definition put :: "string \<Rightarrow> string \<Rightarrow> pyval \<Rightarrow> modules \<Rightarrow> modules" where
  "put name k v d = AList.update name (AList.update k v (case map_of d name of None \<Rightarrow> [] | Some e \<Rightarrow> e)) d"

definition removed :: "modules \<Rightarrow> string \<times> (string, pyval) odict \<Rightarrow> bool" where
  "removed after = (\<lambda>(name, attrs). case map_of after name of None \<Rightarrow> True | Some e \<Rightarrow> list_ex (\<lambda>(k, _). map_of e k = None) attrs)"

definition scalar_delta :: "modules \<Rightarrow> modules \<Rightarrow> modules res" where
  "scalar_delta before after =
     (if list_ex (removed after) before then err ValueError
      else ok (fold (\<lambda>(name, attrs). fold (\<lambda>(k, v) d. if unchanged before name k v then d else put name k v d) attrs) after []))"

text \<open>The replay of a delta after a restore: \<^verbatim>\<open>setattr(modules[name], key, value)\<close>.\<close>

definition set_attr :: "string \<Rightarrow> string \<times> pyval \<Rightarrow> modules \<Rightarrow> modules res" where
  "set_attr name = (\<lambda>(k, v) mods. case map_of mods name of None \<Rightarrow> err KeyError | Some vs \<Rightarrow> ok (AList.update name (AList.update k v vs) mods))"

definition apply_delta :: "modules \<Rightarrow> modules \<Rightarrow> modules res" where
  "apply_delta d mods = fold_res (\<lambda>(name, attrs). fold_res (set_attr name) attrs) d mods"

section \<open>Objects and side effects\<close>

datatype tag =
    TValue pyval
  | TTensor nat "nat list" string
  | TSeq string "tag list"
  | TSet "string list"
  | TDict "(string \<times> tag) list"
  | TObj string nat

text \<open>\<^verbatim>\<open>tag\<close>; \<open>pstr\<close> is Python's \<^verbatim>\<open>str\<close> of a key.\<close>

fun tag_of :: "(pyval \<Rightarrow> string) \<Rightarrow> pyval \<Rightarrow> tag" where
  "tag_of pstr v =
     (if simple v then TValue (copied v)
      else case v of
        PTensor i shape dt \<Rightarrow> TTensor i shape dt
      | PSeq t xs \<Rightarrow> TSeq t (map (tag_of pstr) xs)
      | PSet rs \<Rightarrow> TSet (sort rs)
      | PMap t kvs \<Rightarrow> TDict (sort_key fst (map (\<lambda>(k, x). (pstr k, tag_of pstr x)) kvs))
      | PObj t i \<Rightarrow> TObj t i
      | _ \<Rightarrow> TValue v)"

fun tag_eq :: "tag \<Rightarrow> tag \<Rightarrow> bool" and tag_eqs :: "tag list \<Rightarrow> tag list \<Rightarrow> bool"
  and tag_eqm :: "(string \<times> tag) list \<Rightarrow> (string \<times> tag) list \<Rightarrow> bool" where
  "tag_eq (TValue a) b = (case b of TValue b' \<Rightarrow> py_eq a b' | _ \<Rightarrow> False)"
| "tag_eq (TSeq t xs) b = (case b of TSeq t' ys \<Rightarrow> t = t' \<and> tag_eqs xs ys | _ \<Rightarrow> False)"
| "tag_eq (TDict kvs) b = (case b of TDict kvs' \<Rightarrow> tag_eqm kvs kvs' | _ \<Rightarrow> False)"
| "tag_eq (TTensor i s d) b = (b = TTensor i s d)"
| "tag_eq (TSet rs) b = (b = TSet rs)"
| "tag_eq (TObj t i) b = (b = TObj t i)"
| "tag_eqs [] ys = (ys = [])"
| "tag_eqs (x # xs) ys = (case ys of [] \<Rightarrow> False | y # ys' \<Rightarrow> tag_eq x y \<and> tag_eqs xs ys')"
| "tag_eqm [] ys = (ys = [])"
| "tag_eqm ((k, x) # xs) ys = (case ys of [] \<Rightarrow> False | (k', y) # ys' \<Rightarrow> k = k' \<and> tag_eq x y \<and> tag_eqm xs ys')"

type_synonym objects = "(string, (string, tag) odict) odict"

definition object_state :: "(pyval \<Rightarrow> string) \<Rightarrow> modules \<Rightarrow> objects" where
  "object_state pstr mods =
     map (\<lambda>(name, vs). (name, map (\<lambda>(k, v). (k, tag_of pstr v))
       (filter (\<lambda>(k, _). k \<notin> {''_parameters'', ''_buffers'', ''_modules''}) vs))) mods"

section \<open>Adapters\<close>

datatype adapter = NativePreKernelAdapter | DeepseekAdapter | DFlashAdapter

definition derived_attributes :: "string list" where
  "derived_attributes =
     [''_hidden_norm_weight'', ''_fused_kv_weight'', ''_fused_kv_bias'', ''_k_norm_weights'', ''_rope_head_size'',
      ''_rope_cos_sin_cache'', ''_rope_is_neox'', ''_num_attn_layers'', ''_kv_size'', ''_head_dim'', ''_num_kv_heads'',
      ''_rms_norm_eps'', ''_attn_layers'', ''_fused_hidden_norm_weight'', ''_context_kv_weight'', ''_context_kv_bias'']"

fun allows_change :: "adapter \<Rightarrow> string \<Rightarrow> string \<Rightarrow> tag option \<Rightarrow> bool" where
  "allows_change NativePreKernelAdapter module_name attribute v = False"
| "allows_change DeepseekAdapter module_name attribute v = (attribute = ''_pending_indexer_wk_fp8'' \<and> v = Some (TValue (PMap ''dict'' [])))"
| "allows_change DFlashAdapter module_name attribute v = (module_name = ''model'' \<and> attribute \<in> set derived_attributes)"

definition ADAPTERS :: "(string, adapter) odict" where
  "ADAPTERS =
     map (\<lambda>n. (n, NativePreKernelAdapter)) [''LlamaForCausalLM'', ''GPT2LMHeadModel'', ''Qwen2ForCausalLM'', ''Qwen3ForCausalLM'']
     @ map (\<lambda>n. (n, DeepseekAdapter)) [''DeepseekV2ForCausalLM'', ''DeepseekV3ForCausalLM'', ''DeepseekV32ForCausalLM'', ''GlmMoeDsaForCausalLM'']
     @ map (\<lambda>n. (n, DFlashAdapter)) [''DFlashQwen3ForCausalLM'', ''DFlash2Qwen3ForCausalLM'']"

definition adapter_for :: "string \<Rightarrow> string \<Rightarrow> bool \<Rightarrow> adapter res" where
  "adapter_for cls md required =
     (case map_of ADAPTERS cls of
        Some a \<Rightarrow> if starts_with md ''vllm.'' then ok a else if required then err ValueError else ok NativePreKernelAdapter
      | None \<Rightarrow> if required then err ValueError else ok NativePreKernelAdapter)"

text \<open>\<^verbatim>\<open>check_side_effects\<close>; comparing a missing attribute with a present one is \<^verbatim>\<open>None\<close> against a list.\<close>

definition same_tag :: "tag option \<Rightarrow> tag option \<Rightarrow> bool" where
  "same_tag a b = (case (a, b) of (None, None) \<Rightarrow> True | (Some x, Some y) \<Rightarrow> tag_eq x y | _ \<Rightarrow> False)"

definition is_value :: "tag option \<Rightarrow> bool" where
  "is_value b = (case b of Some (TValue _) \<Rightarrow> True | _ \<Rightarrow> False)"

definition bad_change :: "adapter \<Rightarrow> objects \<Rightarrow> objects \<Rightarrow> string \<Rightarrow> string \<Rightarrow> bool" where
  "bad_change ad before after name key =
     (\<not> same_tag (attr_at before name key) (attr_at after name key)
      \<and> \<not> (public key \<and> is_value (attr_at after name key))
      \<and> \<not> allows_change ad name key (attr_at after name key))"

definition attr_keys :: "objects \<Rightarrow> string \<Rightarrow> string list" where
  "attr_keys d name = (case map_of d name of None \<Rightarrow> [] | Some e \<Rightarrow> map fst e)"

definition check_side_effects :: "objects \<Rightarrow> objects \<Rightarrow> string \<Rightarrow> string \<Rightarrow> unit res" where
  "check_side_effects before after cls md =
     rbind (adapter_for cls md False) (\<lambda>ad.
       if list_ex (\<lambda>name. list_ex (bad_change ad before after name) (attr_keys before name @ attr_keys after name)) (map fst before @ map fst after)
       then err ValueError else ok ())"

section \<open>The identity of a source\<close>

text \<open>A file below the root: its path components, whether it is a regular file, size, time stamp and bytes.\<close>

record tree_file =
  tf_parts :: "string list"
  tf_regular :: bool
  tf_size :: int
  tf_mtime :: int
  tf_bytes :: "byte list"

definition suffix :: "string \<Rightarrow> string" where
  "suffix name =
     (let r = rev name; stem = dropWhile (\<lambda>c. c \<noteq> CHR ''.'') r; ext = takeWhile (\<lambda>c. c \<noteq> CHR ''.'') r
      in if length stem \<le> 1 \<or> ext = [] then [] else CHR ''.'' # rev ext)"

fun join_path :: "string list \<Rightarrow> string" where
  "join_path [] = []"
| "join_path [p] = p"
| "join_path (p # ps) = p @ ''/'' @ join_path ps"

record inv_entry =
  ie_name :: string
  ie_size :: int
  ie_mtime :: int

definition source_files :: "tree_file list \<Rightarrow> tree_file list" where
  "source_files tree = sort_key tf_parts (filter (\<lambda>f. tf_regular f
      \<and> suffix (last (tf_parts f)) \<in> {''.safetensors'', ''.json'', ''.bin'', ''.pt'', ''.pth'', ''.gguf''}) tree)"

definition source_inventory :: "tree_file list \<Rightarrow> inv_entry list res" where
  "source_inventory tree =
     (if source_files tree = [] then err ValueError
      else ok (map (\<lambda>f. \<lparr>ie_name = join_path (tf_parts f), ie_size = tf_size f, ie_mtime = tf_mtime f\<rparr>) (source_files tree)))"

text \<open>The hash loop: read into a buffer of 4 MiB until a read returns nothing; \<open>got\<close> is what was hashed so far.\<close>

function hash_loop :: "byte list \<Rightarrow> byte list \<Rightarrow> os_answer list \<Rightarrow> byte list res" where
  "hash_loop f got as =
     (case pread_some as f 4194304 (length got) of
        Inl e \<Rightarrow> err e
      | Inr (bs, as') \<Rightarrow> if bs = [] then ok got else hash_loop f (got @ bs) as')"
  by pat_completeness auto
termination
proof (relation "measure (\<lambda>(f, got, as). length f - length got)", goal_cases)
  case (2 f got as b bs as')
  then show ?case using pread_some_ok(3) [of as f 4194304 "length got" bs as'] by (cases bs) auto
qed simp

record file_hash =
  fh_name :: string
  fh_size :: int
  fh_sha :: string

record source_identity =
  sid_content :: string
  sid_files :: "file_hash list"
  sid_inventory :: "inv_entry list"

fun hash_files :: "(byte list \<Rightarrow> string) \<Rightarrow> (string \<Rightarrow> os_answer list) \<Rightarrow> tree_file list \<Rightarrow> file_hash list res" where
  "hash_files sha ans [] = ok []"
| "hash_files sha ans (f # fs) =
     rbind (hash_loop (tf_bytes f) [] (ans (join_path (tf_parts f)))) (\<lambda>bs.
     rbind (hash_files sha ans fs) (\<lambda>hs. ok (\<lparr>fh_name = join_path (tf_parts f), fh_size = tf_size f, fh_sha = sha bs\<rparr> # hs)))"

text \<open>\<^verbatim>\<open>prepare_source\<close>: \<open>tree\<close> is the tree when it starts and while it hashes, \<open>tree'\<close> when it looks again.\<close>

definition prepare_source :: "(byte list \<Rightarrow> string) \<Rightarrow> (file_hash list \<Rightarrow> string) \<Rightarrow> (string \<Rightarrow> os_answer list) \<Rightarrow> tree_file list \<Rightarrow> tree_file list
    \<Rightarrow> source_identity res" where
  "prepare_source sha dgst ans tree tree' =
     rbind (source_inventory tree) (\<lambda>before.
     rbind (hash_files sha ans (source_files tree)) (\<lambda>hashes.
     rbind (source_inventory tree') (\<lambda>after.
       if after \<noteq> before then err ValueError
       else ok \<lparr>sid_content = dgst hashes, sid_files = hashes, sid_inventory = before\<rparr>)))"

definition verify_source :: "(file_hash list \<Rightarrow> string) \<Rightarrow> tree_file list \<Rightarrow> source_identity res \<Rightarrow> string res" where
  "verify_source dgst tree identity =
     rbind identity (\<lambda>i.
       if dgst (sid_files i) \<noteq> sid_content i then err ValueError
       else rbind (source_inventory tree) (\<lambda>inv. if inv \<noteq> sid_inventory i then err ValueError else ok (sid_content i)))"


section \<open>A delta replayed is the native load's effect\<close>

text \<open>Two-level dictionaries with distinct keys.\<close>

definition wf2 :: "('a, ('b, 'c) odict) odict \<Rightarrow> bool" where
  "wf2 d = (od_wf d \<and> (\<forall>e \<in> snd ` set d. od_wf e))"

lemma wf2_at: "wf2 d \<Longrightarrow> map_of d name = Some e \<Longrightarrow> od_wf e"
  by (force simp: wf2_def dest: map_of_SomeD)

lemma map_of_sort_key: "od_wf d \<Longrightarrow> map_of (sort_key f d) = map_of d"
proof -
  assume wf: "od_wf d"
  have "distinct (map fst (sort_key f d))"
    using wf mset_eq_imp_distinct_iff [of "map fst (sort_key f d)" "map fst d"] by (simp add: od_wf_def od_keys_def)
  moreover have "distinct (map fst d)" using wf by (simp add: od_wf_def od_keys_def)
  ultimately show ?thesis by (simp add: map_of_inject_set)
qed

lemma od_wf_sort_key: "od_wf d \<Longrightarrow> od_wf (sort_key f d)"
  using mset_eq_imp_distinct_iff [of "map fst (sort_key f d)" "map fst d"] by (simp add: od_wf_def od_keys_def)

lemma map_of_filter_map:
  assumes "od_wf d"
  shows "map_of (map (\<lambda>(k, v). (k, f v)) (filter (\<lambda>(k, v). P k v) d)) k
    = (case map_of d k of None \<Rightarrow> None | Some v \<Rightarrow> if P k v then Some (f v) else None)"
  using assms
proof (induction d)
  case (Cons p d)
  obtain a b where p: "p = (a, b)" by (cases p)
  have "map_of d a = None" "od_wf d" using Cons.prems by (auto simp: p od_wf_def od_keys_def map_of_eq_None_iff)
  then show ?case using Cons.IH by (auto simp: p)
qed simp

lemma od_wf_filter_map: "od_wf d \<Longrightarrow> od_wf (map (\<lambda>(k, v). (k, f v)) (filter (\<lambda>(k, v). P k v) d))"
proof -
  assume "od_wf d"
  then have "distinct (map fst (filter (\<lambda>(k, v). P k v) d))" by (simp add: od_wf_def od_keys_def distinct_map_filter)
  then show ?thesis by (simp add: od_wf_def od_keys_def comp_def case_prod_beta)
qed

lemma scalars_lookup:
  "od_wf vs \<Longrightarrow> map_of (scalars vs) k = (case map_of vs k of None \<Rightarrow> None | Some v \<Rightarrow> if public k \<and> simple v then Some (copied v) else None)"
  by (simp add: scalars_def map_of_sort_key od_wf_filter_map map_of_filter_map)

lemma map_of_map_snd: "map_of (map (\<lambda>(n, e). (n, f e)) d) n = map_option f (map_of d n)"
  by (induction d) auto

lemma od_wf_map_snd: "od_wf (map (\<lambda>(n, e). (n, f e)) d) = od_wf d"
  by (simp add: od_wf_def od_keys_def comp_def case_prod_beta)

lemma scalar_state_lookup:
  assumes "wf2 mods"
  shows "attr_at (scalar_state mods) n k
    = (case attr_at mods n k of None \<Rightarrow> None | Some v \<Rightarrow> if public k \<and> simple v then Some (copied v) else None)"
proof -
  have "od_wf mods" using assms by (simp add: wf2_def)
  then have "map_of (scalar_state mods) n = map_option scalars (map_of mods n)"
    by (simp add: scalar_state_def map_of_sort_key od_wf_map_snd map_of_map_snd)
  then show ?thesis using wf2_at [OF assms, of n] by (cases "map_of mods n") (simp_all add: attr_at_def scalars_lookup)
qed

lemma od_wf_scalars: "od_wf vs \<Longrightarrow> od_wf (scalars vs)"
  by (simp add: scalars_def od_wf_sort_key od_wf_filter_map)

lemma wf2_scalar_state: "wf2 mods \<Longrightarrow> wf2 (scalar_state mods)"
  by (force simp: wf2_def scalar_state_def od_wf_sort_key od_wf_map_snd od_wf_scalars)

lemma attr_at_Nil: "attr_at [] n k = None"
  by (simp add: attr_at_def)

lemma attr_at_put: "attr_at (put n k v d) n' k' = (if n' = n \<and> k' = k then Some v else attr_at d n' k')"
  by (cases "map_of d n") (auto simp: attr_at_def put_def map_of_update)

lemma wf2_put: "wf2 d \<Longrightarrow> wf2 (put n k v d)"
proof -
  assume wf: "wf2 d"
  have "od_wf (AList.update k v (case map_of d n of None \<Rightarrow> [] | Some e \<Rightarrow> e))"
    using wf2_at [OF wf, of n] by (cases "map_of d n") (auto simp: od_wf_def od_keys_def distinct_update)
  then show ?thesis using wf set_update_subset [of n _ d] by (fastforce simp: wf2_def put_def)
qed

definition no_empty :: "modules \<Rightarrow> bool" where
  "no_empty d = (\<forall>e \<in> snd ` set d. e \<noteq> [])"

lemma no_empty_put:
  assumes "no_empty d"
  shows "no_empty (put n k v d)"
  unfolding no_empty_def
proof
  fix e assume "e \<in> snd ` set (put n k v d)"
  then obtain m where "(m, e) \<in> set (AList.update n (AList.update k v (case map_of d n of None \<Rightarrow> [] | Some e \<Rightarrow> e)) d)"
    by (auto simp: put_def)
  then have "(m, e) \<in> insert (n, AList.update k v (case map_of d n of None \<Rightarrow> [] | Some e \<Rightarrow> e)) (set d)"
    using set_update_subset by (rule set_mp [rotated])
  moreover have "AList.update k v l \<noteq> []" for l by (cases l) auto
  ultimately show "e \<noteq> []" using assms by (metis no_empty_def Pair_inject imageI insertE snd_conv)
qed

definition delta_attrs :: "modules \<Rightarrow> string \<Rightarrow> (string, pyval) odict \<Rightarrow> modules \<Rightarrow> modules" where
  "delta_attrs before name attrs = fold (\<lambda>(k, v) d. if unchanged before name k v then d else put name k v d) attrs"

lemma delta_attrs_at:
  "od_wf attrs \<Longrightarrow> attr_at (delta_attrs before name attrs d) n k =
     (case map_of attrs k of
        Some v \<Rightarrow> if n = name \<and> \<not> unchanged before name k v then Some v else attr_at d n k
      | None \<Rightarrow> attr_at d n k)"
proof (induction attrs arbitrary: d)
  case (Cons p attrs)
  obtain a b where p: "p = (a, b)" by (cases p)
  have "map_of attrs a = None" "od_wf attrs" using Cons.prems by (auto simp: p od_wf_def od_keys_def map_of_eq_None_iff)
  then show ?case using Cons.IH by (auto simp: p delta_attrs_def attr_at_put split: option.splits)
qed (simp add: delta_attrs_def)

lemma wf2_delta_attrs: "wf2 d \<Longrightarrow> wf2 (delta_attrs before name attrs d)"
  by (induction attrs arbitrary: d) (auto simp: delta_attrs_def wf2_put)

lemma no_empty_delta_attrs: "no_empty d \<Longrightarrow> no_empty (delta_attrs before name attrs d)"
  by (induction attrs arbitrary: d) (auto simp: delta_attrs_def no_empty_put)

lemma no_empty_delta: "no_empty d \<Longrightarrow> no_empty (fold (\<lambda>(name, attrs). delta_attrs before name attrs) after d)"
  by (induction after arbitrary: d) (auto simp: no_empty_delta_attrs)

lemma delta_at:
  "wf2 after \<Longrightarrow> attr_at (fold (\<lambda>(name, attrs). delta_attrs before name attrs) after d) n k =
     (case attr_at after n k of
        Some v \<Rightarrow> if unchanged before n k v then attr_at d n k else Some v
      | None \<Rightarrow> attr_at d n k)"
proof (induction after arbitrary: d)
  case (Cons p after)
  obtain a attrs where p: "p = (a, attrs)" by (cases p)
  have wf: "map_of after a = None" "wf2 after" "od_wf attrs"
    using Cons.prems by (auto simp: p wf2_def od_wf_def od_keys_def map_of_eq_None_iff)
  have ih: "attr_at (fold (\<lambda>(name, attrs). delta_attrs before name attrs) (p # after) d) n k =
      (case attr_at after n k of
         Some v \<Rightarrow> if unchanged before n k v then attr_at (delta_attrs before a attrs d) n k else Some v
       | None \<Rightarrow> attr_at (delta_attrs before a attrs d) n k)"
    using Cons.IH [OF wf(2)] by (simp add: p)
  show ?case
  proof (cases "n = a")
    case True
    then have "attr_at after n k = None" "attr_at (p # after) n k = map_of attrs k" using wf(1) by (simp_all add: p attr_at_def)
    then show ?thesis using ih True by (simp add: delta_attrs_at [OF wf(3)] split: option.splits)
  next
    case False
    then have "attr_at (p # after) n k = attr_at after n k" "attr_at (delta_attrs before a attrs d) n k = attr_at d n k"
      by (simp_all add: p attr_at_def delta_attrs_at [OF wf(3), unfolded attr_at_def] split: option.splits)
    then show ?thesis using ih by (simp split: option.splits)
  qed
qed (simp add: attr_at_def)

lemma wf2_delta: "wf2 d \<Longrightarrow> wf2 (fold (\<lambda>(name, attrs). delta_attrs before name attrs) after d)"
  by (induction after arbitrary: d) (auto simp: wf2_delta_attrs)

lemma scalar_delta_ok:
  assumes "scalar_delta before after = ok d" and "wf2 after"
  shows "wf2 d" "attr_at d n k = (case attr_at after n k of Some v \<Rightarrow> if unchanged before n k v then None else Some v | None \<Rightarrow> None)"
    and "attr_at before n k \<noteq> None \<Longrightarrow> attr_at after n k \<noteq> None"
proof -
  have d: "d = fold (\<lambda>(name, attrs). delta_attrs before name attrs) after []"
    using assms(1) by (simp add: scalar_delta_def delta_attrs_def split: if_splits)
  show "wf2 d" unfolding d by (rule wf2_delta) (simp add: wf2_def)
  show "attr_at d n k = (case attr_at after n k of Some v \<Rightarrow> if unchanged before n k v then None else Some v | None \<Rightarrow> None)"
    unfolding d by (simp add: delta_at [OF assms(2)] attr_at_Nil split: option.splits)
  show "attr_at after n k \<noteq> None" if here: "attr_at before n k \<noteq> None"
  proof -
    obtain e v where e: "map_of before n = Some e" "map_of e k = Some v" using here by (auto simp: attr_at_def split: option.splits)
    have "\<not> removed after (n, e)" using assms(1) map_of_SomeD [OF e(1)] by (auto simp: scalar_delta_def list_ex_iff split: if_splits)
    then show ?thesis using map_of_SomeD [OF e(2)] by (fastforce simp: removed_def attr_at_def list_ex_iff split: option.splits)
  qed
qed

lemma set_attrs_ok:
  assumes "map_of mods name \<noteq> None" and "od_wf attrs" and "wf2 mods"
  shows "\<exists>mods'. fold_res (set_attr name) attrs mods = ok mods' \<and> wf2 mods' \<and> (\<forall>n. (map_of mods' n = None) = (map_of mods n = None))
     \<and> (\<forall>n k. attr_at mods' n k = (if n = name \<and> map_of attrs k \<noteq> None then map_of attrs k else attr_at mods n k))"
  using assms
proof (induction attrs arbitrary: mods)
  case (Cons p attrs)
  obtain a b where p: "p = (a, b)" by (cases p)
  obtain vs where vs: "map_of mods name = Some vs" using Cons.prems(1) by auto
  let ?m = "put name a b mods"
  have one: "set_attr name (a, b) mods = ok ?m" using vs by (simp add: set_attr_def put_def)
  have keep: "map_of ?m name \<noteq> None" "\<forall>n. (map_of ?m n = None) = (map_of mods n = None)"
    using vs by (auto simp: put_def map_of_update)
  have wf: "map_of attrs a = None" "od_wf attrs" using Cons.prems(2) by (auto simp: p od_wf_def od_keys_def map_of_eq_None_iff)
  obtain m' where m': "fold_res (set_attr name) attrs ?m = ok m'" "wf2 m'" "\<forall>n. (map_of m' n = None) = (map_of ?m n = None)"
      "\<forall>n k. attr_at m' n k = (if n = name \<and> map_of attrs k \<noteq> None then map_of attrs k else attr_at ?m n k)"
    using Cons.IH [OF keep(1) wf(2) wf2_put [OF Cons.prems(3)]] by blast
  have "\<forall>n k. attr_at m' n k = (if n = name \<and> map_of (p # attrs) k \<noteq> None then map_of (p # attrs) k else attr_at mods n k)"
    using m'(4) wf(1) by (auto simp: p attr_at_put)
  then show ?case using one m' keep by (intro exI [of _ m']) (simp add: p)
qed simp

lemma apply_delta_ok:
  assumes "wf2 d" and "wf2 mods" and "\<forall>n. map_of d n \<noteq> None \<longrightarrow> map_of mods n \<noteq> None"
  shows "\<exists>mods'. apply_delta d mods = ok mods' \<and> wf2 mods' \<and> (\<forall>n. (map_of mods' n = None) = (map_of mods n = None))
     \<and> (\<forall>n k. attr_at mods' n k = (if attr_at d n k \<noteq> None then attr_at d n k else attr_at mods n k))"
  using assms
proof (induction d arbitrary: mods)
  case (Cons p d)
  obtain a attrs where p: "p = (a, attrs)" by (cases p)
  have wf: "map_of d a = None" "wf2 d" "od_wf attrs" using Cons.prems(1) by (auto simp: p wf2_def od_wf_def od_keys_def map_of_eq_None_iff)
  have "map_of mods a \<noteq> None" using Cons.prems(3) by (auto simp: p)
  then obtain m1 where m1: "fold_res (set_attr a) attrs mods = ok m1" "wf2 m1" "\<forall>n. (map_of m1 n = None) = (map_of mods n = None)"
      "\<forall>n k. attr_at m1 n k = (if n = a \<and> map_of attrs k \<noteq> None then map_of attrs k else attr_at mods n k)"
    using set_attrs_ok [OF _ wf(3) Cons.prems(2)] by blast
  have "\<forall>n. map_of d n \<noteq> None \<longrightarrow> map_of m1 n \<noteq> None" using Cons.prems(3) m1(3) by (auto simp: p split: if_splits)
  then obtain m2 where m2: "apply_delta d m1 = ok m2" "wf2 m2" "\<forall>n. (map_of m2 n = None) = (map_of m1 n = None)"
      "\<forall>n k. attr_at m2 n k = (if attr_at d n k \<noteq> None then attr_at d n k else attr_at m1 n k)"
    using Cons.IH [OF wf(2) m1(2)] by blast
  have "\<forall>n k. attr_at m2 n k = (if attr_at (p # d) n k \<noteq> None then attr_at (p # d) n k else attr_at mods n k)"
    using m2(4) m1(4) wf(1) by (auto simp: p attr_at_def)
  then show ?case using m1 m2 by (intro exI [of _ m2]) (simp add: p apply_delta_def)
qed (simp add: apply_delta_def attr_at_def)

text \<open>Two models whose public JSON attributes are the same for Python.\<close>

definition same_scalars :: "modules \<Rightarrow> modules \<Rightarrow> bool" where
  "same_scalars mods mods' =
     (\<forall>n k. case (attr_at (scalar_state mods) n k, attr_at (scalar_state mods') n k) of
        (None, None) \<Rightarrow> True | (Some a, Some b) \<Rightarrow> a = b \<or> py_eq a b | _ \<Rightarrow> False)"

lemma scalar_delta_replayed:
  assumes "scalar_delta (scalar_state mods0) (scalar_state mods1) = ok d" and "wf2 mods0" and "wf2 mods1"
    and "\<forall>n. map_of mods1 n \<noteq> None \<longrightarrow> map_of mods0 n \<noteq> None"
  shows "\<exists>mods2. apply_delta d mods0 = ok mods2 \<and> same_scalars mods2 mods1
     \<and> (\<forall>n k. \<not> public k \<longrightarrow> attr_at mods2 n k = attr_at mods0 n k)"
proof -
  note d = scalar_delta_ok [OF assms(1) wf2_scalar_state [OF assms(3)]]
  have names: "map_of mods0 n \<noteq> None" if e: "map_of d n = Some e" "e \<noteq> []" for n e
  proof -
    obtain k v where "map_of e k = Some v" using e(2) by (metis map_of_eq_empty_iff option.exhaust_sel)
    then have "attr_at (scalar_state mods1) n k \<noteq> None" using d(2) [of n k] e(1) by (auto simp: attr_at_def split: option.splits)
    then have "attr_at mods1 n k \<noteq> None" by (auto simp: scalar_state_lookup [OF assms(3)] split: option.splits)
    then show ?thesis using assms(4) by (auto simp: attr_at_def split: option.splits)
  qed
  have nonempty: "no_empty d"
    using assms(1) no_empty_delta [of "[]"] by (auto simp: scalar_delta_def delta_attrs_def no_empty_def split: if_splits)
  have "\<forall>n. map_of d n \<noteq> None \<longrightarrow> map_of mods0 n \<noteq> None"
    using names nonempty by (metis no_empty_def imageI map_of_SomeD option.exhaust_sel snd_conv)
  then obtain mods2 where m2: "apply_delta d mods0 = ok mods2" "wf2 mods2"
      "\<forall>n k. attr_at mods2 n k = (if attr_at d n k \<noteq> None then attr_at d n k else attr_at mods0 n k)"
    using apply_delta_ok [OF d(1) assms(2)] by blast
  have from1: "\<exists>u. public k \<and> simple u \<and> v = copied u" if v: "attr_at d n k = Some v" for n k v
    using v d(2) [of n k] by (auto simp: scalar_state_lookup [OF assms(3)] split: option.splits if_splits)
  have "case (attr_at (scalar_state mods2) n k, attr_at (scalar_state mods1) n k) of
      (None, None) \<Rightarrow> True | (Some a, Some b) \<Rightarrow> a = b \<or> py_eq a b | _ \<Rightarrow> False" for n k
  proof (cases "attr_at d n k")
    case None
    then have "attr_at (scalar_state mods2) n k = attr_at (scalar_state mods0) n k"
      using m2(3) by (simp add: scalar_state_lookup [OF assms(2)] scalar_state_lookup [OF m2(2)])
    then show ?thesis
      using None d(2) [of n k] d(3) [of n k]
      by (cases "attr_at (scalar_state mods0) n k"; cases "attr_at (scalar_state mods1) n k") (auto simp: unchanged_def split: if_splits)
  next
    case (Some v)
    then obtain u where u: "public k" "simple u" "v = copied u" using from1 by blast
    have "attr_at (scalar_state mods2) n k = Some v"
      using m2(3) Some u by (simp add: scalar_state_lookup [OF m2(2)] simple_copied copied_idem)
    moreover have "attr_at (scalar_state mods1) n k = Some v"
      using Some d(2) [of n k] by (auto split: option.splits if_splits)
    ultimately show ?thesis by simp
  qed
  moreover have "attr_at mods2 n k = attr_at mods0 n k" if "\<not> public k" for n k
    using m2(3) from1 that by (cases "attr_at d n k") auto
  ultimately show ?thesis using m2(1) by (auto simp: same_scalars_def)
qed

section \<open>What the check lets through, and the identity of a source\<close>

text \<open>After a passed check every changed attribute is a public JSON value or one its adapter accounts for.\<close>

lemma check_side_effects_ok:
  assumes "check_side_effects before after cls md = ok ()"
  shows "\<exists>ad. adapter_for cls md False = ok ad \<and> (\<forall>n k. \<not> bad_change ad before after n k)"
proof -
  obtain ad where ad: "adapter_for cls md False = ok ad"
      and no: "\<not> list_ex (\<lambda>name. list_ex (bad_change ad before after name) (attr_keys before name @ attr_keys after name)) (map fst before @ map fst after)"
    using assms by (auto simp: check_side_effects_def rbind_ok_iff split: if_splits)
  have "\<not> bad_change ad before after n k" for n k
  proof
    assume bad: "bad_change ad before after n k"
    have key: "n \<in> fst ` set d \<and> k \<in> set (attr_keys d n)" if "attr_at d n k \<noteq> None" for d :: objects
      using that by (force simp: attr_at_def attr_keys_def split: option.splits dest: map_of_SomeD)
    have "attr_at before n k \<noteq> None \<or> attr_at after n k \<noteq> None" using bad
      by (cases "attr_at before n k"; cases "attr_at after n k") (auto simp: bad_change_def same_tag_def)
    then show False using key [of before] key [of after] no bad by (auto simp: list_ex_iff)
  qed
  then show ?thesis using ad by blast
qed

lemma hash_loop_all:
  assumes "benign as" and "got = take (length got) f"
  shows "hash_loop f got as = ok f"
  using assms
proof (induction f got as rule: hash_loop.induct)
  case (1 f got as)
  show ?case
  proof (cases "length got < length f")
    case True
    obtain bs as' where p: "pread_some as f 4194304 (length got) = ok (bs, as')" "bs \<noteq> []" "benign as'"
      by (rule pread_some_progress [OF 1(2) _ True, of 4194304]) auto
    have "bs = take (length bs) (drop (length got) f)" using pread_some_ok(1) [OF p(1)] by (simp add: pread_def)
    then have "got @ bs = take (length (got @ bs)) f" using 1(3) by (metis length_append take_add)
    from 1(1) [OF p(1) refl p(2,3) this] show ?thesis using p by (subst hash_loop.simps) simp
  next
    case False
    then have f: "got = f" using 1(3) by simp
    show ?thesis
    proof (cases "pread_some as f 4194304 (length got)")
      case (Inl e)
      have "\<exists>k as'. next_count as 0 = (ok k, as') \<and> 0 \<le> k" using 1(2) by (cases as; cases "hd as") auto
      then show ?thesis using Inl f by (auto simp: pread_some_def split: prod.splits sum.splits if_splits)
    next
      case (Inr p)
      obtain bs as' where p: "p = (bs, as')" by (cases p)
      have "bs = []" using pread_some_ok(3) [of as f 4194304 "length got" bs as'] Inr p f by simp
      then show ?thesis using Inr p f by (subst hash_loop.simps) simp
    qed
  qed
qed

lemma hash_files_all:
  "(\<And>n. benign (ans n)) \<Longrightarrow> hash_files sha ans fs
     = ok (map (\<lambda>f. \<lparr>fh_name = join_path (tf_parts f), fh_size = tf_size f, fh_sha = sha (tf_bytes f)\<rparr>) fs)"
  by (induction fs) (simp_all add: hash_loop_all del: hash_loop.simps)

text \<open>
  A tree prepared while it did not change is verified under the content identifier of its bytes, and
  a tree that is verified has the prepared inventory.
\<close>

lemma prepare_verify:
  assumes "\<And>n. benign (ans n)" and "source_inventory tree = ok entries" and "source_inventory tree' = ok entries"
  shows "\<exists>i. prepare_source sha dgst ans tree tree' = ok i
     \<and> sid_content i = dgst (map (\<lambda>f. \<lparr>fh_name = join_path (tf_parts f), fh_size = tf_size f, fh_sha = sha (tf_bytes f)\<rparr>) (source_files tree))
     \<and> (\<forall>later c. verify_source dgst later (ok i) = ok c \<longleftrightarrow> c = sid_content i \<and> source_inventory later = ok entries)"
  using assms hash_files_all [OF assms(1)]
  by (auto simp: prepare_source_def verify_source_def rbind_ok_iff split: if_splits)

lemma prepare_changed:
  "source_inventory tree = ok entries \<Longrightarrow> source_inventory tree' = ok entries' \<Longrightarrow> entries' \<noteq> entries \<Longrightarrow> \<not> is_ok (prepare_source sha dgst ans tree tree')"
  by (cases "hash_files sha ans (source_files tree)") (auto simp: prepare_source_def)

end
