(* ===== verification/Loader.thy ===== *)
theory Loader
  imports Loader_State Ckpt_Runai
begin

text \<open>
  The model loader (\<^verbatim>\<open>spark_nvme/loader.py\<close>: \<^verbatim>\<open>plan\<close>, \<^verbatim>\<open>activation_gate\<close>, \<^verbatim>\<open>NvmeModelLoader\<close>). The native loader, the
  configuration of the engine and the other ranks are parameters. Theorems: a worker restored from a
  prepared artifact is the worker a native load gives, and the activation gate lets either all ranks
  through or none.
\<close>

section \<open>The plan\<close>

text \<open>A constructed model: its storages, its class and module, the attributes of its modules, and whether a module quantizes online.\<close>

record live =
  lv_model :: model
  lv_class :: string
  lv_module :: string
  lv_mods :: modules
  lv_meta :: bool

text \<open>
  The contract of an artifact: source, class, and the rest of the runtime configuration as one value \<open>'h\<close>; then the rank.
\<close>

record 'h contract =
  ct_adapter :: string
  ct_content_id :: string
  ct_model_class :: string
  ct_config :: 'h
  ct_rank :: "int option"

text \<open>The surroundings of the plan: the environment, the source directory and its identity file, the engine configuration.\<close>

record 'h plan_env =
  pe_root :: bool
  pe_identity :: "source_identity res"
  pe_tree :: "tree_file list"
  pe_data_parallel :: int
  pe_quant_override :: bool
  pe_model_weights :: bool
  pe_config :: 'h
  pe_rank :: int

type_synonym 'h planned = "'h contract \<times> string \<times> (string \<times> int) \<times> schema"

definition plan :: "(file_hash list \<Rightarrow> string) \<Rightarrow> ('h contract \<Rightarrow> string) \<Rightarrow> 'h plan_env \<Rightarrow> live \<Rightarrow> 'h planned res" where
  "plan fdgst cdgst env l =
     rbind (adapter_for (lv_class l) (lv_module l) True) (\<lambda>_.
       if lv_meta l then err ValueError
       else if \<not> pe_root env then err KeyError
       else rbind (verify_source fdgst (pe_tree env) (pe_identity env)) (\<lambda>source_id.
         if pe_data_parallel env \<noteq> 1 then err ValueError
         else if pe_quant_override env then err ValueError
         else if pe_model_weights env then err ValueError
         else
           let c = \<lparr>ct_adapter = ''native-prekernel-v2'', ct_content_id = source_id,
                    ct_model_class = lv_module l @ ''.'' @ lv_class l, ct_config = pe_config env, ct_rank = None\<rparr>;
               common_id = cdgst c
           in rbind (inventory (lv_model l)) (\<lambda>(sch, _).
                ok (c\<lparr>ct_rank := Some (pe_rank env)\<rparr>, common_id, (common_id, pe_rank env), sch))))"

section \<open>The activation gate\<close>

record receipt =
  rc_rank :: int
  rc_generation :: string
  rc_error :: "string option"
  rc_content_id :: "string option"
  rc_source_metadata_id :: "string option"
  rc_compatibility_id :: "string option"
  rc_restored :: bool
  rc_artifact_id :: "string option"

definition failed :: "receipt \<Rightarrow> bool" where
  "failed r = (case rc_error r of None \<Rightarrow> False | Some s \<Rightarrow> s \<noteq> [])"

definition same_identity :: "receipt \<Rightarrow> receipt \<Rightarrow> bool" where
  "same_identity r r' = (rc_content_id r = rc_content_id r' \<and> rc_source_metadata_id r = rc_source_metadata_id r'
     \<and> rc_compatibility_id r = rc_compatibility_id r' \<and> rc_generation r = rc_generation r')"

text \<open>\<open>gathered\<close> is what \<^verbatim>\<open>all_gather_object\<close> gives every rank, when the process group is initialised.\<close>

definition activation_gate :: "receipt list option \<Rightarrow> receipt \<Rightarrow> unit res" where
  "activation_gate gathered receipt =
     (let receipts = (case gathered of None \<Rightarrow> [receipt] | Some rs \<Rightarrow> rs) in
      if list_ex failed receipts then err ValueError
      else if list_ex (\<lambda>r. \<not> same_identity r receipt) receipts then err ValueError
      else ok ())"

section \<open>The weights iterator\<close>

datatype backend = Runai | Coalesced | OtherBackend

record stream_options =
  so_backend :: backend
  so_memory_limit :: int
  so_owned_limit :: int
  so_batch_bytes :: int
  so_concurrency :: int
  so_device :: device

text \<open>The row of a source in the loader's receipts.\<close>

record source_row =
  sw_prefix :: string
  sw_native_fallback :: bool
  sw_metadata_id :: "string option"
  sw_complete :: bool

text \<open>
  What the iterator finds: the prepared files and whether they are safetensors, whether the strategy is
  torchao, the metadata of the files, the probe of direct reads, whether the streamer can be imported, the
  surroundings of a stream and the items of the streamer, and the rows of the native iterator.
\<close>

record stream_source =
  sx_prefix :: string
  sx_safe :: bool
  sx_torchao :: bool
  sx_paths :: "string list"
  sx_metadata :: "ckpt_metadata res"
  sx_probe :: "string \<Rightarrow> probe"
  sx_importable :: bool
  sx_world :: surroundings
  sx_items :: "streamed list"
  sx_finish :: "unit res"
  sx_moment :: nat
  sx_lead :: "nat \<Rightarrow> nat"
  sx_native :: "(string \<times> tensor) list \<times> unit res"

text \<open>The checks before the first weight; \<^verbatim>\<open>UnsupportedStream\<close> and \<^verbatim>\<open>ImportError\<close> send the source to the native iterator.\<close>

definition admit :: "stream_options \<Rightarrow> stream_source \<Rightarrow> ckpt_metadata res" where
  "admit o' s =
     rbind (sx_metadata s) (\<lambda>md.
       if so_backend o' = Coalesced then
         rbind (plan_batches md (so_batch_bytes o')) (\<lambda>bs.
           if list_ex (\<lambda>b. so_owned_limit o' < bt_bytes b) bs then err UnsupportedStream
           else rbind (check_direct_support (sx_probe s) (md_stamps md) {}) (\<lambda>_. ok md))
       else if \<not> sx_importable s then err ImportError
       else if md_tensors md = [] then err ValueError
       else if min (so_memory_limit o') (so_owned_limit o') < Max (set (map (\<lambda>row. ti_bytes (snd row)) (md_tensors md))) then err UnsupportedStream
       else ok md)"

definition prefixed :: "string \<Rightarrow> (string \<times> tensor) list \<Rightarrow> (string \<times> tensor) list" where
  "prefixed p ys = map (\<lambda>(n, t). (p @ n, t)) ys"

definition fallback_row :: "stream_source \<Rightarrow> source_row" where
  "fallback_row s = \<lparr>sw_prefix = sx_prefix s, sw_native_fallback = True, sw_metadata_id = None, sw_complete = False\<rparr>"

text \<open>
  \<^verbatim>\<open>_get_weights_iterator\<close> run to its end: the weights, the row it appends to the receipts, and how it ends. \<open>skip\<close> is the filter of
  remote experts, \<open>dec\<close> prints a number, \<open>advise\<close> and \<open>env\<close> belong to the streamer.
\<close>

definition get_weights_iterator :: "(int \<Rightarrow> string) \<Rightarrow> (string \<Rightarrow> unit res) \<Rightarrow> (string \<rightharpoonup> string) \<Rightarrow> (string \<Rightarrow> bool) \<Rightarrow> bool \<Rightarrow> stream_options \<Rightarrow> stream_source
    \<Rightarrow> (string \<times> tensor) list \<times> source_row option \<times> unit res" where
  "get_weights_iterator dec advise env skip enabled o' s =
     (if \<not> enabled then (fst (sx_native s), None, snd (sx_native s))
      else if \<not> sx_safe s \<or> sx_torchao s then (fst (sx_native s), Some (fallback_row s), snd (sx_native s))
      else if so_backend o' = OtherBackend then ([], None, err ValueError)
      else case admit o' s of
        Inl e \<Rightarrow>
          if e = UnsupportedStream \<or> e = ImportError then (fst (sx_native s), Some (fallback_row s), snd (sx_native s))
          else ([], None, err e)
      | Inr md \<Rightarrow>
          let (ys, m, r) =
            (if so_backend o' = Coalesced
             then coalesced_weights (sx_world s) (sx_paths s) md (so_concurrency o') (so_memory_limit o') (so_owned_limit o')
                    (so_batch_bytes o') (so_device o') True skip (sx_lead s)
             else (case stream_weights (sx_world s) dec advise md (so_concurrency o') (so_memory_limit o') (so_owned_limit o')
                          (so_device o') skip (sx_items s) (sx_finish s) (sx_moment s) env of
                     (ys, m, _, r) \<Rightarrow> (ys, m, r)))
          in (prefixed (sx_prefix s) ys,
              Some \<lparr>sw_prefix = sx_prefix s, sw_native_fallback = False, sw_metadata_id = Some (md_source_id md), sw_complete = mx_complete m\<rparr>, r))"

section \<open>Loading\<close>

datatype mode = Auto | Prepare | Restore | Native | Stream | OtherMode

text \<open>The artifact directory: artifacts by common identifier and rank, and those moved aside.\<close>

record 'c store =
  st_artifacts :: "string \<times> int \<Rightarrow> 'c artifact option"
  st_rejected :: "'c artifact list"

definition reject :: "string \<times> int \<Rightarrow> 'c store \<Rightarrow> 'c store" where
  "reject path d = (case st_artifacts d path of None \<Rightarrow> d
     | Some a \<Rightarrow> d\<lparr>st_artifacts := (st_artifacts d)(path := None), st_rejected := st_rejected d @ [a]\<rparr>)"

text \<open>
  The parameters of a load: digests, the native loader, the fused buffers of the draft model, and the
  system's answers to the writes of a publish and the reads of a restore.
\<close>

record 'h loader =
  ld_sha :: "byte list \<Rightarrow> string"
  ld_digest :: "'h contract manifest \<Rightarrow> string"
  ld_fdigest :: "file_hash list \<Rightarrow> string"
  ld_cdigest :: "'h contract \<Rightarrow> string"
  ld_str :: "pyval \<Rightarrow> string"
  ld_native :: "live \<Rightarrow> live \<times> unit res"
  ld_fused :: "live \<Rightarrow> live \<times> unit res"
  ld_writes :: "os_answer list"
  ld_reads :: "chunk \<Rightarrow> os_answer list"
  ld_opened :: "unit res"
  ld_choice :: "nat \<Rightarrow> nat"
  ld_depth :: nat

text \<open>What \<^verbatim>\<open>_load\<close> returns to \<^verbatim>\<open>load_weights\<close>.\<close>

record loaded_as =
  la_content_id :: "string option"
  la_compatibility_id :: "string option"
  la_source_metadata_id :: "string option"
  la_restored :: bool
  la_native_bypass :: bool
  la_artifact_id :: "string option"

definition native_bypass :: loaded_as where
  "native_bypass = \<lparr>la_content_id = None, la_compatibility_id = None, la_source_metadata_id = None, la_restored = False, la_native_bypass = True, la_artifact_id = None\<rparr>"

definition loaded_receipt :: "'h contract \<Rightarrow> string \<Rightarrow> bool \<Rightarrow> string option \<Rightarrow> loaded_as" where
  "loaded_receipt c common_id restored aid = \<lparr>la_content_id = Some (ct_content_id c), la_compatibility_id = Some common_id, la_source_metadata_id = None,
     la_restored = restored, la_native_bypass = False, la_artifact_id = aid\<rparr>"

text \<open>A restore: the storages, then the recorded attributes, then the adapter's own step.\<close>

definition restore_live :: "'h loader \<Rightarrow> 'h contract \<Rightarrow> 'h contract artifact \<Rightarrow> live \<Rightarrow> live \<times> unit res" where
  "restore_live p contract a l =
     (case restore (ld_sha p) (ld_digest p) (ld_opened p) (lv_model l) (Some a) contract (ld_depth p) (ld_choice p) (ld_reads p) of
        (m', Inl e) \<Rightarrow> (l\<lparr>lv_model := m'\<rparr>, err e)
      | (m', Inr _) \<Rightarrow>
          (case mf_loader_state (af_manifest a) of
             None \<Rightarrow> (l\<lparr>lv_model := m'\<rparr>, err KeyError)
           | Some d \<Rightarrow>
               (case apply_delta d (lv_mods l) of
                  Inl e \<Rightarrow> (l\<lparr>lv_model := m'\<rparr>, err e)
                | Inr mods \<Rightarrow>
                    let l' = l\<lparr>lv_model := m', lv_mods := mods\<rparr> in
                    (case adapter_for (lv_class l) (lv_module l) True of
                       Inl e \<Rightarrow> (l', err e)
                     | Inr DFlashAdapter \<Rightarrow> ld_fused p l'
                     | Inr _ \<Rightarrow> (l', ok ())))))"

text \<open>Preparing an artifact from a natively loaded model; \<open>l0\<close> is the model as constructed.\<close>

definition prepare_artifact :: "'h loader \<Rightarrow> 'h contract \<Rightarrow> string \<times> int \<Rightarrow> schema \<Rightarrow> live \<Rightarrow> live \<Rightarrow> 'h contract store
    \<Rightarrow> 'h contract store \<times> string res" where
  "prepare_artifact p contract path before_schema l0 l d =
     (case check_side_effects (object_state (ld_str p) (lv_mods l0)) (object_state (ld_str p) (lv_mods l)) (lv_class l) (lv_module l) of
        Inl e \<Rightarrow> (d, err e)
      | Inr _ \<Rightarrow>
          (case scalar_delta (scalar_state (lv_mods l0)) (scalar_state (lv_mods l)) of
             Inl e \<Rightarrow> (d, err e)
           | Inr changes \<Rightarrow>
               (case publish (ld_sha p) (ld_digest p) (lv_model l) (st_artifacts d path) contract 4194304 (Some before_schema) (Some changes) (ld_writes p) of
                  (there, Inl e) \<Rightarrow> (d\<lparr>st_artifacts := (st_artifacts d)(path := there)\<rparr>, err e)
                | (there, Inr a) \<Rightarrow> (d\<lparr>st_artifacts := (st_artifacts d)(path := there)\<rparr>, ok (af_id a)))))"

definition load_natively :: "'h loader \<Rightarrow> mode \<Rightarrow> 'h planned \<Rightarrow> live \<times> 'h contract store \<Rightarrow> (live \<times> 'h contract store) \<times> loaded_as res" where
  "load_natively p mode = (\<lambda>(contract, common_id, path, before_schema) (l, d).
     if mode = Restore then ((l, d), err FileNotFoundError)
     else case ld_native p l of
       (l', Inl e) \<Rightarrow> ((l', d), err e)
     | (l', Inr _) \<Rightarrow>
         if st_artifacts d path \<noteq> None then ((l', d), ok (loaded_receipt contract common_id False None))
         else (case prepare_artifact p contract path before_schema l l' d of
             (d', Inl e) \<Rightarrow> if mode = Prepare then ((l', d'), err e) else ((l', d'), ok (loaded_receipt contract common_id False None))
           | (d', Inr aid) \<Rightarrow> ((l', d'), ok (loaded_receipt contract common_id False (Some aid)))))"

text \<open>\<^verbatim>\<open>_load\<close> in the modes that use artifacts.\<close>

definition load_artifact :: "'h loader \<Rightarrow> 'h plan_env \<Rightarrow> mode \<Rightarrow> live \<times> 'h contract store \<Rightarrow> (live \<times> 'h contract store) \<times> loaded_as res" where
  "load_artifact p env mode = (\<lambda>(l, d).
     case plan (ld_fdigest p) (ld_cdigest p) env l of
       Inl e \<Rightarrow>
         if mode \<noteq> Auto then ((l, d), err e)
         else (case ld_native p l of (l', Inl e') \<Rightarrow> ((l', d), err e') | (l', Inr _) \<Rightarrow> ((l', d), ok native_bypass))
     | Inr (contract, common_id, path, before_schema) \<Rightarrow>
         (case (if mode = Prepare then None else st_artifacts d path) of
            None \<Rightarrow> load_natively p mode (contract, common_id, path, before_schema) (l, d)
          | Some a \<Rightarrow>
              (case rbind (inspect_artifact (ld_digest p) contract (Some a)) (\<lambda>mf. if mf_schema mf \<noteq> before_schema then err ValueError else ok mf) of
                 Inl e \<Rightarrow>
                   if mode = Restore then ((l, d), err e)
                   else load_natively p mode (contract, common_id, path, before_schema) (l, reject path d)
               | Inr _ \<Rightarrow>
                   (case restore_live p contract a l of
                      (l', Inl e) \<Rightarrow> ((l', if mode = Auto then reject path d else d), err e)
                    | (l', Inr _) \<Rightarrow> ((l', d), ok (loaded_receipt contract common_id True (Some (af_id a))))))))"

text \<open>\<^verbatim>\<open>_load\<close> in stream mode: the native loader has consumed the iterators, which left \<open>rows\<close>.\<close>

definition load_stream :: "((string \<times> string option \<times> bool) list \<Rightarrow> string) \<Rightarrow> string \<Rightarrow> unit res \<Rightarrow> source_row list \<Rightarrow> loaded_as res" where
  "load_stream sdgst compatibility_id native rows =
     rbind native (\<lambda>_.
       if list_ex (\<lambda>r. \<not> sw_native_fallback r \<and> \<not> sw_complete r) rows then err ValueError
       else ok \<lparr>la_content_id = None, la_compatibility_id = Some compatibility_id,
                la_source_metadata_id = Some (sdgst (map (\<lambda>r. (sw_prefix r, sw_metadata_id r, sw_native_fallback r)) rows)), la_restored = False, la_native_bypass = False, la_artifact_id = None\<rparr>)"

definition load :: "'h loader \<Rightarrow> ((string \<times> string option \<times> bool) list \<Rightarrow> string) \<Rightarrow> string \<Rightarrow> (live \<Rightarrow> live \<times> unit res \<times> source_row list) \<Rightarrow> 'h plan_env \<Rightarrow> mode
    \<Rightarrow> live \<times> 'h contract store \<Rightarrow> (live \<times> 'h contract store) \<times> loaded_as res" where
  "load p sdgst compatibility_id streamed env mode = (\<lambda>(l, d).
     if mode = OtherMode then ((l, d), err ValueError)
     else if mode = Stream then (case streamed l of (l', r, rows) \<Rightarrow> ((l', d), load_stream sdgst compatibility_id r rows))
     else if mode = Native then (case ld_native p l of (l', Inl e) \<Rightarrow> ((l', d), err e) | (l', Inr _) \<Rightarrow> ((l', d), ok native_bypass))
     else load_artifact p env mode (l, d))"

text \<open>\<^verbatim>\<open>load_weights\<close>: the receipt of this rank; \<open>describe\<close> gives the chain of an exception's causes. The gate follows with what all ranks gathered.\<close>

definition rank_receipt :: "(exn \<Rightarrow> string) \<Rightarrow> int \<Rightarrow> string \<Rightarrow> loaded_as res \<Rightarrow> receipt" where
  "rank_receipt describe rank generation r =
     (case r of
        Inl e \<Rightarrow> \<lparr>rc_rank = rank, rc_generation = generation, rc_error = Some (''rank '' @ describe e), rc_content_id = None,
                  rc_source_metadata_id = None, rc_compatibility_id = None, rc_restored = False, rc_artifact_id = None\<rparr>
      | Inr a \<Rightarrow> \<lparr>rc_rank = rank, rc_generation = generation, rc_error = None, rc_content_id = la_content_id a,
                  rc_source_metadata_id = la_source_metadata_id a, rc_compatibility_id = la_compatibility_id a,
                  rc_restored = la_restored a, rc_artifact_id = la_artifact_id a\<rparr>)"

definition load_weights :: "(exn \<Rightarrow> string) \<Rightarrow> bool \<Rightarrow> (int \<times> string \<times> loaded_as res) list \<Rightarrow> nat \<Rightarrow> unit res" where
  "load_weights describe constructing ranks i =
     (if \<not> constructing then err ValueError
      else let receipts = map (\<lambda>(rank, generation, r). rank_receipt describe rank generation r) ranks
           in activation_gate (Some receipts) (receipts ! i))"


section \<open>A restored worker is a natively loaded one\<close>

lemma plan_ok:
  assumes "plan fd cd env l = ok (contract, common_id, path, sch)"
  shows "\<exists>groups. inventory (lv_model l) = ok (sch, groups)" "is_ok (adapter_for (lv_class l) (lv_module l) True)"
  using assms by (auto simp: plan_def rbind_ok_iff Let_def split: if_splits prod.splits)

lemma plan_cong:
  assumes "plan fd cd env l = ok (contract, common_id, path, sch)" and "lv_class l' = lv_class l" and "lv_module l' = lv_module l"
    and "lv_meta l' = lv_meta l" and "inventory (lv_model l') = ok (sch, groups')"
  shows "plan fd cd env l' = ok (contract, common_id, path, sch)"
  using assms by (auto simp: plan_def rbind_ok_iff Let_def split: if_splits prod.splits)

lemma prepare_run:
  assumes "load_artifact p env Prepare (l0, d0) = ((l1, d1), ok rc)" and "plan (ld_fdigest p) (ld_cdigest p) env l0 = ok (contract, common_id, path, sch)"
    and "st_artifacts d0 path = None"
  obtains changes a where "ld_native p l0 = (l1, ok ())" "scalar_delta (scalar_state (lv_mods l0)) (scalar_state (lv_mods l1)) = ok changes"
    "publish (ld_sha p) (ld_digest p) (lv_model l1) None contract 4194304 (Some sch) (Some changes) (ld_writes p) = (Some a, ok a)"
    "st_artifacts d1 path = Some a" "rc = loaded_receipt contract common_id False (Some (af_id a))"
proof -
  have nat: "load_natively p Prepare (contract, common_id, path, sch) (l0, d0) = ((l1, d1), ok rc)"
    using assms(1,2) by (simp add: load_artifact_def)
  then obtain l' where l': "ld_native p l0 = (l', ok ())" by (auto simp: load_natively_def split: prod.splits sum.splits)
  obtain d' r where prep: "prepare_artifact p contract path sch l0 l' d0 = (d', r)" by fastforce
  have r: "l' = l1" "d' = d1" "\<exists>aid. r = ok aid \<and> rc = loaded_receipt contract common_id False (Some aid)"
    using nat l' prep assms(3) by (auto simp: load_natively_def split: sum.splits)
  then obtain aid where aid: "r = ok aid" "rc = loaded_receipt contract common_id False (Some aid)" by blast
  have chk: "is_ok (check_side_effects (object_state (ld_str p) (lv_mods l0)) (object_state (ld_str p) (lv_mods l1)) (lv_class l1) (lv_module l1))"
    using prep r(1) aid(1) by (auto simp: prepare_artifact_def split: sum.splits)
  obtain changes where ch: "scalar_delta (scalar_state (lv_mods l0)) (scalar_state (lv_mods l1)) = ok changes"
    using prep r(1) aid(1) chk by (auto simp: prepare_artifact_def split: sum.splits)
  obtain there pr where pub: "publish (ld_sha p) (ld_digest p) (lv_model l1) None contract 4194304 (Some sch) (Some changes) (ld_writes p) = (there, pr)"
    by fastforce
  obtain a where a: "pr = ok a" "aid = af_id a" "st_artifacts d1 path = there"
    using prep r(1,2) aid(1) chk ch pub assms(3) by (auto simp: prepare_artifact_def split: sum.splits)
  have "there = Some a" using pub a(1) by (auto simp: publish_def Let_def split: if_splits sum.splits prod.splits)
  then show thesis using that [of changes a] l' r(1) ch pub a aid(2) by simp
qed

text \<open>
  C28: A worker restored from a prepared artifact is the worker a native load gives. When a prepare run has
  returned, and a fresh worker constructs the model with the same modules and the same tensor schema on one device,
  a restore run succeeds for every depth, completion order and splitting of its reads, reports the
  same content and compatibility identifiers, and leaves the storages of the natively loaded model
  byte for byte and its public JSON attributes equal for Python. The hypothesis on \<^verbatim>\<open>ld_fused\<close> is that
  rebuilding the draft model's fused buffers succeeds and touches neither.
\<close>

theorem restored_equals_native:
  assumes "load p sdgst cid streamed env Prepare (l0, d0) = ((l1, d1), ok rc1)"
    and "plan (ld_fdigest p) (ld_cdigest p) env l0 = ok (contract, common_id, path, sch)" and "st_artifacts d0 path = None"
    and "wide (ld_writes p)" and "wf2 (lv_mods l0)" and "wf2 (lv_mods l1)" and "\<forall>n. map_of (lv_mods l1) n \<noteq> None \<longrightarrow> map_of (lv_mods l0) n \<noteq> None"
    and "lv_class f = lv_class l0" and "lv_module f = lv_module l0" and "lv_meta f = lv_meta l0" and "lv_mods f = lv_mods l0"
    and "inventory (lv_model f) = ok (sch, groups)" and "inventory (lv_model l1) = ok (sch1, groups1)"
    and "map length (storages (lv_model f) groups) = map length (storages (lv_model l1) groups1)" and "\<forall>g \<in> set groups. fst g = dev"
    and "1 \<le> ld_depth p" and "ld_depth p \<le> 128" and "\<forall>e. benign (ld_reads p e)" and "ld_opened p = ok ()"
    and "\<forall>l. snd (ld_fused p l) = ok () \<and> lv_model (fst (ld_fused p l)) = lv_model l
       \<and> scalar_state (lv_mods (fst (ld_fused p l))) = scalar_state (lv_mods l)"
  shows "\<exists>l2 rc2. load p sdgst cid streamed env Restore (f, d1) = ((l2, d1), ok rc2) \<and> la_restored rc2
     \<and> la_content_id rc2 = la_content_id rc1 \<and> la_compatibility_id rc2 = la_compatibility_id rc1
     \<and> storages (lv_model l2) groups = storages (lv_model l1) groups1 \<and> same_scalars (lv_mods l2) (lv_mods l1)"
proof -
  have run: "load_artifact p env Prepare (l0, d0) = ((l1, d1), ok rc1)" using assms(1) by (simp add: load_def)
  obtain changes a where a: "ld_native p l0 = (l1, ok ())" "scalar_delta (scalar_state (lv_mods l0)) (scalar_state (lv_mods l1)) = ok changes"
      "publish (ld_sha p) (ld_digest p) (lv_model l1) None contract 4194304 (Some sch) (Some changes) (ld_writes p) = (Some a, ok a)"
      "st_artifacts d1 path = Some a" "rc1 = loaded_receipt contract common_id False (Some (af_id a))"
    by (rule prepare_run [OF run assms(2,3)])
  have sch: "sch1 = sch" using a(3) assms(13) by (auto simp: publish_def split: if_splits)
  obtain a' where a': "publish (ld_sha p) (ld_digest p) (lv_model l1) None contract 4194304 (Some sch) (Some changes) (ld_writes p) = (Some a', ok a')"
      "inspect_artifact (ld_digest p) contract (Some a') = ok (af_manifest a')" "mf_schema (af_manifest a') = sch"
      "mf_storage_bytes (af_manifest a') = map (int \<circ> length) (storages (lv_model l1) groups1)" "mf_chunk_bytes (af_manifest a') = 4194304"
      "\<forall>e \<in> set (mf_chunks (af_manifest a')). recorded (ld_sha p) (storages (lv_model l1) groups1) (af_weights a') e"
      "mf_loader_state (af_manifest a') = Some changes"
    by (rule publish_wide [OF assms(4) assms(13) [unfolded sch], of 4194304 "Some sch" "ld_sha p" "ld_digest p" contract "Some changes"]) auto
  have eq: "a' = a" using a(3) a'(1) by simp
  obtain m3 where m3: "restore (ld_sha p) (ld_digest p) (ok ()) (lv_model f) (Some a) contract (ld_depth p) (ld_choice p) (ld_reads p) = (m3, ok ())"
      "storages m3 groups = storages (lv_model l1) groups1"
    using restore_published [OF a'(2-6) _ _ assms(12,14-18), of "ld_choice p"] eq by auto
  obtain mods2 where mods2: "apply_delta changes (lv_mods f) = ok mods2" "same_scalars mods2 (lv_mods l1)"
    using scalar_delta_replayed [OF a(2) assms(5-7)] assms(11) by auto
  obtain ad where ad: "adapter_for (lv_class f) (lv_module f) True = ok ad" using plan_ok(2) [OF assms(2)] assms(8,9) by (auto elim: is_okE)
  let ?l = "f\<lparr>lv_model := m3, lv_mods := mods2\<rparr>"
  obtain l2 where l2: "restore_live p contract a f = (l2, ok ())" "lv_model l2 = m3" "scalar_state (lv_mods l2) = scalar_state mods2"
  proof (cases "ad = DFlashAdapter")
    case True
    have "ld_fused p ?l = (fst (ld_fused p ?l), ok ())" using assms(20) by (metis prod.collapse)
    then show thesis using that [of "fst (ld_fused p ?l)"] assms(19,20) m3(1) a'(7) eq mods2(1) ad True by (simp add: restore_live_def)
  next
    case False
    then show thesis using that [of ?l] assms(19) m3(1) a'(7) eq mods2(1) ad by (cases ad) (simp_all add: restore_live_def)
  qed
  have "plan (ld_fdigest p) (ld_cdigest p) env f = ok (contract, common_id, path, sch)" by (rule plan_cong [OF assms(2,8-10,12)])
  then have "load p sdgst cid streamed env Restore (f, d1) = ((l2, d1), ok (loaded_receipt contract common_id True (Some (af_id a))))"
    using a(4) a'(2,3) eq l2(1) by (simp add: load_def load_artifact_def)
  moreover have "same_scalars (lv_mods l2) (lv_mods l1)" using mods2(2) l2(3) by (simp add: same_scalars_def)
  ultimately show ?thesis using m3(2) l2(2) a(5) by (auto simp: loaded_receipt_def)
qed

section \<open>All ranks or none\<close>

text \<open>
  C29: The activation gate lets all ranks through or none. When every rank has gathered the receipts of all, a rank
  activates exactly when every rank's load returned and any two ranks agree on content, source metadata,
  compatibility identifier and generation; the answer does not depend on the rank.
\<close>

theorem activation_all_or_none:
  assumes "i < length ranks"
  shows "load_weights describe True ranks i = ok () \<longleftrightarrow>
     (\<forall>(rank, generation, r) \<in> set ranks. is_ok r)
     \<and> (\<forall>(rank, generation, r) \<in> set ranks. \<forall>(rank', generation', r') \<in> set ranks. \<forall>a a'. r = ok a \<and> r' = ok a' \<longrightarrow>
          la_content_id a = la_content_id a' \<and> la_source_metadata_id a = la_source_metadata_id a'
          \<and> la_compatibility_id a = la_compatibility_id a' \<and> generation = generation')"
proof -
  define rc where "rc = (\<lambda>x. rank_receipt describe (fst x) (fst (snd x)) (snd (snd x)))"
  let ?agree = "\<lambda>x y. \<forall>a a'. snd (snd x) = ok a \<and> snd (snd y) = ok a' \<longrightarrow> la_content_id a = la_content_id a'
      \<and> la_source_metadata_id a = la_source_metadata_id a' \<and> la_compatibility_id a = la_compatibility_id a' \<and> fst (snd x) = fst (snd y)"
  have fail: "failed (rc x) \<longleftrightarrow> \<not> is_ok (snd (snd x))" for x
    by (auto simp: rc_def failed_def rank_receipt_def split: sum.splits)
  have same: "same_identity (rc x) (rc y) \<longleftrightarrow> ?agree x y" if "is_ok (snd (snd x))" "is_ok (snd (snd y))" for x y
    using that by (auto elim!: is_okE simp: rc_def same_identity_def rank_receipt_def)
  have pair: "(\<forall>x \<in> set ranks. same_identity (rc x) (rc (ranks ! i))) \<longleftrightarrow> (\<forall>x \<in> set ranks. \<forall>y \<in> set ranks. same_identity (rc x) (rc y))"
  proof -
    have sym: "same_identity x y \<Longrightarrow> same_identity z y \<Longrightarrow> same_identity x z" for x y z by (simp add: same_identity_def)
    show ?thesis by (intro iffI ballI) (blast intro: sym nth_mem [OF assms])+
  qed
  have "load_weights describe True ranks i = ok ()
      \<longleftrightarrow> (\<forall>x \<in> set ranks. \<not> failed (rc x)) \<and> (\<forall>x \<in> set ranks. same_identity (rc x) (rc (ranks ! i)))"
  proof -
    have "load_weights describe True ranks i = activation_gate (Some (map rc ranks)) (rc (ranks ! i))"
      using assms by (simp add: load_weights_def Let_def rc_def case_prod_unfold)
    then show ?thesis by (simp add: activation_gate_def list_ex_iff)
  qed
  also have "\<dots> \<longleftrightarrow> (\<forall>x \<in> set ranks. is_ok (snd (snd x))) \<and> (\<forall>x \<in> set ranks. \<forall>y \<in> set ranks. ?agree x y)"
    unfolding pair fail not_not using same by (intro conj_cong refl ball_cong) blast+
  finally show ?thesis unfolding case_prod_beta .
qed

theorem activation_all_or_none_witness:
  "load_weights (\<lambda>_. ''x'') True [(0, ''g'', ok native_bypass), (1, ''g'', ok native_bypass)] 1 = ok ()
   \<and> load_weights (\<lambda>_. ''x'') True [(0, ''g'', err OSError), (1, ''g'', ok native_bypass)] 1 \<noteq> ok ()"
  using activation_all_or_none [of 1 "[(0, ''g'', ok native_bypass), (1, ''g'', ok native_bypass)]" "\<lambda>_. ''x''"]
    activation_all_or_none [of 1 "[(0, ''g'', err OSError), (1, ''g'', ok native_bypass)]" "\<lambda>_. ''x''"]
  by simp

text \<open>A worker whose native load fills two bytes and sets one attribute.\<close>

definition demo_live :: "byte list \<Rightarrow> int \<Rightarrow> live" where
  "demo_live bs n = \<lparr>lv_model = demo_model bs, lv_class = ''LlamaForCausalLM'', lv_module = ''vllm.m'', lv_mods = [([], [(''loaded'', PInt n)])], lv_meta = False\<rparr>"

definition demo_tree :: "tree_file list" where
  "demo_tree = [\<lparr>tf_parts = [''a.json''], tf_regular = True, tf_size = 1, tf_mtime = 5, tf_bytes = [9]\<rparr>]"

definition demo_identity :: source_identity where
  "demo_identity = \<lparr>sid_content = ''c'', sid_files = [], sid_inventory = [\<lparr>ie_name = ''a.json'', ie_size = 1, ie_mtime = 5\<rparr>]\<rparr>"

definition demo_env :: "unit plan_env" where
  "demo_env = \<lparr>pe_root = True, pe_identity = ok demo_identity, pe_tree = demo_tree, pe_data_parallel = 1, pe_quant_override = False,
     pe_model_weights = False, pe_config = (), pe_rank = 0\<rparr>"

definition demo_loader :: "unit loader" where
  "demo_loader = \<lparr>ld_sha = demo_sha, ld_digest = \<lambda>_. ''id'', ld_fdigest = \<lambda>_. ''c'', ld_cdigest = \<lambda>_. ''k'', ld_str = \<lambda>_. [],
     ld_native = \<lambda>_. (demo_live [7, 8] 3, ok ()), ld_fused = \<lambda>l. (l, ok ()), ld_writes = [], ld_reads = \<lambda>_. [Did 1], ld_opened = ok (),
     ld_choice = \<lambda>k. k, ld_depth = 4\<rparr>"

definition demo_contract :: "unit contract" where
  "demo_contract = \<lparr>ct_adapter = ''native-prekernel-v2'', ct_content_id = ''c'', ct_model_class = ''vllm.m.LlamaForCausalLM'', ct_config = (), ct_rank = Some 0\<rparr>"

definition demo_store :: "unit contract store" where
  "demo_store = \<lparr>st_artifacts = \<lambda>_. None, st_rejected = []\<rparr>"

lemma demo_plan: "length bs = 2 \<Longrightarrow> plan (ld_fdigest demo_loader) (ld_cdigest demo_loader) demo_env (demo_live bs n) = ok (demo_contract, ''k'', (''k'', 0), demo_schema)"
  by (simp add: plan_def demo_env_def demo_live_def demo_loader_def adapter_for_def ADAPTERS_def starts_with_def verify_source_def demo_identity_def
      source_inventory_def source_files_def demo_tree_def suffix_def Let_def demo_inventory demo_contract_def)

lemma demo_delta: "scalar_delta (scalar_state (lv_mods (demo_live bs 0))) (scalar_state (lv_mods (demo_live bs' 3))) = ok [([], [(''loaded'', PInt 3)])]"
  by (simp add: scalar_delta_def scalar_state_def scalars_def demo_live_def public_def starts_with_def removed_def unchanged_def attr_at_def put_def)

lemma demo_check:
  "check_side_effects (object_state pstr (lv_mods (demo_live bs 0))) (object_state pstr (lv_mods (demo_live bs' 3))) (lv_class (demo_live bs' 3)) (lv_module (demo_live bs' 3)) = ok ()"
  by (simp add: check_side_effects_def object_state_def demo_live_def adapter_for_def ADAPTERS_def starts_with_def bad_change_def attr_at_def attr_keys_def
      public_def is_value_def same_tag_def)

lemma demo_prepare:
  obtains a where "load demo_loader sdgst cid streamed demo_env Prepare (demo_live [0, 0] 0, demo_store)
     = ((demo_live [7, 8] 3, demo_store\<lparr>st_artifacts := (\<lambda>_. None)((''k'', 0) := Some a)\<rparr>), ok (loaded_receipt demo_contract ''k'' False (Some (af_id a))))"
proof -
  have w: "wide []" "(0::int) < 4194304" "(4194304::int) mod 4096 = 0" by (simp_all add: wide_def)
  obtain a where a: "publish demo_sha (\<lambda>_. ''id'') (demo_model [7, 8]) None demo_contract 4194304 (Some demo_schema) (Some [([], [(''loaded'', PInt 3)])]) [] = (Some a, ok a)"
    by (rule publish_wide [OF w(1) demo_inventory [of "[7, 8]"] w(2,3), of "Some demo_schema" demo_sha "\<lambda>_. ''id''" demo_contract "Some [([], [(''loaded'', PInt 3)])]"]) auto
  have m: "lv_model (demo_live bs n) = demo_model bs" for bs n by (simp add: demo_live_def)
  have "prepare_artifact demo_loader demo_contract (''k'', 0) demo_schema (demo_live [0, 0] 0) (demo_live [7, 8] 3) demo_store
      = (demo_store\<lparr>st_artifacts := (\<lambda>_. None)((''k'', 0) := Some a)\<rparr>, ok (af_id a))"
    unfolding prepare_artifact_def demo_check demo_delta m using a by (simp add: demo_loader_def demo_store_def)
  then have "load_natively demo_loader Prepare (demo_contract, ''k'', (''k'', 0), demo_schema) (demo_live [0, 0] 0, demo_store)
      = ((demo_live [7, 8] 3, demo_store\<lparr>st_artifacts := (\<lambda>_. None)((''k'', 0) := Some a)\<rparr>), ok (loaded_receipt demo_contract ''k'' False (Some (af_id a))))"
    by (simp add: load_natively_def demo_loader_def demo_store_def)
  then show thesis using that demo_plan [of "[0, 0]" 0] by (simp add: load_def load_artifact_def)
qed

theorem restored_equals_native_witness:
  "\<exists>d1 rc1 l2 rc2. load demo_loader (\<lambda>_. []) [] (\<lambda>l. (l, ok (), [])) demo_env Prepare (demo_live [0, 0] 0, demo_store) = ((demo_live [7, 8] 3, d1), ok rc1)
     \<and> load demo_loader (\<lambda>_. []) [] (\<lambda>l. (l, ok (), [])) demo_env Restore (demo_live [1, 1] 0, d1) = ((l2, d1), ok rc2)
     \<and> la_restored rc2 \<and> storages (lv_model l2) [(''cpu'', 5)] = [[7, 8]] \<and> same_scalars (lv_mods l2) [([], [(''loaded'', PInt 3)])]"
proof -
  obtain a where a: "load demo_loader (\<lambda>_. []) [] (\<lambda>l. (l, ok (), [])) demo_env Prepare (demo_live [0, 0] 0, demo_store)
     = ((demo_live [7, 8] 3, demo_store\<lparr>st_artifacts := (\<lambda>_. None)((''k'', 0) := Some a)\<rparr>), ok (loaded_receipt demo_contract ''k'' False (Some (af_id a))))"
    by (rule demo_prepare)
  have m: "lv_model (demo_live bs n) = demo_model bs" "lv_mods (demo_live bs n) = [([], [(''loaded'', PInt n)])]" for bs n by (simp_all add: demo_live_def)
  have i: "inventory (lv_model (demo_live bs n)) = ok (demo_schema, [(''cpu'', 5)])" if "length bs = 2" for bs n using demo_inventory [OF that] by (simp add: m)
  have wf: "wf2 (lv_mods (demo_live bs n))" for bs n by (simp add: m wf2_def od_wf_def od_keys_def)
  have "\<exists>l2 rc2. load demo_loader (\<lambda>_. []) [] (\<lambda>l. (l, ok (), [])) demo_env Restore (demo_live [1, 1] 0, demo_store\<lparr>st_artifacts := (\<lambda>_. None)((''k'', 0) := Some a)\<rparr>)
        = ((l2, demo_store\<lparr>st_artifacts := (\<lambda>_. None)((''k'', 0) := Some a)\<rparr>), ok rc2) \<and> la_restored rc2
     \<and> la_content_id rc2 = la_content_id (loaded_receipt demo_contract ''k'' False (Some (af_id a)))
     \<and> la_compatibility_id rc2 = la_compatibility_id (loaded_receipt demo_contract ''k'' False (Some (af_id a)))
     \<and> storages (lv_model l2) [(''cpu'', 5)] = storages (lv_model (demo_live [7, 8] 3)) [(''cpu'', 5)] \<and> same_scalars (lv_mods l2) (lv_mods (demo_live [7, 8] 3))"
    by (rule restored_equals_native [OF a demo_plan [of "[0, 0]" 0] _ _ wf wf _ _ _ _ _ i i, where dev = "''cpu''"])
      (simp_all add: m demo_store_def demo_loader_def wide_def demo_storages, simp_all add: demo_live_def)
  then show ?thesis using a by (auto simp: m demo_storages)
qed

section \<open>Streaming a source\<close>

text \<open>
  A source falls back to the native iterator only before its first weight: once a stream has
  started, an error of the stream is raised. A streamed source is marked complete only when its stream ended without an error.
\<close>

lemma coalesced_complete_ok:
  assumes "coalesced_weights w paths md c ml ol bb dv direct skip lead = (ys, m, r)" and "mx_complete m"
  shows "r = ok ()"
  using assms by (auto simp: coalesced_weights_def metrics_init_def Let_def split: if_splits sum.splits prod.splits)

lemma stream_weights_complete_ok:
  assumes "stream_weights w dec advise md c ml ol dv skip items fin t env = (ys, m, env', r)" and "mx_complete m"
  shows "is_ok r"
  using assms by (auto simp: stream_weights_def metrics_init_def Let_def split: if_splits prod.splits)

lemma iterator_complete:
  assumes "get_weights_iterator dec advise env skip True o' s = (ys, Some row, r)" and "\<not> sw_native_fallback row"
  shows "\<exists>md. admit o' s = ok md \<and> sw_metadata_id row = Some (md_source_id md) \<and> (sw_complete row \<longrightarrow> is_ok r)"
proof -
  have start: "sx_safe s" "\<not> sx_torchao s" "so_backend o' \<noteq> OtherBackend"
    using assms by (auto simp: get_weights_iterator_def fallback_row_def split: if_splits sum.splits)
  obtain md where md: "admit o' s = ok md"
    using assms start by (auto simp: get_weights_iterator_def fallback_row_def split: if_splits sum.splits)
  show ?thesis
  proof (cases "so_backend o' = Coalesced")
    case True
    then show ?thesis using assms(1) start md
      by (auto simp: get_weights_iterator_def Let_def split: prod.splits dest: coalesced_complete_ok)
  next
    case False
    then show ?thesis using assms(1) start md
      by (auto simp: get_weights_iterator_def Let_def split: prod.splits dest: stream_weights_complete_ok)
  qed
qed

end
