(* ===== verification/Spec_Stats.thy ===== *)
theory Spec_Stats
  imports Py_Values
begin

text \<open>
  The statistics and cost tables of adaptive verification (\<^verbatim>\<open>vllm/v1/spec_decode/adaptive.py\<close>: \<^verbatim>\<open>HintPriors\<close>, \<^verbatim>\<open>CostCurve\<close>,
  \<^verbatim>\<open>PrefixStats\<close>). Floating-point numbers are exact rationals here: rounding and overflow are not modelled, a NaN
  is the value None. Lemmas: estimates stay probabilities, an interpolated cost stays between the
  measured ones, and the chosen cap is within three percent of the best estimated rate.
\<close>

section \<open>Tables\<close>

definition CAPS :: "nat list" where "CAPS = [1, 3, 5, 7]"
definition PRIOR_STRENGTH :: rat where "PRIOR_STRENGTH = 2"

text \<open>\<^verbatim>\<open>type(v) in (int, float) and math.isfinite(v)\<close>: a boolean is neither.\<close>

fun number :: "pyval \<Rightarrow> rat option" where
  "number (PInt i) = Some (of_int i)"
| "number (PFloat (Fin q)) = Some q"
| "number _ = None"

definition probability :: "pyval \<Rightarrow> rat option" where
  "probability v = (case number v of None \<Rightarrow> None | Some q \<Rightarrow> if 0 \<le> q \<and> q \<le> 1 then Some q else None)"

definition validated_prior :: "pyval option \<Rightarrow> rat list option" where
  "validated_prior v =
     (case v of Some (PSeq t xs) \<Rightarrow> if t = ''list'' \<and> length xs = 7 then those (map probability xs) else None | _ \<Rightarrow> None)"

text \<open>\<^verbatim>\<open>d.get(k)\<close> of a dictionary with string keys.\<close>

fun dict_get :: "pyval \<Rightarrow> string \<Rightarrow> pyval option" where
  "dict_get (PMap t kvs) k = map_of kvs (PStr k)"
| "dict_get _ k = None"

text \<open>A context range: two integers with \<open>0 \<le> lo < hi \<le> max_model_len\<close>.\<close>

fun bounds_of :: "int \<Rightarrow> pyval option \<Rightarrow> (int \<times> int) option" where
  "bounds_of max_len (Some (PSeq t [PInt a, PInt b])) = (if t = ''list'' \<and> 0 \<le> a \<and> a < b \<and> b \<le> max_len then Some (a, b) else None)"
| "bounds_of max_len _ = None"

definition strength_ok :: "pyval option \<Rightarrow> bool" where
  "strength_ok v = (case v of None \<Rightarrow> False | Some x \<Rightarrow> num x = Some PRIOR_STRENGTH)"

definition same_json :: "pyval \<Rightarrow> pyval \<Rightarrow> bool" where
  "same_json a b = py_eq (copied a) (copied b)"

subsection \<open>Priors by workload\<close>

record hint_priors =
  hp_lo :: int
  hp_hi :: int
  hp_code :: "rat list"
  hp_prose :: "rat list"

definition hint_domains :: "pyval option \<Rightarrow> (rat list \<times> rat list) option" where
  "hint_domains raw =
     (case raw of
        Some (PMap t kvs) \<Rightarrow>
          if set (map fst kvs) = {PStr ''code'', PStr ''prose''}
          then (case (validated_prior (map_of kvs (PStr ''code'')), validated_prior (map_of kvs (PStr ''prose''))) of
                  (Some c, Some p) \<Rightarrow> Some (c, p) | _ \<Rightarrow> None)
          else None
      | _ \<Rightarrow> None)"

definition hints_parse :: "pyval \<Rightarrow> int \<Rightarrow> pyval \<Rightarrow> hint_priors res" where
  "hints_parse signature max_len data =
     (case (bounds_of max_len (dict_get data ''context_range''), hint_domains (dict_get data ''domains''), dict_get data ''config'') of
        (Some (a, b), Some (c, p), Some cfg) \<Rightarrow>
          if same_json cfg signature \<and> strength_ok (dict_get data ''prior_strength'')
          then ok \<lparr>hp_lo = a, hp_hi = b, hp_code = c, hp_prose = p\<rparr> else err ValueError
      | _ \<Rightarrow> err ValueError)"

type_synonym xargs = "(string, pyval) odict"

definition hints_select :: "hint_priors \<Rightarrow> xargs \<Rightarrow> int \<Rightarrow> (rat list \<times> string) option" where
  "hints_select h x context =
     (let enabled = (case map_of x ''spec_use_hints'' of None \<Rightarrow> PBool True | Some v \<Rightarrow> v) in
      if \<not> (hp_lo h \<le> context \<and> context < hp_hi h) \<or> enabled \<notin> {PBool True, PInt 1}
         \<or> map_of x ''spec_hint_strength'' \<noteq> Some (PStr ''weak'') \<or> map_of x ''spec_phase'' \<noteq> Some (PStr ''user_turn'')
      then None
      else case map_of x ''spec_workload'' of
        Some (PStr w) \<Rightarrow>
          if w \<in> {''code_generate'', ''code_edit'', ''code_review''} then Some (hp_code h, ''code'')
          else if w = ''prose'' then Some (hp_prose h, ''prose'') else None
      | _ \<Rightarrow> None)"

subsection \<open>Cost curves\<close>

type_synonym costs = "(nat, rat) odict"
type_synonym point = "int \<times> costs \<times> rat list option"

record curve =
  cv_lo :: int
  cv_hi :: int
  cv_points :: "point list"

text \<open>\<open>{int(k): float(v) for k, v in raw.items()}\<close> over exactly the four caps, all finite and positive; \<open>int_of\<close> is Python's \<^verbatim>\<open>int\<close> of a string.\<close>

definition cost_rows :: "(string \<Rightarrow> int option) \<Rightarrow> (pyval \<times> pyval) list \<Rightarrow> (int option \<times> rat option) list" where
  "cost_rows int_of kvs = map (\<lambda>(k, v). (int_of (str_of k), number v)) kvs"

definition good_rows :: "(int option \<times> rat option) list \<Rightarrow> bool" where
  "good_rows rows = (length rows = length CAPS \<and> list_all (\<lambda>(k, v). k \<noteq> None \<and> (case v of None \<Rightarrow> False | Some q \<Rightarrow> 0 < q)) rows
     \<and> set (map fst rows) = set (map (Some \<circ> int) CAPS))"

definition parse_costs :: "(string \<Rightarrow> int option) \<Rightarrow> pyval option \<Rightarrow> costs option" where
  "parse_costs int_of raw =
     (case raw of
        Some (PMap t kvs) \<Rightarrow>
          if good_rows (cost_rows int_of kvs) then Some (map (\<lambda>c. (c, the (the (map_of (cost_rows int_of kvs) (Some (int c)))))) CAPS) else None
      | _ \<Rightarrow> None)"

definition default_strength :: "pyval option \<Rightarrow> bool" where
  "default_strength v = (v = None \<or> strength_ok v)"

definition parse_point :: "(string \<Rightarrow> int option) \<Rightarrow> int \<times> int \<Rightarrow> pyval \<Rightarrow> point list \<Rightarrow> point list res" where
  "parse_point int_of = (\<lambda>(lo, hi) row points.
     case (dict_get row ''context'', parse_costs int_of (dict_get row ''cycle_ms'')) of
       (Some (PInt x), Some costs) \<Rightarrow>
         let p = dict_get row ''conditional_acceptance_prior''; prior = validated_prior p in
         if \<not> (lo \<le> x \<and> x < hi) \<or> (points \<noteq> [] \<and> x \<le> fst (last points)) then err ValueError
         else if p \<noteq> None \<and> prior = None then err ValueError
         else if \<not> default_strength (dict_get row ''prior_strength'') then err ValueError
         else ok (points @ [(x, costs, prior)])
     | _ \<Rightarrow> err ValueError)"

definition curve_parse :: "(string \<Rightarrow> int option) \<Rightarrow> int \<Rightarrow> pyval \<Rightarrow> curve res" where
  "curve_parse int_of max_len data =
     (case (bounds_of max_len (dict_get data ''context_range''), dict_get data ''calibration_points'') of
        (Some (lo, hi), Some (PSeq t rows)) \<Rightarrow>
          if t \<noteq> ''list'' \<or> \<not> (1 \<le> length rows \<and> length rows \<le> 8) then err ValueError
          else rbind (fold_res (parse_point int_of (lo, hi)) rows []) (\<lambda>points. ok \<lparr>cv_lo = lo, cv_hi = hi, cv_points = points\<rparr>)
      | _ \<Rightarrow> err ValueError)"

definition blend :: "rat \<Rightarrow> rat \<Rightarrow> rat \<Rightarrow> rat" where
  "blend weight a b = a + weight * (b - a)"

definition cost :: "costs \<Rightarrow> nat \<Rightarrow> rat" where
  "cost cs k = (case map_of cs k of None \<Rightarrow> 0 | Some q \<Rightarrow> q)"

definition between :: "point \<Rightarrow> point \<Rightarrow> int \<Rightarrow> costs \<times> rat list option" where
  "between l r context =
     (let weight = of_int (context - fst l) / of_int (fst r - fst l) in
      (map (\<lambda>k. (k, blend weight (cost (fst (snd l)) k) (cost (fst (snd r)) k))) CAPS,
       (case (snd (snd l), snd (snd r)) of
          (Some a, Some b) \<Rightarrow> Some (map (\<lambda>(x, y). blend weight x y) (zip a b)) | _ \<Rightarrow> None)))"

fun interpolate :: "point list \<Rightarrow> int \<Rightarrow> costs \<times> rat list option" where
  "interpolate [] context = ([], None)"
| "interpolate [p] context = snd p"
| "interpolate (l # r # ps) context = (if context \<le> fst r then between l r context else interpolate (r # ps) context)"

definition curve_at :: "curve \<Rightarrow> int \<Rightarrow> costs \<times> rat list option" where
  "curve_at c context =
     (if \<not> (cv_lo c \<le> context \<and> context < cv_hi c) then ([], None)
      else if context \<le> fst (hd (cv_points c)) then snd (hd (cv_points c))
      else interpolate (cv_points c) context)"

section \<open>Prefix statistics\<close>

record prefix_stats =
  ps_successes :: "rat list"
  ps_trials :: "rat list"
  ps_observations :: nat
  ps_cap :: nat
  ps_prior :: "rat list option"

definition new_stats :: prefix_stats where
  "new_stats = \<lparr>ps_successes = replicate 7 0, ps_trials = replicate 7 0, ps_observations = 0, ps_cap = 7, ps_prior = None\<rparr>"

definition decay :: rat where "decay = 97 / 100"

definition observe :: "int \<Rightarrow> int \<Rightarrow> prefix_stats \<Rightarrow> prefix_stats res" where
  "observe k accepted s =
     (if \<not> (1 \<le> k \<and> k \<le> 7) \<or> \<not> (0 \<le> accepted \<and> accepted \<le> k) then err ValueError
      else ok (s\<lparr>ps_successes := map (\<lambda>(j, x). if int j < k \<and> int j \<le> accepted then x * decay + (if int j < accepted then 1 else 0) else x * decay)
                   (zip [0..<7] (ps_successes s)),
                 ps_trials := map (\<lambda>(j, x). if int j < k \<and> int j \<le> accepted then x * decay + 1 else x * decay) (zip [0..<7] (ps_trials s)),
                 ps_observations := ps_observations s + 1\<rparr>))"

definition conditional :: "prefix_stats \<Rightarrow> nat \<Rightarrow> rat" where
  "conditional s j =
     (case ps_prior s of
        Some p \<Rightarrow> (ps_successes s ! j + PRIOR_STRENGTH * p ! j) / (ps_trials s ! j + PRIOR_STRENGTH)
      | None \<Rightarrow> if 2 \<le> ps_trials s ! j then ps_successes s ! j / ps_trials s ! j else 1)"

fun survival_sum :: "prefix_stats \<Rightarrow> nat list \<Rightarrow> rat \<Rightarrow> rat \<Rightarrow> rat" where
  "survival_sum s [] survival tot = tot"
| "survival_sum s (j # js) survival tot =
     (let survival' = survival * conditional s j in survival_sum s js survival' (tot + survival'))"

definition expected :: "prefix_stats \<Rightarrow> bool \<Rightarrow> nat \<Rightarrow> rat option" where
  "expected s allow_prior_only k =
     (if 0 < k \<and> ps_trials s ! 0 < 2 \<and> \<not> (allow_prior_only \<and> ps_prior s \<noteq> None) then None
      else Some (survival_sum s [0..<k] 1 1))"

definition rate :: "prefix_stats \<Rightarrow> bool \<Rightarrow> costs \<Rightarrow> nat \<Rightarrow> rat option" where
  "rate s cold cs k = (case expected s cold k of None \<Rightarrow> None | Some e \<Rightarrow> Some (e / cost cs k))"

text \<open>\<^verbatim>\<open>max(CAPS, key=lambda k: (rates[k], k))\<close>.\<close>

definition best_cap :: "(nat \<Rightarrow> rat) \<Rightarrow> nat" where
  "best_cap r = fold (\<lambda>k b. if r b \<le> r k then k else b) (tl CAPS) (hd CAPS)"

definition choose_cap :: "costs \<Rightarrow> nat \<Rightarrow> bool \<Rightarrow> prefix_stats \<Rightarrow> prefix_stats \<times> nat \<times> bool" where
  "choose_cap cs scheduled_steps cold s =
     (let probe = (scheduled_steps mod 16 = 0); least = (if cold \<and> ps_prior s \<noteq> None then 0 else 8) in
      if ps_observations s < least \<or> probe \<or> set (map fst cs) \<noteq> set CAPS then (s, 7, probe)
      else if \<not> list_all (\<lambda>k. case rate s cold cs k of None \<Rightarrow> False | Some q \<Rightarrow> 0 < q) CAPS then (s, 7, probe)
      else
        let r = (\<lambda>k. the (rate s cold cs k)); best = best_cap r;
            cap = (if r (ps_cap s) * (103 / 100) < r best then best else ps_cap s)
        in (s\<lparr>ps_cap := cap\<rparr>, cap, probe))"


section \<open>Estimates are probabilities\<close>

definition prior_ok :: "rat list option \<Rightarrow> bool" where
  "prior_ok p = (case p of None \<Rightarrow> True | Some xs \<Rightarrow> length xs = 7 \<and> (\<forall>x \<in> set xs. 0 \<le> x \<and> x \<le> 1))"

definition costs_ok :: "costs \<Rightarrow> bool" where
  "costs_ok cs = (set (map fst cs) = set CAPS \<and> (\<forall>k \<in> set CAPS. 0 < cost cs k))"

text \<open>The statistics' invariant: no more successes than trials, and a decayed count never exceeds 100/3.\<close>

definition stats_ok :: "prefix_stats \<Rightarrow> bool" where
  "stats_ok s = (length (ps_successes s) = 7 \<and> length (ps_trials s) = 7 \<and> ps_cap s \<in> set CAPS \<and> prior_ok (ps_prior s)
     \<and> (\<forall>j < 7. 0 \<le> ps_successes s ! j \<and> ps_successes s ! j \<le> ps_trials s ! j \<and> ps_trials s ! j \<le> 100 / 3))"

lemma validated_prior_ok: "prior_ok (validated_prior v)"
proof -
  have "length xs = length ys \<and> (\<forall>x \<in> set ys. 0 \<le> x \<and> x \<le> 1)" if "those (map probability xs) = Some ys" for xs ys
    using that
  proof (induction xs arbitrary: ys)
    case (Cons x xs)
    then obtain q qs where "probability x = Some q" "those (map probability xs) = Some qs" "ys = q # qs" by (auto split: option.splits)
    moreover from this(1) have "0 \<le> q \<and> q \<le> 1" by (auto simp: probability_def split: option.splits if_splits)
    ultimately show ?case using Cons.IH by auto
  qed simp
  then show ?thesis by (auto simp: validated_prior_def prior_ok_def split: option.splits pyval.splits)
qed

lemma new_stats_ok: "stats_ok new_stats"
  by (simp add: stats_ok_def new_stats_def prior_ok_def CAPS_def)

lemma observe_keeps:
  assumes "observe k accepted s = ok s'" and "stats_ok s"
  shows "stats_ok s' \<and> ps_cap s' = ps_cap s \<and> ps_observations s' = ps_observations s + 1"
proof -
  have "0 \<le> ps_successes s' ! j \<and> ps_successes s' ! j \<le> ps_trials s' ! j \<and> ps_trials s' ! j \<le> 100 / 3" if j: "j < 7" for j
  proof -
    have b: "0 \<le> ps_successes s ! j" "ps_successes s ! j \<le> ps_trials s ! j" "ps_trials s ! j \<le> 100 / 3" "length (ps_successes s) = 7" "length (ps_trials s) = 7"
      using assms(2) j by (auto simp: stats_ok_def)
    then have "0 \<le> ps_successes s ! j * decay" "ps_successes s ! j * decay \<le> ps_trials s ! j * decay" "ps_trials s ! j * decay \<le> 97 / 3"
      by (simp_all add: decay_def)
    then show ?thesis using assms(1) b(4,5) j by (auto simp: observe_def split: if_splits)
  qed
  then show ?thesis using assms by (auto simp: observe_def stats_ok_def split: if_splits)
qed

lemma conditional_probability:
  assumes "stats_ok s" and "j < 7"
  shows "0 \<le> conditional s j \<and> conditional s j \<le> 1"
proof -
  have b: "0 \<le> ps_successes s ! j" "ps_successes s ! j \<le> ps_trials s ! j" using assms by (auto simp: stats_ok_def)
  show ?thesis
  proof (cases "ps_prior s")
    case None
    then show ?thesis using b by (auto simp: conditional_def divide_le_eq)
  next
    case (Some p)
    have "0 \<le> p ! j" "p ! j \<le> 1" using assms Some by (auto simp: stats_ok_def prior_ok_def)
    then show ?thesis using Some b by (simp add: conditional_def PRIOR_STRENGTH_def divide_le_eq)
  qed
qed

lemma survival_sum_bounds:
  assumes "stats_ok s" and "\<forall>j \<in> set js. j < 7" and "0 \<le> p" and "p \<le> 1"
  shows "tot \<le> survival_sum s js p tot \<and> survival_sum s js p tot \<le> tot + of_nat (length js)"
  using assms(2-4)
proof (induction js arbitrary: p tot)
  case (Cons j js)
  have c: "0 \<le> conditional s j" "conditional s j \<le> 1" using conditional_probability [OF assms(1), of j] Cons.prems(1) by auto
  have p': "0 \<le> p * conditional s j" "p * conditional s j \<le> 1" using c Cons.prems(2,3) by (auto intro: mult_le_one)
  have "tot + p * conditional s j \<le> survival_sum s js (p * conditional s j) (tot + p * conditional s j)
      \<and> survival_sum s js (p * conditional s j) (tot + p * conditional s j) \<le> tot + p * conditional s j + of_nat (length js)"
    using Cons.IH [OF _ p'] Cons.prems(1) by simp
  then show ?case using p' by (simp add: Let_def)
qed simp

lemma survival_sum_append: "survival_sum s (xs @ ys) p tot = survival_sum s ys (fold (\<lambda>j q. q * conditional s j) xs p) (survival_sum s xs p tot)"
  by (induction xs arbitrary: p tot) (simp_all add: Let_def)

lemma survival_unit:
  assumes "stats_ok s" and "\<forall>j \<in> set js. j < 7" and "0 \<le> p" and "p \<le> 1"
  shows "0 \<le> fold (\<lambda>j q. q * conditional s j) js p \<and> fold (\<lambda>j q. q * conditional s j) js p \<le> 1"
  using assms(2-4)
proof (induction js arbitrary: p)
  case (Cons j js)
  have c: "0 \<le> conditional s j" "conditional s j \<le> 1" using conditional_probability [OF assms(1), of j] Cons.prems(1) by auto
  then have "0 \<le> p * conditional s j" "p * conditional s j \<le> 1" using Cons.prems(2,3) by (auto intro: mult_le_one)
  then show ?case using Cons.IH Cons.prems(1) by simp
qed simp

text \<open>The expected number of tokens of a step with cap \<open>k\<close> lies between 1 and \<open>k + 1\<close> and grows with \<open>k\<close>.\<close>

lemma expected_bounds:
  assumes "stats_ok s" and "expected s cold k = Some e" and "k \<le> 7"
  shows "1 \<le> e \<and> e \<le> of_nat k + 1"
  using survival_sum_bounds [OF assms(1), of "[0..<k]" 1 1] assms(2,3) by (auto simp: expected_def split: if_splits)

lemma expected_mono:
  assumes "stats_ok s" and "expected s cold k = Some e" and "expected s cold k' = Some e'" and "k \<le> k'" and "k' \<le> 7"
  shows "e \<le> e'"
proof -
  have split: "[0..<k'] = [0..<k] @ [k..<k']" using assms(4) by (metis le_Suc_ex upt_add_eq_append zero_le add.commute)
  let ?q = "fold (\<lambda>j q. q * conditional s j) [0..<k] 1"
  have q: "0 \<le> ?q" "?q \<le> 1" using survival_unit [OF assms(1), of "[0..<k]" 1] assms(4,5) by auto
  have "survival_sum s [0..<k] 1 1 \<le> survival_sum s [k..<k'] ?q (survival_sum s [0..<k] 1 1)"
    using survival_sum_bounds [OF assms(1) _ q, of "[k..<k']" "survival_sum s [0..<k] 1 1"] assms(5) by simp
  then show ?thesis using assms(2,3) split by (simp add: expected_def survival_sum_append split: if_splits)
qed

section \<open>The chosen cap\<close>

lemma best_cap_max: "best_cap r \<in> set CAPS \<and> (\<forall>k \<in> set CAPS. r k \<le> r (best_cap r))"
  by (auto simp: best_cap_def CAPS_def)

lemma rate_pos:
  assumes "stats_ok s" and "costs_ok cs" and "k \<in> set CAPS" and "rate s cold cs k = Some q"
  shows "0 < q"
proof -
  obtain e where e: "expected s cold k = Some e" "q = e / cost cs k" using assms(4) by (auto simp: rate_def split: option.splits)
  have "k \<le> 7" using assms(3) by (auto simp: CAPS_def)
  then have "1 \<le> e" using expected_bounds [OF assms(1) e(1)] by simp
  then show ?thesis using assms(2,3) e(2) by (auto simp: costs_ok_def)
qed

text \<open>When the evidence suffices: enough observations, no probe step, and a first position that was tried or has a prior.\<close>

definition informed :: "nat \<Rightarrow> bool \<Rightarrow> prefix_stats \<Rightarrow> bool" where
  "informed steps cold s = (steps mod 16 \<noteq> 0 \<and> (if cold \<and> ps_prior s \<noteq> None then True else 8 \<le> ps_observations s)
     \<and> (2 \<le> ps_trials s ! 0 \<or> cold \<and> ps_prior s \<noteq> None))"

lemma choose_cases:
  assumes "stats_ok s" and "costs_ok cs"
  shows "choose_cap cs steps cold s =
     (if informed steps cold s
      then (let r = (\<lambda>k. the (rate s cold cs k)); cap = (if r (ps_cap s) * (103 / 100) < r (best_cap r) then best_cap r else ps_cap s)
            in (s\<lparr>ps_cap := cap\<rparr>, cap, False))
      else (s, 7, steps mod 16 = 0))"
proof -
  have "list_all (\<lambda>k. case rate s cold cs k of None \<Rightarrow> False | Some q \<Rightarrow> 0 < q) CAPS
      \<longleftrightarrow> (2 \<le> ps_trials s ! 0 \<or> cold \<and> ps_prior s \<noteq> None)" (is "?L \<longleftrightarrow> ?R")
  proof
    assume ?L
    then show ?R by (auto simp: CAPS_def rate_def expected_def split: option.splits if_splits)
  next
    assume r: ?R
    have "\<exists>q. rate s cold cs k = Some q \<and> 0 < q" if k: "k \<in> set CAPS" for k
    proof -
      obtain q where q: "rate s cold cs k = Some q" using r by (auto simp: rate_def expected_def)
      then show ?thesis using rate_pos [OF assms k q] by blast
    qed
    then show ?L by (fastforce simp: list_all_iff)
  qed
  then show ?thesis using assms(2) by (auto simp: choose_cap_def informed_def costs_ok_def Let_def)
qed

lemma choose_keeps:
  assumes "stats_ok s" and "choose_cap cs steps cold s = (s', cap, probe)"
  shows "stats_ok s' \<and> cap \<in> set CAPS \<and> ps_observations s' = ps_observations s \<and> probe = (steps mod 16 = 0)"
proof -
  have "7 \<in> set CAPS" by (simp add: CAPS_def)
  then show ?thesis using assms best_cap_max by (auto simp: choose_cap_def stats_ok_def Let_def split: if_splits)
qed

text \<open>
  C30: The choice of a verification cap. With statistics and costs that are well formed, \<^verbatim>\<open>choose\<close> returns one of 1, 3, 5,
  7. It returns 7 on every sixteenth step and whenever the evidence does not suffice. Otherwise every cap's expected number of tokens is
  between 1 and the cap plus one, the rate of the chosen cap (expected tokens per cost) is
  within three percent of the best, and the cap leaves its previous value only for one whose rate
  is more than three percent higher.
\<close>

theorem choose_near_optimal:
  assumes "stats_ok s" and "costs_ok cs" and "choose_cap cs steps cold s = (s', cap, probe)"
  shows "stats_ok s' \<and> cap \<in> set CAPS \<and> probe = (steps mod 16 = 0) \<and> (\<not> informed steps cold s \<longrightarrow> cap = 7 \<and> s' = s)
     \<and> (informed steps cold s \<longrightarrow> (\<exists>e. (\<forall>k \<in> set CAPS. expected s cold k = Some (e k) \<and> 1 \<le> e k \<and> e k \<le> of_nat k + 1)
          \<and> (\<forall>k \<in> set CAPS. e k / cost cs k \<le> 103 / 100 * (e cap / cost cs cap))
          \<and> (cap \<noteq> ps_cap s \<longrightarrow> 103 / 100 * (e (ps_cap s) / cost cs (ps_cap s)) < e cap / cost cs cap)))"
proof -
  note keeps = choose_keeps [OF assms(1,3)]
  have "\<exists>e. (\<forall>k \<in> set CAPS. expected s cold k = Some (e k) \<and> 1 \<le> e k \<and> e k \<le> of_nat k + 1)
          \<and> (\<forall>k \<in> set CAPS. e k / cost cs k \<le> 103 / 100 * (e cap / cost cs cap))
          \<and> (cap \<noteq> ps_cap s \<longrightarrow> 103 / 100 * (e (ps_cap s) / cost cs (ps_cap s)) < e cap / cost cs cap)" if inf: "informed steps cold s"
  proof (intro exI conjI)
    let ?e = "\<lambda>k. survival_sum s [0..<k] 1 1" and ?r = "\<lambda>k. the (rate s cold cs k)"
    have ex: "expected s cold k = Some (?e k)" for k using inf by (auto simp: informed_def expected_def)
    have r: "?r k = ?e k / cost cs k" for k by (simp add: rate_def ex)
    show "\<forall>k \<in> set CAPS. expected s cold k = Some (?e k) \<and> 1 \<le> ?e k \<and> ?e k \<le> of_nat k + 1"
    proof
      fix k assume "k \<in> set CAPS"
      then have "k \<le> 7" by (auto simp: CAPS_def)
      then show "expected s cold k = Some (?e k) \<and> 1 \<le> ?e k \<and> ?e k \<le> of_nat k + 1" using ex expected_bounds [OF assms(1) ex] by blast
    qed
    have cap: "cap = (if ?r (ps_cap s) * (103 / 100) < ?r (best_cap ?r) then best_cap ?r else ps_cap s)"
      using assms(3) inf by (simp add: choose_cases [OF assms(1,2)] Let_def)
    have best: "\<forall>k \<in> set CAPS. ?r k \<le> ?r (best_cap ?r)" "best_cap ?r \<in> set CAPS" using best_cap_max [of ?r] by simp_all
    have "1 \<le> ?e (best_cap ?r)" using expected_bounds [OF assms(1) ex, of "best_cap ?r"] best(2) by (auto simp: CAPS_def)
    then have pos: "0 < ?r (best_cap ?r)" using best(2) assms(2) by (simp only: r) (auto simp: costs_ok_def intro: divide_pos_pos)
    then have "?r (best_cap ?r) \<le> 103 / 100 * ?r cap" unfolding cap by auto
    then show "\<forall>k \<in> set CAPS. ?e k / cost cs k \<le> 103 / 100 * (?e cap / cost cs cap)" using best(1) unfolding r [symmetric] by (meson order_trans)
    show "cap \<noteq> ps_cap s \<longrightarrow> 103 / 100 * (?e (ps_cap s) / cost cs (ps_cap s)) < ?e cap / cost cs cap"
      unfolding r [symmetric] using cap by (auto split: if_splits)
  qed
  then show ?thesis using keeps assms(3) by (auto simp: choose_cases [OF assms(1,2)])
qed

text \<open>Eight full acceptances, then a choice with costs that grow with the cap.\<close>

definition demo_costs :: costs where
  "demo_costs = [(1, 10), (3, 30), (5, 80), (7, 200)]"

definition demo_stats :: prefix_stats where
  "demo_stats = \<lparr>ps_successes = replicate 7 2, ps_trials = replicate 7 4, ps_observations = 8, ps_cap = 7, ps_prior = None\<rparr>"

theorem choose_near_optimal_witness:
  "choose_cap demo_costs 3 False demo_stats = (demo_stats\<lparr>ps_cap := 1\<rparr>, 1, False)
   \<and> stats_ok demo_stats \<and> costs_ok demo_costs \<and> stats_ok (demo_stats\<lparr>ps_cap := 1\<rparr>)"
proof -
  have s: "stats_ok demo_stats" by (simp add: stats_ok_def demo_stats_def prior_ok_def CAPS_def)
  have c: "costs_ok demo_costs" by (simp add: costs_ok_def demo_costs_def cost_def CAPS_def)
  have run: "choose_cap demo_costs 3 False demo_stats = (demo_stats\<lparr>ps_cap := 1\<rparr>, 1, False)"
  proof -
    have u: "[0..<Suc 0] = [0]" "[0..<3] = [0, 1, 2]" "[0..<5] = [0, 1, 2, 3, 4]" "[0..<7] = [0, 1, 2, 3, 4, 5, 6]" by (simp_all add: upt_rec)
    have c: "conditional demo_stats j = 1 / 2" if "j < 7" for j using that by (simp add: conditional_def demo_stats_def)
    have r: "rate demo_stats False demo_costs (Suc 0) = Some (3 / 20)" "rate demo_stats False demo_costs 3 = Some (1 / 16)"
        "rate demo_stats False demo_costs 5 = Some (63 / 2560)" "rate demo_stats False demo_costs 7 = Some (255 / 25600)"
      by (simp_all add: rate_def expected_def u c Let_def) (simp_all add: demo_stats_def demo_costs_def cost_def)
    have f: "ps_cap demo_stats = 7" "ps_observations demo_stats = 8" "ps_prior demo_stats = None" "map fst demo_costs = [Suc 0, 3, 5, 7]"
      by (simp_all add: demo_stats_def demo_costs_def)
    then have "fst ` set demo_costs = {Suc 0, 3, 5, 7}" by (metis list.set(1) list.set(2) set_map)
    then show ?thesis using f by (simp add: choose_cap_def CAPS_def r best_cap_def Let_def)
  qed
  show ?thesis using choose_near_optimal [OF s c run] run s c by blast
qed

section \<open>Interpolated costs\<close>

lemma parse_costs_ok:
  assumes "parse_costs int_of raw = Some cs"
  shows "costs_ok cs"
proof -
  obtain t kvs where raw: "raw = Some (PMap t kvs)" using assms by (auto simp: parse_costs_def split: option.splits pyval.splits)
  let ?rows = "cost_rows int_of kvs"
  have good: "good_rows ?rows" and cs: "cs = map (\<lambda>c. (c, the (the (map_of ?rows (Some (int c)))))) CAPS"
    using assms by (auto simp: raw parse_costs_def split: if_splits)
  have rows: "list_all (\<lambda>(k, v). k \<noteq> None \<and> (case v of None \<Rightarrow> False | Some q \<Rightarrow> 0 < q)) ?rows" "set (map fst ?rows) = set (map (Some \<circ> int) CAPS)"
    using good unfolding good_rows_def by blast+
  have pos: "0 < the (the (map_of ?rows (Some (int k))))" if k: "k \<in> set CAPS" for k
  proof -
    have "Some (int k) \<in> set (map fst ?rows)" unfolding rows(2) using k by simp
    then obtain v where v: "map_of ?rows (Some (int k)) = Some v" by (metis map_of_eq_None_iff not_Some_eq set_map)
    then have "(Some (int k), v) \<in> set ?rows" by (rule map_of_SomeD)
    then have "case v of None \<Rightarrow> False | Some q \<Rightarrow> 0 < q" using rows(1) by (auto simp: list_all_iff)
    then show ?thesis using v by (auto split: option.splits)
  qed
  have "cost cs k = the (the (map_of ?rows (Some (int k))))" if "k \<in> set CAPS" for k
    using that by (auto simp: cs cost_def CAPS_def)
  then show ?thesis using pos by (auto simp: costs_ok_def cs)
qed

definition point_ok :: "point \<Rightarrow> bool" where
  "point_ok p = (costs_ok (fst (snd p)) \<and> prior_ok (snd (snd p)))"

definition curve_ok :: "curve \<Rightarrow> bool" where
  "curve_ok c = (cv_points c \<noteq> [] \<and> (\<forall>p \<in> set (cv_points c). point_ok p) \<and> sorted_wrt (\<lambda>p q. fst p < fst q) (cv_points c))"

lemma parse_point_ok:
  assumes "parse_point int_of b row points = ok points'" and "\<forall>p \<in> set points. point_ok p" and "sorted_wrt (\<lambda>p q. fst p < fst q) points"
  shows "(\<forall>p \<in> set points'. point_ok p) \<and> sorted_wrt (\<lambda>p q. fst p < fst q) points' \<and> points' \<noteq> []"
proof -
  obtain x cs where r: "dict_get row ''context'' = Some (PInt x)" "parse_costs int_of (dict_get row ''cycle_ms'') = Some cs"
    using assms(1) by (auto simp: parse_point_def split: prod.splits option.splits pyval.splits)
  then have p': "points' = points @ [(x, cs, validated_prior (dict_get row ''conditional_acceptance_prior''))]" "points \<noteq> [] \<longrightarrow> fst (last points) < x"
    using assms(1) by (auto simp: parse_point_def Let_def split: prod.splits if_splits)
  have "\<forall>p \<in> set points. fst p < x"
  proof
    fix p assume p: "p \<in> set points"
    then have ne: "points \<noteq> []" by auto
    have "p = last points \<or> fst p < fst (last points)"
      using assms(3) p ne by (induction points) (auto split: if_splits)
    then show "fst p < x" using p'(2) ne by auto
  qed
  then show ?thesis using assms(2,3) p' parse_costs_ok [OF r(2)] validated_prior_ok by (auto simp: sorted_wrt_append point_ok_def)
qed

lemma curve_parse_ok:
  assumes "curve_parse int_of max_len data = ok c"
  shows "curve_ok c \<and> cv_lo c < cv_hi c"
proof -
  obtain lo hi t rows where d: "bounds_of max_len (dict_get data ''context_range'') = Some (lo, hi)" "dict_get data ''calibration_points'' = Some (PSeq t rows)"
    using assms by (auto simp: curve_parse_def split: prod.splits option.splits pyval.splits)
  obtain points where p: "fold_res (parse_point int_of (lo, hi)) rows [] = ok points" "c = \<lparr>cv_lo = lo, cv_hi = hi, cv_points = points\<rparr>"
    using assms d by (auto simp: curve_parse_def rbind_ok_iff split: if_splits)
  have ne: "rows \<noteq> []" using assms d by (auto simp: curve_parse_def split: if_splits)
  have "lo < hi" using d(1) by (cases "(max_len, dict_get data ''context_range'')" rule: bounds_of.cases) (auto split: if_splits)
  moreover obtain row rest where rows: "rows = row # rest" using ne by (cases rows) auto
  then obtain p1 where p1: "parse_point int_of (lo, hi) row [] = ok p1" "fold_res (parse_point int_of (lo, hi)) rest p1 = ok points"
    using p(1) by (auto simp: rbind_ok_iff)
  have "(\<forall>q \<in> set points. point_ok q) \<and> sorted_wrt (\<lambda>p q. fst p < fst q) points \<and> points \<noteq> []"
    by (rule fold_res_invariant [OF p1(2)]) (use parse_point_ok [OF p1(1)] parse_point_ok in auto)
  ultimately show ?thesis using p(2) by (simp add: curve_ok_def)
qed

lemma blend_between:
  assumes "0 \<le> w" and "w \<le> 1"
  shows "min a b \<le> blend w a b \<and> blend w a b \<le> max a b"
proof (cases "a \<le> b")
  case True
  have "0 \<le> w * (b - a)" "w * (b - a) \<le> 1 * (b - a)" using assms True mult_right_mono [OF assms(2), of "b - a"] by auto
  then show ?thesis using True by (simp add: blend_def)
next
  case False
  have "0 \<le> w * (a - b)" "w * (a - b) \<le> 1 * (a - b)" using assms False mult_right_mono [OF assms(2), of "a - b"] by auto
  then show ?thesis using False by (simp add: blend_def algebra_simps)
qed

text \<open>The costs and the prior at a point lie between those of two measured points.\<close>

definition spanned :: "point list \<Rightarrow> costs \<times> rat list option \<Rightarrow> bool" where
  "spanned ps r = (costs_ok (fst r) \<and> prior_ok (snd r)
     \<and> (\<forall>k \<in> set CAPS. \<exists>p \<in> set ps. \<exists>q \<in> set ps. cost (fst (snd p)) k \<le> cost (fst r) k \<and> cost (fst r) k \<le> cost (fst (snd q)) k))"

lemma point_spanned: "point_ok p \<Longrightarrow> p \<in> set ps \<Longrightarrow> spanned ps (snd p)"
  by (auto simp: spanned_def point_ok_def)

lemma cost_between: "k \<in> set CAPS \<Longrightarrow> cost (fst (between l r x)) k
    = blend (of_int (x - fst l) / of_int (fst r - fst l)) (cost (fst (snd l)) k) (cost (fst (snd r)) k)"
  by (auto simp: between_def cost_def Let_def CAPS_def)

lemma between_spanned:
  assumes "point_ok l" and "point_ok r" and "fst l < x" and "x \<le> fst r" and "l \<in> set ps" and "r \<in> set ps"
  shows "spanned ps (between l r x)"
proof -
  let ?w = "of_int (x - fst l) / of_int (fst r - fst l) :: rat"
  have w: "0 \<le> ?w" "?w \<le> 1" using assms(3,4) by (simp_all add: divide_le_eq)
  have c: "0 < cost (fst (snd l)) k" "0 < cost (fst (snd r)) k" if "k \<in> set CAPS" for k
    using assms(1,2) that by (auto simp: point_ok_def costs_ok_def)
  have b: "min (cost (fst (snd l)) k) (cost (fst (snd r)) k) \<le> cost (fst (between l r x)) k
      \<and> cost (fst (between l r x)) k \<le> max (cost (fst (snd l)) k) (cost (fst (snd r)) k)" if "k \<in> set CAPS" for k
    unfolding cost_between [OF that] by (rule blend_between [OF w])
  have "costs_ok (fst (between l r x))"
  proof -
    have "0 < cost (fst (between l r x)) k" if k: "k \<in> set CAPS" for k
      using b [OF k] c [OF k] by (auto simp: min_def split: if_splits)
    moreover have "set (map fst (fst (between l r x))) = set CAPS" by (simp add: between_def Let_def comp_def)
    ultimately show ?thesis by (simp add: costs_ok_def)
  qed
  moreover have "prior_ok (snd (between l r x))"
  proof (cases "snd (snd l) = None \<or> snd (snd r) = None")
    case True
    then show ?thesis by (auto simp: between_def Let_def prior_ok_def split: option.splits)
  next
    case False
    then obtain a b where ab: "snd (snd l) = Some a" "snd (snd r) = Some b" by auto
    have ok: "length a = 7" "length b = 7" "\<forall>y \<in> set a. 0 \<le> y \<and> y \<le> 1" "\<forall>y \<in> set b. 0 \<le> y \<and> y \<le> 1"
      using assms(1,2) ab by (auto simp: point_ok_def prior_ok_def)
    have "0 \<le> blend ?w y z \<and> blend ?w y z \<le> 1" if "(y, z) \<in> set (zip a b)" for y z
    proof -
      have "0 \<le> y" "y \<le> 1" "0 \<le> z" "z \<le> 1" using that ok(3,4) by (auto dest: set_zip_leftD set_zip_rightD)
      then show ?thesis using blend_between [OF w, of y z] by (auto simp: min_def max_def split: if_splits)
    qed
    then show ?thesis using ab ok by (auto simp: between_def Let_def prior_ok_def)
  qed
  moreover have "\<exists>p \<in> set ps. \<exists>q \<in> set ps. cost (fst (snd p)) k \<le> cost (fst (between l r x)) k \<and> cost (fst (between l r x)) k \<le> cost (fst (snd q)) k"
    if "k \<in> set CAPS" for k
    using b [OF that] assms(5,6) by (auto simp: min_def max_def split: if_splits)
  ultimately show ?thesis by (auto simp: spanned_def)
qed

lemma interpolate_spanned:
  assumes "\<forall>p \<in> set ps. point_ok p" and "ps \<noteq> []" and "fst (hd ps) < x" and "set ps \<subseteq> set all"
  shows "spanned all (interpolate ps x)"
  using assms
proof (induction ps x rule: interpolate.induct)
  case (2 p x)
  then show ?case using point_spanned by auto
next
  case (3 l r ps x)
  then show ?case using between_spanned [of l r x all] by auto
qed simp

lemma curve_at_spanned:
  assumes "curve_ok c"
  shows "curve_at c x = ([], None) \<or> spanned (cv_points c) (curve_at c x)"
proof -
  have ne: "cv_points c \<noteq> []" "hd (cv_points c) \<in> set (cv_points c)" using assms by (auto simp: curve_ok_def)
  show ?thesis
  proof (cases "x \<le> fst (hd (cv_points c))")
    case True
    then show ?thesis using point_spanned [OF _ ne(2)] assms ne by (auto simp: curve_at_def curve_ok_def)
  next
    case False
    then show ?thesis using interpolate_spanned [of "cv_points c" x "cv_points c"] assms ne by (auto simp: curve_at_def curve_ok_def)
  qed
qed

end
