(* ===== verification/Spec_Confidence.thy ===== *)
theory Spec_Confidence
  imports Py_Values
begin

text \<open>
  The confidence trace of speculative decoding (\<^verbatim>\<open>vllm/v1/spec_decode/confidence_trace.py\<close>). A packet pairs the scores of
  a proposal with the step that verified it; the collector has to know whose proposal the GPU buffers
  still hold. Theorem: a captured packet belongs to the proposal its own request made in the step before.
\<close>

section \<open>Eligibility\<close>

definition PACKET_LIMIT :: nat where "PACKET_LIMIT = 128"
definition PACKET_VERSION :: nat where "PACKET_VERSION = 1"

record trace_config =
  tc_switch :: bool
  tc_tp_rank :: int
  tc_v2 :: bool
  tc_method :: "string option"
  tc_spec_tokens :: int
  tc_rejection :: string
  tc_pipeline :: int
  tc_data :: int
  tc_async :: bool

definition enabled :: "trace_config \<Rightarrow> bool" where
  "enabled c = (tc_switch c \<and> tc_tp_rank c = 0 \<and> tc_v2 c \<and> tc_method c = Some ''dflash'' \<and> tc_spec_tokens c = 7
     \<and> tc_rejection c \<noteq> ''synthetic'' \<and> tc_pipeline c = 1 \<and> tc_data c = 1 \<and> tc_async c)"

text \<open>What \<^verbatim>\<open>request_eligible\<close> reads of a new request.\<close>

record new_request =
  nr_id :: string
  nr_sampled :: bool
  nr_capture :: "pyval option"
  nr_temperature :: rat
  nr_structured :: bool
  nr_resumable :: bool
  nr_lora :: bool
  nr_mm :: bool
  nr_presence :: rat
  nr_frequency :: rat
  nr_repetition :: rat
  nr_allowed :: bool
  nr_bad_words :: bool
  nr_logit_bias :: bool

definition request_eligible :: "new_request \<Rightarrow> bool" where
  "request_eligible d =
     (nr_sampled d \<and> nr_temperature d = 0 \<and> (case nr_capture d of None \<Rightarrow> True | Some v \<Rightarrow> v = PBool True \<or> v = PInt 1)
      \<and> \<not> nr_structured d \<and> \<not> nr_resumable d \<and> \<not> nr_lora d \<and> \<not> nr_mm d
      \<and> nr_presence d = 0 \<and> nr_frequency d = 0 \<and> nr_repetition d = 1 \<and> \<not> nr_allowed d \<and> \<not> nr_bad_words d \<and> \<not> nr_logit_bias d)"

section \<open>The collector\<close>

record tracked =
  tk_epoch :: nat
  tk_eligible :: bool
  tk_serial :: nat
  tk_captured :: nat

record proposal =
  pp_request :: string
  pp_epoch :: nat
  pp_id :: nat
  pp_step :: nat

record collector =
  cc_incarnation :: nat
  cc_step :: nat
  cc_requests :: "(string, tracked) odict"
  cc_previous :: "proposal option"

definition new_collector :: collector where
  "new_collector = \<lparr>cc_incarnation = 0, cc_step = 0, cc_requests = [], cc_previous = None\<rparr>"

definition remove_request :: "string \<Rightarrow> collector \<Rightarrow> collector" where
  "remove_request rid c =
     c\<lparr>cc_requests := AList.delete rid (cc_requests c),
       cc_previous := (case cc_previous c of None \<Rightarrow> None | Some p \<Rightarrow> if pp_request p = rid then None else Some p)\<rparr>"

definition add_request :: "new_request \<Rightarrow> collector \<Rightarrow> collector" where
  "add_request d c =
     (let c1 = remove_request (nr_id d) c; n = cc_incarnation c1 + 1 in
      c1\<lparr>cc_incarnation := n,
         cc_requests := AList.update (nr_id d) \<lparr>tk_epoch = n, tk_eligible = request_eligible d, tk_serial = 0, tk_captured = 0\<rparr> (cc_requests c1),
         cc_previous := None\<rparr>)"

text \<open>A tensor: its shape, its element type and its elements as nested lists.\<close>

record 'a tensor_view =
  tv_shape :: "nat list"
  tv_dtype :: string
  tv_data :: 'a

record step_batch =
  sb_num_reqs :: nat
  sb_req_ids :: "string list"
  sb_structured :: bool
  sb_prefilling :: bool
  sb_num_draft :: nat
  sb_num_tokens :: nat
  sb_positions :: "int list tensor_view"
  sb_input_ids :: "int list tensor_view"

record speculator =
  sp_scores :: "pyfloat list list list tensor_view option"
  sp_sample_pos :: "int list tensor_view option"
  sp_drafts :: "int list list tensor_view option"

definition owner :: "step_batch \<Rightarrow> collector \<Rightarrow> (string \<times> tracked) option" where
  "owner b c =
     (if length (cc_requests c) \<noteq> 1 \<or> sb_num_reqs b \<noteq> 1 \<or> length (sb_req_ids b) \<noteq> 1 then None
      else
        let rid = hd (sb_req_ids b) in
        case map_of (cc_requests c) rid of
          None \<Rightarrow> None
        | Some st \<Rightarrow>
            if \<not> tk_eligible st \<or> PACKET_LIMIT \<le> tk_captured st \<or> sb_structured b \<or> sb_prefilling b
               \<or> sb_num_draft b \<notin> {1, 3, 5, 7} \<or> sb_num_tokens b \<noteq> sb_num_draft b + 1
            then None else Some (rid, st))"

record packet =
  pk_request :: string
  pk_version :: nat
  pk_epoch :: nat
  pk_proposal_id :: nat
  pk_proposal_step :: nat
  pk_verified_step :: nat
  pk_age :: nat
  pk_verified_k :: nat
  pk_scores :: "pyfloat list list"
  pk_sample_positions :: "int list"
  pk_draft_tokens :: "int list"
  pk_target_positions :: "int list"
  pk_target_tokens :: "int list"

definition buffers_ok :: "step_batch \<Rightarrow> speculator \<Rightarrow> bool" where
  "buffers_ok b s =
     (case (sp_scores s, sp_sample_pos s, sp_drafts s) of
        (Some sc, Some sp, Some dr) \<Rightarrow>
          length (tv_shape sc) = 3 \<and> tl (tv_shape sc) = [7, 16] \<and> 1 \<le> hd (tv_shape sc) \<and> tv_dtype sc = ''float32''
          \<and> length (tv_shape sp) = 1 \<and> 7 \<le> hd (tv_shape sp) \<and> tv_dtype sp = ''int64''
          \<and> length (tv_shape dr) = 2 \<and> 1 \<le> hd (tv_shape dr) \<and> tv_shape dr ! 1 = 7 \<and> tv_dtype dr = ''int64''
          \<and> length (tv_shape (sb_positions b)) = 1 \<and> tv_dtype (sb_positions b) = ''int64''
          \<and> length (tv_shape (sb_input_ids b)) = 1 \<and> tv_dtype (sb_input_ids b) = ''int32''
          \<and> sb_num_tokens b \<le> min (hd (tv_shape (sb_positions b))) (hd (tv_shape (sb_input_ids b)))
      | _ \<Rightarrow> False)"

definition capture :: "step_batch \<Rightarrow> speculator \<Rightarrow> collector \<Rightarrow> collector \<times> packet option" where
  "capture b s c =
     (let c1 = c\<lparr>cc_step := cc_step c + 1\<rparr>; none = (c1\<lparr>cc_previous := None\<rparr>, None) in
      case owner b c1 of
        None \<Rightarrow> none
      | Some (rid, st) \<Rightarrow>
          (case cc_previous c1 of
             None \<Rightarrow> none
           | Some p \<Rightarrow>
               if pp_request p \<noteq> rid \<or> pp_epoch p \<noteq> tk_epoch st \<or> pp_step p \<noteq> cc_step c1 - 1 \<or> \<not> buffers_ok b s then none
               else
                 let n = sb_num_tokens b in
                 (c1\<lparr>cc_requests := AList.update rid (st\<lparr>tk_captured := tk_captured st + 1\<rparr>) (cc_requests c1)\<rparr>,
                  Some \<lparr>pk_request = rid, pk_version = PACKET_VERSION, pk_epoch = tk_epoch st, pk_proposal_id = pp_id p,
                        pk_proposal_step = pp_step p, pk_verified_step = cc_step c1, pk_age = cc_step c1 - pp_step p,
                        pk_verified_k = sb_num_draft b,
                        pk_scores = map (take 16) (take 7 (hd (tv_data (the (sp_scores s))))),
                        pk_sample_positions = take 7 (tv_data (the (sp_sample_pos s))),
                        pk_draft_tokens = take 7 (hd (tv_data (the (sp_drafts s)))),
                        pk_target_positions = take n (tv_data (sb_positions b)), pk_target_tokens = take n (tv_data (sb_input_ids b))\<rparr>)))"

definition proposed :: "step_batch \<Rightarrow> collector \<Rightarrow> collector" where
  "proposed b c =
     (case owner b c of
        None \<Rightarrow> c\<lparr>cc_previous := None\<rparr>
      | Some (rid, st) \<Rightarrow>
          c\<lparr>cc_requests := AList.update rid (st\<lparr>tk_serial := tk_serial st + 1\<rparr>) (cc_requests c),
            cc_previous := Some \<lparr>pp_request = rid, pp_epoch = tk_epoch st, pp_id = tk_serial st + 1, pp_step = cc_step c\<rparr>\<rparr>)"

section \<open>Finishing a packet\<close>

record conf_row =
  cf_packet :: packet
  cf_valid :: bool
  cf_reason :: "string option"
  cf_anchor :: "int option"
  cf_scores :: "pyfloat list list option"
  cf_learnable :: bool

definition is_finite :: "pyfloat \<Rightarrow> bool" where
  "is_finite v = (case v of Fin _ \<Rightarrow> True | _ \<Rightarrow> False)"

definition reason :: "packet \<Rightarrow> string option" where
  "reason p =
     (let k = pk_verified_k p; ps = pk_target_positions p; ts = pk_target_tokens p; sm = pk_sample_positions p; ds = pk_draft_tokens p; sc = pk_scores p in
      if k \<notin> {1, 3, 5, 7} \<or> length ps \<noteq> k + 1 \<or> length ts \<noteq> k + 1 \<or> length sm \<noteq> 7 \<or> length ds \<noteq> 7
         \<or> length sc \<noteq> 7 \<or> list_ex (\<lambda>vs. length vs \<noteq> 16) sc then Some ''shape_mismatch''
      else if list_ex (list_ex (\<lambda>v. \<not> is_finite v)) sc then Some ''nonfinite_score''
      else if hd ps < 0 \<or> hd sm - 1 \<noteq> hd ps \<or> ps \<noteq> [hd ps..hd ps + int k] \<or> sm \<noteq> [hd ps + 1..hd ps + 7] then Some ''anchor_or_position_mismatch''
      else if tl ts \<noteq> take k ds then Some ''verified_draft_token_mismatch''
      else None)"

definition finish_packet :: "packet \<Rightarrow> string \<times> conf_row" where
  "finish_packet p =
     (pk_request p, \<lparr>cf_packet = p, cf_valid = (reason p = None), cf_reason = reason p,
        cf_anchor = (if reason p = None then Some (hd (pk_target_positions p)) else None),
        cf_scores = (if reason p = None then Some (pk_scores p) else None), cf_learnable = False\<rparr>)"

section \<open>A packet belongs to its proposal\<close>

text \<open>
  The runs of the collector; \<open>hist\<close> are the proposals recorded so far and \<open>caps\<close> the packets captured
  so far, newest first. They are kept by the run, not by the collector.
\<close>

inductive collects :: "collector \<Rightarrow> proposal list \<Rightarrow> packet list \<Rightarrow> bool" where
  start: "collects new_collector [] []"
| add: "collects c hist caps \<Longrightarrow> collects (add_request d c) hist caps"
| remove: "collects c hist caps \<Longrightarrow> collects (remove_request rid c) hist caps"
| capture: "collects c hist caps \<Longrightarrow> collects (fst (capture b s c)) hist (case snd (capture b s c) of None \<Rightarrow> caps | Some pk \<Rightarrow> pk # caps)"
| propose: "collects c hist caps \<Longrightarrow> collects (proposed b c) (case cc_previous (proposed b c) of None \<Rightarrow> hist | Some p \<Rightarrow> p # hist) caps"

text \<open>The packets captured in one incarnation.\<close>

definition captured_in :: "nat \<Rightarrow> packet list \<Rightarrow> nat" where
  "captured_in e caps = length (filter (\<lambda>pk. pk_epoch pk = e) caps)"

definition collector_ok :: "collector \<Rightarrow> proposal list \<Rightarrow> bool" where
  "collector_ok c hist =
     (od_wf (cc_requests c)
      \<and> (\<forall>rid st. map_of (cc_requests c) rid = Some st \<longrightarrow> 1 \<le> tk_epoch st \<and> tk_epoch st \<le> cc_incarnation c \<and> tk_captured st \<le> PACKET_LIMIT)
      \<and> (\<forall>rid rid' st st'. map_of (cc_requests c) rid = Some st \<longrightarrow> map_of (cc_requests c) rid' = Some st' \<longrightarrow> tk_epoch st = tk_epoch st' \<longrightarrow> rid = rid')
      \<and> (\<forall>p. cc_previous c = Some p \<longrightarrow> pp_step p \<le> cc_step c \<and> hist \<noteq> [] \<and> hd hist = p
           \<and> (\<exists>st. map_of (cc_requests c) (pp_request p) = Some st \<and> tk_epoch st = pp_epoch p \<and> tk_serial st = pp_id p)))"

lemma remove_ok: "collector_ok c hist \<Longrightarrow> collector_ok (remove_request rid c) hist"
  by (auto simp: collector_ok_def remove_request_def map_of_delete split: option.splits if_splits)

lemma add_ok:
  assumes "collector_ok c hist"
  shows "collector_ok (add_request d c) hist"
proof -
  have r: "collector_ok (remove_request (nr_id d) c) hist" by (rule remove_ok [OF assms])
  have inc: "cc_incarnation (remove_request (nr_id d) c) = cc_incarnation c" by (simp add: remove_request_def)
  let ?m = "map_of (cc_requests (remove_request (nr_id d) c))"
  have old: "1 \<le> tk_epoch st" "tk_epoch st \<le> Suc (cc_incarnation c)" "tk_epoch st \<noteq> Suc (cc_incarnation c)" "tk_captured st \<le> PACKET_LIMIT"
    if "?m rid = Some st" for rid st
    using r that inc by (force simp: collector_ok_def)+
  have uniq: "rid = rid'" if "?m rid = Some st" "?m rid' = Some st'" "tk_epoch st = tk_epoch st'" for rid rid' st st'
    using r that by (auto simp: collector_ok_def)
  have "od_wf (cc_requests (remove_request (nr_id d) c))" using r by (simp add: collector_ok_def)
  then show ?thesis unfolding collector_ok_def add_request_def Let_def
    using old by (auto simp: map_of_update inc dest: uniq split: if_splits) (metis old(3))
qed

lemma owner_facts:
  assumes "owner b c = Some (rid, st)"
  shows "map_of (cc_requests c) rid = Some st \<and> tk_eligible st \<and> tk_captured st < PACKET_LIMIT \<and> sb_req_ids b = [rid]
     \<and> length (cc_requests c) = 1 \<and> sb_num_tokens b = sb_num_draft b + 1"
  using assms by (cases "sb_req_ids b") (auto simp: owner_def Let_def split: if_splits option.splits)

lemma capture_ok:
  assumes "collector_ok c hist"
  shows "collector_ok (fst (capture b s c)) hist"
proof -
  let ?c = "c\<lparr>cc_step := cc_step c + 1\<rparr>"
  have none: "collector_ok (?c\<lparr>cc_previous := None\<rparr>) hist" using assms by (simp add: collector_ok_def)
  show ?thesis
  proof (cases "snd (capture b s c)")
    case None
    then have "fst (capture b s c) = ?c\<lparr>cc_previous := None\<rparr>" by (auto simp: capture_def Let_def split: option.splits if_splits prod.splits)
    then show ?thesis using none by simp
  next
    case (Some pk)
    then obtain rid st where o: "owner b ?c = Some (rid, st)" by (auto simp: capture_def Let_def split: option.splits)
    have f: "fst (capture b s c) = ?c\<lparr>cc_requests := AList.update rid (st\<lparr>tk_captured := tk_captured st + 1\<rparr>) (cc_requests c)\<rparr>"
      using Some o by (auto simp: capture_def Let_def split: option.splits if_splits)
    have st: "map_of (cc_requests c) rid = Some st" "tk_captured st < PACKET_LIMIT" using owner_facts [OF o] by simp_all
    have ep: "1 \<le> tk_epoch st" "tk_epoch st \<le> cc_incarnation c" using assms st(1) by (auto simp: collector_ok_def)
    show ?thesis using assms st ep unfolding f collector_ok_def by (auto simp: map_of_update split: if_splits)
  qed
qed

lemma proposed_ok:
  assumes "collector_ok c hist"
  shows "collector_ok (proposed b c) (case cc_previous (proposed b c) of None \<Rightarrow> hist | Some p \<Rightarrow> p # hist)"
proof (cases "owner b c")
  case None
  then show ?thesis using assms by (simp add: proposed_def collector_ok_def)
next
  case (Some q)
  obtain rid st where q: "q = (rid, st)" by (cases q)
  have st: "map_of (cc_requests c) rid = Some st" using owner_facts [of b c rid st] Some q by simp
  have ep: "1 \<le> tk_epoch st" "tk_epoch st \<le> cc_incarnation c" "tk_captured st \<le> PACKET_LIMIT" using assms st(1) by (auto simp: collector_ok_def)
  show ?thesis using assms st ep Some q unfolding collector_ok_def proposed_def by (auto simp: map_of_update split: if_splits)
qed

lemma collects_ok: "collects c hist caps \<Longrightarrow> collector_ok c hist"
  by (induction rule: collects.induct) (auto simp: add_ok remove_ok capture_ok proposed_ok, simp add: collector_ok_def new_collector_def)

text \<open>The counter of a request is the number of packets captured in its incarnation; no later incarnation has any.\<close>

definition counted :: "collector \<Rightarrow> packet list \<Rightarrow> bool" where
  "counted c caps =
     ((\<forall>rid st. map_of (cc_requests c) rid = Some st \<longrightarrow> captured_in (tk_epoch st) caps = tk_captured st)
      \<and> (\<forall>pk \<in> set caps. pk_epoch pk \<le> cc_incarnation c) \<and> (\<forall>e. captured_in e caps \<le> PACKET_LIMIT))"

lemma captured_in_Cons: "captured_in e (pk # caps) = captured_in e caps + (if pk_epoch pk = e then 1 else 0)"
  by (simp add: captured_in_def)

lemma captured_in_later: "\<forall>pk \<in> set caps. pk_epoch pk \<le> n \<Longrightarrow> n < e \<Longrightarrow> captured_in e caps = 0"
  by (auto simp: captured_in_def filter_empty_conv)

lemma remove_counted: "od_wf (cc_requests c) \<Longrightarrow> counted c caps \<Longrightarrow> counted (remove_request rid c) caps"
  by (auto simp: counted_def remove_request_def map_of_delete split: if_splits)

lemma add_counted:
  assumes "od_wf (cc_requests c)" and "counted c caps"
  shows "counted (add_request d c) caps"
proof -
  have r: "counted (remove_request (nr_id d) c) caps" by (rule remove_counted [OF assms])
  have inc: "cc_incarnation (remove_request (nr_id d) c) = cc_incarnation c" by (simp add: remove_request_def)
  have "captured_in (cc_incarnation c + 1) caps = 0" using assms(2) by (intro captured_in_later) (auto simp: counted_def)
  then show ?thesis using r by (auto simp: counted_def add_request_def Let_def inc map_of_update split: if_splits)
qed

lemma capture_counted:
  assumes "collector_ok c hist" and "counted c caps"
  shows "counted (fst (capture b s c)) (case snd (capture b s c) of None \<Rightarrow> caps | Some pk \<Rightarrow> pk # caps)"
proof (cases "snd (capture b s c)")
  case None
  then have "fst (capture b s c) = c\<lparr>cc_step := cc_step c + 1, cc_previous := None\<rparr>"
    by (auto simp: capture_def Let_def split: option.splits if_splits prod.splits)
  then show ?thesis using assms(2) None by (simp add: counted_def)
next
  case (Some pk)
  let ?c = "c\<lparr>cc_step := cc_step c + 1\<rparr>"
  from Some obtain rid st where o: "owner b ?c = Some (rid, st)" by (auto simp: capture_def Let_def split: option.splits)
  have f: "fst (capture b s c) = ?c\<lparr>cc_requests := AList.update rid (st\<lparr>tk_captured := tk_captured st + 1\<rparr>) (cc_requests c)\<rparr>"
    and e: "pk_epoch pk = tk_epoch st"
    using Some o by (auto simp: capture_def Let_def split: option.splits if_splits)
  have st: "map_of (cc_requests c) rid = Some st" "tk_captured st < PACKET_LIMIT" using owner_facts [OF o] by simp_all
  have n: "captured_in (tk_epoch st) caps = tk_captured st" using assms(2) st(1) by (auto simp: counted_def)
  have other: "tk_epoch st' \<noteq> tk_epoch st" if "map_of (cc_requests c) rid' = Some st'" "rid' \<noteq> rid" for rid' st'
    using assms(1) st(1) that by (auto simp: collector_ok_def)
  have "tk_epoch st \<le> cc_incarnation c" using assms(1) st(1) by (auto simp: collector_ok_def)
  then show ?thesis using assms(2) st n Some unfolding f counted_def
    by (auto simp: map_of_update captured_in_Cons e split: if_splits dest: other)
qed

lemma proposed_counted:
  assumes "counted c caps"
  shows "counted (proposed b c) caps"
proof (cases "owner b c")
  case (Some q)
  obtain rid st where q: "q = (rid, st)" by (cases q)
  have "map_of (cc_requests c) rid = Some st" using owner_facts [of b c rid st] Some q by simp
  then show ?thesis using assms Some q by (auto simp: counted_def proposed_def map_of_update split: if_splits)
qed (use assms in \<open>simp add: proposed_def counted_def\<close>)

lemma collects_counted: "collects c hist caps \<Longrightarrow> counted c caps"
proof (induction rule: collects.induct)
  case start
  then show ?case by (simp add: counted_def new_collector_def captured_in_def)
next
  case (capture c hist caps b s)
  then show ?case using capture_counted collects_ok by blast
qed (use collects_ok in \<open>auto simp: collector_ok_def intro: add_counted remove_counted proposed_counted\<close>)

text \<open>
  C31: A captured packet belongs to its proposal. In every run of the collector, a packet is captured only when the
  batch holds a single request which is the only one registered, and the latest recorded proposal is
  that request's own, made in the same incarnation, one step earlier and not superseded; the packet
  carries its number. With it, the packets the run has captured in that incarnation are at most 128. A packet that \<^verbatim>\<open>finish_packet\<close>
  declares valid has consecutive positions, and its verified tokens are the first of its drafts.
\<close>

theorem captured_packet_owned:
  assumes "collects c hist caps" and "capture b s c = (c', Some pk)"
  shows "\<exists>st p rest. hist = p # rest \<and> cc_requests c = [(pk_request pk, st)] \<and> sb_req_ids b = [pk_request pk] \<and> tk_eligible st
     \<and> pp_request p = pk_request pk \<and> pp_epoch p = tk_epoch st \<and> pk_epoch pk = tk_epoch st
     \<and> pk_proposal_id pk = pp_id p \<and> pp_id p = tk_serial st \<and> pk_age pk = 1
     \<and> length (filter (\<lambda>pk'. pk_epoch pk' = pk_epoch pk) (pk # caps)) \<le> 128
     \<and> (reason pk = None \<longrightarrow> pk_target_positions pk = [hd (pk_target_positions pk)..hd (pk_target_positions pk) + int (pk_verified_k pk)]
          \<and> tl (pk_target_tokens pk) = take (pk_verified_k pk) (pk_draft_tokens pk))"
proof -
  let ?c = "c\<lparr>cc_step := cc_step c + 1\<rparr>"
  obtain rid st where o: "owner b ?c = Some (rid, st)" using assms(2) by (auto simp: capture_def Let_def split: option.splits)
  obtain p where p: "cc_previous c = Some p" "pp_request p = rid" "pp_epoch p = tk_epoch st" "pp_step p = cc_step c"
      and pk: "pk_request pk = rid" "pk_epoch pk = tk_epoch st" "pk_proposal_id pk = pp_id p" "pk_age pk = 1"
    using assms(2) o by (auto simp: capture_def Let_def split: option.splits if_splits)
  have c: "collector_ok c hist" by (rule collects_ok [OF assms(1)])
  have "counted (fst (capture b s c)) (pk # caps)"
    using capture_counted [OF c collects_counted [OF assms(1)], of b s] assms(2) by simp
  then have limit: "length (filter (\<lambda>pk'. pk_epoch pk' = pk_epoch pk) (pk # caps)) \<le> 128"
    unfolding counted_def captured_in_def PACKET_LIMIT_def by blast
  have own: "map_of (cc_requests c) rid = Some st" "tk_eligible st" "tk_captured st < PACKET_LIMIT" "sb_req_ids b = [rid]" "length (cc_requests c) = 1"
    using owner_facts [OF o] by simp_all
  have one: "cc_requests c = [(rid, st)]"
    using own(1,5) by (cases "cc_requests c") (auto split: if_splits)
  have l: "hist \<noteq> []" "hd hist = p" "tk_serial st = pp_id p" using c p(1,2) own(1) by (auto simp: collector_ok_def)
  then obtain rest where "hist = p # rest" by (cases hist) auto
  moreover have "pk_target_positions pk = [hd (pk_target_positions pk)..hd (pk_target_positions pk) + int (pk_verified_k pk)]
      \<and> tl (pk_target_tokens pk) = take (pk_verified_k pk) (pk_draft_tokens pk)" if "reason pk = None"
    using that unfolding reason_def Let_def by (auto split: if_splits)
  ultimately show ?thesis using one own p pk l limit by auto
qed


definition demo_request :: new_request where
  "demo_request = \<lparr>nr_id = ''r'', nr_sampled = True, nr_capture = None, nr_temperature = 0, nr_structured = False, nr_resumable = False, nr_lora = False,
     nr_mm = False, nr_presence = 0, nr_frequency = 0, nr_repetition = 1, nr_allowed = False, nr_bad_words = False, nr_logit_bias = False\<rparr>"

definition demo_step :: step_batch where
  "demo_step = \<lparr>sb_num_reqs = 1, sb_req_ids = [''r''], sb_structured = False, sb_prefilling = False, sb_num_draft = 1, sb_num_tokens = 2,
     sb_positions = \<lparr>tv_shape = [2], tv_dtype = ''int64'', tv_data = [9, 10]\<rparr>, sb_input_ids = \<lparr>tv_shape = [2], tv_dtype = ''int32'', tv_data = [4, 5]\<rparr>\<rparr>"

definition demo_speculator :: speculator where
  "demo_speculator = \<lparr>sp_scores = Some \<lparr>tv_shape = [1, 7, 16], tv_dtype = ''float32'', tv_data = [replicate 7 (replicate 16 (Fin 0))]\<rparr>,
     sp_sample_pos = Some \<lparr>tv_shape = [7], tv_dtype = ''int64'', tv_data = [10, 11, 12, 13, 14, 15, 16]\<rparr>,
     sp_drafts = Some \<lparr>tv_shape = [1, 7], tv_dtype = ''int64'', tv_data = [[5, 6, 7, 8, 9, 10, 11]]\<rparr>\<rparr>"

definition demo_collector :: collector where
  "demo_collector = proposed demo_step (add_request demo_request new_collector)"

lemma demo_added:
  "add_request demo_request new_collector
     = \<lparr>cc_incarnation = 1, cc_step = 0, cc_requests = [(''r'', \<lparr>tk_epoch = 1, tk_eligible = True, tk_serial = 0, tk_captured = 0\<rparr>)], cc_previous = None\<rparr>"
  by (simp add: add_request_def remove_request_def new_collector_def request_eligible_def demo_request_def Let_def)

lemma demo_collector_eq:
  "demo_collector = \<lparr>cc_incarnation = 1, cc_step = 0, cc_requests = [(''r'', \<lparr>tk_epoch = 1, tk_eligible = True, tk_serial = 1, tk_captured = 0\<rparr>)],
     cc_previous = Some \<lparr>pp_request = ''r'', pp_epoch = 1, pp_id = 1, pp_step = 0\<rparr>\<rparr>"
  by (simp add: demo_collector_def demo_added proposed_def owner_def demo_step_def PACKET_LIMIT_def)

theorem captured_packet_owned_witness:
  "\<exists>c' pk. collects demo_collector [\<lparr>pp_request = ''r'', pp_epoch = 1, pp_id = 1, pp_step = 0\<rparr>] []
     \<and> capture demo_step demo_speculator demo_collector = (c', Some pk) \<and> pk_request pk = ''r'' \<and> pk_proposal_id pk = 1 \<and> pk_age pk = 1"
proof -
  have run: "collects demo_collector [\<lparr>pp_request = ''r'', pp_epoch = 1, pp_id = 1, pp_step = 0\<rparr>] []"
    using collects.propose [OF collects.add [OF collects.start, of demo_request], of demo_step]
    by (simp add: demo_collector_eq flip: demo_collector_def)
  have "\<exists>pk. snd (capture demo_step demo_speculator demo_collector) = Some pk \<and> pk_request pk = ''r'' \<and> pk_proposal_id pk = 1"
    by (simp add: demo_collector_eq capture_def owner_def demo_step_def demo_speculator_def buffers_ok_def PACKET_LIMIT_def Let_def)
  then obtain c' pk where cap: "capture demo_step demo_speculator demo_collector = (c', Some pk)" "pk_request pk = ''r''" "pk_proposal_id pk = 1"
    by (metis prod.collapse)
  then show ?thesis using captured_packet_owned [OF run cap(1)] run by blast
qed

end
