(* ===== verification/Spec_Policy.thy ===== *)
theory Spec_Policy
  imports Spec_Stats Spec_Confidence
begin

text \<open>
  The verification policy (\<^verbatim>\<open>vllm/v1/spec_decode/adaptive.py\<close>: \<^verbatim>\<open>eligible\<close>, \<^verbatim>\<open>JsonlSink\<close>, \<^verbatim>\<open>VerificationPolicy\<close>). Requests are
  identified by the number of their object; times and the digest of request identifiers are left to
  parameters or out. Theorem: in every run the statistics stay well formed, at most 64 steps wait
  for feedback, and only eligible, complete steps with the chosen cap are learned from.
\<close>

section \<open>Requests\<close>

datatype pmode = Off | Shadow | Fixed | Adaptive

fun mode_of :: "string \<Rightarrow> pmode option" where
  "mode_of m = (if m = ''off'' then Some Off else if m = ''shadow'' then Some Shadow else if m = ''fixed'' then Some Fixed
     else if m = ''adaptive'' then Some Adaptive else None)"

definition policy_mode :: "string option \<Rightarrow> pmode res" where
  "policy_mode env = (case env of None \<Rightarrow> ok Off | Some m \<Rightarrow> (case mode_of m of None \<Rightarrow> err ValueError | Some x \<Rightarrow> ok x))"

definition extra_capture_sizes :: "bool \<Rightarrow> string option \<Rightarrow> nat list res" where
  "extra_capture_sizes is_target env =
     (if is_target then rbind (policy_mode env) (\<lambda>m. ok (if m \<noteq> Off then [2, 4, 6] else [])) else ok [])"

record sampling =
  sm_temperature :: rat
  sm_presence :: rat
  sm_frequency :: rat
  sm_repetition :: rat
  sm_allowed :: bool
  sm_bad_words :: bool
  sm_logit_bias :: bool
  sm_extra :: xargs
  sm_ignore_eos :: bool
  sm_stop_ids :: "int list"
  sm_all_stop_ids :: "int list"
  sm_stop :: bool

record request =
  rq_oid :: nat
  rq_id :: string
  rq_sampling :: "sampling option"
  rq_prefill_chunk :: bool
  rq_structured :: bool
  rq_resumable :: bool
  rq_lora :: bool
  rq_mm :: bool
  rq_discard :: int
  rq_num_tokens :: int
  rq_placeholders :: int
  rq_output_tokens :: int
  rq_max_tokens :: int
  rq_eos :: "int option"
  rq_finished :: bool

definition eligible :: "request \<Rightarrow> bool \<Rightarrow> bool" where
  "eligible r c1 =
     (c1 \<and> (case rq_sampling r of None \<Rightarrow> False
       | Some sp \<Rightarrow> sm_temperature sp = 0 \<and> sm_presence sp = 0 \<and> sm_frequency sp = 0 \<and> sm_repetition sp = 1
           \<and> \<not> sm_allowed sp \<and> \<not> sm_bad_words sp \<and> \<not> sm_logit_bias sp)
      \<and> \<not> rq_prefill_chunk r \<and> \<not> rq_structured r \<and> \<not> rq_resumable r \<and> \<not> rq_lora r \<and> \<not> rq_mm r \<and> rq_discard r = 0)"

definition extra_args :: "request \<Rightarrow> xargs" where
  "extra_args r = (case rq_sampling r of None \<Rightarrow> [] | Some sp \<Rightarrow> sm_extra sp)"

record lossy =
  ly_margin :: "rat option"
  ly_min_p :: "rat option"
  ly_scope :: string
  ly_enabled :: bool

definition lossy_request_fields :: "bool \<Rightarrow> xargs \<Rightarrow> lossy" where
  "lossy_request_fields boot x =
     \<lparr>ly_margin = (case map_of x ''spec_lossy_margin'' of None \<Rightarrow> None | Some v \<Rightarrow> number v),
      ly_min_p = (case map_of x ''spec_lossy_min_p'' of None \<Rightarrow> Some 0 | Some v \<Rightarrow> number v),
      ly_scope = (case map_of x ''spec_lossy_scope'' of None \<Rightarrow> ''all''
        | Some v \<Rightarrow> if v = PStr ''all'' then ''all'' else if v = PStr ''think'' then ''think'' else ''invalid''),
      ly_enabled = boot\<rparr>"

section \<open>The policy's state\<close>

record chosen =
  ch_oid :: nat
  ch_step :: int
  ch_cap :: nat
  ch_eligible :: bool
  ch_mode :: pmode
  ch_probe :: bool
  ch_observations :: nat
  ch_costs :: costs
  ch_prior :: "rat list option"
  ch_hint_domain :: "string option"
  ch_label :: string
  ch_lossy :: lossy
  ch_scheduled_k :: nat
  ch_target_tokens :: int

record rstate =
  rs_stats :: prefix_stats
  rs_scheduled :: nat
  rs_curve_source :: "pyval option"
  rs_curve :: "curve option"

definition new_rstate :: rstate where
  "new_rstate = \<lparr>rs_stats = new_stats, rs_scheduled = 0, rs_curve_source = None, rs_curve = None\<rparr>"

record verify_row =
  vr_request :: string
  vr_chosen :: chosen
  vr_accepted :: nat
  vr_sampled :: nat
  vr_context :: int
  vr_terminal :: bool
  vr_learned :: bool
  vr_relaxed :: int
  vr_dropped :: nat
  vr_confidence :: "conf_row option"

datatype trace = PolicyStart pmode nat costs "rat list option" bool bool | Verify verify_row | WriterClose nat

text \<open>The sink: the rows in the bounded queue, rows written, rows dropped, and whether the writer failed or was closed.\<close>

record sink =
  sk_queue :: "trace list"
  sk_written :: "trace list"
  sk_dropped :: nat
  sk_error :: bool
  sk_closed :: bool
  sk_stop :: bool

definition new_sink :: sink where
  "new_sink = \<lparr>sk_queue = [], sk_written = [], sk_dropped = 0, sk_error = False, sk_closed = False, sk_stop = False\<rparr>"

definition emit :: "trace \<Rightarrow> sink \<Rightarrow> sink" where
  "emit row s =
     (if sk_error s \<or> sk_closed s \<or> 4096 \<le> length (sk_queue s) then s\<lparr>sk_dropped := sk_dropped s + 1\<rparr>
      else s\<lparr>sk_queue := sk_queue s @ [row]\<rparr>)"

text \<open>One turn of the writer thread: a row, or the stop mark behind the last row; \<open>fails\<close> says whether the write raises.\<close>

definition write_turn :: "bool \<Rightarrow> sink \<Rightarrow> sink" where
  "write_turn fails s =
     (if sk_error s then s
      else case sk_queue s of
        row # rest \<Rightarrow> if fails then s\<lparr>sk_queue := rest, sk_error := True\<rparr> else s\<lparr>sk_queue := rest, sk_written := sk_written s @ [row]\<rparr>
      | [] \<Rightarrow> if sk_stop s then s\<lparr>sk_stop := False, sk_written := sk_written s @ [WriterClose (sk_dropped s)]\<rparr> else s)"

text \<open>Closing: the stop mark is queued when there is room, or when the writer makes room in time; a writer that failed is gone.\<close>

definition close_sink :: "bool \<Rightarrow> sink \<Rightarrow> sink" where
  "close_sink drained s =
     (if sk_closed s then s
      else s\<lparr>sk_closed := True, sk_stop := (\<not> sk_error s \<and> (length (sk_queue s) < 4096 \<or> drained))\<rparr>)"

record policy =
  po_mode :: pmode
  po_pending :: "(nat, (string, chosen) odict) odict"
  po_chosen :: "(string, chosen) odict"
  po_states :: "(nat, rstate) odict"
  po_costs :: costs
  po_prior :: "rat list option"
  po_curve :: "curve option"
  po_hints :: "hint_priors option"
  po_cost_context :: "int \<times> int"
  po_lane :: string
  po_signature :: pyval
  po_max_len :: int
  po_fixed :: nat
  po_lossy :: bool
  po_sink :: "sink option"

section \<open>Construction\<close>

record policy_config =
  pc_tp :: int
  pc_dcp :: int
  pc_max_len :: int
  pc_v2 :: bool
  pc_spec_tokens :: int
  pc_method :: string
  pc_rejection :: string
  pc_pipeline :: int
  pc_data :: int
  pc_async :: bool

text \<open>The environment: mode, cap, the parsed cost file and the text of the hint file when they are named, the trace switch.\<close>

record policy_env =
  ev_mode :: "string option"
  ev_fixed :: "int res"
  ev_costs :: "pyval res option"
  ev_hints :: "string res option"
  ev_trace :: bool
  ev_confidence :: bool
  ev_lossy :: bool

text \<open>What the standard library parses: integers and floats from strings, JSON, and the decimal form of an integer.\<close>

record parsers =
  pa_int :: "string \<Rightarrow> int option"
  pa_float :: "string \<Rightarrow> rat option"
  pa_json :: "string \<Rightarrow> pyval res"
  pa_dec :: "int \<Rightarrow> string"

definition lane :: "parsers \<Rightarrow> policy_config \<Rightarrow> string" where
  "lane pa c = ''tp'' @ pa_dec pa (pc_tp c) @ ''-dcp'' @ pa_dec pa (pc_dcp c) @ ''-l'' @ pa_dec pa (pc_max_len c) @ ''-k7''"

definition signature :: "policy_config \<Rightarrow> pyval" where
  "signature c = PMap ''dict'' [(PStr ''tp'', PInt (pc_tp c)), (PStr ''dcp'', PInt (pc_dcp c)), (PStr ''max_model_len'', PInt (pc_max_len c)), (PStr ''draft_capacity'', PInt 7)]"

fun to_float :: "parsers \<Rightarrow> pyval \<Rightarrow> rat option" where
  "to_float pa (PStr s) = pa_float pa s"
| "to_float pa (PBool b) = Some (if b then 1 else 0)"
| "to_float pa v = number v"

fun init_costs :: "parsers \<Rightarrow> (pyval \<times> pyval) list \<Rightarrow> (int, rat) odict \<Rightarrow> (int, rat) odict res" where
  "init_costs pa [] acc = ok acc"
| "init_costs pa ((k, v) # kvs) acc =
     (case (pa_int pa (str_of k), to_float pa v) of
        (Some i, Some q) \<Rightarrow> init_costs pa kvs (AList.update i q acc)
      | _ \<Rightarrow> err ValueError)"

text \<open>The first calibration point also gives the plain cost fields of the table.\<close>

definition field :: "pyval \<Rightarrow> pyval option \<Rightarrow> string \<Rightarrow> pyval option" where
  "field data first k = (case (case first of None \<Rightarrow> None | Some f \<Rightarrow> dict_get f k) of Some v \<Rightarrow> Some v | None \<Rightarrow> dict_get data k)"

definition first_point :: "pyval \<Rightarrow> pyval option" where
  "first_point data = (case dict_get data ''calibration_points'' of Some (PSeq t (r # rs)) \<Rightarrow> Some r | _ \<Rightarrow> None)"

definition cost_fields :: "policy_config \<Rightarrow> pyval \<Rightarrow> pyval option \<Rightarrow> curve option \<Rightarrow> (int, rat) odict \<Rightarrow> policy \<Rightarrow> policy res" where
  "cost_fields c data first curve raw p =
     (case bounds_of (pc_max_len c) (dict_get data ''context_range'') of
        None \<Rightarrow> err ValueError
      | Some b \<Rightarrow>
          let given = field data first ''conditional_acceptance_prior''; prior = validated_prior given in
          if given \<noteq> None \<and> prior = None then err ValueError
          else if prior \<noteq> None \<and> \<not> default_strength (field data first ''prior_strength'') then err ValueError
          else if set (map fst raw) \<noteq> set (map int CAPS) \<or> \<not> list_all (\<lambda>(_, q). 0 < q) raw then err ValueError
          else ok (p\<lparr>po_curve := curve, po_cost_context := b, po_prior := prior, po_costs := map (\<lambda>k. (k, the (map_of raw (int k)))) CAPS\<rparr>))"

definition boot_curve :: "parsers \<Rightarrow> policy_config \<Rightarrow> pyval \<Rightarrow> curve option res" where
  "boot_curve pa c data =
     (if dict_get data ''calibration_points'' = None then ok None
      else rbind (curve_parse (pa_int pa) (pc_max_len c) data) (\<lambda>cv. ok (Some cv)))"

definition load_costs :: "parsers \<Rightarrow> policy_config \<Rightarrow> pyval \<Rightarrow> policy \<Rightarrow> policy res" where
  "load_costs pa c data p =
     (case dict_get data ''config'' of
        None \<Rightarrow> err ValueError
      | Some cfg \<Rightarrow>
          if \<not> same_json cfg (signature c) then err ValueError
          else rbind (boot_curve pa c data) (\<lambda>curve.
            let first = (if curve = None then None else first_point data) in
            case field data first ''cycle_ms'' of
              Some (PMap t kvs) \<Rightarrow> rbind (init_costs pa kvs []) (\<lambda>raw. cost_fields c data first curve raw p)
            | Some _ \<Rightarrow> err AttributeError
            | None \<Rightarrow> err KeyError))"

definition load_hints :: "parsers \<Rightarrow> policy_config \<Rightarrow> string \<Rightarrow> policy \<Rightarrow> policy res" where
  "load_hints pa c raw p =
     (if 16384 < length raw then err ValueError
      else rbind (pa_json pa raw) (\<lambda>data. rbind (hints_parse (signature c) (pc_max_len c) data) (\<lambda>h. ok (p\<lparr>po_hints := Some h\<rparr>))))"

definition new_policy :: "parsers \<Rightarrow> policy_env \<Rightarrow> policy_config \<Rightarrow> pmode \<Rightarrow> int \<Rightarrow> policy" where
  "new_policy pa env c mode fixed =
     \<lparr>po_mode = mode, po_pending = [], po_chosen = [], po_states = [], po_costs = [], po_prior = None, po_curve = None, po_hints = None,
      po_cost_context = (0, 0), po_lane = lane pa c, po_signature = signature c, po_max_len = pc_max_len c, po_fixed = nat fixed,
      po_lossy = ev_lossy env, po_sink = None\<rparr>"

definition supported :: "policy_config \<Rightarrow> bool" where
  "supported c = (pc_v2 c \<and> pc_spec_tokens c = 7 \<and> pc_method c = ''dflash'' \<and> pc_rejection c \<noteq> ''synthetic'' \<and> pc_pipeline c = 1
     \<and> pc_data c = 1 \<and> pc_async c)"

definition open_trace :: "policy_env \<Rightarrow> policy \<Rightarrow> policy" where
  "open_trace env p =
     (if ev_trace env
      then p\<lparr>po_sink := Some (emit (PolicyStart (po_mode p) (po_fixed p) (po_costs p) (po_prior p) (po_hints p \<noteq> None) (ev_confidence env)) new_sink)\<rparr>
      else p)"

definition policy_init :: "parsers \<Rightarrow> policy_env \<Rightarrow> policy_config \<Rightarrow> policy res" where
  "policy_init pa env c =
     rbind (policy_mode (ev_mode env)) (\<lambda>mode. rbind (ev_fixed env) (\<lambda>fixed.
       if fixed \<notin> set (map int CAPS) then err ValueError
       else if mode = Off then ok (new_policy pa env c mode fixed)
       else if \<not> supported c then err ValueError
       else rbind (case ev_costs env of None \<Rightarrow> ok (new_policy pa env c mode fixed)
                   | Some d \<Rightarrow> rbind d (\<lambda>data. load_costs pa c data (new_policy pa env c mode fixed))) (\<lambda>p1.
            rbind (case ev_hints env of None \<Rightarrow> ok p1 | Some d \<Rightarrow> rbind d (\<lambda>raw. load_hints pa c raw p1)) (\<lambda>p2.
              ok (open_trace env p2)))))"

section \<open>Selecting a cap\<close>

definition begin_step :: "policy \<Rightarrow> policy" where
  "begin_step p = p\<lparr>po_chosen := []\<rparr>"

definition state_of :: "policy \<Rightarrow> request \<Rightarrow> rstate" where
  "state_of p r = (case map_of (po_states p) (rq_oid r) of None \<Rightarrow> new_rstate | Some s \<Rightarrow> s)"

definition boot_costs :: "policy \<Rightarrow> int \<Rightarrow> costs \<times> rat list option" where
  "boot_costs p context =
     (case po_curve p of
        Some cv \<Rightarrow> curve_at cv context
      | None \<Rightarrow>
          let cs = (if fst (po_cost_context p) \<le> context \<and> context < snd (po_cost_context p) then po_costs p else [])
          in (cs, if cs = [] then None else po_prior p))"

text \<open>
  A request may bring its own cost table, parsed once; the table is a dictionary, or its JSON text when
  that is short enough. Request controls do not change after admission, so equality stands for identity.
\<close>

definition is_table :: "pyval \<Rightarrow> bool" where
  "is_table v = (case v of PMap _ _ \<Rightarrow> True | PStr _ \<Rightarrow> True | _ \<Rightarrow> False)"

definition parse_request_curve :: "parsers \<Rightarrow> policy \<Rightarrow> pyval \<Rightarrow> curve option" where
  "parse_request_curve pa p src =
     (case (case src of PStr t \<Rightarrow> if length t \<le> 16384 then pa_json pa t else ok src | _ \<Rightarrow> ok src) of
        Inl e \<Rightarrow> None
      | Inr data \<Rightarrow>
          (case (data, dict_get data ''config'') of
             (PMap _ _, Some cfg) \<Rightarrow>
               if same_json cfg (po_signature p) \<and> dict_get data ''lane'' = Some (PStr (po_lane p))
               then (case curve_parse (pa_int pa) (po_max_len p) data of Inl e \<Rightarrow> None | Inr cv \<Rightarrow> Some cv) else None
           | _ \<Rightarrow> None))"

definition with_curve :: "parsers \<Rightarrow> policy \<Rightarrow> xargs \<Rightarrow> rstate \<Rightarrow> rstate" where
  "with_curve pa p x s =
     (case map_of x ''spec_cost_table'' of
        Some src \<Rightarrow> if is_table src \<and> rs_curve_source s \<noteq> Some src
                    then s\<lparr>rs_curve_source := Some src, rs_curve := parse_request_curve pa p src\<rparr> else s
      | None \<Rightarrow> s)"

definition table_costs :: "xargs \<Rightarrow> rstate \<Rightarrow> int \<Rightarrow> costs \<times> rat list option \<Rightarrow> costs \<times> rat list option" where
  "table_costs x s context base =
     (case (map_of x ''spec_cost_table'', rs_curve s) of
        (Some src, Some cv) \<Rightarrow>
          if is_table src \<and> rs_curve_source s = Some src \<and> fst (curve_at cv context) \<noteq> [] then curve_at cv context else base
      | _ \<Rightarrow> base)"

definition request_costs :: "policy \<Rightarrow> xargs \<Rightarrow> int \<Rightarrow> costs \<times> rat list option \<Rightarrow> costs \<times> rat list option" where
  "request_costs p x context base =
     (case (map_of x ''spec_cycle_ms'', map_of x ''spec_cost_context'') of
        (Some (PSeq t vs), Some (PSeq t' [PInt a, PInt b])) \<Rightarrow>
          if map_of x ''spec_cost_lane'' = Some (PStr (po_lane p)) \<and> t = ''list'' \<and> t' = ''list'' \<and> length vs = length CAPS
             \<and> 0 \<le> a \<and> a \<le> context \<and> context < b \<and> list_all (\<lambda>v. case number v of None \<Rightarrow> False | Some q \<Rightarrow> 0 < q) vs
          then (zip CAPS (map (the \<circ> number) vs), validated_prior (map_of x ''spec_acceptance_prior'')) else base
      | _ \<Rightarrow> base)"

definition request_mode :: "policy \<Rightarrow> xargs \<Rightarrow> pmode" where
  "request_mode p x = (case map_of x ''spec_policy'' of Some (PStr m) \<Rightarrow> (case mode_of m of Some y \<Rightarrow> y | None \<Rightarrow> po_mode p) | _ \<Rightarrow> po_mode p)"

definition fixed_cap :: "policy \<Rightarrow> xargs \<Rightarrow> nat" where
  "fixed_cap p x = (case map_of x ''spec_verify_cap'' of None \<Rightarrow> po_fixed p
     | Some v \<Rightarrow> (case v of PInt i \<Rightarrow> if i \<in> set (map int CAPS) then nat i else 7 | _ \<Rightarrow> 7))"

text \<open>\<^verbatim>\<open>select\<close>; \<open>label\<close> is Python's \<^verbatim>\<open>str\<close> of the request's label.\<close>

definition select :: "parsers \<Rightarrow> (pyval \<Rightarrow> string) \<Rightarrow> request \<Rightarrow> bool \<Rightarrow> int \<Rightarrow> policy \<Rightarrow> policy \<times> nat" where
  "select pa label r c1 step p =
     (let elig = eligible r c1; x = extra_args r; s = with_curve pa p x (state_of p r);
          context = rq_num_tokens r + rq_placeholders r;
          (costs, prior0) = request_costs p x context (table_costs x s context (boot_costs p context));
          mode = request_mode p x;
          hint = (case po_hints p of
             Some h \<Rightarrow> if elig \<and> mode = Adaptive \<and> costs \<noteq> [] \<and> ps_observations (rs_stats s) < 8 then hints_select h x context else None
           | None \<Rightarrow> None);
          prior = (case hint of Some (q, _) \<Rightarrow> Some q | None \<Rightarrow> prior0);
          st = (rs_stats s)\<lparr>ps_prior := prior\<rparr>;
          n = (if elig then rs_scheduled s + 1 else rs_scheduled s);
          (st', cap, probe) =
            (if \<not> elig then (st, 7, False)
             else if mode = Fixed then (st, fixed_cap p x, False)
             else if mode = Adaptive then choose_cap costs n (hint \<noteq> None) st
             else (st, 7, False));
          row = \<lparr>ch_oid = rq_oid r, ch_step = step, ch_cap = cap, ch_eligible = elig, ch_mode = mode, ch_probe = probe,
                 ch_observations = ps_observations st', ch_costs = costs, ch_prior = prior, ch_hint_domain = map_option snd hint,
                 ch_label = take 96 (case map_of x ''spec_label'' of None \<Rightarrow> [] | Some v \<Rightarrow> label v),
                 ch_lossy = lossy_request_fields (po_lossy p) x, ch_scheduled_k = 0, ch_target_tokens = 0\<rparr>
      in (p\<lparr>po_states := AList.update (rq_oid r) (s\<lparr>rs_stats := st', rs_scheduled := n\<rparr>) (po_states p),
            po_chosen := AList.update (rq_id r) row (po_chosen p)\<rparr>, cap))"

section \<open>Scheduling and feedback\<close>

text \<open>A scheduler output: its identity, the speculative tokens and the scheduled tokens by request.\<close>

record sched_output =
  so_oid :: nat
  so_spec_tokens :: "(string, int list) odict"
  so_num_tokens :: "string \<Rightarrow> int"

definition scheduled_rows :: "policy \<Rightarrow> sched_output \<Rightarrow> (string, chosen) odict" where
  "scheduled_rows p out =
     map (\<lambda>(rid, ts). (rid, (the (map_of (po_chosen p) rid))\<lparr>ch_scheduled_k := length ts, ch_target_tokens := so_num_tokens out rid\<rparr>))
       (filter (\<lambda>(rid, _). map_of (po_chosen p) rid \<noteq> None) (so_spec_tokens out))"

definition scheduled :: "sched_output \<Rightarrow> policy \<Rightarrow> policy \<times> unit res" where
  "scheduled out p =
     (let rows = scheduled_rows p out in
      if rows = [] then (p, ok ())
      else if 64 \<le> length (po_pending p) then (p, err RuntimeError)
      else (p\<lparr>po_pending := AList.update (so_oid out) rows (po_pending p)\<rparr>, ok ()))"

record runner_output =
  ro_invalid_blocks :: bool
  ro_index :: "(string, nat) odict"
  ro_tokens :: "int list list"
  ro_confidence :: "(string, conf_row) odict"
  ro_relaxed :: "(string, int) odict"

definition terminal :: "request \<Rightarrow> int list \<Rightarrow> bool" where
  "terminal r tokens =
     (rq_max_tokens r \<le> rq_output_tokens r + int (length tokens)
      \<or> (case rq_sampling r of None \<Rightarrow> (case rq_eos r of None \<Rightarrow> False | Some t \<Rightarrow> t \<in> set tokens)
         | Some sp \<Rightarrow>
             (\<not> sm_ignore_eos sp \<and> (case rq_eos r of None \<Rightarrow> False | Some t \<Rightarrow> t \<in> set tokens))
             \<or> list_ex (\<lambda>t. t \<in> set tokens) (sm_stop_ids sp)
             \<or> (\<not> sm_ignore_eos sp \<and> list_ex (\<lambda>t. t \<in> set tokens) (sm_all_stop_ids sp))
             \<or> sm_stop sp))"

definition join_confidence :: "nat \<Rightarrow> int list \<Rightarrow> bool \<Rightarrow> conf_row \<Rightarrow> conf_row" where
  "join_confidence k tokens valid c =
     (let accepted = length tokens - 1;
          c1 = (if cf_valid c \<and> (pk_verified_k (cf_packet c) \<noteq> k \<or> take accepted tokens \<noteq> take accepted (pk_draft_tokens (cf_packet c)))
                then c\<lparr>cf_valid := False, cf_reason := Some ''acceptance_join_mismatch'', cf_scores := None\<rparr> else c)
      in c1\<lparr>cf_learnable := (valid \<and> cf_valid c1)\<rparr>)"

text \<open>
  One row of \<^verbatim>\<open>complete\<close>: the checks, then the update of the statistics and the trace of the step;
  \<open>hash\<close> abbreviates a request identifier.
\<close>

definition record_row :: "(string \<Rightarrow> string) \<Rightarrow> runner_output \<Rightarrow> string \<Rightarrow> chosen \<Rightarrow> request \<Rightarrow> rstate \<Rightarrow> int list \<Rightarrow> policy \<Rightarrow> policy res" where
  "record_row hash ro rid row r s tokens p =
     (let k = ch_scheduled_k row; accepted = length tokens - 1; term = terminal r tokens; valid = (ch_eligible row \<and> \<not> term \<and> k = ch_cap row) in
      rbind (if valid then observe (int k) (int accepted) (rs_stats s) else ok (rs_stats s)) (\<lambda>st.
        ok (p\<lparr>po_states := AList.update (rq_oid r) (s\<lparr>rs_stats := st\<rparr>) (po_states p),
              po_sink := (case po_sink p of None \<Rightarrow> None
                | Some sk \<Rightarrow> Some (emit (Verify \<lparr>vr_request = hash rid, vr_chosen = row, vr_accepted = accepted, vr_sampled = length tokens,
                    vr_context = rq_num_tokens r, vr_terminal = term, vr_learned = valid,
                    vr_relaxed = (case map_of (ro_relaxed ro) rid of None \<Rightarrow> 0 | Some n \<Rightarrow> n), vr_dropped = sk_dropped sk,
                    vr_confidence = map_option (join_confidence k tokens valid) (map_of (ro_confidence ro) rid)\<rparr>) sk))\<rparr>)))"

definition complete_row :: "(string \<Rightarrow> string) \<Rightarrow> runner_output \<Rightarrow> (string, request) odict \<Rightarrow> string \<times> chosen \<Rightarrow> policy \<Rightarrow> policy res" where
  "complete_row hash ro requests = (\<lambda>(rid, row) p.
     case map_of requests rid of
       None \<Rightarrow> ok p
     | Some r \<Rightarrow>
         if rq_oid r \<noteq> ch_oid row \<or> rq_finished r then ok p
         else case map_of (po_states p) (rq_oid r) of
           None \<Rightarrow> ok p
         | Some s \<Rightarrow>
             if rq_discard r \<noteq> 0 then ok p
             else case map_of (ro_index ro) rid of
               None \<Rightarrow> ok p
             | Some i \<Rightarrow>
                 if ro_tokens ro = [] then ok p
                 else if length (ro_tokens ro) \<le> i then err IndexError
                 else let tokens = ro_tokens ro ! i; k = ch_scheduled_k row in
                   if tokens = [] \<or> \<not> (1 \<le> k \<and> k \<le> 7) \<or> k + 1 < length tokens then ok p
                   else record_row hash ro rid row r s tokens p)"

definition complete :: "(string \<Rightarrow> string) \<Rightarrow> sched_output \<Rightarrow> runner_output \<Rightarrow> (string, request) odict \<Rightarrow> policy \<Rightarrow> policy res" where
  "complete hash out ro requests p =
     (let rows = (case map_of (po_pending p) (so_oid out) of None \<Rightarrow> [] | Some rs \<Rightarrow> rs);
          p1 = p\<lparr>po_pending := AList.delete (so_oid out) (po_pending p)\<rparr> in
      if ro_invalid_blocks ro then ok p1 else fold_res (complete_row hash ro requests) rows p1)"


section \<open>The invariant of a policy\<close>

definition costs_fit :: "costs \<Rightarrow> bool" where
  "costs_fit cs = (cs = [] \<or> costs_ok cs)"

definition rstate_ok :: "rstate \<Rightarrow> bool" where
  "rstate_ok s = (stats_ok (rs_stats s) \<and> (case rs_curve s of None \<Rightarrow> True | Some cv \<Rightarrow> curve_ok cv))"

definition rows_ok :: "(string, chosen) odict \<Rightarrow> bool" where
  "rows_ok rows = (\<forall>row \<in> snd ` set rows. ch_cap row \<in> set CAPS)"

definition tables_ok :: "policy \<Rightarrow> bool" where
  "tables_ok p = (costs_fit (po_costs p) \<and> prior_ok (po_prior p) \<and> po_fixed p \<in> set CAPS
     \<and> (case po_curve p of None \<Rightarrow> True | Some cv \<Rightarrow> curve_ok cv)
     \<and> (case po_hints p of None \<Rightarrow> True | Some h \<Rightarrow> prior_ok (Some (hp_code h)) \<and> prior_ok (Some (hp_prose h))))"

definition policy_ok :: "policy \<Rightarrow> bool" where
  "policy_ok p = (tables_ok p \<and> (\<forall>s \<in> snd ` set (po_states p). rstate_ok s) \<and> rows_ok (po_chosen p)
     \<and> length (po_pending p) \<le> 64 \<and> (\<forall>rows \<in> snd ` set (po_pending p). rows_ok rows))"

lemma policy_okD:
  assumes "policy_ok p"
  shows "tables_ok p" "\<forall>s \<in> snd ` set (po_states p). rstate_ok s" "rows_ok (po_chosen p)" "length (po_pending p) \<le> 64"
    "\<forall>rows \<in> snd ` set (po_pending p). rows_ok rows"
  using assms unfolding policy_ok_def by argo+

lemma hints_parse_ok: "hints_parse sig n data = ok h \<Longrightarrow> prior_ok (Some (hp_code h)) \<and> prior_ok (Some (hp_prose h))"
proof -
  assume run: "hints_parse sig n data = ok h"
  then obtain c q where d: "hint_domains (dict_get data ''domains'') = Some (c, q)" "hp_code h = c" "hp_prose h = q"
    by (auto simp: hints_parse_def split: option.splits prod.splits if_splits)
  then obtain kvs where "validated_prior (map_of kvs (PStr ''code'')) = Some c" "validated_prior (map_of kvs (PStr ''prose'')) = Some q"
    by (auto simp: hint_domains_def split: option.splits pyval.splits if_splits)
  then show ?thesis using d validated_prior_ok by metis
qed

lemma hints_select_ok:
  "hints_select h x context = Some (q, d) \<Longrightarrow> prior_ok (Some (hp_code h)) \<Longrightarrow> prior_ok (Some (hp_prose h)) \<Longrightarrow> prior_ok (Some q)"
  by (auto simp: hints_select_def Let_def split: if_splits option.splits pyval.splits)

lemma curve_at_fit: "curve_ok cv \<Longrightarrow> costs_fit (fst (curve_at cv x)) \<and> prior_ok (snd (curve_at cv x))"
  using curve_at_spanned [of cv x] by (auto simp: costs_fit_def spanned_def prior_ok_def)

lemma prior_ok_None: "prior_ok None"
  by (simp add: prior_ok_def)

lemma boot_costs_fit: "tables_ok p \<Longrightarrow> costs_fit (fst (boot_costs p x)) \<and> prior_ok (snd (boot_costs p x))"
  using curve_at_fit [of "the (po_curve p)" x]
  by (cases "po_curve p") (auto simp: boot_costs_def tables_ok_def costs_fit_def prior_ok_None Let_def)

lemma table_costs_fit:
  "rstate_ok s \<Longrightarrow> costs_fit (fst base) \<and> prior_ok (snd base) \<Longrightarrow> costs_fit (fst (table_costs x s c base)) \<and> prior_ok (snd (table_costs x s c base))"
  using curve_at_fit by (auto simp: table_costs_def rstate_ok_def split: option.splits)

lemma request_costs_fit:
  assumes "costs_fit (fst base) \<and> prior_ok (snd base)"
  shows "costs_fit (fst (request_costs p x c base)) \<and> prior_ok (snd (request_costs p x c base))"
proof -
  have "costs_ok (zip CAPS (map (the \<circ> number) vs))"
    if len: "length vs = length CAPS" and pos: "list_all (\<lambda>v. case number v of None \<Rightarrow> False | Some q \<Rightarrow> 0 < q) vs" for vs
  proof -
    obtain v1 v2 v3 v4 where vs: "vs = [v1, v2, v3, v4]" using len by (auto simp: CAPS_def length_Suc_conv)
    show ?thesis using pos by (auto simp: vs costs_ok_def CAPS_def cost_def split: option.splits)
  qed
  then show ?thesis using assms validated_prior_ok
    by (auto simp: request_costs_def costs_fit_def split: option.splits pyval.splits list.splits if_splits)
qed

lemma with_curve_ok: "rstate_ok s \<Longrightarrow> rstate_ok (with_curve pa p x s) \<and> rs_stats (with_curve pa p x s) = rs_stats s"
proof -
  have "curve_ok cv" if "parse_request_curve pa p src = Some cv" for src cv
    using that curve_parse_ok by (auto simp: parse_request_curve_def split: option.splits pyval.splits sum.splits if_splits)
  then show "rstate_ok s \<Longrightarrow> rstate_ok (with_curve pa p x s) \<and> rs_stats (with_curve pa p x s) = rs_stats s"
    by (auto simp: with_curve_def rstate_ok_def split: option.splits)
qed

lemma state_of_ok: "policy_ok p \<Longrightarrow> rstate_ok (state_of p r)"
  using new_stats_ok by (force simp: state_of_def policy_ok_def rstate_ok_def new_rstate_def split: option.splits dest: map_of_SomeD)

lemma fixed_cap_ok: "tables_ok p \<Longrightarrow> fixed_cap p x \<in> set CAPS"
  by (auto simp: fixed_cap_def tables_ok_def CAPS_def split: option.splits pyval.splits)

lemma ball_update: "\<forall>y \<in> snd ` set d. P y \<Longrightarrow> P v \<Longrightarrow> \<forall>y \<in> snd ` set (AList.update k v d). P y"
  using set_update_subset [of k v d] by fastforce

lemma stats_prior: "stats_ok s \<Longrightarrow> prior_ok q \<Longrightarrow> stats_ok (s\<lparr>ps_prior := q\<rparr>)"
  by (simp add: stats_ok_def)

text \<open>What a selection does: the chosen cap, the new state of the request, and nothing else that matters.\<close>

lemma select_step:
  assumes "policy_ok p" and "select pa label r c1 step p = (p', cap)"
  shows "policy_ok p' \<and> cap \<in> set CAPS \<and> (\<not> eligible r c1 \<or> request_mode p (extra_args r) = Off \<or> request_mode p (extra_args r) = Shadow \<longrightarrow> cap = 7)"
proof -
  let ?x = "extra_args r" and ?ctx = "rq_num_tokens r + rq_placeholders r"
  define s where "s = with_curve pa p ?x (state_of p r)"
  obtain costs prior0 where cp: "request_costs p ?x ?ctx (table_costs ?x s ?ctx (boot_costs p ?ctx)) = (costs, prior0)" by fastforce
  define hint where "hint = (case po_hints p of
             Some h \<Rightarrow> if eligible r c1 \<and> request_mode p ?x = Adaptive \<and> costs \<noteq> [] \<and> ps_observations (rs_stats s) < 8 then hints_select h ?x ?ctx else None
           | None \<Rightarrow> None)"
  define prior where "prior = (case hint of Some (q, _) \<Rightarrow> Some q | None \<Rightarrow> prior0)"
  define st where "st = (rs_stats s)\<lparr>ps_prior := prior\<rparr>"
  define n where "n = (if eligible r c1 then rs_scheduled s + 1 else rs_scheduled s)"
  obtain st' cap' probe where ch: "(if \<not> eligible r c1 then (st, 7, False)
             else if request_mode p ?x = Fixed then (st, fixed_cap p ?x, False)
             else if request_mode p ?x = Adaptive then choose_cap costs n (hint \<noteq> None) st
             else (st, 7, False)) = (st', cap', probe)" by (metis prod_cases3)
  have tab: "tables_ok p" using assms(1) by (simp add: policy_ok_def)
  have s: "rstate_ok s" unfolding s_def using with_curve_ok [OF state_of_ok [OF assms(1)]] by blast
  have fit: "costs_fit costs \<and> prior_ok prior0"
    using request_costs_fit [OF table_costs_fit [OF s boot_costs_fit [OF tab]], of p ?x ?ctx ?x ?ctx ?ctx] cp by simp
  have "prior_ok prior"
    using fit tab hints_select_ok unfolding prior_def hint_def tables_ok_def by (auto split: option.splits if_splits)
  then have st: "stats_ok st" using s stats_prior by (simp add: st_def rstate_ok_def)
  have seven: "7 \<in> set CAPS" by (simp add: CAPS_def)
  have res: "stats_ok st' \<and> cap' \<in> set CAPS"
    using ch st seven fixed_cap_ok [OF tab] choose_keeps [OF st] by (auto split: if_splits)
  define row where "row = \<lparr>ch_oid = rq_oid r, ch_step = step, ch_cap = cap', ch_eligible = eligible r c1, ch_mode = request_mode p ?x, ch_probe = probe,
                 ch_observations = ps_observations st', ch_costs = costs, ch_prior = prior, ch_hint_domain = map_option snd hint,
                 ch_label = take 96 (case map_of ?x ''spec_label'' of None \<Rightarrow> [] | Some v \<Rightarrow> label v),
                 ch_lossy = lossy_request_fields (po_lossy p) ?x, ch_scheduled_k = 0, ch_target_tokens = 0\<rparr>"
  have out: "p' = p\<lparr>po_states := AList.update (rq_oid r) (s\<lparr>rs_stats := st', rs_scheduled := n\<rparr>) (po_states p),
            po_chosen := AList.update (rq_id r) row (po_chosen p)\<rparr>" "cap = cap'"
    using assms(2) unfolding select_def Let_def s_def [symmetric] cp prod.case hint_def [symmetric] prior_def [symmetric] st_def [symmetric] n_def [symmetric] ch row_def
    by auto
  have "rstate_ok (s\<lparr>rs_stats := st', rs_scheduled := n\<rparr>)" using s res by (simp add: rstate_ok_def)
  then have "\<forall>y \<in> snd ` set (po_states p'). rstate_ok y" using ball_update [OF policy_okD(2) [OF assms(1)]] out(1) by simp
  moreover have "rows_ok (po_chosen p')"
  proof -
    have "ch_cap row \<in> set CAPS" using res by (simp only: row_def chosen.simps)
    then show ?thesis using ball_update [OF policy_okD(3) [OF assms(1), unfolded rows_ok_def]] out(1) unfolding rows_ok_def by simp
  qed
  moreover have "tables_ok p'" using tab out(1) by (simp add: tables_ok_def)
  ultimately have "policy_ok p'" using assms(1) out(1) by (simp add: policy_ok_def)
  moreover have "cap = 7" if "\<not> eligible r c1 \<or> request_mode p ?x = Off \<or> request_mode p ?x = Shadow"
    using that ch out(2) by (auto split: if_splits)
  ultimately show ?thesis using res out(2) by blast
qed

lemma length_update: "length (AList.update k v d) \<le> length d + 1"
  by (induction d) auto

lemma scheduled_ok: "policy_ok p \<Longrightarrow> scheduled out p = (p', res) \<Longrightarrow> policy_ok p'"
proof -
  assume p: "policy_ok p" and run: "scheduled out p = (p', res)"
  have rows: "rows_ok (scheduled_rows p out)"
  proof -
    have "ch_cap (the (map_of (po_chosen p) rid)) \<in> set CAPS" if "map_of (po_chosen p) rid \<noteq> None" for rid
      using that p by (force simp: policy_ok_def rows_ok_def dest: map_of_SomeD)
    then show ?thesis by (force simp: scheduled_rows_def rows_ok_def)
  qed
  show ?thesis
  proof (cases "scheduled_rows p out = [] \<or> 64 \<le> length (po_pending p)")
    case True
    then have "p' = p" using run by (auto simp: scheduled_def Let_def split: if_splits)
    then show ?thesis using p by simp
  next
    case False
    then have p': "p' = p\<lparr>po_pending := AList.update (so_oid out) (scheduled_rows p out) (po_pending p)\<rparr>"
      using run by (auto simp: scheduled_def Let_def split: if_splits)
    have "length (po_pending p') \<le> 64" using False length_update [of "so_oid out" "scheduled_rows p out" "po_pending p"] by (simp add: p')
    moreover have "\<forall>rs \<in> snd ` set (po_pending p'). rows_ok rs" using ball_update [OF policy_okD(5) [OF p]] rows p' by simp
    moreover have "tables_ok p'" using p by (simp add: p' policy_ok_def tables_ok_def)
    ultimately show ?thesis using p by (simp add: p' policy_ok_def)
  qed
qed

text \<open>How often a request's statistics were updated.\<close>

definition learned :: "policy \<Rightarrow> nat \<Rightarrow> nat" where
  "learned p oid = (case map_of (po_states p) oid of None \<Rightarrow> 0 | Some s \<Rightarrow> ps_observations (rs_stats s))"

text \<open>When feedback for a scheduled row may be learned from.\<close>

definition learnable :: "runner_output \<Rightarrow> (string, request) odict \<Rightarrow> string \<times> chosen \<Rightarrow> nat \<Rightarrow> bool" where
  "learnable ro requests = (\<lambda>(rid, row) oid. oid = ch_oid row \<and> ch_eligible row \<and> ch_scheduled_k row = ch_cap row
     \<and> (case (map_of requests rid, map_of (ro_index ro) rid) of
          (Some r, Some i) \<Rightarrow> rq_oid r = oid \<and> \<not> rq_finished r \<and> rq_discard r = 0 \<and> i < length (ro_tokens ro) \<and> \<not> terminal r (ro_tokens ro ! i)
        | _ \<Rightarrow> False))"

definition row_effect :: "runner_output \<Rightarrow> (string, request) odict \<Rightarrow> string \<times> chosen \<Rightarrow> policy \<Rightarrow> policy res \<Rightarrow> bool" where
  "row_effect ro requests row p res = (case res of
     Inl e \<Rightarrow> e = IndexError
   | Inr p' \<Rightarrow> policy_ok p' \<and> po_pending p' = po_pending p
       \<and> (\<forall>oid. learned p' oid = learned p oid \<or> learned p' oid = learned p oid + 1 \<and> learnable ro requests row oid))"

lemma record_row_step:
  assumes "policy_ok p" and s: "map_of (po_states p) (rq_oid r) = Some s"
    and k: "tokens \<noteq> []" "1 \<le> ch_scheduled_k row" "ch_scheduled_k row \<le> 7" "length tokens \<le> ch_scheduled_k row + 1"
  obtains p' where "record_row hash ro rid row r s tokens p = ok p'" "policy_ok p'" "po_pending p' = po_pending p"
    "\<And>oid. learned p' oid = learned p oid
       + (if oid = rq_oid r \<and> ch_eligible row \<and> \<not> terminal r tokens \<and> ch_scheduled_k row = ch_cap row then 1 else 0)"
proof -
  define valid where "valid = (ch_eligible row \<and> \<not> terminal r tokens \<and> ch_scheduled_k row = ch_cap row)"
  have st: "rstate_ok s" using policy_okD(2) [OF assms(1)] map_of_SomeD [OF s] by force
  obtain st' where obs: "(if valid then observe (int (ch_scheduled_k row)) (int (length tokens - 1)) (rs_stats s) else ok (rs_stats s)) = ok st'"
  proof -
    have "int (length tokens - 1) \<le> int (ch_scheduled_k row)" using k by simp
    then show thesis using k that by (cases valid) (auto simp: observe_def)
  qed
  have st': "stats_ok st'" "ps_observations st' = ps_observations (rs_stats s) + (if valid then 1 else 0)"
    using obs st observe_keeps [of "int (ch_scheduled_k row)" "int (length tokens - 1)" "rs_stats s" st'] by (auto simp: rstate_ok_def split: if_splits)
  obtain sk where run: "record_row hash ro rid row r s tokens p
      = ok (p\<lparr>po_states := AList.update (rq_oid r) (s\<lparr>rs_stats := st'\<rparr>) (po_states p), po_sink := sk\<rparr>)" (is "_ = ok ?p'")
    unfolding record_row_def Let_def valid_def [symmetric] obs by simp
  have "rstate_ok (s\<lparr>rs_stats := st'\<rparr>)" using st st'(1) by (simp add: rstate_ok_def)
  then have "\<forall>y \<in> snd ` set (po_states ?p'). rstate_ok y" using ball_update [OF policy_okD(2) [OF assms(1)]] by simp
  moreover have "tables_ok ?p'" using policy_okD(1) [OF assms(1)] by (simp add: tables_ok_def)
  ultimately have "policy_ok ?p'" using policy_okD [OF assms(1)] by (simp add: policy_ok_def)
  moreover have "learned ?p' oid = learned p oid + (if oid = rq_oid r \<and> valid then 1 else 0)" for oid
    using s st'(2) by (simp add: learned_def map_of_update)
  ultimately show thesis using that [OF run] unfolding valid_def by simp
qed

lemma complete_row_step:
  assumes "policy_ok p"
  shows "row_effect ro requests (rid, row) p (complete_row hash ro requests (rid, row) p)"
proof (cases "complete_row hash ro requests (rid, row) p = ok p \<or> complete_row hash ro requests (rid, row) p = err IndexError")
  case True
  then show ?thesis using assms by (auto simp: row_effect_def)
next
  case False
  obtain r where r: "map_of requests rid = Some r" "rq_oid r = ch_oid row" "\<not> rq_finished r"
    using False by (auto simp: complete_row_def split: option.splits if_splits)
  obtain s where s: "map_of (po_states p) (rq_oid r) = Some s" using False r by (auto simp: complete_row_def split: option.splits if_splits)
  have d: "rq_discard r = 0" using False r s by (auto simp: complete_row_def split: if_splits)
  obtain i where i: "map_of (ro_index ro) rid = Some i" "ro_tokens ro \<noteq> []" "i < length (ro_tokens ro)"
    using False r s d by (auto simp: complete_row_def split: option.splits if_splits)
  define tokens where "tokens = ro_tokens ro ! i"
  have k: "tokens \<noteq> []" "1 \<le> ch_scheduled_k row" "ch_scheduled_k row \<le> 7" "length tokens \<le> ch_scheduled_k row + 1"
    using False r s d i by (auto simp: complete_row_def Let_def tokens_def split: if_splits)
  have run: "complete_row hash ro requests (rid, row) p = record_row hash ro rid row r s tokens p"
    using r s d i k by (simp add: complete_row_def Let_def tokens_def)
  obtain p' where p': "record_row hash ro rid row r s tokens p = ok p'" "policy_ok p'" "po_pending p' = po_pending p"
    "\<And>oid. learned p' oid = learned p oid
       + (if oid = rq_oid r \<and> ch_eligible row \<and> \<not> terminal r tokens \<and> ch_scheduled_k row = ch_cap row then 1 else 0)"
    using record_row_step [OF assms s k] by blast
  have "learned p' oid = learned p oid \<or> learned p' oid = learned p oid + 1 \<and> learnable ro requests (rid, row) oid" for oid
    using p'(4) [of oid] r i d by (auto simp: tokens_def learnable_def)
  then show ?thesis using p'(1-3) by (simp add: row_effect_def run)
qed

section \<open>Feedback for a whole step\<close>

definition pending_rows :: "policy \<Rightarrow> sched_output \<Rightarrow> (string, chosen) odict" where
  "pending_rows p out = (case map_of (po_pending p) (so_oid out) of None \<Rightarrow> [] | Some rs \<Rightarrow> rs)"

definition learns :: "runner_output \<Rightarrow> (string, request) odict \<Rightarrow> (string, chosen) odict \<Rightarrow> nat \<Rightarrow> nat" where
  "learns ro requests rows oid = (if ro_invalid_blocks ro then 0 else length (filter (\<lambda>row. learnable ro requests row oid) rows))"

definition step_effect :: "(nat \<Rightarrow> nat) \<Rightarrow> policy \<Rightarrow> policy res \<Rightarrow> bool" where
  "step_effect most p res = (case res of
     Inl e \<Rightarrow> e = IndexError
   | Inr p' \<Rightarrow> policy_ok p' \<and> (\<forall>oid. learned p oid \<le> learned p' oid \<and> learned p' oid \<le> learned p oid + most oid))"

lemma complete_rows:
  "policy_ok p \<Longrightarrow> step_effect (\<lambda>oid. length (filter (\<lambda>row. learnable ro requests row oid) rows)) p (fold_res (complete_row hash ro requests) rows p)"
proof (induction rows arbitrary: p)
  case Nil
  then show ?case by (simp add: step_effect_def)
next
  case (Cons row rows)
  obtain rid c where row: "row = (rid, c)" by (cases row)
  show ?case
  proof (cases "complete_row hash ro requests row p")
    case (Inl e)
    then show ?thesis using complete_row_step [OF Cons.prems, of ro requests rid c hash] by (simp add: row row_effect_def step_effect_def)
  next
    case (Inr p1)
    have p1: "policy_ok p1" "learned p1 oid = learned p oid \<or> learned p1 oid = learned p oid + 1 \<and> learnable ro requests row oid" for oid
      using complete_row_step [OF Cons.prems, of ro requests rid c hash] Inr by (simp_all add: row row_effect_def)
    have low: "learned p oid \<le> learned p1 oid" and high: "learned p1 oid \<le> learned p oid + (if learnable ro requests row oid then 1 else 0)" for oid
      using p1(2) [of oid] by auto
    show ?thesis
    proof (cases "fold_res (complete_row hash ro requests) rows p1")
      case (Inl e)
      then show ?thesis using Cons.IH [OF p1(1)] Inr by (simp add: step_effect_def)
    next
      case (Inr p2)
      have "learned p oid \<le> learned p2 oid \<and> learned p2 oid \<le> learned p oid + length (filter (\<lambda>row. learnable ro requests row oid) (row # rows))" for oid
      proof -
        have "learned p1 oid \<le> learned p2 oid \<and> learned p2 oid \<le> learned p1 oid + length (filter (\<lambda>row. learnable ro requests row oid) rows)"
          using Cons.IH [OF p1(1)] Inr by (simp add: step_effect_def)
        then show ?thesis using low [of oid] high [of oid] by (auto split: if_splits)
      qed
      then show ?thesis using Cons.IH [OF p1(1)] Inr \<open>complete_row hash ro requests row p = ok p1\<close> by (simp add: step_effect_def)
    qed
  qed
qed

lemma delete_pending_ok:
  assumes "policy_ok p"
  shows "policy_ok (p\<lparr>po_pending := AList.delete oid (po_pending p)\<rparr>)"
proof -
  have "set (AList.delete oid (po_pending p)) \<subseteq> set (po_pending p)" by (auto simp: AList.delete_eq)
  moreover have "length (AList.delete oid (po_pending p)) \<le> length (po_pending p)" by (simp add: AList.delete_eq)
  moreover have "tables_ok (p\<lparr>po_pending := AList.delete oid (po_pending p)\<rparr>)" using policy_okD(1) [OF assms] by (simp add: tables_ok_def)
  ultimately show ?thesis using policy_okD(2-5) [OF assms] unfolding policy_ok_def by auto
qed

lemma complete_step:
  assumes "policy_ok p"
  shows "step_effect (learns ro requests (pending_rows p out)) p (complete hash out ro requests p)"
proof -
  let ?p1 = "p\<lparr>po_pending := AList.delete (so_oid out) (po_pending p)\<rparr>"
  have p1: "policy_ok ?p1" by (rule delete_pending_ok [OF assms])
  have same: "learned ?p1 = learned p" by (simp add: learned_def fun_eq_iff)
  show ?thesis
  proof (cases "ro_invalid_blocks ro")
    case True
    then show ?thesis using p1 same by (simp add: complete_def step_effect_def learns_def)
  next
    case False
    then have "complete hash out ro requests p = fold_res (complete_row hash ro requests) (pending_rows p out) ?p1"
      by (simp add: complete_def pending_rows_def Let_def)
    then show ?thesis using complete_rows [OF p1, of ro requests "pending_rows p out" hash] False
      by (auto simp: step_effect_def learns_def same split: sum.splits)
  qed
qed

section \<open>Runs of a policy\<close>

lemma costs_ok_map:
  assumes "set (map fst raw) = set (map int CAPS)" and "list_all (\<lambda>(_, q). 0 < q) raw"
  shows "costs_ok (map (\<lambda>k. (k, the (map_of raw (int k)))) CAPS)"
proof -
  have pos: "0 < the (map_of raw (int k))" if k: "k \<in> set CAPS" for k
  proof -
    have "int k \<in> fst ` set raw" using assms(1) k by (metis image_eqI set_map)
    then obtain q where "map_of raw (int k) = Some q" by (metis map_of_eq_None_iff not_None_eq)
    then show ?thesis using assms(2) by (auto simp: list_all_iff dest: map_of_SomeD)
  qed
  show ?thesis using pos [of 1] pos [of 3] pos [of 5] pos [of 7] by (simp add: costs_ok_def CAPS_def cost_def)
qed

lemma load_costs_ok:
  assumes "policy_ok p" and "load_costs pa c data p = ok p'"
  shows "policy_ok p'"
proof -
  obtain curve first raw where curve: "boot_curve pa c data = ok curve" and run: "cost_fields c data first curve raw p = ok p'"
  proof -
    obtain curve where cv: "boot_curve pa c data = ok curve"
      using assms(2) by (cases "boot_curve pa c data") (auto simp: load_costs_def split: option.splits if_splits)
    define first where "first = (if curve = None then None else first_point data)"
    obtain t kvs where kvs: "field data first ''cycle_ms'' = Some (PMap t kvs)"
      using assms(2) cv unfolding load_costs_def Let_def first_def by (auto split: option.splits if_splits pyval.splits)
    have "rbind (init_costs pa kvs []) (\<lambda>raw. cost_fields c data first curve raw p) = ok p'"
      using assms(2) cv kvs unfolding load_costs_def Let_def first_def by (auto split: option.splits if_splits)
    then show thesis using that [OF cv] by (auto simp: rbind_ok_iff)
  qed
  obtain b v where p': "p' = p\<lparr>po_curve := curve, po_cost_context := b, po_prior := validated_prior v, po_costs := map (\<lambda>k. (k, the (map_of raw (int k)))) CAPS\<rparr>"
      and raw: "set (map fst raw) = set (map int CAPS)" "list_all (\<lambda>(_, q). 0 < q) raw"
    using run by (auto simp: cost_fields_def Let_def split: option.splits if_splits)
  have "case curve of None \<Rightarrow> True | Some cv \<Rightarrow> curve_ok cv"
    using curve curve_parse_ok by (auto simp: boot_curve_def rbind_ok_iff split: option.splits if_splits)
  then have "tables_ok p'" using policy_okD(1) [OF assms(1)] costs_ok_map [OF raw] validated_prior_ok [of v] by (simp add: p' tables_ok_def costs_fit_def)
  then show ?thesis using assms(1) by (simp add: p' policy_ok_def)
qed

lemma load_hints_ok: "policy_ok p \<Longrightarrow> load_hints pa c raw p = ok p' \<Longrightarrow> policy_ok p'"
  using hints_parse_ok by (fastforce simp: load_hints_def policy_ok_def tables_ok_def rbind_ok_iff split: if_splits)

lemma new_policy_ok: "fixed \<in> set (map int CAPS) \<Longrightarrow> policy_ok (new_policy pa env c mode fixed)"
  by (auto simp: new_policy_def policy_ok_def tables_ok_def rows_ok_def costs_fit_def prior_ok_def)

lemma policy_init_ok:
  assumes "policy_init pa env c = ok p"
  shows "policy_ok p"
proof -
  obtain mode fixed where m: "policy_mode (ev_mode env) = ok mode" "ev_fixed env = ok fixed" "fixed \<in> set (map int CAPS)"
    using assms by (auto simp: policy_init_def rbind_ok_iff split: if_splits)
  note p0 = new_policy_ok [OF m(3), of pa env c mode]
  show ?thesis
  proof (cases "mode = Off")
    case True
    then show ?thesis using assms m p0 by (simp add: policy_init_def)
  next
    case False
    obtain p1 p2 where p1: "(case ev_costs env of None \<Rightarrow> ok (new_policy pa env c mode fixed)
          | Some d \<Rightarrow> rbind d (\<lambda>data. load_costs pa c data (new_policy pa env c mode fixed))) = ok p1"
        and p2: "(case ev_hints env of None \<Rightarrow> ok p1 | Some d \<Rightarrow> rbind d (\<lambda>raw. load_hints pa c raw p1)) = ok p2" and p: "p = open_trace env p2"
      using assms m False by (simp add: policy_init_def rbind_ok_iff split: if_splits) blast
    have "policy_ok p1" using p1 p0 load_costs_ok by (auto simp: rbind_ok_iff split: option.splits)
    then have "policy_ok p2" using p2 load_hints_ok by (auto simp: rbind_ok_iff split: option.splits)
    then show ?thesis by (simp add: p open_trace_def policy_ok_def tables_ok_def)
  qed
qed

text \<open>
  A run: construction, then steps in any order; \<open>collected\<close> is the death of a request, whose entry leaves
  the weak dictionary of states.
\<close>

inductive policy_run :: "parsers \<Rightarrow> policy \<Rightarrow> bool" for pa where
  started: "policy_init pa env c = ok p \<Longrightarrow> policy_run pa p"
| begun: "policy_run pa p \<Longrightarrow> policy_run pa (begin_step p)"
| selected: "policy_run pa p \<Longrightarrow> select pa label r c1 step p = (p', cap) \<Longrightarrow> policy_run pa p'"
| scheduled: "policy_run pa p \<Longrightarrow> scheduled out p = (p', res) \<Longrightarrow> policy_run pa p'"
| completed: "policy_run pa p \<Longrightarrow> complete hash out ro requests p = ok p' \<Longrightarrow> policy_run pa p'"
| collected: "policy_run pa p \<Longrightarrow> policy_run pa (p\<lparr>po_states := AList.delete oid (po_states p)\<rparr>)"

lemma policy_run_ok: "policy_run pa p \<Longrightarrow> policy_ok p"
proof (induction rule: policy_run.induct)
  case (begun p)
  then show ?case by (simp add: begin_step_def policy_ok_def tables_ok_def rows_ok_def)
next
  case (completed p hash out ro requests p')
  then show ?case using complete_step [OF completed.IH, of ro requests out hash] by (simp add: step_effect_def)
next
  case (collected p oid)
  have "set (AList.delete oid (po_states p)) \<subseteq> set (po_states p)" by (auto simp: AList.delete_eq)
  moreover have "tables_ok (p\<lparr>po_states := AList.delete oid (po_states p)\<rparr>)" using policy_okD(1) [OF collected.IH] by (simp add: tables_ok_def)
  ultimately show ?case using policy_okD(2-5) [OF collected.IH] unfolding policy_ok_def by auto
qed (use policy_init_ok select_step scheduled_ok in blast)+

text \<open>The trace queue never holds more than 4096 rows, and no row disappears unnoticed: it is queued, or counted as dropped.\<close>

lemma emit_bounded: "length (sk_queue s) \<le> 4096 \<Longrightarrow> length (sk_queue (emit row s)) \<le> 4096"
  by (simp add: emit_def)

lemma emit_counted: "length (sk_queue (emit row s)) + sk_dropped (emit row s) = length (sk_queue s) + sk_dropped s + 1"
  by (simp add: emit_def)

lemma write_turn_order: "\<not> fails \<Longrightarrow> \<not> sk_stop s \<Longrightarrow> sk_written (write_turn fails s) @ sk_queue (write_turn fails s) = sk_written s @ sk_queue s"
  by (simp add: write_turn_def split: list.splits)

text \<open>A concrete run: one eligible request in adaptive mode without a cost table, scheduled with seven draft tokens.\<close>

definition demo_parsers :: parsers where
  "demo_parsers = \<lparr>pa_int = (\<lambda>_. None), pa_float = (\<lambda>_. None), pa_json = (\<lambda>_. err ValueError), pa_dec = (\<lambda>_. ''4'')\<rparr>"

definition demo_config :: policy_config where
  "demo_config = \<lparr>pc_tp = 4, pc_dcp = 4, pc_max_len = 4, pc_v2 = True, pc_spec_tokens = 7, pc_method = ''dflash'', pc_rejection = ''standard'',
     pc_pipeline = 1, pc_data = 1, pc_async = True\<rparr>"

definition demo_env :: policy_env where
  "demo_env = \<lparr>ev_mode = Some ''adaptive'', ev_fixed = ok 7, ev_costs = None, ev_hints = None, ev_trace = False, ev_confidence = False, ev_lossy = False\<rparr>"

definition demo_request :: request where
  "demo_request = \<lparr>rq_oid = 1, rq_id = ''a'', rq_sampling = Some \<lparr>sm_temperature = 0, sm_presence = 0, sm_frequency = 0, sm_repetition = 1, sm_allowed = False,
      sm_bad_words = False, sm_logit_bias = False, sm_extra = [], sm_ignore_eos = False, sm_stop_ids = [], sm_all_stop_ids = [], sm_stop = False\<rparr>,
     rq_prefill_chunk = False, rq_structured = False, rq_resumable = False, rq_lora = False, rq_mm = False, rq_discard = 0, rq_num_tokens = 2,
     rq_placeholders = 0, rq_output_tokens = 0, rq_max_tokens = 100, rq_eos = Some 9, rq_finished = False\<rparr>"

definition demo_output :: sched_output where
  "demo_output = \<lparr>so_oid = 5, so_spec_tokens = [(''a'', [1, 2, 3, 4, 5, 6, 7])], so_num_tokens = (\<lambda>_. 8)\<rparr>"

definition demo_feedback :: runner_output where
  "demo_feedback = \<lparr>ro_invalid_blocks = False, ro_index = [(''a'', 0)], ro_tokens = [[1, 2, 8]], ro_confidence = [], ro_relaxed = []\<rparr>"

definition demo_selected :: policy where
  "demo_selected = fst (select demo_parsers (\<lambda>_. []) demo_request True 0 (new_policy demo_parsers demo_env demo_config Adaptive 7))"

definition demo_scheduled :: policy where
  "demo_scheduled = fst (scheduled demo_output demo_selected)"

lemma demo_init: "policy_init demo_parsers demo_env demo_config = ok (new_policy demo_parsers demo_env demo_config Adaptive 7)"
  by (simp add: policy_init_def policy_mode_def demo_env_def demo_config_def supported_def CAPS_def new_policy_def open_trace_def)

lemma demo_run: "policy_run demo_parsers demo_scheduled"
proof -
  have "policy_run demo_parsers (new_policy demo_parsers demo_env demo_config Adaptive 7)" by (rule policy_run.started [OF demo_init])
  then have "policy_run demo_parsers demo_selected" unfolding demo_selected_def by (rule policy_run.selected) (rule prod.collapse [symmetric])
  then show ?thesis unfolding demo_scheduled_def by (rule policy_run.scheduled) (rule prod.collapse [symmetric])
qed

section \<open>The property\<close>

text \<open>
  C32: in every run of the verification policy, whatever the requests, schedules, feedback and request deaths:
  every request's acceptance statistics are well formed, at most 64 steps wait for feedback, the
  cap chosen is one of 1, 3, 5, 7, and it is 7 for a request that is not eligible or whose mode is off
  or shadow; feedback for a step raises nothing but an index error, never lowers a request's number of observations,
  and raises it by at most the number of that step's rows that were eligible, not terminal, still
  belong to the live request and ran with exactly the cap that was chosen (by nothing when KV blocks were invalid).
\<close>

theorem policy_runs_safe:
  assumes "policy_run pa p"
  shows "list_all (\<lambda>(_, s). stats_ok (rs_stats s)) (po_states p) \<and> length (po_pending p) \<le> 64
    \<and> snd (select pa label r c1 step p) \<in> set CAPS
    \<and> (\<not> eligible r c1 \<or> request_mode p (extra_args r) \<in> {Off, Shadow} \<longrightarrow> snd (select pa label r c1 step p) = 7)
    \<and> (case complete hash out ro requests p of Inl e \<Rightarrow> e = IndexError
       | Inr p' \<Rightarrow> \<forall>oid. learned p oid \<le> learned p' oid \<and> learned p' oid \<le> learned p oid + learns ro requests (pending_rows p out) oid)"
proof (intro conjI)
  note p = policy_run_ok [OF assms]
  note sel = select_step [OF p, of pa label r c1 step "fst (select pa label r c1 step p)" "snd (select pa label r c1 step p)"]
  show "list_all (\<lambda>(_, s). stats_ok (rs_stats s)) (po_states p)" using policy_okD(2) [OF p] by (auto simp: list_all_iff rstate_ok_def)
  show "length (po_pending p) \<le> 64" by (rule policy_okD(4) [OF p])
  show "snd (select pa label r c1 step p) \<in> set CAPS" using sel by simp
  show "\<not> eligible r c1 \<or> request_mode p (extra_args r) \<in> {Off, Shadow} \<longrightarrow> snd (select pa label r c1 step p) = 7" using sel by auto
  show "case complete hash out ro requests p of Inl e \<Rightarrow> e = IndexError
      | Inr p' \<Rightarrow> \<forall>oid. learned p oid \<le> learned p' oid \<and> learned p' oid \<le> learned p oid + learns ro requests (pending_rows p out) oid"
    using complete_step [OF p, of ro requests out hash] by (auto simp: step_effect_def split: sum.splits)
qed

lemma policy_runs_safe_witness:
  "policy_run demo_parsers demo_scheduled \<and> length (po_pending demo_scheduled) = 1 \<and> length (po_pending demo_scheduled) \<le> 64
   \<and> snd (select demo_parsers (\<lambda>_. []) demo_request False 1 demo_scheduled) = 7
   \<and> learns demo_feedback [(''a'', demo_request)] (pending_rows demo_scheduled demo_output) 1 = 1"
proof -
  have "length (po_pending demo_scheduled) = 1" by code_simp
  moreover have "learns demo_feedback [(''a'', demo_request)] (pending_rows demo_scheduled demo_output) 1 = 1" by code_simp
  moreover have "\<not> eligible demo_request False" by (simp add: eligible_def)
  ultimately show ?thesis
    using demo_run policy_runs_safe [OF demo_run, of "\<lambda>_. []" demo_request False 1] by blast
qed

end
