(* ===== verification/Kv_Queue.thy ===== *)
theory Kv_Queue
  imports Prelude
begin

text \<open>
  The free list of the KV cache (\<^verbatim>\<open>vllm/v1/core/kv_cache_utils.py\<close>: \<^verbatim>\<open>KVCacheBlock\<close>, \<^verbatim>\<open>FreeKVCacheBlockQueue\<close>). The two link
  attributes of the blocks are two maps from nodes to nodes (one map per field, so that a write to
  one field leaves the other alone); the nodes are the two sentinels and the blocks by identity.
  Theorem: every sequence of operations behaves as the same sequence on a plain list, results and
  exceptions included.
\<close>

section \<open>Blocks\<close>

record kv_block =
  kb_id :: int
  kb_ref :: int
  kb_hash :: "nat list option"
  kb_hash_tokens :: "int option"
  kb_null :: bool

definition new_block :: "int \<Rightarrow> kv_block" where
  "new_block i = \<lparr>kb_id = i, kb_ref = 0, kb_hash = None, kb_hash_tokens = None, kb_null = False\<rparr>"

definition set_block_hash :: "nat list \<Rightarrow> int option \<Rightarrow> kv_block \<Rightarrow> kv_block res" where
  "set_block_hash h n b =
     (if kb_hash b = None \<and> kb_hash_tokens b = None then ok (b\<lparr>kb_hash := Some h, kb_hash_tokens := n\<rparr>) else err AssertionError)"

definition reset_hash :: "kv_block \<Rightarrow> kv_block" where
  "reset_hash b = b\<lparr>kb_hash := None, kb_hash_tokens := None\<rparr>"

text \<open>A hash is set once between resets.\<close>

lemma hash_set_once:
  "set_block_hash h n b = ok b' \<Longrightarrow> kb_hash b' = Some h \<and> kb_hash_tokens b' = n \<and> set_block_hash h' n' b' = err AssertionError
     \<and> is_ok (set_block_hash h' n' (reset_hash b'))"
  by (auto simp: set_block_hash_def reset_hash_def split: if_splits)

section \<open>The queue\<close>

datatype node = Head | Tail | Blk nat

record free_queue =
  fq_next :: "node \<Rightarrow> node option"
  fq_prev :: "node \<Rightarrow> node option"
  fq_num :: int

definition set_next :: "node \<Rightarrow> node option \<Rightarrow> free_queue \<Rightarrow> free_queue" where
  "set_next a b q = q\<lparr>fq_next := (fq_next q)(a := b)\<rparr>"

definition set_prev :: "node \<Rightarrow> node option \<Rightarrow> free_queue \<Rightarrow> free_queue" where
  "set_prev a b q = q\<lparr>fq_prev := (fq_prev q)(a := b)\<rparr>"

definition clear_links :: "node \<Rightarrow> free_queue \<Rightarrow> free_queue" where
  "clear_links a q = set_next a None (set_prev a None q)"

text \<open>Construction over blocks whose links are not set yet: neighbours are linked by index, then the sentinels.\<close>

fun init_loop :: "node list \<Rightarrow> nat \<Rightarrow> free_queue \<Rightarrow> free_queue" where
  "init_loop bs 0 q = q"
| "init_loop bs (Suc k) q =
     (let i = length bs - Suc k;
          q1 = (if 0 < i then set_prev (bs ! i) (Some (bs ! (i - 1))) q else q);
          q2 = (if i < length bs - 1 then set_next (bs ! i) (Some (bs ! (i + 1))) q1 else q1)
      in init_loop bs k q2)"

definition queue_init :: "nat list \<Rightarrow> free_queue" where
  "queue_init blocks =
     (let bs = map Blk blocks;
          q = init_loop bs (length bs) \<lparr>fq_next = (\<lambda>_. None), fq_prev = (\<lambda>_. None), fq_num = int (length bs)\<rparr> in
      if bs \<noteq> []
      then set_next (last bs) (Some Tail) (set_prev Tail (Some (last bs)) (set_prev (hd bs) (Some Head) (set_next Head (Some (hd bs)) q)))
      else set_prev Tail (Some Head) (set_next Head (Some Tail) q))"

definition popleft :: "free_queue \<Rightarrow> free_queue \<times> node res" where
  "popleft q =
     (case fq_next q Head of
        None \<Rightarrow> (q, if fq_num q \<noteq> 0 then err AssertionError else err ValueError)
      | Some first \<Rightarrow>
          if first = Tail then (q, if fq_num q \<noteq> 0 then err AssertionError else err ValueError)
          else case fq_next q first of
            None \<Rightarrow> (q, err RuntimeError)
          | Some second \<Rightarrow>
              let q' = clear_links first (set_prev second (Some Head) (set_next Head (Some second) q))
              in (q'\<lparr>fq_num := fq_num q' - 1\<rparr>, ok first))"

fun pop_loop :: "nat \<Rightarrow> node option \<Rightarrow> node list \<Rightarrow> free_queue \<Rightarrow> free_queue \<times> (node option \<times> node list) res" where
  "pop_loop 0 cur acc q = (q, ok (cur, acc))"
| "pop_loop (Suc n) cur acc q =
     (case cur of None \<Rightarrow> (q, err AssertionError)
      | Some c \<Rightarrow> pop_loop n (fq_next q c) (acc @ [c]) (clear_links c q))"

definition popleft_n :: "int \<Rightarrow> free_queue \<Rightarrow> free_queue \<times> node list res" where
  "popleft_n n q =
     (if n = 0 then (q, ok [])
      else if fq_num q < n then (q, err AssertionError)
      else case pop_loop (nat n) (fq_next q Head) [] (q\<lparr>fq_num := fq_num q - n\<rparr>) of
        (q1, Inl e) \<Rightarrow> (q1, err e)
      | (q1, Inr (None, ret)) \<Rightarrow> (q1, ok ret)
      | (q1, Inr (Some c, ret)) \<Rightarrow> (set_prev c (Some Head) (set_next Head (Some c) q1), ok ret))"

definition remove_block :: "node \<Rightarrow> free_queue \<Rightarrow> free_queue \<times> unit res" where
  "remove_block b q =
     (case (fq_prev q b, fq_next q b) of
        (Some a, Some c) \<Rightarrow>
          let q' = clear_links b (set_prev c (Some a) (set_next a (Some c) q)) in (q'\<lparr>fq_num := fq_num q' - 1\<rparr>, ok ())
      | _ \<Rightarrow> (q, err RuntimeError))"

definition append_block :: "node \<Rightarrow> free_queue \<Rightarrow> free_queue \<times> unit res" where
  "append_block b q =
     (case fq_prev q Tail of
        None \<Rightarrow> (q, err RuntimeError)
      | Some l \<Rightarrow>
          let q' = set_prev Tail (Some b) (set_next b (Some Tail) (set_prev b (Some l) (set_next l (Some b) q)))
          in (q'\<lparr>fq_num := fq_num q' + 1\<rparr>, ok ()))"

fun link_all :: "node \<Rightarrow> node list \<Rightarrow> free_queue \<Rightarrow> node \<times> free_queue" where
  "link_all p [] q = (p, q)"
| "link_all p (b # bs) q = link_all b bs (set_next p (Some b) (set_prev b (Some p) q))"

definition prepend_n :: "node list \<Rightarrow> free_queue \<Rightarrow> free_queue \<times> unit res" where
  "prepend_n bs q =
     (if bs = [] then (q, ok ())
      else case fq_next q Head of
        None \<Rightarrow> (q, err AssertionError)
      | Some first \<Rightarrow>
          let (p, q1) = link_all Head bs q; q2 = set_prev first (Some p) (set_next p (Some first) q1)
          in (q2\<lparr>fq_num := fq_num q2 + int (length bs)\<rparr>, ok ()))"

definition append_n :: "node list \<Rightarrow> free_queue \<Rightarrow> free_queue \<times> unit res" where
  "append_n bs q =
     (if bs = [] then (q, ok ())
      else case fq_prev q Tail of
        None \<Rightarrow> (q, err AssertionError)
      | Some l \<Rightarrow>
          let (p, q1) = link_all l bs q; q2 = set_prev Tail (Some p) (set_next p (Some Tail) q1)
          in (q2\<lparr>fq_num := fq_num q2 + int (length bs)\<rparr>, ok ()))"

text \<open>The two traversals are loops that need not end on broken links, so they are partial.\<close>

partial_function (option) walk_all :: "free_queue \<Rightarrow> node \<Rightarrow> node list \<Rightarrow> node list option" where
  "walk_all q cur acc = (case fq_next q cur of None \<Rightarrow> Some acc | Some n \<Rightarrow> walk_all q n (acc @ [cur]))"

definition get_all_free_blocks :: "free_queue \<Rightarrow> node list res option" where
  "get_all_free_blocks q =
     (case fq_next q Head of None \<Rightarrow> Some (err RuntimeError) | Some first \<Rightarrow> map_option ok (walk_all q first []))"

partial_function (option) walk_after :: "free_queue \<Rightarrow> node option \<Rightarrow> node list \<Rightarrow> node list option" where
  "walk_after q cur acc =
     (case cur of None \<Rightarrow> Some acc | Some c \<Rightarrow> if c = Tail then Some acc else walk_after q (fq_next q c) (acc @ [c]))"

definition iter_blocks_after :: "node option \<Rightarrow> free_queue \<Rightarrow> node list option" where
  "iter_blocks_after cursor q = walk_after q (case cursor of None \<Rightarrow> fq_next q Head | Some c \<Rightarrow> fq_next q c) []"

declare walk_all.simps [code] walk_after.simps [code]

section \<open>Links\<close>

lemma links_simps [simp]:
  "fq_next (set_next a b q) = (fq_next q)(a := b)" "fq_prev (set_next a b q) = fq_prev q" "fq_num (set_next a b q) = fq_num q"
  "fq_next (set_prev a b q) = fq_next q" "fq_prev (set_prev a b q) = (fq_prev q)(a := b)" "fq_num (set_prev a b q) = fq_num q"
  "fq_next (clear_links a q) = (fq_next q)(a := None)" "fq_prev (clear_links a q) = (fq_prev q)(a := None)" "fq_num (clear_links a q) = fq_num q"
  by (simp_all add: set_next_def set_prev_def clear_links_def)

text \<open>A chain of nodes linked in both directions.\<close>

fun linked :: "free_queue \<Rightarrow> node list \<Rightarrow> bool" where
  "linked q (a # b # L) = (fq_next q a = Some b \<and> fq_prev q b = Some a \<and> linked q (b # L))"
| "linked q L = True"

lemma linked_cong:
  "linked q L \<Longrightarrow> (\<And>a. a \<in> set (butlast L) \<Longrightarrow> fq_next q' a = fq_next q a) \<Longrightarrow> (\<And>b. b \<in> set (tl L) \<Longrightarrow> fq_prev q' b = fq_prev q b) \<Longrightarrow> linked q' L"
proof (induction q L rule: linked.induct)
  case (1 q a b L)
  have "linked q' (b # L)" using 1 by (cases L) auto
  then show ?case using 1 by simp
qed auto

lemma linked_join: "linked q (xs @ m # ys) = (linked q (xs @ [m]) \<and> linked q (m # ys))"
proof (induction xs)
  case (Cons a xs)
  then show ?case by (cases xs) auto
qed simp

lemma linked_mid: "linked q (xs @ a # b # ys) \<Longrightarrow> fq_next q a = Some b \<and> fq_prev q b = Some a"
  using linked_join [of q xs a "b # ys"] by simp

text \<open>The representation: the chain from the head to the tail runs through exactly the free blocks, in order; other blocks have no links.\<close>

definition chain :: "nat list \<Rightarrow> node list" where
  "chain xs = Head # map Blk xs @ [Tail]"

definition is_queue :: "free_queue \<Rightarrow> nat list \<Rightarrow> bool" where
  "is_queue q xs = (linked q (chain xs) \<and> distinct xs \<and> fq_next q Tail = None \<and> fq_prev q Head = None
     \<and> (\<forall>b. b \<notin> set xs \<longrightarrow> fq_next q (Blk b) = None \<and> fq_prev q (Blk b) = None) \<and> fq_num q = int (length xs))"

lemma distinct_chain: "distinct xs \<Longrightarrow> distinct (chain xs)"
  by (auto simp: chain_def distinct_map inj_on_def)


text \<open>Around a node of a chain: its neighbours.\<close>

lemma chain_split: "chain (xs @ b # ys) = (Head # map Blk xs) @ Blk b # map Blk ys @ [Tail]"
  by (simp add: chain_def)

lemma chain_around:
  obtains A a c C where "chain (xs @ b # ys) = A @ a # Blk b # c # C" "chain (xs @ ys) = A @ a # c # C"
proof -
  have "\<exists>A a. Head # map Blk xs = A @ [a]" by (metis list.simps(3) rev_exhaust)
  then obtain A a where A: "Head # map Blk xs = A @ [a]" by blast
  have "\<exists>c C. map Blk ys @ [Tail] = c # C" by (cases "map Blk ys @ [Tail]") auto
  then obtain c C where C: "map Blk ys @ [Tail] = c # C" by blast
  have "chain (xs @ b # ys) = A @ a # Blk b # c # C" using A C by (simp add: chain_def)
  moreover have "chain (xs @ ys) = A @ a # c # C" using A C by (simp add: chain_def)
  ultimately show thesis by (rule that)
qed

text \<open>Taking a node out of a linked chain.\<close>

lemma unlink:
  assumes "linked q (A @ a # b # c # C)" and "distinct (A @ a # b # c # C)"
  shows "linked (clear_links b (set_prev c (Some a) (set_next a (Some c) q))) (A @ a # c # C)" (is "linked ?q _")
proof -
  have l: "linked q (A @ [a])" "linked q (c # C)" using assms(1) linked_join [of q A a "b # c # C"] by simp_all
  have "linked ?q (A @ [a])" using assms(2) by (intro linked_cong [OF l(1)]) (auto dest: in_set_butlastD list.set_sel(2) [rotated])
  moreover have "linked ?q (c # C)" using assms(2) by (intro linked_cong [OF l(2)]) (auto dest: in_set_butlastD split: if_splits)
  moreover have "linked ?q [a, c]" using assms(2) by auto
  ultimately show ?thesis using linked_join [of ?q A a "c # C"] by simp
qed

lemma remove_is_queue:
  assumes "is_queue q (xs @ b # ys)"
  obtains q' where "remove_block (Blk b) q = (q', ok ())" "is_queue q' (xs @ ys)"
proof -
  obtain A a c C where ch: "chain (xs @ b # ys) = A @ a # Blk b # c # C" "chain (xs @ ys) = A @ a # c # C" by (rule chain_around)
  have l: "linked q (A @ a # Blk b # c # C)" and d: "distinct (A @ a # Blk b # c # C)"
    using assms distinct_chain [of "xs @ b # ys"] by (simp_all add: is_queue_def ch(1))
  have n: "fq_prev q (Blk b) = Some a" "fq_next q (Blk b) = Some c" "a \<noteq> Tail" "c \<noteq> Head" "a \<noteq> Blk b" "c \<noteq> Blk b"
  proof -
    show "fq_prev q (Blk b) = Some a" using linked_mid [OF l] by simp
    show "fq_next q (Blk b) = Some c" using linked_mid [of q "A @ [a]" "Blk b" c C] l by simp
    show "a \<noteq> Blk b" "c \<noteq> Blk b" using d by auto
    have "last (c # C) = Tail" "hd (A @ [a]) = Head" using arg_cong [OF ch(1), of last] arg_cong [OF ch(1), of hd] by (auto simp: chain_def hd_append)
    then have "Tail \<in> set (c # C)" "Head \<in> set (A @ [a])" by (metis last_in_set list.distinct(1), metis hd_in_set snoc_eq_iff_butlast)
    then show "a \<noteq> Tail" "c \<noteq> Head" using d by auto
  qed
  let ?q = "clear_links (Blk b) (set_prev c (Some a) (set_next a (Some c) q))"
  let ?q' = "?q\<lparr>fq_num := fq_num ?q - 1\<rparr>"
  have run: "remove_block (Blk b) q = (?q', ok ())" using n by (simp add: remove_block_def Let_def)
  have "linked ?q' (chain (xs @ ys))" unfolding ch(2) by (rule linked_cong [OF unlink [OF l d]]) simp_all
  moreover have "fq_next ?q' (Blk k) = None \<and> fq_prev ?q' (Blk k) = None" if k: "k \<notin> set (xs @ ys)" for k
  proof -
    have "Blk k \<notin> set (chain (xs @ ys))" using k by (auto simp: chain_def)
    then have "Blk k \<noteq> a" "Blk k \<noteq> c" unfolding ch(2) by auto
    then show ?thesis using k assms by (auto simp: is_queue_def)
  qed
  ultimately have "is_queue ?q' (xs @ ys)" using assms n by (auto simp: is_queue_def)
  then show thesis using that run by blast
qed

lemma remove_absent: "is_queue q xs \<Longrightarrow> b \<notin> set xs \<Longrightarrow> remove_block (Blk b) q = (q, err RuntimeError)"
  by (simp add: is_queue_def remove_block_def)

text \<open>The head's successor; popping is removing the first block.\<close>

lemma next_head: "is_queue q xs \<Longrightarrow> fq_next q Head = Some (hd (map Blk xs @ [Tail]))"
  by (cases xs) (simp_all add: is_queue_def chain_def)

lemma popleft_empty: "is_queue q [] \<Longrightarrow> popleft q = (q, err ValueError)"
  using next_head [of q "[]"] by (simp add: popleft_def is_queue_def)

lemma popleft_is_queue:
  assumes "is_queue q (x # xs)"
  obtains q' where "popleft q = (q', ok (Blk x))" "is_queue q' xs"
proof -
  have n: "fq_next q Head = Some (Blk x)" "fq_prev q (Blk x) = Some Head" "fq_next q (Blk x) \<noteq> None"
    using assms by (cases xs; simp add: is_queue_def chain_def)+
  then obtain m where m: "fq_next q (Blk x) = Some m" by blast
  from n m have "popleft q = (fst (remove_block (Blk x) q), ok (Blk x))" by (simp add: popleft_def remove_block_def Let_def)
  moreover obtain q' where "remove_block (Blk x) q = (q', ok ())" "is_queue q' xs"
    using remove_is_queue [of q "[]" x xs] assms by (metis append_Nil)
  ultimately show thesis using that by simp
qed

text \<open>Linking a run of fresh nodes behind a node.\<close>

lemma link_all_run:
  "link_all p bs q = (p', q') \<Longrightarrow> linked q (A @ [p]) \<Longrightarrow> distinct (A @ p # bs)
   \<Longrightarrow> p' = last (p # bs) \<and> linked q' (A @ p # bs) \<and> fq_num q' = fq_num q
     \<and> (\<forall>a. a \<notin> set (butlast (p # bs)) \<longrightarrow> fq_next q' a = fq_next q a) \<and> (\<forall>b. b \<notin> set bs \<longrightarrow> fq_prev q' b = fq_prev q b)"
proof (induction bs arbitrary: p q A)
  case (Cons b bs)
  let ?q = "set_next p (Some b) (set_prev b (Some p) q)"
  have "linked ?q (A @ [p])" using Cons.prems(3) by (intro linked_cong [OF Cons.prems(2)]) (auto dest: in_set_butlastD list.set_sel(2) [rotated])
  moreover have "linked ?q [p, b]" using Cons.prems(3) by auto
  ultimately have "linked ?q ((A @ [p]) @ [b])" using linked_join [of ?q A p "[b]"] by simp
  then show ?case using Cons.IH [of b ?q "A @ [p]"] Cons.prems by (auto split: if_splits)
qed simp

lemma splice:
  assumes l: "linked q (A @ a # c # C)" and d: "distinct (A @ a # bs @ c # C)" and run: "link_all a bs q = (p, q1)"
  shows "linked (set_prev c (Some p) (set_next p (Some c) q1)) (A @ a # bs @ c # C)" (is "linked ?q _")
proof -
  have l2: "linked q (A @ [a])" "linked q (c # C)" using l linked_join [of q A a "c # C"] by simp_all
  have dA: "distinct (A @ a # bs)" using d by auto
  note r = link_all_run [OF run l2(1) dA]
  have r1: "linked q1 (A @ a # bs)" "p = last (a # bs)" "\<And>x. x \<notin> set (butlast (a # bs)) \<Longrightarrow> fq_next q1 x = fq_next q x"
      "\<And>x. x \<notin> set bs \<Longrightarrow> fq_prev q1 x = fq_prev q x" using r by blast+
  obtain B where B: "a # bs = B @ [p]" using r1(2) by (metis append_butlast_last_id list.distinct(1))
  have d': "distinct (A @ B @ p # c # C)" using d B by (metis append.assoc append_Cons append_Nil)
  have "linked ?q ((A @ B) @ [p])"
  proof (rule linked_cong)
    show "linked q1 ((A @ B) @ [p])" using r1(1) B by simp
    show "fq_next ?q x = fq_next q1 x" if "x \<in> set (butlast ((A @ B) @ [p]))" for x
      using that d' by (simp only: butlast_snoc) auto
    show "fq_prev ?q x = fq_prev q1 x" if "x \<in> set (tl ((A @ B) @ [p]))" for x
    proof -
      have "x \<in> set ((A @ B) @ [p])" using that by (metis list.set_sel(2) snoc_eq_iff_butlast)
      then show ?thesis using d' by auto
    qed
  qed
  moreover have "linked ?q (c # C)"
  proof (rule linked_cong [OF l2(2)])
    show "fq_next ?q x = fq_next q x" if "x \<in> set (butlast (c # C))" for x
    proof -
      have x: "x \<in> set (c # C)" using that by (rule in_set_butlastD)
      then have "x \<notin> set (butlast (a # bs))" unfolding B using d' by auto
      then show ?thesis using r1(3) [of x] x d' by auto
    qed
    show "fq_prev ?q x = fq_prev q x" if "x \<in> set (tl (c # C))" for x
      using that d r1(4) [of x] by auto
  qed
  moreover have "linked ?q [p, c]" using d' by auto
  ultimately have "linked ?q ((A @ B) @ p # c # C)" using linked_join [of ?q "A @ B" p "c # C"] by simp
  then show ?thesis using B by (metis append.assoc append_Cons append_Nil)
qed

lemma insert_is_queue:
  assumes q: "is_queue q (xs @ ys)" and d: "distinct bs" "set bs \<inter> set (xs @ ys) = {}"
    and a: "a = last (Head # map Blk xs)" and c: "c = hd (map Blk ys @ [Tail])" and run: "link_all a (map Blk bs) q = (p, q1)"
  shows "is_queue ((set_prev c (Some p) (set_next p (Some c) q1))\<lparr>fq_num := fq_num q1 + int (length bs)\<rparr>) (xs @ bs @ ys)" (is "is_queue ?q _")
proof -
  obtain A where A: "Head # map Blk xs = A @ [a]" using a by (metis append_butlast_last_id list.distinct(1))
  obtain C where C: "map Blk ys @ [Tail] = c # C" using c by (cases "map Blk ys @ [Tail]") auto
  have ch: "chain (xs @ ys) = A @ a # c # C" "chain (xs @ bs @ ys) = A @ a # map Blk bs @ c # C"
    using A C by (simp_all add: chain_def)
  have ds: "distinct (A @ a # map Blk bs @ c # C)" using q d distinct_chain [of "xs @ bs @ ys"] unfolding ch(2) by (auto simp: is_queue_def)
  have l: "linked q (A @ a # c # C)" using q by (simp add: is_queue_def ch(1))
  have "linked ?q (chain (xs @ bs @ ys))" unfolding ch(2) by (rule linked_cong [OF splice [OF l ds run]]) simp_all
  moreover have r: "p = last (a # map Blk bs)" "fq_num q1 = fq_num q" "\<And>x. x \<notin> set (butlast (a # map Blk bs)) \<Longrightarrow> fq_next q1 x = fq_next q x"
      "\<And>x. x \<notin> set (map Blk bs) \<Longrightarrow> fq_prev q1 x = fq_prev q x"
  proof -
    have "linked q (A @ [a])" using l linked_join [of q A a "c # C"] by simp
    moreover have "distinct (A @ a # map Blk bs)" using ds by auto
    ultimately show "p = last (a # map Blk bs)" "fq_num q1 = fq_num q" "\<And>x. x \<notin> set (butlast (a # map Blk bs)) \<Longrightarrow> fq_next q1 x = fq_next q x"
      "\<And>x. x \<notin> set (map Blk bs) \<Longrightarrow> fq_prev q1 x = fq_prev q x"
      using link_all_run [OF run] by blast+
  qed
  have nodes: "a \<noteq> Tail" "c \<noteq> Head" "p \<noteq> Tail" "Tail \<notin> set (butlast (a # map Blk bs))"
  proof -
    show "a \<noteq> Tail" "c \<noteq> Head" using a c by (cases xs rule: rev_cases; cases ys; auto)+
    then show "p \<noteq> Tail" using r(1) by (cases bs rule: rev_cases) auto
    show "Tail \<notin> set (butlast (a # map Blk bs))" using \<open>a \<noteq> Tail\<close> by (auto dest!: in_set_butlastD)
  qed
  have "fq_next ?q Tail = None" "fq_prev ?q Head = None" using q r(3) [of Tail] r(4) [of Head] nodes by (auto simp: is_queue_def)
  moreover have "fq_next ?q (Blk k) = None \<and> fq_prev ?q (Blk k) = None" if k: "k \<notin> set (xs @ bs @ ys)" for k
  proof -
    have "Blk k \<notin> set (chain (xs @ bs @ ys))" using k by (auto simp: chain_def)
    then have n: "Blk k \<notin> set (a # map Blk bs)" "Blk k \<noteq> c" unfolding ch(2) by auto
    then have "Blk k \<noteq> p" using r(1) by (metis last_in_set list.distinct(1))
    moreover have "fq_next q1 (Blk k) = fq_next q (Blk k)" using n(1) by (intro r(3)) (metis in_set_butlastD)
    ultimately show ?thesis using n k q r(4) [of "Blk k"] by (auto simp: is_queue_def)
  qed
  ultimately show ?thesis using q d r(2) by (auto simp: is_queue_def)
qed

lemma prev_tail: "is_queue q xs \<Longrightarrow> fq_prev q Tail = Some (last (Head # map Blk xs))"
proof -
  assume q: "is_queue q xs"
  obtain A a where A: "Head # map Blk xs = A @ [a]" by (metis list.distinct(1) rev_exhaust)
  then have "chain xs = A @ a # [Tail]" by (simp add: chain_def)
  then show ?thesis using q linked_mid [of q A a Tail "[]"] A by (simp add: is_queue_def)
qed

lemma append_n_is_queue:
  assumes "is_queue q xs" and "distinct bs" and "set bs \<inter> set xs = {}"
  obtains q' where "append_n (map Blk bs) q = (q', ok ())" "is_queue q' (xs @ bs)"
proof (cases "bs = []")
  case True
  then show thesis using that assms(1) by (simp add: append_n_def)
next
  case False
  define l where "l = last (Head # map Blk xs)"
  obtain p q1 where run: "link_all l (map Blk bs) q = (p, q1)" by fastforce
  have "append_n (map Blk bs) q = ((set_prev Tail (Some p) (set_next p (Some Tail) q1))\<lparr>fq_num := fq_num q1 + int (length bs)\<rparr>, ok ())"
    using False by (simp add: append_n_def prev_tail [OF assms(1), folded l_def] run)
  then show thesis using that insert_is_queue [of q xs "[]" bs l Tail p q1] assms run l_def by simp
qed

lemma prepend_n_is_queue:
  assumes "is_queue q xs" and "distinct bs" and "set bs \<inter> set xs = {}"
  obtains q' where "prepend_n (map Blk bs) q = (q', ok ())" "is_queue q' (bs @ xs)"
proof (cases "bs = []")
  case True
  then show thesis using that assms(1) by (simp add: prepend_n_def)
next
  case False
  obtain p q1 where run: "link_all Head (map Blk bs) q = (p, q1)" by fastforce
  let ?c = "hd (map Blk xs @ [Tail])"
  have "prepend_n (map Blk bs) q = ((set_prev ?c (Some p) (set_next p (Some ?c) q1))\<lparr>fq_num := fq_num q1 + int (length bs)\<rparr>, ok ())"
    using False by (simp add: prepend_n_def next_head [OF assms(1)] run)
  then show thesis using that insert_is_queue [of q "[]" xs bs Head ?c p q1] assms run by simp
qed

lemma append_block_is_append_n: "is_queue q xs \<Longrightarrow> append_block b q = append_n [b] q"
  by (simp add: append_block_def append_n_def prev_tail set_next_def set_prev_def)

text \<open>Popping several blocks pops them one after another.\<close>

lemma pop_loop_acc: "pop_loop n cur acc q = (case pop_loop n cur [] q of (q1, Inl e) \<Rightarrow> (q1, err e) | (q1, Inr (c, ret)) \<Rightarrow> (q1, ok (c, acc @ ret)))"
proof (induction n arbitrary: cur acc q)
  case (Suc n)
  show ?case
  proof (cases cur)
    case (Some c)
    show ?thesis using Suc [of "fq_next q c" "acc @ [c]" "clear_links c q"] Suc [of "fq_next q c" "[c]" "clear_links c q"] Some
      by (auto split: sum.splits prod.splits)
  qed simp
qed simp

lemma pop_loop_run:
  "linked q (map Blk xs @ [Tail]) \<Longrightarrow> distinct xs \<Longrightarrow> n \<le> length xs
   \<Longrightarrow> pop_loop n (Some (hd (map Blk xs @ [Tail]))) [] q
     = (q\<lparr>fq_next := (\<lambda>a. if a \<in> Blk ` set (take n xs) then None else fq_next q a), fq_prev := (\<lambda>a. if a \<in> Blk ` set (take n xs) then None else fq_prev q a)\<rparr>,
        ok (Some (hd (map Blk (drop n xs) @ [Tail])), map Blk (take n xs)))"
proof (induction n arbitrary: xs q)
  case (Suc n)
  obtain x ys where xs: "xs = x # ys" using Suc.prems(3) by (cases xs) auto
  have nx: "fq_next q (Blk x) = Some (hd (map Blk ys @ [Tail]))" "linked q (map Blk ys @ [Tail])"
    using Suc.prems(1) xs by (cases ys; simp)+
  have l: "linked (clear_links (Blk x) q) (map Blk ys @ [Tail])"
  proof (rule linked_cong [OF nx(2)])
    show "fq_next (clear_links (Blk x) q) a = fq_next q a" if "a \<in> set (butlast (map Blk ys @ [Tail]))" for a using that Suc.prems(2) xs by auto
    show "fq_prev (clear_links (Blk x) q) a = fq_prev q a" if "a \<in> set (tl (map Blk ys @ [Tail]))" for a
    proof -
      have "a \<in> set (map Blk ys @ [Tail])" using that by (metis list.set_sel(2) snoc_eq_iff_butlast)
      then show ?thesis using Suc.prems(2) xs by auto
    qed
  qed
  have "pop_loop (Suc n) (Some (hd (map Blk xs @ [Tail]))) [] q = pop_loop n (Some (hd (map Blk ys @ [Tail]))) [Blk x] (clear_links (Blk x) q)"
    by (simp add: xs nx)
  also have "\<dots> = (case pop_loop n (Some (hd (map Blk ys @ [Tail]))) [] (clear_links (Blk x) q) of (q1, Inl e) \<Rightarrow> (q1, err e) | (q1, Inr (c, ret)) \<Rightarrow> (q1, ok (c, [Blk x] @ ret)))"
    by (rule pop_loop_acc)
  finally show ?case using Suc.IH [OF l] Suc.prems(2,3) xs by (auto simp: fun_eq_iff clear_links_def set_next_def set_prev_def)
qed simp

lemma popleft_n_is_queue:
  assumes q: "is_queue q xs" and n: "n \<le> length xs"
  obtains q' where "popleft_n (int n) q = (q', ok (map Blk (take n xs)))" "is_queue q' (drop n xs)"
proof (cases "n = 0")
  case True
  then show thesis using that q by (simp add: popleft_n_def)
next
  case False
  let ?q0 = "q\<lparr>fq_num := fq_num q - int n\<rparr>" and ?c = "hd (map Blk (drop n xs) @ [Tail])" and ?g = "Blk ` set (take n xs)"
  let ?q1 = "?q0\<lparr>fq_next := (\<lambda>a. if a \<in> ?g then None else fq_next q a), fq_prev := (\<lambda>a. if a \<in> ?g then None else fq_prev q a)\<rparr>"
  let ?q2 = "set_prev ?c (Some Head) (set_next Head (Some ?c) ?q1)"
  have l: "linked q (map Blk xs @ [Tail])" using q by (cases xs) (simp_all add: is_queue_def chain_def)
  have d: "distinct xs" using q by (simp add: is_queue_def)
  have "linked ?q0 (map Blk xs @ [Tail])" by (rule linked_cong [OF l]) simp_all
  then have loop: "pop_loop n (fq_next q Head) [] ?q0 = (?q1, ok (Some ?c, map Blk (take n xs)))"
    using pop_loop_run [of ?q0 xs n] d n next_head [OF q] by (simp cong: if_cong)
  have run: "popleft_n (int n) q = (?q2, ok (map Blk (take n xs)))"
    using False n q loop by (simp add: popleft_n_def is_queue_def)
  obtain C where C: "map Blk (drop n xs) @ [Tail] = ?c # C" by (cases "map Blk (drop n xs) @ [Tail]") auto
  have dd: "distinct (map Blk (take n xs) @ ?c # C)" "Head \<notin> set (?c # C)" "Tail \<in> set (?c # C)"
  proof -
    have "distinct (map Blk xs @ [Tail])" using distinct_chain [OF d] by (simp add: chain_def)
    then show "distinct (map Blk (take n xs) @ ?c # C)" using C by (metis append.assoc append_take_drop_id map_append)
    show "Head \<notin> set (?c # C)" "Tail \<in> set (?c # C)" unfolding C [symmetric] by auto
  qed
  have lc: "linked q (?c # C)"
  proof -
    have "map Blk xs @ [Tail] = map Blk (take n xs) @ ?c # C" using C by (metis append.assoc append_take_drop_id map_append)
    then show ?thesis using l linked_join by metis
  qed
  have "linked ?q2 (?c # C)"
    using dd by (intro linked_cong [OF lc]) (auto dest: in_set_butlastD split: if_splits)
  moreover have "chain (drop n xs) = Head # ?c # C" using C by (simp add: chain_def)
  ultimately have "linked ?q2 (chain (drop n xs))" using dd(2) by auto
  moreover have "fq_next ?q2 (Blk k) = None \<and> fq_prev ?q2 (Blk k) = None" if k: "k \<notin> set (drop n xs)" for k
  proof -
    have "Blk k \<noteq> ?c" using k by (cases "drop n xs") auto
    moreover have "k \<in> set (take n xs) \<or> k \<notin> set xs" using k by (metis UnE append_take_drop_id set_append)
    ultimately show ?thesis using q by (auto simp: is_queue_def)
  qed
  moreover have "?c \<noteq> Head" using dd(2) by auto
  ultimately have "is_queue ?q2 (drop n xs)" using q n by (auto simp: is_queue_def)
  then show thesis using that run by blast
qed

text \<open>Traversals end: both reach the tail.\<close>

lemma walk_all_run:
  "linked q (map Blk xs @ [Tail]) \<Longrightarrow> fq_next q Tail = None \<Longrightarrow> walk_all q (hd (map Blk xs @ [Tail])) acc = Some (acc @ map Blk xs)"
proof (induction xs arbitrary: acc)
  case Nil
  then show ?case by (simp add: walk_all.simps)
next
  case (Cons x xs)
  have nx: "fq_next q (Blk x) = Some (hd (map Blk xs @ [Tail]))" "linked q (map Blk xs @ [Tail])" using Cons.prems(1) by (cases xs; simp)+
  have "walk_all q (Blk x) acc = walk_all q (hd (map Blk xs @ [Tail])) (acc @ [Blk x])" by (subst walk_all.simps) (simp add: nx)
  then show ?case using Cons.IH [OF nx(2) Cons.prems(2)] by simp
qed

lemma walk_after_run:
  "linked q (map Blk xs @ [Tail]) \<Longrightarrow> walk_after q (Some (hd (map Blk xs @ [Tail]))) acc = Some (acc @ map Blk xs)"
proof (induction xs arbitrary: acc)
  case Nil
  then show ?case by (simp add: walk_after.simps)
next
  case (Cons x xs)
  have nx: "fq_next q (Blk x) = Some (hd (map Blk xs @ [Tail]))" "linked q (map Blk xs @ [Tail])" using Cons.prems by (cases xs; simp)+
  have "walk_after q (Some (Blk x)) acc = walk_after q (Some (hd (map Blk xs @ [Tail]))) (acc @ [Blk x])" by (subst walk_after.simps) (simp add: nx)
  then show ?case using Cons.IH [OF nx(2)] by simp
qed

lemma linked_blocks: "is_queue q xs \<Longrightarrow> linked q (map Blk xs @ [Tail])"
  by (cases xs) (simp_all add: is_queue_def chain_def)

lemma get_all_is_list: "is_queue q xs \<Longrightarrow> get_all_free_blocks q = Some (ok (map Blk xs))"
  using walk_all_run [OF linked_blocks, of q xs "[]"] next_head [of q xs] by (simp add: get_all_free_blocks_def is_queue_def)

text \<open>The blocks behind a cursor.\<close>

definition rest_after :: "nat option \<Rightarrow> nat list \<Rightarrow> nat list" where
  "rest_after cursor xs = (case cursor of None \<Rightarrow> xs | Some b \<Rightarrow> tl (dropWhile (\<lambda>x. x \<noteq> b) xs))"

lemma iter_after_is_rest:
  assumes q: "is_queue q xs"
  shows "iter_blocks_after (map_option Blk cursor) q = Some (map Blk (rest_after cursor xs))"
proof (cases cursor)
  case None
  then show ?thesis using walk_after_run [OF linked_blocks [OF q], of "[]"] next_head [OF q] by (simp add: iter_blocks_after_def rest_after_def)
next
  case (Some b)
  show ?thesis
  proof (cases "b \<in> set xs")
    case True
    then obtain ys zs where xs: "xs = ys @ b # zs" "b \<notin> set ys" by (meson split_list_first)
    have "linked q (map Blk ys @ Blk b # map Blk zs @ [Tail])" using linked_blocks [OF q] by (simp add: xs)
    then have l: "linked q (Blk b # map Blk zs @ [Tail])" using linked_join by metis
    then have "fq_next q (Blk b) = Some (hd (map Blk zs @ [Tail]))" "linked q (map Blk zs @ [Tail])" by (cases zs; simp)+
    moreover have "dropWhile (\<lambda>x. x \<noteq> b) (ys @ b # zs) = b # zs" using xs(2) by (induction ys) auto
    ultimately show ?thesis using walk_after_run [of q zs "[]"] by (simp add: Some iter_blocks_after_def rest_after_def xs(1))
  next
    case False
    then have "tl (dropWhile (\<lambda>x. x \<noteq> b) xs) = []" by (induction xs) auto
    moreover have "fq_next q (Blk b) = None" using False q by (simp add: is_queue_def)
    ultimately show ?thesis by (simp add: Some iter_blocks_after_def rest_after_def walk_after.simps)
  qed
qed

text \<open>Construction: the loop links every pair of neighbours.\<close>

lemma linked_nth: "linked q L = (\<forall>i. Suc i < length L \<longrightarrow> fq_next q (L ! i) = Some (L ! Suc i) \<and> fq_prev q (L ! Suc i) = Some (L ! i))"
proof (induction q L rule: linked.induct)
  case (1 q a b L)
  show ?case
  proof
    assume l: "linked q (a # b # L)"
    show "\<forall>i. Suc i < length (a # b # L) \<longrightarrow> fq_next q ((a # b # L) ! i) = Some ((a # b # L) ! Suc i) \<and> fq_prev q ((a # b # L) ! Suc i) = Some ((a # b # L) ! i)"
    proof (intro allI impI)
      fix i
      assume "Suc i < length (a # b # L)"
      then show "fq_next q ((a # b # L) ! i) = Some ((a # b # L) ! Suc i) \<and> fq_prev q ((a # b # L) ! Suc i) = Some ((a # b # L) ! i)"
        using l 1 by (cases i) auto
    qed
  next
    assume r: "\<forall>i. Suc i < length (a # b # L) \<longrightarrow> fq_next q ((a # b # L) ! i) = Some ((a # b # L) ! Suc i) \<and> fq_prev q ((a # b # L) ! Suc i) = Some ((a # b # L) ! i)"
    have "linked q (b # L)" using 1 spec [OF r, of "Suc _"] by auto
    then show "linked q (a # b # L)" using spec [OF r, of 0] by simp
  qed
qed auto

definition wired :: "node list \<Rightarrow> nat \<Rightarrow> free_queue \<Rightarrow> bool" where
  "wired bs i q = ((\<forall>j < length bs. fq_prev q (bs ! j) = (if 0 < j \<and> j < i then Some (bs ! (j - 1)) else None)
       \<and> fq_next q (bs ! j) = (if j < i \<and> j < length bs - 1 then Some (bs ! (j + 1)) else None))
     \<and> (\<forall>a. a \<notin> set bs \<longrightarrow> fq_prev q a = None \<and> fq_next q a = None))"

lemma init_loop_wired:
  "k \<le> length bs \<Longrightarrow> distinct bs \<Longrightarrow> wired bs (length bs - k) q \<Longrightarrow> wired bs (length bs) (init_loop bs k q) \<and> fq_num (init_loop bs k q) = fq_num q"
proof (induction k arbitrary: q)
  case (Suc k)
  let ?i = "length bs - Suc k"
  define q1 where "q1 = (if 0 < ?i then set_prev (bs ! ?i) (Some (bs ! (?i - 1))) q else q)"
  define q2 where "q2 = (if ?i < length bs - 1 then set_next (bs ! ?i) (Some (bs ! (?i + 1))) q1 else q1)"
  have i: "?i < length bs" "length bs - k = Suc ?i" using Suc.prems(1) by auto
  have eq: "(bs ! j = bs ! ?i) = (j = ?i)" if "j < length bs" for j using that i Suc.prems(2) nth_eq_iff_index_eq by blast
  have inb: "bs ! ?i \<in> set bs" using i(1) by simp
  have "wired bs (Suc ?i) q2"
  proof -
    have "fq_prev q2 a = None \<and> fq_next q2 a = None" if "a \<notin> set bs" for a
      using that Suc.prems(3) inb by (auto simp: wired_def q1_def q2_def)
    moreover have "fq_prev q2 (bs ! j) = (if 0 < j \<and> j < Suc ?i then Some (bs ! (j - 1)) else None)
        \<and> fq_next q2 (bs ! j) = (if j < Suc ?i \<and> j < length bs - 1 then Some (bs ! (j + 1)) else None)" if j: "j < length bs" for j
    proof -
      have old: "fq_prev q (bs ! j) = (if 0 < j \<and> j < ?i then Some (bs ! (j - 1)) else None)"
          "fq_next q (bs ! j) = (if j < ?i \<and> j < length bs - 1 then Some (bs ! (j + 1)) else None)"
        using j Suc.prems(3) unfolding wired_def by blast+
      show ?thesis
      proof (cases "j = ?i")
        case True
        then show ?thesis using old by (cases "?i = 0") (auto simp: q1_def q2_def)
      next
        case False
        then have "fq_prev q2 (bs ! j) = fq_prev q (bs ! j)" "fq_next q2 (bs ! j) = fq_next q (bs ! j)" "(j < Suc ?i) = (j < ?i)"
          using eq [OF j] by (simp_all add: q1_def q2_def less_Suc_eq)
        then show ?thesis using old by simp
      qed
    qed
    ultimately show ?thesis unfolding wired_def by blast
  qed
  then have "wired bs (length bs) (init_loop bs k q2) \<and> fq_num (init_loop bs k q2) = fq_num q2"
    using Suc.IH [of q2] Suc.prems(1,2) i(2) by simp
  moreover have "init_loop bs (Suc k) q = init_loop bs k q2" by (simp add: q1_def q2_def Let_def)
  moreover have "fq_num q2 = fq_num q" by (simp add: q1_def q2_def)
  ultimately show ?case by simp
qed simp

lemma init_is_queue:
  assumes "distinct blocks"
  shows "is_queue (queue_init blocks) blocks"
proof (cases "blocks = []")
  case True
  then show ?thesis by (auto simp: queue_init_def is_queue_def chain_def Let_def)
next
  case False
  define bs where "bs = map Blk blocks"
  define q where "q = init_loop bs (length bs) \<lparr>fq_next = (\<lambda>_. None), fq_prev = (\<lambda>_. None), fq_num = int (length bs)\<rparr>"
  define q' where "q' = set_next (last bs) (Some Tail) (set_prev Tail (Some (last bs)) (set_prev (hd bs) (Some Head) (set_next Head (Some (hd bs)) q)))"
  have d: "distinct bs" using assms by (auto simp: bs_def distinct_map inj_on_def)
  have ne: "bs \<noteq> []" using False by (simp add: bs_def)
  have s: "Head \<notin> set bs" "Tail \<notin> set bs" by (auto simp: bs_def)
  have w: "wired bs (length bs) q" and num: "fq_num q = int (length bs)"
    using init_loop_wired [of "length bs" bs "\<lparr>fq_next = (\<lambda>_. None), fq_prev = (\<lambda>_. None), fq_num = int (length bs)\<rparr>"] d
    by (auto simp: q_def wired_def)
  have q': "queue_init blocks = q'" using ne by (simp add: queue_init_def q'_def q_def bs_def Let_def)
  have l: "linked q' bs" unfolding linked_nth
  proof (intro allI impI)
    fix i
    assume i: "Suc i < length bs"
    have "bs ! i \<in> set bs" "bs ! Suc i \<in> set bs" using i by simp_all
    then have "bs ! i \<noteq> Head" "bs ! Suc i \<noteq> Tail" using s by metis+
    moreover have "bs ! i \<noteq> last bs" "bs ! Suc i \<noteq> hd bs"
      using i d ne nth_eq_iff_index_eq [of bs i "length bs - 1"] nth_eq_iff_index_eq [of bs "Suc i" 0] by (auto simp: last_conv_nth hd_conv_nth)
    ultimately show "fq_next q' (bs ! i) = Some (bs ! Suc i) \<and> fq_prev q' (bs ! Suc i) = Some (bs ! i)"
      using w i by (auto simp: q'_def wired_def)
  qed
  have ends: "hd bs \<in> set bs" "last bs \<in> set bs" using ne by simp_all
  then have "linked q' [Head, hd bs]" "linked q' [last bs, Tail]" using s by (auto simp: q'_def)
  moreover have "linked q' (bs @ [Tail])"
  proof -
    have "bs @ [Tail] = butlast bs @ last bs # [Tail]" "butlast bs @ [last bs] = bs" using ne by simp_all
    then show ?thesis using l calculation(2) linked_join [of q' "butlast bs" "last bs" "[Tail]"] by metis
  qed
  moreover obtain b bs' where "bs = b # bs'" using ne by (cases bs) auto
  ultimately have "linked q' (chain blocks)" using ne by (simp add: chain_def bs_def [symmetric])
  moreover have "fq_next q' (Blk b) = None \<and> fq_prev q' (Blk b) = None" if b: "b \<notin> set blocks" for b
  proof -
    have "Blk b \<notin> set bs" using b by (auto simp: bs_def)
    then show ?thesis using w ends by (auto simp: q'_def wired_def)
  qed
  moreover have "fq_next q' Tail = None" "fq_prev q' Head = None" using w s ends by (auto simp: q'_def wired_def)
  ultimately show ?thesis using assms num unfolding q' is_queue_def by (simp add: q'_def bs_def)
qed

section \<open>Refinement of a plain list\<close>

datatype qop = PopLeft | PopLeftN nat | Remove nat | Append nat | PrependN "nat list" | AppendN "nat list" | AllFree | After "nat option"

datatype qres = Got "nat list" | Done | Raised exn

fun the_block :: "node \<Rightarrow> nat" where
  "the_block (Blk b) = b"
| "the_block _ = 0"

definition returned :: "free_queue \<times> node list res \<Rightarrow> free_queue \<times> qres" where
  "returned r = (fst r, case snd r of Inl e \<Rightarrow> Raised e | Inr bs \<Rightarrow> Got (map the_block bs))"

definition finished :: "free_queue \<times> unit res \<Rightarrow> free_queue \<times> qres" where
  "finished r = (fst r, case snd r of Inl e \<Rightarrow> Raised e | Inr _ \<Rightarrow> Done)"

text \<open>One operation on the linked queue (\<open>None\<close> when a traversal does not end), and the same operation on a list.\<close>

fun queue_op :: "qop \<Rightarrow> free_queue \<Rightarrow> (free_queue \<times> qres) option" where
  "queue_op PopLeft q = Some (case popleft q of (q', Inl e) \<Rightarrow> (q', Raised e) | (q', Inr b) \<Rightarrow> (q', Got [the_block b]))"
| "queue_op (PopLeftN n) q = Some (returned (popleft_n (int n) q))"
| "queue_op (Remove b) q = Some (finished (remove_block (Blk b) q))"
| "queue_op (Append b) q = Some (finished (append_block (Blk b) q))"
| "queue_op (PrependN bs) q = Some (finished (prepend_n (map Blk bs) q))"
| "queue_op (AppendN bs) q = Some (finished (append_n (map Blk bs) q))"
| "queue_op AllFree q = map_option (\<lambda>r. returned (q, r)) (get_all_free_blocks q)"
| "queue_op (After c) q = map_option (\<lambda>bs. returned (q, ok bs)) (iter_blocks_after (map_option Blk c) q)"

fun list_op :: "qop \<Rightarrow> nat list \<Rightarrow> nat list \<times> qres" where
  "list_op PopLeft xs = (case xs of [] \<Rightarrow> ([], Raised ValueError) | x # ys \<Rightarrow> (ys, Got [x]))"
| "list_op (PopLeftN n) xs = (if n \<le> length xs then (drop n xs, Got (take n xs)) else (xs, Raised AssertionError))"
| "list_op (Remove b) xs = (if b \<in> set xs then (remove1 b xs, Done) else (xs, Raised RuntimeError))"
| "list_op (Append b) xs = (xs @ [b], Done)"
| "list_op (PrependN bs) xs = (bs @ xs, Done)"
| "list_op (AppendN bs) xs = (xs @ bs, Done)"
| "list_op AllFree xs = (xs, Got xs)"
| "list_op (After c) xs = (xs, Got (rest_after c xs))"

text \<open>The callers' duty: only blocks that are not free are freed.\<close>

fun allowed :: "qop \<Rightarrow> nat list \<Rightarrow> bool" where
  "allowed (Append b) xs = (b \<notin> set xs)"
| "allowed (PrependN bs) xs = (distinct bs \<and> list_all (\<lambda>b. b \<notin> set xs) bs)"
| "allowed (AppendN bs) xs = (distinct bs \<and> list_all (\<lambda>b. b \<notin> set xs) bs)"
| "allowed _ xs = True"

fun run_ops :: "('o \<Rightarrow> 's \<Rightarrow> ('s \<times> 'r) option) \<Rightarrow> 'o list \<Rightarrow> 's \<Rightarrow> ('s \<times> 'r list) option" where
  "run_ops f [] s = Some (s, [])"
| "run_ops f (p # ps) s = (case f p s of None \<Rightarrow> None | Some (s', r) \<Rightarrow> map_option (apsnd ((#) r)) (run_ops f ps s'))"

fun all_allowed :: "('o \<Rightarrow> 'a \<Rightarrow> 'a \<times> 'r) \<Rightarrow> ('o \<Rightarrow> 'a \<Rightarrow> bool) \<Rightarrow> 'o list \<Rightarrow> 'a \<Rightarrow> bool" where
  "all_allowed g al [] a = True"
| "all_allowed g al (p # ps) a = (al p a \<and> all_allowed g al ps (fst (g p a)))"

text \<open>What a representation promises, and what its clients get: whole runs agree.\<close>

locale simulation =
  fixes rep :: "'s \<Rightarrow> 'a \<Rightarrow> bool" and f :: "'o \<Rightarrow> 's \<Rightarrow> ('s \<times> 'r) option" and g :: "'o \<Rightarrow> 'a \<Rightarrow> 'a \<times> 'r" and al :: "'o \<Rightarrow> 'a \<Rightarrow> bool"
  assumes step: "rep s a \<Longrightarrow> al p a \<Longrightarrow> \<exists>s'. f p s = Some (s', snd (g p a)) \<and> rep s' (fst (g p a))"
begin

lemma runs_agree:
  "rep s a \<Longrightarrow> all_allowed g al ps a
   \<Longrightarrow> \<exists>s' a' rs. run_ops f ps s = Some (s', rs) \<and> run_ops (\<lambda>p a. Some (g p a)) ps a = Some (a', rs) \<and> rep s' a'"
proof (induction ps arbitrary: s a)
  case (Cons p ps)
  obtain a1 r where g: "g p a = (a1, r)" by fastforce
  obtain s1 where f: "f p s = Some (s1, r)" "rep s1 a1" using step [of s a p] Cons.prems g by auto
  obtain s' a' rs where "run_ops f ps s1 = Some (s', rs)" "run_ops (\<lambda>p a. Some (g p a)) ps a1 = Some (a', rs)" "rep s' a'"
    using Cons.IH [OF f(2)] Cons.prems(2) g by auto
  then show ?case using f g by simp
qed simp

end

lemma map_the_block [simp]: "map the_block (map Blk bs) = bs"
  by (induction bs) auto

lemma queue_op_step:
  assumes q: "is_queue q xs" and al: "allowed p xs"
  shows "\<exists>q'. queue_op p q = Some (q', snd (list_op p xs)) \<and> is_queue q' (fst (list_op p xs))"
proof (cases p)
  case PopLeft
  show ?thesis
  proof (cases xs)
    case Nil
    then show ?thesis using PopLeft q popleft_empty by simp
  next
    case (Cons x ys)
    obtain q' where "popleft q = (q', ok (Blk x))" "is_queue q' ys" using popleft_is_queue [of q x ys] q Cons by blast
    then show ?thesis using PopLeft Cons by simp
  qed
next
  case (PopLeftN n)
  show ?thesis
  proof (cases "n \<le> length xs")
    case True
    then obtain q' where "popleft_n (int n) q = (q', ok (map Blk (take n xs)))" "is_queue q' (drop n xs)" using popleft_n_is_queue [OF q] by blast
    then show ?thesis using True PopLeftN by (simp add: returned_def del: map_map)
  next
    case False
    then have "popleft_n (int n) q = (q, err AssertionError)" using q by (simp add: popleft_n_def is_queue_def)
    then show ?thesis using False PopLeftN q by (simp add: returned_def)
  qed
next
  case (Remove b)
  show ?thesis
  proof (cases "b \<in> set xs")
    case True
    then obtain ys zs where xs: "xs = ys @ b # zs" "b \<notin> set ys" by (meson split_list_first)
    then obtain q' where "remove_block (Blk b) q = (q', ok ())" "is_queue q' (ys @ zs)" using remove_is_queue [of q ys b zs] q by blast
    then show ?thesis using Remove xs by (simp add: finished_def remove1_append)
  next
    case False
    then show ?thesis using Remove q remove_absent [OF q False] by (simp add: finished_def)
  qed
next
  case (Append b)
  then obtain q' where "append_n (map Blk [b]) q = (q', ok ())" "is_queue q' (xs @ [b])" using append_n_is_queue [OF q, of "[b]"] al by auto
  then show ?thesis using Append append_block_is_append_n [OF q] by (simp add: finished_def)
next
  case (PrependN bs)
  then obtain q' where "prepend_n (map Blk bs) q = (q', ok ())" "is_queue q' (bs @ xs)" using prepend_n_is_queue [OF q, of bs] al by (auto simp: list_all_iff)
  then show ?thesis using PrependN by (simp add: finished_def)
next
  case (AppendN bs)
  then obtain q' where "append_n (map Blk bs) q = (q', ok ())" "is_queue q' (xs @ bs)" using append_n_is_queue [OF q, of bs] al by (auto simp: list_all_iff)
  then show ?thesis using AppendN by (simp add: finished_def)
next
  case AllFree
  then show ?thesis using get_all_is_list [OF q] q by (simp add: returned_def del: map_map)
next
  case (After c)
  then show ?thesis using iter_after_is_rest [OF q, of c] q by (simp add: returned_def del: map_map)
qed

interpretation kq: simulation is_queue queue_op list_op allowed
  by unfold_locales (rule queue_op_step)

text \<open>Eviction order: blocks freed by \<^verbatim>\<open>append_n\<close> are handed out again only after every block that was free before.\<close>

lemma evicted_last:
  assumes "is_queue q xs" and "distinct bs" and "set bs \<inter> set xs = {}" and "n \<le> length xs"
  obtains q' q'' where "append_n (map Blk bs) q = (q', ok ())" "popleft_n (int n) q' = (q'', ok (map Blk (take n xs)))"
proof -
  obtain q' where q': "append_n (map Blk bs) q = (q', ok ())" "is_queue q' (xs @ bs)" using append_n_is_queue [OF assms(1-3)] .
  obtain q'' where "popleft_n (int n) q' = (q'', ok (map Blk (take n (xs @ bs))))" using popleft_n_is_queue [OF q'(2), of n] assms(4) by auto
  then show thesis using that q'(1) assms(4) by simp
qed

section \<open>The property\<close>

text \<open>
  C33: the doubly linked free list behaves as a plain list. From the construction over distinct blocks,
  every sequence of pops, removals, insertions at either end and traversals, in which only
  blocks that are not free are inserted, ends (also the traversal loops), returns the same blocks and raises the
  same exceptions (nothing free, too few free blocks, a block that is not in the list) as the
  sequence on the list of free blocks, and the counter of free blocks is the length of that list.
\<close>

theorem free_queue_refines_list:
  assumes "distinct blocks" and "all_allowed list_op allowed ps blocks"
  shows "\<exists>q xs rs. run_ops queue_op ps (queue_init blocks) = Some (q, rs) \<and> run_ops (\<lambda>p xs. Some (list_op p xs)) ps blocks = Some (xs, rs)
     \<and> get_all_free_blocks q = Some (ok (map Blk xs)) \<and> fq_num q = int (length xs) \<and> distinct xs"
proof -
  obtain q xs rs where r: "run_ops queue_op ps (queue_init blocks) = Some (q, rs)" "run_ops (\<lambda>p xs. Some (list_op p xs)) ps blocks = Some (xs, rs)" "is_queue q xs"
    using kq.runs_agree [OF init_is_queue [OF assms(1)] assms(2)] by blast
  then show ?thesis using get_all_is_list [OF r(3)] by (auto simp: is_queue_def)
qed

lemma free_queue_refines_list_witness:
  "run_ops (\<lambda>p xs. Some (list_op p xs)) [PopLeftN 2, Remove 3, AppendN [1, 0], PopLeft, PopLeftN 9, After (Some 1)] [0, 1, 2, 3]
     = Some ([1, 0], [Got [0, 1], Done, Done, Got [2], Raised AssertionError, Got [0]])
   \<and> (\<exists>q. run_ops queue_op [PopLeftN 2, Remove 3, AppendN [1, 0], PopLeft, PopLeftN 9, After (Some 1)] (queue_init [0, 1, 2, 3])
        = Some (q, [Got [0, 1], Done, Done, Got [2], Raised AssertionError, Got [0]]) \<and> fq_num q = 2)"
proof -
  have l: "run_ops (\<lambda>p xs. Some (list_op p xs)) [PopLeftN 2, Remove 3, AppendN [1, 0], PopLeft, PopLeftN 9, After (Some 1)] [0, 1, 2, 3]
     = Some ([1, 0], [Got [0, 1], Done, Done, Got [2], Raised AssertionError, Got [0]])" by code_simp
  have "all_allowed list_op allowed [PopLeftN 2, Remove 3, AppendN [1, 0], PopLeft, PopLeftN 9, After (Some 1)] [0, 1, 2, 3]" by code_simp
  then show ?thesis using l free_queue_refines_list [of "[0, 1, 2, 3]" "[PopLeftN 2, Remove 3, AppendN [1, 0], PopLeft, PopLeftN 9, After (Some 1)]"]
    by auto
qed

end
