(* ===== verification/Kv_Hash.thy ===== *)
theory Kv_Hash
  imports Prelude
begin

text \<open>
  Block hashes of the prefix cache (\<^verbatim>\<open>vllm/v1/core/kv_cache_utils.py\<close>): the keys that carry a hash and a group number, the extra
  keys of a block, the chained hashes of a request's full blocks, and the coarser view of them. The
  hash functions are parameters. Theorem: with a collision-free hash two blocks of freshly hashed requests
  have the same hash exactly when they close the same prefix, extra keys included.
\<close>

type_synonym byte_string = "nat list"

section \<open>Hash keys with a group number\<close>

fun be_bytes :: "nat \<Rightarrow> nat \<Rightarrow> byte_string" where
  "be_bytes 0 n = []"
| "be_bytes (Suc k) n = be_bytes k (n div 256) @ [n mod 256]"

definition from_be :: "byte_string \<Rightarrow> nat" where
  "from_be bs = foldl (\<lambda>n b. n * 256 + b) 0 bs"

definition make_block_hash_with_group_id :: "byte_string \<Rightarrow> int \<Rightarrow> byte_string res" where
  "make_block_hash_with_group_id h g = (if 0 \<le> g \<and> g < 2 ^ 32 then ok (h @ be_bytes 4 (nat g)) else err OverflowError)"

definition get_block_hash :: "byte_string \<Rightarrow> byte_string" where
  "get_block_hash key = take (length key - 4) key"

definition get_group_id :: "byte_string \<Rightarrow> int" where
  "get_group_id key = int (from_be (drop (length key - 4) key))"

datatype external_hash = EBytes byte_string | EInt int

definition maybe_convert_block_hash :: "bool \<Rightarrow> byte_string \<Rightarrow> external_hash" where
  "maybe_convert_block_hash use_int h = (if \<not> use_int then EBytes h else EInt (int (from_be h) AND (1 * 2 ^ 64 - 1)))"

section \<open>The seed of the first block\<close>

text \<open>What is hashed: a seed, or a block with its parent, tokens and extra keys. Extra keys are plain strings, inputs with an offset, or bytes.\<close>

datatype hkey = KStr string | KMm string int | KBytes byte_string

datatype hinput = HSeed string | HBlock byte_string "int list" "hkey list option"

definition DEFAULT_NONE_HASH_SEED :: string where
  "DEFAULT_NONE_HASH_SEED = ''vllm-none-hash''"

definition resolve_none_hash_seed :: "string option \<Rightarrow> bool \<Rightarrow> string \<Rightarrow> string" where
  "resolve_none_hash_seed env non_crypto random =
     (case env of Some s \<Rightarrow> s | None \<Rightarrow> if non_crypto then random else DEFAULT_NONE_HASH_SEED)"

definition get_none_hash_seed :: "string option \<Rightarrow> string" where
  "get_none_hash_seed seed = (case seed of None \<Rightarrow> DEFAULT_NONE_HASH_SEED | Some s \<Rightarrow> s)"

text \<open>\<open>init_none_hash\<close> gives the two globals: the hash of the seed and the seed.\<close>

definition init_none_hash :: "(hinput \<Rightarrow> byte_string) \<Rightarrow> string option \<Rightarrow> bool \<Rightarrow> string \<Rightarrow> byte_string \<times> string option" where
  "init_none_hash hf env non_crypto random =
     (let s = resolve_none_hash_seed env non_crypto random in (hf (HSeed s), Some s))"

section \<open>Extra keys\<close>

record mm_feature =
  mm_id :: "string option"
  mm_off :: int
  mm_len :: int

record hash_request =
  hr_tokens :: "int list"
  hr_hashes :: "byte_string list"
  hr_mm :: "mm_feature list"
  hr_lora :: "string option"
  hr_salt :: "string option"
  hr_embeds :: "byte_string list option"
  hr_embed_cache :: "(int \<times> int, byte_string) odict"

text \<open>The loop over the inputs from the current index on.\<close>

fun mm_loop :: "int \<Rightarrow> int \<Rightarrow> mm_feature list \<Rightarrow> int \<Rightarrow> (hkey list \<times> int) res" where
  "mm_loop s e [] i = ok ([], i)"
| "mm_loop s e (f # fs) i =
     (case mm_id f of
        None \<Rightarrow> err AssertionError
      | Some ident \<Rightarrow>
          if mm_off f < e then
            if mm_off f + mm_len f \<le> s then mm_loop s e fs (i + 1)
            else rbind (if mm_off f + mm_len f \<le> e then mm_loop s e fs (i + 1) else ok ([], i)) (\<lambda>(keys, j). ok (KMm ident (mm_off f - s) # keys, j))
          else ok ([], i))"

definition gen_mm_extra_hash_keys :: "hash_request \<Rightarrow> int \<Rightarrow> int \<Rightarrow> int \<Rightarrow> (hkey list \<times> int) res" where
  "gen_mm_extra_hash_keys r s e i =
     (let fs = hr_mm r in
      if fs = [] then ok ([], i)
      else if mm_off (last fs) + mm_len (last fs) \<le> s then ok ([], i)
      else if i < 0 \<and> int (length fs) < - i then err AssertionError
      else let j = (if i < 0 then int (length fs) + i else i) in mm_loop s e (drop (nat j) fs) j)"

definition gen_lora_extra_hash_keys :: "hash_request \<Rightarrow> hkey list" where
  "gen_lora_extra_hash_keys r = (case hr_lora r of None \<Rightarrow> [] | Some n \<Rightarrow> [KStr n])"

text \<open>Prompt embeddings are hashed once per block and remembered on the request; \<open>dg\<close> is the digest of the bytes of a slice.\<close>

definition gen_prompt_embeds_extra_hash_keys :: "(byte_string list \<Rightarrow> byte_string) \<Rightarrow> int \<Rightarrow> int \<Rightarrow> hash_request \<Rightarrow> hash_request \<times> hkey list" where
  "gen_prompt_embeds_extra_hash_keys dg s e r =
     (case hr_embeds r of
        None \<Rightarrow> (r, [])
      | Some rows \<Rightarrow>
          (case map_of (hr_embed_cache r) (s, e) of
             Some h \<Rightarrow> (r, [KBytes h])
           | None \<Rightarrow> let h = dg (take (nat e - nat s) (drop (nat s) rows))
                     in (r\<lparr>hr_embed_cache := AList.update (s, e) h (hr_embed_cache r)\<rparr>, [KBytes h])))"

definition salt_keys :: "hash_request \<Rightarrow> int \<Rightarrow> hkey list" where
  "salt_keys r s = (case hr_salt r of None \<Rightarrow> [] | Some t \<Rightarrow> if s = 0 \<and> t \<noteq> [] then [KStr t] else [])"

definition generate_block_hash_extra_keys ::
    "(byte_string list \<Rightarrow> byte_string) \<Rightarrow> int \<Rightarrow> int \<Rightarrow> int \<Rightarrow> hash_request \<Rightarrow> hash_request \<times> (hkey list option \<times> int) res" where
  "generate_block_hash_extra_keys dg s e i r =
     (case gen_mm_extra_hash_keys r s e i of
        Inl x \<Rightarrow> (r, err x)
      | Inr (mm, i') \<Rightarrow>
          let (r', emb) = gen_prompt_embeds_extra_hash_keys dg s e r; keys = gen_lora_extra_hash_keys r @ mm @ salt_keys r s @ emb
          in (r', ok (if keys = [] then None else Some keys, i')))"

section \<open>Chained hashes\<close>

definition hash_block_tokens :: "(hinput \<Rightarrow> byte_string) \<Rightarrow> byte_string \<Rightarrow> byte_string option \<Rightarrow> int list \<Rightarrow> hkey list option \<Rightarrow> byte_string" where
  "hash_block_tokens hf none parent tokens extra = hf (HBlock (case parent of None \<Rightarrow> none | Some p \<Rightarrow> if p = [] then none else p) tokens extra)"

text \<open>What the hashing of a request uses: the hash, the seed's hash, the digest of embeddings.\<close>

record hash_env =
  he_hash :: "hinput \<Rightarrow> byte_string"
  he_none :: byte_string
  he_digest :: "byte_string list \<Rightarrow> byte_string"

text \<open>The loop over the full blocks. With a block size of zero it never ends, so it is partial.\<close>

partial_function (option) hash_loop ::
    "hash_env \<Rightarrow> nat \<Rightarrow> nat \<Rightarrow> int \<Rightarrow> byte_string option \<Rightarrow> byte_string list \<Rightarrow> hash_request \<Rightarrow> (hash_request \<times> byte_string list res) option" where
  "hash_loop he n s i prev acc r =
     (if length (hr_tokens r) < s + n then Some (r, ok acc)
      else case generate_block_hash_extra_keys (he_digest he) (int s) (int (s + n)) i r of
        (r1, Inl x) \<Rightarrow> Some (r1, err x)
      | (r1, Inr (extra, i')) \<Rightarrow>
          (let h = hash_block_tokens (he_hash he) (he_none he) prev (take n (drop s (hr_tokens r1))) extra
           in hash_loop he n (s + n) i' (Some h) (acc @ [h]) r1))"

declare hash_loop.simps [code]

definition request_block_hasher :: "hash_env \<Rightarrow> nat \<Rightarrow> hash_request \<Rightarrow> (hash_request \<times> byte_string list res) option" where
  "request_block_hasher he n r =
     (let s = length (hr_hashes r) * n in
      if length (hr_tokens r) < s + n then Some (r, ok [])
      else hash_loop he n s (if 0 < s then -1 else 0) (if hr_hashes r = [] then None else Some (last (hr_hashes r))) [] r)"

section \<open>Coarser views\<close>

record hash_view =
  hv_hashes :: "byte_string list"
  hv_scale :: int

definition hash_view_init :: "byte_string list \<Rightarrow> int \<Rightarrow> int \<Rightarrow> hash_view res" where
  "hash_view_init hs n target =
     (if n = 0 then err ZeroDivisionError
      else if target mod n \<noteq> 0 then err AssertionError else ok \<lparr>hv_hashes = hs, hv_scale = target div n\<rparr>)"

definition hash_view_len :: "hash_view \<Rightarrow> int" where
  "hash_view_len v = int (length (hv_hashes v)) div hv_scale v"

text \<open>Python's list index: negative indices count from the end.\<close>

definition py_index :: "'a list \<Rightarrow> int \<Rightarrow> 'a res" where
  "py_index xs i =
     (let j = (if i < 0 then int (length xs) + i else i) in if 0 \<le> j \<and> j < int (length xs) then ok (xs ! nat j) else err IndexError)"

definition get_value_at :: "hash_view \<Rightarrow> int \<Rightarrow> byte_string res" where
  "get_value_at v i = py_index (hv_hashes v) ((i + 1) * hv_scale v - 1)"

datatype subscript = Index int | Indices "int list" | Other

definition hash_view_getitem :: "hash_view \<Rightarrow> subscript \<Rightarrow> byte_string list res" where
  "hash_view_getitem v ix = (case ix of
     Index i \<Rightarrow> rbind (get_value_at v i) (\<lambda>h. ok [h])
   | Indices is \<Rightarrow> fold_res (\<lambda>i acc. rbind (get_value_at v i) (\<lambda>h. ok (acc @ [h]))) is []
   | Other \<Rightarrow> err TypeError)"

definition hash_view_iter :: "hash_view \<Rightarrow> byte_string list res" where
  "hash_view_iter v = hash_view_getitem v (Indices (map int [0..<nat (hash_view_len v)]))"

datatype hash_list = Plain "byte_string list" | View hash_view

definition resolve_block_hashes :: "hash_list \<Rightarrow> int \<Rightarrow> int \<Rightarrow> bool \<Rightarrow> int option \<Rightarrow> hash_list res" where
  "resolve_block_hashes hl n block fine align =
     (if block = n then ok hl
      else case hl of
        View v \<Rightarrow> if n = 0 then err ZeroDivisionError else if hv_scale v = block div n then ok hl else err AssertionError
      | Plain hs \<Rightarrow>
          if fine \<and> (case align of None \<Rightarrow> False | Some a \<Rightarrow> a < block \<and> a \<noteq> 0 \<and> block mod a = 0) then ok hl
          else if fine \<and> align = Some 0 \<and> 0 < block then err ZeroDivisionError
          else if n = 0 then err ZeroDivisionError
          else if block mod n \<noteq> 0 then err AssertionError
          else rbind (hash_view_init hs n block) (\<lambda>v. ok (View v)))"


section \<open>Keys with a group number\<close>

lemma length_be_bytes [simp]: "length (be_bytes k n) = k"
  by (induction k n rule: be_bytes.induct) auto

lemma from_be_be_bytes: "from_be (be_bytes k n) = n mod 256 ^ k"
proof (induction k n rule: be_bytes.induct)
  case (2 k n)
  then have "from_be (be_bytes (Suc k) n) = n div 256 mod 256 ^ k * 256 + n mod 256" by (simp add: from_be_def)
  then show ?case using mod_mult2_eq [of n 256 "256 ^ k"] by simp
qed (simp add: from_be_def)

lemma group_key_roundtrip:
  assumes "make_block_hash_with_group_id h g = ok key"
  shows "get_block_hash key = h" and "get_group_id key = g"
proof -
  have key: "key = h @ be_bytes 4 (nat g)" and g: "0 \<le> g" "g < 2 ^ 32"
    using assms by (auto simp: make_block_hash_with_group_id_def split: if_splits)
  show "get_block_hash key = h" by (simp add: key get_block_hash_def)
  have "from_be (be_bytes 4 (nat g)) = nat g" using g by (simp add: from_be_be_bytes)
  then show "get_group_id key = g" using g by (simp add: key get_group_id_def)
qed

section \<open>The extra keys are complete\<close>

text \<open>Inputs in order, without overlap; the inputs that touch a block, with their offsets in it.\<close>

definition features_ok :: "mm_feature list \<Rightarrow> bool" where
  "features_ok fs = (sorted_wrt (\<lambda>f g. mm_off f + mm_len f \<le> mm_off g) fs \<and> list_all (\<lambda>f. mm_id f \<noteq> None \<and> 0 \<le> mm_off f \<and> 0 < mm_len f) fs)"

definition touching :: "mm_feature list \<Rightarrow> int \<Rightarrow> int \<Rightarrow> hkey list" where
  "touching fs s e = map (\<lambda>f. KMm (the (mm_id f)) (mm_off f - s)) (filter (\<lambda>f. mm_off f < e \<and> s < mm_off f + mm_len f) fs)"

lemma touching_none: "\<forall>f \<in> set fs. e \<le> mm_off f \<or> mm_off f + mm_len f \<le> s \<Longrightarrow> touching fs s e = []"
  by (fastforce simp: touching_def filter_empty_conv)

lemma mm_loop_complete:
  "features_ok fs \<Longrightarrow> s < e
   \<Longrightarrow> \<exists>j. mm_loop s e fs i = ok (touching fs s e, j) \<and> i \<le> j \<and> (\<forall>f \<in> set (take (nat (j - i)) fs). mm_off f + mm_len f \<le> e)"
proof (induction fs arbitrary: i)
  case Nil
  then show ?case by (auto simp: touching_def)
next
  case (Cons f fs)
  obtain ident where ident: "mm_id f = Some ident" using Cons.prems(1) by (auto simp: features_ok_def)
  have later: "mm_off f + mm_len f \<le> mm_off g" if "g \<in> set fs" for g using that Cons.prems(1) by (auto simp: features_ok_def)
  have len: "0 < mm_len f" and fs: "features_ok fs" using Cons.prems(1) by (auto simp: features_ok_def)
  obtain j where j: "mm_loop s e fs (i + 1) = ok (touching fs s e, j)" "i + 1 \<le> j" "\<forall>f \<in> set (take (nat (j - (i + 1))) fs). mm_off f + mm_len f \<le> e"
    using Cons.IH [OF fs Cons.prems(2)] by blast
  have step: "nat (j - i) = Suc (nat (j - (i + 1)))" using j(2) by simp
  consider "e \<le> mm_off f" | "mm_off f + mm_len f \<le> s" "mm_off f < e" | "s < mm_off f + mm_len f" "mm_off f < e" "mm_off f + mm_len f \<le> e"
    | "mm_off f < e" "e < mm_off f + mm_len f" by linarith
  then show ?case
  proof cases
    case 1
    have "touching (f # fs) s e = []" using 1 later len by (intro touching_none) force
    then show ?thesis using 1 ident by simp
  next
    case 2
    then have "touching (f # fs) s e = touching fs s e" by (simp add: touching_def)
    then show ?thesis using 2 ident j step Cons.prems(2) by auto
  next
    case 3
    then have "touching (f # fs) s e = KMm ident (mm_off f - s) # touching fs s e" using ident by (simp add: touching_def)
    then show ?thesis using 3 ident j step by auto
  next
    case 4
    have "touching fs s e = []" using 4 later by (intro touching_none) force
    then have "touching (f # fs) s e = [KMm ident (mm_off f - s)]" using 4 ident Cons.prems(2) by (simp add: touching_def)
    then show ?thesis using 4 ident Cons.prems(2) by simp
  qed
qed

text \<open>The index is past nothing that still matters.\<close>

definition passed :: "mm_feature list \<Rightarrow> int \<Rightarrow> int \<Rightarrow> bool" where
  "passed fs s i = (0 \<le> i \<and> (\<forall>f \<in> set (take (nat i) fs). mm_off f + mm_len f \<le> s))"

lemma gen_mm_complete:
  assumes ok: "features_ok (hr_mm r)" and p: "passed (hr_mm r) s i" and se: "s < e"
  obtains j where "gen_mm_extra_hash_keys r s e i = ok (touching (hr_mm r) s e, j)" "passed (hr_mm r) e j"
proof -
  let ?fs = "hr_mm r"
  have pe: "passed ?fs e i" using p se by (force simp: passed_def)
  show thesis
  proof (cases "?fs = [] \<or> mm_off (last ?fs) + mm_len (last ?fs) \<le> s")
    case True
    have "mm_off f + mm_len f \<le> s" if f: "f \<in> set ?fs" for f
    proof -
      have ne: "?fs \<noteq> []" using f by auto
      have "\<forall>f \<in> set (butlast ?fs). mm_off f + mm_len f \<le> mm_off (last ?fs)"
        using ok ne sorted_wrt_append [of _ "butlast ?fs" "[last ?fs]"] by (simp add: features_ok_def)
      moreover have "0 < mm_len (last ?fs)" using ok ne by (simp add: features_ok_def list_all_iff)
      moreover have "f = last ?fs \<or> f \<in> set (butlast ?fs)" using f ne by (metis append_butlast_last_id in_set_conv_decomp_last rotate1.simps(2) set_ConsD set_rotate1)
      ultimately show ?thesis using True ne by force
    qed
    then have "touching ?fs s e = []" by (intro touching_none) blast
    then show thesis using True that pe by (auto simp: gen_mm_extra_hash_keys_def Let_def)
  next
    case False
    have i: "0 \<le> i" using p by (simp add: passed_def)
    have d: "features_ok (drop (nat i) ?fs)" using ok by (auto simp: features_ok_def sorted_wrt_drop list_all_iff dest: in_set_dropD)
    obtain j where j: "mm_loop s e (drop (nat i) ?fs) i = ok (touching (drop (nat i) ?fs) s e, j)" "i \<le> j"
        "\<forall>f \<in> set (take (nat (j - i)) (drop (nat i) ?fs)). mm_off f + mm_len f \<le> e" using mm_loop_complete [OF d se] by blast
    have "touching (take (nat i) ?fs) s e = []" using p by (intro touching_none) (auto simp: passed_def)
    moreover have "touching ?fs s e = touching (take (nat i) ?fs) s e @ touching (drop (nat i) ?fs) s e"
      unfolding touching_def by (metis append_take_drop_id filter_append map_append)
    ultimately have t: "touching (drop (nat i) ?fs) s e = touching ?fs s e" by simp
    have "nat j = nat i + nat (j - i)" using i j(2) by simp
    then have "take (nat j) ?fs = take (nat i) ?fs @ take (nat (j - i)) (drop (nat i) ?fs)" by (metis take_add)
    then have "passed ?fs e j" using pe j(2,3) i by (auto simp: passed_def)
    then show thesis using that j(1) False i t by (simp add: gen_mm_extra_hash_keys_def Let_def)
  qed
qed

text \<open>All extra keys of a block, and the memory of embedding hashes.\<close>

definition embed_slice :: "byte_string list \<Rightarrow> int \<Rightarrow> int \<Rightarrow> byte_string list" where
  "embed_slice rows s e = take (nat e - nat s) (drop (nat s) rows)"

definition embeds_remembered :: "(byte_string list \<Rightarrow> byte_string) \<Rightarrow> hash_request \<Rightarrow> bool" where
  "embeds_remembered dg r = list_all (\<lambda>((s, e), h). h = dg (embed_slice (case hr_embeds r of None \<Rightarrow> [] | Some rows \<Rightarrow> rows) s e)) (hr_embed_cache r)"

definition block_keys :: "(byte_string list \<Rightarrow> byte_string) \<Rightarrow> hash_request \<Rightarrow> int \<Rightarrow> int \<Rightarrow> hkey list" where
  "block_keys dg r s e = gen_lora_extra_hash_keys r @ touching (hr_mm r) s e @ salt_keys r s
     @ (case hr_embeds r of None \<Rightarrow> [] | Some rows \<Rightarrow> [KBytes (dg (embed_slice rows s e))])"

definition key_tuple :: "hkey list \<Rightarrow> hkey list option" where
  "key_tuple ks = (if ks = [] then None else Some ks)"

lemma key_tuple_inj [simp]: "key_tuple a = key_tuple b \<longleftrightarrow> a = b"
  by (simp add: key_tuple_def)

lemma block_keys_cache [simp]: "block_keys dg (r\<lparr>hr_embed_cache := c\<rparr>) s e = block_keys dg r s e"
  by (simp add: block_keys_def gen_lora_extra_hash_keys_def salt_keys_def)

lemma embeds_complete:
  assumes "embeds_remembered dg r"
  obtains c where "gen_prompt_embeds_extra_hash_keys dg s e r
      = (r\<lparr>hr_embed_cache := c\<rparr>, case hr_embeds r of None \<Rightarrow> [] | Some rows \<Rightarrow> [KBytes (dg (embed_slice rows s e))])"
    "embeds_remembered dg (r\<lparr>hr_embed_cache := c\<rparr>)"
proof (cases "hr_embeds r")
  case None
  then show thesis using that [of "hr_embed_cache r"] assms by (simp add: gen_prompt_embeds_extra_hash_keys_def)
next
  case (Some rows)
  show thesis
  proof (cases "map_of (hr_embed_cache r) (s, e)")
    case None
    let ?h = "dg (embed_slice rows s e)"
    have "list_all (\<lambda>((s, e), h). h = dg (embed_slice rows s e)) (AList.update (s, e) ?h (hr_embed_cache r))"
      using assms Some set_update_subset [of "(s, e)" ?h "hr_embed_cache r"] by (fastforce simp: embeds_remembered_def list_all_iff)
    then show thesis using that [of "AList.update (s, e) ?h (hr_embed_cache r)"] Some None
      by (simp add: gen_prompt_embeds_extra_hash_keys_def embeds_remembered_def embed_slice_def Let_def)
  next
    case h: (Some h)
    have "h = dg (embed_slice rows s e)" using assms Some map_of_SomeD [OF h] by (auto simp: embeds_remembered_def list_all_iff)
    then show thesis using that [of "hr_embed_cache r"] Some h assms by (simp add: gen_prompt_embeds_extra_hash_keys_def)
  qed
qed

lemma extra_keys_complete:
  assumes "features_ok (hr_mm r)" and "passed (hr_mm r) s i" and "s < e" and "embeds_remembered dg r"
  obtains c j where "generate_block_hash_extra_keys dg s e i r = (r\<lparr>hr_embed_cache := c\<rparr>, ok (key_tuple (block_keys dg r s e), j))"
    "passed (hr_mm r) e j" "embeds_remembered dg (r\<lparr>hr_embed_cache := c\<rparr>)"
proof -
  obtain j where j: "gen_mm_extra_hash_keys r s e i = ok (touching (hr_mm r) s e, j)" "passed (hr_mm r) e j" using gen_mm_complete [OF assms(1-3)] .
  obtain c where c: "gen_prompt_embeds_extra_hash_keys dg s e r
      = (r\<lparr>hr_embed_cache := c\<rparr>, case hr_embeds r of None \<Rightarrow> [] | Some rows \<Rightarrow> [KBytes (dg (embed_slice rows s e))])"
    "embeds_remembered dg (r\<lparr>hr_embed_cache := c\<rparr>)" using embeds_complete [OF assms(4)] .
  show thesis using that [of c j] j c by (simp add: generate_block_hash_extra_keys_def key_tuple_def block_keys_def)
qed

section \<open>The hashes of a request\<close>

text \<open>The reference: what is hashed for block \<open>k\<close>.\<close>

definition block_tokens :: "nat \<Rightarrow> hash_request \<Rightarrow> nat \<Rightarrow> int list" where
  "block_tokens n r k = take n (drop (k * n) (hr_tokens r))"

definition nth_keys :: "hash_env \<Rightarrow> nat \<Rightarrow> hash_request \<Rightarrow> nat \<Rightarrow> hkey list" where
  "nth_keys he n r k = block_keys (he_digest he) r (int (k * n)) (int (k * n + n))"

fun prefix_hash :: "hash_env \<Rightarrow> nat \<Rightarrow> hash_request \<Rightarrow> nat \<Rightarrow> byte_string" where
  "prefix_hash he n r 0 = hash_block_tokens (he_hash he) (he_none he) None (block_tokens n r 0) (key_tuple (nth_keys he n r 0))"
| "prefix_hash he n r (Suc k) = hash_block_tokens (he_hash he) (he_none he) (Some (prefix_hash he n r k)) (block_tokens n r (Suc k)) (key_tuple (nth_keys he n r (Suc k)))"

lemma prefix_hash_cache [simp]: "prefix_hash he n (r\<lparr>hr_embed_cache := c\<rparr>) k = prefix_hash he n r k"
  by (induction k) (simp_all add: block_tokens_def nth_keys_def)

definition fresh_ok :: "hash_env \<Rightarrow> hash_request \<Rightarrow> bool" where
  "fresh_ok he r = (hr_hashes r = [] \<and> features_ok (hr_mm r) \<and> embeds_remembered (he_digest he) r)"

lemma hash_loop_step:
  assumes "\<not> length (hr_tokens r) < s + n" and "generate_block_hash_extra_keys (he_digest he) (int s) (int (s + n)) i r = (r1, ok (extra, j))"
    and "hash_block_tokens (he_hash he) (he_none he) prev (take n (drop s (hr_tokens r1))) extra = h"
  shows "hash_loop he n s i prev acc r = hash_loop he n (s + n) j (Some h) (acc @ [h]) r1"
  using assms by (subst hash_loop.simps) (simp del: of_nat_add)

lemma hash_loop_prefix_hash:
  assumes "0 < n"
  shows "m = length (hr_tokens r) div n - k \<Longrightarrow> k \<le> length (hr_tokens r) div n \<Longrightarrow> features_ok (hr_mm r) \<Longrightarrow> passed (hr_mm r) (int (k * n)) i
    \<Longrightarrow> embeds_remembered (he_digest he) r
    \<Longrightarrow> \<exists>c. hash_loop he n (k * n) i (if k = 0 then None else Some (prefix_hash he n r (k - 1))) acc r
      = Some (r\<lparr>hr_embed_cache := c\<rparr>, ok (acc @ map (prefix_hash he n r) [k..<length (hr_tokens r) div n]))"
proof (induction m arbitrary: k i acc r)
  case 0
  then have k: "k = length (hr_tokens r) div n" by simp
  have "length (hr_tokens r) < k * n + n" unfolding k using dividend_less_div_times [OF assms, of "length (hr_tokens r)"] by (simp add: add.commute)
  then have "hash_loop he n (k * n) i (if k = 0 then None else Some (prefix_hash he n r (k - 1))) acc r = Some (r\<lparr>hr_embed_cache := hr_embed_cache r\<rparr>, ok acc)"
    by (subst hash_loop.simps) simp
  then show ?case using k by (intro exI [of _ "hr_embed_cache r"]) simp
next
  case (Suc m)
  have k: "k < length (hr_tokens r) div n" using Suc.prems(1) by simp
  then have "(k + 1) * n \<le> length (hr_tokens r)" by (metis Suc_eq_plus1 Suc_leI div_times_less_eq_dividend le_trans mult_le_mono1)
  then have len: "\<not> length (hr_tokens r) < k * n + n" by (simp add: algebra_simps)
  have se: "int (k * n) < int (k * n + n)" using assms by simp
  obtain c j where g: "generate_block_hash_extra_keys (he_digest he) (int (k * n)) (int (k * n + n)) i r = (r\<lparr>hr_embed_cache := c\<rparr>, ok (key_tuple (nth_keys he n r k), j))"
      "passed (hr_mm r) (int (k * n + n)) j" "embeds_remembered (he_digest he) (r\<lparr>hr_embed_cache := c\<rparr>)"
    using extra_keys_complete [OF Suc.prems(3,4) se Suc.prems(5)] unfolding nth_keys_def .
  let ?r = "r\<lparr>hr_embed_cache := c\<rparr>" and ?h = "prefix_hash he n r k"
  have h: "hash_block_tokens (he_hash he) (he_none he) (if k = 0 then None else Some (prefix_hash he n r (k - 1)))
      (take n (drop (k * n) (hr_tokens ?r))) (key_tuple (nth_keys he n r k)) = ?h"
    by (cases k) (simp_all add: block_tokens_def)
  note step = hash_loop_step [OF len g(1) h]
  have "\<exists>c'. hash_loop he n (Suc k * n) j (if Suc k = 0 then None else Some (prefix_hash he n ?r (Suc k - 1))) (acc @ [?h]) ?r
      = Some (?r\<lparr>hr_embed_cache := c'\<rparr>, ok ((acc @ [?h]) @ map (prefix_hash he n ?r) [Suc k..<length (hr_tokens ?r) div n]))"
    using Suc.prems(1,3) k g(2,3) by (intro Suc.IH) (simp_all add: algebra_simps)
  then obtain c' where "hash_loop he n (k * n + n) j (Some ?h) (acc @ [?h]) ?r
      = Some (r\<lparr>hr_embed_cache := c'\<rparr>, ok (acc @ ?h # map (prefix_hash he n r) [Suc k..<length (hr_tokens r) div n]))"
    by (auto simp: add.commute)
  then show ?case unfolding step using k by (auto simp: upt_conv_Cons)
qed

lemma fresh_hashes:
  assumes "0 < n" and "fresh_ok he r"
  obtains c where "request_block_hasher he n r = Some (r\<lparr>hr_embed_cache := c\<rparr>, ok (map (prefix_hash he n r) [0..<length (hr_tokens r) div n]))"
proof (cases "length (hr_tokens r) < n")
  case True
  then show thesis using that [of "hr_embed_cache r"] assms by (simp add: request_block_hasher_def fresh_ok_def)
next
  case False
  have "passed (hr_mm r) (int (0 * n)) 0" by (simp add: passed_def)
  then show thesis using that hash_loop_prefix_hash [OF assms(1), of "length (hr_tokens r) div n" r 0 0 he "[]"] assms(2) False
    by (auto simp: request_block_hasher_def fresh_ok_def)
qed

section \<open>Hashes identify prefixes\<close>

text \<open>Everything hashed for a request; a hash that is not empty and has no collisions on it.\<close>

definition hash_inputs :: "hash_env \<Rightarrow> nat \<Rightarrow> hash_request \<Rightarrow> hinput list" where
  "hash_inputs he n r = map (\<lambda>k. HBlock (case k of 0 \<Rightarrow> he_none he | Suc j \<Rightarrow> prefix_hash he n r j) (block_tokens n r k) (key_tuple (nth_keys he n r k))) [0..<length (hr_tokens r) div n]"

definition collision_free :: "hash_env \<Rightarrow> string \<Rightarrow> hinput list \<Rightarrow> bool" where
  "collision_free he seed xs = (he_none he = he_hash he (HSeed seed) \<and> list_all (\<lambda>x. he_hash he x \<noteq> []) (HSeed seed # xs)
     \<and> list_all (\<lambda>x. list_all (\<lambda>y. he_hash he x = he_hash he y \<longrightarrow> x = y) (HSeed seed # xs)) (HSeed seed # xs))"

lemma prefix_hash_input:
  assumes "collision_free he seed (hash_inputs he n r @ ys)" and "k < length (hr_tokens r) div n"
  shows "prefix_hash he n r k = he_hash he (hash_inputs he n r ! k)" and "prefix_hash he n r k \<noteq> []"
proof -
  have ne: "he_hash he x \<noteq> []" if "x \<in> set (HSeed seed # hash_inputs he n r)" for x using that assms(1) by (auto simp: collision_free_def list_all_iff)
  have none: "he_none he \<noteq> []" using ne [of "HSeed seed"] assms(1) by (simp add: collision_free_def)
  have inp: "hash_inputs he n r ! j \<in> set (HSeed seed # hash_inputs he n r)" if "j < length (hr_tokens r) div n" for j
    using that by (simp add: hash_inputs_def)
  have eq: "prefix_hash he n r k = he_hash he (hash_inputs he n r ! k)" using assms(2)
  proof (induction k)
    case 0
    then show ?case by (simp add: hash_inputs_def hash_block_tokens_def)
  next
    case (Suc k)
    then have "prefix_hash he n r k \<noteq> []" using ne inp [of k] by simp
    then show ?case using Suc.prems by (simp add: hash_inputs_def hash_block_tokens_def)
  qed
  show "prefix_hash he n r k = he_hash he (hash_inputs he n r ! k)" by (rule eq)
  show "prefix_hash he n r k \<noteq> []" using eq ne inp [OF assms(2)] by simp
qed

definition same_block :: "hash_env \<Rightarrow> nat \<Rightarrow> hash_request \<Rightarrow> hash_request \<Rightarrow> nat \<Rightarrow> bool" where
  "same_block he n r1 r2 k = (block_tokens n r1 k = block_tokens n r2 k \<and> nth_keys he n r1 k = nth_keys he n r2 k)"

lemma prefix_hash_same: "(\<forall>k \<le> i. same_block he n r1 r2 k) \<Longrightarrow> prefix_hash he n r1 i = prefix_hash he n r2 i"
  by (induction i) (simp_all add: same_block_def)

lemma collision_free_swap: "collision_free he seed (xs @ ys) \<Longrightarrow> collision_free he seed (ys @ xs)"
  by (auto simp: collision_free_def list_all_iff)

lemma prefix_hash_identifies:
  assumes cf: "collision_free he seed (hash_inputs he n r1 @ hash_inputs he n r2)"
  shows "i < length (hr_tokens r1) div n \<Longrightarrow> j < length (hr_tokens r2) div n \<Longrightarrow> prefix_hash he n r1 i = prefix_hash he n r2 j
     \<Longrightarrow> i = j \<and> (\<forall>k \<le> i. same_block he n r1 r2 k)"
proof (induction i arbitrary: j)
  note h1 = prefix_hash_input [OF cf] and h2 = prefix_hash_input [OF collision_free_swap [OF cf]]
  have inj: "x = y" if "he_hash he x = he_hash he y" "x \<in> set (HSeed seed # hash_inputs he n r1 @ hash_inputs he n r2)"
      "y \<in> set (HSeed seed # hash_inputs he n r1 @ hash_inputs he n r2)" for x y
    using that cf by (auto simp: collision_free_def list_all_iff)
  have seed: "he_none he = he_hash he (HSeed seed)" using cf by (simp add: collision_free_def)
  have not_seed: "HSeed seed \<noteq> hash_inputs he n r1 ! k" "k < length (hr_tokens r1) div n \<Longrightarrow> hash_inputs he n r1 ! k \<in> set (hash_inputs he n r1)"
      if "k < length (hr_tokens r1) div n" for k using that by (simp_all add: hash_inputs_def)
  have not_seed2: "HSeed seed \<noteq> hash_inputs he n r2 ! k" "hash_inputs he n r2 ! k \<in> set (hash_inputs he n r2)"
      if "k < length (hr_tokens r2) div n" for k using that by (simp_all add: hash_inputs_def)
  {
    case (0 j)
    have eq: "hash_inputs he n r1 ! 0 = hash_inputs he n r2 ! j"
      using 0 h1(1) [OF 0(1)] h2(1) [OF 0(2)] not_seed(2) [OF 0(1) 0(1)] not_seed2(2) [OF 0(2)] by (intro inj) simp_all
    show ?case
    proof (cases j)
      case 0
      then show ?thesis using eq \<open>0 < length (hr_tokens r1) div n\<close> \<open>j < length (hr_tokens r2) div n\<close> by (simp add: hash_inputs_def same_block_def)
    next
      case (Suc j')
      then have "he_none he = prefix_hash he n r2 j'" using eq 0 by (simp add: hash_inputs_def)
      then have "he_hash he (HSeed seed) = he_hash he (hash_inputs he n r2 ! j')" using h2(1) [of j'] Suc 0 seed by simp
      then have "HSeed seed = hash_inputs he n r2 ! j'" using not_seed2(2) [of j'] Suc 0 by (intro inj) simp_all
      then show ?thesis using not_seed2(1) [of j'] Suc 0 by simp
    qed
  next
    case (Suc i j)
    have eq: "hash_inputs he n r1 ! Suc i = hash_inputs he n r2 ! j"
      using Suc.prems h1(1) [OF Suc.prems(1)] h2(1) [OF Suc.prems(2)] not_seed(2) [OF Suc.prems(1) Suc.prems(1)] not_seed2(2) [OF Suc.prems(2)] by (intro inj) simp_all
    have i: "i < length (hr_tokens r1) div n" using Suc.prems(1) by simp
    show ?case
    proof (cases j)
      case 0
      then have "prefix_hash he n r1 i = he_none he" using eq Suc.prems by (simp add: hash_inputs_def)
      then have "he_hash he (hash_inputs he n r1 ! i) = he_hash he (HSeed seed)" using h1(1) [OF i] seed by simp
      then have "hash_inputs he n r1 ! i = HSeed seed" using not_seed(2) [OF i i] by (intro inj) simp_all
      then show ?thesis using not_seed(1) [OF i] by simp
    next
      case (Suc j')
      then have b: "prefix_hash he n r1 i = prefix_hash he n r2 j'" "same_block he n r1 r2 (Suc i) \<or> j' \<noteq> i"
        using eq Suc.prems \<open>j < length (hr_tokens r2) div n\<close> by (auto simp: hash_inputs_def same_block_def)
      have "i = j' \<and> (\<forall>k \<le> i. same_block he n r1 r2 k)" using Suc.IH [OF i _ b(1)] Suc \<open>j < length (hr_tokens r2) div n\<close> by simp
      then show ?thesis using b Suc by (auto simp: le_Suc_eq)
    qed
  }
qed

text \<open>Equal blocks up to a boundary are equal tokens up to it.\<close>

lemma blocks_are_prefix:
  assumes "0 < n"
  shows "Suc i * n \<le> length (hr_tokens r1) \<Longrightarrow> Suc i * n \<le> length (hr_tokens r2)
    \<Longrightarrow> (\<forall>k \<le> i. block_tokens n r1 k = block_tokens n r2 k) \<longleftrightarrow> take (Suc i * n) (hr_tokens r1) = take (Suc i * n) (hr_tokens r2)"
proof (induction i)
  case 0
  then show ?case by (simp add: block_tokens_def)
next
  case (Suc i)
  have t: "take (Suc (Suc i) * n) (hr_tokens r) = take (Suc i * n) (hr_tokens r) @ block_tokens n r (Suc i)" for r
    using take_add [of "Suc i * n" n "hr_tokens r"] by (simp add: block_tokens_def algebra_simps)
  have "(\<forall>k \<le> Suc i. block_tokens n r1 k = block_tokens n r2 k)
      \<longleftrightarrow> take (Suc i * n) (hr_tokens r1) = take (Suc i * n) (hr_tokens r2) \<and> block_tokens n r1 (Suc i) = block_tokens n r2 (Suc i)"
    using Suc by (auto simp: le_Suc_eq)
  also have "\<dots> \<longleftrightarrow> take (Suc (Suc i) * n) (hr_tokens r1) = take (Suc (Suc i) * n) (hr_tokens r2)"
    unfolding t using Suc.prems by (subst append_eq_append_conv) (auto simp: algebra_simps)
  finally show ?case .
qed

text \<open>The coarser view: entry \<open>i\<close> is the hash of the prefix that ends with the coarse block \<open>i\<close>.\<close>

lemma py_index_nat: "m < length xs \<Longrightarrow> py_index xs (int m) = ok (xs ! m)"
  by (simp add: py_index_def)

lemma hash_view_entry:
  assumes "hash_view_init hs (int n) (int (f * n)) = ok v" and "0 < n" and "0 < f" and "i < length hs div f"
  shows "get_value_at v (int i) = ok (hs ! (Suc i * f - 1))" and "hash_view_len v = int (length hs div f)"
proof -
  have v: "v = \<lparr>hv_hashes = hs, hv_scale = int f\<rparr>" using assms(1,2) by (auto simp: hash_view_init_def split: if_splits)
  have "Suc i * f \<le> length hs" using assms(4) by (metis Suc_leI div_times_less_eq_dividend le_trans mult_le_mono1)
  moreover have pos: "0 < Suc i * f" using assms(3) by simp
  ultimately have "Suc i * f - 1 < length hs" by linarith
  moreover have "(int i + 1) * int f - 1 = int (Suc i * f - 1)"
  proof -
    have "int (Suc i * f) = (int i + 1) * int f" by (simp add: algebra_simps)
    then show ?thesis using pos by linarith
  qed
  moreover have "get_value_at v (int i) = py_index hs ((int i + 1) * int f - 1)" by (simp add: v get_value_at_def)
  ultimately show "get_value_at v (int i) = ok (hs ! (Suc i * f - 1))" using py_index_nat by metis
  show "hash_view_len v = int (length hs div f)" by (simp add: v hash_view_len_def zdiv_int)
qed

section \<open>Where extra keys are lost\<close>

text \<open>
  Hashing that is resumed after the first call starts with the last input only. When the open block of
  the prompt holds two inputs, the first one is missing from the block's keys: requests that differ
  in it get the same hash, although a fresh hashing of the same tokens tells them apart.
\<close>

definition two_inputs :: "string \<Rightarrow> hash_request" where
  "two_inputs ident = \<lparr>hr_tokens = [1, 2, 3, 4, 5, 6, 7, 8], hr_hashes = [[1]],
     hr_mm = [\<lparr>mm_id = Some ident, mm_off = 4, mm_len = 1\<rparr>, \<lparr>mm_id = Some ''last'', mm_off = 5, mm_len = 1\<rparr>],
     hr_lora = None, hr_salt = None, hr_embeds = None, hr_embed_cache = []\<rparr>"

lemma resumed_hash_misses_input:
  "request_block_hasher he 4 (two_inputs a) = Some (two_inputs a, ok [he_hash he (HBlock [1] [5, 6, 7, 8] (Some [KMm ''last'' 1]))])"
  "nth_keys he 4 (two_inputs a) 1 = [KMm a 0, KMm ''last'' 1]"
proof -
  have "generate_block_hash_extra_keys (he_digest he) 4 8 (-1) (two_inputs a) = (two_inputs a, ok (Some [KMm ''last'' 1], 2))"
    by (simp add: generate_block_hash_extra_keys_def gen_mm_extra_hash_keys_def gen_prompt_embeds_extra_hash_keys_def gen_lora_extra_hash_keys_def salt_keys_def two_inputs_def)
  then show "request_block_hasher he 4 (two_inputs a) = Some (two_inputs a, ok [he_hash he (HBlock [1] [5, 6, 7, 8] (Some [KMm ''last'' 1]))])"
    by (simp add: request_block_hasher_def two_inputs_def hash_loop.simps hash_block_tokens_def)
  show "nth_keys he 4 (two_inputs a) 1 = [KMm a 0, KMm ''last'' 1]"
    by (simp add: nth_keys_def block_keys_def touching_def two_inputs_def gen_lora_extra_hash_keys_def salt_keys_def)
qed

text \<open>
  An adapter's name and a cache salt are both plain strings among the keys: a request of the adapter \<open>x\<close>
  and a request of the base model with the salt \<open>x\<close> get the same hash for their first block.
\<close>

lemma salt_confused_with_adapter:
  assumes "hr_lora r = None" and "hr_salt r = None" and "hr_mm r = []" and "x \<noteq> []"
  shows "prefix_hash he n (r\<lparr>hr_lora := Some x\<rparr>) 0 = prefix_hash he n (r\<lparr>hr_salt := Some x\<rparr>) 0"
  using assms by (simp add: block_tokens_def nth_keys_def block_keys_def gen_lora_extra_hash_keys_def salt_keys_def touching_def)

section \<open>The property\<close>

definition plain_env :: hash_env where
  "plain_env = \<lparr>he_hash = (\<lambda>x. case x of HSeed s \<Rightarrow> [0] | HBlock p ts ks \<Rightarrow> 1 # p @ map nat ts), he_none = [0], he_digest = (\<lambda>_. [])\<rparr>"

definition plain_request :: "int list \<Rightarrow> hash_request" where
  "plain_request ts = \<lparr>hr_tokens = ts, hr_hashes = [], hr_mm = [], hr_lora = None, hr_salt = None, hr_embeds = None, hr_embed_cache = []\<rparr>"

text \<open>
  C34: the hasher of a request ends for every positive block size and gives one hash per full block of the
  token list; and with a hash function that is not empty and has no collision on what is hashed for two
  freshly admitted requests, the hash of block \<open>i\<close> of one equals the hash of block \<open>j\<close> of the other exactly
  when \<open>i = j\<close>, the tokens up to the end of that block are the same, and so are all extra keys of
  the blocks up to it: adapter, the inputs that touch the block at their offsets, salt, and embedding digests.
\<close>

theorem block_hash_identifies_prefix:
  assumes "0 < n" and "fresh_ok he r1" and "fresh_ok he r2" and "collision_free he seed (hash_inputs he n r1 @ hash_inputs he n r2)"
  shows "\<exists>c1 hs1 c2 hs2. request_block_hasher he n r1 = Some (r1\<lparr>hr_embed_cache := c1\<rparr>, ok hs1) \<and> length hs1 = length (hr_tokens r1) div n
     \<and> request_block_hasher he n r2 = Some (r2\<lparr>hr_embed_cache := c2\<rparr>, ok hs2) \<and> length hs2 = length (hr_tokens r2) div n
     \<and> (\<forall>i j. i < length hs1 \<longrightarrow> j < length hs2 \<longrightarrow>
          (hs1 ! i = hs2 ! j) = (i = j \<and> take (Suc i * n) (hr_tokens r1) = take (Suc i * n) (hr_tokens r2) \<and> (\<forall>k \<le> i. nth_keys he n r1 k = nth_keys he n r2 k)))"
proof -
  obtain c1 where c1: "request_block_hasher he n r1 = Some (r1\<lparr>hr_embed_cache := c1\<rparr>, ok (map (prefix_hash he n r1) [0..<length (hr_tokens r1) div n]))"
    using fresh_hashes [OF assms(1,2)] .
  obtain c2 where c2: "request_block_hasher he n r2 = Some (r2\<lparr>hr_embed_cache := c2\<rparr>, ok (map (prefix_hash he n r2) [0..<length (hr_tokens r2) div n]))"
    using fresh_hashes [OF assms(1,3)] .
  have "(prefix_hash he n r1 i = prefix_hash he n r2 j)
      = (i = j \<and> take (Suc i * n) (hr_tokens r1) = take (Suc i * n) (hr_tokens r2) \<and> (\<forall>k \<le> i. nth_keys he n r1 k = nth_keys he n r2 k))"
    if i: "i < length (hr_tokens r1) div n" and j: "j < length (hr_tokens r2) div n" for i j
  proof -
    have full: "Suc i * n \<le> length (hr_tokens r)" if "i < length (hr_tokens r) div n" for r
      using that by (metis Suc_leI div_times_less_eq_dividend le_trans mult_le_mono1)
    have "(prefix_hash he n r1 i = prefix_hash he n r2 j) = (i = j \<and> (\<forall>k \<le> i. same_block he n r1 r2 k))"
      using prefix_hash_identifies [OF assms(4) i j] prefix_hash_same by blast
    also have "\<dots> = (i = j \<and> (\<forall>k \<le> i. block_tokens n r1 k = block_tokens n r2 k) \<and> (\<forall>k \<le> i. nth_keys he n r1 k = nth_keys he n r2 k))"
      by (auto simp: same_block_def)
    also have "\<dots> = (i = j \<and> take (Suc i * n) (hr_tokens r1) = take (Suc i * n) (hr_tokens r2) \<and> (\<forall>k \<le> i. nth_keys he n r1 k = nth_keys he n r2 k))"
      using blocks_are_prefix [OF assms(1) full [OF i], of r2] full [of r2] i j by metis
    finally show ?thesis .
  qed
  then show ?thesis
    by (intro exI [of _ c1] exI [of _ "map (prefix_hash he n r1) [0..<length (hr_tokens r1) div n]"] exI [of _ c2]
        exI [of _ "map (prefix_hash he n r2) [0..<length (hr_tokens r2) div n]"] conjI c1 c2 allI impI) simp_all
qed

lemma block_hash_identifies_prefix_witness:
  "map (prefix_hash plain_env 2 (plain_request [1, 2, 3, 4, 5])) [0, 1] = [[1, 0, 1, 2], [1, 1, 0, 1, 2, 3, 4]]
   \<and> prefix_hash plain_env 2 (plain_request [1, 2, 9, 9]) 0 = [1, 0, 1, 2] \<and> prefix_hash plain_env 2 (plain_request [1, 2, 9, 9]) 1 = [1, 1, 0, 1, 2, 9, 9]
   \<and> (\<exists>c hs. request_block_hasher plain_env 2 (plain_request [1, 2, 3, 4, 5]) = Some ((plain_request [1, 2, 3, 4, 5])\<lparr>hr_embed_cache := c\<rparr>, ok hs) \<and> length hs = 2)"
proof -
  have "fresh_ok plain_env (plain_request ts)" for ts
    by (simp add: fresh_ok_def plain_request_def features_ok_def embeds_remembered_def)
  moreover have "collision_free plain_env [] (hash_inputs plain_env 2 (plain_request [1, 2, 3, 4, 5]) @ hash_inputs plain_env 2 (plain_request [1, 2, 9, 9]))"
    by code_simp
  moreover have "map (prefix_hash plain_env 2 (plain_request [1, 2, 3, 4, 5])) [0, 1] = [[1, 0, 1, 2], [1, 1, 0, 1, 2, 3, 4]]" by code_simp
  moreover have "prefix_hash plain_env 2 (plain_request [1, 2, 9, 9]) 0 = [1, 0, 1, 2] \<and> prefix_hash plain_env 2 (plain_request [1, 2, 9, 9]) 1 = [1, 1, 0, 1, 2, 9, 9]" by code_simp
  moreover have "length (hr_tokens (plain_request [1, 2, 3, 4, 5])) div 2 = 2" by (simp add: plain_request_def)
  ultimately show ?thesis
    using block_hash_identifies_prefix [of 2 plain_env "plain_request [1, 2, 3, 4, 5]" "plain_request [1, 2, 9, 9]" "[]"] by auto
qed

end
