(* ===== verification/Kv_Spec.thy ===== *)
theory Kv_Spec
  imports Prelude Complex_Main
begin

text \<open>
  KV cache specifications and their memory (\<^verbatim>\<open>vllm/v1/kv_cache_interface.py\<close>, and the sizing functions of
  \<^verbatim>\<open>vllm/v1/core/kv_cache_utils.py\<close>): bytes of a page and of a request for every kind of layer, merging of specifications and groups of layers of one type.
  The number of bytes of an element type and the registry of uniform types are the engine's and parameters.
\<close>

section \<open>Quantisation modes\<close>

datatype quant_mode = QNone | FP8_PER_TENSOR | INT8_PER_TOKEN_HEAD | FP8_PER_TOKEN_HEAD | INT4_PER_TOKEN_HEAD | NVFP4
  | TURBOQUANT_K8V4 | TURBOQUANT_4BIT_NC | TURBOQUANT_K3V4_NC | TURBOQUANT_3BIT_NC

fun is_per_token_head :: "quant_mode \<Rightarrow> bool" where
  "is_per_token_head INT8_PER_TOKEN_HEAD = True" | "is_per_token_head FP8_PER_TOKEN_HEAD = True" | "is_per_token_head INT4_PER_TOKEN_HEAD = True"
| "is_per_token_head _ = False"

text \<open>The member named by the upper-cased string.\<close>

definition turboquant_mode :: "(string \<Rightarrow> string) \<Rightarrow> string \<Rightarrow> quant_mode res" where
  "turboquant_mode upper d =
     (if upper d = ''TURBOQUANT_K8V4'' then ok TURBOQUANT_K8V4 else if upper d = ''TURBOQUANT_4BIT_NC'' then ok TURBOQUANT_4BIT_NC
      else if upper d = ''TURBOQUANT_K3V4_NC'' then ok TURBOQUANT_K3V4_NC else if upper d = ''TURBOQUANT_3BIT_NC'' then ok TURBOQUANT_3BIT_NC
      else err KeyError)"

definition get_kv_quant_mode :: "(string \<Rightarrow> string) \<Rightarrow> string \<Rightarrow> quant_mode res" where
  "get_kv_quant_mode upper d =
     (if d = ''int4_per_token_head'' then ok INT4_PER_TOKEN_HEAD
      else if d = ''int8_per_token_head'' then ok INT8_PER_TOKEN_HEAD
      else if d = ''fp8_per_token_head'' then ok FP8_PER_TOKEN_HEAD
      else if take 5 d = ''nvfp4'' then ok NVFP4
      else if take 11 d = ''turboquant_'' then turboquant_mode upper d
      else if take 3 d = ''fp8'' then ok FP8_PER_TENSOR
      else ok QNone)"

definition is_quantized_kv_cache :: "(string \<Rightarrow> string) \<Rightarrow> string \<Rightarrow> bool res" where
  "is_quantized_kv_cache upper d = rbind (get_kv_quant_mode upper d) (\<lambda>q. ok (q \<noteq> QNone))"

definition kv_cache_uses_per_token_head_scales :: "(string \<Rightarrow> string) \<Rightarrow> string \<Rightarrow> bool res" where
  "kv_cache_uses_per_token_head_scales upper d = rbind (get_kv_quant_mode upper d) (\<lambda>q. ok (is_per_token_head q))"

section \<open>Layer specifications\<close>

text \<open>The fields of every attention layer. The tokens per stored state are an integer or a fraction below one, here a rational.\<close>

record attn =
  at_block :: int
  at_heads :: int
  at_head_size :: int
  at_head_size_v :: int
  at_dtype :: string
  at_quant :: quant_mode
  at_padded :: "int option"
  at_head_slots :: "int option"
  at_content :: "int option"
  at_tokens_per_state :: rat

record mamba =
  mb_block :: int
  mb_shapes :: "int list list"
  mb_dtypes :: "string list"
  mb_padded :: "int option"
  mb_mode :: string
  mb_spec_blocks :: int
  mb_checkpoint_blocks :: int
  mb_heads :: int
  mb_tokens_per_state :: int
  mb_replicated :: bool

text \<open>The classes of layers, each with the fields it adds.\<close>

record full_fields =
  ff_window :: "int option"
  ff_chunk :: "int option"
  ff_non_causal :: bool

record mla_fields =
  ml_cache_dtype :: "string option"
  ml_alignment :: "int option"
  ml_version :: "string option"

datatype layer_spec =
    FullAttn attn full_fields
  | MLA attn full_fields mla_fields bool
  | HiddenState attn full_fields mla_fields bool
  | RSWA attn full_fields int
  | SinkFull attn full_fields "int option"
  | ChunkedLocal attn int
  | Sliding attn int int
  | SlidingMLA attn int int mla_fields
  | Circular attn
  | EncoderOnly attn
  | CrossAttn attn
  | Mamba mamba

datatype cache_spec = Layer layer_spec | Uniform int "(string, layer_spec) odict"

text \<open>What is read of the engine's configuration.\<close>

record kv_config =
  kc_max_len :: int
  kc_dcp :: int
  kc_in_flight :: int
  kc_mamba_mode :: string
  kc_encoder_tokens :: int
  kc_block_size :: int
  kc_prefix_caching :: bool
  kc_connector :: bool
  kc_prefix_unit :: "int option"
  kc_blocks_override :: "int option"

fun attn_of :: "layer_spec \<Rightarrow> attn option" where
  "attn_of (FullAttn a _) = Some a" | "attn_of (MLA a _ _ _) = Some a" | "attn_of (HiddenState a _ _ _) = Some a"
| "attn_of (RSWA a _ _) = Some a" | "attn_of (SinkFull a _ _) = Some a" | "attn_of (ChunkedLocal a _) = Some a"
| "attn_of (Sliding a _ _) = Some a" | "attn_of (SlidingMLA a _ _ _) = Some a" | "attn_of (Circular a) = Some a"
| "attn_of (EncoderOnly a) = Some a" | "attn_of (CrossAttn a) = Some a" | "attn_of (Mamba _) = None"

text \<open>The tests \<^verbatim>\<open>isinstance(spec, C)\<close>, subclasses included.\<close>

fun is_full :: "layer_spec \<Rightarrow> bool" where
  "is_full (FullAttn _ _) = True" | "is_full (MLA _ _ _ _) = True" | "is_full (HiddenState _ _ _ _) = True"
| "is_full (RSWA _ _ _) = True" | "is_full (SinkFull _ _ _) = True" | "is_full _ = False"

fun is_mla :: "layer_spec \<Rightarrow> bool" where
  "is_mla (MLA _ _ _ _) = True" | "is_mla (HiddenState _ _ _ _) = True" | "is_mla _ = False"

fun is_mamba :: "layer_spec \<Rightarrow> bool" where
  "is_mamba (Mamba _) = True" | "is_mamba _ = False"

fun window_of :: "layer_spec \<Rightarrow> int option" where
  "window_of (Sliding _ w _) = Some w" | "window_of (SlidingMLA _ w _ _) = Some w" | "window_of _ = None"

fun block_size :: "layer_spec \<Rightarrow> int" where
  "block_size (Mamba m) = mb_block m"
| "block_size s = at_block (the (attn_of s))"

fun prefix_cacheable :: "layer_spec \<Rightarrow> bool" where
  "prefix_cacheable (Circular _) = False"
| "prefix_cacheable _ = True"

definition cdiv :: "int \<Rightarrow> int \<Rightarrow> int" where
  "cdiv a b = - ((- a) div b)"

definition cdiv_res :: "int \<Rightarrow> int \<Rightarrow> int res" where
  "cdiv_res a b = (if b = 0 then err ZeroDivisionError else ok (cdiv a b))"

text \<open>\<^verbatim>\<open>round_up\<close> of the engine: the next multiple.\<close>

definition round_up_to :: "int \<Rightarrow> int \<Rightarrow> int" where
  "round_up_to x y = ((x + y - 1) div y) * y"

section \<open>Bytes\<close>

definition num_heads :: "attn \<Rightarrow> int" where
  "num_heads a = (case at_head_slots a of Some n \<Rightarrow> n | None \<Rightarrow> at_heads a)"

definition state_content_size_bytes :: "(string \<Rightarrow> int) \<Rightarrow> attn \<Rightarrow> int" where
  "state_content_size_bytes esz a = (case at_content a of Some n \<Rightarrow> n | None \<Rightarrow> (at_head_size a + at_head_size_v a) * esz (at_dtype a))"

text \<open>\<^verbatim>\<open>get_num_kernel_states\<close>: floor division by an integer or a fraction.\<close>

definition num_states :: "int \<Rightarrow> rat \<Rightarrow> int" where
  "num_states n tps = (if 0 < tps then \<lfloor>of_int n / tps\<rfloor> else 1)"

definition unpadded_page_size_bytes :: "(string \<Rightarrow> int) \<Rightarrow> attn \<Rightarrow> int" where
  "unpadded_page_size_bytes esz a = num_heads a * num_states (at_block a) (at_tokens_per_state a) * state_content_size_bytes esz a"

definition padded_page :: "int option \<Rightarrow> int \<Rightarrow> int res" where
  "padded_page pad n = (case pad of None \<Rightarrow> ok n | Some p \<Rightarrow> if n \<le> p then ok p else err AssertionError)"

definition mamba_content :: "(string \<Rightarrow> int) \<Rightarrow> mamba \<Rightarrow> int" where
  "mamba_content esz m = sum_list (map (\<lambda>(shape, d). prod_list shape * esz d) (zip (mb_shapes m) (mb_dtypes m)))"

fun page_size_bytes :: "(string \<Rightarrow> int) \<Rightarrow> layer_spec \<Rightarrow> int res" where
  "page_size_bytes esz (Mamba m) = padded_page (mb_padded m) (mamba_content esz m)"
| "page_size_bytes esz s = (let a = the (attn_of s) in padded_page (at_padded a) (unpadded_page_size_bytes esz a))"

text \<open>Construction of the multi-head latent specifications: no separate values, and a page padded to the alignment.\<close>

definition apply_alignment_padding :: "(string \<Rightarrow> int) \<Rightarrow> int option \<Rightarrow> attn \<Rightarrow> attn" where
  "apply_alignment_padding esz alignment a =
     (case alignment of
        None \<Rightarrow> a
      | Some k \<Rightarrow> let actual = unpadded_page_size_bytes esz a; padded = round_up_to actual k in
          if padded \<noteq> actual then a\<lparr>at_padded := Some padded\<rparr> else a)"

text \<open>\<^verbatim>\<open>dataclasses.replace\<close> with changed attention fields runs the constructor again.\<close>

fun with_attn :: "(string \<Rightarrow> int) \<Rightarrow> (attn \<Rightarrow> attn) \<Rightarrow> layer_spec \<Rightarrow> layer_spec" where
  "with_attn esz f (FullAttn a ff) = FullAttn (f a) ff"
| "with_attn esz f (MLA a ff ml b) = MLA (apply_alignment_padding esz (ml_alignment ml) (f a)) ff ml b"
| "with_attn esz f (HiddenState a ff ml b) = HiddenState (apply_alignment_padding esz (ml_alignment ml) (f a)) ff ml b"
| "with_attn esz f (RSWA a ff w) = RSWA (f a) ff w"
| "with_attn esz f (SinkFull a ff n) = SinkFull (f a) ff n"
| "with_attn esz f (ChunkedLocal a k) = ChunkedLocal (f a) k"
| "with_attn esz f (Sliding a w x) = Sliding (f a) w x"
| "with_attn esz f (SlidingMLA a w x ml) = SlidingMLA (apply_alignment_padding esz (ml_alignment ml) (f a)) w x ml"
| "with_attn esz f (Circular a) = Circular (f a)"
| "with_attn esz f (EncoderOnly a) = EncoderOnly (f a)"
| "with_attn esz f (CrossAttn a) = CrossAttn (f a)"
| "with_attn esz f (Mamba m) = Mamba m"

definition copy_with_new_block_size :: "(string \<Rightarrow> int) \<Rightarrow> int \<Rightarrow> layer_spec \<Rightarrow> layer_spec" where
  "copy_with_new_block_size esz b s = (case s of Mamba m \<Rightarrow> Mamba (m\<lparr>mb_block := b\<rparr>) | _ \<Rightarrow> with_attn esz (\<lambda>a. a\<lparr>at_block := b\<rparr>) s)"

definition new_mla :: "(string \<Rightarrow> int) \<Rightarrow> attn \<Rightarrow> full_fields \<Rightarrow> mla_fields \<Rightarrow> bool \<Rightarrow> layer_spec" where
  "new_mla esz a ff ml b = MLA (apply_alignment_padding esz (ml_alignment ml) a) ff ml b"

definition new_sliding_mla :: "(string \<Rightarrow> int) \<Rightarrow> attn \<Rightarrow> int \<Rightarrow> int \<Rightarrow> mla_fields \<Rightarrow> layer_spec res" where
  "new_sliding_mla esz a w x ml =
     (if ml_version ml = None \<or> ml_version ml = Some ''deepseek_v4'' then ok (SlidingMLA (apply_alignment_padding esz (ml_alignment ml) a) w x ml)
      else err AssertionError)"

text \<open>Blocks a recycling layer may hold for one request.\<close>

definition chunked_admission_blocks :: "int \<Rightarrow> int \<Rightarrow> int \<Rightarrow> int \<Rightarrow> int res" where
  "chunked_admission_blocks chunk block in_flight max_len = cdiv_res (min (chunk + in_flight) max_len) block"

definition sliding_admission_blocks :: "int \<Rightarrow> int \<Rightarrow> int \<Rightarrow> int \<Rightarrow> int \<Rightarrow> int res" where
  "sliding_admission_blocks window extra block in_flight max_len =
     rbind (cdiv_res (min (window - 1 + extra + in_flight) max_len) block) (\<lambda>n. ok (n + 1))"

text \<open>The number of pages one request may need, and its bytes.\<close>

fun max_pages :: "kv_config \<Rightarrow> layer_spec \<Rightarrow> int res" where
  "max_pages c (ChunkedLocal a chunk) = chunked_admission_blocks chunk (at_block a) (kc_in_flight c) (kc_max_len c)"
| "max_pages c (Sliding a w x) = sliding_admission_blocks w x (at_block a) (kc_in_flight c) (kc_max_len c)"
| "max_pages c (SlidingMLA a w x _) = sliding_admission_blocks w x (at_block a) (kc_in_flight c) (kc_max_len c)"
| "max_pages c (Circular a) = ok 1"
| "max_pages c (EncoderOnly a) = ok 0"
| "max_pages c (CrossAttn a) = cdiv_res (kc_encoder_tokens c) (at_block a)"
| "max_pages c (Mamba m) =
     (if kc_mamba_mode c = ''all'' then rbind (cdiv_res (kc_max_len c) (mb_block m)) (\<lambda>n. ok (n + mb_spec_blocks m))
      else if kc_mamba_mode c = ''align'' then ok (2 + mb_spec_blocks m + mb_checkpoint_blocks m)
      else ok (1 + mb_spec_blocks m))"
| "max_pages c s = cdiv_res (if 1 < kc_dcp c then cdiv (kc_max_len c) (kc_dcp c) else kc_max_len c) (at_block (the (attn_of s)))"

definition layer_memory :: "(string \<Rightarrow> int) \<Rightarrow> kv_config \<Rightarrow> layer_spec \<Rightarrow> int res" where
  "layer_memory esz c s =
     (case s of EncoderOnly _ \<Rightarrow> ok 0 | _ \<Rightarrow> rbind (max_pages c s) (\<lambda>n. rbind (page_size_bytes esz s) (\<lambda>p. ok (n * p))))"

text \<open>Rows of the block table.\<close>

fun max_num_blocks_per_req :: "(string \<Rightarrow> int) \<Rightarrow> kv_config \<Rightarrow> int \<Rightarrow> layer_spec \<Rightarrow> int res" where
  "max_num_blocks_per_req esz c n (Sliding a _ _) = cdiv_res n (at_block a)"
| "max_num_blocks_per_req esz c n (SlidingMLA a _ _ _) = cdiv_res n (at_block a)"
| "max_num_blocks_per_req esz c n (Circular a) = ok 1"
| "max_num_blocks_per_req esz c n (Mamba m) =
     (if kc_mamba_mode c = ''align'' then rbind (cdiv_res n (mb_block m)) (\<lambda>k. ok (k + mb_spec_blocks m))
      else rbind (layer_memory esz c (Mamba m)) (\<lambda>b. rbind (page_size_bytes esz (Mamba m)) (cdiv_res b)))"
| "max_num_blocks_per_req esz c n s = cdiv_res n (at_block (the (attn_of s)) * kc_dcp c)"

section \<open>Groups of layers\<close>

text \<open>Sums and maxima over fallible values; a maximum of nothing is a \<^verbatim>\<open>ValueError\<close>.\<close>

definition sum_res :: "int res list \<Rightarrow> int res" where
  "sum_res xs = fold_res (\<lambda>x acc. rbind x (\<lambda>v. ok (acc + v))) xs 0"

fun max_res :: "int res list \<Rightarrow> int res" where
  "max_res [] = err ValueError"
| "max_res [x] = x"
| "max_res (x # xs) = rbind x (\<lambda>v. rbind (max_res xs) (\<lambda>w. ok (max v w)))"

definition pages_of :: "(string \<Rightarrow> int) \<Rightarrow> kv_config \<Rightarrow> layer_spec \<Rightarrow> int res" where
  "pages_of esz c s = rbind (layer_memory esz c s) (\<lambda>b. rbind (page_size_bytes esz s) (cdiv_res b))"

fun group_page_size :: "(string \<Rightarrow> int) \<Rightarrow> cache_spec \<Rightarrow> int res" where
  "group_page_size esz (Layer s) = page_size_bytes esz s"
| "group_page_size esz (Uniform b specs) = sum_res (map (page_size_bytes esz \<circ> snd) specs)"

definition max_memory_usage_pages :: "(string \<Rightarrow> int) \<Rightarrow> kv_config \<Rightarrow> (string, layer_spec) odict \<Rightarrow> int res" where
  "max_memory_usage_pages esz c specs = max_res (map (pages_of esz c \<circ> snd) specs)"

fun group_memory :: "(string \<Rightarrow> int) \<Rightarrow> kv_config \<Rightarrow> cache_spec \<Rightarrow> int res" where
  "group_memory esz c (Layer s) = layer_memory esz c s"
| "group_memory esz c (Uniform b specs) =
     rbind (max_memory_usage_pages esz c specs) (\<lambda>n. rbind (group_page_size esz (Uniform b specs)) (\<lambda>p. ok (n * p)))"

fun iter_layer_specs :: "cache_spec \<Rightarrow> layer_spec list" where
  "iter_layer_specs (Layer s) = [s]"
| "iter_layer_specs (Uniform b specs) = map snd specs"

definition is_full_attention_spec :: "cache_spec \<Rightarrow> bool" where
  "is_full_attention_spec g = (iter_layer_specs g \<noteq> [] \<and> list_all is_full (iter_layer_specs g))"

fun group_block_size :: "cache_spec \<Rightarrow> int" where
  "group_block_size (Layer s) = block_size s"
| "group_block_size (Uniform b specs) = b"

fun group_prefix_cacheable :: "cache_spec \<Rightarrow> bool" where
  "group_prefix_cacheable (Layer s) = prefix_cacheable s"
| "group_prefix_cacheable (Uniform b specs) = list_all (prefix_cacheable \<circ> snd) specs"

fun all_res :: "('a \<Rightarrow> bool res) \<Rightarrow> 'a list \<Rightarrow> bool res" where
  "all_res p [] = ok True"
| "all_res p (x # xs) = rbind (p x) (\<lambda>b. if b then all_res p xs else ok False)"

text \<open>Uniformity of a layer with others; \<open>base\<close> is the registry's test for the other classes.\<close>

fun is_uniform_with_collection :: "(string \<Rightarrow> int) \<Rightarrow> (layer_spec \<Rightarrow> (layer_spec \<Rightarrow> bool) option) \<Rightarrow> layer_spec \<Rightarrow> layer_spec list \<Rightarrow> bool res" where
  "is_uniform_with_collection esz base (ChunkedLocal a chunk) ss = ok (list_all (\<lambda>s. case s of ChunkedLocal _ k \<Rightarrow> k = chunk | _ \<Rightarrow> False) ss)"
| "is_uniform_with_collection esz base (Sliding a w x) ss = ok (list_all (\<lambda>s. window_of s = Some w) ss)"
| "is_uniform_with_collection esz base (SlidingMLA a w x m) ss = ok (list_all (\<lambda>s. case s of SlidingMLA _ v _ _ \<Rightarrow> v = w | _ \<Rightarrow> False) ss)"
| "is_uniform_with_collection esz base (Circular a) ss = ok (list_all (\<lambda>s. case s of Circular _ \<Rightarrow> True | _ \<Rightarrow> False) ss)"
| "is_uniform_with_collection esz base (Mamba m) ss =
     all_res (\<lambda>s. case s of
         Mamba k \<Rightarrow> if mb_spec_blocks k = mb_spec_blocks m \<and> mb_checkpoint_blocks k = mb_checkpoint_blocks m
           then rbind (page_size_bytes esz (Mamba k)) (\<lambda>p. rbind (page_size_bytes esz (Mamba m)) (\<lambda>q. ok (p = q \<and> mb_replicated k = mb_replicated m)))
           else ok False
       | _ \<Rightarrow> ok False) ss"
| "is_uniform_with_collection esz base s ss = (case base s of None \<Rightarrow> err AssertionError | Some p \<Rightarrow> ok (list_all p ss))"

definition is_uniform_type :: "(string \<Rightarrow> int) \<Rightarrow> (layer_spec \<Rightarrow> (layer_spec \<Rightarrow> bool) option) \<Rightarrow> (string, layer_spec) odict \<Rightarrow> bool res" where
  "is_uniform_type esz base specs =
     (let ss = map snd specs in
      if 1 < length (remdups (map block_size ss)) then ok False
      else case ss of [] \<Rightarrow> err StopIteration | s # _ \<Rightarrow> is_uniform_with_collection esz base s ss)"

definition from_specs :: "(string \<Rightarrow> int) \<Rightarrow> (layer_spec \<Rightarrow> (layer_spec \<Rightarrow> bool) option) \<Rightarrow> (string, layer_spec) odict \<Rightarrow> cache_spec option res" where
  "from_specs esz base specs =
     rbind (is_uniform_type esz base specs) (\<lambda>u. ok (if u then Some (Uniform (block_size (snd (hd specs))) specs) else None))"

section \<open>Kinds\<close>

datatype spec_kind = FULL_ATTENTION | MLA_ATTENTION | SLIDING_WINDOW | SLIDING_WINDOW_MLA | MAMBA | CHUNKED_LOCAL_ATTENTION
  | SINK_FULL_ATTENTION | ENCODER_ONLY_ATTENTION | CROSS_ATTENTION | UNKNOWN

fun layer_kind :: "layer_spec \<Rightarrow> spec_kind" where
  "layer_kind (SlidingMLA _ _ _ _) = SLIDING_WINDOW_MLA"
| "layer_kind (MLA _ _ _ _) = MLA_ATTENTION"
| "layer_kind (HiddenState _ _ _ _) = MLA_ATTENTION"
| "layer_kind (SinkFull _ _ _) = SINK_FULL_ATTENTION"
| "layer_kind (FullAttn _ _) = FULL_ATTENTION"
| "layer_kind (RSWA _ _ _) = FULL_ATTENTION"
| "layer_kind (ChunkedLocal _ _) = CHUNKED_LOCAL_ATTENTION"
| "layer_kind (Sliding _ _ _) = SLIDING_WINDOW"
| "layer_kind (Mamba _) = MAMBA"
| "layer_kind (EncoderOnly _) = ENCODER_ONLY_ATTENTION"
| "layer_kind (CrossAttn _) = CROSS_ATTENTION"
| "layer_kind (Circular _) = UNKNOWN"

text \<open>\<open>full_base\<close> says whether the registry's base class of a layer is the full-attention class; the registry answers for every layer of a group.\<close>

fun get_kv_cache_spec_kind :: "(layer_spec \<Rightarrow> bool) \<Rightarrow> cache_spec \<Rightarrow> spec_kind" where
  "get_kv_cache_spec_kind full_base (Layer s) = layer_kind s"
| "get_kv_cache_spec_kind full_base (Uniform b specs) =
     (case remdups (map (layer_kind \<circ> snd) specs) of
        [k] \<Rightarrow> k
      | _ \<Rightarrow> if specs \<noteq> [] \<and> list_all (full_base \<circ> snd) specs then FULL_ATTENTION else UNKNOWN)"

fun get_kv_cache_spec_sliding_window :: "cache_spec \<Rightarrow> int option" where
  "get_kv_cache_spec_sliding_window (Layer s) = window_of s"
| "get_kv_cache_spec_sliding_window (Uniform b specs) = (case remdups (map (window_of \<circ> snd) specs) of [w] \<Rightarrow> w | _ \<Rightarrow> None)"

record kv_group =
  kg_layers :: "string list"
  kg_spec :: cache_spec
  kg_eagle :: bool
  kg_transfer :: bool

definition transfer_group_ids :: "kv_group list \<Rightarrow> nat list" where
  "transfer_group_ids gs = filter (\<lambda>i. kg_transfer (gs ! i)) [0..<length gs]"

definition select_transfer_block_ids :: "kv_group list \<Rightarrow> 'a list \<Rightarrow> 'a list res" where
  "select_transfer_block_ids gs ids = (if length ids \<noteq> length gs then err ValueError else ok (map (\<lambda>i. ids ! i) (transfer_group_ids gs)))"

definition has_mamba_layers :: "kv_group list \<Rightarrow> bool" where
  "has_mamba_layers gs = list_ex (\<lambda>g. list_ex is_mamba (iter_layer_specs (kg_spec g))) gs"

definition has_mixed_precision_kv_cache :: "kv_group list \<Rightarrow> bool" where
  "has_mixed_precision_kv_cache gs =
     (1 < length (remdups (map (\<lambda>a. (at_dtype a, at_quant a)) (List.map_filter attn_of (concat (map (iter_layer_specs \<circ> kg_spec) gs))))))"

definition needs_kv_cache_zeroing :: "kv_group list \<Rightarrow> bool" where
  "needs_kv_cache_zeroing gs = (has_mamba_layers gs \<or> has_mixed_precision_kv_cache gs)"


section \<open>Merging the specifications of one group\<close>

definition same_all :: "'a list \<Rightarrow> bool" where
  "same_all xs = (length (remdups xs) = 1)"

definition merge_window_sizes :: "int option list \<Rightarrow> int option res" where
  "merge_window_sizes xs = (case remdups (List.map_filter id xs) of [] \<Rightarrow> ok None | [w] \<Rightarrow> ok (Some w) | _ \<Rightarrow> err ValueError)"

fun full_fields_of :: "layer_spec \<Rightarrow> full_fields option" where
  "full_fields_of (FullAttn _ f) = Some f" | "full_fields_of (MLA _ f _ _) = Some f" | "full_fields_of (HiddenState _ f _ _) = Some f"
| "full_fields_of (RSWA _ f _) = Some f" | "full_fields_of (SinkFull _ f _) = Some f" | "full_fields_of _ = None"

definition same_attn :: "attn \<Rightarrow> layer_spec list \<Rightarrow> bool" where
  "same_attn a ss = list_all (\<lambda>s. attn_of s = Some a) ss"

text \<open>The merged full-attention fields; \<open>a\<close> are the attention fields the constructor is given.\<close>

definition merge_full :: "attn \<Rightarrow> layer_spec list \<Rightarrow> full_fields res" where
  "merge_full a ss =
     (if \<not> list_all is_full ss \<or> list_ex is_mla ss then err AssertionError
      else let fs = List.map_filter full_fields_of ss in
        rbind (merge_window_sizes (map ff_window fs)) (\<lambda>w.
        rbind (merge_window_sizes (map ff_chunk fs)) (\<lambda>c.
          if \<not> same_attn a ss \<or> (w \<noteq> None \<and> c \<noteq> None) then err AssertionError
          else ok \<lparr>ff_window = w, ff_chunk = c, ff_non_causal = list_ex ff_non_causal fs\<rparr>)))"

fun mla_fields_of :: "layer_spec \<Rightarrow> (mla_fields \<times> bool) option" where
  "mla_fields_of (MLA _ _ ml b) = Some (ml, b)" | "mla_fields_of (HiddenState _ _ ml b) = Some (ml, b)" | "mla_fields_of _ = None"

definition default_full :: full_fields where
  "default_full = \<lparr>ff_window = None, ff_chunk = None, ff_non_causal = False\<rparr>"

text \<open>The latent merge: the constructor is not given the size of values, the alignment and the full-attention fields.\<close>

definition merge_mla :: "attn \<Rightarrow> mla_fields \<Rightarrow> bool \<Rightarrow> layer_spec list \<Rightarrow> (attn \<times> mla_fields) res" where
  "merge_mla a ml b ss =
     (let ms = List.map_filter mla_fields_of ss; as = List.map_filter attn_of ss; a' = a\<lparr>at_head_size_v := 0\<rparr> in
      if \<not> list_all is_mla ss \<or> \<not> same_all (map (ml_cache_dtype \<circ> fst) ms) \<or> \<not> same_all (map at_tokens_per_state as)
         \<or> \<not> same_all (map (ml_version \<circ> fst) ms) \<or> \<not> same_all (map snd ms) \<or> \<not> same_attn a' ss
      then err AssertionError
      else ok (a', \<lparr>ml_cache_dtype = ml_cache_dtype ml, ml_alignment = None, ml_version = ml_version ml\<rparr>))"

definition rswa_window_of :: "layer_spec \<Rightarrow> int option" where
  "rswa_window_of s = (case s of RSWA _ _ w \<Rightarrow> Some w | _ \<Rightarrow> None)"

fun sliding_mla_of :: "layer_spec \<Rightarrow> (attn \<times> int \<times> int \<times> mla_fields) option" where
  "sliding_mla_of (SlidingMLA a w x ml) = Some (a, w, x, ml)" | "sliding_mla_of _ = None"

text \<open>The sliding latent merge also drops the quantisation mode, and compares no attention fields.\<close>

definition merge_sliding_mla :: "(string \<Rightarrow> int) \<Rightarrow> attn \<Rightarrow> int \<Rightarrow> int \<Rightarrow> mla_fields \<Rightarrow> layer_spec list \<Rightarrow> layer_spec res" where
  "merge_sliding_mla esz a w x ml ss =
     (if list_ex (\<lambda>s. sliding_mla_of s = None) ss then err AssertionError
      else let ms = List.map_filter sliding_mla_of ss in
        if \<not> same_all (map (\<lambda>(a, w, x, ml). ml_cache_dtype ml) ms) \<or> \<not> same_all (map (\<lambda>(a, w, x, ml). at_tokens_per_state a) ms)
           \<or> \<not> same_all (map (\<lambda>(a, w, x, ml). ml_version ml) ms) \<or> \<not> same_all (map (\<lambda>(a, w, x, ml). w) ms) \<or> \<not> same_all (map (\<lambda>(a, w, x, ml). x) ms)
        then err AssertionError
        else new_sliding_mla esz (a\<lparr>at_head_size_v := 0, at_quant := QNone\<rparr>) w x
               \<lparr>ml_cache_dtype = ml_cache_dtype ml, ml_alignment = None, ml_version = ml_version ml\<rparr>)"

text \<open>\<^verbatim>\<open>specs[0].merge(specs)\<close>: the class of the first specification decides.\<close>

fun merge_as :: "(string \<Rightarrow> int) \<Rightarrow> layer_spec \<Rightarrow> layer_spec list \<Rightarrow> layer_spec res" where
  "merge_as esz (FullAttn a _) ss = rbind (merge_full a ss) (\<lambda>f. ok (FullAttn a f))"
| "merge_as esz (RSWA a _ w) ss =
     (if \<not> same_all (map rswa_window_of ss) \<or> list_ex (\<lambda>s. rswa_window_of s = None) ss then err AssertionError
      else rbind (merge_full a ss) (\<lambda>f. ok (RSWA a f w)))"
| "merge_as esz (SinkFull a _ n) ss =
     (let a' = a\<lparr>at_tokens_per_state := 1\<rparr> in rbind (merge_full a' ss) (\<lambda>f. ok (SinkFull a' f n)))"
| "merge_as esz (MLA a _ ml b) ss = rbind (merge_mla a ml b ss) (\<lambda>(a', ml'). ok (MLA a' default_full ml' b))"
| "merge_as esz (HiddenState a _ ml b) ss = rbind (merge_mla a ml b ss) (\<lambda>(a', ml'). ok (HiddenState a' default_full ml' b))"
| "merge_as esz (SlidingMLA a w x ml) ss = merge_sliding_mla esz a w x ml ss"
| "merge_as esz s ss = (if list_all (\<lambda>t. t = s) ss then ok s else err AssertionError)"

definition merge :: "(string \<Rightarrow> int) \<Rightarrow> layer_spec list \<Rightarrow> layer_spec res" where
  "merge esz ss = (case ss of [] \<Rightarrow> err IndexError | s # _ \<Rightarrow> merge_as esz s ss)"

text \<open>Outside the sliding latent class a merged specification has the attention fields of every layer, so the pages agree.\<close>

lemma merge_full_attn: "merge_full a ss = ok f \<Longrightarrow> same_attn a ss"
  by (auto simp: merge_full_def Let_def rbind_ok_iff split: if_splits)

lemma merge_mla_attn: "merge_mla a ml b ss = ok (a', ml') \<Longrightarrow> same_attn a' ss"
  by (auto simp: merge_mla_def Let_def split: if_splits)

lemma same_attn_mem: "same_attn a ss \<Longrightarrow> t \<in> set ss \<Longrightarrow> attn_of t = Some a"
  by (auto simp: same_attn_def list_all_iff)

lemma page_size_bytes_attn: "attn_of s = Some a \<Longrightarrow> page_size_bytes esz s = padded_page (at_padded a) (unpadded_page_size_bytes esz a)"
  by (cases s) (auto simp: Let_def)

lemma block_size_attn: "attn_of s = Some a \<Longrightarrow> block_size s = at_block a"
  by (cases s) auto

lemma merge_as_same:
  assumes "merge_as esz s ss = ok r" and "sliding_mla_of s = None" and "t \<in> set ss"
  shows "attn_of t = attn_of r \<and> (attn_of r = None \<longrightarrow> t = r)"
  using assms
  by (cases s) (auto simp: rbind_ok_iff Let_def list_all_iff dest!: merge_full_attn merge_mla_attn same_attn_mem split: if_splits)

lemma merge_keeps_pages:
  assumes "merge esz ss = ok r" and "sliding_mla_of (hd ss) = None" and "t \<in> set ss"
  shows "page_size_bytes esz t = page_size_bytes esz r" and "block_size t = block_size r"
proof -
  have "attn_of t = attn_of r \<and> (attn_of r = None \<longrightarrow> t = r)"
    using assms by (cases ss) (auto simp: merge_def dest: merge_as_same)
  then show "page_size_bytes esz t = page_size_bytes esz r" "block_size t = block_size r"
    by (cases "attn_of r"; auto simp: page_size_bytes_attn block_size_attn)+
qed

lemma sliding_merge_drops_quantisation:
  "merge esz [SlidingMLA (a\<lparr>at_quant := FP8_PER_TENSOR\<rparr>) w x \<lparr>ml_cache_dtype = None, ml_alignment = None, ml_version = None\<rparr>]
     = ok (SlidingMLA (a\<lparr>at_quant := QNone, at_head_size_v := 0\<rparr>) w x \<lparr>ml_cache_dtype = None, ml_alignment = None, ml_version = None\<rparr>)"
  by (simp add: merge_def merge_sliding_mla_def map_filter_simps same_all_def new_sliding_mla_def apply_alignment_padding_def)

end
