(* ===== verification/Kv_Memory.thy ===== *)
theory Kv_Memory
  imports Kv_Spec
begin

text \<open>
  Sizes of blocks and the memory check of \<^verbatim>\<open>vllm/v1/core/kv_cache_utils.py\<close>: the token span of a block under
  decode context parallelism, the scheduler and hash block sizes, the memory a request of the
  configured length needs, and the binary searches for the largest length that fits. The
  configuration is threaded through the searches, which overwrite and restore its length.
  Theorems: the resolved sizes divide as the scheduler needs, and the automatic context length is the largest that fits every worker.
\<close>

section \<open>Block sizes under context parallelism\<close>

definition resolve_dcp_kv_block_size :: "cache_spec \<Rightarrow> int \<Rightarrow> int" where
  "resolve_dcp_kv_block_size g dcp = (if is_full_attention_spec g then group_block_size g * dcp else group_block_size g)"

definition resolve_dcp_layer_spec :: "(string \<Rightarrow> int) \<Rightarrow> int \<Rightarrow> layer_spec \<Rightarrow> layer_spec" where
  "resolve_dcp_layer_spec esz dcp s =
     (let b = resolve_dcp_kv_block_size (Layer s) dcp in if b = block_size s then s else copy_with_new_block_size esz b s)"

definition resolve_dcp_kv_cache_spec :: "(string \<Rightarrow> int) \<Rightarrow> cache_spec \<Rightarrow> int \<Rightarrow> cache_spec" where
  "resolve_dcp_kv_cache_spec esz g dcp =
     (let b = resolve_dcp_kv_block_size g dcp in
      if b = group_block_size g then g
      else case g of
        Layer s \<Rightarrow> Layer (copy_with_new_block_size esz b s)
      | Uniform _ specs \<Rightarrow> Uniform b (map (\<lambda>(n, s). (n, resolve_dcp_layer_spec esz dcp s)) specs))"

definition dcp_world_size_for_kv_cache_spec :: "cache_spec \<Rightarrow> int \<Rightarrow> int res" where
  "dcp_world_size_for_kv_cache_spec g dcp =
     (if dcp \<le> 1 then ok 1
      else case iter_layer_specs g of [] \<Rightarrow> err StopIteration | s # _ \<Rightarrow> ok (if is_full s then dcp else 1))"

definition lcm_all :: "int list \<Rightarrow> int" where
  "lcm_all xs = fold lcm xs 1"

definition gcd_all :: "int list \<Rightarrow> int" where
  "gcd_all xs = fold gcd xs 0"

definition layers_of :: "kv_group list \<Rightarrow> layer_spec list" where
  "layers_of gs = concat (map (iter_layer_specs \<circ> kg_spec) gs)"

definition outside_align :: "layer_spec \<Rightarrow> bool" where
  "outside_align s = (case s of Mamba m \<Rightarrow> mb_mode m \<noteq> ''align'' | _ \<Rightarrow> False)"

definition hashing_sizes :: "kv_group list \<Rightarrow> int list \<Rightarrow> int list" where
  "hashing_sizes gs sizes =
     (let xs = map snd (filter (\<lambda>(g, b). group_prefix_cacheable (kg_spec g)) (zip gs sizes)) in if xs = [] then sizes else xs)"

text \<open>The integral tokens per state above one of the layers that take part in prefix caching.\<close>

fun layer_tokens_per_state :: "layer_spec \<Rightarrow> rat" where
  "layer_tokens_per_state (Mamba m) = of_int (mb_tokens_per_state m)"
| "layer_tokens_per_state s = at_tokens_per_state (the (attn_of s))"

definition prefix_alignments :: "kv_group list \<Rightarrow> int list" where
  "prefix_alignments gs =
     map (\<lambda>s. \<lfloor>layer_tokens_per_state s\<rfloor>)
       (filter (\<lambda>s. prefix_cacheable s \<and> layer_tokens_per_state s = of_int \<lfloor>layer_tokens_per_state s\<rfloor> \<and> 1 < layer_tokens_per_state s) (layers_of gs))"

definition partial_mamba :: "int \<Rightarrow> int \<Rightarrow> kv_group \<times> int \<Rightarrow> bool" where
  "partial_mamba dcp h gb =
     list_ex (\<lambda>s. is_mamba s \<and> \<not> outside_align s \<and> (dcp = 1 \<and> h < snd gb \<or> 1 < dcp \<and> h \<le> snd gb)) (iter_layer_specs (kg_spec (fst gb)))"

text \<open>The part after the early returns: the hash block size, checked against the groups.\<close>

definition hash_block_size_for :: "kv_config \<Rightarrow> kv_group list \<Rightarrow> int list \<Rightarrow> int \<Rightarrow> (int \<times> int) res" where
  "hash_block_size_for c gs sizes sched =
     (let hs = hashing_sizes gs sizes; h = (case kc_prefix_unit c of Some u \<Rightarrow> u | None \<Rightarrow> gcd_all hs) in
      if h = 0 then err ZeroDivisionError
      else if list_ex (\<lambda>b. b mod h \<noteq> 0) hs then err ValueError
      else let alignment = (if list_ex (partial_mamba (kc_dcp c) h) (zip gs sizes) then h else sched) in
        if list_ex (\<lambda>k. alignment mod k \<noteq> 0) (prefix_alignments gs) then err ValueError
        else ok (sched, h))"

definition resolve_kv_cache_block_sizes :: "kv_config \<Rightarrow> kv_group list \<Rightarrow> (int \<times> int) res" where
  "resolve_kv_cache_block_sizes c gs =
     (if length gs \<le> 1 then ok (kc_block_size c * kc_dcp c, kc_block_size c * kc_dcp c)
      else let sizes = map (\<lambda>g. resolve_dcp_kv_block_size (kg_spec g) (kc_dcp c)) gs; sched = lcm_all sizes in
        if \<not> (kc_prefix_caching c \<or> kc_connector c) then ok (sched, sched)
        else if list_ex outside_align (layers_of gs) then ok (sched, sched)
        else hash_block_size_for c gs sizes sched)"

section \<open>Memory of one request\<close>

definition max_memory_usage_bytes :: "(string \<Rightarrow> int) \<Rightarrow> kv_config \<Rightarrow> cache_spec list \<Rightarrow> int res" where
  "max_memory_usage_bytes esz c gs = sum_res (map (group_memory esz c) gs)"

definition get_per_layer_spec :: "kv_group \<Rightarrow> string \<Rightarrow> cache_spec res" where
  "get_per_layer_spec g n =
     (case kg_spec g of Layer s \<Rightarrow> ok (Layer s)
      | Uniform b specs \<Rightarrow> (case map_of specs n of Some s \<Rightarrow> ok (Layer s) | None \<Rightarrow> err KeyError))"

definition group_bytes :: "(string \<Rightarrow> int) \<Rightarrow> kv_group \<Rightarrow> int res" where
  "group_bytes esz g = sum_res (map (\<lambda>n. rbind (get_per_layer_spec g n) (group_page_size esz)) (kg_layers g))"

definition get_kv_cache_bytes_per_block :: "(string \<Rightarrow> int) \<Rightarrow> kv_group list \<Rightarrow> int res" where
  "get_kv_cache_bytes_per_block esz gs =
     rbind (max_res (map (group_bytes esz) gs)) (\<lambda>n. if 0 < n then ok n else err AssertionError)"

definition pool_bytes_per_block :: "(string \<Rightarrow> int) \<Rightarrow> kv_group list \<Rightarrow> int res" where
  "pool_bytes_per_block esz gs = get_kv_cache_bytes_per_block esz gs"

definition group_blocks :: "(string \<Rightarrow> int) \<Rightarrow> kv_config \<Rightarrow> kv_group \<Rightarrow> int res" where
  "group_blocks esz c g =
     (case kg_spec g of
        Uniform b specs \<Rightarrow> max_memory_usage_pages esz c specs
      | Layer s \<Rightarrow> pages_of esz c s)"

definition max_memory_usage_bytes_from_groups :: "(string \<Rightarrow> int) \<Rightarrow> kv_config \<Rightarrow> kv_group list \<Rightarrow> int res" where
  "max_memory_usage_bytes_from_groups esz c gs =
     (if gs = [] then ok 0
      else rbind (pool_bytes_per_block esz gs) (\<lambda>b. rbind (sum_res (map (group_blocks esz c) gs)) (\<lambda>n. ok (b * n))))"

text \<open>Concurrency and capacity; the engine's floats are exact rationals here.\<close>

definition get_max_concurrency_for_kv_cache_config :: "(string \<Rightarrow> int) \<Rightarrow> kv_config \<Rightarrow> int \<Rightarrow> kv_group list \<Rightarrow> rat res" where
  "get_max_concurrency_for_kv_cache_config esz c num_blocks gs =
     rbind (sum_res (map (\<lambda>g. rbind (group_memory esz c (kg_spec g)) (\<lambda>m. rbind (group_page_size esz (kg_spec g)) (cdiv_res m))) gs))
       (\<lambda>n. if n = 0 then err ZeroDivisionError else ok (of_int num_blocks / of_int n))"

definition truncate :: "rat \<Rightarrow> int" where
  "truncate x = (if 0 \<le> x then \<lfloor>x\<rfloor> else \<lceil>x\<rceil>)"

definition get_kv_cache_capacity :: "(string \<Rightarrow> int) \<Rightarrow> kv_config \<Rightarrow> int \<Rightarrow> kv_group list \<Rightarrow> (int \<times> rat) res" where
  "get_kv_cache_capacity esz c num_blocks gs =
     rbind (get_max_concurrency_for_kv_cache_config esz c num_blocks gs) (\<lambda>x. ok (truncate (x * of_int (kc_max_len c)), x))"

definition may_override_num_blocks :: "kv_config \<Rightarrow> int \<Rightarrow> int" where
  "may_override_num_blocks c n = (case kc_blocks_override c of Some k \<Rightarrow> k | None \<Rightarrow> n)"

definition get_uniform_page_size :: "(string \<Rightarrow> int) \<Rightarrow> cache_spec list \<Rightarrow> int res" where
  "get_uniform_page_size esz gs =
     rbind (fold_res (\<lambda>g acc. rbind (group_page_size esz g) (\<lambda>p. ok (List.insert p acc))) gs [])
       (\<lambda>ps. case ps of [p] \<Rightarrow> ok p | _ \<Rightarrow> err AssertionError)"

section \<open>The largest length that fits\<close>

text \<open>The loop of the binary search. The configuration keeps the last length tried; \<open>mem\<close> is the memory needed under a configuration.\<close>

function search_len :: "(kv_config \<Rightarrow> int res) \<Rightarrow> int \<Rightarrow> int \<Rightarrow> int \<Rightarrow> int \<Rightarrow> kv_config \<Rightarrow> int res \<times> kv_config" where
  "search_len mem avail left right result c =
     (if left \<le> right then
        let mid = (left + right) div 2; c' = c\<lparr>kc_max_len := mid\<rparr> in
        case mem c' of
          Inl e \<Rightarrow> (err e, c')
        | Inr n \<Rightarrow> if n \<le> avail then search_len mem avail (mid + 1) right mid c'
                   else search_len mem avail left (mid - 1) result c'
      else (ok result, c))"
  by pat_completeness auto
termination
  by (relation "measure (\<lambda>(mem, avail, left, right, result, c). nat (right - left + 1))") auto

declare search_len.simps [simp del]

text \<open>The search with its first test, and the length restored whatever happened.\<close>

definition estimate_with :: "(kv_config \<Rightarrow> int res) \<Rightarrow> int \<Rightarrow> kv_config \<Rightarrow> int res \<times> kv_config" where
  "estimate_with mem avail c =
     (let c1 = c\<lparr>kc_max_len := 1\<rparr>;
          (r, c') = (case mem c1 of
             Inl e \<Rightarrow> (err e, c1)
           | Inr n \<Rightarrow> if \<not> n \<le> avail then (ok 0, c1) else search_len mem avail 1 (kc_max_len c) 1 c1) in
      (r, c'\<lparr>kc_max_len := kc_max_len c\<rparr>))"

definition estimate_max_model_len :: "(string \<Rightarrow> int) \<Rightarrow> cache_spec list \<Rightarrow> int \<Rightarrow> kv_config \<Rightarrow> int res \<times> kv_config" where
  "estimate_max_model_len esz gs avail c = estimate_with (\<lambda>c. max_memory_usage_bytes esz c gs) avail c"

definition estimate_max_model_len_from_groups :: "(string \<Rightarrow> int) \<Rightarrow> kv_group list \<Rightarrow> int \<Rightarrow> kv_config \<Rightarrow> int res \<times> kv_config" where
  "estimate_max_model_len_from_groups esz gs avail c = estimate_with (\<lambda>c. max_memory_usage_bytes_from_groups esz c gs) avail c"

text \<open>The check before the cache is allocated; the estimate only enters the message, but its exceptions and effects count.\<close>

definition check_enough_memory_with :: "int \<Rightarrow> (kv_config \<Rightarrow> int res) \<Rightarrow> (int \<Rightarrow> kv_config \<Rightarrow> int res \<times> kv_config) \<Rightarrow> kv_config \<Rightarrow> unit res \<times> kv_config" where
  "check_enough_memory_with avail need est c =
     (if avail \<le> 0 then (err ValueError, c)
      else case need c of
        Inl e \<Rightarrow> (err e, c)
      | Inr n \<Rightarrow> if avail < n then (let (r, c') = est avail c in case r of Inl e \<Rightarrow> (err e, c') | Inr _ \<Rightarrow> (err ValueError, c')) else (ok (), c))"

text \<open>The loop over the workers: the smallest estimate, with the configuration threaded through.\<close>

fun fit_workers :: "(string \<Rightarrow> int) \<Rightarrow> (kv_group list \<times> int) list \<Rightarrow> int \<Rightarrow> kv_config \<Rightarrow> int res \<times> kv_config" where
  "fit_workers esz [] best c = (ok best, c)"
| "fit_workers esz ((gs, avail) # ws) best c =
     (if gs = [] then fit_workers esz ws best c
      else case estimate_max_model_len_from_groups esz gs avail c of
        (Inl e, c') \<Rightarrow> (err e, c')
      | (Inr n, c') \<Rightarrow> fit_workers esz ws (if n < best then n else best) c')"

definition auto_fit_max_model_len :: "(string \<Rightarrow> int) \<Rightarrow> kv_group list list \<Rightarrow> int list \<Rightarrow> kv_config \<Rightarrow> unit res \<times> kv_config" where
  "auto_fit_max_model_len esz groups avail c =
     (if list_all (\<lambda>gs. gs = []) groups then (ok (), c)
      else if avail = [] then (err IndexError, c)
      else case fit_workers esz (zip groups avail) (kc_max_len c) c of
        (Inl e, c') \<Rightarrow> (err e, c')
      | (Inr best, c') \<Rightarrow>
          if best \<le> 0 then (err ValueError, c')
          else if kc_max_len c \<le> best then (ok (), c')
          else (ok (), c'\<lparr>kc_max_len := best\<rparr>))"

section \<open>The binary search\<close>

text \<open>Two computations that both succeed, in order.\<close>

definition le_res :: "int res \<Rightarrow> int res \<Rightarrow> bool" where
  "le_res r r' = (\<exists>n n'. r = ok n \<and> r' = ok n' \<and> n \<le> n')"

definition fits_in :: "('s \<Rightarrow> kv_config \<Rightarrow> int res) \<Rightarrow> 's \<Rightarrow> int \<Rightarrow> kv_config \<Rightarrow> int \<Rightarrow> bool" where
  "fits_in need s avail c l = (case need s (c\<lparr>kc_max_len := l\<rparr>) of Inl _ \<Rightarrow> False | Inr n \<Rightarrow> n \<le> avail)"

lemma search_len_restores: "(snd (search_len mem avail left right result c))\<lparr>kc_max_len := k\<rparr> = c\<lparr>kc_max_len := k\<rparr>"
proof (induction mem avail left right result c rule: search_len.induct)
  case (1 mem avail left right result c)
  show ?case
    using 1 by (subst search_len.simps) (auto simp: Let_def split: sum.splits)
qed

lemma estimate_with_restores: "snd (estimate_with mem avail c) = c"
  using search_len_restores [where k = "kc_max_len c" and c = "c\<lparr>kc_max_len := 1\<rparr>"]
  by (auto simp: estimate_with_def Let_def case_prod_unfold split: sum.splits)

text \<open>The contract of a memory requirement: it is defined and grows with the length.\<close>

locale length_memory =
  fixes need :: "'s \<Rightarrow> kv_config \<Rightarrow> int res" and good :: "'s \<Rightarrow> bool"
  assumes need_mono: "good s \<Longrightarrow> l \<le> l' \<Longrightarrow> le_res (need s (c\<lparr>kc_max_len := l\<rparr>)) (need s (c\<lparr>kc_max_len := l'\<rparr>))"
begin

lemma need_total: "good s \<Longrightarrow> \<exists>n. need s (c\<lparr>kc_max_len := l\<rparr>) = ok n"
  using need_mono [of s l l c] by (auto simp: le_res_def)

lemma fits_down: "good s \<Longrightarrow> fits_in need s avail c l' \<Longrightarrow> l \<le> l' \<Longrightarrow> fits_in need s avail c l"
  using need_mono [of s l l' c] by (auto simp: le_res_def fits_in_def)

lemma search_greatest:
  assumes "good s" and "result \<le> right" and "result = left \<or> result + 1 = left"
    and "fits_in need s avail c result" and "\<forall>l. right < l \<longrightarrow> l \<le> m \<longrightarrow> \<not> fits_in need s avail c l"
  shows "\<exists>L. fst (search_len (need s) avail left right result c) = ok L \<and> result \<le> L \<and> L \<le> right \<and> fits_in need s avail c L
    \<and> (\<forall>l. L < l \<longrightarrow> l \<le> m \<longrightarrow> \<not> fits_in need s avail c l)"
  using assms
proof (induction "nat (right - left + 1)" arbitrary: left right result c rule: less_induct)
  case less
  let ?mid = "(left + right) div 2"
  have fc: "fits_in need s avail (c\<lparr>kc_max_len := k\<rparr>) = fits_in need s avail c" for k
    by (auto simp: fits_in_def)
  show ?case
  proof (cases "left \<le> right")
    case False
    then show ?thesis using less.prems by (subst search_len.simps) (auto intro!: exI [of _ result])
  next
    case True
    then have mid: "left \<le> ?mid" "?mid \<le> right" by auto
    from need_total [OF less.prems(1)] obtain n where n: "need s (c\<lparr>kc_max_len := ?mid\<rparr>) = ok n" by blast
    show ?thesis
    proof (cases "n \<le> avail")
      case fit: True
      have "fits_in need s avail c ?mid" using n fit by (simp add: fits_in_def)
      with less.hyps [of right "?mid + 1" ?mid "c\<lparr>kc_max_len := ?mid\<rparr>"] less.prems mid True
      show ?thesis using n fit by (subst search_len.simps) (fastforce simp: Let_def fc)
    next
      case unfit: False
      have nf: "\<not> fits_in need s avail c l" if "?mid \<le> l" for l
        using n unfit fits_down [OF less.prems(1), of avail c l ?mid] that by (auto simp: fits_in_def)
      then have "result < ?mid" using less.prems(4) by (meson not_le)
      with less.hyps [of "?mid - 1" left result "c\<lparr>kc_max_len := ?mid\<rparr>"] less.prems mid True nf
      show ?thesis using n unfit by (subst search_len.simps) (fastforce simp: Let_def fc)
    qed
  qed
qed

lemma estimate_greatest:
  assumes "good s" and "1 \<le> kc_max_len c"
  obtains (none) "estimate_with (need s) avail c = (ok 0, c)" and "\<not> fits_in need s avail c 1"
  | (some) L where "estimate_with (need s) avail c = (ok L, c)" and "1 \<le> L" and "L \<le> kc_max_len c" and "fits_in need s avail c L"
      and "\<And>l. L < l \<Longrightarrow> l \<le> kc_max_len c \<Longrightarrow> \<not> fits_in need s avail c l"
proof (cases "fits_in need s avail c 1")
  case False
  from need_total [OF assms(1)] obtain n where n: "need s (c\<lparr>kc_max_len := 1\<rparr>) = ok n" by blast
  show ?thesis using False n by (intro none) (auto simp: estimate_with_def fits_in_def)
next
  case True
  have fc: "fits_in need s avail (c\<lparr>kc_max_len := k\<rparr>) = fits_in need s avail c" for k
    by (auto simp: fits_in_def)
  from True obtain n where n: "need s (c\<lparr>kc_max_len := 1\<rparr>) = ok n" "n \<le> avail"
    by (auto simp: fits_in_def split: sum.splits)
  from search_greatest [OF assms(1), of 1 "kc_max_len c" 1 avail "c\<lparr>kc_max_len := 1\<rparr>" "kc_max_len c"] True assms(2)
  obtain L where L: "fst (search_len (need s) avail 1 (kc_max_len c) 1 (c\<lparr>kc_max_len := 1\<rparr>)) = ok L" "1 \<le> L" "L \<le> kc_max_len c"
    "fits_in need s avail c L" "\<forall>l. L < l \<longrightarrow> l \<le> kc_max_len c \<longrightarrow> \<not> fits_in need s avail c l"
    by (auto simp: fc)
  have "fst (estimate_with (need s) avail c) = ok L"
    using n L(1) by (simp add: estimate_with_def Let_def case_prod_unfold)
  then have "estimate_with (need s) avail c = (ok L, c)"
    using estimate_with_restores [of "need s" avail c] by (metis prod.collapse)
  with L show ?thesis by (intro some) auto
qed

end

section \<open>Memory grows with the length\<close>

definition positive :: "int res \<Rightarrow> bool" where
  "positive r = (case r of Inl _ \<Rightarrow> False | Inr p \<Rightarrow> 0 < p)"

definition wf_layer :: "(string \<Rightarrow> int) \<Rightarrow> layer_spec \<Rightarrow> bool" where
  "wf_layer esz s = (0 < block_size s \<and> positive (page_size_bytes esz s))"

definition wf_spec :: "(string \<Rightarrow> int) \<Rightarrow> cache_spec \<Rightarrow> bool" where
  "wf_spec esz g = (iter_layer_specs g \<noteq> [] \<and> list_all (wf_layer esz) (iter_layer_specs g))"

definition wf_groups :: "(string \<Rightarrow> int) \<Rightarrow> kv_group list \<Rightarrow> bool" where
  "wf_groups esz gs = (list_all (wf_spec esz \<circ> kg_spec) gs \<and> (gs = [] \<or> positive (pool_bytes_per_block esz gs)))"

lemma positive_ok: "positive r \<Longrightarrow> \<exists>p. r = ok p \<and> 0 < p"
  by (auto simp: positive_def split: sum.splits)

lemma le_res_refl [simp]: "le_res (ok n) (ok m) \<longleftrightarrow> n \<le> m"
  by (simp add: le_res_def)

lemma le_res_bind:
  assumes "le_res r r'" and "\<And>n n'. n \<le> n' \<Longrightarrow> le_res (f n) (g n')"
  shows "le_res (rbind r f) (rbind r' g)"
  using assms by (auto simp: le_res_def)

lemma cdiv_mono: "a \<le> b \<Longrightarrow> 0 < k \<Longrightarrow> cdiv a k \<le> cdiv b k"
  by (simp add: cdiv_def zdiv_mono1)

lemma le_res_cdiv: "a \<le> b \<Longrightarrow> 0 < k \<Longrightarrow> le_res (cdiv_res a k) (cdiv_res b k)"
  by (simp add: cdiv_res_def cdiv_mono)

lemma le_res_fold_sum: "list_all2 le_res rs rs' \<Longrightarrow> n \<le> n' \<Longrightarrow>
  le_res (fold_res (\<lambda>x acc. rbind x (\<lambda>v. ok (acc + v))) rs n) (fold_res (\<lambda>x acc. rbind x (\<lambda>v. ok (acc + v))) rs' n')"
proof (induction rs rs' arbitrary: n n' rule: list_all2_induct)
  case (Cons x xs y ys)
  then obtain a b where "x = ok a" "y = ok b" "a \<le> b" by (auto simp: le_res_def)
  with Cons.IH [of "n + a" "n' + b"] Cons.prems show ?case by simp
qed simp

lemma le_res_sum: "list_all2 le_res rs rs' \<Longrightarrow> le_res (sum_res rs) (sum_res rs')"
  by (simp add: sum_res_def le_res_fold_sum)

lemma le_res_max: "list_all2 le_res rs rs' \<Longrightarrow> rs \<noteq> [] \<Longrightarrow> le_res (max_res rs) (max_res rs')"
proof (induction rs rs' rule: list_all2_induct)
  case (Cons x xs y ys)
  show ?case
  proof (cases xs)
    case Nil
    then show ?thesis using Cons.hyps by auto
  next
    case xs: (Cons a as)
    then obtain b bs where ys: "ys = b # bs" using Cons.hyps(2) by (auto simp: list_all2_Cons1)
    have "le_res (max_res xs) (max_res ys)" using Cons.IH xs by simp
    then show ?thesis using Cons.hyps(1) unfolding xs ys max_res.simps
      by (intro le_res_bind) (auto intro: max.mono)
  qed
qed simp

lemma max_pages_mono:
  assumes "0 < block_size s" and "l \<le> l'"
  shows "le_res (max_pages (c\<lparr>kc_max_len := l\<rparr>) s) (max_pages (c\<lparr>kc_max_len := l'\<rparr>) s)"
  using assms
  by (cases s)
    (auto simp: chunked_admission_blocks_def sliding_admission_blocks_def intro!: le_res_cdiv le_res_bind min.mono cdiv_mono)

lemma layer_memory_mono:
  assumes "wf_layer esz s" and "l \<le> l'"
  shows "le_res (layer_memory esz (c\<lparr>kc_max_len := l\<rparr>) s) (layer_memory esz (c\<lparr>kc_max_len := l'\<rparr>) s)"
proof -
  from assms(1) obtain p where p: "page_size_bytes esz s = ok p" "0 < p" by (auto simp: wf_layer_def dest: positive_ok)
  have "le_res (max_pages (c\<lparr>kc_max_len := l\<rparr>) s) (max_pages (c\<lparr>kc_max_len := l'\<rparr>) s)"
    using assms by (auto simp: wf_layer_def intro: max_pages_mono)
  then show ?thesis using p
    by (auto simp: layer_memory_def le_res_def split: layer_spec.split)
qed

lemma pages_of_mono:
  assumes "wf_layer esz s" and "l \<le> l'"
  shows "le_res (pages_of esz (c\<lparr>kc_max_len := l\<rparr>) s) (pages_of esz (c\<lparr>kc_max_len := l'\<rparr>) s)"
proof -
  from assms(1) obtain p where "page_size_bytes esz s = ok p" "0 < p" by (auto simp: wf_layer_def dest: positive_ok)
  then show ?thesis using layer_memory_mono [OF assms, of c]
    by (auto simp: pages_of_def le_res_def cdiv_res_def intro: cdiv_mono)
qed

lemma usage_pages_mono:
  assumes "specs \<noteq> []" and "list_all (wf_layer esz \<circ> snd) specs" and "l \<le> l'"
  shows "le_res (max_memory_usage_pages esz (c\<lparr>kc_max_len := l\<rparr>) specs) (max_memory_usage_pages esz (c\<lparr>kc_max_len := l'\<rparr>) specs)"
  unfolding max_memory_usage_pages_def using assms
  by (intro le_res_max) (auto simp: list.rel_map list_all_iff intro!: list.rel_refl_strong pages_of_mono)

lemma group_blocks_mono:
  assumes "wf_spec esz (kg_spec g)" and "l \<le> l'"
  shows "le_res (group_blocks esz (c\<lparr>kc_max_len := l\<rparr>) g) (group_blocks esz (c\<lparr>kc_max_len := l'\<rparr>) g)"
  using assms by (cases "kg_spec g")
    (auto simp: group_blocks_def wf_spec_def list.pred_map intro!: pages_of_mono usage_pages_mono)

lemma groups_memory_mono:
  assumes "wf_groups esz gs" and "l \<le> l'"
  shows "le_res (max_memory_usage_bytes_from_groups esz (c\<lparr>kc_max_len := l\<rparr>) gs) (max_memory_usage_bytes_from_groups esz (c\<lparr>kc_max_len := l'\<rparr>) gs)"
proof (cases "gs = []")
  case False
  then obtain b where b: "pool_bytes_per_block esz gs = ok b" "0 < b" using assms(1) by (auto simp: wf_groups_def dest: positive_ok)
  have "le_res (sum_res (map (group_blocks esz (c\<lparr>kc_max_len := l\<rparr>)) gs)) (sum_res (map (group_blocks esz (c\<lparr>kc_max_len := l'\<rparr>)) gs))"
    using assms by (intro le_res_sum) (auto simp: list.rel_map wf_groups_def list_all_iff intro!: list.rel_refl_strong group_blocks_mono)
  then show ?thesis using False b by (auto simp: max_memory_usage_bytes_from_groups_def le_res_def)
qed (simp add: max_memory_usage_bytes_from_groups_def)

text \<open>A uniform group also multiplies by the sum of its pages.\<close>

lemma sum_res_positive: "list_all positive rs \<Longrightarrow> \<exists>n. sum_res rs = ok n \<and> 0 \<le> n"
proof -
  have "\<exists>n'. fold_res (\<lambda>x acc. rbind x (\<lambda>v. ok (acc + v))) rs n = ok n' \<and> n \<le> n'" if "list_all positive rs" for n
    using that
  proof (induction rs arbitrary: n)
    case (Cons r rs)
    then obtain p where "r = ok p" "0 < p" by (auto dest: positive_ok)
    with Cons.IH [of "n + p"] Cons.prems show ?case by fastforce
  qed simp
  then show "list_all positive rs \<Longrightarrow> \<exists>n. sum_res rs = ok n \<and> 0 \<le> n" by (simp add: sum_res_def)
qed

lemma group_memory_mono:
  assumes "wf_spec esz g" and "l \<le> l'"
  shows "le_res (group_memory esz (c\<lparr>kc_max_len := l\<rparr>) g) (group_memory esz (c\<lparr>kc_max_len := l'\<rparr>) g)"
proof (cases g)
  case (Layer s)
  then show ?thesis using assms by (simp add: wf_spec_def layer_memory_mono)
next
  case (Uniform b specs)
  have wf: "specs \<noteq> []" "list_all (wf_layer esz \<circ> snd) specs" using assms(1) Uniform by (auto simp: wf_spec_def list.pred_map)
  then have "list_all positive (map (page_size_bytes esz \<circ> snd) specs)" by (auto simp: list_all_iff wf_layer_def)
  then obtain p where "sum_res (map (page_size_bytes esz \<circ> snd) specs) = ok p" "0 \<le> p" using sum_res_positive by blast
  then show ?thesis using usage_pages_mono [OF wf assms(2), of c] Uniform
    by (auto simp: le_res_def intro: mult_right_mono)
qed

lemma specs_memory_mono:
  assumes "list_all (wf_spec esz) gs" and "l \<le> l'"
  shows "le_res (max_memory_usage_bytes esz (c\<lparr>kc_max_len := l\<rparr>) gs) (max_memory_usage_bytes esz (c\<lparr>kc_max_len := l'\<rparr>) gs)"
  unfolding max_memory_usage_bytes_def using assms
  by (intro le_res_sum) (auto simp: list.rel_map list_all_iff intro!: list.rel_refl_strong group_memory_mono)

interpretation gm: length_memory "\<lambda>gs c. max_memory_usage_bytes_from_groups esz c gs" "wf_groups esz" for esz
  by unfold_locales (rule groups_memory_mono)

interpretation sm: length_memory "\<lambda>gs c. max_memory_usage_bytes esz c gs" "list_all (wf_spec esz)" for esz
  by unfold_locales (rule specs_memory_mono)

section \<open>The automatic context length\<close>

definition worker_fits :: "(string \<Rightarrow> int) \<Rightarrow> kv_config \<Rightarrow> int \<Rightarrow> kv_group list \<times> int \<Rightarrow> bool" where
  "worker_fits esz c l w = (fst w = [] \<or> fits_in (\<lambda>gs c. max_memory_usage_bytes_from_groups esz c gs) (fst w) (snd w) c l)"

definition all_fit :: "(string \<Rightarrow> int) \<Rightarrow> kv_config \<Rightarrow> (kv_group list \<times> int) list \<Rightarrow> int \<Rightarrow> bool" where
  "all_fit esz c ws l = list_all (worker_fits esz c l) ws"

text \<open>The loop: the smaller of the start value and the largest length that fits the workers, zero when one token does not fit.\<close>

lemma worker_fits_down: "wf_groups esz (fst w) \<Longrightarrow> worker_fits esz c l' w \<Longrightarrow> l \<le> l' \<Longrightarrow> worker_fits esz c l w"
  by (auto simp: worker_fits_def intro: gm.fits_down)

lemma all_fit_down: "list_all (wf_groups esz \<circ> fst) ws \<Longrightarrow> all_fit esz c ws l' \<Longrightarrow> l \<le> l' \<Longrightarrow> all_fit esz c ws l"
  by (auto simp: all_fit_def list_all_iff intro: worker_fits_down)

definition best_len :: "(string \<Rightarrow> int) \<Rightarrow> kv_config \<Rightarrow> (kv_group list \<times> int) list \<Rightarrow> int \<Rightarrow> int \<Rightarrow> bool" where
  "best_len esz c ws m L =
     (0 \<le> L \<and> L \<le> m \<and> (0 < L \<longrightarrow> all_fit esz c ws L) \<and> (\<forall>l. max L 0 < l \<longrightarrow> l \<le> m \<longrightarrow> \<not> all_fit esz c ws l))"

lemma best_len_Cons:
  assumes wf: "list_all (wf_groups esz \<circ> fst) (w # ws)" and n: "best_len esz c [w] m n" and r: "best_len esz c ws (min n m) L"
  shows "best_len esz c (w # ws) m L"
proof -
  have "\<not> all_fit esz c (w # ws) l" if l: "L < l" "l \<le> m" "0 \<le> L" for l
  proof (cases "l \<le> n")
    case True
    then show ?thesis using r l by (auto simp: best_len_def all_fit_def)
  next
    case False
    then show ?thesis using n l by (auto simp: best_len_def all_fit_def)
  qed
  moreover have "all_fit esz c (w # ws) L" if "0 < L"
    using n r that wf all_fit_down [of esz "[w]" c n L] by (auto simp: best_len_def all_fit_def)
  ultimately show ?thesis using r by (auto simp: best_len_def)
qed

lemma estimate_best:
  assumes "wf_groups esz gs" and "gs \<noteq> []" and "1 \<le> kc_max_len c"
  obtains n where "estimate_max_model_len_from_groups esz gs avail c = (ok n, c)" and "best_len esz c [(gs, avail)] (kc_max_len c) n"
proof (rule gm.estimate_greatest [OF assms(1,3), of avail])
  assume e: "estimate_with (\<lambda>c. max_memory_usage_bytes_from_groups esz c gs) avail c = (ok 0, c)"
    and "\<not> fits_in (\<lambda>gs c. max_memory_usage_bytes_from_groups esz c gs) gs avail c 1"
  then have "\<not> all_fit esz c [(gs, avail)] l" if "0 < l" for l
    using that all_fit_down [of esz "[(gs, avail)]" c l 1] assms(1,2) by (auto simp: all_fit_def worker_fits_def)
  then show thesis using e assms(3) by (intro that [of 0]) (auto simp: best_len_def estimate_max_model_len_from_groups_def)
next
  fix L
  assume L: "estimate_with (\<lambda>c. max_memory_usage_bytes_from_groups esz c gs) avail c = (ok L, c)" "1 \<le> L" "L \<le> kc_max_len c"
    "fits_in (\<lambda>gs c. max_memory_usage_bytes_from_groups esz c gs) gs avail c L"
    "\<And>l. L < l \<Longrightarrow> l \<le> kc_max_len c \<Longrightarrow> \<not> fits_in (\<lambda>gs c. max_memory_usage_bytes_from_groups esz c gs) gs avail c l"
  then show thesis using assms(2)
    by (intro that [of L]) (auto simp: best_len_def estimate_max_model_len_from_groups_def all_fit_def worker_fits_def)
qed

lemma best_len_shrink: "best_len esz c ws m n \<Longrightarrow> 0 \<le> m' \<Longrightarrow> m' \<le> m \<Longrightarrow> list_all (wf_groups esz \<circ> fst) ws \<Longrightarrow> best_len esz c ws m' (min n m')"
  using all_fit_down [of esz ws c n "min n m'"] by (auto simp: best_len_def min_def)

lemma fit_workers_best:
  assumes "list_all (wf_groups esz \<circ> fst) ws" and "1 \<le> kc_max_len c" and "0 \<le> best" and "best \<le> kc_max_len c"
  shows "\<exists>L. fit_workers esz ws best c = (ok L, c) \<and> best_len esz c ws best L"
  using assms
proof (induction ws arbitrary: best)
  case Nil
  then show ?case by (auto simp: best_len_def all_fit_def)
next
  case (Cons w ws)
  obtain gs avail where w: "w = (gs, avail)" by force
  show ?case
  proof (cases "gs = []")
    case True
    from Cons.IH [of best] Cons.prems obtain L where L: "fit_workers esz ws best c = (ok L, c)" "best_len esz c ws best L" by auto
    then show ?thesis using True by (intro exI [of _ L]) (auto simp: w best_len_def all_fit_def worker_fits_def)
  next
    case False
    have "wf_groups esz gs" using Cons.prems(1) by (simp add: w)
    from estimate_best [OF this False Cons.prems(2), of avail]
    obtain n where n: "estimate_max_model_len_from_groups esz gs avail c = (ok n, c)" "best_len esz c [(gs, avail)] (kc_max_len c) n" by blast
    have n0: "0 \<le> n" using n(2) by (simp add: best_len_def)
    have b: "best_len esz c [w] best (min n best)"
      using best_len_shrink [OF n(2), of best] Cons.prems by (auto simp: w)
    have nb: "0 \<le> min n best" "min n best \<le> kc_max_len c" using n0 Cons.prems by auto
    from Cons.IH [OF _ Cons.prems(2) nb] Cons.prems(1) obtain L where
      L: "fit_workers esz ws (min n best) c = (ok L, c)" "best_len esz c ws (min n best) L" by auto
    have "best_len esz c (w # ws) best L" using best_len_Cons [OF Cons.prems(1) b, of L] L(2) by (simp add: min.assoc)
    moreover have "(if n < best then n else best) = min n best" by (simp add: min_def)
    ultimately show ?thesis using n L(1) False by (intro exI [of _ L]) (simp add: w)
  qed
qed

lemma all_fit_max: "list_all (\<lambda>gs. gs = []) groups \<Longrightarrow> all_fit esz c (zip groups avail) l"
  by (auto simp: all_fit_def worker_fits_def list_all_iff dest: set_zip_leftD)

text \<open>
  C35: When the context length is chosen automatically, the binary searches end and the length becomes
  the largest one, up to the model's, whose memory fits on every worker, with the rest of the
  configuration as it was; when not even one token fits on some worker the result is a
  ValueError and the configuration is unchanged.
\<close>

theorem auto_fit_largest:
  assumes "list_all (wf_groups esz) groups" and "1 \<le> kc_max_len c" and "avail \<noteq> []"
  shows "(\<not> all_fit esz c (zip groups avail) 1 \<and> auto_fit_max_model_len esz groups avail c = (err ValueError, c))
    \<or> (\<exists>L. 1 \<le> L \<and> L \<le> kc_max_len c \<and> all_fit esz c (zip groups avail) L
         \<and> (\<forall>l. L < l \<longrightarrow> l \<le> kc_max_len c \<longrightarrow> \<not> all_fit esz c (zip groups avail) l)
         \<and> auto_fit_max_model_len esz groups avail c = (ok (), c\<lparr>kc_max_len := L\<rparr>))"
proof (cases "list_all (\<lambda>gs. gs = []) groups")
  case True
  then show ?thesis using assms(2)
    by (intro disjI2 exI [of _ "kc_max_len c"]) (auto simp: all_fit_max auto_fit_max_model_len_def)
next
  case False
  have wf: "list_all (wf_groups esz \<circ> fst) (zip groups avail)" using assms(1) by (auto simp: list_all_iff dest: set_zip_leftD)
  from fit_workers_best [OF wf assms(2), of "kc_max_len c"] assms(2)
  obtain L where L: "fit_workers esz (zip groups avail) (kc_max_len c) c = (ok L, c)" "best_len esz c (zip groups avail) (kc_max_len c) L" by auto
  show ?thesis
  proof (cases "0 < L")
    case True
    then show ?thesis using L False assms(3)
      by (intro disjI2 exI [of _ L]) (auto simp: best_len_def auto_fit_max_model_len_def)
  next
    case zero: False
    then show ?thesis using L False assms(2,3) by (auto simp: best_len_def auto_fit_max_model_len_def)
  qed
qed

definition example_attn :: attn where
  "example_attn = \<lparr>at_block = 64, at_heads = 1, at_head_size = 576, at_head_size_v = 0, at_dtype = ''fp8'', at_quant = FP8_PER_TENSOR,
     at_padded = None, at_head_slots = None, at_content = None, at_tokens_per_state = 1\<rparr>"

definition example_group :: kv_group where
  "example_group = \<lparr>kg_layers = [''l0'', ''l1''],
     kg_spec = Layer (MLA example_attn default_full \<lparr>ml_cache_dtype = None, ml_alignment = None, ml_version = None\<rparr> False),
     kg_eagle = False, kg_transfer = True\<rparr>"

definition example_config :: kv_config where
  "example_config = \<lparr>kc_max_len = 1000, kc_dcp = 4, kc_in_flight = 8, kc_mamba_mode = ''none'', kc_encoder_tokens = 0, kc_block_size = 64,
     kc_prefix_caching = True, kc_connector = True, kc_prefix_unit = None, kc_blocks_override = None\<rparr>"

lemmas example_defs = example_attn_def example_group_def example_config_def

lemma example_page: "page_size_bytes (\<lambda>_. 1) (MLA example_attn ff ml b) = ok 36864"
  by (simp add: example_defs padded_page_def unpadded_page_size_bytes_def num_heads_def num_states_def state_content_size_bytes_def)

lemma example_pool: "pool_bytes_per_block (\<lambda>_. 1) [example_group] = ok 73728"
  using example_page
  by (simp add: pool_bytes_per_block_def get_kv_cache_bytes_per_block_def group_bytes_def example_group_def get_per_layer_spec_def sum_res_def)

lemma example_wf: "wf_groups (\<lambda>_. 1) [example_group]"
  using example_pool example_page
  by (auto simp: wf_groups_def wf_spec_def wf_layer_def positive_def example_defs)

lemma example_blocks: "group_blocks (\<lambda>_. 1) (example_config\<lparr>kc_max_len := l\<rparr>) example_group = ok (cdiv (cdiv l 4) 64)"
proof -
  have "at_block example_attn = 64" by (simp add: example_attn_def)
  then show ?thesis
    using example_page
    by (simp add: group_blocks_def example_group_def example_config_def pages_of_def layer_memory_def cdiv_res_def cdiv_def
        flip: minus_mult_left)
qed

lemma example_fits: "all_fit (\<lambda>_. 1) example_config [([example_group], 147456)] l \<longleftrightarrow> cdiv (cdiv l 4) 64 \<le> 2"
  using example_pool example_blocks
  by (simp add: all_fit_def worker_fits_def fits_in_def max_memory_usage_bytes_from_groups_def sum_res_def)

lemma example_fits_iff: "cdiv (cdiv l 4) 64 \<le> 2 \<longleftrightarrow> l \<le> 512"
  unfolding cdiv_def by linarith

theorem auto_fit_largest_witness:
  "auto_fit_max_model_len (\<lambda>_. 1) [[example_group]] [147456] example_config = (ok (), example_config\<lparr>kc_max_len := 512\<rparr>)"
proof -
  have len: "kc_max_len example_config = 1000" by (simp add: example_config_def)
  have fit: "all_fit (\<lambda>_. 1) example_config (zip [[example_group]] [147456]) l \<longleftrightarrow> l \<le> 512" for l
    using example_fits example_fits_iff by simp
  from auto_fit_largest [of "\<lambda>_. 1" "[[example_group]]" example_config "[147456]"] example_wf len
  obtain L where L: "L \<le> 512" "\<forall>l. L < l \<longrightarrow> l \<le> 1000 \<longrightarrow> \<not> l \<le> 512"
    "auto_fit_max_model_len (\<lambda>_. 1) [[example_group]] [147456] example_config = (ok (), example_config\<lparr>kc_max_len := L\<rparr>)"
    unfolding fit by auto
  have "L = 512" using L(1) L(2) [rule_format, of 512] by linarith
  with L(3) show ?thesis by simp
qed

section \<open>Block sizes of the groups\<close>

abbreviation dcp_sizes :: "kv_config \<Rightarrow> kv_group list \<Rightarrow> int list" where
  "dcp_sizes c gs \<equiv> map (\<lambda>g. resolve_dcp_kv_block_size (kg_spec g) (kc_dcp c)) gs"

lemma fold_lcm_dvd: "x dvd a \<or> x \<in> set xs \<Longrightarrow> x dvd fold lcm xs (a :: int)"
  by (induction xs arbitrary: a) (auto intro: dvd_lcmI1 dvd_lcmI2)

lemma lcm_all_dvd: "x \<in> set xs \<Longrightarrow> x dvd lcm_all xs"
  by (simp add: lcm_all_def fold_lcm_dvd)

lemma hashing_sizes_sub: "set (hashing_sizes gs (dcp_sizes c gs)) \<subseteq> set (dcp_sizes c gs)"
  by (auto simp: hashing_sizes_def Let_def dest: set_zip_rightD)

lemma hashing_sizes_nonempty: "gs \<noteq> [] \<Longrightarrow> hashing_sizes gs (dcp_sizes c gs) \<noteq> []"
  by (auto simp: hashing_sizes_def Let_def)

lemma zip_sizes: "g \<in> set gs \<Longrightarrow> (g, resolve_dcp_kv_block_size (kg_spec g) d) \<in> set (zip gs (map (\<lambda>g. resolve_dcp_kv_block_size (kg_spec g) d) gs))"
  by (induction gs) auto

lemma cacheable_hashed:
  assumes "g \<in> set gs" and "group_prefix_cacheable (kg_spec g)"
  shows "resolve_dcp_kv_block_size (kg_spec g) (kc_dcp c) \<in> set (hashing_sizes gs (dcp_sizes c gs))"
  using assms zip_sizes [OF assms(1), of "kc_dcp c"] by (force simp: hashing_sizes_def Let_def)

lemma hash_block_size_divides:
  assumes "hash_block_size_for c gs sizes sched = ok (s, h)" and "b \<in> set (hashing_sizes gs sizes)"
  shows "s = sched \<and> h \<noteq> 0 \<and> h dvd b"
  using assms by (auto simp: hash_block_size_for_def Let_def list_ex_iff split: if_splits option.splits)

text \<open>
  With several groups, whenever the block sizes are resolved the scheduler's size is a common
  multiple of the token spans of every group under context parallelism, the hash size is one of its
  divisors, and either hashing is not finer than the scheduler or the hash size is nonzero and divides
  the span of every group that takes part in prefix caching.
\<close>

theorem block_sizes_divide:
  assumes "resolve_kv_cache_block_sizes c gs = ok (s, h)" and "1 < length gs"
  shows "(\<forall>g \<in> set gs. resolve_dcp_kv_block_size (kg_spec g) (kc_dcp c) dvd s) \<and> h dvd s
    \<and> (h = s \<or> (h \<noteq> 0 \<and> (\<forall>g \<in> set gs. group_prefix_cacheable (kg_spec g) \<longrightarrow> h dvd resolve_dcp_kv_block_size (kg_spec g) (kc_dcp c))))"
proof -
  let ?sizes = "dcp_sizes c gs"
  have mult: "\<forall>g \<in> set gs. resolve_dcp_kv_block_size (kg_spec g) (kc_dcp c) dvd lcm_all ?sizes"
    by (intro ballI lcm_all_dvd) simp
  have "(s = lcm_all ?sizes \<and> h = s) \<or> hash_block_size_for c gs ?sizes (lcm_all ?sizes) = ok (s, h)"
    using assms unfolding resolve_kv_cache_block_sizes_def Let_def by (simp split: if_splits)
  then consider "s = lcm_all ?sizes" "h = s" | "hash_block_size_for c gs ?sizes (lcm_all ?sizes) = ok (s, h)" by blast
  then show ?thesis
  proof cases
    case 1
    then show ?thesis using mult by simp
  next
    case 2
    obtain b where b: "b \<in> set (hashing_sizes gs ?sizes)"
      using hashing_sizes_nonempty [of gs c] assms(2) by (metis length_0_conv list.set_intros(1) neq_Nil_conv not_less_zero)
    then have "b dvd lcm_all ?sizes" using hashing_sizes_sub [of gs c] by (blast intro: lcm_all_dvd)
    then show ?thesis
      using mult hash_block_size_divides [OF 2 b] hash_block_size_divides [OF 2 cacheable_hashed] by (auto dest: dvd_trans)
  qed
qed

definition window_group :: kv_group where
  "window_group = \<lparr>kg_layers = [''w0''], kg_spec = Layer (Sliding (example_attn\<lparr>at_block := 96\<rparr>) 128 0), kg_eagle = False, kg_transfer = True\<rparr>"

theorem block_sizes_divide_witness:
  "resolve_kv_cache_block_sizes example_config [example_group, window_group] = ok (768, 32) \<and> (256 :: int) dvd 768 \<and> (32 :: int) dvd 768"
proof -
  have g: "gcd 96 (256 :: int) = 32" by (simp add: gcd_non_0_int)
  have l: "lcm 96 (256 :: int) = 768" by (simp add: lcm_altdef_int g)
  have *: "resolve_kv_cache_block_sizes example_config [example_group, window_group] = ok (768, 32)"
    by (simp add: resolve_kv_cache_block_sizes_def resolve_dcp_kv_block_size_def is_full_attention_spec_def example_defs window_group_def
        layers_of_def outside_align_def hash_block_size_for_def hashing_sizes_def gcd_all_def lcm_all_def partial_mamba_def g l
        prefix_alignments_def Let_def)
  from block_sizes_divide [OF *] * show ?thesis
    by (simp add: resolve_dcp_kv_block_size_def is_full_attention_spec_def example_defs window_group_def)
qed

section \<open>A stale padding\<close>

text \<open>
  Rebuilding an aligned latent specification for context parallelism keeps its old padding when the
  larger page needs none, and then asking for its page fails: 100 bytes padded to 128, sixteen times
  the block is 1600 bytes, a multiple of 64.
\<close>

lemma dcp_keeps_stale_padding:
  "let s = new_mla (\<lambda>_. 1) (example_attn\<lparr>at_block := 1, at_head_size := 100\<rparr>) default_full
         \<lparr>ml_cache_dtype = None, ml_alignment = Some 64, ml_version = None\<rparr> False in
   page_size_bytes (\<lambda>_. 1) s = ok 128
   \<and> group_page_size (\<lambda>_. 1) (resolve_dcp_kv_cache_spec (\<lambda>_. 1) (Layer s) 16) = err AssertionError"
  by (simp add: new_mla_def apply_alignment_padding_def unpadded_page_size_bytes_def num_heads_def num_states_def state_content_size_bytes_def
      round_up_to_def padded_page_def resolve_dcp_kv_cache_spec_def resolve_dcp_kv_block_size_def is_full_attention_spec_def
      copy_with_new_block_size_def example_attn_def Let_def)

end
