(* ===== verification/Kv_Groups.thy ===== *)
theory Kv_Groups
  imports Kv_Memory "HOL-Library.Multiset"
begin

text \<open>
  Grouping of layers into cache groups (\<^verbatim>\<open>get_kv_cache_groups\<close> of \<^verbatim>\<open>vllm/v1/core/kv_cache_utils.py\<close> and every
  function it calls): merging one uniform type, packing mixed page sizes, unifying page sizes,
  the fallback to full allocation, groups of equal size, hidden-state layers, and the mark of drafter
  groups. The registry of uniform types and the resolved layout are parameters.
  Theorem: whenever grouping succeeds every layer is in exactly one group, and no group is empty.
\<close>

section \<open>Small helpers\<close>

fun map_res :: "('a \<Rightarrow> 'b res) \<Rightarrow> 'a list \<Rightarrow> 'b list res" where
  "map_res f [] = ok []"
| "map_res f (x # xs) = rbind (f x) (\<lambda>y. rbind (map_res f xs) (\<lambda>ys. ok (y # ys)))"

text \<open>A \<^verbatim>\<open>defaultdict(list)\<close> filled with \<^verbatim>\<open>d[k].append(v)\<close>, and the slice \<^verbatim>\<open>xs[i::n]\<close>.\<close>

fun add_under :: "'k \<Rightarrow> 'v \<Rightarrow> ('k \<times> 'v list) list \<Rightarrow> ('k \<times> 'v list) list" where
  "add_under k v [] = [(k, [v])]"
| "add_under k v ((k', vs) # d) = (if k' = k then (k', vs @ [v]) # d else (k', vs) # add_under k v d)"

definition every :: "nat \<Rightarrow> nat \<Rightarrow> 'a list \<Rightarrow> 'a list" where
  "every n i xs = map (\<lambda>j. xs ! j) (filter (\<lambda>j. j mod n = i) [0..<length xs])"

definition max_default :: "int list \<Rightarrow> int" where
  "max_default xs = (case xs of [] \<Rightarrow> 0 | x # xs \<Rightarrow> fold max xs x)"

type_synonym specs = "(string, layer_spec) odict"
type_synonym uniform_base = "layer_spec \<Rightarrow> (layer_spec \<Rightarrow> bool) option"

record layout =
  lo_order :: "nat list"
  lo_block_outermost :: bool
  lo_block_compact :: bool
  lo_layer_compact :: bool

text \<open>What planning reads besides the sizes: the drafter is \<open>pc_eagle\<close>, and \<open>pc_original_len\<close> is \<open>-1\<close> for an automatic length.\<close>

record plan_config =
  pc_kv :: kv_config
  pc_layout :: layout
  pc_eagle :: bool
  pc_model_type :: "string option"
  pc_disable_hybrid :: bool
  pc_extra_retained :: "int option"
  pc_original_len :: int

definition new_group :: "string list \<Rightarrow> cache_spec \<Rightarrow> kv_group" where
  "new_group ns g = \<lparr>kg_layers = ns, kg_spec = g, kg_eagle = False, kg_transfer = True\<rparr>"

definition spec_at :: "specs \<Rightarrow> string \<Rightarrow> layer_spec res" where
  "spec_at specs n = (case map_of specs n of Some s \<Rightarrow> ok s | None \<Rightarrow> err KeyError)"

definition merged_group :: "(string \<Rightarrow> int) \<Rightarrow> specs \<Rightarrow> string list \<Rightarrow> kv_group res" where
  "merged_group esz specs ns = rbind (map_res (spec_at specs) ns) (\<lambda>ss. rbind (merge esz ss) (\<lambda>s. ok (new_group ns (Layer s))))"

definition create_kv_cache_group_specs :: "(string \<Rightarrow> int) \<Rightarrow> specs \<Rightarrow> string list list \<Rightarrow> kv_group list res" where
  "create_kv_cache_group_specs esz specs names = map_res (merged_group esz specs) names"

definition is_kv_cache_spec_uniform :: "(string \<Rightarrow> int) \<Rightarrow> specs \<Rightarrow> bool res" where
  "is_kv_cache_spec_uniform esz specs =
     (if specs = [] then ok True
      else case merge esz (map snd specs) of
        Inl e \<Rightarrow> if e = AssertionError then ok False else err e
      | Inr _ \<Rightarrow> ok True)"

definition groups_uniform_spec :: "(string \<Rightarrow> int) \<Rightarrow> specs \<Rightarrow> kv_group list res" where
  "groups_uniform_spec esz specs = create_kv_cache_group_specs esz specs [map fst specs]"

definition groups_uniform_type :: "cache_spec \<Rightarrow> kv_group list" where
  "groups_uniform_type g = (case g of Uniform b specs \<Rightarrow> [new_group (map fst specs) g] | Layer s \<Rightarrow> [])"

section \<open>One page size\<close>

definition with_page :: "(string \<Rightarrow> int) \<Rightarrow> int \<Rightarrow> layer_spec \<Rightarrow> layer_spec res" where
  "with_page esz m s = rbind (page_size_bytes esz s) (\<lambda>p. if p = m then ok s else err AssertionError)"

definition unify_layer :: "(string \<Rightarrow> int) \<Rightarrow> int \<Rightarrow> layer_spec \<Rightarrow> layer_spec res" where
  "unify_layer esz m s =
     rbind (page_size_bytes esz s) (\<lambda>p.
       if p = m then ok s
       else case s of
         Mamba k \<Rightarrow> with_page esz m (Mamba (k\<lparr>mb_padded := Some m\<rparr>))
       | _ \<Rightarrow>
         if p = 0 then err ZeroDivisionError
         else if m mod p = 0 then with_page esz m (copy_with_new_block_size esz (block_size s * (m div p)) s)
         else if \<not> is_mla s then with_page esz m (with_attn esz (\<lambda>a. a\<lparr>at_padded := Some m\<rparr>) s)
         else err NotImplementedError)"

definition on_value :: "('v \<Rightarrow> 'w res) \<Rightarrow> 'k \<times> 'v \<Rightarrow> ('k \<times> 'w) res" where
  "on_value f kv = rbind (f (snd kv)) (\<lambda>w. ok (fst kv, w))"

definition unify_kv_cache_spec_page_size :: "(string \<Rightarrow> int) \<Rightarrow> specs \<Rightarrow> specs res" where
  "unify_kv_cache_spec_page_size esz specs =
     rbind (map_res (page_size_bytes esz \<circ> snd) specs) (\<lambda>ps.
       if length (remdups ps) \<le> 1 then ok specs else map_res (on_value (unify_layer esz (max_default ps))) specs)"

section \<open>Groups of equal size\<close>

definition same_type_layers :: "specs \<Rightarrow> (layer_spec \<times> string list) list" where
  "same_type_layers specs = fold (\<lambda>(n, s) d. add_under s n d) specs []"

text \<open>The first bucket the specification can be merged into, or a new one.\<close>

fun place :: "(string \<Rightarrow> int) \<Rightarrow> layer_spec \<Rightarrow> string list \<Rightarrow> (string list \<times> layer_spec list) list \<Rightarrow> (string list \<times> layer_spec list) list res" where
  "place esz s ns [] = ok [(ns, [s])]"
| "place esz s ns ((names, ss) # bs) =
     (case merge_as esz (hd ss) (ss @ [s]) of
        Inr _ \<Rightarrow> ok ((names @ ns, ss @ [s]) # bs)
      | Inl e \<Rightarrow> if e = AssertionError \<or> e = ValueError then rbind (place esz s ns bs) (\<lambda>r. ok ((names, ss) # r)) else err e)"

definition layer_buckets :: "(string \<Rightarrow> int) \<Rightarrow> specs \<Rightarrow> string list list res" where
  "layer_buckets esz specs = rbind (fold_res (\<lambda>(s, ns). place esz s ns) (same_type_layers specs) []) (\<lambda>bs. ok (map fst bs))"

text \<open>The number of layers per group: the smallest bucket, or the largest when it is less than half as long again.\<close>

definition group_size_for :: "nat list \<Rightarrow> nat" where
  "group_size_for ls = (let lo = Min (set ls); hi = Max (set ls) in if 2 * hi < 3 * lo then hi else lo)"

definition split_bucket :: "nat \<Rightarrow> string list \<Rightarrow> string list list" where
  "split_bucket sz ns = (let k = nat (cdiv (int (length ns)) (int sz)) in map (\<lambda>i. every k i ns) [0..<k])"

definition groups_uniform_page_size :: "(string \<Rightarrow> int) \<Rightarrow> specs \<Rightarrow> kv_group list res" where
  "groups_uniform_page_size esz specs =
     rbind (layer_buckets esz specs) (\<lambda>bs.
       if bs = [] then err ValueError
       else create_kv_cache_group_specs esz specs (concat (map (split_bucket (group_size_for (map length bs))) bs)))"

section \<open>Full allocation for local layers\<close>

definition promoted_page_size_padded :: "(string \<Rightarrow> int) \<Rightarrow> attn \<Rightarrow> int \<Rightarrow> int option res" where
  "promoted_page_size_padded esz a b =
     (case at_padded a of None \<Rightarrow> ok None
      | Some p \<Rightarrow> if at_block a = 0 then err ZeroDivisionError
                 else ok (Some (max p (unpadded_page_size_bytes esz a * b div at_block a))))"

definition promoted_attn :: "(string \<Rightarrow> int) \<Rightarrow> int option \<Rightarrow> attn \<Rightarrow> attn res" where
  "promoted_attn esz full a =
     (let b = (case full of Some k \<Rightarrow> if k \<noteq> 0 then k else at_block a | None \<Rightarrow> at_block a) in
      rbind (promoted_page_size_padded esz a b) (\<lambda>p. ok (a\<lparr>at_block := b, at_padded := p\<rparr>)))"

fun promote_layer :: "(string \<Rightarrow> int) \<Rightarrow> int option \<Rightarrow> layer_spec \<Rightarrow> layer_spec res" where
  "promote_layer esz full (Sliding a w x) = rbind (promoted_attn esz full a) (\<lambda>a. ok (FullAttn a (default_full\<lparr>ff_window := Some w\<rparr>)))"
| "promote_layer esz full (SlidingMLA a w x ml) = rbind (promoted_attn esz full a) (\<lambda>a. ok (new_mla esz a (default_full\<lparr>ff_window := Some w\<rparr>) ml False))"
| "promote_layer esz full (ChunkedLocal a k) = rbind (promoted_attn esz full a) (\<lambda>a. ok (FullAttn a (default_full\<lparr>ff_chunk := Some k\<rparr>)))"
| "promote_layer esz full s = ok s"

definition one_type :: "(string \<Rightarrow> int) \<Rightarrow> uniform_base \<Rightarrow> specs \<Rightarrow> bool res" where
  "one_type esz base specs = rbind (is_kv_cache_spec_uniform esz specs) (\<lambda>u. if u then ok True else is_uniform_type esz base specs)"

definition is_window :: "layer_spec \<Rightarrow> bool" where "is_window s = (window_of s \<noteq> None)"

definition is_chunked :: "layer_spec \<Rightarrow> bool" where
  "is_chunked s = (case s of ChunkedLocal _ _ \<Rightarrow> True | _ \<Rightarrow> False)"

definition is_hidden :: "layer_spec \<Rightarrow> bool" where
  "is_hidden s = (case s of HiddenState _ _ _ _ \<Rightarrow> True | _ \<Rightarrow> False)"

definition full_block_size :: "specs \<Rightarrow> int option" where
  "full_block_size specs = (case remdups (map block_size (filter is_full (map snd specs))) of [b] \<Rightarrow> Some b | _ \<Rightarrow> None)"

definition promoted :: "(string \<Rightarrow> int) \<Rightarrow> specs \<Rightarrow> specs res" where
  "promoted esz specs =
     (if list_ex (is_full \<circ> snd) specs \<and> list_ex (\<lambda>(n, s). is_window s \<or> is_chunked s) specs
      then map_res (on_value (promote_layer esz (full_block_size specs))) specs else ok specs)"

definition promote_local_kv_cache_specs :: "(string \<Rightarrow> int) \<Rightarrow> uniform_base \<Rightarrow> specs \<Rightarrow> specs res" where
  "promote_local_kv_cache_specs esz base specs =
     rbind (one_type esz base specs) (\<lambda>u. if u then ok specs
       else rbind (promoted esz specs) (\<lambda>specs'. rbind (one_type esz base specs') (\<lambda>u. if u then ok specs' else err ValueError)))"

definition try_get_full_allocation_fallback_groups :: "(string \<Rightarrow> int) \<Rightarrow> uniform_base \<Rightarrow> specs \<Rightarrow> kv_group list option res" where
  "try_get_full_allocation_fallback_groups esz base specs =
     (let ss = map snd specs in
      if list_ex is_hidden ss then ok None
      else if list_ex (\<lambda>s. sliding_mla_of s \<noteq> None \<or> is_chunked s) ss then ok None
      else if \<not> (list_ex is_mla ss \<and> list_ex is_window ss) then ok None
      else case promote_local_kv_cache_specs esz base specs of
        Inl e \<Rightarrow> if e = ValueError then ok None else err e
      | Inr specs' \<Rightarrow> rbind (from_specs esz base specs') (\<lambda>u. ok (map_option groups_uniform_type u)))"

text \<open>The update of the caller's dictionary: the promoted specifications have the same keys.\<close>

definition unify_hybrid_kv_cache_specs :: "(string \<Rightarrow> int) \<Rightarrow> uniform_base \<Rightarrow> specs \<Rightarrow> specs res" where
  "unify_hybrid_kv_cache_specs esz base specs =
     rbind (one_type esz base specs) (\<lambda>u. if u then ok specs else promote_local_kv_cache_specs esz base specs)"

section \<open>Packing mixed page sizes\<close>

definition padding_of :: "int \<Rightarrow> int list \<Rightarrow> int" where
  "padding_of d xs = sum_list (map (\<lambda>x. (d - x mod d) mod d) xs)"

definition better_chunk :: "int list \<Rightarrow> int \<Rightarrow> int \<times> int option \<Rightarrow> int \<times> int option" where
  "better_chunk xs d s =
     (let pad = padding_of d xs in
      case snd s of None \<Rightarrow> (d, Some pad)
      | Some p \<Rightarrow> if pad < p \<or> (pad = p \<and> fst s < d) then (d, Some pad) else s)"

definition approximate_gcd :: "int list \<Rightarrow> int option \<Rightarrow> int res" where
  "approximate_gcd xs lower =
     (if xs = [] \<or> list_ex (\<lambda>x. x \<le> 0) xs then err ValueError
      else let lo = max 1 (case lower of Some k \<Rightarrow> k | None \<Rightarrow> 1); hi = max_default xs in
        if hi < lo then ok lo else ok (fst (fold (better_chunk xs) [lo..hi] (lo, None))))"

fun place_layer :: "(string \<Rightarrow> int) \<Rightarrow> uniform_base \<Rightarrow> string \<times> layer_spec \<Rightarrow> specs list \<Rightarrow> specs list res" where
  "place_layer esz base ns [] = ok [[ns]]"
| "place_layer esz base ns (b # bs) =
     rbind (is_uniform_type esz base (b @ [ns])) (\<lambda>u.
       if u then ok ((b @ [ns]) # bs) else rbind (place_layer esz base ns bs) (\<lambda>r. ok (b # r)))"

text \<open>A bucket with its layers by page size.\<close>

record bucket =
  bk_specs :: specs
  bk_block :: int
  bk_pages :: "(int \<times> string list) list"

definition bucket_of :: "(string \<Rightarrow> int) \<Rightarrow> uniform_base \<Rightarrow> specs \<Rightarrow> bucket res" where
  "bucket_of esz base specs =
     rbind (from_specs esz base specs) (\<lambda>u.
       case u of
         Some (Uniform b _) \<Rightarrow>
           rbind (fold_res (\<lambda>(n, s) d. rbind (page_size_bytes esz s) (\<lambda>p. ok (add_under p n d))) specs [])
             (\<lambda>d. ok \<lparr>bk_specs = specs, bk_block = b, bk_pages = d\<rparr>)
       | _ \<Rightarrow> err AssertionError)"

definition balanced :: "bucket \<Rightarrow> bool" where
  "balanced b = same_all (map (length \<circ> snd) (bk_pages b))"

definition max_layers_per_page_size :: "bucket \<Rightarrow> int" where
  "max_layers_per_page_size b = max_default (map (int \<circ> length \<circ> snd) (bk_pages b))"

definition min_repeats_per_group :: "bucket list \<Rightarrow> int" where
  "min_repeats_per_group bs = max_default (map max_layers_per_page_size (filter (\<lambda>b. balanced b \<and> 1 < length (bk_pages b)) bs))"

definition repeats_per_group :: "bucket list \<Rightarrow> int option res" where
  "repeats_per_group bs =
     (let lo = min_repeats_per_group bs in
      if lo \<noteq> 0 then rbind (approximate_gcd (map max_layers_per_page_size (filter balanced bs)) (Some lo)) (\<lambda>r. ok (Some r)) else ok None)"

definition num_groups_for :: "int option \<Rightarrow> bucket \<Rightarrow> int" where
  "num_groups_for rep b = (case rep of Some r \<Rightarrow> if balanced b then cdiv (max_layers_per_page_size b) r else 1 | None \<Rightarrow> 1)"

definition widest_group_bytes :: "(int \<times> string list) list \<Rightarrow> int \<Rightarrow> int" where
  "widest_group_bytes pages n = sum_list (map (\<lambda>(page, ns). cdiv (int (length ns)) n * page) pages)"

definition mamba_bucket :: "bucket \<Rightarrow> bool" where
  "mamba_bucket b = (case bk_specs b of (n, s) # _ \<Rightarrow> is_mamba s | [] \<Rightarrow> False)"

definition anchor_bytes :: "int option \<Rightarrow> bucket list \<Rightarrow> int" where
  "anchor_bytes rep bs =
     max_default (map (\<lambda>b. widest_group_bytes (bk_pages b)
       (if mamba_bucket b then int (length (bk_specs b)) else num_groups_for rep b)) bs)"

definition num_groups :: "(string \<Rightarrow> int) \<Rightarrow> int \<Rightarrow> int option \<Rightarrow> bucket \<Rightarrow> int res" where
  "num_groups esz anchor rep b =
     (if anchor \<noteq> 0 \<and> mamba_bucket b then
        rbind (page_size_bytes esz (snd (hd (bk_specs b)))) (\<lambda>p.
          if p = 0 then err ZeroDivisionError
          else ok (max (num_groups_for rep b) (cdiv (int (length (bk_specs b))) (max (anchor div p) 1))))
      else ok (num_groups_for rep b))"

text \<open>\<^verbatim>\<open>zip(*lists)\<close>: one layer of each page size per repeat, as many repeats as the shortest list has.\<close>

definition pattern_repeats :: "string list list \<Rightarrow> string list list" where
  "pattern_repeats xss = (if xss = [] then [] else map (\<lambda>i. map (\<lambda>xs. xs ! i) xss) [0..<Min (set (map length xss))])"

definition packed_group :: "(string \<Rightarrow> int) \<Rightarrow> uniform_base \<Rightarrow> bucket \<Rightarrow> string list \<Rightarrow> kv_group res" where
  "packed_group esz base b ns =
     rbind (map_res (\<lambda>n. rbind (spec_at (bk_specs b) n) (\<lambda>s. ok (n, s))) ns) (\<lambda>specs.
     rbind (from_specs esz base specs) (\<lambda>u. case u of Some g \<Rightarrow> ok (new_group ns g) | None \<Rightarrow> err AssertionError))"

definition split_packed :: "(string \<Rightarrow> int) \<Rightarrow> uniform_base \<Rightarrow> int \<Rightarrow> int option \<Rightarrow> bucket \<Rightarrow> kv_group list res" where
  "split_packed esz base anchor rep b =
     rbind (num_groups esz anchor rep b) (\<lambda>k.
       if k = 1 then ok [new_group (map fst (bk_specs b)) (Uniform (bk_block b) (bk_specs b))]
       else let rs = pattern_repeats (map snd (bk_pages b)) in
         map_res (\<lambda>i. packed_group esz base b (concat (every (nat k) i rs))) [0..<nat k])"

definition is_deepseek_v4_eagle :: "plan_config \<Rightarrow> bool" where
  "is_deepseek_v4_eagle pc = (pc_eagle pc \<and> pc_model_type pc = Some ''deepseek_v4'')"

definition drafter_layer :: "layer_spec \<Rightarrow> bool" where
  "drafter_layer s = (case s of MLA _ _ _ b \<Rightarrow> b | HiddenState _ _ _ b \<Rightarrow> b | _ \<Rightarrow> False)"

fun mark_first :: "string \<Rightarrow> kv_group list \<Rightarrow> kv_group list" where
  "mark_first n [] = []"
| "mark_first n (g # gs) = (if n \<in> set (kg_layers g) then g\<lparr>kg_eagle := True\<rparr> # gs else g # mark_first n gs)"

definition annotate_eagle_groups :: "plan_config \<Rightarrow> specs \<Rightarrow> kv_group list \<Rightarrow> bool \<Rightarrow> kv_group list res" where
  "annotate_eagle_groups pc specs gs fallback =
     (if \<not> pc_eagle pc then ok gs
      else let gs' = map (\<lambda>g. if list_ex drafter_layer (iter_layer_specs (kg_spec g)) then g\<lparr>kg_eagle := True\<rparr> else g) gs in
        if \<not> fallback then ok gs'
        else if specs = [] then err StopIteration else ok (mark_first (fst (last specs)) gs'))"

definition get_packed_kv_cache_groups :: "(string \<Rightarrow> int) \<Rightarrow> uniform_base \<Rightarrow> plan_config \<Rightarrow> specs \<Rightarrow> kv_group list option res" where
  "get_packed_kv_cache_groups esz base pc specs =
     rbind (map_res (page_size_bytes esz \<circ> snd) specs) (\<lambda>ps.
       if \<not> lo_block_outermost (pc_layout pc) \<or> length (remdups ps) \<le> 1 then ok None
       else rbind (fold_res (place_layer esz base) specs []) (\<lambda>raw.
            rbind (map_res (bucket_of esz base) raw) (\<lambda>bs.
            rbind (repeats_per_group bs) (\<lambda>rep.
            rbind (map_res (split_packed esz base (anchor_bytes rep bs) rep) bs) (\<lambda>gss.
            rbind (annotate_eagle_groups pc specs (concat gss) (is_deepseek_v4_eagle pc)) (\<lambda>gs. ok (Some gs)))))))"

section \<open>All groups\<close>

definition largest_divisor_at_most :: "int \<Rightarrow> int \<Rightarrow> int" where
  "largest_divisor_at_most value limit = (case find (\<lambda>d. value mod d = 0) (rev [1..min value limit]) of Some d \<Rightarrow> d | None \<Rightarrow> 1)"

text \<open>A hidden-state layer on the common page; the logged share of waste divides by the page.\<close>

definition hidden_group :: "(string \<Rightarrow> int) \<Rightarrow> int \<Rightarrow> int \<Rightarrow> string \<times> layer_spec \<Rightarrow> kv_group res" where
  "hidden_group esz page block ns =
     (let a = the (attn_of (snd ns)); per_token = at_heads a * at_head_size a * esz (at_dtype a) in
      if per_token = 0 \<or> page = 0 then err ZeroDivisionError
      else let b = largest_divisor_at_most block (max (page div per_token) 1) in
        ok (new_group [fst ns] (Layer (with_attn esz (\<lambda>a. a\<lparr>at_block := b, at_padded := Some page\<rparr>) (snd ns)))))"

definition hidden_groups :: "(string \<Rightarrow> int) \<Rightarrow> kv_group list \<Rightarrow> specs \<Rightarrow> kv_group list res" where
  "hidden_groups esz gs hidden =
     (if hidden = [] then ok []
      else rbind (get_uniform_page_size esz (map kg_spec gs)) (\<lambda>page.
        map_res (hidden_group esz page (gcd_all (map (group_block_size \<circ> kg_spec) gs))) hidden))"

text \<open>The tail of \<^verbatim>\<open>get_kv_cache_groups\<close> for mixed types.\<close>

definition groups_mixed :: "(string \<Rightarrow> int) \<Rightarrow> uniform_base \<Rightarrow> plan_config \<Rightarrow> specs \<Rightarrow> specs \<Rightarrow> specs \<Rightarrow> kv_group list res" where
  "groups_mixed esz base pc specs hidden plain =
     (case unify_kv_cache_spec_page_size esz plain of
        Inl e \<Rightarrow>
          if e = NotImplementedError then
            rbind (try_get_full_allocation_fallback_groups esz base specs) (\<lambda>f. case f of None \<Rightarrow> err NotImplementedError | Some gs \<Rightarrow> ok gs)
          else err e
      | Inr plain' \<Rightarrow>
          rbind (groups_uniform_page_size esz plain') (\<lambda>gs.
          rbind (hidden_groups esz gs hidden) (\<lambda>hs. annotate_eagle_groups pc specs (gs @ hs) False)))"

definition groups_by_type :: "(string \<Rightarrow> int) \<Rightarrow> uniform_base \<Rightarrow> plan_config \<Rightarrow> specs \<Rightarrow> kv_group list res" where
  "groups_by_type esz base pc specs =
     (let hidden = filter (is_hidden \<circ> snd) specs; plain = filter (Not \<circ> (is_hidden \<circ> snd)) specs in
      rbind (get_packed_kv_cache_groups esz base pc plain) (\<lambda>packed.
        if packed = None \<or> packed = Some [] then groups_mixed esz base pc specs hidden plain
        else ok (the packed @ map (\<lambda>(n, s). new_group [n] (Layer s)) hidden)))"

definition groups_of_specs :: "(string \<Rightarrow> int) \<Rightarrow> uniform_base \<Rightarrow> plan_config \<Rightarrow> specs \<Rightarrow> kv_group list res" where
  "groups_of_specs esz base pc specs =
     (if specs = [] then ok []
      else rbind (is_kv_cache_spec_uniform esz specs) (\<lambda>u.
        if u then groups_uniform_spec esz specs
        else rbind (from_specs esz base specs) (\<lambda>ut.
          case ut of Some g \<Rightarrow> ok (groups_uniform_type g) | None \<Rightarrow> groups_by_type esz base pc specs)))"

definition get_kv_cache_groups :: "(string \<Rightarrow> int) \<Rightarrow> uniform_base \<Rightarrow> plan_config \<Rightarrow> specs \<Rightarrow> (kv_group list \<times> specs) res" where
  "get_kv_cache_groups esz base pc specs =
     rbind (if pc_disable_hybrid pc then unify_hybrid_kv_cache_specs esz base specs else ok specs) (\<lambda>specs'.
     rbind (groups_of_specs esz base pc specs') (\<lambda>gs. ok (gs, specs')))"

section \<open>No layer is lost\<close>

text \<open>Names of the layers of groups; a group is whole when it has layers and a uniform specification for exactly these.\<close>

definition group_names :: "kv_group list \<Rightarrow> string list" where
  "group_names gs = concat (map kg_layers gs)"

definition whole_group :: "kv_group \<Rightarrow> bool" where
  "whole_group g = (kg_layers g \<noteq> [] \<and> (case kg_spec g of Uniform b specs \<Rightarrow> map fst specs = kg_layers g | Layer s \<Rightarrow> True))"

definition covers :: "kv_group list \<Rightarrow> string list \<Rightarrow> bool" where
  "covers gs ns = (mset (group_names gs) = mset ns \<and> list_all whole_group gs)"

lemma map_res_ok: "map_res f xs = ok ys \<longleftrightarrow> list_all2 (\<lambda>x y. f x = ok y) xs ys"
proof (induction xs arbitrary: ys)
  case (Cons x xs)
  show ?case by (cases ys) (auto simp: rbind_ok_iff Cons.IH)
qed auto

lemma map_res_keys: "map_res (on_value f) specs = ok specs' \<Longrightarrow> map fst specs' = map fst specs"
  unfolding map_res_ok by (induction specs specs' rule: list_all2_induct) (auto simp: on_value_def rbind_ok_iff)

lemma map_res_layers:
  assumes "map_res f xs = ok gs" and "\<And>x g. x \<in> set xs \<Longrightarrow> f x = ok g \<Longrightarrow> kg_layers g = h x \<and> whole_group g"
  shows "group_names gs = concat (map h xs) \<and> list_all whole_group gs"
  using assms
proof (induction xs arbitrary: gs)
  case (Cons x xs)
  from Cons.prems(1) obtain g gs' where g: "f x = ok g" "map_res f xs = ok gs'" "gs = g # gs'" by (auto simp: rbind_ok_iff)
  from Cons.prems(2) [of x g] g(1) Cons.IH [OF g(2) Cons.prems(2)] show ?case by (simp add: g(3) group_names_def)
qed (simp add: group_names_def)

text \<open>Interleaved slices share out a list.\<close>

lemma filter_mod_shares:
  assumes "0 < n"
  shows "mset (concat (map (\<lambda>i. filter (\<lambda>j. j mod n = i) js) [0..<n])) = mset js"
proof (rule multiset_eqI)
  fix x :: nat
  have "count (mset (concat (map (\<lambda>i. filter (\<lambda>j. j mod n = i) js) [0..<k]))) x = (if x mod n < k then count (mset js) x else 0)" for k
    by (induction k) (auto simp: less_Suc_eq)
  then show "count (mset (concat (map (\<lambda>i. filter (\<lambda>j. j mod n = i) js) [0..<n]))) x = count (mset js) x"
    using assms by simp
qed

lemma every_shares: "0 < n \<Longrightarrow> mset (concat (map (\<lambda>i. every n i xs) [0..<n])) = mset xs"
proof -
  assume n: "0 < n"
  have "concat (map (\<lambda>i. every n i xs) [0..<n]) = map ((!) xs) (concat (map (\<lambda>i. filter (\<lambda>j. j mod n = i) [0..<length xs]) [0..<n]))"
    by (simp add: every_def map_concat comp_def)
  then have "mset (concat (map (\<lambda>i. every n i xs) [0..<n])) = mset (map ((!) xs) [0..<length xs])"
    by (simp only: mset_map filter_mod_shares [OF n])
  then show ?thesis by (simp only: map_nth)
qed

lemma mset_concat_cong: "(\<And>x. x \<in> set xs \<Longrightarrow> mset (f x) = mset (g x)) \<Longrightarrow> mset (concat (map f xs)) = mset (concat (map g xs))"
  by (induction xs) auto

lemma concat_concat: "concat (concat xs) = concat (map concat xs)"
  by (induction xs) auto

lemma mset_concat_image: "mset (concat xss) = \<Sum>\<^sub># (image_mset mset (mset xss))"
  by (induction xss) auto

lemma mset_concat_perm: "mset xss = mset yss \<Longrightarrow> mset (concat xss) = mset (concat yss)"
  by (simp only: mset_concat_image)

lemma concat_concat_shares:
  assumes "0 < n"
  shows "mset (concat (map (\<lambda>i. concat (every n i xss)) [0..<n])) = mset (concat xss)"
proof -
  have "mset (concat (map (\<lambda>i. concat (every n i xss)) [0..<n])) = mset (concat (concat (map (\<lambda>i. every n i xss) [0..<n])))"
    by (simp add: concat_concat comp_def)
  then show ?thesis using mset_concat_perm [OF every_shares [OF assms, of xss]] by simp
qed

text \<open>The dictionaries of lists keep every entry.\<close>

lemma add_under_mset: "mset (concat (map snd (add_under k v d))) = add_mset v (mset (concat (map snd d)))"
  by (induction d rule: add_under.induct) auto

lemma fold_add_under_mset:
  "mset (concat (map snd (fold (\<lambda>(n, s) d. add_under s n d) specs d))) = mset (map fst specs) + mset (concat (map snd d))"
proof (induction specs arbitrary: d)
  case (Cons a specs)
  then show ?case by (cases a) (simp add: add_under_mset)
qed simp

lemma same_type_layers_mset: "mset (concat (map snd (same_type_layers specs))) = mset (map fst specs)"
  by (simp add: same_type_layers_def fold_add_under_mset)

lemma add_under_nonempty: "\<forall>e \<in> set d. snd e \<noteq> [] \<Longrightarrow> \<forall>e \<in> set (add_under k v d). snd e \<noteq> []"
  by (induction d rule: add_under.induct) auto

lemma same_type_layers_nonempty: "\<forall>e \<in> set (same_type_layers specs). snd e \<noteq> []"
proof -
  have P: "\<forall>e \<in> set d. snd e \<noteq> [] \<Longrightarrow> \<forall>e \<in> set (fold (\<lambda>(n, s) d. add_under s n d) specs d). snd e \<noteq> []" for d
  proof (induction specs arbitrary: d)
    case (Cons a specs)
    obtain n s where a: "a = (n, s)" by force
    show ?case using Cons.IH [of "add_under s n d"] add_under_nonempty [OF Cons.prems] by (simp add: a)
  qed simp
  show ?thesis unfolding same_type_layers_def by (rule P) simp
qed

section \<open>Groups of equal size\<close>

lemma place_mset:
  "place esz s ns bs = ok r \<Longrightarrow> mset (concat (map fst r)) = mset ns + mset (concat (map fst bs))"
  by (induction esz s ns bs arbitrary: r rule: place.induct) (auto simp: rbind_ok_iff split: sum.splits if_splits)

lemma place_nonempty:
  "place esz s ns bs = ok r \<Longrightarrow> ns \<noteq> [] \<Longrightarrow> \<forall>b \<in> set bs. fst b \<noteq> [] \<Longrightarrow> \<forall>b \<in> set r. fst b \<noteq> []"
proof (induction bs arbitrary: r)
  case (Cons b bs)
  then show ?case by (cases b) (force simp: rbind_ok_iff split: sum.splits if_splits)
qed simp

lemma place_all:
  assumes "fold_res (\<lambda>(s, ns). place esz s ns) ts bs = ok r" and "\<forall>e \<in> set ts. snd e \<noteq> []" and "\<forall>b \<in> set bs. fst b \<noteq> []"
  shows "mset (concat (map fst r)) = mset (concat (map snd ts)) + mset (concat (map fst bs)) \<and> (\<forall>b \<in> set r. fst b \<noteq> [])"
  using assms
proof (induction ts arbitrary: bs)
  case (Cons t ts)
  obtain s ns where t: "t = (s, ns)" by force
  from Cons.prems(1) obtain bs' where b: "place esz s ns bs = ok bs'" "fold_res (\<lambda>(s, ns). place esz s ns) ts bs' = ok r"
    by (auto simp: t rbind_ok_iff)
  have "\<forall>b \<in> set bs'. fst b \<noteq> []" using place_nonempty [OF b(1)] Cons.prems(2,3) by (simp add: t)
  with Cons.IH [OF b(2)] Cons.prems(2) place_mset [OF b(1)] show ?case by (simp add: t)
qed simp

lemma layer_buckets_share:
  assumes "layer_buckets esz specs = ok bs"
  shows "mset (concat bs) = mset (map fst specs)" and "\<forall>b \<in> set bs. b \<noteq> []"
proof -
  from assms obtain r where r: "fold_res (\<lambda>(s, ns). place esz s ns) (same_type_layers specs) [] = ok r" "bs = map fst r"
    by (auto simp: layer_buckets_def rbind_ok_iff)
  from place_all [OF r(1) same_type_layers_nonempty] r(2)
  show "mset (concat bs) = mset (map fst specs)" and "\<forall>b \<in> set bs. b \<noteq> []"
    by (auto simp: same_type_layers_mset)
qed

lemma cdiv_pos: "0 < a \<Longrightarrow> 0 < b \<Longrightarrow> 0 < cdiv a b"
  by (simp add: cdiv_def pos_imp_zdiv_neg_iff)

lemma split_bucket_share: "0 < sz \<Longrightarrow> ns \<noteq> [] \<Longrightarrow> mset (concat (split_bucket sz ns)) = mset ns"
  using cdiv_pos [of "int (length ns)" "int sz"] by (simp add: split_bucket_def Let_def every_shares)

lemma group_size_pos: "bs \<noteq> [] \<Longrightarrow> \<forall>b \<in> set bs. b \<noteq> [] \<Longrightarrow> 0 < group_size_for (map length bs)"
proof -
  assume bs: "bs \<noteq> []" "\<forall>b \<in> set bs. b \<noteq> []"
  then have "0 < x" if "x \<in> length ` set bs" for x using that by auto
  moreover have "Min (length ` set bs) \<in> length ` set bs" "Max (length ` set bs) \<in> length ` set bs"
    using bs(1) by (auto intro!: Min_in Max_in)
  ultimately show ?thesis by (simp add: group_size_for_def Let_def)
qed

lemma merged_group_layers: "merged_group esz specs ns = ok g \<Longrightarrow> kg_layers g = ns \<and> whole_group g"
  by (cases ns) (auto simp: merged_group_def rbind_ok_iff merge_def new_group_def whole_group_def)

lemma create_covers: "create_kv_cache_group_specs esz specs names = ok gs \<Longrightarrow> group_names gs = concat names \<and> list_all whole_group gs"
  using map_res_layers [of "merged_group esz specs" names gs "\<lambda>x. x"] merged_group_layers
  by (fastforce simp: create_kv_cache_group_specs_def)

lemma uniform_page_size_covers:
  assumes "groups_uniform_page_size esz specs = ok gs"
  shows "covers gs (map fst specs)"
proof -
  from assms obtain bs where bs: "layer_buckets esz specs = ok bs" "bs \<noteq> []"
    "create_kv_cache_group_specs esz specs (concat (map (split_bucket (group_size_for (map length bs))) bs)) = ok gs"
    by (auto simp: groups_uniform_page_size_def rbind_ok_iff split: if_splits)
  note share = layer_buckets_share [OF bs(1)]
  let ?split = "split_bucket (group_size_for (map length bs))"
  have "mset (concat (concat (map ?split bs))) = mset (concat (map (concat \<circ> ?split) bs))"
    by (simp add: concat_concat comp_def)
  also have "\<dots> = mset (concat (map (\<lambda>b. b) bs))"
    using share(2) group_size_pos [OF bs(2)] by (intro mset_concat_cong) (simp add: split_bucket_share)
  finally show ?thesis using share(1) create_covers [OF bs(3)] by (simp add: covers_def)
qed

section \<open>Packed groups\<close>

lemma from_specs_ok:
  assumes "from_specs esz base specs = ok (Some g)"
  shows "g = Uniform (block_size (snd (hd specs))) specs" and "is_uniform_type esz base specs = ok True" and "specs \<noteq> []"
  using assms by (auto simp: from_specs_def is_uniform_type_def Let_def rbind_ok_iff split: if_splits)

lemma place_layer_mset:
  "place_layer esz base n bs = ok r \<Longrightarrow> mset (concat r) = add_mset n (mset (concat bs))"
proof (induction bs arbitrary: r)
  case (Cons b bs)
  then show ?case by (auto simp: rbind_ok_iff split: if_splits)
qed simp

lemma place_layers_mset:
  "fold_res (place_layer esz base) specs bs = ok r \<Longrightarrow> mset (concat r) = mset specs + mset (concat bs)"
proof (induction specs arbitrary: bs)
  case (Cons a specs)
  then obtain bs' where b: "place_layer esz base a bs = ok bs'" "fold_res (place_layer esz base) specs bs' = ok r"
    by (auto simp: rbind_ok_iff)
  from place_layer_mset [OF b(1)] Cons.IH [OF b(2)] show ?case by simp
qed simp

text \<open>A bucket by page size: its names, and its page sizes come from its layers.\<close>

abbreviation page_step :: "(string \<Rightarrow> int) \<Rightarrow> string \<times> layer_spec \<Rightarrow> (int \<times> string list) list \<Rightarrow> (int \<times> string list) list res" where
  "page_step esz \<equiv> \<lambda>(n, s) d. rbind (page_size_bytes esz s) (\<lambda>p. ok (add_under p n d))"

lemma pages_fold:
  "fold_res (page_step esz) specs d = ok d' \<Longrightarrow> mset (concat (map snd d')) = mset (map fst specs) + mset (concat (map snd d))
    \<and> ((\<forall>e \<in> set d. snd e \<noteq> []) \<longrightarrow> (\<forall>e \<in> set d'. snd e \<noteq> []))"
proof (induction specs arbitrary: d)
  case (Cons a specs)
  obtain n s where a: "a = (n, s)" by force
  from Cons.prems obtain q where q: "fold_res (page_step esz) specs (add_under q n d) = ok d'"
    by (auto simp: a rbind_ok_iff)
  have "(\<forall>e \<in> set d. snd e \<noteq> []) \<longrightarrow> (\<forall>e \<in> set d'. snd e \<noteq> [])"
    using conjunct2 [OF Cons.IH [OF q]] add_under_nonempty [of d q n] by blast
  moreover have "mset (concat (map snd d')) = mset (map fst (a # specs)) + mset (concat (map snd d))"
    using conjunct1 [OF Cons.IH [OF q]] by (simp add: a add_under_mset del: mset_concat)
  ultimately show ?case by (intro conjI)
qed simp

lemma pages_fold_single:
  "fold_res (page_step esz) specs [(p, ns)] = ok d' \<Longrightarrow> \<forall>s \<in> snd ` set specs. page_size_bytes esz s = ok p \<Longrightarrow> length d' = 1"
proof (induction specs arbitrary: ns)
  case (Cons a specs)
  then show ?case by (cases a) auto
qed auto

lemma all_res_true: "all_res p xs = ok True \<Longrightarrow> x \<in> set xs \<Longrightarrow> p x = ok True"
  by (induction xs) (auto simp: rbind_ok_iff split: if_splits)

lemma mamba_uniform_pages:
  assumes "is_uniform_type esz base specs = ok True" and "is_mamba (snd (hd specs))" and "s \<in> snd ` set specs"
  shows "page_size_bytes esz s = page_size_bytes esz (snd (hd specs))"
proof -
  from assms(2) obtain m where m: "snd (hd specs) = Mamba m" by (cases "snd (hd specs)") auto
  from assms(1) have "is_uniform_with_collection esz base (snd (hd specs)) (map snd specs) = ok True"
    by (cases specs) (auto simp: is_uniform_type_def Let_def split: if_splits)
  note u = this [unfolded m is_uniform_with_collection.simps]
  have "s \<in> set (map snd specs)" using assms(3) by simp
  from all_res_true [OF u this] show ?thesis
    by (auto simp: m rbind_ok_iff split: layer_spec.splits if_splits)
qed

definition good_bucket :: "bucket \<Rightarrow> bool" where
  "good_bucket b = (bk_specs b \<noteq> [] \<and> mset (concat (map snd (bk_pages b))) = mset (map fst (bk_specs b))
     \<and> list_all (\<lambda>e. snd e \<noteq> []) (bk_pages b) \<and> (mamba_bucket b \<longrightarrow> length (bk_pages b) = 1))"

lemma bucket_of_good:
  assumes "bucket_of esz base specs = ok b"
  shows "bk_specs b = specs" and "good_bucket b"
proof -
  from assms obtain u where u: "from_specs esz base specs = ok u" by (auto simp: bucket_of_def rbind_ok_iff)
  then obtain g where g: "from_specs esz base specs = ok (Some g)" using assms by (cases u) (auto simp: bucket_of_def)
  have "\<exists>d. fold_res (page_step esz) specs [] = ok d \<and> bk_specs b = specs \<and> bk_pages b = d"
    using assms g by (cases g) (auto simp: bucket_of_def rbind_ok_iff)
  then obtain d where d: "fold_res (page_step esz) specs [] = ok d" and b: "bk_specs b = specs" "bk_pages b = d" by blast
  note f = from_specs_ok [OF g]
  show "bk_specs b = specs" by (fact b(1))
  have "length d = 1" if "is_mamba (snd (hd specs))"
  proof -
    obtain n s rest where s: "specs = (n, s) # rest" using f(3) by (metis neq_Nil_conv surj_pair)
    obtain p where p: "page_size_bytes esz s = ok p"
      using d by (cases "page_size_bytes esz s") (simp_all add: s)
    have "page_size_bytes esz t = ok p" if t: "t \<in> snd ` set rest" for t
      using mamba_uniform_pages [OF f(2) \<open>is_mamba (snd (hd specs))\<close>, of t] t p by (simp add: s)
    then have "\<forall>s \<in> snd ` set rest. page_size_bytes esz s = ok p" by blast
    moreover have "fold_res (page_step esz) rest [(p, [n])] = ok d" using d p by (simp add: s)
    ultimately show ?thesis by (rule pages_fold_single [rotated])
  qed
  then show "good_bucket b"
    using pages_fold [OF d] f(3) b
    by (auto simp: good_bucket_def list_all_iff mamba_bucket_def neq_Nil_conv)
qed

text \<open>The chunk has the least total padding, and is the largest such one.\<close>

lemma max_default_Max: "xs \<noteq> [] \<Longrightarrow> max_default xs = Max (set xs)"
proof (cases xs)
  case (Cons y ys)
  then show ?thesis using Max.set_eq_fold [of y ys] by (simp add: max_default_def)
qed simp

lemma better_chunks:
  assumes "ds \<noteq> []"
  shows "\<exists>d. fold (better_chunk xs) ds (lo, None) = (d, Some (padding_of d xs)) \<and> d \<in> set ds
    \<and> (\<forall>d' \<in> set ds. padding_of d xs \<le> padding_of d' xs \<and> (padding_of d xs = padding_of d' xs \<longrightarrow> d' \<le> d))"
  using assms
proof (induction ds rule: rev_induct)
  case (snoc x ds)
  show ?case
  proof (cases "ds = []")
    case True
    then show ?thesis by (simp add: better_chunk_def Let_def)
  next
    case False
    from snoc.IH [OF this] obtain d where d: "fold (better_chunk xs) ds (lo, None) = (d, Some (padding_of d xs))" "d \<in> set ds"
      "\<forall>d' \<in> set ds. padding_of d xs \<le> padding_of d' xs \<and> (padding_of d xs = padding_of d' xs \<longrightarrow> d' \<le> d)" by blast
    have step: "fold (better_chunk xs) (ds @ [x]) (lo, None) = better_chunk xs x (d, Some (padding_of d xs))" by (simp add: d(1))
    show ?thesis
    proof (cases "padding_of x xs < padding_of d xs \<or> (padding_of x xs = padding_of d xs \<and> d < x)")
      case True
      have "padding_of x xs \<le> padding_of d' xs \<and> (padding_of x xs = padding_of d' xs \<longrightarrow> d' \<le> x)" if "d' \<in> set ds" for d'
        using True d(3) that by force
      then show ?thesis unfolding step using True by (auto simp: better_chunk_def Let_def)
    next
      case False
      then show ?thesis unfolding step using d(2,3) by (auto simp: better_chunk_def Let_def)
    qed
  qed
qed simp

lemma approximate_gcd_best:
  assumes "approximate_gcd xs lower = ok d" and "lo = max 1 (case lower of Some k \<Rightarrow> k | None \<Rightarrow> 1)"
  shows "lo \<le> d" and "\<And>d'. lo \<le> d' \<Longrightarrow> d' \<le> Max (set xs) \<Longrightarrow> padding_of d xs \<le> padding_of d' xs \<and> (padding_of d xs = padding_of d' xs \<longrightarrow> d' \<le> d)"
proof -
  have ne: "xs \<noteq> []" and d: "d = (if max_default xs < lo then lo else fst (fold (better_chunk xs) [lo..max_default xs] (lo, None)))"
    using assms by (auto simp: approximate_gcd_def Let_def split: if_splits)
  have b: "[lo..max_default xs] \<noteq> []" if "\<not> max_default xs < lo" using that by simp
  show "lo \<le> d" using better_chunks [OF b, of xs lo] d by (auto split: if_splits)
  show "padding_of d xs \<le> padding_of d' xs \<and> (padding_of d xs = padding_of d' xs \<longrightarrow> d' \<le> d)" if "lo \<le> d'" "d' \<le> Max (set xs)" for d'
    using better_chunks [OF b, of xs lo] d that by (auto simp: max_default_Max [OF ne] split: if_splits)
qed

text \<open>Layers taken one of each page size.\<close>

lemma concat_map_Cons: "mset (concat (map (\<lambda>i. f i # g i) js)) = mset (map f js) + mset (concat (map g js))"
  by (induction js) auto

lemma transpose_shares:
  "\<forall>xs \<in> set xss. length xs = m \<Longrightarrow> mset (concat (map (\<lambda>i. map (\<lambda>xs. xs ! i) xss) [0..<m])) = mset (concat xss)"
proof (induction xss)
  case (Cons xs xss)
  then have "mset (concat (map (\<lambda>i. map (\<lambda>xs. xs ! i) xss) [0..<m])) = mset (concat xss)" by simp
  moreover have "map (\<lambda>i. xs ! i) [0..<m] = xs" using Cons.prems by (auto simp: map_nth)
  ultimately show ?case
    using concat_map_Cons [of "\<lambda>i. xs ! i" "\<lambda>i. map (\<lambda>xs. xs ! i) xss" "[0..<m]"] by simp
qed (induction m, auto)

lemma pattern_repeats_share:
  assumes "\<forall>xs \<in> set xss. length xs = m"
  shows "mset (concat (pattern_repeats xss)) = mset (concat xss)"
proof (cases "xss = []")
  case False
  have "length ` set xss = {m}" using assms False by (auto simp: image_iff neq_Nil_conv)
  then show ?thesis using transpose_shares [OF assms] False by (simp add: pattern_repeats_def)
qed (simp add: pattern_repeats_def)

lemma packed_group_layers:
  assumes "packed_group esz base b ns = ok g"
  shows "kg_layers g = ns \<and> whole_group g"
proof -
  from assms obtain specs u where s: "map_res (\<lambda>n. rbind (spec_at (bk_specs b) n) (\<lambda>s. ok (n, s))) ns = ok specs"
    "from_specs esz base specs = ok (Some u)" "g = new_group ns u"
    by (auto simp: packed_group_def rbind_ok_iff split: option.splits)
  have "map fst specs = ns" using s(1) unfolding map_res_ok
    by (induction ns specs rule: list_all2_induct) (auto simp: rbind_ok_iff)
  then show ?thesis using from_specs_ok [OF s(2)] s(3) by (auto simp: new_group_def whole_group_def)
qed

text \<open>A good bucket is split into at least one group.\<close>

lemma max_layers_pos:
  assumes "good_bucket b"
  shows "0 < max_layers_per_page_size b"
proof -
  have "bk_pages b \<noteq> []" using assms by (auto simp: good_bucket_def)
  then obtain e es where e: "bk_pages b = e # es" by (cases "bk_pages b") auto
  then have "int (length (snd e)) \<le> Max (set (map (int \<circ> length \<circ> snd) (bk_pages b)))" by (intro Max_ge) auto
  moreover have "0 < length (snd e)" using assms e by (simp add: good_bucket_def)
  moreover have "max_layers_per_page_size b = Max (set (map (int \<circ> length \<circ> snd) (bk_pages b)))"
    unfolding max_layers_per_page_size_def by (rule max_default_Max) (simp add: e)
  ultimately show ?thesis by linarith
qed

lemma num_groups_for_pos: "good_bucket b \<Longrightarrow> (\<And>r. rep = Some r \<Longrightarrow> 0 < r) \<Longrightarrow> 0 < num_groups_for rep b"
  using max_layers_pos by (auto simp: num_groups_for_def intro: cdiv_pos split: option.split)

lemma num_groups_pos:
  assumes "num_groups esz anchor rep b = ok k" and "good_bucket b" and "\<And>r. rep = Some r \<Longrightarrow> 0 < r"
  shows "0 < k"
proof -
  have "0 < num_groups_for rep b" using assms(2,3) by (rule num_groups_for_pos)
  then show ?thesis using assms(1) by (auto simp: num_groups_def rbind_ok_iff less_max_iff_disj split: if_splits)
qed

lemma same_all_ex: "same_all xs \<Longrightarrow> \<exists>m. \<forall>x \<in> set xs. x = m"
proof -
  assume "same_all xs"
  then obtain m where "remdups xs = [m]" by (auto simp: same_all_def length_Suc_conv)
  then have "set xs = {m}" by (metis list.set(1) list.set(2) set_remdups)
  then show ?thesis by blast
qed

lemma split_lengths:
  assumes "num_groups esz anchor rep b = ok k" and "k \<noteq> 1" and "good_bucket b"
  shows "\<exists>m. \<forall>xs \<in> set (map snd (bk_pages b)). length xs = m"
proof (cases "mamba_bucket b")
  case True
  then obtain e where "bk_pages b = [e]" using assms(3) by (auto simp: good_bucket_def length_Suc_conv)
  then show ?thesis by simp
next
  case False
  then have "balanced b" using assms(1,2) by (auto simp: num_groups_def num_groups_for_def split: option.splits if_splits)
  then show ?thesis using same_all_ex [of "map (length \<circ> snd) (bk_pages b)"] by (auto simp: balanced_def)
qed

lemma split_packed_covers:
  assumes "split_packed esz base anchor rep b = ok gs" and "good_bucket b" and "\<And>r. rep = Some r \<Longrightarrow> 0 < r"
  shows "covers gs (map fst (bk_specs b))"
proof -
  from assms(1) obtain k where k: "num_groups esz anchor rep b = ok k" by (auto simp: split_packed_def rbind_ok_iff)
  let ?rs = "pattern_repeats (map snd (bk_pages b))"
  show ?thesis
  proof (cases "k = 1")
    case True
    then show ?thesis using assms(1,2) k
      by (auto simp: split_packed_def covers_def group_names_def new_group_def whole_group_def good_bucket_def)
  next
    case False
    from split_lengths [OF k False assms(2)] obtain m where m: "\<forall>xs \<in> set (map snd (bk_pages b)). length xs = m" by blast
    have "map_res (\<lambda>i. packed_group esz base b (concat (every (nat k) i ?rs))) [0..<nat k] = ok gs"
      using assms(1) k False by (simp add: split_packed_def Let_def)
    from map_res_layers [OF this packed_group_layers]
    have g: "group_names gs = concat (map (\<lambda>i. concat (every (nat k) i ?rs)) [0..<nat k])" "list_all whole_group gs" by auto
    have "0 < nat k" using num_groups_pos [OF k assms(2,3)] by simp
    from concat_concat_shares [OF this, of ?rs] pattern_repeats_share [OF m] assms(2) g
    show ?thesis by (simp add: covers_def good_bucket_def)
  qed
qed

lemma covers_append: "covers gs ns \<Longrightarrow> covers hs ms \<Longrightarrow> covers (gs @ hs) (ns @ ms)"
  by (auto simp: covers_def group_names_def)

lemma covers_concat: "list_all2 covers gss nss \<Longrightarrow> covers (concat gss) (concat nss)"
proof (induction gss nss rule: list_all2_induct)
  case Nil
  then show ?case by (simp add: covers_def group_names_def)
qed (simp add: covers_append)

lemma repeats_pos: "repeats_per_group bs = ok (Some r) \<Longrightarrow> 0 < r"
  using approximate_gcd_best(1) [of "map max_layers_per_page_size (filter balanced bs)" "Some (min_repeats_per_group bs)" r]
  by (auto simp: repeats_per_group_def Let_def rbind_ok_iff split: if_splits)

text \<open>The marks change neither layers nor specifications.\<close>

lemma whole_group_eagle [simp]: "whole_group (g\<lparr>kg_eagle := b\<rparr>) = whole_group g"
  by (simp add: whole_group_def split: cache_spec.split)

lemma mark_first_names: "group_names (mark_first n gs) = group_names gs \<and> list_all whole_group (mark_first n gs) = list_all whole_group gs"
  by (induction gs) (auto simp: group_names_def)

lemma annotate_covers:
  assumes "annotate_eagle_groups pc specs gs f = ok gs'" and "covers gs ns"
  shows "covers gs' ns"
proof -
  let ?mark = "\<lambda>g. if list_ex drafter_layer (iter_layer_specs (kg_spec g)) then g\<lparr>kg_eagle := True\<rparr> else g"
  have "group_names (map ?mark gs) = group_names gs \<and> list_all whole_group (map ?mark gs) = list_all whole_group gs"
    by (induction gs) (auto simp: group_names_def)
  then show ?thesis using assms mark_first_names [of _ "map ?mark gs"]
    by (auto simp: annotate_eagle_groups_def covers_def Let_def split: if_splits)
qed

lemma buckets_keys:
  assumes "map_res (bucket_of esz base) raw = ok bs"
  shows "map bk_specs bs = raw \<and> list_all good_bucket bs"
  using assms unfolding map_res_ok
  by (induction raw bs rule: list_all2_induct) (auto dest: bucket_of_good)

lemma packed_covers:
  assumes "get_packed_kv_cache_groups esz base pc specs = ok (Some gs)"
  shows "covers gs (map fst specs)"
proof -
  from assms obtain raw bs rep gss where
    raw: "fold_res (place_layer esz base) specs [] = ok raw" and bs: "map_res (bucket_of esz base) raw = ok bs" and
    rep: "repeats_per_group bs = ok rep" and gss: "map_res (split_packed esz base (anchor_bytes rep bs) rep) bs = ok gss" and
    an: "annotate_eagle_groups pc specs (concat gss) (is_deepseek_v4_eagle pc) = ok gs"
    by (auto simp: get_packed_kv_cache_groups_def rbind_ok_iff split: if_splits)
  have pos: "0 < r" if "rep = Some r" for r using repeats_pos rep that by blast
  note keys = buckets_keys [OF bs]
  have "list_all2 (\<lambda>b gs. split_packed esz base (anchor_bytes rep bs) rep b = ok gs) bs gss" using gss by (simp add: map_res_ok)
  then have "list_all2 covers gss (map (map fst \<circ> bk_specs) bs)"
    using keys pos by (auto simp: list_all2_conv_all_nth list_all_length intro!: split_packed_covers)
  from covers_concat [OF this]
  have c: "covers (concat gss) (concat (map (map fst) raw))" using keys by (metis map_map)
  have "mset (concat (map (map fst) raw)) = mset (map fst specs)"
    using place_layers_mset [OF raw] by (simp flip: map_concat)
  with c have "covers (concat gss) (map fst specs)" by (simp add: covers_def)
  then show ?thesis by (rule annotate_covers [OF an])
qed

section \<open>All groups\<close>

lemma promoted_keys: "promoted esz specs = ok specs' \<Longrightarrow> map fst specs' = map fst specs"
  by (auto simp: promoted_def dest: map_res_keys split: if_splits)

lemma promote_keys: "promote_local_kv_cache_specs esz base specs = ok specs' \<Longrightarrow> map fst specs' = map fst specs"
  by (auto simp: promote_local_kv_cache_specs_def rbind_ok_iff dest: promoted_keys split: if_splits)

lemma unify_hybrid_keys: "unify_hybrid_kv_cache_specs esz base specs = ok specs' \<Longrightarrow> map fst specs' = map fst specs"
  by (auto simp: unify_hybrid_kv_cache_specs_def rbind_ok_iff dest: promote_keys split: if_splits)

lemma unify_page_keys: "unify_kv_cache_spec_page_size esz specs = ok specs' \<Longrightarrow> map fst specs' = map fst specs"
  by (auto simp: unify_kv_cache_spec_page_size_def rbind_ok_iff dest: map_res_keys split: if_splits)

lemma uniform_type_covers: "from_specs esz base specs = ok (Some g) \<Longrightarrow> covers (groups_uniform_type g) (map fst specs)"
proof -
  assume "from_specs esz base specs = ok (Some g)"
  note f = from_specs_ok [OF this]
  show ?thesis using f(3) unfolding f(1)
    by (simp add: groups_uniform_type_def covers_def group_names_def new_group_def whole_group_def)
qed

lemma uniform_spec_covers: "groups_uniform_spec esz specs = ok gs \<Longrightarrow> covers gs (map fst specs)"
  by (auto simp: groups_uniform_spec_def covers_def dest: create_covers)

lemma fallback_covers:
  assumes "try_get_full_allocation_fallback_groups esz base specs = ok (Some gs)"
  shows "covers gs (map fst specs)"
proof -
  from assms obtain specs' u where s: "promote_local_kv_cache_specs esz base specs = ok specs'" "from_specs esz base specs' = ok (Some u)"
    "gs = groups_uniform_type u"
    by (auto simp: try_get_full_allocation_fallback_groups_def Let_def rbind_ok_iff split: if_splits sum.splits)
  then show ?thesis using uniform_type_covers [OF s(2)] promote_keys [OF s(1)] by simp
qed

lemma hidden_covers:
  assumes "hidden_groups esz gs hidden = ok hs"
  shows "covers hs (map fst hidden)"
proof (cases "hidden = []")
  case False
  then obtain page where h: "map_res (hidden_group esz page (gcd_all (map (group_block_size \<circ> kg_spec) gs))) hidden = ok hs"
    using assms by (auto simp: hidden_groups_def rbind_ok_iff)
  have "kg_layers g = [fst ns] \<and> whole_group g" if "hidden_group esz page b ns = ok g" for ns g b
    using that by (auto simp: hidden_group_def Let_def new_group_def whole_group_def split: if_splits)
  from map_res_layers [OF h, where h = "\<lambda>ns. [fst ns]"] this
  have "group_names hs = concat (map (\<lambda>ns. [fst ns]) hidden) \<and> list_all whole_group hs" by blast
  then show ?thesis by (simp add: covers_def)
qed (use assms in \<open>simp add: hidden_groups_def covers_def group_names_def\<close>)

lemma covers_split:
  assumes "covers gs (map fst (filter (Not \<circ> P) specs) @ map fst (filter P specs))"
  shows "covers gs (map fst specs)"
proof -
  have "mset (map fst (filter (Not \<circ> P) specs) @ map fst (filter P specs)) = mset (map fst specs)"
    by (induction specs) auto
  with assms show ?thesis by (simp add: covers_def)
qed

lemma mixed_covers:
  assumes "groups_mixed esz base pc specs (filter P specs) (filter (Not \<circ> P) specs) = ok gs"
  shows "covers gs (map fst specs)"
proof (cases "unify_kv_cache_spec_page_size esz (filter (Not \<circ> P) specs)")
  case (Inl e)
  then show ?thesis using assms
    by (auto simp: groups_mixed_def rbind_ok_iff intro: fallback_covers split: if_splits option.splits)
next
  case (Inr plain')
  with assms obtain gs1 hs where g: "groups_uniform_page_size esz plain' = ok gs1" "hidden_groups esz gs1 (filter P specs) = ok hs"
    "annotate_eagle_groups pc specs (gs1 @ hs) False = ok gs"
    by (auto simp: groups_mixed_def rbind_ok_iff)
  from covers_append [OF uniform_page_size_covers [OF g(1)] hidden_covers [OF g(2)]] unify_page_keys [OF Inr]
  have "covers (gs1 @ hs) (map fst specs)" by (intro covers_split [of _ P]) simp
  then show ?thesis by (rule annotate_covers [OF g(3)])
qed

lemma singles_cover: "covers (map (\<lambda>(n, s). new_group [n] (Layer s)) specs) (map fst specs)"
  by (induction specs) (auto simp: covers_def group_names_def new_group_def whole_group_def)

lemma by_type_covers:
  assumes "groups_by_type esz base pc specs = ok gs"
  shows "covers gs (map fst specs)"
proof -
  let ?P = "is_hidden \<circ> snd"
  from assms obtain packed where p: "get_packed_kv_cache_groups esz base pc (filter (Not \<circ> ?P) specs) = ok packed"
    by (auto simp: groups_by_type_def Let_def rbind_ok_iff)
  show ?thesis
  proof (cases "packed = None \<or> packed = Some []")
    case True
    then have "groups_mixed esz base pc specs (filter ?P specs) (filter (Not \<circ> ?P) specs) = ok gs"
      using assms p by (simp add: groups_by_type_def Let_def)
    then show ?thesis by (rule mixed_covers)
  next
    case False
    then obtain qs where qs: "packed = Some qs" by auto
    have "gs = qs @ map (\<lambda>(n, s). new_group [n] (Layer s)) (filter ?P specs)"
      using assms p False qs by (simp add: groups_by_type_def Let_def)
    then show ?thesis
      using covers_append [OF packed_covers singles_cover] p qs by (intro covers_split [of _ ?P]) simp
  qed
qed

lemma groups_of_specs_cover:
  assumes "groups_of_specs esz base pc specs = ok gs"
  shows "covers gs (map fst specs)"
proof (cases "specs = []")
  case True
  then show ?thesis using assms by (simp add: groups_of_specs_def covers_def group_names_def)
next
  case False
  with assms show ?thesis
    by (auto simp: groups_of_specs_def rbind_ok_iff intro: uniform_spec_covers uniform_type_covers by_type_covers split: if_splits option.splits)
qed

text \<open>
  C36: Whenever the layers of a model are grouped, on whichever of the paths, the groups together hold
  every layer name exactly as often as the specifications do, no group is empty, a group of a uniform
  type carries the specifications of exactly its own layers, and a promotion of the
  specifications keeps their names.
\<close>

theorem groups_partition_layers:
  assumes "get_kv_cache_groups esz base pc specs = ok (gs, specs')"
  shows "mset (concat (map kg_layers gs)) = mset (map fst specs) \<and> list_all whole_group gs \<and> map fst specs' = map fst specs"
proof -
  from assms have "map fst specs' = map fst specs" "groups_of_specs esz base pc specs' = ok gs"
    by (auto simp: get_kv_cache_groups_def rbind_ok_iff dest: unify_hybrid_keys split: if_splits)
  then show ?thesis using groups_of_specs_cover [of esz base pc specs' gs] by (simp add: covers_def group_names_def)
qed

definition example_plan :: plan_config where
  "example_plan = \<lparr>pc_kv = example_config, pc_layout = \<lparr>lo_order = [1, 0, 2, 3, 4], lo_block_outermost = True, lo_block_compact = True, lo_layer_compact = False\<rparr>,
     pc_eagle = False, pc_model_type = None, pc_disable_hybrid = False, pc_extra_retained = None, pc_original_len = 1000\<rparr>"

definition example_specs :: specs where
  "example_specs = [(''f'', FullAttn example_attn default_full), (''v'', Sliding example_attn 128 0), (''w'', Sliding example_attn 128 0)]"

abbreviation base0 :: uniform_base where
  "base0 \<equiv> \<lambda>s. Some is_full"

lemma example_pages [simp]:
  "page_size_bytes (\<lambda>_. 1) (FullAttn example_attn f) = ok 36864" "page_size_bytes (\<lambda>_. 1) (Sliding example_attn w x) = ok 36864"
  using example_page by simp_all

lemma example_mixed: "from_specs (\<lambda>_. 1) base0 example_specs = ok None"
  by (simp add: from_specs_def is_uniform_type_def example_specs_def)

lemma example_not_packed: "get_packed_kv_cache_groups (\<lambda>_. 1) base0 example_plan example_specs = ok None"
  by (simp add: get_packed_kv_cache_groups_def example_specs_def del: page_size_bytes.simps)

lemma example_unified: "unify_kv_cache_spec_page_size (\<lambda>_. 1) example_specs = ok example_specs"
  by (simp add: unify_kv_cache_spec_page_size_def example_specs_def del: page_size_bytes.simps)

lemma example_buckets: "layer_buckets (\<lambda>_. 1) example_specs = ok [[''f''], [''v'', ''w'']]"
  by (simp add: layer_buckets_def same_type_layers_def example_specs_def merge_full_def)

lemma example_equal_groups:
  "groups_uniform_page_size (\<lambda>_. 1) example_specs
     = ok [new_group [''f''] (Layer (FullAttn example_attn default_full)), new_group [''v''] (Layer (Sliding example_attn 128 0)),
           new_group [''w''] (Layer (Sliding example_attn 128 0))]"
proof -
  have "split_bucket 1 [''f''] = [[''f'']]" "split_bucket 1 [''v'', ''w''] = [[''v''], [''w'']]"
    by (simp_all add: split_bucket_def cdiv_def every_def upt_rec)
  then show ?thesis
    by (simp add: groups_uniform_page_size_def example_buckets group_size_for_def create_kv_cache_group_specs_def merged_group_def)
      (simp add: spec_at_def example_specs_def merge_def merge_full_def merge_window_sizes_def map_filter_simps same_attn_def default_full_def)
qed

lemma example_hidden: "filter (is_hidden \<circ> snd) example_specs = []" "filter (Not \<circ> (is_hidden \<circ> snd)) example_specs = example_specs"
  by (simp_all add: example_specs_def is_hidden_def)

lemma example_groups:
  "get_kv_cache_groups (\<lambda>_. 1) base0 example_plan example_specs
     = ok ([new_group [''f''] (Layer (FullAttn example_attn default_full)), new_group [''v''] (Layer (Sliding example_attn 128 0)),
            new_group [''w''] (Layer (Sliding example_attn 128 0))], example_specs)"
proof -
  have u: "is_kv_cache_spec_uniform (\<lambda>_. 1) example_specs = ok False"
    by (simp add: is_kv_cache_spec_uniform_def example_specs_def merge_def merge_full_def)
  have e: "\<not> pc_eagle example_plan" "\<not> pc_disable_hybrid example_plan" by (simp_all add: example_plan_def)
  have "groups_by_type (\<lambda>_. 1) base0 example_plan example_specs = groups_uniform_page_size (\<lambda>_. 1) example_specs"
    unfolding example_equal_groups
    by (simp add: groups_by_type_def example_hidden example_not_packed groups_mixed_def example_unified example_equal_groups
        hidden_groups_def annotate_eagle_groups_def e Let_def)
  then show ?thesis
    by (simp add: get_kv_cache_groups_def groups_of_specs_def u example_mixed example_equal_groups e) (simp add: example_specs_def)
qed

theorem groups_partition_layers_witness:
  "\<exists>gs. get_kv_cache_groups (\<lambda>_. 1) base0 example_plan example_specs = ok (gs, example_specs)
     \<and> mset (concat (map kg_layers gs)) = {# ''f'', ''v'', ''w'' #} \<and> length gs = 3"
  using groups_partition_layers [OF example_groups] example_groups by (auto simp: example_specs_def)

end
