(* ===== verification/Kv_Configs.thy ===== *)
theory Kv_Configs
  imports Kv_Groups
begin

text \<open>
  Planning of the cache of every worker (\<^verbatim>\<open>get_kv_cache_configs\<close> of \<^verbatim>\<open>vllm/v1/core/kv_cache_utils.py\<close>,
  with \<^verbatim>\<open>compute_layout_strides\<close> of \<^verbatim>\<open>vllm/v1/kv_cache_interface.py\<close>): merging the workers' specifications,
  projecting the groups, the override of the number of blocks, the automatic length, the memory
  checks, the placement of the tensors, and the common number of blocks. The resolved layout and the
  check of the registry are parameters.
  Theorem: a plan gives all workers one number of blocks and, when that number is not overridden, stays inside each
  worker's memory; every worker's groups name its own layers; a request of full length leaves room for the null block.
\<close>

section \<open>Strides of a layer\<close>

definition layer_heads :: "layer_spec \<Rightarrow> int" where
  "layer_heads s = (case s of Mamba m \<Rightarrow> mb_heads m | _ \<Rightarrow> num_heads (the (attn_of s)))"

definition layer_content :: "(string \<Rightarrow> int) \<Rightarrow> layer_spec \<Rightarrow> int" where
  "layer_content esz s = (case s of Mamba m \<Rightarrow> mamba_content esz m | _ \<Rightarrow> state_content_size_bytes esz (the (attn_of s)))"

definition layer_padded :: "layer_spec \<Rightarrow> int option" where
  "layer_padded s = (case s of Mamba m \<Rightarrow> mb_padded m | _ \<Rightarrow> at_padded (the (attn_of s)))"

definition layer_shape :: "(string \<Rightarrow> int) \<Rightarrow> layer_spec \<Rightarrow> int \<Rightarrow> int option \<Rightarrow> int list res" where
  "layer_shape esz s num_blocks kernel_block =
     (let bs = (case kernel_block of Some k \<Rightarrow> k | None \<Rightarrow> block_size s) in
      if bs = 0 then err ZeroDivisionError
      else if block_size s mod bs \<noteq> 0 then err AssertionError
      else ok [num_blocks * (block_size s div bs), layer_heads s, num_states bs (layer_tokens_per_state s), layer_content esz s])"

text \<open>The position of an axis in the storage order; the axes are \<open>L = 0\<close>, \<open>B = 1\<close>, \<open>H\<close>, \<open>N\<close>, \<open>C\<close>.\<close>

fun index_of :: "nat list \<Rightarrow> nat \<Rightarrow> nat" where
  "index_of [] d = 0"
| "index_of (x # xs) d = (if x = d then 0 else Suc (index_of xs d))"

definition page_grid_end :: "nat list \<Rightarrow> nat" where
  "page_grid_end order = max (index_of order 0) (index_of order 1) + 1"

text \<open>One axis, from the innermost: the running stride and the strides found.\<close>

definition stride_step :: "int option \<Rightarrow> nat \<Rightarrow> int option list \<Rightarrow> int list \<Rightarrow> nat \<times> nat \<Rightarrow> int \<times> int list \<Rightarrow> (int \<times> int list) res" where
  "stride_step padded grid_end fixed shape p s =
     (let widened = (case padded of Some q \<Rightarrow> if fst p + 1 = grid_end then max (fst s) q else fst s | None \<Rightarrow> fst s);
          bad = (case padded of Some q \<Rightarrow> fst p + 1 = grid_end \<and> (q = 0 \<or> widened mod q \<noteq> 0) | None \<Rightarrow> False);
          stride = (case fixed ! snd p of Some k \<Rightarrow> k | None \<Rightarrow> widened) in
      if bad then (if padded = Some 0 then err ZeroDivisionError else err AssertionError)
      else ok (stride * shape ! snd p, (snd s)[snd p := stride]))"

definition compute_layout_strides ::
    "(string \<Rightarrow> int) \<Rightarrow> layer_spec \<Rightarrow> int \<Rightarrow> int \<Rightarrow> layout \<Rightarrow> int option \<Rightarrow> int option list \<Rightarrow> int list res" where
  "compute_layout_strides esz s num_blocks num_layers lo kernel_block fixed =
     (if length fixed \<noteq> 5 \<or> list_ex (\<lambda>k. case k of Some n \<Rightarrow> n \<le> 0 | None \<Rightarrow> False) fixed then err AssertionError
      else rbind (layer_shape esz s num_blocks kernel_block) (\<lambda>tail.
        let shape = num_layers # tail; order = lo_order lo; padded = layer_padded s; grid = map ((!) shape) (take (page_grid_end order) order) in
        if padded \<noteq> None \<and> (kernel_block \<noteq> None \<and> kernel_block \<noteq> Some (block_size s) \<or> prod_list grid \<noteq> num_layers * num_blocks) then err AssertionError
        else rbind (fold_res (stride_step padded (page_grid_end order) fixed shape) (rev (zip [0..<length order] order)) (1, replicate 5 0))
               (\<lambda>r. ok (snd r))))"

section \<open>The configuration of one worker\<close>

record kv_tensor =
  kt_size :: int
  kt_layers :: "string list"
  kt_layer_stride :: int
  kt_block_stride :: int
  kt_offset :: int

record cache_config =
  cc_blocks :: int
  cc_tensors :: "kv_tensor list"
  cc_groups :: "kv_group list"

definition group_layer_page :: "(string \<Rightarrow> int) \<Rightarrow> kv_group \<Rightarrow> string \<Rightarrow> int res" where
  "group_layer_page esz g n = rbind (get_per_layer_spec g n) (group_page_size esz)"

definition validate_kv_cache_layout :: "(string \<Rightarrow> int) \<Rightarrow> layout \<Rightarrow> kv_group list \<Rightarrow> unit res" where
  "validate_kv_cache_layout esz lo gs =
     rbind (map_res (\<lambda>(g, n). group_layer_page esz g n) (concat (map (\<lambda>g. map (Pair g) (kg_layers g)) gs))) (\<lambda>ps.
       if length (remdups ps) = 1 then ok ()
       else if \<not> lo_block_compact lo \<or> (1 < length gs \<and> lo_layer_compact lo) then err ValueError else ok ())"

text \<open>The layers of a group by specification.\<close>

definition layers_by_spec :: "kv_group \<Rightarrow> (layer_spec \<times> string list) list" where
  "layers_by_spec g =
     (case kg_spec g of
        Uniform b specs \<Rightarrow> same_type_layers specs
      | Layer s \<Rightarrow> if kg_layers g = [] then [] else [(s, kg_layers g)])"

definition tensor_step ::
    "(string \<Rightarrow> int) \<Rightarrow> layout \<Rightarrow> int \<Rightarrow> int \<Rightarrow> int option \<Rightarrow> layer_spec \<times> string list \<Rightarrow> int \<times> kv_tensor list \<Rightarrow> (int \<times> kv_tensor list) res" where
  "tensor_step esz lo num_blocks total_size block_stride sl st =
     (case sl of (s, ns) \<Rightarrow>
        rbind (compute_layout_strides esz s num_blocks (int (length ns)) lo None [None, block_stride, None, None, None]) (\<lambda>strides.
        rbind (page_size_bytes esz s) (\<lambda>page.
          if page = 0 then err ZeroDivisionError
          else ok (fst st + int (length ns) * page,
                   snd st @ [\<lparr>kt_size = total_size, kt_layers = ns, kt_layer_stride = strides ! 0, kt_block_stride = strides ! 1,
                              kt_offset = fst st * max (strides ! 0) page div page\<rparr>]))))"

definition group_tensors ::
    "(string \<Rightarrow> int) \<Rightarrow> layout \<Rightarrow> int \<Rightarrow> int \<Rightarrow> int option \<Rightarrow> kv_group \<Rightarrow> kv_tensor list \<Rightarrow> kv_tensor list res" where
  "group_tensors esz lo num_blocks total_size block_stride g ts =
     rbind (fold_res (tensor_step esz lo num_blocks total_size block_stride) (layers_by_spec g) (0, ts)) (\<lambda>r. ok (snd r))"

definition get_kv_cache_config_from_groups :: "(string \<Rightarrow> int) \<Rightarrow> layout \<Rightarrow> kv_config \<Rightarrow> kv_group list \<Rightarrow> int \<Rightarrow> cache_config res" where
  "get_kv_cache_config_from_groups esz lo c gs avail =
     (if gs = [] then ok \<lparr>cc_blocks = 1, cc_tensors = [], cc_groups = gs\<rparr>
      else rbind (validate_kv_cache_layout esz lo gs) (\<lambda>_.
           rbind (get_kv_cache_bytes_per_block esz gs) (\<lambda>bpb.
             let n = may_override_num_blocks c (avail div bpb) in
             rbind (fold_res (group_tensors esz lo n (bpb * n) (if lo_block_outermost lo then Some bpb else None)) gs [])
               (\<lambda>ts. ok \<lparr>cc_blocks = n, cc_tensors = ts, cc_groups = gs\<rparr>))))"

section \<open>All workers\<close>

definition merge_spec_step :: "string \<times> layer_spec \<Rightarrow> specs \<Rightarrow> specs res" where
  "merge_spec_step ns d =
     (case map_of d (fst ns) of None \<Rightarrow> ok (d @ [ns]) | Some s \<Rightarrow> if s = snd ns then ok d else err AssertionError)"

definition merge_worker_specs :: "specs list \<Rightarrow> specs res" where
  "merge_worker_specs ws = fold_res merge_spec_step (concat ws) []"

text \<open>Every window keeps the tokens several draft modules need.\<close>

fun with_extra_retained :: "(string \<Rightarrow> int) \<Rightarrow> int \<Rightarrow> layer_spec \<Rightarrow> layer_spec" where
  "with_extra_retained esz x (Sliding a w _) = Sliding a w x"
| "with_extra_retained esz x (SlidingMLA a w _ ml) = SlidingMLA (apply_alignment_padding esz (ml_alignment ml) a) w x ml"
| "with_extra_retained esz x s = s"

definition extra_retained_tokens :: "plan_config \<Rightarrow> int" where
  "extra_retained_tokens pc = (case pc_extra_retained pc of Some n \<Rightarrow> n - 1 | None \<Rightarrow> 0)"

definition projected_spec :: "string list \<Rightarrow> cache_spec \<Rightarrow> cache_spec res" where
  "projected_spec ns g =
     (case g of
        Uniform b specs \<Rightarrow> if ns = [] then ok g else rbind (map_res (\<lambda>n. rbind (spec_at specs n) (\<lambda>s. ok (n, s))) ns) (\<lambda>specs'. ok (Uniform b specs'))
      | Layer s \<Rightarrow> ok g)"

definition project_group :: "string list \<Rightarrow> kv_group \<Rightarrow> kv_group res" where
  "project_group worker g =
     (let ns = filter (\<lambda>n. n \<in> set worker) (kg_layers g) in
      rbind (projected_spec ns (kg_spec g)) (\<lambda>s.
        ok \<lparr>kg_layers = ns, kg_spec = s, kg_eagle = (kg_eagle g \<and> ns \<noteq> []), kg_transfer = True\<rparr>))"

definition project_kv_cache_groups_to_worker :: "kv_group list \<Rightarrow> specs \<Rightarrow> kv_group list res" where
  "project_kv_cache_groups_to_worker gs worker = map_res (project_group (map fst worker)) gs"

text \<open>The memory planned with: the override decides it, and the null block is set aside for the checks.\<close>

definition effective_memory :: "(string \<Rightarrow> int) \<Rightarrow> kv_config \<Rightarrow> kv_group list \<times> int \<Rightarrow> int res" where
  "effective_memory esz c w =
     (case kc_blocks_override c of
        None \<Rightarrow> ok (snd w)
      | Some k \<Rightarrow> if fst w = [] then ok (snd w) else rbind (pool_bytes_per_block esz (fst w)) (\<lambda>b. ok (k * b)))"

definition check_memory_of :: "(string \<Rightarrow> int) \<Rightarrow> kv_group list \<times> int \<Rightarrow> int res" where
  "check_memory_of esz w = (if fst w = [] then ok (snd w) else rbind (pool_bytes_per_block esz (fst w)) (\<lambda>b. ok (snd w - b)))"

fun check_workers :: "(string \<Rightarrow> int) \<Rightarrow> (kv_group list \<times> int) list \<Rightarrow> kv_config \<Rightarrow> unit res \<times> kv_config" where
  "check_workers esz [] c = (ok (), c)"
| "check_workers esz ((gs, avail) # ws) c =
     (if gs = [] then check_workers esz ws c
      else case check_enough_memory_with avail (\<lambda>c. max_memory_usage_bytes_from_groups esz c gs)
                  (\<lambda>a c. estimate_max_model_len_from_groups esz gs a c) c of
        (Inl e, c') \<Rightarrow> (err e, c')
      | (Inr _, c') \<Rightarrow> check_workers esz ws c')"

definition worker_config :: "(string \<Rightarrow> int) \<Rightarrow> layout \<Rightarrow> kv_config \<Rightarrow> (kv_group list \<times> specs) \<times> int \<Rightarrow> cache_config res" where
  "worker_config esz lo c w =
     (case w of ((gs, specs), avail) \<Rightarrow>
        if length (concat (map kg_layers gs)) \<noteq> length specs then err AssertionError
        else get_kv_cache_config_from_groups esz lo c gs avail)"

text \<open>Re-planning of the workers that could afford more blocks than the least.\<close>

definition shrink_config :: "(string \<Rightarrow> int) \<Rightarrow> layout \<Rightarrow> kv_config \<Rightarrow> int \<Rightarrow> cache_config \<Rightarrow> cache_config res" where
  "shrink_config esz lo c n cfg =
     (if cc_blocks cfg = n then ok cfg
      else rbind (pool_bytes_per_block esz (cc_groups cfg)) (\<lambda>b. get_kv_cache_config_from_groups esz lo c (cc_groups cfg) (n * b)))"

definition build_configs :: "(string \<Rightarrow> int) \<Rightarrow> layout \<Rightarrow> kv_config \<Rightarrow> kv_group list list \<Rightarrow> specs list \<Rightarrow> int list \<Rightarrow> cache_config list res" where
  "build_configs esz lo c projected ws avail =
     rbind (map_res (worker_config esz lo c) (zip (zip projected ws) avail)) (\<lambda>cfgs.
       if cfgs = [] then err ValueError
       else map_res (shrink_config esz lo c (Min (set (map cc_blocks cfgs)))) cfgs)"

text \<open>The global groups, projected to the workers; \<open>registered\<close> is the check of the registry.\<close>

definition plan_groups :: "(string \<Rightarrow> int) \<Rightarrow> uniform_base \<Rightarrow> (specs \<Rightarrow> unit res) \<Rightarrow> plan_config \<Rightarrow> specs list \<Rightarrow> kv_group list list res" where
  "plan_groups esz base registered pc ws =
     rbind (merge_worker_specs ws) (\<lambda>merged.
     rbind (registered merged) (\<lambda>_.
     rbind (get_kv_cache_groups esz base pc (map (\<lambda>(n, s). (n, with_extra_retained esz (extra_retained_tokens pc) s)) merged)) (\<lambda>r.
       map_res (project_kv_cache_groups_to_worker (fst r)) ws)))"

definition plan_memory :: "(string \<Rightarrow> int) \<Rightarrow> kv_config \<Rightarrow> kv_group list list \<Rightarrow> int list \<Rightarrow> (int list \<times> int list) res" where
  "plan_memory esz c projected avail =
     rbind (if kc_blocks_override c = None then ok avail else map_res (effective_memory esz c) (zip projected avail)) (\<lambda>eff.
     rbind (map_res (check_memory_of esz) (zip projected eff)) (\<lambda>chk. ok (eff, chk)))"

definition fit_and_check :: "(string \<Rightarrow> int) \<Rightarrow> int \<Rightarrow> kv_group list list \<Rightarrow> int list \<Rightarrow> kv_config \<Rightarrow> unit res \<times> kv_config" where
  "fit_and_check esz original projected chk c =
     (case (if original = - 1 then auto_fit_max_model_len esz projected chk c else (ok (), c)) of
        (Inl e, c') \<Rightarrow> (err e, c')
      | (Inr _, c') \<Rightarrow> check_workers esz (zip projected chk) c')"

definition get_kv_cache_configs ::
    "(string \<Rightarrow> int) \<Rightarrow> uniform_base \<Rightarrow> (specs \<Rightarrow> unit res) \<Rightarrow> plan_config \<Rightarrow> specs list \<Rightarrow> int list \<Rightarrow> cache_config list res \<times> kv_config" where
  "get_kv_cache_configs esz base registered pc ws avail =
     (case rbind (plan_groups esz base registered pc ws) (\<lambda>projected.
             rbind (plan_memory esz (pc_kv pc) projected avail) (\<lambda>m. ok (projected, m))) of
        Inl e \<Rightarrow> (err e, pc_kv pc)
      | Inr (projected, eff, chk) \<Rightarrow>
          (case fit_and_check esz (pc_original_len pc) projected chk (pc_kv pc) of
             (Inl e, c) \<Rightarrow> (err e, c)
           | (Inr _, c) \<Rightarrow> (build_configs esz (pc_layout pc) c projected ws eff, c)))"

text \<open>The scheduler's configuration, from the first worker's: a uniform group by its first layer.\<close>

definition scheduler_group :: "kv_group \<Rightarrow> kv_group res" where
  "scheduler_group g =
     (case kg_spec g of
        Layer s \<Rightarrow> ok g
      | Uniform b specs \<Rightarrow> (case specs of [] \<Rightarrow> err StopIteration | (n, s) # _ \<Rightarrow> ok (g\<lparr>kg_spec := Layer s\<rparr>)))"

definition generate_scheduler_kv_cache_config :: "cache_config list \<Rightarrow> cache_config res" where
  "generate_scheduler_kv_cache_config cfgs =
     (case cfgs of [] \<Rightarrow> err IndexError
      | c # _ \<Rightarrow> if list_all (\<lambda>d. cc_blocks d = cc_blocks c) cfgs
                 then rbind (map_res scheduler_group (cc_groups c)) (\<lambda>gs. ok (c\<lparr>cc_groups := gs\<rparr>)) else err AssertionError)"

section \<open>What a plan guarantees\<close>

lemma tensor_step_ok: "tensor_step esz lo n sz bs sl (o1, ts) = ok st \<Longrightarrow> \<exists>o2 t. st = (o2, ts @ [t]) \<and> kt_size t = sz"
  by (auto simp: tensor_step_def rbind_ok_iff split: prod.splits if_splits)

lemma tensor_sizes:
  "fold_res (tensor_step esz lo n sz bs) sls (o1, ts) = ok r \<Longrightarrow> \<forall>t \<in> set ts. kt_size t = sz \<Longrightarrow> \<forall>t \<in> set (snd r). kt_size t = sz"
proof (induction sls arbitrary: o1 ts)
  case (Cons sl sls)
  from Cons.prems(1) obtain st where st: "tensor_step esz lo n sz bs sl (o1, ts) = ok st" "fold_res (tensor_step esz lo n sz bs) sls st = ok r"
    by (auto simp: rbind_ok_iff)
  from tensor_step_ok [OF st(1)] st(2) obtain o2 t where t: "fold_res (tensor_step esz lo n sz bs) sls (o2, ts @ [t]) = ok r" "kt_size t = sz"
    by auto
  show ?case using Cons.IH [OF t(1)] Cons.prems(2) t(2) by auto
qed auto

lemma group_tensor_sizes:
  "fold_res (group_tensors esz lo n sz bs) gs ts = ok us \<Longrightarrow> \<forall>t \<in> set ts. kt_size t = sz \<Longrightarrow> \<forall>t \<in> set us. kt_size t = sz"
proof (induction gs arbitrary: ts)
  case (Cons g gs)
  from Cons.prems(1) obtain ts' where t: "group_tensors esz lo n sz bs g ts = ok ts'" "fold_res (group_tensors esz lo n sz bs) gs ts' = ok us"
    by (auto simp: rbind_ok_iff)
  have "\<forall>t \<in> set ts'. kt_size t = sz"
    using t(1) tensor_sizes [of esz lo n sz bs "layers_by_spec g" 0 ts] Cons.prems(2) by (auto simp: group_tensors_def rbind_ok_iff)
  with Cons.IH [OF t(2)] show ?case by blast
qed simp

lemma pool_bytes_pos: "pool_bytes_per_block esz gs = ok b \<Longrightarrow> 0 < b"
  by (auto simp: pool_bytes_per_block_def get_kv_cache_bytes_per_block_def rbind_ok_iff split: if_splits)

definition config_for :: "(string \<Rightarrow> int) \<Rightarrow> kv_config \<Rightarrow> kv_group list \<Rightarrow> int \<Rightarrow> cache_config \<Rightarrow> bool" where
  "config_for esz c gs avail cfg =
     (cc_groups cfg = gs \<and> (if gs = [] then cc_blocks cfg = 1
      else \<exists>b. pool_bytes_per_block esz gs = ok b \<and> cc_blocks cfg = may_override_num_blocks c (avail div b)
            \<and> (\<forall>t \<in> set (cc_tensors cfg). kt_size t = b * cc_blocks cfg)))"

lemma config_from_groups:
  assumes "get_kv_cache_config_from_groups esz lo c gs avail = ok cfg"
  shows "config_for esz c gs avail cfg"
proof (cases "gs = []")
  case True
  then show ?thesis using assms by (auto simp: get_kv_cache_config_from_groups_def config_for_def)
next
  case False
  from assms False obtain b ts where b: "pool_bytes_per_block esz gs = ok b" and
    ts: "fold_res (group_tensors esz lo (may_override_num_blocks c (avail div b)) (b * may_override_num_blocks c (avail div b))
           (if lo_block_outermost lo then Some b else None)) gs [] = ok ts" and
    cfg: "cfg = \<lparr>cc_blocks = may_override_num_blocks c (avail div b), cc_tensors = ts, cc_groups = gs\<rparr>"
    by (auto simp: get_kv_cache_config_from_groups_def pool_bytes_per_block_def rbind_ok_iff Let_def)
  from group_tensor_sizes [OF ts] b cfg False show ?thesis by (simp add: config_for_def)
qed

text \<open>A worker whose blocks were cut: the same groups, exactly \<open>n\<close> blocks, no more memory.\<close>

lemma shrink_config_for:
  assumes "shrink_config esz lo c n cfg = ok cfg'" and "config_for esz c gs avail cfg" and "gs \<noteq> []"
    and "kc_blocks_override c = None" and "n \<le> cc_blocks cfg"
  shows "cc_groups cfg' = gs \<and> cc_blocks cfg' = n
    \<and> (\<exists>b. pool_bytes_per_block esz gs = ok b \<and> n * b \<le> avail \<and> (\<forall>t \<in> set (cc_tensors cfg'). kt_size t = n * b))"
proof -
  from assms(2,3,4) obtain b where b: "pool_bytes_per_block esz gs = ok b" "cc_blocks cfg = avail div b" "cc_groups cfg = gs"
    "\<forall>t \<in> set (cc_tensors cfg). kt_size t = b * cc_blocks cfg"
    by (auto simp: config_for_def may_override_num_blocks_def)
  note pos = pool_bytes_pos [OF b(1)]
  have "n * b \<le> (avail div b) * b" using assms(5) b(2) pos by (simp add: mult_right_mono)
  also have "\<dots> \<le> avail" using pos by (simp add: minus_mod_eq_div_mult [symmetric])
  finally have le: "n * b \<le> avail" .
  show ?thesis
  proof (cases "cc_blocks cfg = n")
    case True
    then show ?thesis using assms(1) b le by (auto simp: shrink_config_def mult.commute)
  next
    case False
    then have "get_kv_cache_config_from_groups esz lo c gs (n * b) = ok cfg'" using assms(1) b by (simp add: shrink_config_def)
    from config_from_groups [OF this] show ?thesis
      using assms(3,4) b(1) le pos by (auto simp: config_for_def may_override_num_blocks_def mult.commute)
  qed
qed

text \<open>The memory checks.\<close>

definition has_room :: "(string \<Rightarrow> int) \<Rightarrow> kv_config \<Rightarrow> kv_group list \<times> int \<Rightarrow> bool" where
  "has_room esz c w = (fst w = [] \<or> (0 < snd w \<and> (\<exists>n. max_memory_usage_bytes_from_groups esz c (fst w) = ok n \<and> n \<le> snd w)))"

lemma check_enough_ok:
  assumes "check_enough_memory_with avail need est c = (Inr u, c')"
  shows "c' = c \<and> 0 < avail \<and> (\<exists>n. need c = ok n \<and> n \<le> avail)"
  using assms by (auto simp: check_enough_memory_with_def split: if_splits sum.splits prod.splits)

lemma check_workers_ok: "check_workers esz ws c = (Inr u, c') \<Longrightarrow> c' = c \<and> (\<forall>w \<in> set ws. has_room esz c w)"
proof (induction ws arbitrary: c)
  case (Cons w ws)
  obtain gs avail where w: "w = (gs, avail)" by force
  show ?case
  proof (cases "gs = []")
    case True
    then show ?thesis using Cons.IH [of c] Cons.prems by (simp add: w has_room_def)
  next
    case False
    from Cons.prems False obtain v d where d: "check_enough_memory_with avail (\<lambda>c. max_memory_usage_bytes_from_groups esz c gs)
        (\<lambda>a c. estimate_max_model_len_from_groups esz gs a c) c = (Inr v, d)" "check_workers esz ws d = (Inr u, c')"
      by (auto simp: w split: prod.splits sum.splits)
    note ok = check_enough_ok [OF d(1)]
    show ?thesis using Cons.IH [OF d(2)] ok by (auto simp: w has_room_def)
  qed
qed simp

lemma estimate_restores: "snd (estimate_max_model_len_from_groups esz gs avail c) = c"
  by (simp add: estimate_max_model_len_from_groups_def estimate_with_restores)

lemma fit_workers_restores: "snd (fit_workers esz ws best c) = c"
proof (induction ws arbitrary: best)
  case (Cons w ws)
  obtain gs avail where w: "w = (gs, avail)" by force
  show ?case using Cons.IH estimate_restores [of esz gs avail c] by (auto simp: w split: prod.splits sum.splits)
qed simp

lemma auto_fit_override: "kc_blocks_override (snd (auto_fit_max_model_len esz gs avail c)) = kc_blocks_override c"
  using fit_workers_restores [of esz "zip gs avail" "kc_max_len c" c]
  by (auto simp: auto_fit_max_model_len_def split: prod.splits sum.splits)

lemma fit_and_check_ok:
  assumes "fit_and_check esz original projected chk c = (Inr u, c')"
  shows "kc_blocks_override c' = kc_blocks_override c \<and> (\<forall>w \<in> set (zip projected chk). has_room esz c' w)"
proof -
  from assms obtain v d where d: "(if original = - 1 then auto_fit_max_model_len esz projected chk c else (ok (), c)) = (Inr v, d)"
    "check_workers esz (zip projected chk) d = (Inr u, c')"
    by (auto simp: fit_and_check_def split: prod.splits sum.splits)
  have "kc_blocks_override d = kc_blocks_override c"
    using d(1) auto_fit_override [of esz projected chk c] by (auto split: if_splits)
  with check_workers_ok [OF d(2)] show ?thesis by simp
qed

section \<open>Layers of the workers\<close>

lemma get_groups_cover:
  assumes "get_kv_cache_groups esz base pc specs = ok (gs, specs')"
  shows "mset (concat (map kg_layers gs)) = mset (map fst specs)"
proof -
  from assms have "map fst specs' = map fst specs" "groups_of_specs esz base pc specs' = ok gs"
    by (auto simp: get_kv_cache_groups_def rbind_ok_iff dest: unify_hybrid_keys split: if_splits)
  then show ?thesis using groups_of_specs_cover [of esz base pc specs' gs] by (simp add: covers_def group_names_def)
qed

lemma merge_specs_keys:
  assumes "fold_res merge_spec_step kvs d = ok d'" and "distinct (map fst d)"
  shows "distinct (map fst d') \<and> set (map fst d') = set (map fst d) \<union> set (map fst kvs)"
  using assms
proof (induction kvs arbitrary: d)
  case (Cons kv kvs)
  from Cons.prems(1) obtain e where e: "merge_spec_step kv d = ok e" "fold_res merge_spec_step kvs e = ok d'"
    by (auto simp: rbind_ok_iff)
  have "distinct (map fst e) \<and> set (map fst e) = insert (fst kv) (set (map fst d))"
  proof (cases "map_of d (fst kv)")
    case None
    then have "e = d @ [kv]" using e(1) by (simp add: merge_spec_step_def)
    moreover have "fst kv \<notin> set (map fst d)" using None by (simp add: map_of_eq_None_iff)
    ultimately show ?thesis using Cons.prems(2) by auto
  next
    case (Some s)
    then have "fst kv \<in> set (map fst d)" by (auto intro: rev_image_eqI dest: map_of_SomeD)
    then show ?thesis using Some e(1) Cons.prems(2) by (auto simp: merge_spec_step_def split: if_splits)
  qed
  with Cons.IH [OF e(2)] show ?case by auto
qed simp

lemma project_layers:
  "map_res (project_group wn) gs = ok ps \<Longrightarrow> concat (map kg_layers ps) = filter (\<lambda>n. n \<in> set wn) (concat (map kg_layers gs))"
  unfolding map_res_ok
  by (induction gs ps rule: list_all2_induct) (auto simp: project_group_def Let_def rbind_ok_iff)

lemma map_res_length: "map_res f xs = ok ys \<Longrightarrow> length ys = length xs"
  unfolding map_res_ok by (rule list_all2_lengthD [symmetric])

lemma map_res_nth: "map_res f xs = ok ys \<Longrightarrow> i < length xs \<Longrightarrow> f (xs ! i) = ok (ys ! i)"
  unfolding map_res_ok by (rule list_all2_nthD)

text \<open>The projected groups: all workers have as many, and each worker's groups hold its own layers.\<close>

lemma plan_groups_ok:
  assumes "plan_groups esz base registered pc ws = ok projected"
  shows "length projected = length ws" and "\<And>i. i < length ws \<Longrightarrow> projected ! i = [] \<longleftrightarrow> projected ! 0 = []"
    and "\<And>i. i < length ws \<Longrightarrow> distinct (map fst (ws ! i)) \<Longrightarrow> mset (concat (map kg_layers (projected ! i))) = mset (map fst (ws ! i))"
proof -
  from assms obtain merged gs specs' where merged: "fold_res merge_spec_step (concat ws) [] = ok merged" and
    gs: "get_kv_cache_groups esz base pc (map (\<lambda>(n, s). (n, with_extra_retained esz (extra_retained_tokens pc) s)) merged) = ok (gs, specs')" and
    pr: "map_res (project_kv_cache_groups_to_worker gs) ws = ok projected"
    by (auto simp: plan_groups_def merge_worker_specs_def rbind_ok_iff)
  show len: "length projected = length ws" by (rule map_res_length [OF pr])
  have p: "map_res (project_group (map fst (ws ! i))) gs = ok (projected ! i)" if "i < length ws" for i
    using map_res_nth [OF pr that] by (simp add: project_kv_cache_groups_to_worker_def)
  have lens: "length (projected ! i) = length gs" if "i < length ws" for i using map_res_length [OF p [OF that]] .
  show "projected ! i = [] \<longleftrightarrow> projected ! 0 = []" if "i < length ws" for i
  proof -
    have "0 < length ws" using that by linarith
    from lens [OF this] lens [OF that] show ?thesis by (metis length_0_conv)
  qed
  show "mset (concat (map kg_layers (projected ! i))) = mset (map fst (ws ! i))" if i: "i < length ws" "distinct (map fst (ws ! i))" for i
  proof -
    let ?W = "set (map fst (ws ! i))"
    have keys: "map fst (map (\<lambda>(n, s). (n, with_extra_retained esz (extra_retained_tokens pc) s)) merged) = map fst merged"
      by (simp add: case_prod_unfold)
    have m: "distinct (map fst merged)" "set (map fst merged) = set (map fst (concat ws))"
      using merge_specs_keys [OF merged] by auto
    have "mset (concat (map kg_layers (projected ! i))) = filter_mset (\<lambda>n. n \<in> ?W) (mset (concat (map kg_layers gs)))"
      by (simp only: project_layers [OF p [OF i(1)]] mset_filter)
    also have "\<dots> = mset (filter (\<lambda>n. n \<in> ?W) (map fst merged))"
      by (simp only: get_groups_cover [OF gs, unfolded keys] mset_filter)
    also have "\<dots> = mset (map fst (ws ! i))"
    proof (rule iffD1 [OF set_eq_iff_mset_eq_distinct])
      have "?W \<subseteq> set (map fst (concat ws))" using nth_mem [OF i(1)] by fastforce
      then show "set (filter (\<lambda>n. n \<in> ?W) (map fst merged)) = ?W" using m(2) by auto
    qed (use m(1) i(2) in simp_all)
    finally show ?thesis .
  qed
qed

section \<open>The plan\<close>

lemma room_blocks:
  assumes "has_room esz c (gs, e - b)" and "gs \<noteq> []" and "pool_bytes_per_block esz gs = ok b"
    and "sum_res (map (group_blocks esz c) gs) = ok n"
  shows "n + 1 \<le> e div b"
proof -
  have "b * n \<le> e - b" using assms by (auto simp: has_room_def max_memory_usage_bytes_from_groups_def)
  then have "(n + 1) * b \<le> e" by (simp add: algebra_simps)
  then have "(n + 1) * b div b \<le> e div b" using pool_bytes_pos [OF assms(3)] by (intro zdiv_mono1)
  then show ?thesis using pool_bytes_pos [OF assms(3)] by simp
qed

text \<open>The blocks of a worker before the cut, with or without an override.\<close>

lemma planned_blocks:
  assumes "config_for esz c gs e cfg" and "gs \<noteq> []" and "pool_bytes_per_block esz gs = ok b"
    and "\<And>k. kc_blocks_override c = Some k \<Longrightarrow> e = k * b"
  shows "cc_blocks cfg = e div b"
proof (cases "kc_blocks_override c")
  case (Some k)
  then show ?thesis using assms pool_bytes_pos [OF assms(3)] by (force simp: config_for_def may_override_num_blocks_def)
qed (use assms in \<open>auto simp: config_for_def may_override_num_blocks_def\<close>)

text \<open>What is known of one worker after planning: \<open>e\<close> is the memory planned with, \<open>a\<close> the memory offered.\<close>

definition planned :: "(string \<Rightarrow> int) \<Rightarrow> kv_config \<Rightarrow> kv_group list \<Rightarrow> int \<Rightarrow> int \<Rightarrow> bool" where
  "planned esz c gs a e =
     (gs = [] \<or> (\<exists>b. pool_bytes_per_block esz gs = ok b \<and> has_room esz c (gs, e - b)
        \<and> (case kc_blocks_override c of None \<Rightarrow> e = a | Some k \<Rightarrow> e = k * b)))"

lemma plan_memory_ok:
  assumes m: "plan_memory esz c0 projected avail = ok (eff, chk)" and len: "length avail = length projected"
    and room: "\<forall>w \<in> set (zip projected chk). has_room esz c w" and ov: "kc_blocks_override c = kc_blocks_override c0"
  shows "length eff = length projected" and "\<And>i. i < length projected \<Longrightarrow> planned esz c (projected ! i) (avail ! i) (eff ! i)"
proof -
  from m have e: "(if kc_blocks_override c0 = None then ok avail else map_res (effective_memory esz c0) (zip projected avail)) = ok eff"
    and k: "map_res (check_memory_of esz) (zip projected eff) = ok chk"
    by (auto simp: plan_memory_def rbind_ok_iff)
  show le: "length eff = length projected" using e len by (auto dest: map_res_length split: if_splits)
  show "planned esz c (projected ! i) (avail ! i) (eff ! i)" if i: "i < length projected" for i
  proof (cases "projected ! i = []")
    case False
    have "check_memory_of esz (projected ! i, eff ! i) = ok (chk ! i)" using map_res_nth [OF k, of i] i le by simp
    then obtain b where b: "pool_bytes_per_block esz (projected ! i) = ok b" "eff ! i - b = chk ! i"
      using False by (auto simp: check_memory_of_def rbind_ok_iff)
    have "length chk = length projected" using map_res_length [OF k] le by simp
    then have "(projected ! i, chk ! i) \<in> set (zip projected chk)" using i by (auto simp: in_set_zip)
    then have "has_room esz c (projected ! i, eff ! i - b)" using room by (auto simp: b(2))
    moreover have "case kc_blocks_override c of None \<Rightarrow> eff ! i = avail ! i | Some k \<Rightarrow> eff ! i = k * b"
    proof (cases "kc_blocks_override c0")
      case (Some k)
      then have "effective_memory esz c0 (projected ! i, avail ! i) = ok (eff ! i)"
        using e i len map_res_nth [of "effective_memory esz c0" "zip projected avail" eff i] by simp
      then show ?thesis using Some ov b(1) False by (simp add: effective_memory_def)
    qed (use e ov in simp)
    ultimately show ?thesis using b(1) by (auto simp: planned_def)
  qed (simp add: planned_def)
qed

definition good_config :: "(string \<Rightarrow> int) \<Rightarrow> kv_config \<Rightarrow> int \<Rightarrow> int \<Rightarrow> cache_config \<Rightarrow> bool" where
  "good_config esz c a n cfg =
     (cc_blocks cfg = n \<and> (kc_blocks_override c = None \<longrightarrow> cc_groups cfg \<noteq> [] \<longrightarrow>
        (\<exists>b. pool_bytes_per_block esz (cc_groups cfg) = ok b \<and> n * b \<le> a \<and> (\<forall>t \<in> set (cc_tensors cfg). kt_size t = n * b))))"

lemma worker_config_ok: "worker_config esz lo c ((gs, ws), e) = ok cfg \<Longrightarrow> config_for esz c gs e cfg"
  by (auto simp: worker_config_def intro: config_from_groups split: if_splits)

lemma planned_worker_blocks:
  assumes "planned esz c gs a e" and "config_for esz c gs e cfg" and "gs \<noteq> []"
  shows "\<exists>b. pool_bytes_per_block esz gs = ok b \<and> cc_blocks cfg = e div b
      \<and> (kc_blocks_override c = None \<longrightarrow> e = a) \<and> (\<forall>k. kc_blocks_override c = Some k \<longrightarrow> cc_blocks cfg = k)"
proof -
  from assms(1,3) obtain b where b: "pool_bytes_per_block esz gs = ok b"
    "case kc_blocks_override c of None \<Rightarrow> e = a | Some k \<Rightarrow> e = k * b" by (auto simp: planned_def)
  have "cc_blocks cfg = e div b" by (rule planned_blocks [OF assms(2,3) b(1)]) (use b(2) in simp)
  then show ?thesis using b pool_bytes_pos [OF b(1)] by (auto split: option.splits)
qed

lemma build_configs_ok:
  assumes b: "build_configs esz lo c projected ws eff = ok cfgs"
    and len: "length ws = length projected" "length eff = length projected"
    and same: "\<And>i. i < length projected \<Longrightarrow> projected ! i = [] \<longleftrightarrow> projected ! 0 = []"
    and pl: "\<And>i. i < length projected \<Longrightarrow> planned esz c (projected ! i) (avail ! i) (eff ! i)"
  shows "length cfgs = length projected"
    and "\<exists>n. (\<forall>i < length projected. cc_groups (cfgs ! i) = projected ! i \<and> good_config esz c (avail ! i) n (cfgs ! i))
           \<and> (\<exists>j < length projected. projected ! j \<noteq> [] \<longrightarrow> (\<exists>b. pool_bytes_per_block esz (projected ! j) = ok b \<and> n = eff ! j div b))"
proof -
  from b obtain cs where cs: "map_res (worker_config esz lo c) (zip (zip projected ws) eff) = ok cs" "cs \<noteq> []" and
    sh: "map_res (shrink_config esz lo c (Min (set (map cc_blocks cs)))) cs = ok cfgs"
    by (auto simp: build_configs_def rbind_ok_iff split: if_splits)
  obtain n where n: "n = Min (set (map cc_blocks cs))" by blast
  have lcs: "length cs = length projected" using map_res_length [OF cs(1)] len by simp
  show "length cfgs = length projected" using map_res_length [OF sh] lcs by simp
  have cf: "config_for esz c (projected ! i) (eff ! i) (cs ! i)" if "i < length projected" for i
    using map_res_nth [OF cs(1), of i] that len by (auto intro: worker_config_ok)
  have si: "shrink_config esz lo c n (cs ! i) = ok (cfgs ! i)" if "i < length projected" for i
    using map_res_nth [OF sh, of i] that lcs n by simp
  have le: "n \<le> cc_blocks (cs ! i)" if "i < length projected" for i unfolding n using that lcs by simp
  have "n \<in> set (map cc_blocks cs)" unfolding n using cs(2) by (intro Min_in) auto
  then obtain j where j: "j < length projected" "n = cc_blocks (cs ! j)" using lcs by (auto simp: in_set_conv_nth)
  note blocks = planned_worker_blocks [OF pl cf]
  have good: "cc_groups (cfgs ! i) = projected ! i \<and> good_config esz c (avail ! i) n (cfgs ! i)" if i: "i < length projected" for i
  proof (cases "projected ! i = []")
    case True
    then have e: "projected ! j = []" using same [OF i] same [OF j(1)] by simp
    have "cc_blocks (cs ! i) = n" "cc_groups (cs ! i) = []"
      using cf [OF i] cf [OF j(1)] True e j(2) by (auto simp: config_for_def)
    then show ?thesis using si [OF i] True by (simp add: shrink_config_def good_config_def)
  next
    case False
    from blocks [OF i i False] obtain b where bi: "kc_blocks_override c = None \<longrightarrow> eff ! i = avail ! i"
      "\<forall>k. kc_blocks_override c = Some k \<longrightarrow> cc_blocks (cs ! i) = k" by blast
    show ?thesis
    proof (cases "kc_blocks_override c")
      case None
      then show ?thesis using shrink_config_for [OF si [OF i] cf [OF i] False None le [OF i]] bi(1) by (auto simp: good_config_def)
    next
      case (Some k)
      have "projected ! j \<noteq> []" using same [OF i] same [OF j(1)] False by simp
      with blocks [OF j(1) j(1)] Some have "n = k" using j(2) by auto
      then show ?thesis using si [OF i] cf [OF i] bi(2) Some by (simp add: shrink_config_def good_config_def config_for_def)
    qed
  qed
  have "projected ! j \<noteq> [] \<longrightarrow> (\<exists>b. pool_bytes_per_block esz (projected ! j) = ok b \<and> n = eff ! j div b)"
    using blocks [OF j(1) j(1)] j(2) by auto
  then show "\<exists>n. (\<forall>i < length projected. cc_groups (cfgs ! i) = projected ! i \<and> good_config esz c (avail ! i) n (cfgs ! i))
           \<and> (\<exists>j < length projected. projected ! j \<noteq> [] \<longrightarrow> (\<exists>b. pool_bytes_per_block esz (projected ! j) = ok b \<and> n = eff ! j div b))"
    using good j(1) by blast
qed

text \<open>
  C37: Whenever the caches of the workers are planned, all workers get one number of blocks. When the number is not
  overridden, each tensor has the size of that many of the worker's blocks, and this fits the memory of the worker. The groups of every
  worker name its own layers, each once. And when every worker has groups, and a request of the
  resolved length needs at least \<open>m\<close> blocks in the groups of each, there are at least \<open>m + 1\<close>, one for the null block. (The layers a group names are meant:
  a projected uniform group can carry specifications of further layers, see \<open>projection_keeps_foreign_layers\<close>.)
\<close>

theorem plan_consistent:
  assumes "get_kv_cache_configs esz base registered pc ws avail = (ok cfgs, c)" and "length avail = length ws"
  shows "length cfgs = length ws \<and> (\<exists>n.
    (\<forall>i < length ws. good_config esz c (avail ! i) n (cfgs ! i)
      \<and> (distinct (map fst (ws ! i)) \<longrightarrow> mset (concat (map kg_layers (cc_groups (cfgs ! i)))) = mset (map fst (ws ! i))))
    \<and> (\<forall>m. (\<forall>i < length ws. cc_groups (cfgs ! i) \<noteq> [] \<and> (\<exists>k. sum_res (map (group_blocks esz c) (cc_groups (cfgs ! i))) = ok k \<and> m \<le> k)) \<longrightarrow> m + 1 \<le> n))"
proof -
  from assms(1) obtain projected eff chk u where p: "plan_groups esz base registered pc ws = ok projected" and
    m: "plan_memory esz (pc_kv pc) projected avail = ok (eff, chk)" and
    f: "fit_and_check esz (pc_original_len pc) projected chk (pc_kv pc) = (Inr u, c)" and
    b: "build_configs esz (pc_layout pc) c projected ws eff = ok cfgs"
    by (auto simp: get_kv_cache_configs_def rbind_ok_iff split: sum.splits prod.splits)
  note pg = plan_groups_ok [OF p] and fc = fit_and_check_ok [OF f]
  have len: "length avail = length projected" "length ws = length projected" using pg(1) assms(2) by simp_all
  note pm = plan_memory_ok [OF m len(1) conjunct2 [OF fc] conjunct1 [OF fc]]
  have same: "projected ! i = [] \<longleftrightarrow> projected ! 0 = []" if "i < length projected" for i using pg(2) that len(2) by simp
  note bc = build_configs_ok [OF b len(2) pm(1) same pm(2)]
  from bc(2) obtain n j where n: "\<forall>i < length projected. cc_groups (cfgs ! i) = projected ! i \<and> good_config esz c (avail ! i) n (cfgs ! i)"
    and j: "j < length projected" "projected ! j \<noteq> [] \<longrightarrow> (\<exists>b. pool_bytes_per_block esz (projected ! j) = ok b \<and> n = eff ! j div b)" by blast
  have "m + 1 \<le> n" if "\<forall>i < length ws. cc_groups (cfgs ! i) \<noteq> [] \<and> (\<exists>k. sum_res (map (group_blocks esz c) (cc_groups (cfgs ! i))) = ok k \<and> m \<le> k)" for m
  proof -
    from that n j(1) len(2) obtain k where g: "projected ! j \<noteq> []" "sum_res (map (group_blocks esz c) (projected ! j)) = ok k" "m \<le> k" by auto
    with pm(2) [OF j(1)] obtain b where r: "pool_bytes_per_block esz (projected ! j) = ok b" "has_room esz c (projected ! j, eff ! j - b)"
      by (auto simp: planned_def)
    then show ?thesis using room_blocks [OF r(2) g(1) r(1) g(2)] j(2) g(1,3) by auto
  qed
  moreover have "\<forall>i < length ws. good_config esz c (avail ! i) n (cfgs ! i)
      \<and> (distinct (map fst (ws ! i)) \<longrightarrow> mset (concat (map kg_layers (cc_groups (cfgs ! i)))) = mset (map fst (ws ! i)))"
    using n pg(3) len(2) by metis
  ultimately show ?thesis using bc(1) len(2) by auto
qed

definition two_layers :: specs where
  "two_layers = [(''f'', FullAttn example_attn default_full), (''g'', FullAttn example_attn default_full)]"

definition two_group :: kv_group where
  "two_group = new_group [''f'', ''g''] (Layer (FullAttn example_attn default_full))"

lemma two_plan_groups: "plan_groups (\<lambda>_. 1) base0 (\<lambda>_. ok ()) example_plan [two_layers] = ok [[two_group]]"
proof -
  have e: "\<not> pc_disable_hybrid example_plan" by (simp add: example_plan_def)
  have m: "merge_worker_specs [two_layers] = ok two_layers"
    by (simp add: merge_worker_specs_def two_layers_def merge_spec_step_def)
  have x: "map (\<lambda>(n, s). (n, with_extra_retained (\<lambda>_. 1) (extra_retained_tokens example_plan) s)) two_layers = two_layers"
    by (simp add: two_layers_def)
  have f: "merge (\<lambda>_. 1) [FullAttn example_attn default_full, FullAttn example_attn default_full] = ok (FullAttn example_attn default_full)"
    by (simp add: merge_def merge_full_def merge_window_sizes_def map_filter_simps same_attn_def default_full_def)
  have g: "get_kv_cache_groups (\<lambda>_. 1) base0 example_plan two_layers = ok ([two_group], two_layers)"
    by (simp add: get_kv_cache_groups_def e groups_of_specs_def is_kv_cache_spec_uniform_def two_layers_def f groups_uniform_spec_def
        create_kv_cache_group_specs_def merged_group_def spec_at_def two_group_def)
  show ?thesis
    by (simp add: plan_groups_def m x g project_kv_cache_groups_to_worker_def)
      (simp add: project_group_def two_layers_def two_group_def new_group_def projected_spec_def)
qed

lemma two_pool: "pool_bytes_per_block (\<lambda>_. 1) [two_group] = ok 73728"
  by (simp add: pool_bytes_per_block_def get_kv_cache_bytes_per_block_def group_bytes_def two_group_def new_group_def get_per_layer_spec_def
      sum_res_def del: page_size_bytes.simps)

lemma two_blocks: "group_blocks (\<lambda>_. 1) example_config two_group = ok 4"
proof -
  have "at_block example_attn = 64" by (simp add: example_attn_def)
  then show ?thesis
    by (simp add: group_blocks_def two_group_def new_group_def pages_of_def layer_memory_def cdiv_res_def cdiv_def example_config_def
        del: page_size_bytes.simps)
qed

lemma two_room: "fit_and_check (\<lambda>_. 1) 1000 [[two_group]] [516096] example_config = (Inr (), example_config)"
  by (simp add: fit_and_check_def check_enough_memory_with_def max_memory_usage_bytes_from_groups_def two_pool two_blocks sum_res_def)

lemma two_strides:
  "compute_layout_strides (\<lambda>_. 1) (FullAttn example_attn default_full) 8 2 (pc_layout example_plan) None [None, Some 73728, None, None, None]
     = ok [36864, 73728, 36864, 576, 1]"
proof -
  have lo: "pc_layout example_plan = \<lparr>lo_order = [1, 0, 2, 3, 4], lo_block_outermost = True, lo_block_compact = True, lo_layer_compact = False\<rparr>"
    by (simp add: example_plan_def)
  have "replicate 5 (0 :: int) = [0, 0, 0, 0, 0]" by (simp add: eval_nat_numeral)
  then show ?thesis
    by (simp add: compute_layout_strides_def layer_shape_def layer_padded_def lo example_attn_def layer_heads_def num_heads_def num_states_def
        layer_content_def state_content_size_bytes_def Let_def stride_step_def page_grid_end_def)
qed

lemma two_config: "\<exists>cfg. get_kv_cache_config_from_groups (\<lambda>_. 1) (pc_layout example_plan) example_config [two_group] 589824 = ok cfg \<and> cc_blocks cfg = 8"
proof -
  have v: "validate_kv_cache_layout (\<lambda>_. 1) (pc_layout example_plan) [two_group] = ok ()"
    by (simp add: validate_kv_cache_layout_def two_group_def new_group_def group_layer_page_def get_per_layer_spec_def del: page_size_bytes.simps)
  have n: "may_override_num_blocks example_config 8 = 8" by (simp add: may_override_num_blocks_def example_config_def)
  have o: "lo_block_outermost (pc_layout example_plan)" by (simp add: example_plan_def)
  have "\<exists>ts. fold_res (group_tensors (\<lambda>_. 1) (pc_layout example_plan) 8 589824 (Some 73728)) [two_group] [] = ok ts"
    by (simp add: group_tensors_def layers_by_spec_def two_group_def new_group_def tensor_step_def two_strides del: page_size_bytes.simps)
  then show ?thesis
    using two_pool by (auto simp: get_kv_cache_config_from_groups_def v pool_bytes_per_block_def n o)
qed

theorem plan_consistent_witness:
  "\<exists>cfg. get_kv_cache_configs (\<lambda>_. 1) base0 (\<lambda>_. ok ()) example_plan [two_layers] [589824] = (ok [cfg], example_config)
     \<and> good_config (\<lambda>_. 1) example_config 589824 8 cfg \<and> mset (concat (map kg_layers (cc_groups cfg))) = {# ''f'', ''g'' #}"
proof -
  from two_config obtain cfg where cfg: "get_kv_cache_config_from_groups (\<lambda>_. 1) (pc_layout example_plan) example_config [two_group] 589824 = ok cfg"
    "cc_blocks cfg = 8" by blast
  have l: "length (concat (map kg_layers [two_group])) = length two_layers" by (simp add: two_group_def new_group_def two_layers_def)
  have b: "build_configs (\<lambda>_. 1) (pc_layout example_plan) example_config [[two_group]] [two_layers] [589824] = ok [cfg]"
    using l cfg(1) by (simp add: build_configs_def worker_config_def shrink_config_def)
  have pc: "pc_kv example_plan = example_config" "pc_original_len example_plan = 1000" "kc_blocks_override example_config = None"
    by (simp_all add: example_plan_def example_config_def)
  have g: "get_kv_cache_configs (\<lambda>_. 1) base0 (\<lambda>_. ok ()) example_plan [two_layers] [589824] = (ok [cfg], example_config)"
    by (simp add: get_kv_cache_configs_def two_plan_groups plan_memory_def pc check_memory_of_def two_pool two_room b)
  from plan_consistent [OF g] obtain n where n: "good_config (\<lambda>_. 1) example_config 589824 n cfg"
    "distinct (map fst two_layers) \<longrightarrow> mset (concat (map kg_layers (cc_groups cfg))) = mset (map fst two_layers)" by auto
  have "n = 8" using n(1) cfg(2) by (simp add: good_config_def)
  with g n show ?thesis by (auto simp: two_layers_def)
qed

text \<open>
  A worker of a pipeline without layers of a uniform group keeps the whole specification of the group, and
  its configuration places the tensors of layers it does not own.
\<close>

lemma projection_keeps_foreign_layers:
  "project_group [''mine''] (new_group [''f''] (Uniform 64 [(''f'', s)]))
     = ok \<lparr>kg_layers = [], kg_spec = Uniform 64 [(''f'', s)], kg_eagle = False, kg_transfer = True\<rparr>
   \<and> layers_by_spec \<lparr>kg_layers = [], kg_spec = Uniform 64 [(''f'', s)], kg_eagle = False, kg_transfer = True\<rparr> = [(s, [''f''])]"
  by (simp add: project_group_def new_group_def projected_spec_def layers_by_spec_def same_type_layers_def)

end
