(* ===== verification/Kv_Layout.thy ===== *)
theory Kv_Layout
  imports Kv_Configs
begin

text \<open>
  Placement of the cache tensors in the block-outermost layout with axes in the order
  block, layer, head, state, content (\<^verbatim>\<open>BLHNC\<close>), as \<^verbatim>\<open>get_kv_cache_config_from_groups\<close> computes it. A page is
  the bytes of one layer in one block. Theorem: within a group no two pages share a byte and every page lies inside the allocation.
\<close>

definition page_start :: "kv_tensor \<Rightarrow> nat \<Rightarrow> int \<Rightarrow> int" where
  "page_start t l b = kt_offset t + int l * kt_layer_stride t + b * kt_block_stride t"

definition page_of :: "int \<Rightarrow> kv_tensor list \<Rightarrow> nat \<times> nat \<times> int \<Rightarrow> bool" where
  "page_of n ts q = (case q of (i, l, b) \<Rightarrow> i < length ts \<and> l < length (kt_layers (ts ! i)) \<and> 0 \<le> b \<and> b < n)"

definition own_pages :: "int \<Rightarrow> kv_tensor list \<Rightarrow> bool" where
  "own_pages n ts =
     ((\<forall>i l b. page_of n ts (i, l, b) \<longrightarrow> 0 \<le> page_start (ts ! i) l b \<and> page_start (ts ! i) l b + kt_layer_stride (ts ! i) \<le> kt_size (ts ! i))
      \<and> (\<forall>i l b j k d. page_of n ts (i, l, b) \<longrightarrow> page_of n ts (j, k, d) \<longrightarrow> (i, l, b) \<noteq> (j, k, d) \<longrightarrow>
           page_start (ts ! i) l b + kt_layer_stride (ts ! i) \<le> page_start (ts ! j) k d
           \<or> page_start (ts ! j) k d + kt_layer_stride (ts ! j) \<le> page_start (ts ! i) l b))"

definition good_layer :: "(string \<Rightarrow> int) \<Rightarrow> layer_spec \<Rightarrow> bool" where
  "good_layer esz s = (positive (page_size_bytes esz s) \<and> (case s of Mamba m \<Rightarrow> mb_heads m = 1 \<and> mb_tokens_per_state m \<le> 0 | _ \<Rightarrow> True))"

definition blhnc :: "layout \<Rightarrow> bool" where
  "blhnc lo = (lo_order lo = [1, 0, 2, 3, 4] \<and> lo_block_outermost lo)"

section \<open>Strides\<close>

lemma page_of_layer:
  assumes "page_size_bytes esz s = ok p" and "good_layer esz s"
  shows "let u = layer_heads s * num_states (block_size s) (layer_tokens_per_state s) * layer_content esz s in
    p = (case layer_padded s of None \<Rightarrow> u | Some q \<Rightarrow> q) \<and> u \<le> p"
  using assms
  by (cases s) (auto simp: good_layer_def layer_heads_def layer_content_def layer_padded_def padded_page_def num_states_def
      unpadded_page_size_bytes_def Let_def split: option.splits if_splits)

lemma blhnc_strides:
  assumes st: "compute_layout_strides esz s n k lo None [None, Some w, None, None, None] = ok st" and lo: "blhnc lo"
    and p: "page_size_bytes esz s = ok p" and g: "good_layer esz s"
  shows "st ! 0 = p \<and> st ! 1 = w"
proof -
  have "replicate 5 (0 :: int) = [0, 0, 0, 0, 0]" by (simp add: eval_nat_numeral)
  then show ?thesis using st page_of_layer [OF p g] lo
    by (auto simp: compute_layout_strides_def layer_shape_def blhnc_def Let_def stride_step_def page_grid_end_def ac_simps max_absorb2
        split: option.splits if_splits)
qed

section \<open>Tensors of one group\<close>

text \<open>Consecutive placement within a block: from \<open>o1\<close> to \<open>o2\<close>, with block stride \<open>w\<close>.\<close>

fun packed :: "int \<Rightarrow> int \<Rightarrow> int \<Rightarrow> kv_tensor list \<Rightarrow> int \<Rightarrow> bool" where
  "packed w sz o1 [] o2 = (o1 = o2)"
| "packed w sz o1 (t # ts) o2 =
     (kt_offset t = o1 \<and> kt_block_stride t = w \<and> kt_size t = sz \<and> 0 < kt_layer_stride t
      \<and> packed w sz (o1 + int (length (kt_layers t)) * kt_layer_stride t) ts o2)"

definition pages_sum :: "(string \<Rightarrow> int) \<Rightarrow> (layer_spec \<times> string list) list \<Rightarrow> int" where
  "pages_sum esz sls = sum_list (map (\<lambda>(s, ns). int (length ns) * projr (page_size_bytes esz s)) sls)"

lemma packed_append: "packed w sz o1 (ts @ us) o2 = (\<exists>o3. packed w sz o1 ts o3 \<and> packed w sz o3 us o2)"
  by (induction w sz o1 ts o2 rule: packed.induct) auto

lemma tensor_step_packed:
  assumes t: "tensor_step esz lo n sz (Some w) (s, ns) (o1, ts) = ok st" and lo: "blhnc lo" and g: "good_layer esz s"
    and pk: "packed w sz 0 ts o1"
  shows "\<exists>t. st = (o1 + int (length ns) * projr (page_size_bytes esz s), ts @ [t]) \<and> kt_layers t = ns
    \<and> packed w sz 0 (ts @ [t]) (o1 + int (length ns) * projr (page_size_bytes esz s))"
proof -
  from g obtain p where p: "page_size_bytes esz s = ok p" "0 < p" by (auto simp: good_layer_def dest: positive_ok)
  from t p obtain strides where s: "compute_layout_strides esz s n (int (length ns)) lo None [None, Some w, None, None, None] = ok strides"
    by (auto simp: tensor_step_def rbind_ok_iff)
  note b = blhnc_strides [OF s lo p(1) g]
  have "o1 * max p p div p = o1" using p(2) by simp
  then show ?thesis using t p s b pk by (auto simp: tensor_step_def packed_append)
qed

lemma tensors_packed:
  assumes "fold_res (tensor_step esz lo n sz (Some w)) sls (o1, ts) = ok r" and "blhnc lo" and "\<forall>e \<in> set sls. good_layer esz (fst e)"
    and "packed w sz 0 ts o1"
  shows "packed w sz 0 (snd r) (o1 + pages_sum esz sls) \<and> map kt_layers (snd r) = map kt_layers ts @ map snd sls"
  using assms(1,3,4)
proof (induction sls arbitrary: o1 ts)
  case Nil
  then show ?case by (auto simp: pages_sum_def)
next
  case (Cons sl sls)
  obtain s ns where sl: "sl = (s, ns)" by force
  from Cons.prems(1) obtain st where st: "tensor_step esz lo n sz (Some w) (s, ns) (o1, ts) = ok st"
    "fold_res (tensor_step esz lo n sz (Some w)) sls st = ok r" by (auto simp: sl rbind_ok_iff)
  have g: "good_layer esz s" using Cons.prems(2) by (simp add: sl)
  from tensor_step_packed [OF st(1) assms(2) g Cons.prems(3)] obtain t where t:
    "st = (o1 + int (length ns) * projr (page_size_bytes esz s), ts @ [t])" "kt_layers t = ns"
    "packed w sz 0 (ts @ [t]) (o1 + int (length ns) * projr (page_size_bytes esz s))" by blast
  from Cons.IH [of "o1 + int (length ns) * projr (page_size_bytes esz s)" "ts @ [t]"] st(2) t Cons.prems(2)
  show ?case by (simp add: sl pages_sum_def add.assoc)
qed

text \<open>Packed tensors keep their pages apart.\<close>

lemma packed_mono: "packed w sz o1 ts o2 \<Longrightarrow> o1 \<le> o2"
proof (induction w sz o1 ts o2 rule: packed.induct)
  case (2 w sz o1 t ts o2)
  have "0 \<le> int (length (kt_layers t)) * kt_layer_stride t" using 2(2) by simp
  moreover have "o1 + int (length (kt_layers t)) * kt_layer_stride t \<le> o2" using 2 by simp
  ultimately show ?case by linarith
qed simp

lemma packed_offset: "packed w sz o1 ts o2 \<Longrightarrow> i < length ts \<Longrightarrow> o1 \<le> kt_offset (ts ! i)"
proof (induction w sz o1 ts o2 arbitrary: i rule: packed.induct)
  case (2 w sz o1 t ts o2)
  show ?case
  proof (cases i)
    case (Suc k)
    have "0 \<le> int (length (kt_layers t)) * kt_layer_stride t" using 2(2) by simp
    moreover have "o1 + int (length (kt_layers t)) * kt_layer_stride t \<le> kt_offset (ts ! k)" using 2 Suc by simp
    ultimately show ?thesis using Suc by simp
  qed (use 2(2) in simp)
qed simp

text \<open>The layers of one tensor end where the next tensor starts.\<close>

lemma layer_end: "0 < kt_layer_stride t \<Longrightarrow> l < length (kt_layers t) \<Longrightarrow> int (Suc l) * kt_layer_stride t \<le> int (length (kt_layers t)) * kt_layer_stride t"
  by (intro mult_right_mono) auto

lemma packed_slot:
  "packed w sz o1 ts o2 \<Longrightarrow> i < length ts \<Longrightarrow> l < length (kt_layers (ts ! i)) \<Longrightarrow>
   kt_offset (ts ! i) + int (Suc l) * kt_layer_stride (ts ! i) \<le> o2"
proof (induction w sz o1 ts o2 arbitrary: i rule: packed.induct)
  case (2 w sz o1 t ts o2)
  show ?case
  proof (cases i)
    case 0
    have f: "kt_offset t = o1" "0 < kt_layer_stride t" "packed w sz (o1 + int (length (kt_layers t)) * kt_layer_stride t) ts o2"
      "l < length (kt_layers t)" using 2(2,4) 0 by simp_all
    show ?thesis using layer_end [OF f(2,4)] packed_mono [OF f(3)] f(1) unfolding 0 nth_Cons_0 by linarith
  qed (use 2 in auto)
qed simp

lemma packed_fields:
  "packed w sz o1 ts o2 \<Longrightarrow> i < length ts \<Longrightarrow> kt_size (ts ! i) = sz \<and> kt_block_stride (ts ! i) = w \<and> 0 < kt_layer_stride (ts ! i)"
proof (induction w sz o1 ts o2 arbitrary: i rule: packed.induct)
  case (2 w sz o1 t ts o2)
  then show ?case by (cases i) auto
qed simp

lemma packed_apart:
  "packed w sz o1 ts o2 \<Longrightarrow> i < j \<Longrightarrow> j < length ts \<Longrightarrow> l < length (kt_layers (ts ! i)) \<Longrightarrow>
   kt_offset (ts ! i) + int (Suc l) * kt_layer_stride (ts ! i) \<le> kt_offset (ts ! j)"
proof (induction w sz o1 ts o2 arbitrary: i j rule: packed.induct)
  case (2 w sz o1 t ts o2)
  then obtain j' where j: "j = Suc j'" by (cases j) auto
  show ?case
  proof (cases i)
    case 0
    have f: "kt_offset t = o1" "0 < kt_layer_stride t" "packed w sz (o1 + int (length (kt_layers t)) * kt_layer_stride t) ts o2"
      "l < length (kt_layers t)" "j' < length ts" using 2(2,4,5) 0 j by simp_all
    show ?thesis using layer_end [OF f(2,4)] packed_offset [OF f(3,5)] f(1) unfolding 0 j nth_Cons_0 nth_Cons_Suc by linarith
  qed (use 2 j in auto)
qed simp

text \<open>The place of a page in its block.\<close>

definition slot :: "kv_tensor list \<Rightarrow> nat \<Rightarrow> nat \<Rightarrow> int" where
  "slot ts i l = kt_offset (ts ! i) + int l * kt_layer_stride (ts ! i)"

lemma slot_bounds:
  assumes "packed w sz 0 ts o2" and "i < length ts" and "l < length (kt_layers (ts ! i))"
  shows "0 \<le> slot ts i l" and "slot ts i l + kt_layer_stride (ts ! i) \<le> o2"
proof -
  have "0 \<le> int l * kt_layer_stride (ts ! i)" using packed_fields [OF assms(1,2)] by simp
  then show "0 \<le> slot ts i l" using packed_offset [OF assms(1,2)] by (simp add: slot_def)
  show "slot ts i l + kt_layer_stride (ts ! i) \<le> o2"
    using packed_slot [OF assms] by (simp add: slot_def algebra_simps)
qed

lemma slot_apart:
  assumes "packed w sz 0 ts o2" and "i < length ts" and "l < length (kt_layers (ts ! i))" and "j < length ts"
    and "i < j \<or> i = j \<and> l < k"
  shows "slot ts i l + kt_layer_stride (ts ! i) \<le> slot ts j k"
proof (cases "i < j")
  case True
  have "0 \<le> int k * kt_layer_stride (ts ! j)" using packed_fields [OF assms(1,4)] by simp
  then show ?thesis using packed_apart [OF assms(1) True assms(4,3)] by (simp add: slot_def algebra_simps)
next
  case False
  then have e: "i = j" "l < k" using assms(5) by auto
  have "int (Suc l) * kt_layer_stride (ts ! j) \<le> int k * kt_layer_stride (ts ! j)"
    using e(2) packed_fields [OF assms(1,4)] by (intro mult_right_mono) auto
  then show ?thesis by (simp add: slot_def e(1) algebra_simps)
qed

lemma packed_own_pages:
  assumes p: "packed w (w * n) 0 ts o2" and w: "o2 \<le> w" "0 < w"
  shows "own_pages n ts"
proof -
  have start: "page_start (ts ! i) l b = slot ts i l + b * w" if "page_of n ts (i, l, b)" for i l b
    using packed_fields [OF p] that by (simp add: page_start_def slot_def page_of_def)
  have bounds: "0 \<le> slot ts i l" "slot ts i l + kt_layer_stride (ts ! i) \<le> w" if "page_of n ts (i, l, b)" for i l b
    using slot_bounds [OF p] that w(1) by (fastforce simp: page_of_def)+
  have step: "(b + 1) * w \<le> d * w" if "b < d" for b d using that w(2) by (intro mult_right_mono) auto
  have inside: "0 \<le> page_start (ts ! i) l b \<and> page_start (ts ! i) l b + kt_layer_stride (ts ! i) \<le> kt_size (ts ! i)"
    if q: "page_of n ts (i, l, b)" for i l b
  proof -
    have "0 \<le> b * w" "(b + 1) * w \<le> n * w" "kt_size (ts ! i) = n * w"
      using q w(2) step [of b n] packed_fields [OF p] by (auto simp: page_of_def)
    then show ?thesis using bounds [OF q] start [OF q] by (simp add: algebra_simps)
  qed
  have apart: "page_start (ts ! i) l b + kt_layer_stride (ts ! i) \<le> page_start (ts ! j) k d"
    if q: "page_of n ts (i, l, b)" "page_of n ts (j, k, d)" and less: "b < d \<or> b = d \<and> (i < j \<or> i = j \<and> l < k)" for i l b j k d
  proof (cases "b < d")
    case True
    then show ?thesis using bounds [OF q(1)] bounds [OF q(2)] step [OF True] by (simp add: start [OF q(1)] start [OF q(2)] algebra_simps)
  next
    case False
    then have e: "b = d" "i < j \<or> i = j \<and> l < k" using less by auto
    have "slot ts i l + kt_layer_stride (ts ! i) \<le> slot ts j k"
      using slot_apart [OF p _ _ _ e(2)] q by (simp add: page_of_def)
    then show ?thesis unfolding start [OF q(1)] start [OF q(2)] using e(1) by simp
  qed
  have "page_start (ts ! i) l b + kt_layer_stride (ts ! i) \<le> page_start (ts ! j) k d
      \<or> page_start (ts ! j) k d + kt_layer_stride (ts ! j) \<le> page_start (ts ! i) l b"
    if "page_of n ts (i, l, b)" "page_of n ts (j, k, d)" "(i, l, b) \<noteq> (j, k, d)" for i l b j k d
    using apart [OF that(1,2)] apart [OF that(2,1)] that(3) by (metis linorder_neqE_linordered_idom linorder_neqE_nat)
  with inside show ?thesis unfolding own_pages_def by blast
qed

section \<open>All groups of a worker\<close>

lemma tensor_step_prefix:
  "tensor_step esz lo n sz bs sl (o1, ts @ xs) = ok st \<Longrightarrow> \<exists>o2 ys. st = (o2, ts @ ys) \<and> tensor_step esz lo n sz bs sl (o1, xs) = ok (o2, ys)"
  by (cases sl) (auto simp: tensor_step_def rbind_ok_iff split: if_splits)

lemma tensors_prefix:
  "fold_res (tensor_step esz lo n sz bs) sls (o1, ts @ xs) = ok r \<Longrightarrow>
   \<exists>o2 ys. r = (o2, ts @ ys) \<and> fold_res (tensor_step esz lo n sz bs) sls (o1, xs) = ok (o2, ys)"
proof (induction sls arbitrary: o1 xs)
  case (Cons sl sls)
  from Cons.prems obtain st where st: "tensor_step esz lo n sz bs sl (o1, ts @ xs) = ok st" "fold_res (tensor_step esz lo n sz bs) sls st = ok r"
    by (auto simp: rbind_ok_iff)
  from tensor_step_prefix [OF st(1)] obtain o2 ys where s: "st = (o2, ts @ ys)" "tensor_step esz lo n sz bs sl (o1, xs) = ok (o2, ys)" by blast
  from Cons.IH [of o2 ys] st(2) s show ?case by auto
qed auto

lemma group_tensors_prefix: "group_tensors esz lo n sz bs g ts = ok us \<Longrightarrow> \<exists>new. us = ts @ new \<and> group_tensors esz lo n sz bs g [] = ok new"
  using tensors_prefix [of esz lo n sz bs "layers_by_spec g" 0 ts "[]"] by (auto simp: group_tensors_def rbind_ok_iff)

lemma groups_tensors_split:
  "fold_res (group_tensors esz lo n sz bs) gs ts = ok us \<Longrightarrow>
   \<exists>tss. us = ts @ concat tss \<and> list_all2 (\<lambda>g new. group_tensors esz lo n sz bs g [] = ok new) gs tss"
proof (induction gs arbitrary: ts)
  case (Cons g gs)
  from Cons.prems obtain vs where v: "group_tensors esz lo n sz bs g ts = ok vs" "fold_res (group_tensors esz lo n sz bs) gs vs = ok us"
    by (auto simp: rbind_ok_iff)
  from group_tensors_prefix [OF v(1)] obtain new where new: "vs = ts @ new" "group_tensors esz lo n sz bs g [] = ok new" by blast
  from Cons.IH [OF v(2)] obtain tss where "us = vs @ concat tss" "list_all2 (\<lambda>g new. group_tensors esz lo n sz bs g [] = ok new) gs tss" by blast
  with new show ?case by (intro exI [of _ "new # tss"]) simp
qed auto

text \<open>The bytes of a group are the sum of the pages it places.\<close>

lemma sum_res_ok: "sum_res (map (\<lambda>x. ok (f x)) xs) = ok (sum_list (map f xs))"
proof -
  have "fold_res (\<lambda>x acc. rbind x (\<lambda>v. ok (acc + v))) (map (\<lambda>x. ok (f x)) xs) n = ok (n + sum_list (map f xs))" for n
    by (induction xs arbitrary: n) (auto simp: add.assoc)
  then show ?thesis by (simp add: sum_res_def)
qed

lemma max_res_ge: "max_res rs = ok m \<Longrightarrow> ok v \<in> set rs \<Longrightarrow> v \<le> m"
  by (induction rs arbitrary: m rule: max_res.induct) (auto simp: rbind_ok_iff)

lemma add_under_sum:
  "sum_list (map (\<lambda>(s, ns). int (length ns) * f s) (add_under s n d)) = f s + sum_list (map (\<lambda>(s, ns). int (length ns) * f s) d)"
  by (induction s n d rule: add_under.induct) (auto simp: algebra_simps)

lemma same_type_sum: "pages_sum esz (same_type_layers specs) = sum_list (map (\<lambda>e. projr (page_size_bytes esz (snd e))) specs)"
proof -
  have "pages_sum esz (fold (\<lambda>(n, s) d. add_under s n d) specs d) = sum_list (map (\<lambda>e. projr (page_size_bytes esz (snd e))) specs) + pages_sum esz d" for d
  proof (induction specs arbitrary: d)
    case (Cons e specs)
    then show ?case by (cases e) (simp add: pages_sum_def add_under_sum)
  qed simp
  from this [of "[]"] show ?thesis by (simp add: same_type_layers_def pages_sum_def)
qed

lemma same_type_keys: "fst ` set (same_type_layers specs) \<subseteq> snd ` set specs"
proof -
  have a: "fst ` set (add_under s n d) \<subseteq> insert s (fst ` set d)" for s and n :: string and d
    by (induction s n d rule: add_under.induct) auto
  have "fst ` set (fold (\<lambda>(n, s) d. add_under s n d) specs d) \<subseteq> snd ` set specs \<union> fst ` set d" for d
  proof (induction specs arbitrary: d)
    case (Cons e specs)
    obtain n s where e: "e = (n, s)" by force
    from Cons.IH [of "add_under s n d"] a [of s n d] show ?case by (auto simp: e)
  qed simp
  from this [of "[]"] show ?thesis by (simp add: same_type_layers_def)
qed

definition good_group :: "(string \<Rightarrow> int) \<Rightarrow> kv_group \<Rightarrow> bool" where
  "good_group esz g = (whole_group g \<and> distinct (kg_layers g) \<and> list_all (good_layer esz) (iter_layer_specs (kg_spec g)))"

lemma good_page: "good_layer esz s \<Longrightarrow> page_size_bytes esz s = ok (projr (page_size_bytes esz s))"
  by (auto simp: good_layer_def dest: positive_ok)

lemma group_bytes_sum:
  assumes "good_group esz g"
  shows "group_bytes esz g = ok (pages_sum esz (layers_by_spec g))"
proof (cases "kg_spec g")
  case (Layer s)
  then have p: "page_size_bytes esz s = ok (projr (page_size_bytes esz s))" using assms by (auto simp: good_group_def intro: good_page)
  have "group_bytes esz g = sum_res (map (\<lambda>n. ok (projr (page_size_bytes esz s))) (kg_layers g))"
    using Layer p by (simp add: group_bytes_def get_per_layer_spec_def)
  then show ?thesis using Layer by (simp add: sum_res_ok layers_by_spec_def pages_sum_def sum_list_triv)
next
  case (Uniform b specs)
  then have names: "map fst specs = kg_layers g" and good: "\<forall>e \<in> set specs. good_layer esz (snd e)" and d: "distinct (map fst specs)"
    using assms by (auto simp: good_group_def whole_group_def list_all_iff)
  have e: "rbind (get_per_layer_spec g (fst e)) (group_page_size esz) = ok (projr (page_size_bytes esz (snd e)))" if "e \<in> set specs" for e
    using that map_of_is_SomeI [OF d, of "fst e" "snd e"] good_page [of esz "snd e"] good Uniform by (simp add: get_per_layer_spec_def)
  have "group_bytes esz g = sum_res (map (\<lambda>e. rbind (get_per_layer_spec g (fst e)) (group_page_size esz)) specs)"
    by (simp add: group_bytes_def comp_def flip: names)
  also have "\<dots> = sum_res (map (\<lambda>e. ok (projr (page_size_bytes esz (snd e)))) specs)" using e by (simp cong: map_cong)
  finally show ?thesis using Uniform by (simp add: sum_res_ok layers_by_spec_def same_type_sum)
qed

lemma layers_by_spec_good:
  assumes "good_group esz g"
  shows "\<forall>e \<in> set (layers_by_spec g). good_layer esz (fst e)" and "mset (concat (map snd (layers_by_spec g))) = mset (kg_layers g)"
proof -
  show "\<forall>e \<in> set (layers_by_spec g). good_layer esz (fst e)"
  proof (cases "kg_spec g")
    case (Uniform b specs)
    then have "\<forall>s \<in> snd ` set specs. good_layer esz s" using assms by (auto simp: good_group_def list_all_iff)
    then have "\<forall>s \<in> fst ` set (same_type_layers specs). good_layer esz s" using same_type_keys [of specs] by blast
    then show ?thesis using Uniform by (simp add: layers_by_spec_def)
  qed (use assms in \<open>auto simp: layers_by_spec_def good_group_def\<close>)
  show "mset (concat (map snd (layers_by_spec g))) = mset (kg_layers g)"
    using assms by (cases "kg_spec g") (auto simp: layers_by_spec_def good_group_def whole_group_def same_type_layers_mset simp del: mset_map)
qed



end
