(* ===== verification/Kv_Coordinator.thy ===== *)
theory Kv_Coordinator
  imports Kv_Configs
begin

text \<open>
  Coordination of the cache groups (\<^verbatim>\<open>vllm/v1/core/kv_cache_coordinator.py\<close>): construction and choice of the
  coordinator, its calls into the managers of the groups, and the search for the longest
  prefix that is cached in every group. The managers and the block pool are not part of the repository: what they
  answer is a parameter, and what the coordinator relies on is \<open>finder_contract\<close>.
  Theorem: under that contract the search ends, every group gets the blocks of one common length, and without draft groups this length is the greatest.
\<close>

section \<open>Construction\<close>

record manager =
  mg_class :: nat
  mg_block :: int
  mg_dcp :: int
  mg_fine :: bool
  mg_cross :: bool
  mg_eagle :: bool
  mg_alignment :: int

record spec_group =
  sg_spec :: cache_spec
  sg_ids :: "nat list"
  sg_class :: nat
  sg_eagle :: bool

datatype coord_class = NoPrefixCache | Unitary | Hybrid

record coordinator =
  co_class :: coord_class
  co_groups :: "kv_group list"
  co_caching :: bool
  co_scheduler_block :: int
  co_hash_block :: int
  co_reprefillable :: int
  co_eagle_ids :: "nat list"
  co_managers :: "manager list"
  co_retention :: "int option"
  co_partial :: bool
  co_attention :: "spec_group list"
  co_full_id :: "nat option"

record coord_args =
  ca_groups :: "kv_group list"
  ca_retention :: "int option"
  ca_eagle :: bool
  ca_caching :: bool
  ca_dcp :: int
  ca_pcp :: int
  ca_scheduler_block :: int
  ca_hash_block :: int
  ca_lookahead :: int

text \<open>\<^verbatim>\<open>isinstance\<close> tests on the specification of a group; the wrapper of a uniform group is none of these.\<close>

definition spec_is :: "(layer_spec \<Rightarrow> bool) \<Rightarrow> cache_spec \<Rightarrow> bool" where
  "spec_is p g = (case g of Layer s \<Rightarrow> p s | Uniform _ _ \<Rightarrow> False)"

definition validate_prefix_cache_retention_interval :: "int option \<Rightarrow> int \<Rightarrow> kv_group list \<Rightarrow> unit res" where
  "validate_prefix_cache_retention_interval retention block gs =
     (case retention of None \<Rightarrow> ok ()
      | Some r \<Rightarrow>
          if \<not> list_ex (\<lambda>g. spec_is (\<lambda>s. is_window s \<or> is_mamba s) (kg_spec g)) gs then (if r = 0 then ok () else err ValueError)
          else if r < 0 then err ValueError
          else if block = 0 then err ZeroDivisionError
          else if r mod block \<noteq> 0 then err ValueError else ok ())"

definition aligned_blocks :: "coord_args \<Rightarrow> unit res" where
  "aligned_blocks a =
     (if ca_hash_block a = 0 then err ZeroDivisionError
      else if ca_scheduler_block a mod ca_hash_block a \<noteq> 0 then err AssertionError
      else fold_res (\<lambda>g _. let b = group_block_size (kg_spec g) in
             if b = 0 then err ZeroDivisionError else if ca_scheduler_block a mod b \<noteq> 0 then err AssertionError else ok ()) (ca_groups a) ())"

text \<open>The draft groups: those marked, or all of them when none is.\<close>

definition eagle_group_ids :: "coord_args \<Rightarrow> nat list" where
  "eagle_group_ids a =
     (let ids = filter (\<lambda>i. kg_eagle (ca_groups a ! i)) [0..<length (ca_groups a)] in
      if ca_eagle a \<and> ids = [] then [0..<length (ca_groups a)] else ids)"

definition make_managers :: "(nat \<Rightarrow> cache_spec \<Rightarrow> int \<Rightarrow> manager) \<Rightarrow> coord_args \<Rightarrow> manager list res" where
  "make_managers mk a =
     map_res (\<lambda>i. let g = ca_groups a ! i in rbind (dcp_world_size_for_kv_cache_spec (kg_spec g) (ca_dcp a)) (\<lambda>d. ok (mk i (kg_spec g) d)))
       [0..<length (ca_groups a)]"

definition base_init :: "(nat \<Rightarrow> cache_spec \<Rightarrow> int \<Rightarrow> manager) \<Rightarrow> coord_class \<Rightarrow> bool \<Rightarrow> coord_args \<Rightarrow> coordinator res" where
  "base_init mk cls caching a =
     rbind (aligned_blocks a) (\<lambda>_.
       if caching \<and> eagle_group_ids a \<noteq> [] \<and> ca_scheduler_block a < ca_lookahead a then err ValueError
       else rbind (make_managers mk a) (\<lambda>ms.
            rbind (validate_prefix_cache_retention_interval (ca_retention a) (ca_scheduler_block a) (ca_groups a)) (\<lambda>_.
              ok \<lparr>co_class = cls, co_groups = ca_groups a, co_caching = caching, co_scheduler_block = ca_scheduler_block a,
                  co_hash_block = ca_hash_block a, co_reprefillable = max 0 (ca_lookahead a - 1), co_eagle_ids = eagle_group_ids a,
                  co_managers = ms, co_retention = ca_retention a, co_partial = False, co_attention = [], co_full_id = None\<rparr>)))"

definition unitary_init :: "(nat \<Rightarrow> cache_spec \<Rightarrow> int \<Rightarrow> manager) \<Rightarrow> coord_args \<Rightarrow> coordinator res" where
  "unitary_init mk a =
     rbind (base_init mk Unitary (ca_caching a) a) (\<lambda>c.
       if co_groups c = [] then err IndexError
       else if ca_caching a \<and> ca_hash_block a \<noteq> mg_block (co_managers c ! 0) then err AssertionError
       else if length (co_groups c) \<noteq> 1 then err AssertionError
       else ok (c\<lparr>co_managers := (co_managers c)[0 := (co_managers c ! 0)\<lparr>mg_eagle := 0 \<in> set (co_eagle_ids c)\<rparr>]\<rparr>))"

text \<open>Groups with one specification are looked up together; full attention comes first.\<close>

fun join_group :: "nat \<Rightarrow> cache_spec \<Rightarrow> nat \<Rightarrow> bool \<Rightarrow> spec_group list \<Rightarrow> spec_group list res" where
  "join_group i s cls eagle [] = ok [\<lparr>sg_spec = s, sg_ids = [i], sg_class = cls, sg_eagle = eagle\<rparr>]"
| "join_group i s cls eagle (g # gs) =
     (if sg_spec g = s then
        (if cls \<noteq> sg_class g then err AssertionError
         else ok (g\<lparr>sg_ids := sg_ids g @ [i], sg_eagle := (sg_eagle g \<or> eagle)\<rparr> # gs))
      else rbind (join_group i s cls eagle gs) (\<lambda>r. ok (g # r)))"

definition join_step :: "coordinator \<Rightarrow> nat \<Rightarrow> spec_group list \<Rightarrow> spec_group list res" where
  "join_step c i gs =
     (let s = kg_spec (co_groups c ! i) in
      if group_prefix_cacheable s then join_group i s (mg_class (co_managers c ! i)) (i \<in> set (co_eagle_ids c)) gs else ok gs)"

definition full_group :: "spec_group \<Rightarrow> bool" where "full_group g = spec_is is_full (sg_spec g)"

definition mamba_group :: "spec_group \<Rightarrow> bool" where "mamba_group g = spec_is is_mamba (sg_spec g)"

definition verify_and_split_kv_cache_groups :: "coordinator \<Rightarrow> coordinator res" where
  "verify_and_split_kv_cache_groups c =
     rbind (fold_res (join_step c) [0..<length (co_groups c)] []) (\<lambda>gs.
       if gs = [] then err AssertionError
       else let sorted = filter full_group gs @ filter (Not \<circ> full_group) gs;
                marked = concat (map sg_ids (filter sg_eagle sorted)) in
         ok (c\<lparr>co_attention := sorted, co_full_id := (if full_group (hd sorted) then Some (hd (sg_ids (hd sorted))) else None),
               co_managers := fold (\<lambda>i ms. ms[i := (ms ! i)\<lparr>mg_eagle := True\<rparr>]) marked (co_managers c)\<rparr>))"

definition partial_mamba_spec :: "int \<Rightarrow> int \<Rightarrow> layer_spec \<Rightarrow> bool" where
  "partial_mamba_spec dcp h s =
     (case s of Mamba m \<Rightarrow> mb_mode m = ''align'' \<and> (dcp = 1 \<and> h < mb_block m \<or> 1 < dcp \<and> h \<le> mb_block m) | _ \<Rightarrow> False)"

text \<open>Fine-grained hits, unless a cacheable group's manager needs block-aligned lookups.\<close>

definition partial_hits :: "coord_args \<Rightarrow> manager list \<Rightarrow> bool" where
  "partial_hits a ms =
     (list_ex (\<lambda>g. spec_is (partial_mamba_spec (ca_dcp a) (ca_hash_block a)) (kg_spec g)) (ca_groups a)
      \<and> \<not> list_ex (\<lambda>(m, g). group_prefix_cacheable (kg_spec g) \<and> \<not> mg_fine m \<and> mg_block m \<noteq> ca_hash_block a) (zip ms (ca_groups a)))"

definition hybrid_checks :: "coord_args \<Rightarrow> manager list \<Rightarrow> bool" where
  "hybrid_checks a ms =
     (list_all (\<lambda>(m, g). group_prefix_cacheable (kg_spec g) \<longrightarrow> mg_block m mod ca_hash_block a = 0) (zip ms (ca_groups a))
      \<and> ca_pcp a = 1
      \<and> (1 < ca_dcp a \<longrightarrow> list_all (\<lambda>g. spec_is (\<lambda>s. is_full s \<or> is_mamba s \<or> is_window s) (kg_spec g)) (ca_groups a)))"

definition cache_hit_alignment_tokens :: "coordinator \<Rightarrow> int" where
  "cache_hit_alignment_tokens c = (if co_partial c then co_hash_block c else co_scheduler_block c)"

definition hybrid_init :: "(nat \<Rightarrow> cache_spec \<Rightarrow> int \<Rightarrow> manager) \<Rightarrow> coord_args \<Rightarrow> coordinator res" where
  "hybrid_init mk a =
     rbind (base_init mk Hybrid (ca_caching a) a) (\<lambda>c.
       if \<not> hybrid_checks a (co_managers c) then err AssertionError
       else let c1 = c\<lparr>co_partial := partial_hits a (co_managers c)\<rparr>;
                c2 = c1\<lparr>co_managers := map (\<lambda>m. m\<lparr>mg_alignment := cache_hit_alignment_tokens c1\<rparr>) (co_managers c1)\<rparr> in
         verify_and_split_kv_cache_groups c2)"

definition get_kv_cache_coordinator :: "(nat \<Rightarrow> cache_spec \<Rightarrow> int \<Rightarrow> manager) \<Rightarrow> coord_args \<Rightarrow> coordinator res" where
  "get_kv_cache_coordinator mk a =
     (if \<not> ca_caching a then base_init mk NoPrefixCache False a
      else if length (ca_groups a) = 1 then unitary_init mk a else hybrid_init mk a)"

section \<open>Calls into the managers\<close>

text \<open>The operations of a manager on the state \<open>'p\<close> of the managers and the pool, by group number.\<close>

record ('p, 'b) manager_ops =
  op_num_blocks :: "nat \<Rightarrow> string \<Rightarrow> int \<Rightarrow> 'b list \<Rightarrow> int \<Rightarrow> int \<Rightarrow> int \<Rightarrow> bool \<Rightarrow> 'p \<Rightarrow> int"
  op_tracked :: "nat \<Rightarrow> string \<Rightarrow> 'p \<Rightarrow> bool"
  op_add_local :: "nat \<Rightarrow> string \<Rightarrow> 'b list \<Rightarrow> int \<Rightarrow> int \<Rightarrow> 'p \<Rightarrow> 'p"
  op_external :: "nat \<Rightarrow> string \<Rightarrow> int \<Rightarrow> int \<Rightarrow> 'p \<Rightarrow> 'p"
  op_new_blocks :: "nat \<Rightarrow> string \<Rightarrow> int \<Rightarrow> int \<Rightarrow> 'p \<Rightarrow> 'b list \<times> 'p"
  op_cache :: "nat \<Rightarrow> string \<Rightarrow> int \<Rightarrow> int option \<Rightarrow> 'p \<Rightarrow> 'p"
  op_free :: "nat \<Rightarrow> string \<Rightarrow> 'p \<Rightarrow> 'p"
  op_pop :: "nat \<Rightarrow> string \<Rightarrow> 'p \<Rightarrow> 'b list \<times> 'p"
  op_common :: "nat \<Rightarrow> string \<Rightarrow> 'p \<Rightarrow> int"
  op_remove_skipped :: "nat \<Rightarrow> string \<Rightarrow> int \<Rightarrow> int option \<Rightarrow> 'p \<Rightarrow> 'p"
  op_blocks :: "nat \<Rightarrow> string \<Rightarrow> 'p \<Rightarrow> 'b list option"
  op_step :: "nat \<Rightarrow> 'p \<Rightarrow> 'p"

abbreviation ids_of :: "coordinator \<Rightarrow> nat list" where "ids_of c \<equiv> [0..<length (co_managers c)]"

definition get_num_blocks_to_allocate ::
    "('p, 'b) manager_ops \<Rightarrow> coordinator \<Rightarrow> string \<Rightarrow> int \<Rightarrow> 'b list list \<Rightarrow> int \<Rightarrow> int \<Rightarrow> int \<Rightarrow> int \<Rightarrow> bool \<Rightarrow> 'p \<Rightarrow> int" where
  "get_num_blocks_to_allocate ops c r tokens computed enc total_computed locally main cap p =
     sum_list (map (\<lambda>i. if mg_cross (co_managers c ! i) then op_num_blocks ops i r enc [] 0 0 enc cap p
                        else op_num_blocks ops i r tokens (computed ! i) total_computed locally main cap p) (ids_of c))"

definition allocate_new_computed_blocks ::
    "('p, 'b) manager_ops \<Rightarrow> coordinator \<Rightarrow> string \<Rightarrow> 'b list list \<Rightarrow> int \<Rightarrow> int \<Rightarrow> 'p \<Rightarrow> unit res \<times> 'p" where
  "allocate_new_computed_blocks ops c r computed locally external p =
     (if list_ex (\<lambda>i. op_tracked ops i r p) (ids_of c) then (if list_all (\<lambda>b. b = []) computed then ok () else err AssertionError, p)
      else let p1 = fold (\<lambda>i. op_add_local ops i r (computed ! i) locally external) (ids_of c) p in
        (ok (), if 0 < external then fold (\<lambda>i. op_external ops i r locally external) (ids_of c) p1 else p1))"

definition allocate_new_blocks :: "('p, 'b) manager_ops \<Rightarrow> coordinator \<Rightarrow> string \<Rightarrow> int \<Rightarrow> int \<Rightarrow> int \<Rightarrow> 'p \<Rightarrow> 'b list list \<times> 'p" where
  "allocate_new_blocks ops c r tokens main enc p =
     fold (\<lambda>i (bss, p). let (bs, p') = op_new_blocks ops i r (if mg_cross (co_managers c ! i) then enc else tokens) main p in (bss @ [bs], p'))
       (ids_of c) ([], p)"

definition free :: "('p, 'b) manager_ops \<Rightarrow> coordinator \<Rightarrow> string \<Rightarrow> 'p \<Rightarrow> 'p" where
  "free ops c r p = fold (\<lambda>i. op_free ops i r) (ids_of c) p"

definition pop_blocks_for_free :: "('p, 'b) manager_ops \<Rightarrow> coordinator \<Rightarrow> string \<Rightarrow> 'p \<Rightarrow> 'b list \<times> 'p" where
  "pop_blocks_for_free ops c r p = fold (\<lambda>i (bs, p). let (b, p') = op_pop ops i r p in (bs @ b, p')) (ids_of c) ([], p)"

definition get_num_common_prefix_blocks :: "('p, 'b) manager_ops \<Rightarrow> coordinator \<Rightarrow> string \<Rightarrow> 'p \<Rightarrow> int list" where
  "get_num_common_prefix_blocks ops c r p =
     (if co_class c = NoPrefixCache then replicate (length (co_managers c)) 0 else map (\<lambda>i. op_common ops i r p) (ids_of c))"

definition remove_skipped_blocks :: "('p, 'b) manager_ops \<Rightarrow> coordinator \<Rightarrow> string \<Rightarrow> int \<Rightarrow> int option \<Rightarrow> 'p \<Rightarrow> 'p" where
  "remove_skipped_blocks ops c r processed prompt p = fold (\<lambda>i. op_remove_skipped ops i r processed prompt) (ids_of c) p"

definition get_blocks :: "('p, 'b) manager_ops \<Rightarrow> coordinator \<Rightarrow> string \<Rightarrow> 'p \<Rightarrow> 'b list list" where
  "get_blocks ops c r p = map (\<lambda>i. case op_blocks ops i r p of None \<Rightarrow> [] | Some bs \<Rightarrow> bs) (ids_of c)"

definition new_step_starts :: "('p, 'b) manager_ops \<Rightarrow> coordinator \<Rightarrow> 'p \<Rightarrow> 'p" where
  "new_step_starts ops c p = fold (op_step ops) (ids_of c) p"

text \<open>How many tokens of a request are handed to a manager for caching; \<open>round_down\<close> is the engine's.\<close>

definition align_cacheable :: "(int \<Rightarrow> int \<Rightarrow> int) \<Rightarrow> coordinator \<Rightarrow> int \<Rightarrow> int" where
  "align_cacheable round_down c n = (if co_partial c then n else round_down n (co_scheduler_block c))"

definition tokens_to_cache :: "(int \<Rightarrow> int \<Rightarrow> int) \<Rightarrow> coordinator \<Rightarrow> int \<Rightarrow> manager \<Rightarrow> int" where
  "tokens_to_cache round_down c n m =
     (let finalized = max 0 (n - co_reprefillable c) in
      if co_class c \<noteq> Hybrid then finalized
      else let aligned = align_cacheable round_down c n in
        if mg_eagle m \<and> 0 < aligned then min finalized (align_cacheable round_down c finalized + mg_block m) else aligned)"

definition cache_blocks :: "('p, 'b) manager_ops \<Rightarrow> (int \<Rightarrow> int \<Rightarrow> int) \<Rightarrow> coordinator \<Rightarrow> string \<Rightarrow> int \<Rightarrow> 'p \<Rightarrow> 'p" where
  "cache_blocks ops round_down c r n p =
     fold (\<lambda>i. op_cache ops i r (tokens_to_cache round_down c n (co_managers c ! i)) (co_retention c)) (ids_of c) p"

section \<open>The longest hit\<close>

text \<open>A lookup of a group of specifications: at most so many tokens, and whether the draft unit is dropped. It answers the blocks of its groups and a length.\<close>

type_synonym 'b finder = "spec_group \<Rightarrow> int \<Rightarrow> bool \<Rightarrow> 'b list list \<times> int"

record 'b search =
  se_blocks :: "'b list option list"
  se_lens :: "int list"
  se_longest :: int
  se_verified :: "nat list"
  se_curr :: int

definition eagle_margin :: "coordinator \<Rightarrow> spec_group \<Rightarrow> int" where
  "eagle_margin c g =
     (let m = co_managers c ! hd (sg_ids g) in
      if co_partial c \<and> mg_fine m \<and> co_hash_block c < mg_block m then co_hash_block c else mg_block m)"

definition lookup_length :: "coordinator \<Rightarrow> int \<Rightarrow> spec_group \<Rightarrow> bool \<Rightarrow> int \<Rightarrow> int" where
  "lookup_length c maxh g dropping so_far =
     (if dropping \<and> \<not> mamba_group g then min (so_far + eagle_margin c g) maxh else so_far)"

fun set_all :: "nat list \<Rightarrow> 'a list \<Rightarrow> 'a list \<Rightarrow> 'a list" where
  "set_all (i # is) (v # vs) xs = set_all is vs (xs[i := v])"
| "set_all _ _ xs = xs"

definition visit :: "coordinator \<Rightarrow> 'b finder \<Rightarrow> int \<Rightarrow> nat \<times> spec_group \<Rightarrow> 'b search \<Rightarrow> 'b search" where
  "visit c finder maxh ig st =
     (case ig of (idx, g) \<Rightarrow>
        let i = hd (sg_ids g) in
        if full_group g \<and> se_blocks st ! i \<noteq> None then st\<lparr>se_curr := min (se_curr st) (se_lens st ! i)\<rparr>
        else
          let drop = (sg_eagle g \<and> idx \<notin> set (se_verified st));
              (bss, new) = finder g (lookup_length c maxh g drop (se_curr st)) drop;
              verified = (if drop then idx # se_verified st else if new < se_curr st then [] else se_verified st) in
          \<lparr>se_blocks = set_all (sg_ids g) (map Some bss) (se_blocks st), se_lens = set_all (sg_ids g) (replicate (length bss) new) (se_lens st),
           se_longest = max (se_longest st) new, se_verified = verified, se_curr = new\<rparr>)"

definition one_pass :: "coordinator \<Rightarrow> 'b finder \<Rightarrow> int \<Rightarrow> 'b search \<Rightarrow> 'b search" where
  "one_pass c finder maxh st = fold (visit c finder maxh) (zip [0..<length (co_attention c)] (co_attention c)) st"

definition simple_hybrid :: "coordinator \<Rightarrow> bool" where
  "simple_hybrid c = (length (co_attention c) = 2 \<and> full_group (co_attention c ! 0))"

partial_function (option) search_hit ::
    "coordinator \<Rightarrow> 'b finder \<Rightarrow> int \<Rightarrow> int \<Rightarrow> 'b search \<Rightarrow> (int \<times> 'b search) option" where
  "search_hit c finder maxh hit st =
     (let st' = one_pass c finder maxh (st\<lparr>se_curr := hit\<rparr>) in
      if hit \<le> se_curr st' then Some (hit, st')
      else if simple_hybrid c then Some (se_curr st', st')
      else search_hit c finder maxh (se_curr st') st')"

text \<open>Full-attention groups keep only the blocks of the common length.\<close>

definition trim_group :: "coordinator \<Rightarrow> int \<Rightarrow> spec_group \<Rightarrow> 'b list option list \<Rightarrow> 'b list option list" where
  "trim_group c hit g bss =
     (if full_group g then
        fold (\<lambda>i bss. bss[i := map_option (take (nat (cdiv hit (mg_block (co_managers c ! hd (sg_ids g)))))) (bss ! i)]) (sg_ids g) bss
      else bss)"

definition start_search :: "coordinator \<Rightarrow> int \<Rightarrow> 'b search" where
  "start_search c maxh =
     \<lparr>se_blocks = replicate (length (co_groups c)) None, se_lens = replicate (length (co_groups c)) 0, se_longest = 0, se_verified = [], se_curr = maxh\<rparr>"

definition find_longest_cache_hit :: "coordinator \<Rightarrow> 'b finder \<Rightarrow> int \<Rightarrow> ('b list list \<times> int \<times> int) option" where
  "find_longest_cache_hit c finder maxh =
     (case search_hit c finder maxh maxh (start_search c maxh) of
        None \<Rightarrow> None
      | Some (hit, st) \<Rightarrow>
          Some (map (\<lambda>b. case b of None \<Rightarrow> [] | Some bs \<Rightarrow> bs) (fold (trim_group c hit) (co_attention c) (se_blocks st)),
                hit, se_longest st - hit))"

text \<open>The coordinator of one group, the one without caching, and the independent lookups.\<close>

definition unitary_find :: "coordinator \<Rightarrow> 'b finder \<Rightarrow> int \<Rightarrow> 'b list list \<times> int \<times> int" where
  "unitary_find c finder maxh =
     (let (bss, n) = finder \<lparr>sg_spec = kg_spec (co_groups c ! 0), sg_ids = [0], sg_class = mg_class (co_managers c ! 0), sg_eagle = 0 \<in> set (co_eagle_ids c)\<rparr>
                        maxh (0 \<in> set (co_eagle_ids c)) in (bss, n, 0))"

definition no_prefix_find :: "coordinator \<Rightarrow> 'b list list \<times> int \<times> int" where
  "no_prefix_find c = (replicate (length (co_managers c)) [], 0, 0)"

definition per_group_step :: "'b finder \<Rightarrow> int \<Rightarrow> spec_group \<Rightarrow> 'b list list \<times> int list \<Rightarrow> 'b list list \<times> int list" where
  "per_group_step finder maxh g r =
     (let (bss, n) = finder g maxh (sg_eagle g) in
      (set_all (sg_ids g) bss (fst r), set_all (sg_ids g) (replicate (length bss) n) (snd r)))"

definition find_longest_cache_hit_per_group :: "coordinator \<Rightarrow> 'b finder \<Rightarrow> int \<Rightarrow> 'b list list \<times> int list" where
  "find_longest_cache_hit_per_group c finder maxh =
     fold (per_group_step finder maxh) (co_attention c) (replicate (length (co_groups c)) [], replicate (length (co_groups c)) 0)"


section \<open>The contract of the managers\<close>

text \<open>
  An answer covers at most the tokens asked for, one draft unit less when that unit is dropped; it has
  blocks for every group; blocks for a length of full attention, cut to fewer tokens, are blocks for
  these. \<open>good i n bs\<close> says that \<open>bs\<close> are the blocks of group \<open>i\<close> for the first \<open>n\<close> tokens, and \<open>has\<close>
  that a group of specifications has a prefix cached: a lookup without a drop answers the longest.
\<close>

definition answers_ok :: "coordinator \<Rightarrow> 'b finder \<Rightarrow> (nat \<Rightarrow> int \<Rightarrow> 'b list \<Rightarrow> bool) \<Rightarrow> (spec_group \<Rightarrow> int \<Rightarrow> bool) \<Rightarrow> spec_group \<Rightarrow> bool" where
  "answers_ok c finder good has g =
     (\<forall>m d. 0 \<le> m \<longrightarrow>
        length (fst (finder g m d)) = length (sg_ids g) \<and> 0 \<le> snd (finder g m d) \<and> snd (finder g m d) \<le> m
        \<and> (d \<and> \<not> mamba_group g \<longrightarrow> snd (finder g m d) \<le> max 0 (m - eagle_margin c g))
        \<and> (\<forall>k < length (sg_ids g). good (sg_ids g ! k) (snd (finder g m d)) (fst (finder g m d) ! k))
        \<and> (\<not> d \<longrightarrow> (\<forall>n. n \<le> m \<longrightarrow> has g n \<longrightarrow> n \<le> snd (finder g m d))))"

definition cut_ok :: "coordinator \<Rightarrow> (nat \<Rightarrow> int \<Rightarrow> 'b list \<Rightarrow> bool) \<Rightarrow> spec_group \<Rightarrow> bool" where
  "cut_ok c good g =
     (full_group g \<longrightarrow> (\<forall>i \<in> set (sg_ids g). \<forall>n m bs. 0 \<le> n \<longrightarrow> n \<le> m \<longrightarrow> good i m bs
        \<longrightarrow> good i n (take (nat (cdiv n (mg_block (co_managers c ! hd (sg_ids g))))) bs)))"

definition finder_contract :: "coordinator \<Rightarrow> 'b finder \<Rightarrow> (nat \<Rightarrow> int \<Rightarrow> 'b list \<Rightarrow> bool) \<Rightarrow> (spec_group \<Rightarrow> int \<Rightarrow> bool) \<Rightarrow> bool" where
  "finder_contract c finder good has = (\<forall>g \<in> set (co_attention c). answers_ok c finder good has g \<and> cut_ok c good g)"

section \<open>The split into groups of specifications\<close>

definition wf_split :: "nat \<Rightarrow> spec_group list \<Rightarrow> bool" where
  "wf_split n gs = (distinct (concat (map sg_ids gs)) \<and> (\<forall>g \<in> set gs. sg_ids g \<noteq> [] \<and> (\<forall>i \<in> set (sg_ids g). i < n)))"

lemma join_group_ids:
  assumes "join_group i s cls e gs = ok gs'"
  shows "mset (concat (map sg_ids gs')) = add_mset i (mset (concat (map sg_ids gs))) \<and> ((\<forall>g \<in> set gs. sg_ids g \<noteq> []) \<longrightarrow> (\<forall>g \<in> set gs'. sg_ids g \<noteq> []))"
  using assms
proof (induction gs arbitrary: gs')
  case (Cons g gs)
  show ?case
  proof (cases "sg_spec g = s")
    case False
    with Cons.prems obtain r where "join_group i s cls e gs = ok r" "gs' = g # r" by (auto simp: rbind_ok_iff)
    with Cons.IH show ?thesis by auto
  qed (use Cons.prems in \<open>auto split: if_splits\<close>)
qed simp

definition cacheable :: "coordinator \<Rightarrow> nat \<Rightarrow> bool" where
  "cacheable c i = group_prefix_cacheable (kg_spec (co_groups c ! i))"

lemma join_steps_ids:
  assumes "fold_res (join_step c) js gs = ok gs'" and "\<forall>g \<in> set gs. sg_ids g \<noteq> []"
  shows "mset (concat (map sg_ids gs')) = mset (concat (map sg_ids gs)) + mset (filter (cacheable c) js) \<and> (\<forall>g \<in> set gs'. sg_ids g \<noteq> [])"
  using assms
proof (induction js arbitrary: gs)
  case (Cons j js)
  from Cons.prems(1) obtain gs1 where g: "join_step c j gs = ok gs1" "fold_res (join_step c) js gs1 = ok gs'" by (auto simp: rbind_ok_iff)
  have j: "mset (concat (map sg_ids gs1)) = mset (concat (map sg_ids gs)) + mset (filter (cacheable c) [j]) \<and> (\<forall>g \<in> set gs1. sg_ids g \<noteq> [])"
  proof (cases "cacheable c j")
    case True
    then show ?thesis using g(1) Cons.prems(2) join_group_ids by (fastforce simp: join_step_def Let_def cacheable_def)
  next
    case False
    then show ?thesis using g(1) Cons.prems(2) by (auto simp: join_step_def Let_def cacheable_def)
  qed
  then show ?case using Cons.IH [OF g(2) conjunct2 [OF j]] by simp
qed simp

lemma split_wf:
  assumes "verify_and_split_kv_cache_groups c = ok c'"
  shows "wf_split (length (co_groups c)) (co_attention c')" and "co_attention c' \<noteq> []" and "co_groups c' = co_groups c"
    and "set (concat (map sg_ids (co_attention c'))) = {i. i < length (co_groups c) \<and> cacheable c i}"
proof -
  from assms obtain gs where gs: "fold_res (join_step c) [0..<length (co_groups c)] [] = ok gs" "gs \<noteq> []"
    and c': "co_attention c' = filter full_group gs @ filter (Not \<circ> full_group) gs" "co_groups c' = co_groups c"
    by (auto simp: verify_and_split_kv_cache_groups_def rbind_ok_iff Let_def split: if_splits)
  show "co_groups c' = co_groups c" by fact
  have m: "mset (co_attention c') = mset gs" by (simp add: c'(1))
  then show "co_attention c' \<noteq> []" using gs(2) by auto
  from join_steps_ids [OF gs(1)] have ids: "mset (concat (map sg_ids gs)) = mset (filter (cacheable c) [0..<length (co_groups c)])"
    "\<forall>g \<in> set gs. sg_ids g \<noteq> []" by auto
  have "mset (concat (map sg_ids (co_attention c'))) = mset (concat (map sg_ids gs))"
    by (rule mset_concat_perm) (simp only: mset_map m)
  with ids(1) have e: "mset (concat (map sg_ids (co_attention c'))) = mset (filter (cacheable c) [0..<length (co_groups c)])" by simp
  then have "distinct (concat (map sg_ids (co_attention c')))" using mset_eq_imp_distinct_iff by fastforce
  moreover show s: "set (concat (map sg_ids (co_attention c'))) = {i. i < length (co_groups c) \<and> cacheable c i}"
    using mset_eq_setD [OF e] by auto
  ultimately show "wf_split (length (co_groups c)) (co_attention c')"
    using ids(2) mset_eq_setD [OF m] by (auto simp: wf_split_def)
qed

section \<open>The search\<close>

lemma length_set_all [simp]: "length (set_all js vs xs) = length xs"
  by (induction js vs xs rule: set_all.induct) auto

lemma set_all_other: "i \<notin> set js \<Longrightarrow> set_all js vs xs ! i = xs ! i"
  by (induction js vs xs rule: set_all.induct) auto

lemma set_all_nth:
  "distinct js \<Longrightarrow> length js = length vs \<Longrightarrow> k < length js \<Longrightarrow> js ! k < length xs \<Longrightarrow> set_all js vs xs ! (js ! k) = vs ! k"
proof (induction js vs xs arbitrary: k rule: set_all.induct)
  case (1 i js v vs xs)
  then show ?case by (cases k) (auto simp: set_all_other)
qed auto

text \<open>What is known of the groups during the search: looked up, with blocks for the recorded length, or not yet.\<close>

definition cached :: "(nat \<Rightarrow> int \<Rightarrow> 'b list \<Rightarrow> bool) \<Rightarrow> 'b search \<Rightarrow> spec_group \<Rightarrow> bool" where
  "cached good st g =
     (0 \<le> se_lens st ! hd (sg_ids g) \<and> (\<forall>i \<in> set (sg_ids g). \<exists>b. se_blocks st ! i = Some b \<and> good i (se_lens st ! hd (sg_ids g)) b))"

definition uncached :: "'b search \<Rightarrow> spec_group \<Rightarrow> bool" where
  "uncached st g = (\<forall>i \<in> set (sg_ids g). se_blocks st ! i = None)"

definition settled :: "int \<Rightarrow> 'b search \<Rightarrow> spec_group \<Rightarrow> bool" where
  "settled hit st g = (se_curr st \<le> se_lens st ! hd (sg_ids g) \<and> (full_group g \<or> se_lens st ! hd (sg_ids g) \<le> hit))"

text \<open>\<open>common n\<close>: a prefix of \<open>n\<close> tokens that every group has, when no group drops a draft unit.\<close>

definition common :: "coordinator \<Rightarrow> (spec_group \<Rightarrow> int \<Rightarrow> bool) \<Rightarrow> int \<Rightarrow> int \<Rightarrow> bool" where
  "common c has maxh n = (n \<le> maxh \<and> (\<forall>g \<in> set (co_attention c). \<not> sg_eagle g \<and> has g n))"

definition search_inv ::
    "coordinator \<Rightarrow> (nat \<Rightarrow> int \<Rightarrow> 'b list \<Rightarrow> bool) \<Rightarrow> (spec_group \<Rightarrow> int \<Rightarrow> bool) \<Rightarrow> int \<Rightarrow> int \<Rightarrow> spec_group list \<Rightarrow> 'b search \<Rightarrow> bool" where
  "search_inv c good has maxh hit visited st =
     (length (se_blocks st) = length (co_groups c) \<and> length (se_lens st) = length (co_groups c)
      \<and> 0 \<le> se_curr st \<and> se_curr st \<le> hit \<and> hit \<le> maxh
      \<and> (\<forall>g \<in> set (co_attention c). cached good st g \<or> uncached st g)
      \<and> (\<forall>g \<in> set visited. cached good st g \<and> settled hit st g)
      \<and> (\<forall>n. common c has maxh n \<longrightarrow> n \<le> se_curr st \<and> (\<forall>g \<in> set (co_attention c). full_group g \<longrightarrow> cached good st g \<longrightarrow> n \<le> se_lens st ! hd (sg_ids g))))"

text \<open>A lookup with its length: never longer than asked for, and no common prefix is missed.\<close>

lemma lookup_bounds:
  assumes con: "answers_ok c finder good has g" and c: "0 \<le> cur" "cur \<le> maxh" and m: "m = lookup_length c maxh g d cur"
    and b: "0 \<le> eagle_margin c g"
  shows "0 \<le> m" and "0 \<le> snd (finder g m d)" and "snd (finder g m d) \<le> cur"
proof -
  show m0: "0 \<le> m" using c b by (simp add: m lookup_length_def)
  from con [unfolded answers_ok_def, rule_format, OF m0, of d]
  show "0 \<le> snd (finder g m d)" "snd (finder g m d) \<le> cur"
    using c b by (auto simp: m lookup_length_def split: if_splits)
qed

text \<open>A lookup as one step of the state.\<close>

definition after_lookup :: "spec_group \<Rightarrow> 'b list list \<Rightarrow> int \<Rightarrow> nat list \<Rightarrow> 'b search \<Rightarrow> 'b search" where
  "after_lookup g bss n verified st =
     \<lparr>se_blocks = set_all (sg_ids g) (map Some bss) (se_blocks st), se_lens = set_all (sg_ids g) (replicate (length bss) n) (se_lens st),
      se_longest = max (se_longest st) n, se_verified = verified, se_curr = n\<rparr>"

lemma visit_cases:
  obtains (trim) "full_group g" "se_blocks st ! hd (sg_ids g) \<noteq> None"
      "visit c finder maxh (idx, g) st = st\<lparr>se_curr := min (se_curr st) (se_lens st ! hd (sg_ids g))\<rparr>"
  | (look) d m verified where "full_group g \<longrightarrow> se_blocks st ! hd (sg_ids g) = None" "d \<longrightarrow> sg_eagle g" "m = lookup_length c maxh g d (se_curr st)"
      "visit c finder maxh (idx, g) st = after_lookup g (fst (finder g m d)) (snd (finder g m d)) verified st"
proof (cases "full_group g \<and> se_blocks st ! hd (sg_ids g) \<noteq> None")
  case True
  then show thesis by (intro trim) (auto simp: visit_def Let_def)
next
  case False
  let ?d = "sg_eagle g \<and> idx \<notin> set (se_verified st)"
  let ?m = "lookup_length c maxh g ?d (se_curr st)"
  let ?v = "if ?d then idx # se_verified st else if snd (finder g ?m ?d) < se_curr st then [] else se_verified st"
  have "visit c finder maxh (idx, g) st = after_lookup g (fst (finder g ?m ?d)) (snd (finder g ?m ?d)) ?v st"
    using False by (auto simp: visit_def after_lookup_def Let_def split: prod.split)
  then show thesis using False by (intro look [where d = ?d and m = ?m and verified = ?v]) auto
qed

text \<open>The looked-up group is cached with the new length; the other groups keep what they had.\<close>

lemma after_lookup_group:
  assumes "distinct (sg_ids g)" and "sg_ids g \<noteq> []" and "\<forall>i \<in> set (sg_ids g). i < length (se_blocks st)" and "length (se_lens st) = length (se_blocks st)"
    and "length bss = length (sg_ids g)" and "\<forall>k < length (sg_ids g). good (sg_ids g ! k) n (bss ! k)" and "0 \<le> n"
  shows "se_lens (after_lookup g bss n v st) ! hd (sg_ids g) = n" and "cached good (after_lookup g bss n v st) g"
proof -
  have l: "se_lens (after_lookup g bss n v st) ! (sg_ids g ! k) = n" if "k < length (sg_ids g)" for k
    using assms that by (simp add: after_lookup_def set_all_nth)
  have h: "hd (sg_ids g) = sg_ids g ! 0" using assms(2) by (rule hd_conv_nth)
  show hl: "se_lens (after_lookup g bss n v st) ! hd (sg_ids g) = n" unfolding h using assms(2) by (intro l) simp
  have "\<exists>b. se_blocks (after_lookup g bss n v st) ! i = Some b \<and> good i n b" if "i \<in> set (sg_ids g)" for i
  proof -
    from that obtain k where k: "k < length (sg_ids g)" "i = sg_ids g ! k" by (auto simp: in_set_conv_nth)
    then have "se_blocks (after_lookup g bss n v st) ! i = Some (bss ! k)" using assms by (simp add: after_lookup_def set_all_nth)
    then show ?thesis using assms(6) k by auto
  qed
  then show "cached good (after_lookup g bss n v st) g" using assms(7) hl by (simp add: cached_def)
qed

lemma after_lookup_other:
  assumes "set (sg_ids h) \<inter> set (sg_ids g) = {}" and "sg_ids h \<noteq> []"
  shows "se_lens (after_lookup g bss n v st) ! hd (sg_ids h) = se_lens st ! hd (sg_ids h)"
    and "cached good (after_lookup g bss n v st) h = cached good st h" and "uncached (after_lookup g bss n v st) h = uncached st h"
proof -
  have i: "set_all (sg_ids g) vs xs ! i = xs ! i" if "i \<in> set (sg_ids h)" for i and vs xs :: "'z list"
    using assms(1) that by (intro set_all_other) auto
  show l: "se_lens (after_lookup g bss n v st) ! hd (sg_ids h) = se_lens st ! hd (sg_ids h)"
    using assms(2) by (simp add: after_lookup_def i)
  show "cached good (after_lookup g bss n v st) h = cached good st h" unfolding cached_def l by (simp add: after_lookup_def i)
  show "uncached (after_lookup g bss n v st) h = uncached st h" unfolding uncached_def by (simp add: after_lookup_def i)
qed

lemma split_disjoint:
  assumes "wf_split n gs" and "g \<in> set gs" and "h \<in> set gs" and "h \<noteq> g"
  shows "set (sg_ids h) \<inter> set (sg_ids g) = {}"
proof -
  from assms(2) obtain xs ys where gs: "gs = xs @ g # ys" by (meson split_list)
  have "h \<in> set xs \<union> set ys" using assms(3,4) gs by auto
  then show ?thesis using assms(1) gs by (fastforce simp: wf_split_def)
qed

lemma split_group: "wf_split n gs \<Longrightarrow> g \<in> set gs \<Longrightarrow> distinct (sg_ids g) \<and> sg_ids g \<noteq> [] \<and> (\<forall>i \<in> set (sg_ids g). i < n)"
  by (auto simp: wf_split_def distinct_concat_iff dest: split_list)

lemma visit_inv:
  assumes inv: "search_inv c good has maxh hit visited st" and sub: "set visited \<subseteq> set (co_attention c)" and g: "g \<in> set (co_attention c)"
    and con: "answers_ok c finder good has g" and margin: "0 \<le> eagle_margin c g" and wf: "wf_split (length (co_groups c)) (co_attention c)"
  shows "search_inv c good has maxh hit (visited @ [g]) (visit c finder maxh (idx, g) st)
    \<and> (full_group g \<or> se_lens (visit c finder maxh (idx, g) st) ! hd (sg_ids g) = se_curr (visit c finder maxh (idx, g) st))"
proof (rule visit_cases [of g st c finder maxh idx])
  assume f: "full_group g" "se_blocks st ! hd (sg_ids g) \<noteq> None"
    and v: "visit c finder maxh (idx, g) st = st\<lparr>se_curr := min (se_curr st) (se_lens st ! hd (sg_ids g))\<rparr>"
  have "hd (sg_ids g) \<in> set (sg_ids g)" using split_group [OF wf g] by simp
  then have "cached good st g" using inv g f(2) by (auto simp: search_inv_def uncached_def)
  then show ?thesis using inv f(1) g unfolding v
    by (auto simp: search_inv_def cached_def uncached_def settled_def min.coboundedI1)
next
  fix d m verified
  assume f: "full_group g \<longrightarrow> se_blocks st ! hd (sg_ids g) = None" and d: "d \<longrightarrow> sg_eagle g" and m: "m = lookup_length c maxh g d (se_curr st)"
    and v: "visit c finder maxh (idx, g) st = after_lookup g (fst (finder g m d)) (snd (finder g m d)) verified st"
  let ?bss = "fst (finder g m d)" and ?n = "snd (finder g m d)"
  let ?st = "after_lookup g ?bss ?n verified st"
  have cur: "0 \<le> se_curr st" "se_curr st \<le> maxh" "se_curr st \<le> hit" using inv by (auto simp: search_inv_def)
  note b = lookup_bounds [OF con cur(1,2) m margin]
  note a = con [unfolded answers_ok_def, rule_format, OF b(1), of d] and sg = split_group [OF wf g]
  have lens: "length (se_blocks st) = length (co_groups c)" "length (se_lens st) = length (se_blocks st)" using inv by (auto simp: search_inv_def)
  have own: "se_lens ?st ! hd (sg_ids g) = ?n" "cached good ?st g"
    using after_lookup_group [where g = g and st = st and bss = ?bss and good = good and n = ?n and v = verified] sg lens a b(2) by auto
  have other: "se_lens ?st ! hd (sg_ids h) = se_lens st ! hd (sg_ids h)" "cached good ?st h = cached good st h" "uncached ?st h = uncached st h"
    if "h \<in> set (co_attention c)" "h \<noteq> g" for h
    using after_lookup_other [OF split_disjoint [OF wf g that], where bss = ?bss and n = ?n and v = verified and st = st] split_group [OF wf that(1)] by auto
  have cn: "se_curr ?st = ?n" by (simp add: after_lookup_def)
  have greatest: "k \<le> ?n" if k: "common c has maxh k" for k
  proof -
    have "\<not> d" "k \<le> se_curr st" "has g k" using k d g inv by (auto simp: common_def search_inv_def)
    then show ?thesis using a by (auto simp: m lookup_length_def)
  qed
  have "search_inv c good has maxh hit (visited @ [g]) ?st"
    unfolding search_inv_def
  proof (intro conjI)
    show "length (se_blocks ?st) = length (co_groups c)" "length (se_lens ?st) = length (co_groups c)"
      using lens by (simp_all add: after_lookup_def)
    show "0 \<le> se_curr ?st" "se_curr ?st \<le> hit" "hit \<le> maxh" using b cur inv by (auto simp: cn search_inv_def)
    show "\<forall>h \<in> set (co_attention c). cached good ?st h \<or> uncached ?st h"
      using own(2) other inv by (metis search_inv_def)
    show "\<forall>h \<in> set (visited @ [g]). cached good ?st h \<and> settled hit ?st h"
    proof
      fix h assume h: "h \<in> set (visited @ [g])"
      show "cached good ?st h \<and> settled hit ?st h"
      proof (cases "h = g")
        case True
        then show ?thesis using own b(3) cur by (simp add: settled_def cn)
      next
        case False
        then have hv: "h \<in> set visited" "h \<in> set (co_attention c)" using h sub by auto
        then have "cached good st h \<and> settled hit st h" using inv by (simp add: search_inv_def)
        then show ?thesis using other [OF hv(2) False] b(3) by (auto simp: settled_def cn)
      qed
    qed
    show "\<forall>n. common c has maxh n \<longrightarrow> n \<le> se_curr ?st
        \<and> (\<forall>h \<in> set (co_attention c). full_group h \<longrightarrow> cached good ?st h \<longrightarrow> n \<le> se_lens ?st ! hd (sg_ids h))"
      using greatest own(1) other inv unfolding cn by (metis search_inv_def)
  qed
  then show ?thesis using own(1) cn unfolding v by simp
qed

lemma pass_inv:
  assumes "search_inv c good has maxh hit visited st" and "set visited \<subseteq> set (co_attention c)" and "snd ` set igs \<subseteq> set (co_attention c)"
    and con: "finder_contract c finder good has" and margin: "\<forall>g \<in> set (co_attention c). 0 \<le> eagle_margin c g"
    and wf: "wf_split (length (co_groups c)) (co_attention c)"
  shows "search_inv c good has maxh hit (visited @ map snd igs) (fold (visit c finder maxh) igs st)
    \<and> (igs \<noteq> [] \<longrightarrow> full_group (snd (last igs)) \<or> se_lens (fold (visit c finder maxh) igs st) ! hd (sg_ids (snd (last igs))) = se_curr (fold (visit c finder maxh) igs st))"
  using assms(1,2,3)
proof (induction igs arbitrary: visited st)
  case (Cons ig igs)
  obtain idx g where ig: "ig = (idx, g)" by force
  have g: "g \<in> set (co_attention c)" using Cons.prems(3) by (simp add: ig)
  have "answers_ok c finder good has g" "0 \<le> eagle_margin c g" using con margin g by (auto simp: finder_contract_def)
  note v = visit_inv [OF Cons.prems(1,2) g this wf, of idx]
  show ?case
  proof (cases "igs = []")
    case True
    then show ?thesis using v by (simp add: ig)
  next
    case False
    have "set (visited @ [g]) \<subseteq> set (co_attention c)" "snd ` set igs \<subseteq> set (co_attention c)" using Cons.prems(2,3) g by auto
    from Cons.IH [OF conjunct1 [OF v] this] False show ?thesis by (simp add: ig)
  qed
qed simp

definition found :: "coordinator \<Rightarrow> (nat \<Rightarrow> int \<Rightarrow> 'b list \<Rightarrow> bool) \<Rightarrow> (spec_group \<Rightarrow> int \<Rightarrow> bool) \<Rightarrow> int \<Rightarrow> int \<Rightarrow> 'b search \<Rightarrow> bool" where
  "found c good has maxh h st =
     (0 \<le> h \<and> h \<le> maxh \<and> length (se_blocks st) = length (co_groups c) \<and> (\<forall>n. common c has maxh n \<longrightarrow> n \<le> h)
      \<and> (\<forall>g \<in> set (co_attention c). cached good st g \<and> h \<le> se_lens st ! hd (sg_ids g) \<and> (full_group g \<or> se_lens st ! hd (sg_ids g) = h)))"

lemma inv_restart: "search_inv c good has maxh hit visited st \<Longrightarrow> search_inv c good has maxh (se_curr st) [] st"
  by (auto simp: search_inv_def)

lemma search_finds:
  assumes con: "finder_contract c finder good has" and margin: "\<forall>g \<in> set (co_attention c). 0 \<le> eagle_margin c g"
    and wf: "wf_split (length (co_groups c)) (co_attention c)"
  shows "search_inv c good has maxh hit [] (st\<lparr>se_curr := hit\<rparr>) \<Longrightarrow> \<exists>h st'. search_hit c finder maxh hit st = Some (h, st') \<and> found c good has maxh h st'"
proof (induction "nat hit" arbitrary: hit st rule: less_induct)
  case less
  let ?igs = "zip [0..<length (co_attention c)] (co_attention c)"
  let ?st = "one_pass c finder maxh (st\<lparr>se_curr := hit\<rparr>)"
  have igs: "map snd ?igs = co_attention c" "snd ` set ?igs \<subseteq> set (co_attention c)" by (auto dest: set_zip_rightD)
  from pass_inv [OF less.prems _ igs(2) con margin wf] igs(1)
  have inv: "search_inv c good has maxh hit (co_attention c) ?st"
    and lst: "?igs \<noteq> [] \<longrightarrow> full_group (snd (last ?igs)) \<or> se_lens ?st ! hd (sg_ids (snd (last ?igs))) = se_curr ?st"
    by (auto simp: one_pass_def)
  note simps = search_hit.simps [of c finder maxh hit st] Let_def
  show ?case
  proof (cases "hit \<le> se_curr ?st")
    case True
    then have "found c good has maxh hit ?st" using inv by (fastforce simp: found_def search_inv_def settled_def)
    then show ?thesis using True by (auto simp: simps)
  next
    case False
    show ?thesis
    proof (cases "simple_hybrid c")
      case True
      then obtain g0 g1 where gs: "co_attention c = [g0, g1]" "full_group g0"
        by (auto simp: simple_hybrid_def length_Suc_conv numeral_2_eq_2)
      have "snd (last ?igs) = g1" by (simp add: gs(1))
      with lst gs have "full_group g1 \<or> se_lens ?st ! hd (sg_ids g1) = se_curr ?st" by auto
      then have "found c good has maxh (se_curr ?st) ?st" using inv gs by (auto simp: found_def search_inv_def settled_def)
      then show ?thesis using False True by (auto simp: simps)
    next
      case again: False
      have pos: "0 \<le> se_curr ?st" using inv by (simp add: search_inv_def)
      from inv_restart [OF inv] have "search_inv c good has maxh (se_curr ?st) [] (?st\<lparr>se_curr := se_curr ?st\<rparr>)" by simp
      from less.hyps [OF _ this] False pos show ?thesis using again by (auto simp: simps)
    qed
  qed
qed

text \<open>The cut of the full-attention groups.\<close>

lemma fold_update_nth:
  assumes "distinct js" and "\<forall>i \<in> set js. i < length xs" and "j < length xs"
  shows "fold (\<lambda>i xs. xs[i := f (xs ! i)]) js xs ! j = (if j \<in> set js then f (xs ! j) else xs ! j)"
  using assms
proof (induction js arbitrary: xs)
  case (Cons i js)
  then show ?case by (cases "j = i") (auto simp: nth_list_update)
qed simp

lemma length_fold_update [simp]: "length (fold (\<lambda>i xs. xs[i := f (xs ! i)]) js xs) = length xs"
  by (induction js arbitrary: xs) auto

lemma trim_length [simp]: "length (trim_group c h g bss) = length bss"
  by (simp add: trim_group_def)

definition cut_blocks :: "coordinator \<Rightarrow> int \<Rightarrow> spec_group \<Rightarrow> 'b list option \<Rightarrow> 'b list option" where
  "cut_blocks c h g b = (if full_group g then map_option (take (nat (cdiv h (mg_block (co_managers c ! hd (sg_ids g)))))) b else b)"

lemma trim_group_nth:
  assumes "distinct (sg_ids g)" and "\<forall>i \<in> set (sg_ids g). i < length bss" and "j < length bss"
  shows "trim_group c h g bss ! j = (if j \<in> set (sg_ids g) then cut_blocks c h g (bss ! j) else bss ! j)"
  using fold_update_nth [OF assms] by (auto simp: trim_group_def cut_blocks_def)

lemma trim_all:
  assumes "wf_split (length bss) gs" and "g \<in> set gs" and "j \<in> set (sg_ids g)"
  shows "length (fold (trim_group c h) gs bss) = length bss \<and> fold (trim_group c h) gs bss ! j = cut_blocks c h g (bss ! j)"
  using assms
proof (induction gs arbitrary: bss)
  case (Cons x gs)
  have j: "j < length bss" using Cons.prems by (auto simp: wf_split_def)
  have x: "trim_group c h x bss ! j = (if j \<in> set (sg_ids x) then cut_blocks c h x (bss ! j) else bss ! j)"
    using split_group [OF Cons.prems(1), of x] j by (intro trim_group_nth) auto
  have wf: "wf_split (length (trim_group c h x bss)) gs" using Cons.prems(1) by (auto simp: wf_split_def)
  show ?case
  proof (cases "g \<in> set gs")
    case True
    then have "j \<notin> set (sg_ids x)" using Cons.prems(1,3) by (auto simp: wf_split_def)
    then show ?thesis using Cons.IH [OF wf True Cons.prems(3)] x by simp
  next
    case False
    then have g: "g = x" using Cons.prems(2) by simp
    have "fold (trim_group c h) gs ys ! j = ys ! j \<and> length (fold (trim_group c h) gs ys) = length ys"
      if "wf_split (length ys) gs" "j \<notin> set (concat (map sg_ids gs))" "j < length ys" for ys :: "'a list option list"
      using that
    proof (induction gs arbitrary: ys)
      case (Cons y gs)
      have "trim_group c h y ys ! j = ys ! j"
        using split_group [OF Cons.prems(1), of y] Cons.prems(2,3) by (subst trim_group_nth) auto
      moreover have "wf_split (length (trim_group c h y ys)) gs" using Cons.prems(1) by (auto simp: wf_split_def)
      ultimately show ?case using Cons.IH [of "trim_group c h y ys"] Cons.prems(2,3) by simp
    qed simp
    from this [OF wf] Cons.prems(1,3) j g x show ?thesis by (auto simp: wf_split_def)
  qed
qed simp

section \<open>The longest common hit\<close>

lemma hybrid_split:
  assumes "get_kv_cache_coordinator mk a = ok c" and "co_class c = Hybrid"
  shows "wf_split (length (co_groups c)) (co_attention c)" and "co_attention c \<noteq> []"
    and "\<And>i. i < length (co_groups c) \<Longrightarrow> cacheable c i \<Longrightarrow> \<exists>g \<in> set (co_attention c). i \<in> set (sg_ids g)"
proof -
  have cls: "co_class d = cls" if "base_init mk cls b a = ok d" for d cls b
    using that by (auto simp: base_init_def rbind_ok_iff split: if_splits)
  have "hybrid_init mk a = ok c"
    using assms by (auto simp: get_kv_cache_coordinator_def unitary_init_def rbind_ok_iff dest!: cls split: if_splits)
  then obtain c2 where v: "verify_and_split_kv_cache_groups c2 = ok c" by (auto simp: hybrid_init_def rbind_ok_iff Let_def split: if_splits)
  note s = split_wf [OF v]
  show "wf_split (length (co_groups c)) (co_attention c)" "co_attention c \<noteq> []" using s by simp_all
  show "\<exists>g \<in> set (co_attention c). i \<in> set (sg_ids g)" if "i < length (co_groups c)" "cacheable c i" for i
  proof -
    have "i \<in> set (concat (map sg_ids (co_attention c)))" using s(3,4) that by (simp add: cacheable_def)
    then show ?thesis by auto
  qed
qed

text \<open>
  C39: With managers that keep their contract, the search for the longest cached prefix over all groups
  ends; the blocks it returns for every cacheable group are the blocks of one common length within the
  bound asked for; and when no group drops a draft unit, no longer prefix is cached in all groups.
\<close>

theorem longest_common_hit:
  assumes "get_kv_cache_coordinator mk a = ok c" and "co_class c = Hybrid" and "finder_contract c finder good has"
    and "0 \<le> maxh" and "list_all (\<lambda>g. 0 \<le> eagle_margin c g) (co_attention c)"
  shows "\<exists>bss hit extra. find_longest_cache_hit c finder maxh = Some (bss, hit, extra) \<and> 0 \<le> hit \<and> hit \<le> maxh
    \<and> length bss = length (co_groups c)
    \<and> (\<forall>i < length (co_groups c). cacheable c i \<longrightarrow> good i hit (bss ! i))
    \<and> (\<forall>n. n \<le> maxh \<longrightarrow> list_all (\<lambda>g. \<not> sg_eagle g \<and> has g n) (co_attention c) \<longrightarrow> n \<le> hit)"
proof -
  note split = hybrid_split [OF assms(1,2)]
  have margin: "\<forall>g \<in> set (co_attention c). 0 \<le> eagle_margin c g" using assms(5) by (simp add: list_all_iff)
  have "search_inv c good has maxh maxh [] ((start_search c maxh)\<lparr>se_curr := maxh\<rparr>)"
    using assms(4) split(1) split_group [OF split(1)]
    by (auto simp: search_inv_def start_search_def uncached_def cached_def common_def split_group)
  from search_finds [OF assms(3) margin split(1) this] obtain h st where
    s: "search_hit c finder maxh maxh (start_search c maxh) = Some (h, st)" and f: "found c good has maxh h st" by blast
  let ?bs = "fold (trim_group c h) (co_attention c) (se_blocks st)"
  let ?bss = "map (\<lambda>b. case b of None \<Rightarrow> [] | Some bs \<Rightarrow> bs) ?bs"
  have len: "length (se_blocks st) = length (co_groups c)" and h: "0 \<le> h" "h \<le> maxh" using f by (auto simp: found_def)
  have lb: "length ?bs = length (co_groups c)"
  proof -
    have "length (fold (trim_group c h) gs xs) = length xs" for gs and xs :: "'a list option list" by (induction gs arbitrary: xs) auto
    then show ?thesis using len by simp
  qed
  have good: "good i h (?bss ! i)" if i: "i < length (co_groups c)" "cacheable c i" for i
  proof -
    from split(3) [OF i] obtain g where g: "g \<in> set (co_attention c)" "i \<in> set (sg_ids g)" by blast
    have fg: "cached good st g" "h \<le> se_lens st ! hd (sg_ids g)" "full_group g \<or> se_lens st ! hd (sg_ids g) = h"
      using f g(1) by (auto simp: found_def)
    then obtain b where b: "se_blocks st ! i = Some b" "good i (se_lens st ! hd (sg_ids g)) b" using g(2) by (auto simp: cached_def)
    have wf: "wf_split (length (se_blocks st)) (co_attention c)" using split(1) len by simp
    have t: "?bs ! i = cut_blocks c h g (Some b)" using trim_all [OF wf g] b(1) by simp
    have "cut_ok c good g" using assms(3) g(1) by (simp add: finder_contract_def)
    then have "good i h (take (nat (cdiv h (mg_block (co_managers c ! hd (sg_ids g))))) b)" if "full_group g"
      using that g(2) h(1) fg(2) b(2) by (simp add: cut_ok_def)
    then show ?thesis using t lb i(1) fg(3) b(2) by (auto simp: cut_blocks_def)
  qed
  have most: "n \<le> h" if "n \<le> maxh" "list_all (\<lambda>g. \<not> sg_eagle g \<and> has g n) (co_attention c)" for n
    using f that by (auto simp: found_def common_def list_all_iff)
  have "find_longest_cache_hit c finder maxh = Some (?bss, h, se_longest st - h)" by (simp add: find_longest_cache_hit_def s)
  then show ?thesis using h lb good most
    by (intro exI [of _ ?bss] exI [of _ h] exI [of _ "se_longest st - h"] conjI allI impI) auto
qed

text \<open>A coordinator of a full-attention group with three cached blocks and a sliding-window group with two.\<close>

definition hybrid_args :: coord_args where
  "hybrid_args =
     \<lparr>ca_groups = [\<lparr>kg_layers = [''f''], kg_spec = Layer (FullAttn example_attn default_full), kg_eagle = False, kg_transfer = True\<rparr>,
                    \<lparr>kg_layers = [''w''], kg_spec = Layer (Sliding example_attn 128 0), kg_eagle = False, kg_transfer = True\<rparr>],
      ca_retention = None, ca_eagle = False, ca_caching = True, ca_dcp = 1, ca_pcp = 1, ca_scheduler_block = 64, ca_hash_block = 64, ca_lookahead = 0\<rparr>"

definition hybrid_manager :: "nat \<Rightarrow> cache_spec \<Rightarrow> int \<Rightarrow> manager" where
  "hybrid_manager i s d = \<lparr>mg_class = i, mg_block = 64, mg_dcp = d, mg_fine = False, mg_cross = False, mg_eagle = False, mg_alignment = 0\<rparr>"

definition cached_tokens :: "spec_group \<Rightarrow> int" where "cached_tokens g = (if full_group g then 192 else 128)"

definition block_finder :: "unit finder" where
  "block_finder g m d =
     (let n = (if d then max 0 (min m (cached_tokens g) div 64 * 64 - 64) else min m (cached_tokens g) div 64 * 64) in
      (map (\<lambda>_. replicate (nat (n div 64)) ()) (sg_ids g), n))"

definition block_good :: "nat \<Rightarrow> int \<Rightarrow> unit list \<Rightarrow> bool" where "block_good i n bs = (length bs = nat (cdiv n 64))"

definition block_has :: "spec_group \<Rightarrow> int \<Rightarrow> bool" where "block_has g n = (n mod 64 = 0 \<and> n \<le> cached_tokens g)"

lemma hybrid_coordinator:
  obtains c where "get_kv_cache_coordinator hybrid_manager hybrid_args = ok c" and "co_class c = Hybrid"
    and "map mg_block (co_managers c) = [64, 64]" and "co_partial c = False" and "co_groups c = ca_groups hybrid_args"
    and "co_attention c = [\<lparr>sg_spec = Layer (FullAttn example_attn default_full), sg_ids = [0], sg_class = 0, sg_eagle = False\<rparr>,
           \<lparr>sg_spec = Layer (Sliding example_attn 128 0), sg_ids = [1], sg_class = 1, sg_eagle = False\<rparr>]"
proof -
  have b: "at_block example_attn = 64" by (simp add: example_attn_def)
  have u: "[0..<2] = [0, 1 :: nat]" by (simp add: upt_rec)
  show thesis
    by (rule that)
      (simp add: get_kv_cache_coordinator_def hybrid_init_def base_init_def hybrid_args_def aligned_blocks_def b u eagle_group_ids_def make_managers_def
        dcp_world_size_for_kv_cache_spec_def hybrid_manager_def validate_prefix_cache_retention_interval_def hybrid_checks_def partial_hits_def spec_is_def
        partial_mamba_spec_def cache_hit_alignment_tokens_def verify_and_split_kv_cache_groups_def join_step_def full_group_def Let_def
        numeral_2_eq_2 [symmetric], simp_all add: hybrid_args_def)
qed

lemma block_cut:
  assumes "0 \<le> n" and "n \<le> m" and "length bs = nat (cdiv m 64)"
  shows "length (take (nat (cdiv n 64)) bs) = nat (cdiv n 64)"
proof -
  have "cdiv n 64 \<le> cdiv m 64" using assms(2) by (simp add: cdiv_def zdiv_mono1)
  then show ?thesis using assms(3) by simp
qed

lemma block_down:
  fixes m t :: int
  assumes "0 \<le> m" and "0 \<le> t"
  defines "n \<equiv> \<lambda>d. if d then max 0 (min m t div 64 * 64 - 64) else min m t div 64 * 64"
  shows "0 \<le> n d" and "n d \<le> m" and "d \<longrightarrow> n d \<le> max 0 (m - 64)" and "n d mod 64 = 0"
proof -
  obtain q where q: "q = min m t div 64" by simp
  have "0 \<le> min m t" "min m t \<le> m" using assms(1,2) by auto
  moreover have "x div 64 * 64 \<le> x" "0 \<le> x \<Longrightarrow> 0 \<le> x div 64" for x :: int by presburger+
  from this [of "min m t"] calculation have b: "0 \<le> q" "q * 64 \<le> m" unfolding q by linarith+
  show "0 \<le> n d" "n d \<le> m" "d \<longrightarrow> n d \<le> max 0 (m - 64)" using b by (auto simp: n_def q [symmetric])
  have "(q * 64 - 64) mod 64 = 0" by presburger
  then show "n d mod 64 = 0" by (simp add: n_def q [symmetric] max_def)
qed

lemma block_answers:
  assumes "mg_block (co_managers c ! hd (sg_ids g)) = 64" and "co_partial c = False"
  shows "answers_ok c block_finder block_good block_has g"
  unfolding answers_ok_def
proof (intro allI impI)
  fix m :: int and d
  assume m: "0 \<le> m"
  have t: "0 \<le> cached_tokens g" by (simp add: cached_tokens_def)
  have e: "eagle_margin c g = 64" using assms by (simp add: eagle_margin_def)
  let ?n = "snd (block_finder g m d)"
  have n: "?n = (if d then max 0 (min m (cached_tokens g) div 64 * 64 - 64) else min m (cached_tokens g) div 64 * 64)"
    and bs: "fst (block_finder g m d) = map (\<lambda>_. replicate (nat (?n div 64)) ()) (sg_ids g)" by (auto simp: block_finder_def Let_def)
  have r: "0 \<le> ?n" "?n \<le> m" "d \<longrightarrow> ?n \<le> max 0 (m - 64)" "?n mod 64 = 0"
    unfolding n by (rule block_down [OF m t])+
  have c: "cdiv ?n 64 = ?n div 64" using r(4) by (auto simp: cdiv_def)
  have step: "x mod 64 = 0 \<Longrightarrow> x \<le> y \<Longrightarrow> x \<le> y div 64 * 64" for x y :: int by presburger
  have l: "k \<le> ?n" if "\<not> d" "k \<le> m" "block_has g k" for k
  proof -
    have "k mod 64 = 0" "k \<le> min m (cached_tokens g)" using that by (auto simp: block_has_def)
    from step [OF this] that(1) show ?thesis unfolding n by simp
  qed
  show "length (fst (block_finder g m d)) = length (sg_ids g) \<and> 0 \<le> ?n \<and> ?n \<le> m
    \<and> (d \<and> \<not> mamba_group g \<longrightarrow> ?n \<le> max 0 (m - eagle_margin c g))
    \<and> (\<forall>k < length (sg_ids g). block_good (sg_ids g ! k) ?n (fst (block_finder g m d) ! k))
    \<and> (\<not> d \<longrightarrow> (\<forall>k. k \<le> m \<longrightarrow> block_has g k \<longrightarrow> k \<le> ?n))"
    using r l c by (auto simp: e bs block_good_def)
qed

theorem longest_common_hit_witness:
  "\<exists>c bss hit extra. get_kv_cache_coordinator hybrid_manager hybrid_args = ok c \<and> find_longest_cache_hit c block_finder 256 = Some (bss, hit, extra)
     \<and> 128 \<le> hit \<and> hit \<le> 256 \<and> map length bss = [nat (cdiv hit 64), nat (cdiv hit 64)]"
proof -
  obtain c where c: "get_kv_cache_coordinator hybrid_manager hybrid_args = ok c" "co_class c = Hybrid" "map mg_block (co_managers c) = [64, 64]"
    "co_partial c = False" "co_groups c = ca_groups hybrid_args"
    and a: "co_attention c = [\<lparr>sg_spec = Layer (FullAttn example_attn default_full), sg_ids = [0], sg_class = 0, sg_eagle = False\<rparr>,
           \<lparr>sg_spec = Layer (Sliding example_attn 128 0), sg_ids = [1], sg_class = 1, sg_eagle = False\<rparr>]"
    by (rule hybrid_coordinator)
  have b: "mg_block (co_managers c ! 0) = 64" "mg_block (co_managers c ! Suc 0) = 64"
    using c(3) by (auto simp: map_eq_Cons_conv)
  have con: "finder_contract c block_finder block_good block_has"
    unfolding finder_contract_def
  proof (intro ballI conjI)
    fix g assume "g \<in> set (co_attention c)"
    then have g: "mg_block (co_managers c ! hd (sg_ids g)) = 64" using b by (auto simp: a)
    then show "answers_ok c block_finder block_good block_has g" using c(4) by (rule block_answers)
    show "cut_ok c block_good g" unfolding cut_ok_def block_good_def g using block_cut by blast
  qed
  have m: "list_all (\<lambda>g. 0 \<le> eagle_margin c g) (co_attention c)" using b c(4) by (simp add: a eagle_margin_def)
  from longest_common_hit [OF c(1,2) con _ m, of 256] obtain bss hit extra where
    f: "find_longest_cache_hit c block_finder 256 = Some (bss, hit, extra)" "hit \<le> 256" "length bss = 2"
      "\<forall>i < 2. cacheable c i \<longrightarrow> block_good i hit (bss ! i)"
      "list_all (\<lambda>g. \<not> sg_eagle g \<and> block_has g 128) (co_attention c) \<longrightarrow> 128 \<le> hit"
    by (auto simp: c(5) hybrid_args_def numeral_2_eq_2)
  have "cacheable c 0" "cacheable c (Suc 0)" by (simp_all add: cacheable_def c(5) hybrid_args_def)
  then have "block_good 0 hit (bss ! 0)" "block_good 1 hit (bss ! 1)" using f(4) by auto
  moreover have "128 \<le> hit" using f(5) by (simp add: a block_has_def cached_tokens_def full_group_def spec_is_def)
  moreover obtain x y where "bss = [x, y]" using f(3) by (auto simp: length_Suc_conv numeral_2_eq_2)
  ultimately show ?thesis using c(1) f(1,2) by (auto simp: block_good_def)
qed

end
