(* ===== verification/Spec2Isabelle.thy ===== *)
theory Spec2Isabelle
  imports Slab_Lifecycle Slab_Transfer Slab_Connector Ckpt_Runai Ckpt_Prefetch Loader Spec_Policy Kv_Queue Kv_Hash Kv_Layout Kv_Coordinator
begin

text \<open>
  \<^bold>\<open>The program.\<close> A serving stack for a large language model on four nodes: the vLLM engine with its files under
  \<^verbatim>\<open>src/runtime/vllm029/overlay\<close>, and a checkpoint loader under \<^verbatim>\<open>src/runtime/nvme_loader/spark_nvme\<close>. Its own logic has four
  parts, each modelled here down to the operations that change state. Paths below are relative to these two directories.

  \<^bold>\<open>1. The slab store on NVMe\<close> (\<^verbatim>\<open>vllm/v1/kv_offload/tiering/multinode.py\<close>). Every rank keeps one slab file per cache group, cut into slots; the
  scheduler keeps the index of keys to slots; the worker moves blocks between GPU and slab in two hops.
  \<^item> \<^verbatim>\<open>Slab_Format\<close>: the slot header down to its bytes, CRC-32 (proved to change with any one byte).
  \<^item> \<^verbatim>\<open>Slab_IO\<close>: \<^verbatim>\<open>SlabIO\<close> of one rank, i.e. slot reads and writes, scan, wipe. The files are byte lists.
  \<^item> \<^verbatim>\<open>Slab_Manager\<close>, \<^verbatim>\<open>Slab_Placement\<close>, \<^verbatim>\<open>Slab_Lifecycle\<close>: \<^verbatim>\<open>SlabOffloadingManager\<close>, its invariant, the contract of
    \<^verbatim>\<open>prepare_store\<close>, rebuild from headers, reachable states, and what \<^verbatim>\<open>lookup\<close> answers over time.
  \<^item> \<^verbatim>\<open>Worker_Fs\<close>: block files of the older file tier, with failing and crashing system calls.
  \<^item> \<^verbatim>\<open>Bounce\<close>, \<^verbatim>\<open>Bounce_Inv\<close>, \<^verbatim>\<open>Bounce_Pump\<close>: \<^verbatim>\<open>BounceController\<close> and \<^verbatim>\<open>SlabBounceController\<close> as a state machine over what the copy streams
    and thread pools report; conservation of bounce slots, progress, an explicit bound for \<^verbatim>\<open>wait_all\<close>.
  \<^item> \<^verbatim>\<open>Slab_Transfer\<close>: what the pool tasks do to the slab; a chunk stored is the chunk loaded.
  \<^item> \<^verbatim>\<open>Slab_Spec\<close>: geometry, identity gate, wipe decision and worker start.
  \<^item> \<^verbatim>\<open>Slab_Connector\<close>: durable metadata, failures carried from any rank to the scheduler's index.

  \<^bold>\<open>2. The checkpoint loader\<close> (\<^verbatim>\<open>spark_nvme\<close>).
  \<^item> \<^verbatim>\<open>Ckpt_Plan\<close>: inspection of safetensors files and the plan of coalesced batches (\<^verbatim>\<open>streaming.py\<close>, \<^verbatim>\<open>coalesced.py\<close>).
  \<^item> \<^verbatim>\<open>Ckpt_Read\<close>: read loops, aligned reads and \<^verbatim>\<open>RangeReader\<close>, whose uploads complete at any time.
  \<^item> \<^verbatim>\<open>Ckpt_Stream\<close>, \<^verbatim>\<open>Ckpt_Runai\<close>: the two streaming backends; both deliver the same tensors.
  \<^item> \<^verbatim>\<open>Ckpt_Prefetch\<close>: the two threads of \<^verbatim>\<open>prefetch_weights\<close> as a step relation.
  \<^item> \<^verbatim>\<open>Artifact\<close>: publishing, inspecting and restoring prepared weights (\<^verbatim>\<open>artifact.py\<close>, \<^verbatim>\<open>transport.py\<close>).
  \<^item> \<^verbatim>\<open>Py_Values\<close>, \<^verbatim>\<open>Loader_State\<close>, \<^verbatim>\<open>Loader\<close>: attributes of modules as Python values, \<^verbatim>\<open>loader.py\<close>, \<^verbatim>\<open>adapters.py\<close>, \<^verbatim>\<open>identity.py\<close>; a restored worker is
    the natively loaded one, and the activation gate lets all ranks through or none.

  \<^bold>\<open>3. Planning and bookkeeping of the KV cache\<close> (\<^verbatim>\<open>vllm/v1/kv_cache_interface.py\<close>, \<^verbatim>\<open>vllm/v1/core\<close>).
  \<^item> \<^verbatim>\<open>Kv_Spec\<close>, \<^verbatim>\<open>Kv_Memory\<close>, \<^verbatim>\<open>Kv_Groups\<close>, \<^verbatim>\<open>Kv_Configs\<close>, \<^verbatim>\<open>Kv_Layout\<close>: sizes of layers, the memory check and the automatic length,
    grouping of layers, the plan of every worker, and that no two pages of a whole group share a byte.
  \<^item> \<^verbatim>\<open>Kv_Queue\<close>, \<^verbatim>\<open>Kv_Hash\<close>: the free list (refined by a plain list) and the block hashes.
  \<^item> \<^verbatim>\<open>Kv_Coordinator\<close>: the search for the longest prefix that is cached in every group.

  \<^bold>\<open>4. Adaptive verification of speculative decoding\<close> (\<^verbatim>\<open>src/overlay/vllm/v1/spec_decode/adaptive.py\<close>, \<^verbatim>\<open>confidence_trace.py\<close>).
  \<^item> \<^verbatim>\<open>Spec_Stats\<close>, \<^verbatim>\<open>Spec_Policy\<close>, \<^verbatim>\<open>Spec_Confidence\<close>: statistics and cost tables, the policy, and the trace collector.

  \<^verbatim>\<open>Prelude\<close> and \<^verbatim>\<open>Py_Strings\<close> hold what all parts share: exceptions, results, Python's slices, dictionaries and string methods.

  \<^bold>\<open>How the parts meet.\<close> The engine's cache groups (3) decide the block sizes from which \<^verbatim>\<open>slab_geometry\<close> lays out the slabs (1). The
  scheduler asks the index where to store or load, the connector hands the jobs to the transfer engine, and failures come back in the
  worker metadata to the index (\<^verbatim>\<open>failed_anywhere_not_served\<close>). The loader (2) runs before serving: a stream fills a model, or a
  published artifact is restored into it. Interfaces are locales, each interpreted on the model's own definitions: the checksum of a slot (\<^verbatim>\<open>byte_checksum\<close>, on CRC-32), the
  device under the slab files (\<^verbatim>\<open>block_device\<close>), the index as a map with pending stores (\<^verbatim>\<open>kv_index\<close>), the memory of a request as a monotone function of its
  length (\<^verbatim>\<open>length_memory\<close>), and a representation whose operations follow an abstract list (\<^verbatim>\<open>simulation\<close>).

  \<^bold>\<open>Conventions.\<close> A function that raises returns a sum, with the state reached at that moment where it mutates. A system call takes the next
  entry of a list of answers (a short count, a failure, the loss of the process); theorems quantify over all such lists. Python's
  integers are \<open>int\<close>, header fields and checksums are words, and floats are exact rationals (rounding and overflow to infinity are out of
  the model). Threads and streams are step relations or take, as input, what has completed. Loops whose
  end is not structural have a termination proof by a measure (the read and write loops, the binary search for the length, the padded storages), or are
  \<^verbatim>\<open>partial_function\<close>s together with theorems that they return (the walks over the free list, the hash loop, the coordinator's search). No
  fuel is used: \<^verbatim>\<open>wait_all\<close> returns within the number of pumps that \<^verbatim>\<open>wait_all_returns\<close> states, and the two prefetch threads end in every run.

  \<^bold>\<open>Parameters.\<close> Code outside the repository is an argument: base classes of the engine, the managers and the block pool behind the
  coordinator, the Run:ai streamer, the header parser of safetensors, SHA-256 and the hash functions (injectivity is a named
  hypothesis where it is needed), the sizes of element types, the registry of uniform types, the native loader and the process group.

  \<^bold>\<open>Simplifications.\<close> A job that fails in \<^verbatim>\<open>RangeReader\<close> leaves its tile unchanged; the JSON files of a slab directory come back as written;
  \<^verbatim>\<open>fsync\<close>, \<^verbatim>\<open>rename\<close> and the removal of the temporary directory succeed in \<^verbatim>\<open>publish\<close>; times, logs and metrics that nothing reads are left out.

  \<^bold>\<open>Not modelled.\<close> GPU kernels, attention backends, the model runner, the speculator and the engine's configuration files (numerical code and glue
  over engine classes that are not in the repository); the snapshots of engine files under \<^verbatim>\<open>src/overlay\<close>, \<^verbatim>\<open>src/stage\<close> and \<^verbatim>\<open>src/baseline\<close> (older
  states of the same files); the operations tools (\<^verbatim>\<open>sparkctl.py\<close>, \<^verbatim>\<open>container.py\<close>, \<^verbatim>\<open>rollout.py\<close>, checks, launch scripts: processes, containers and network); benchmarks and
  recorded results.
\<close>

end
